(* ===== verification/Kernel_Prelude.thy ===== *)
theory Kernel_Prelude
  imports Main "HOL-Library.Word"
begin

text \<open>
  Shared vocabulary of the development: the machine integers of the Rust code, its
  \<open>Result\<close> type, checked and saturating arithmetic, the iterator idioms the kernel uses
  on its fixed-size arrays (\<open>position\<close>, \<open>flatten\<close>), little-endian byte strings and
  64-bit generational tokens.  Two interfaces are stated as locales: a wire codec and a
  table of generational handles.
\<close>

unbundle bit_operations_syntax

section \<open>Types\<close>

type_synonym u8 = "8 word"
type_synonym u16 = "16 word"
type_synonym u32 = "32 word"
type_synonym u64 = "64 word"
type_synonym bytes = "8 word list"

datatype ('a, 'e) result = Ok 'a | Err 'e

section \<open>Collections of rewrite rules\<close>

named_theorems word_nat \<open>transfer of word comparisons to natural numbers\<close>
named_theorems arr \<open>facts on fixed-size arrays and their iterators\<close>

section \<open>Result and option combinators\<close>

definition map_err :: "('e \<Rightarrow> 'f) \<Rightarrow> ('a, 'e) result \<Rightarrow> ('a, 'f) result" where
  "map_err f r = (case r of Ok a \<Rightarrow> Ok a | Err e \<Rightarrow> Err (f e))"

definition ok_or :: "'a option \<Rightarrow> 'e \<Rightarrow> ('a, 'e) result" where
  "ok_or x e = (case x of Some a \<Rightarrow> Ok a | None \<Rightarrow> Err e)"

definition is_ok :: "('a, 'e) result \<Rightarrow> bool" where
  "is_ok r = (case r of Ok _ \<Rightarrow> True | Err _ \<Rightarrow> False)"

definition is_some_and :: "('a \<Rightarrow> bool) \<Rightarrow> 'a option \<Rightarrow> bool" where
  "is_some_and p x = (case x of None \<Rightarrow> False | Some a \<Rightarrow> p a)"

section \<open>Arithmetic\<close>

definition checked_add :: "'a::len word \<Rightarrow> 'a word \<Rightarrow> 'a word option" where
  "checked_add a b = (if unat a + unat b < 2 ^ LENGTH('a) then Some (a + b) else None)"

definition checked_mul :: "'a::len word \<Rightarrow> 'a word \<Rightarrow> 'a word option" where
  "checked_mul a b = (if unat a * unat b < 2 ^ LENGTH('a) then Some (a * b) else None)"

definition retire_generation :: "u32 \<Rightarrow> u32" where
  "retire_generation g = (case checked_add g 1 of Some n \<Rightarrow> n | None \<Rightarrow> 0)"

definition saturating_mul :: "'a::len word \<Rightarrow> 'a word \<Rightarrow> 'a word" where
  "saturating_mul a b = (if unat a * unat b < 2 ^ LENGTH('a) then a * b else - 1)"

definition usize_saturating_add :: "nat \<Rightarrow> nat \<Rightarrow> nat" where
  "usize_saturating_add a b = min (a + b) (2 ^ 64 - 1)"

section \<open>Iterators over fixed-size arrays\<close>

primrec position :: "('a \<Rightarrow> bool) \<Rightarrow> 'a list \<Rightarrow> nat option" where
  "position p [] = None"
| "position p (x # xs) = (if p x then Some 0 else map_option Suc (position p xs))"

primrec flatten :: "'a option list \<Rightarrow> 'a list" where
  "flatten [] = []"
| "flatten (x # xs) = (case x of None \<Rightarrow> flatten xs | Some a \<Rightarrow> a # flatten xs)"

definition sub_slice :: "'a list \<Rightarrow> nat \<Rightarrow> nat \<Rightarrow> 'a list" where
  "sub_slice xs a b = take (b - a) (drop a xs)"

section \<open>Bytes and tokens\<close>

definition to_le_bytes :: "nat \<Rightarrow> 'a::len word \<Rightarrow> bytes" where
  "to_le_bytes n w = map (\<lambda>i. ucast (drop_bit (8 * i) w)) [0..<n]"

primrec from_le_bytes :: "bytes \<Rightarrow> 'a::len word" where
  "from_le_bytes [] = 0"
| "from_le_bytes (b # bs) = ucast b OR push_bit 8 (from_le_bytes bs)"

definition handle_token :: "u32 \<Rightarrow> u32 \<Rightarrow> u64" where
  "handle_token generation slot = push_bit 32 (ucast generation) OR ucast slot"

section \<open>Results and options: basic facts\<close>

lemma map_err_Ok [simp]: "map_err f (Ok a) = Ok a"
  and map_err_Err [simp]: "map_err f (Err e) = Err (f e)"
  by (simp_all add: map_err_def)

lemma map_err_eq_Ok [simp]: "map_err f r = Ok a \<longleftrightarrow> r = Ok a"
  by (cases r) simp_all

lemma ok_or_Some [simp]: "ok_or (Some a) e = Ok a"
  and ok_or_None [simp]: "ok_or None e = Err e"
  by (simp_all add: ok_or_def)

lemma ok_or_eq_Ok [simp]: "ok_or x e = Ok a \<longleftrightarrow> x = Some a"
  by (cases x) simp_all

lemma ok_or_eq_Err [simp]: "ok_or x e = Err e' \<longleftrightarrow> x = None \<and> e' = e"
  by (cases x) auto

lemma is_ok_simps [simp]: "is_ok (Ok a)" "\<not> is_ok (Err e)"
  by (simp_all add: is_ok_def)

lemma is_some_and_simps [simp]:
  "is_some_and p None \<longleftrightarrow> False" "is_some_and p (Some a) \<longleftrightarrow> p a"
  by (simp_all add: is_some_and_def)

lemma is_some_and_iff: "is_some_and p x \<longleftrightarrow> (\<exists>a. x = Some a \<and> p a)"
  by (cases x) simp_all

section \<open>Checked arithmetic: basic facts\<close>

lemma checked_add_SomeD:
  fixes a b c :: "'a::len word"
  assumes "checked_add a b = Some c"
  shows "c = a + b" and "unat c = unat a + unat b" and "unat a + unat b < 2 ^ LENGTH('a)"
  using assms by (auto simp: checked_add_def unat_word_ariths split: if_splits)

lemma checked_add_Some_iff:
  fixes a b c :: "'a::len word"
  shows "checked_add a b = Some c \<longleftrightarrow> unat c = unat a + unat b"
proof
  assume "unat c = unat a + unat b"
  then have "unat a + unat b < 2 ^ LENGTH('a)" by (metis unsigned_less)
  then have "checked_add a b = Some (a + b)" "unat (a + b) = unat a + unat b"
    by (simp_all add: checked_add_def unat_word_ariths)
  then show "checked_add a b = Some c" using \<open>unat c = unat a + unat b\<close> by (simp add: word_unat_eq_iff)
qed (rule checked_add_SomeD(2))

text \<open>Overflow detection on words, for evaluation: it avoids large natural numbers.\<close>

lemma checked_add_code [code]:
  fixes a b :: "'a::len word"
  shows "checked_add a b = (let c = a + b in if c < a then None else Some c)"
proof -
  have bound: "unat a < 2 ^ LENGTH('a)" "unat b < 2 ^ LENGTH('a)" by (rule unsigned_less)+
  show ?thesis
  proof (cases "unat a + unat b < 2 ^ LENGTH('a)")
    case True
    then have "unat (a + b) = unat a + unat b" by (simp add: unat_word_ariths)
    then show ?thesis using True by (simp add: checked_add_def Let_def word_less_nat_alt)
  next
    case False
    then have "(unat a + unat b) mod 2 ^ LENGTH('a) = (unat a + unat b - 2 ^ LENGTH('a)) mod 2 ^ LENGTH('a)"
      by (intro le_mod_geq) simp
    also have "\<dots> = unat a + unat b - 2 ^ LENGTH('a)" using bound by (intro mod_less) linarith
    finally have "unat (a + b) = unat a + unat b - 2 ^ LENGTH('a)" by (simp add: unat_word_ariths)
    then have "a + b < a" using False bound unfolding word_less_nat_alt by linarith
    then show ?thesis using False by (simp add: checked_add_def)
  qed
qed

lemma checked_add_1_SomeD: "checked_add a 1 = Some c \<Longrightarrow> unat c = Suc (unat a)"
  by (drule checked_add_SomeD(2)) simp

lemma retire_generation_cases:
  "retire_generation g = 0 \<or> g < retire_generation g"
  using checked_add_1_SomeD [of g]
  by (auto simp: retire_generation_def word_less_nat_alt split: option.splits)

lemma checked_add_None_iff:
  fixes a b :: "'a::len word"
  shows "checked_add a b = None \<longleftrightarrow> 2 ^ LENGTH('a) \<le> unat a + unat b"
  by (auto simp: checked_add_def)

lemma checked_mul_SomeD:
  fixes a b c :: "'a::len word"
  assumes "checked_mul a b = Some c"
  shows "c = a * b" and "unat c = unat a * unat b" and "unat a * unat b < 2 ^ LENGTH('a)"
  using assms by (auto simp: checked_mul_def unat_word_ariths split: if_splits)

lemma checked_add_1_None_iff:
  fixes a :: "'a::len word"
  shows "checked_add a 1 = None \<longleftrightarrow> a = - 1"
proof -
  have "unat (1 :: 'a word) = 1" by simp
  moreover have "unat a < 2 ^ LENGTH('a)" by (rule unsigned_less)
  moreover have "unat (- 1 :: 'a word) = 2 ^ LENGTH('a) - 1"
    by (simp add: unsigned_minus_1_eq_mask mask_eq_exp_minus_1)
  ultimately show ?thesis
    unfolding checked_add_None_iff word_unat_eq_iff by linarith
qed

lemma unat_saturating_mul:
  fixes a b :: "'a::len word"
  shows "unat (saturating_mul a b) = min (unat a * unat b) (2 ^ LENGTH('a) - 1)"
proof (cases "unat a * unat b < 2 ^ LENGTH('a)")
  case True
  then show ?thesis by (simp add: saturating_mul_def unat_word_ariths)
next
  case False
  then have "min (unat a * unat b) (2 ^ LENGTH('a) - 1) = 2 ^ LENGTH('a) - 1" by linarith
  with False show ?thesis
    by (simp add: saturating_mul_def unsigned_minus_1_eq_mask mask_eq_exp_minus_1)
qed

text \<open>Overflow detection for products, for evaluation.\<close>

lemma mul_overflow_iff:
  fixes a :: "'a::len word"
  assumes "b \<noteq> 0"
  shows "- 1 div b < a \<longleftrightarrow> \<not> unat a * unat b < 2 ^ LENGTH('a)"
proof -
  have m: "unat (- 1 :: 'a word) = 2 ^ LENGTH('a) - 1"
    by (simp add: unsigned_minus_1_eq_mask mask_eq_exp_minus_1)
  have pos: "0 < unat b" using assms by (simp add: unat_gt_0)
  have "- 1 div b < a \<longleftrightarrow> (2 ^ LENGTH('a) - 1) div unat b < unat a"
    by (simp add: word_less_nat_alt unat_div m)
  also have "\<dots> \<longleftrightarrow> 2 ^ LENGTH('a) - 1 < unat a * unat b" using pos by (rule div_less_iff_less_mult)
  also have "\<dots> \<longleftrightarrow> \<not> unat a * unat b < 2 ^ LENGTH('a)"
    using zero_less_power [of "2 :: nat" "LENGTH('a)"] by linarith
  finally show ?thesis .
qed

lemma saturating_mul_code [code]:
  "saturating_mul a b = (if b \<noteq> 0 \<and> - 1 div b < a then - 1 else a * b)"
  by (cases "b = 0") (simp_all add: saturating_mul_def mul_overflow_iff)

lemma checked_mul_code [code]:
  "checked_mul a b = (if b \<noteq> 0 \<and> - 1 div b < a then None else Some (a * b))"
  by (cases "b = 0") (simp_all add: checked_mul_def mul_overflow_iff)

section \<open>Position and flatten\<close>

lemma position_SomeD [arr]:
  assumes "position p xs = Some i"
  shows "i < length xs" and "p (xs ! i)"
  using assms by (induction xs arbitrary: i) (auto split: if_splits)

lemma position_first [arr]:
  assumes "position p xs = Some i" and "j < i"
  shows "\<not> p (xs ! j)"
  using assms
proof (induction xs arbitrary: i j)
  case (Cons x xs)
  then show ?case by (cases j) (auto split: if_splits)
qed simp

lemma nth_update_if [arr]: "xs[i := x] ! j = (if i = j \<and> j < length xs then x else xs ! j)"
  by (cases "i < length xs") (auto simp: nth_list_update list_update_beyond)

lemma mod_length_less [arr]: "i < length xs \<Longrightarrow> k mod length xs < length xs"
  by (rule mod_less_divisor) (cases xs, simp_all)

lemma length_filter_update:
  "i < length xs \<Longrightarrow> length (filter P (xs[i := y])) + (if P (xs ! i) then 1 else 0) =
     length (filter P xs) + (if P y then 1 else 0)"
proof (induction xs arbitrary: i)
  case (Cons x xs)
  then show ?case by (cases i) auto
qed simp

lemma position_None_iff: "position p xs = None \<longleftrightarrow> (\<forall>x \<in> set xs. \<not> p x)"
  by (induction xs) auto

lemma position_Some_iff:
  "position p xs = Some i \<longleftrightarrow> i < length xs \<and> p (xs ! i) \<and> (\<forall>j < i. \<not> p (xs ! j))"
  (is "?l \<longleftrightarrow> ?r")
proof
  assume ?l
  then show ?r by (auto dest: position_SomeD position_first)
next
  assume r: ?r
  then have "position p xs \<noteq> None" by (auto simp: position_None_iff dest: nth_mem)
  then obtain k where k: "position p xs = Some k" by auto
  then have "k < length xs" "p (xs ! k)" "\<forall>j < k. \<not> p (xs ! j)"
    by (auto dest: position_SomeD position_first)
  with r have "k = i" by (meson linorder_neqE_nat)
  with k show ?l by simp
qed

lemma flatten_append [simp]: "flatten (xs @ ys) = flatten xs @ flatten ys"
  by (induction xs) (auto split: option.splits)

lemma set_flatten: "set (flatten xs) = {a. Some a \<in> set xs}"
  by (induction xs) (auto split: option.splits)

lemma flatten_replicate_None [simp]: "flatten (replicate n None) = []"
  by (induction n) auto

lemma flatten_map_Some [simp]: "flatten (map Some xs) = xs"
  by (induction xs) auto

lemma in_flatten_iff: "a \<in> set (flatten xs) \<longleftrightarrow> (\<exists>i < length xs. xs ! i = Some a)"
  by (auto simp: set_flatten in_set_conv_nth)

lemma length_flatten_le: "length (flatten xs) \<le> length xs"
  by (induction xs) (auto split: option.splits)

lemma sub_slice_append: "a \<le> b \<Longrightarrow> b \<le> c \<Longrightarrow> sub_slice xs a b @ sub_slice xs b c = sub_slice xs a c"
proof -
  assume "a \<le> b" "b \<le> c"
  then have "take (c - a) (drop a xs) = take ((b - a) + (c - b)) (drop a xs)" by simp
  also have "\<dots> = sub_slice xs a b @ take (c - b) (drop (b - a) (drop a xs))"
    by (simp only: take_add sub_slice_def)
  finally show ?thesis using \<open>a \<le> b\<close> by (simp add: sub_slice_def)
qed

lemma sub_slice_nth: "a < length xs \<Longrightarrow> sub_slice xs a (Suc a) = [xs ! a]"
  by (simp add: sub_slice_def take_Suc_conv_app_nth hd_drop_conv_nth)

lemma sub_slice_pair: "a + 1 < length xs \<Longrightarrow> sub_slice xs a (a + 2) = [xs ! a, xs ! (a + 1)]"
  using sub_slice_append [of a "Suc a" "Suc (Suc a)" xs] by (simp add: sub_slice_nth)

lemma sub_slice_to_end: "drop a xs = sub_slice xs a (length xs)"
  by (simp add: sub_slice_def)

lemma length_sub_slice: "b \<le> length xs \<Longrightarrow> length (sub_slice xs a b) = b - a"
  by (simp add: sub_slice_def)

lemma zeros_eq_replicate: "length xs = n \<Longrightarrow> \<forall>x \<in> set xs. x = a \<Longrightarrow> xs = replicate n a"
  by (auto intro: replicate_eqI)

section \<open>Little-endian byte strings\<close>

lemma length_to_le_bytes [simp]: "length (to_le_bytes n w) = n"
  by (simp add: to_le_bytes_def)

lemma bit_from_le_bytes:
  "bit (from_le_bytes bs :: 'a::len word) i \<longleftrightarrow>
     i < LENGTH('a) \<and> i div 8 < length bs \<and> bit (bs ! (i div 8)) (i mod 8)"
proof (induction bs arbitrary: i)
  case Nil
  then show ?case by simp
next
  case (Cons b bs)
  show ?case
  proof (cases "i < 8")
    case True
    then show ?thesis by (auto simp: bit_or_iff bit_push_bit_iff bit_ucast_iff dest: bit_imp_le_length)
  next
    case False
    then obtain j where j: "i = j + 8" by (metis add.commute le_Suc_ex linorder_not_le)
    have "\<not> bit b i" using False by (auto dest: bit_imp_le_length)
    moreover have "(j + 8) div 8 = Suc (j div 8)" by simp
    ultimately show ?thesis using j Cons.IH [of j]
      by (auto simp: bit_or_iff bit_push_bit_iff bit_ucast_iff dest: bit_imp_le_length)
  qed
qed

lemma nth_to_le_bytes: "i < n \<Longrightarrow> to_le_bytes n w ! i = ucast (drop_bit (8 * i) w)"
  by (simp add: to_le_bytes_def)

lemma from_to_le_bytes [simp]:
  fixes w :: "'a::len word"
  assumes "8 * n = LENGTH('a)"
  shows "from_le_bytes (to_le_bytes n w) = w"
proof (rule bit_word_eqI)
  fix i assume i: "i < LENGTH('a)"
  then have "i div 8 < n" using assms by linarith
  then show "bit (from_le_bytes (to_le_bytes n w) :: 'a word) i \<longleftrightarrow> bit w i"
    using i by (simp add: bit_from_le_bytes nth_to_le_bytes bit_ucast_iff bit_drop_bit_eq)
qed

lemma to_from_le_bytes [simp]:
  assumes "length bs = n" and "8 * n \<le> LENGTH('a)"
  shows "to_le_bytes n (from_le_bytes bs :: 'a::len word) = bs"
proof (rule nth_equalityI)
  show "length (to_le_bytes n (from_le_bytes bs :: 'a word)) = length bs"
    using assms by simp
next
  fix i assume "i < length (to_le_bytes n (from_le_bytes bs :: 'a word))"
  then have i: "i < n" by simp
  show "to_le_bytes n (from_le_bytes bs :: 'a word) ! i = bs ! i"
  proof (rule bit_word_eqI)
    fix k assume k: "k < LENGTH(8)"
    then have "8 * i + k < LENGTH('a)" using i assms by simp
    moreover have "(8 * i + k) div 8 = i" "(8 * i + k) mod 8 = k" using k by auto
    ultimately show "bit (to_le_bytes n (from_le_bytes bs :: 'a word) ! i) k \<longleftrightarrow> bit (bs ! i) k"
      using i k assms
      by (simp add: nth_to_le_bytes bit_ucast_iff bit_drop_bit_eq bit_from_le_bytes)
  qed
qed

section \<open>Generational tokens\<close>

lemma bit_handle_token:
  "bit (handle_token g s) i \<longleftrightarrow> (if i < 32 then bit s i else bit g (i - 32))"
  by (auto simp: handle_token_def bit_or_iff bit_push_bit_iff bit_ucast_iff
      dest: bit_imp_le_length)

lemma ucast_handle_token [simp]: "(ucast (handle_token g s) :: u32) = s"
  by (rule bit_word_eqI) (simp add: bit_ucast_iff bit_handle_token)

lemma drop_handle_token [simp]: "(ucast (drop_bit 32 (handle_token g s)) :: u32) = g"
  by (rule bit_word_eqI) (simp add: bit_ucast_iff bit_drop_bit_eq bit_handle_token)

lemma handle_token_split [simp]: "handle_token (ucast (drop_bit 32 t)) (ucast t) = t"
  by (rule bit_word_eqI) (auto simp: bit_handle_token bit_ucast_iff bit_drop_bit_eq)

lemma drop_bit_32_eq_0_iff: "drop_bit 32 (t :: u64) = 0 \<longleftrightarrow> (ucast (drop_bit 32 t) :: u32) = 0"
proof
  assume z: "(ucast (drop_bit 32 t) :: u32) = 0"
  show "drop_bit 32 t = 0"
  proof (rule bit_word_eqI)
    fix i assume "i < LENGTH(64)"
    have "bit (ucast (drop_bit 32 t) :: u32) i = bit (0 :: u32) i" using z by simp
    then show "bit (drop_bit 32 t) i = bit (0 :: u64) i"
      by (auto simp: bit_ucast_iff bit_drop_bit_eq dest: bit_imp_le_length)
  qed
qed simp

section \<open>Machine indices\<close>

lemma unat_of_nat_u32 [word_nat]: "i < n \<Longrightarrow> n \<le> 2 ^ 32 \<Longrightarrow> unat (of_nat i :: u32) = i"
  by (simp add: unat_of_nat)

lemma unat_u64_less [word_nat]: "unat (w :: u64) < 18446744073709551616"
  using unsigned_less [of w, where 'a = nat] by simp

lemma unat_u32_less [word_nat]: "unat (w :: u32) < 4294967296"
  using unsigned_less [of w, where 'a = nat] by simp

lemma unat_ucast_u32 [word_nat]: "unat (ucast (w :: u32) :: u64) = unat w"
  using unat_u32_less [of w] by (simp add: unsigned_ucast_eq take_bit_nat_eq_self)

lemma unat_exp: "k < LENGTH('a) \<Longrightarrow> unat (2 ^ k :: 'a::len word) = 2 ^ k"
proof -
  assume "k < LENGTH('a)"
  then have "unat (of_nat (2 ^ k) :: 'a word) = 2 ^ k"
    by (simp only: unsigned_of_nat) (simp add: take_bit_nat_eq_self)
  then show ?thesis by simp
qed

section \<open>Interface: a wire codec\<close>

text \<open>
  An encoder and a decoder that agree: a well-formed message survives the wire, and the
  decoder accepts nothing but encodings.  Both directions together make the wire format
  canonical: one byte string per message.
\<close>

locale codec =
  fixes enc :: "'m \<Rightarrow> bytes"
    and dec :: "bytes \<Rightarrow> ('m, 'e) result"
    and wf :: "'m \<Rightarrow> bool"
  assumes dec_enc: "wf m \<Longrightarrow> dec (enc m) = Ok m"
    and enc_dec: "dec b = Ok m \<Longrightarrow> wf m \<and> enc m = b"
begin

lemma enc_inj: "wf m \<Longrightarrow> wf m' \<Longrightarrow> enc m = enc m' \<Longrightarrow> m = m'"
  by (metis dec_enc result.inject(1))

lemma dec_inj: "dec b = Ok m \<Longrightarrow> dec b' = Ok m \<Longrightarrow> b = b'"
  by (metis enc_dec)

lemma dec_iff: "dec b = Ok m \<longleftrightarrow> wf m \<and> b = enc m"
  using dec_enc enc_dec by blast

end

section \<open>Interface: a table of generational handles\<close>

text \<open>
  What the kernel's fixed-capacity tables promise their clients.  \<open>view\<close> reads a table
  as a partial map from live handles to what they stand for; allocation binds a handle
  that was not live and changes no other, release unbinds exactly one.  A refused
  operation changes nothing.
\<close>

datatype ('a, 'h) table_op = Alloc 'a | Release 'h

fun table_exec ::
  "('a \<Rightarrow> 's \<Rightarrow> ('h, 'e) result \<times> 's) \<Rightarrow> ('h \<Rightarrow> 's \<Rightarrow> (unit, 'e) result \<times> 's) \<Rightarrow>
     ('a, 'h) table_op \<Rightarrow> 's \<Rightarrow> 's" where
  "table_exec alloc free (Alloc a) s = snd (alloc a s)"
| "table_exec alloc free (Release h) s = snd (free h s)"

fun table_run ::
  "('a \<Rightarrow> 's \<Rightarrow> ('h, 'e) result \<times> 's) \<Rightarrow> ('h \<Rightarrow> 's \<Rightarrow> (unit, 'e) result \<times> 's) \<Rightarrow>
     ('a, 'h) table_op list \<Rightarrow> 's \<Rightarrow> 's" where
  "table_run alloc free [] s = s"
| "table_run alloc free (x # xs) s = table_run alloc free xs (table_exec alloc free x s)"

lemma table_run_append [simp]:
  "table_run alloc free (xs @ ys) s = table_run alloc free ys (table_run alloc free xs s)"
  by (induction xs arbitrary: s) simp_all

locale handle_table =
  fixes view :: "'s \<Rightarrow> 'h \<Rightarrow> 'v option"
    and inv :: "'s \<Rightarrow> bool"
    and content :: "'a \<Rightarrow> 'v"
    and alloc :: "'a \<Rightarrow> 's \<Rightarrow> ('h, 'e) result \<times> 's"
    and free :: "'h \<Rightarrow> 's \<Rightarrow> (unit, 'e) result \<times> 's"
  assumes alloc_inv: "inv s \<Longrightarrow> inv (snd (alloc a s))"
    and free_inv: "inv s \<Longrightarrow> inv (snd (free h s))"
    and alloc_ok: "inv s \<Longrightarrow> alloc a s = (Ok h, s') \<Longrightarrow>
          view s h = None \<and> view s' = (view s)(h \<mapsto> content a)"
    and alloc_err: "alloc a s = (Err e, s') \<Longrightarrow> s' = s"
    and free_ok: "inv s \<Longrightarrow> free h s = (Ok u, s') \<Longrightarrow>
          view s h \<noteq> None \<and> view s' = (view s)(h := None)"
    and free_err: "inv s \<Longrightarrow> free h s = (Err e, s') \<Longrightarrow> s' = s \<and> view s h = None"
begin

lemma exec_inv: "inv s \<Longrightarrow> inv (table_exec alloc free x s)"
  by (cases x) (simp_all add: alloc_inv free_inv)

lemma run_inv: "inv s \<Longrightarrow> inv (table_run alloc free xs s)"
  by (induction xs arbitrary: s) (simp_all add: exec_inv)

lemma alloc_view: "inv s \<Longrightarrow> view s g = Some v \<Longrightarrow> view (snd (alloc a s)) g = Some v"
proof (cases "alloc a s")
  case (Pair r s')
  assume "inv s" "view s g = Some v"
  then show ?thesis
    using Pair alloc_ok [of s a _ s'] by (cases r) (auto dest: alloc_err)
qed

lemma free_view_other: "inv s \<Longrightarrow> g \<noteq> h \<Longrightarrow> view (snd (free h s)) g = view s g"
proof (cases "free h s")
  case (Pair r s')
  assume "inv s" "g \<noteq> h"
  then show ?thesis
    using Pair by (cases r) (auto dest: free_ok free_err)
qed

lemma live_until_freed:
  "inv s \<Longrightarrow> view s g = Some v \<Longrightarrow> Release g \<notin> set xs \<Longrightarrow> view (table_run alloc free xs s) g = Some v"
proof (induction xs arbitrary: s)
  case (Cons x xs)
  then have "view (table_exec alloc free x s) g = Some v"
    by (cases x) (auto simp: alloc_view free_view_other)
  with Cons show ?case by (simp add: exec_inv)
qed simp

lemma free_twice: "inv s \<Longrightarrow> free h s = (Ok u, s') \<Longrightarrow> \<exists>e. free h s' = (Err e, s')"
proof -
  assume inv: "inv s" and fr: "free h s = (Ok u, s')"
  then have inv': "inv s'" and dead: "view s' h = None"
    using free_inv [OF inv, of h] free_ok [OF inv fr] by simp_all
  obtain r s'' where eq: "free h s' = (r, s'')" by fastforce
  then show ?thesis
    using inv' dead by (cases r) (auto dest: free_ok free_err)
qed

end

text \<open>
  A table whose handles retire for good: \<open>spent\<close> marks handles that are dead now and
  stay dead under every later operation.
\<close>

locale retiring_table = handle_table view inv content alloc free
  for view :: "'s \<Rightarrow> 'h \<Rightarrow> 'v option"
    and inv :: "'s \<Rightarrow> bool"
    and content :: "'a \<Rightarrow> 'v"
    and alloc :: "'a \<Rightarrow> 's \<Rightarrow> ('h, 'e) result \<times> 's"
    and free :: "'h \<Rightarrow> 's \<Rightarrow> (unit, 'e) result \<times> 's" +
  fixes spent :: "'s \<Rightarrow> 'h \<Rightarrow> bool"
  assumes free_spent: "inv s \<Longrightarrow> free h s = (Ok u, s') \<Longrightarrow> spent s' h"
    and spent_dead: "inv s \<Longrightarrow> spent s h \<Longrightarrow> view s h = None"
    and spent_alloc: "inv s \<Longrightarrow> spent s h \<Longrightarrow> spent (snd (alloc a s)) h"
    and spent_free: "inv s \<Longrightarrow> spent s h \<Longrightarrow> spent (snd (free g s)) h"
begin

lemma spent_run: "inv s \<Longrightarrow> spent s h \<Longrightarrow> spent (table_run alloc free xs s) h"
proof (induction xs arbitrary: s)
  case (Cons x xs)
  then have "spent (table_exec alloc free x s) h"
    by (cases x) (simp_all add: spent_alloc spent_free)
  with Cons show ?case by (simp add: exec_inv)
qed simp

lemma freed_stays_dead:
  "inv s \<Longrightarrow> free h s = (Ok u, s') \<Longrightarrow> view (table_run alloc free xs s') h = None"
  by (metis free_inv free_spent run_inv snd_conv spent_dead spent_run)

end

end
