(* ===== verification/Scheduler.thy ===== *)
theory Scheduler
  imports Kernel_Prelude
begin

text \<open>
  The scheduler, after \<open>crates/mrml-kernel/src/scheduler.rs\<close>: the fixed-capacity weighted
  round-robin policy (\<open>Scheduler\<close>), its timer-driven owner (\<open>KernelScheduler\<close>), task
  migration between schedulers and the periodic balancing policy.  \<open>usize\<close> values are natural
  numbers: every sum the code forms stays below twice the array length.  The ownership mailbox
  of the same file is in theory \<open>Mailbox\<close>.
\<close>

section \<open>Definitions: tasks\<close>

record task_id =
  tid_slot :: u32
  tid_generation :: u32

definition tid_token :: "task_id \<Rightarrow> u64" where
  "tid_token t = handle_token (tid_generation t) (tid_slot t)"

definition tid_from_token :: "u64 \<Rightarrow> task_id" where
  "tid_from_token t = \<lparr>tid_slot = ucast t, tid_generation = ucast (drop_bit 32 t)\<rparr>"

datatype task_state = Runnable | Blocked

text \<open>The field of \<open>Priority\<close> is private: its four constants are its only values.\<close>

datatype priority = BACKGROUND | NORMAL | RESPONSIVE | REALTIME

fun priority_level :: "priority \<Rightarrow> nat" where
  "priority_level BACKGROUND = 0"
| "priority_level NORMAL = 1"
| "priority_level RESPONSIVE = 2"
| "priority_level REALTIME = 3"

definition priority_budget :: "priority \<Rightarrow> u8" where
  "priority_budget p = push_bit (priority_level p) 1"

datatype scheduler_error = Full | InvalidTask | RetiredSlot

datatype kernel_schedule_error =
  InvalidTimerFrequency | InvalidQuantum | TickExhausted | NoCurrentTask
| CurrentTaskCannotMigrate | NoMigrationCandidate | SchedulerErr scheduler_error

record scheduler_load =
  l_occupied :: nat
  l_runnable :: nat
  l_capacity :: nat

definition load_new :: "nat \<Rightarrow> nat \<Rightarrow> nat \<Rightarrow> scheduler_load option" where
  "load_new occupied runnable capacity =
     (if runnable > occupied \<or> occupied > capacity then None
      else Some \<lparr>l_occupied = occupied, l_runnable = runnable, l_capacity = capacity\<rparr>)"

record task =
  t_generation :: u32
  t_state :: task_state
  t_priority :: priority
  t_budget :: u8
  t_occupied :: bool

definition task_EMPTY :: task where
  "task_EMPTY = \<lparr>t_generation = 1, t_state = Blocked, t_priority = NORMAL, t_budget = 0,
     t_occupied = False\<rparr>"

section \<open>Definitions: the round-robin policy\<close>

record scheduler =
  tasks :: "task list"
  cursor :: nat

definition sched_new :: "nat \<Rightarrow> scheduler" where
  "sched_new n = \<lparr>tasks = replicate n task_EMPTY, cursor = 0\<rparr>"

definition sched_create ::
  "priority \<Rightarrow> scheduler \<Rightarrow> (task_id, scheduler_error) result \<times> scheduler" where
  "sched_create p s =
     (case position (\<lambda>t. \<not> t_occupied t \<and> t_generation t \<noteq> 0) (tasks s) of
        None \<Rightarrow> (Err Full, s)
      | Some slot \<Rightarrow>
          let t = tasks s ! slot in
          (Ok \<lparr>tid_slot = of_nat slot, tid_generation = t_generation t\<rparr>,
           s\<lparr>tasks := (tasks s)[slot := t\<lparr>t_occupied := True, t_state := Runnable,
               t_priority := p, t_budget := priority_budget p\<rparr>]\<rparr>))"

definition sched_task :: "scheduler \<Rightarrow> task_id \<Rightarrow> (task, scheduler_error) result" where
  "sched_task s h =
     (if unat (tid_slot h) < length (tasks s) then
        (let t = tasks s ! unat (tid_slot h) in
         if t_occupied t \<and> t_generation t = tid_generation h then Ok t else Err InvalidTask)
      else Err InvalidTask)"

text \<open>\<open>task_mut\<close> hands out a mutable reference: the caller's update is written back.\<close>

definition task_mut ::
  "task_id \<Rightarrow> (task \<Rightarrow> task) \<Rightarrow> scheduler \<Rightarrow> (unit, scheduler_error) result \<times> scheduler" where
  "task_mut h f s =
     (case sched_task s h of
        Err e \<Rightarrow> (Err e, s)
      | Ok t \<Rightarrow> (Ok (), s\<lparr>tasks := (tasks s)[unat (tid_slot h) := f t]\<rparr>))"

definition sched_set_state ::
  "task_id \<Rightarrow> task_state \<Rightarrow> scheduler \<Rightarrow> (unit, scheduler_error) result \<times> scheduler" where
  "sched_set_state h st =
     task_mut h (\<lambda>t. t\<lparr>t_state := st,
       t_budget := if st = Runnable \<and> t_budget t = 0 then priority_budget (t_priority t)
                   else t_budget t\<rparr>)"

definition sched_remove ::
  "task_id \<Rightarrow> scheduler \<Rightarrow> (unit, scheduler_error) result \<times> scheduler" where
  "sched_remove h =
     task_mut h (\<lambda>t. t\<lparr>t_occupied := False, t_state := Blocked, t_budget := 0,
       t_generation := retire_generation (t_generation t)\<rparr>)"

definition task_runnable :: "task \<Rightarrow> bool" where
  "task_runnable t \<longleftrightarrow> t_occupied t \<and> t_state t = Runnable"

definition slot_id :: "scheduler \<Rightarrow> nat \<Rightarrow> task_id" where
  "slot_id s slot = \<lparr>tid_slot = of_nat slot, tid_generation = t_generation (tasks s ! slot)\<rparr>"

definition scan_order :: "scheduler \<Rightarrow> nat list" where
  "scan_order s = map (\<lambda>distance. (cursor s + distance) mod length (tasks s)) [0..<length (tasks s)]"

definition select_with_budget :: "scheduler \<Rightarrow> task_id option \<times> scheduler" where
  "select_with_budget s =
     (case find (\<lambda>slot. task_runnable (tasks s ! slot) \<and> t_budget (tasks s ! slot) \<noteq> 0) (scan_order s) of
        None \<Rightarrow> (None, s)
      | Some slot \<Rightarrow>
          (Some (slot_id s slot),
           s\<lparr>tasks := (tasks s)[slot := (tasks s ! slot)\<lparr>t_budget := t_budget (tasks s ! slot) - 1\<rparr>],
             cursor := (slot + 1) mod length (tasks s)\<rparr>))"

definition refill_budgets :: "scheduler \<Rightarrow> scheduler" where
  "refill_budgets s =
     s\<lparr>tasks := map (\<lambda>t. if task_runnable t then t\<lparr>t_budget := priority_budget (t_priority t)\<rparr> else t)
         (tasks s)\<rparr>"

definition sched_schedule :: "scheduler \<Rightarrow> task_id option \<times> scheduler" where
  "sched_schedule s =
     (case select_with_budget s of
        (Some h, s') \<Rightarrow> (Some h, s')
      | (None, s') \<Rightarrow>
          if \<exists>t \<in> set (tasks s'). task_runnable t then select_with_budget (refill_budgets s')
          else (None, refill_budgets s'))"

definition sched_load :: "scheduler \<Rightarrow> scheduler_load" where
  "sched_load s = \<lparr>l_occupied = length (filter t_occupied (tasks s)),
     l_runnable = length (filter task_runnable (tasks s)), l_capacity = length (tasks s)\<rparr>"

definition migration_candidate :: "scheduler \<Rightarrow> task_id option \<Rightarrow> task_id option" where
  "migration_candidate s excluded =
     map_option (slot_id s)
       (find (\<lambda>slot. task_runnable (tasks s ! slot) \<and> Some (slot_id s slot) \<noteq> excluded) (scan_order s))"

section \<open>Definitions: the timer-driven scheduler\<close>

datatype schedule_outcome = Idle | Continue task_id | Switch "task_id option" task_id

record kernel_scheduler =
  ks_scheduler :: scheduler
  ks_current :: "task_id option"
  ks_ticks :: u64
  ks_quantum_ticks :: u32
  ks_remaining :: u32

definition ks_new :: "nat \<Rightarrow> u32 \<Rightarrow> u32 \<Rightarrow> (kernel_scheduler, kernel_schedule_error) result" where
  "ks_new n ticks_per_second quantum_ticks =
     (if \<not> (10 \<le> ticks_per_second \<and> ticks_per_second \<le> 100000) then Err InvalidTimerFrequency
      else if quantum_ticks = 0 \<or> quantum_ticks > ticks_per_second then Err InvalidQuantum
      else Ok \<lparr>ks_scheduler = sched_new n, ks_current = None, ks_ticks = 0,
               ks_quantum_ticks = quantum_ticks, ks_remaining = quantum_ticks\<rparr>)"

text \<open>An operation of the inner scheduler, run on the field of the owner.\<close>

definition on_scheduler ::
  "(scheduler \<Rightarrow> ('a, scheduler_error) result \<times> scheduler) \<Rightarrow> kernel_scheduler \<Rightarrow>
     ('a, kernel_schedule_error) result \<times> kernel_scheduler" where
  "on_scheduler f k =
     (let (r, s) = f (ks_scheduler k) in (map_err SchedulerErr r, k\<lparr>ks_scheduler := s\<rparr>))"

definition ks_create ::
  "priority \<Rightarrow> kernel_scheduler \<Rightarrow> (task_id, kernel_schedule_error) result \<times> kernel_scheduler" where
  "ks_create p = on_scheduler (sched_create p)"

definition ks_load :: "kernel_scheduler \<Rightarrow> scheduler_load" where
  "ks_load k = sched_load (ks_scheduler k)"

definition select_replacement ::
  "task_id option \<Rightarrow> kernel_scheduler \<Rightarrow> schedule_outcome \<times> kernel_scheduler" where
  "select_replacement from k =
     (let (r, s) = sched_schedule (ks_scheduler k);
          k' = k\<lparr>ks_remaining := ks_quantum_ticks k, ks_scheduler := s, ks_current := r\<rparr> in
      (case r of
         Some h \<Rightarrow> if from = Some h then Continue h else Switch from h
       | None \<Rightarrow> Idle, k'))"

definition ks_start :: "kernel_scheduler \<Rightarrow> schedule_outcome \<times> kernel_scheduler" where
  "ks_start k =
     (case ks_current k of Some h \<Rightarrow> (Continue h, k) | None \<Rightarrow> select_replacement None k)"

text \<open>An infallible operation in a position that returns a \<open>Result\<close>.\<close>

definition wrap_ok :: "'a \<times> 's \<Rightarrow> ('a, 'e) result \<times> 's" where
  "wrap_ok x = (Ok (fst x), snd x)"

definition ks_timer_tick ::
  "kernel_scheduler \<Rightarrow> (schedule_outcome, kernel_schedule_error) result \<times> kernel_scheduler" where
  "ks_timer_tick k =
     (case checked_add (ks_ticks k) 1 of
        None \<Rightarrow> (Err TickExhausted, k)
      | Some n \<Rightarrow>
          let k = k\<lparr>ks_ticks := n\<rparr> in
          (case ks_current k of
             None \<Rightarrow> wrap_ok (select_replacement None k)
           | Some h \<Rightarrow>
               let k = k\<lparr>ks_remaining := ks_remaining k - 1\<rparr> in
               if ks_remaining k \<noteq> 0 then (Ok (Continue h), k)
               else wrap_ok (select_replacement (Some h) k)))"

definition ks_yield_current ::
  "kernel_scheduler \<Rightarrow> (schedule_outcome, kernel_schedule_error) result \<times> kernel_scheduler" where
  "ks_yield_current k =
     (case ks_current k of
        None \<Rightarrow> (Err NoCurrentTask, k)
      | Some h \<Rightarrow> wrap_ok (select_replacement (Some h) k))"

definition ks_block_current ::
  "kernel_scheduler \<Rightarrow> (schedule_outcome, kernel_schedule_error) result \<times> kernel_scheduler" where
  "ks_block_current k =
     (case ks_current k of
        None \<Rightarrow> (Err NoCurrentTask, k)
      | Some h \<Rightarrow>
          (case on_scheduler (sched_set_state h Blocked) (k\<lparr>ks_current := None\<rparr>) of
             (Err e, k') \<Rightarrow> (Err e, k')
           | (Ok _, k') \<Rightarrow> wrap_ok (select_replacement (Some h) k')))"

definition ks_terminate_current ::
  "kernel_scheduler \<Rightarrow> (schedule_outcome, kernel_schedule_error) result \<times> kernel_scheduler" where
  "ks_terminate_current k =
     (case ks_current k of
        None \<Rightarrow> (Err NoCurrentTask, k)
      | Some h \<Rightarrow>
          (case on_scheduler (sched_remove h) (k\<lparr>ks_current := None\<rparr>) of
             (Err e, k') \<Rightarrow> (Err e, k')
           | (Ok _, k') \<Rightarrow> wrap_ok (select_replacement (Some h) k')))"

definition ks_wake ::
  "task_id \<Rightarrow> kernel_scheduler \<Rightarrow> (unit, kernel_schedule_error) result \<times> kernel_scheduler" where
  "ks_wake h = on_scheduler (sched_set_state h Runnable)"

section \<open>Definitions: migration\<close>

record task_migration =
  mig_source :: task_id
  mig_destination :: task_id
  mig_state :: task_state
  mig_priority :: priority

datatype balance_outcome = Balanced | Migrated task_migration

definition ks_migrate_to ::
  "task_id \<Rightarrow> kernel_scheduler \<Rightarrow> kernel_scheduler \<Rightarrow>
     (task_migration, kernel_schedule_error) result \<times> kernel_scheduler \<times> kernel_scheduler" where
  "ks_migrate_to h k dst =
     (if ks_current k = Some h then (Err CurrentTaskCannotMigrate, k, dst)
      else case sched_task (ks_scheduler k) h of
        Err e \<Rightarrow> (Err (SchedulerErr e), k, dst)
      | Ok t \<Rightarrow>
          (case ks_create (t_priority t) dst of
             (Err e, dst) \<Rightarrow> (Err e, k, dst)
           | (Ok d, dst) \<Rightarrow>
               (case (if t_state t = Blocked then on_scheduler (sched_set_state d Blocked) dst
                      else (Ok (), dst)) of
                  (Err e, dst) \<Rightarrow> (Err e, k, snd (on_scheduler (sched_remove d) dst))
                | (Ok _, dst) \<Rightarrow>
                    (case on_scheduler (sched_remove h) k of
                       (Err e, k) \<Rightarrow> (Err e, k, snd (on_scheduler (sched_remove d) dst))
                     | (Ok _, k) \<Rightarrow>
                         (Ok \<lparr>mig_source = h, mig_destination = d, mig_state = t_state t,
                              mig_priority = t_priority t\<rparr>, k, dst)))))"

definition ks_rebalance_to ::
  "kernel_scheduler \<Rightarrow> kernel_scheduler \<Rightarrow>
     (balance_outcome, kernel_schedule_error) result \<times> kernel_scheduler \<times> kernel_scheduler" where
  "ks_rebalance_to k dst =
     (if l_runnable (ks_load k) \<le> usize_saturating_add (l_runnable (ks_load dst)) 1
      then (Ok Balanced, k, dst)
      else case migration_candidate (ks_scheduler k) (ks_current k) of
        None \<Rightarrow> (Err NoMigrationCandidate, k, dst)
      | Some h \<Rightarrow>
          (case ks_migrate_to h k dst of
             (Err e, k, dst) \<Rightarrow> (Err e, k, dst)
           | (Ok m, k, dst) \<Rightarrow> (Ok (Migrated m), k, dst)))"

record detached_task =
  det_source :: task_id
  det_state :: task_state
  det_priority :: priority

definition ks_detach ::
  "task_id \<Rightarrow> kernel_scheduler \<Rightarrow>
     (detached_task, kernel_schedule_error) result \<times> kernel_scheduler" where
  "ks_detach h k =
     (if ks_current k = Some h then (Err CurrentTaskCannotMigrate, k)
      else case sched_task (ks_scheduler k) h of
        Err e \<Rightarrow> (Err (SchedulerErr e), k)
      | Ok t \<Rightarrow>
          (case on_scheduler (sched_remove h) k of
             (Err e, k) \<Rightarrow> (Err e, k)
           | (Ok _, k) \<Rightarrow>
               (Ok \<lparr>det_source = h, det_state = t_state t, det_priority = t_priority t\<rparr>, k)))"

definition ks_rebalance_candidate ::
  "scheduler_load \<Rightarrow> kernel_scheduler \<Rightarrow> (task_id option, kernel_schedule_error) result" where
  "ks_rebalance_candidate destination k =
     (if l_occupied destination = l_capacity destination
         \<or> l_runnable (ks_load k) \<le> usize_saturating_add (l_runnable destination) 1
      then Ok None
      else ok_or (map_option Some (migration_candidate (ks_scheduler k) (ks_current k)))
             NoMigrationCandidate)"

definition ks_detach_for_rebalance ::
  "scheduler_load \<Rightarrow> kernel_scheduler \<Rightarrow>
     (detached_task option, kernel_schedule_error) result \<times> kernel_scheduler" where
  "ks_detach_for_rebalance destination k =
     (case ks_rebalance_candidate destination k of
        Err e \<Rightarrow> (Err e, k)
      | Ok None \<Rightarrow> (Ok None, k)
      | Ok (Some h) \<Rightarrow>
          (case ks_detach h k of
             (Err e, k) \<Rightarrow> (Err e, k)
           | (Ok d, k) \<Rightarrow> (Ok (Some d), k)))"

text \<open>A refused admission returns the ticket beside the error.\<close>

definition ks_attach ::
  "detached_task \<Rightarrow> kernel_scheduler \<Rightarrow>
     (task_migration, kernel_schedule_error \<times> detached_task) result \<times> kernel_scheduler" where
  "ks_attach d k =
     (case ks_create (det_priority d) k of
        (Err e, k) \<Rightarrow> (Err (e, d), k)
      | (Ok h, k) \<Rightarrow>
          (case (if det_state d = Blocked then on_scheduler (sched_set_state h Blocked) k
                 else (Ok (), k)) of
             (Err e, k) \<Rightarrow> (Err (e, d), snd (on_scheduler (sched_remove h) k))
           | (Ok _, k) \<Rightarrow>
               (Ok \<lparr>mig_source = det_source d, mig_destination = h, mig_state = det_state d,
                    mig_priority = det_priority d\<rparr>, k)))"

section \<open>Definitions: the periodic balancer\<close>

datatype balance_policy_error =
  InvalidCpuCount | InvalidLocalCpu | InvalidInterval | TickRegression | BalanceTickExhausted

record balance_target =
  bt_cpu :: nat
  bt_load :: scheduler_load

record periodic_balancer =
  pb_interval_ticks :: u64
  pb_next_tick :: u64
  pb_last_tick :: u64
  pb_cursor :: nat

definition pb_new :: "nat \<Rightarrow> u64 \<Rightarrow> u64 \<Rightarrow> (periodic_balancer, balance_policy_error) result" where
  "pb_new cpus start_tick interval_ticks =
     (if cpus < 2 then Err InvalidCpuCount
      else if interval_ticks = 0 then Err InvalidInterval
      else case checked_add start_tick interval_ticks of
        None \<Rightarrow> Err BalanceTickExhausted
      | Some n \<Rightarrow> Ok \<lparr>pb_interval_ticks = interval_ticks, pb_next_tick = n,
                       pb_last_tick = start_tick, pb_cursor = 0\<rparr>)"

definition load_less :: "scheduler_load \<Rightarrow> scheduler_load \<Rightarrow> bool" where
  "load_less a b \<longleftrightarrow> l_runnable a < l_runnable b \<or>
     (l_runnable a = l_runnable b \<and> l_occupied a < l_occupied b)"

definition balance_eligible :: "nat \<Rightarrow> scheduler_load list \<Rightarrow> nat \<Rightarrow> bool" where
  "balance_eligible local_cpu loads cpu \<longleftrightarrow>
     \<not> (cpu = local_cpu \<or> l_occupied (loads ! cpu) = l_capacity (loads ! cpu)
        \<or> l_runnable (loads ! local_cpu) < usize_saturating_add (l_runnable (loads ! cpu)) 2)"

fun balance_scan ::
  "nat \<Rightarrow> scheduler_load list \<Rightarrow> nat list \<Rightarrow> (nat \<times> scheduler_load) option \<Rightarrow>
     (nat \<times> scheduler_load) option" where
  "balance_scan local_cpu loads [] selected = selected"
| "balance_scan local_cpu loads (cpu # cpus) selected =
     balance_scan local_cpu loads cpus
       (if balance_eligible local_cpu loads cpu
           \<and> (case selected of None \<Rightarrow> True | Some (_, load) \<Rightarrow> load_less (loads ! cpu) load)
        then Some (cpu, loads ! cpu) else selected)"

definition pb_poll ::
  "u64 \<Rightarrow> nat \<Rightarrow> scheduler_load list \<Rightarrow> periodic_balancer \<Rightarrow>
     (balance_target option, balance_policy_error) result \<times> periodic_balancer" where
  "pb_poll tick local_cpu loads b =
     (if local_cpu \<ge> length loads then (Err InvalidLocalCpu, b)
      else if tick < pb_last_tick b then (Err TickRegression, b)
      else let b = b\<lparr>pb_last_tick := tick\<rparr> in
        if tick < pb_next_tick b then (Ok None, b)
        else case checked_add tick (pb_interval_ticks b) of
          None \<Rightarrow> (Err BalanceTickExhausted, b)
        | Some n \<Rightarrow>
            let b = b\<lparr>pb_next_tick := n\<rparr> in
            (case balance_scan local_cpu loads
                    (map (\<lambda>offset. (pb_cursor b + offset) mod length loads) [0..<length loads]) None of
               None \<Rightarrow> (Ok None, b)
             | Some (cpu, load) \<Rightarrow>
                 (Ok (Some \<lparr>bt_cpu = cpu, bt_load = load\<rparr>),
                  b\<lparr>pb_cursor := (cpu + 1) mod length loads\<rparr>)))"

section \<open>Views and invariants\<close>

text \<open>
  A scheduler read as a map from live task identities to state and priority.  The invariant
  bounds the table by the 32-bit slot field, keeps the cursor inside it, gives every occupied
  slot a nonzero generation and every budget its largest value.
\<close>

definition sched_view :: "scheduler \<Rightarrow> task_id \<Rightarrow> (task_state \<times> priority) option" where
  "sched_view s h = (case sched_task s h of Ok t \<Rightarrow> Some (t_state t, t_priority t) | Err _ \<Rightarrow> None)"

definition task_ok :: "task \<Rightarrow> bool" where
  "task_ok t \<longleftrightarrow> (t_occupied t \<longrightarrow> t_generation t \<noteq> 0) \<and> unat (t_budget t) \<le> 8"

definition sched_inv :: "scheduler \<Rightarrow> bool" where
  "sched_inv s \<longleftrightarrow> length (tasks s) \<le> 2 ^ 32 \<and> (tasks s \<noteq> [] \<longrightarrow> cursor s < length (tasks s)) \<and>
     (\<forall>t \<in> set (tasks s). task_ok t)"

text \<open>An identity whose slot has moved past it, or has been retired for good.\<close>

definition sched_spent :: "scheduler \<Rightarrow> task_id \<Rightarrow> bool" where
  "sched_spent s h \<longleftrightarrow> unat (tid_slot h) < length (tasks s) \<longrightarrow>
     t_generation (tasks s ! unat (tid_slot h)) = 0 \<or>
     tid_generation h < t_generation (tasks s ! unat (tid_slot h))"

definition ks_inv :: "kernel_scheduler \<Rightarrow> bool" where
  "ks_inv k \<longleftrightarrow> sched_inv (ks_scheduler k) \<and> 1 \<le> ks_remaining k \<and> ks_remaining k \<le> ks_quantum_ticks k \<and>
     (\<forall>h. ks_current k = Some h \<longrightarrow> (\<exists>p. sched_view (ks_scheduler k) h = Some (Runnable, p)))"

abbreviation ks_view :: "kernel_scheduler \<Rightarrow> task_id \<Rightarrow> (task_state \<times> priority) option" where
  "ks_view k \<equiv> sched_view (ks_scheduler k)"

section \<open>Budgets, tokens and generations\<close>

lemma priority_budget_bounds [simp]:
  "priority_budget p \<noteq> 0" "unat (priority_budget p) \<le> 8" "0 < unat (priority_budget p)"
  by (cases p; simp add: priority_budget_def)+

lemma tid_token_inverse [simp]: "tid_from_token (tid_token t) = t" "tid_token (tid_from_token n) = n"
  by (simp_all add: tid_from_token_def tid_token_def)

section \<open>The task table\<close>

lemma sched_task_okD:
  assumes "sched_task s h = Ok t"
  shows "unat (tid_slot h) < length (tasks s)" "t = tasks s ! unat (tid_slot h)"
    and "t_occupied t" "t_generation t = tid_generation h" "t \<in> set (tasks s)"
  using assms by (auto simp: sched_task_def Let_def split: if_splits)

lemma sched_task_ErrD: "sched_task s h = Err e \<Longrightarrow> e = InvalidTask"
  by (auto simp: sched_task_def Let_def split: if_splits)

lemma sched_view_eq:
  "sched_view s h =
     (if unat (tid_slot h) < length (tasks s) \<and> t_occupied (tasks s ! unat (tid_slot h))
         \<and> t_generation (tasks s ! unat (tid_slot h)) = tid_generation h
      then Some (t_state (tasks s ! unat (tid_slot h)), t_priority (tasks s ! unat (tid_slot h)))
      else None)"
  by (auto simp: sched_view_def sched_task_def Let_def)

lemma sched_view_SomeD:
  "sched_view s h = Some v \<Longrightarrow> \<exists>t. sched_task s h = Ok t \<and> v = (t_state t, t_priority t)"
  by (auto simp: sched_view_def split: result.splits)

lemma sched_view_NoneD: "sched_view s h = None \<Longrightarrow> sched_task s h = Err InvalidTask"
  by (auto simp: sched_view_def split: result.splits dest: sched_task_ErrD)

lemma sched_inv_new [simp]: "n \<le> 2 ^ 32 \<Longrightarrow> sched_inv (sched_new n)"
  by (auto simp: sched_inv_def sched_new_def task_EMPTY_def task_ok_def)

lemma sched_view_new [simp]: "sched_view (sched_new n) = Map.empty"
  by (rule ext) (auto simp: sched_view_eq sched_new_def task_EMPTY_def)

lemma sched_inv_update:
  "sched_inv s \<Longrightarrow> task_ok t \<Longrightarrow> sched_inv (s\<lparr>tasks := (tasks s)[i := t]\<rparr>)"
  by (auto simp: sched_inv_def dest!: set_update_subset_insert [THEN subsetD])

lemma same_slot:
  fixes g h :: task_id
  shows "unat (tid_slot g) = unat (tid_slot h) \<Longrightarrow> tid_generation g = tid_generation h \<Longrightarrow> g = h"
  by (cases g, cases h) (simp add: word_unat_eq_iff)

text \<open>Every write through \<open>task_mut\<close> that keeps or retires the slot's identity.\<close>

lemma task_mut_okD:
  assumes "task_mut h f s = (Ok u, s')"
    and keep: "\<And>t. t_occupied (f t) \<Longrightarrow> t_generation (f t) = t_generation t"
  obtains t where "sched_task s h = Ok t"
    and "sched_view s h = Some (t_state t, t_priority t)"
    and "s' = s\<lparr>tasks := (tasks s)[unat (tid_slot h) := f t]\<rparr>"
    and "sched_view s' = (sched_view s)(h :=
       if t_occupied (f t) then Some (t_state (f t), t_priority (f t)) else None)"
proof -
  from assms(1) obtain t where t: "sched_task s h = Ok t"
    and s': "s' = s\<lparr>tasks := (tasks s)[unat (tid_slot h) := f t]\<rparr>"
    by (auto simp: task_mut_def split: result.splits)
  note d = sched_task_okD [OF t]
  have "sched_view s' = (sched_view s)(h :=
       if t_occupied (f t) then Some (t_state (f t), t_priority (f t)) else None)" (is "_ = ?v")
  proof
    fix g
    show "sched_view s' g = ?v g"
    proof (cases "unat (tid_slot g) = unat (tid_slot h)")
      case True
      then show ?thesis using same_slot [OF True] d keep [of t]
        by (auto simp: sched_view_eq s')
    next
      case False
      then have "g \<noteq> h" by auto
      with False show ?thesis by (simp add: sched_view_eq s')
    qed
  qed
  moreover have "sched_view s h = Some (t_state t, t_priority t)" by (simp add: sched_view_def t)
  ultimately show thesis using that t s' by blast
qed

lemma task_mut_errD: "task_mut h f s = (Err e, s') \<Longrightarrow> s' = s \<and> sched_view s h = None \<and> e = InvalidTask"
  by (auto simp: task_mut_def sched_view_def split: result.splits dest: sched_task_ErrD)

lemma task_mut_inv:
  assumes "sched_inv s" and "\<And>t. task_ok t \<Longrightarrow> task_ok (f t)"
  shows "sched_inv (snd (task_mut h f s))"
  using assms
  by (auto simp: task_mut_def sched_inv_def split: result.splits
      dest: sched_task_okD(5) dest!: set_update_subset_insert [THEN subsetD])

lemma sched_create_okD:
  assumes "sched_create p s = (Ok h, s')" and "sched_inv s"
  shows "sched_view s h = None" and "sched_view s' = (sched_view s)(h \<mapsto> (Runnable, p))"
    and "\<not> sched_spent s h"
proof -
  from assms obtain i where i: "position (\<lambda>t. \<not> t_occupied t \<and> t_generation t \<noteq> 0) (tasks s) = Some i"
    and h: "h = \<lparr>tid_slot = of_nat i, tid_generation = t_generation (tasks s ! i)\<rparr>"
    and s': "s' = s\<lparr>tasks := (tasks s)[i := (tasks s ! i)\<lparr>t_occupied := True, t_state := Runnable,
       t_priority := p, t_budget := priority_budget p\<rparr>]\<rparr>"
    by (auto simp: sched_create_def Let_def split: option.splits)
  have free: "\<not> t_occupied (tasks s ! i)" "t_generation (tasks s ! i) \<noteq> 0" and len: "i < length (tasks s)"
    using position_SomeD [OF i] by auto
  have idx: "unat (of_nat i :: u32) = i"
    using len assms(2) by (auto simp: sched_inv_def intro: unat_of_nat_u32)
  show "sched_view s h = None" using free by (simp add: sched_view_eq h idx)
  show "\<not> sched_spent s h" using free len by (simp add: sched_spent_def h idx)
  have key: "unat (tid_slot d) = i \<Longrightarrow> tid_slot d = of_nat i" for d by auto
  show "sched_view s' = (sched_view s)(h \<mapsto> (Runnable, p))"
  proof
    fix d
    show "sched_view s' d = ((sched_view s)(h \<mapsto> (Runnable, p))) d"
    proof (cases "unat (tid_slot d) = i")
      case True
      with key [OF True] show ?thesis
        using len free by (auto simp: sched_view_eq s' h idx)
    next
      case False
      then have "d \<noteq> h" using idx h by auto
      with False show ?thesis by (simp add: sched_view_eq s')
    qed
  qed
qed

lemma sched_create_errD: "sched_create p s = (Err e, s') \<Longrightarrow> s' = s \<and> e = Full"
  by (auto simp: sched_create_def Let_def split: option.splits)

lemma sched_create_inv: "sched_inv s \<Longrightarrow> sched_inv (snd (sched_create p s))"
  by (auto simp: sched_create_def Let_def task_ok_def split: option.splits
      intro!: sched_inv_update dest: position_SomeD)

lemma sched_set_state_okD:
  assumes "sched_set_state h st s = (Ok u, s')"
  shows "\<exists>st0 p. sched_view s h = Some (st0, p) \<and> sched_view s' = (sched_view s)(h \<mapsto> (st, p))"
  using task_mut_okD [OF assms [unfolded sched_set_state_def]]
  by (smt (verit, best) sched_task_okD(3) task.select_convs task.surjective task.update_convs)

lemma sched_remove_okD:
  assumes "sched_remove h s = (Ok u, s')"
  shows "sched_view s h \<noteq> None" and "sched_view s' = (sched_view s)(h := None)"
    and "sched_spent s' h"
proof -
  obtain t where t: "sched_task s h = Ok t" "sched_view s h = Some (t_state t, t_priority t)"
    "s' = s\<lparr>tasks := (tasks s)[unat (tid_slot h) := t\<lparr>t_occupied := False, t_state := Blocked,
       t_budget := 0, t_generation := retire_generation (t_generation t)\<rparr>]\<rparr>"
    "sched_view s' = (sched_view s)(h := None)"
    using task_mut_okD [OF assms [unfolded sched_remove_def]] by force
  then show "sched_view s h \<noteq> None" "sched_view s' = (sched_view s)(h := None)" by simp_all
  show "sched_spent s' h"
    using t(3) sched_task_okD(1,4) [OF t(1)] retire_generation_cases [of "t_generation t"]
    by (simp add: sched_spent_def)
qed

lemma sched_set_state_inv: "sched_inv s \<Longrightarrow> sched_inv (snd (sched_set_state h st s))"
  unfolding sched_set_state_def by (rule task_mut_inv) (auto simp: task_ok_def)

lemma sched_remove_inv: "sched_inv s \<Longrightarrow> sched_inv (snd (sched_remove h s))"
  unfolding sched_remove_def by (rule task_mut_inv) (auto simp: task_ok_def)

lemma sched_create_spent: "sched_spent s h \<Longrightarrow> sched_spent (snd (sched_create p s)) h"
  by (auto simp: sched_create_def sched_spent_def Let_def nth_update_if split: option.splits)

lemma task_mut_spent:
  assumes "sched_spent s h" and "sched_inv s"
    and "\<And>t. t_generation (f t) = t_generation t \<or> t_generation (f t) = retire_generation (t_generation t)"
  shows "sched_spent (snd (task_mut g f s)) h"
proof (cases "sched_task s g")
  case (Ok t)
  note d = sched_task_okD [OF Ok]
  have "t_generation (f t) = 0 \<or> t_generation t \<le> t_generation (f t)"
    using assms(3) [of t] retire_generation_cases [of "t_generation t"] by auto
  moreover have "t_generation t \<noteq> 0" using d assms(2) by (auto simp: sched_inv_def task_ok_def)
  ultimately show ?thesis using assms(1) d Ok
    by (auto simp: task_mut_def sched_spent_def nth_update_if dest: order.strict_trans2)
qed (simp add: task_mut_def assms(1))

lemma sched_remove_spent: "sched_inv s \<Longrightarrow> sched_spent s h \<Longrightarrow> sched_spent (snd (sched_remove g s)) h"
  unfolding sched_remove_def by (rule task_mut_spent) auto

lemma sched_set_state_spent:
  "sched_inv s \<Longrightarrow> sched_spent s h \<Longrightarrow> sched_spent (snd (sched_set_state g st s)) h"
  unfolding sched_set_state_def by (rule task_mut_spent) auto

lemma sched_spent_dead: "sched_inv s \<Longrightarrow> sched_spent s h \<Longrightarrow> sched_view s h = None"
  by (auto simp: sched_spent_def sched_view_eq sched_inv_def task_ok_def)

interpretation table: retiring_table sched_view sched_inv "\<lambda>p. (Runnable, p)" sched_create sched_remove
  sched_spent
proof unfold_locales
  fix s s' :: scheduler and p h g e u
  show "sched_inv s \<Longrightarrow> sched_inv (snd (sched_create p s))" by (rule sched_create_inv)
  show "sched_inv s \<Longrightarrow> sched_inv (snd (sched_remove h s))" by (rule sched_remove_inv)
  show "sched_inv s \<Longrightarrow> sched_create p s = (Ok h, s') \<Longrightarrow>
      sched_view s h = None \<and> sched_view s' = (sched_view s)(h \<mapsto> (Runnable, p))"
    using sched_create_okD by blast
  show "sched_create p s = (Err e, s') \<Longrightarrow> s' = s" by (simp add: sched_create_errD)
  show "sched_inv s \<Longrightarrow> sched_remove h s = (Ok u, s') \<Longrightarrow>
      sched_view s h \<noteq> None \<and> sched_view s' = (sched_view s)(h := None)"
    using sched_remove_okD by blast
  show "sched_inv s \<Longrightarrow> sched_remove h s = (Err e, s') \<Longrightarrow> s' = s \<and> sched_view s h = None"
    unfolding sched_remove_def by (simp add: task_mut_errD)
  show "sched_inv s \<Longrightarrow> sched_remove h s = (Ok u, s') \<Longrightarrow> sched_spent s' h"
    by (rule sched_remove_okD(3))
  show "sched_inv s \<Longrightarrow> sched_spent s h \<Longrightarrow> sched_view s h = None" by (rule sched_spent_dead)
  show "sched_inv s \<Longrightarrow> sched_spent s h \<Longrightarrow> sched_spent (snd (sched_create p s)) h"
    by (rule sched_create_spent)
  show "sched_inv s \<Longrightarrow> sched_spent s h \<Longrightarrow> sched_spent (snd (sched_remove g s)) h"
    by (rule sched_remove_spent)
qed

section \<open>Selection\<close>

definition slot_eligible :: "scheduler \<Rightarrow> nat \<Rightarrow> bool" where
  "slot_eligible s slot \<longleftrightarrow> task_runnable (tasks s ! slot) \<and> t_budget (tasks s ! slot) \<noteq> 0"

text \<open>How far ahead of the cursor a slot lies in scan order.\<close>

definition slot_distance :: "scheduler \<Rightarrow> nat \<Rightarrow> nat" where
  "slot_distance s slot = (slot + length (tasks s) - cursor s) mod length (tasks s)"

lemma scan_slot:
  assumes "sched_inv s" and "slot < length (tasks s)"
  shows "slot_distance s slot < length (tasks s)"
    and "(cursor s + slot_distance s slot) mod length (tasks s) = slot"
proof -
  have c: "cursor s < length (tasks s)" using assms by (cases "tasks s") (auto simp: sched_inv_def)
  show "slot_distance s slot < length (tasks s)" using assms(2) by (simp add: slot_distance_def mod_length_less)
  have "(cursor s + slot_distance s slot) mod length (tasks s) =
      (cursor s + (slot + length (tasks s) - cursor s)) mod length (tasks s)"
    unfolding slot_distance_def by (rule mod_add_right_eq)
  also have "\<dots> = slot" using c assms(2) by simp
  finally show "(cursor s + slot_distance s slot) mod length (tasks s) = slot" .
qed

lemma distance_scan:
  assumes "sched_inv s" and "d < length (tasks s)"
  shows "slot_distance s ((cursor s + d) mod length (tasks s)) = d"
proof -
  have c: "cursor s < length (tasks s)" using assms by (cases "tasks s") (auto simp: sched_inv_def)
  show ?thesis
  proof (cases "cursor s + d < length (tasks s)")
    case True
    then show ?thesis using assms(2) by (simp add: slot_distance_def)
  next
    case False
    then have "(cursor s + d) mod length (tasks s) = cursor s + d - length (tasks s)"
      using c assms(2) by (simp add: mod_if)
    then show ?thesis using False c assms(2) by (simp add: slot_distance_def)
  qed
qed

lemma set_scan_order: "sched_inv s \<Longrightarrow> set (scan_order s) = {..<length (tasks s)}"
proof -
  assume inv: "sched_inv s"
  have "slot \<in> set (scan_order s)" if "slot < length (tasks s)" for slot
    using scan_slot [OF inv that] by (auto simp: scan_order_def image_iff intro!: bexI [of _ "slot_distance s slot"])
  moreover have "slot < length (tasks s)" if "slot \<in> set (scan_order s)" for slot
    using that by (auto simp: scan_order_def mod_length_less)
  ultimately show ?thesis by blast
qed

lemma find_scan_SomeD:
  assumes "find P (scan_order s) = Some slot" and "sched_inv s"
  shows "slot < length (tasks s)" "P slot"
    and "\<And>other. other < length (tasks s) \<Longrightarrow> P other \<Longrightarrow> slot_distance s slot \<le> slot_distance s other"
proof -
  from assms(1) obtain d where d: "d < length (tasks s)" "slot = (cursor s + d) mod length (tasks s)" "P slot"
    "\<forall>d' < d. \<not> P ((cursor s + d') mod length (tasks s))"
    by (auto simp: find_Some_iff scan_order_def)
  then show "slot < length (tasks s)" "P slot" by (auto simp: mod_length_less)
  fix other assume o: "other < length (tasks s)" "P other"
  have "\<not> slot_distance s other < d" using d(4) scan_slot(2) [OF assms(2) o(1)] o(2) by metis
  then show "slot_distance s slot \<le> slot_distance s other" using d(1,2) distance_scan [OF assms(2)] by simp
qed

lemma find_scan_NoneD:
  "find P (scan_order s) = None \<Longrightarrow> sched_inv s \<Longrightarrow> slot < length (tasks s) \<Longrightarrow> \<not> P slot"
  using set_scan_order by (auto simp: find_None_iff)

lemma sched_view_cong:
  assumes "length (tasks s') = length (tasks s)"
    and "\<And>i. i < length (tasks s) \<Longrightarrow> t_occupied (tasks s' ! i) = t_occupied (tasks s ! i) \<and>
       t_generation (tasks s' ! i) = t_generation (tasks s ! i) \<and>
       t_state (tasks s' ! i) = t_state (tasks s ! i) \<and> t_priority (tasks s' ! i) = t_priority (tasks s ! i)"
  shows "sched_view s' = sched_view s" and "sched_spent s' = sched_spent s"
  using assms by (auto simp: sched_view_eq sched_spent_def fun_eq_iff)

lemma select_okD:
  assumes "select_with_budget s = (Some h, s')" and "sched_inv s"
  obtains slot where "slot < length (tasks s)" "slot_eligible s slot" "h = slot_id s slot"
    "s' = s\<lparr>tasks := (tasks s)[slot := (tasks s ! slot)\<lparr>t_budget := t_budget (tasks s ! slot) - 1\<rparr>],
            cursor := (slot + 1) mod length (tasks s)\<rparr>"
    "\<And>other. other < length (tasks s) \<Longrightarrow> slot_eligible s other \<Longrightarrow>
       slot_distance s slot \<le> slot_distance s other"
proof -
  from assms(1) obtain slot where f: "find (slot_eligible s) (scan_order s) = Some slot"
    and eqs: "h = slot_id s slot"
    "s' = s\<lparr>tasks := (tasks s)[slot := (tasks s ! slot)\<lparr>t_budget := t_budget (tasks s ! slot) - 1\<rparr>],
            cursor := (slot + 1) mod length (tasks s)\<rparr>"
    by (auto simp: select_with_budget_def slot_eligible_def [abs_def] split: option.splits)
  show thesis using that [of slot] find_scan_SomeD [OF f assms(2)] eqs by blast
qed

lemma select_noneD:
  assumes "select_with_budget s = (None, s')" and "sched_inv s"
  shows "s' = s" and "slot < length (tasks s) \<Longrightarrow> \<not> slot_eligible s slot"
  using assms find_scan_NoneD [OF _ assms(2)]
  by (auto simp: select_with_budget_def slot_eligible_def split: option.splits)

lemma slot_id_view:
  assumes "sched_inv s" and "slot < length (tasks s)" and "task_runnable (tasks s ! slot)"
  shows "sched_view s (slot_id s slot) = Some (Runnable, t_priority (tasks s ! slot))"
proof -
  have "unat (of_nat slot :: u32) = slot"
    using assms(1,2) by (auto simp: sched_inv_def intro: unat_of_nat_u32)
  then show ?thesis using assms by (simp add: sched_view_eq slot_id_def task_runnable_def)
qed

lemma unat_pred_u8: "b \<noteq> (0 :: u8) \<Longrightarrow> unat (b - 1) = unat b - 1"
  by (simp add: unat_sub word_le_nat_alt unat_gt_0 Suc_leI)

lemma select_preserves:
  assumes "sched_inv s"
  shows "sched_inv (snd (select_with_budget s))"
    and "sched_view (snd (select_with_budget s)) = sched_view s"
    and "sched_spent (snd (select_with_budget s)) = sched_spent s"
proof -
  obtain r s' where r: "select_with_budget s = (r, s')" by fastforce
  have "sched_inv s' \<and> sched_view s' = sched_view s \<and> sched_spent s' = sched_spent s"
  proof (cases r)
    case None
    then show ?thesis using select_noneD(1) [of s s'] r assms by simp
  next
    case (Some h)
    then obtain slot where slot: "slot < length (tasks s)" "slot_eligible s slot"
      and s': "s' = s\<lparr>tasks := (tasks s)[slot := (tasks s ! slot)\<lparr>t_budget := t_budget (tasks s ! slot) - 1\<rparr>],
            cursor := (slot + 1) mod length (tasks s)\<rparr>"
      using select_okD [of s h s'] r assms by metis
    have "task_ok (tasks s ! slot)" using assms slot(1) by (simp add: sched_inv_def)
    then have "task_ok ((tasks s ! slot)\<lparr>t_budget := t_budget (tasks s ! slot) - 1\<rparr>)"
      using slot(2) by (auto simp: task_ok_def slot_eligible_def unat_pred_u8)
    then have "sched_inv (s\<lparr>tasks := (tasks s)[slot := (tasks s ! slot)\<lparr>t_budget := t_budget (tasks s ! slot) - 1\<rparr>]\<rparr>)"
      by (rule sched_inv_update [OF assms])
    then have "sched_inv s'" using slot(1) by (auto simp: s' sched_inv_def)
    moreover have "sched_view s' = sched_view s" "sched_spent s' = sched_spent s"
      by (rule sched_view_cong; simp add: s' nth_update_if)+
    ultimately show ?thesis by blast
  qed
  then show "sched_inv (snd (select_with_budget s))"
    "sched_view (snd (select_with_budget s)) = sched_view s"
    "sched_spent (snd (select_with_budget s)) = sched_spent s" by (simp_all add: r)
qed

lemma refill_preserves:
  shows "sched_inv s \<Longrightarrow> sched_inv (refill_budgets s)"
    and "sched_view (refill_budgets s) = sched_view s"
    and "sched_spent (refill_budgets s) = sched_spent s"
proof -
  show "sched_inv s \<Longrightarrow> sched_inv (refill_budgets s)"
    by (auto simp: sched_inv_def refill_budgets_def task_ok_def)
  show "sched_view (refill_budgets s) = sched_view s" "sched_spent (refill_budgets s) = sched_spent s"
    by (rule sched_view_cong; simp add: refill_budgets_def)+
qed

lemma schedule_preserves:
  assumes "sched_inv s"
  shows "sched_inv (snd (sched_schedule s))" "sched_view (snd (sched_schedule s)) = sched_view s"
    and "sched_spent (snd (sched_schedule s)) = sched_spent s"
  using select_preserves [OF assms] select_preserves [OF refill_preserves(1) [OF assms]]
    select_noneD(1) [OF _ assms] assms
  by (auto simp: sched_schedule_def refill_preserves split: prod.splits option.splits)

lemma schedule_someD:
  assumes "sched_schedule s = (Some h, s')" and "sched_inv s"
  shows "\<exists>p. sched_view s h = Some (Runnable, p)"
proof -
  have "\<exists>p. sched_view t h = Some (Runnable, p)" if "select_with_budget t = (Some h, s')" "sched_inv t" for t
    using select_okD [OF that] slot_id_view [OF that(2)] by (metis slot_eligible_def)
  from this [of s] this [of "refill_budgets s"] show ?thesis
    using assms select_noneD(1) [OF _ assms(2)] refill_preserves(1) [OF assms(2)]
    by (auto simp: sched_schedule_def refill_preserves(2) split: prod.splits option.splits if_splits)
qed

lemma schedule_noneD:
  assumes "sched_schedule s = (None, s')" and "sched_inv s"
  shows "\<not> (\<exists>t \<in> set (tasks s). task_runnable t)"
proof
  assume run: "\<exists>t \<in> set (tasks s). task_runnable t"
  then obtain i where i: "i < length (tasks s)" "task_runnable (tasks s ! i)" by (auto simp: in_set_conv_nth)
  have none: "select_with_budget s = (None, s)" "select_with_budget (refill_budgets s) = (None, s')"
    using assms run select_noneD(1) [OF _ assms(2)]
    by (auto simp: sched_schedule_def split: prod.splits option.splits if_splits)
  have "slot_eligible (refill_budgets s) i"
    using i by (simp add: slot_eligible_def refill_budgets_def task_runnable_def)
  then show False
    using select_noneD(2) [OF none(2) refill_preserves(1) [OF assms(2)], of i] i(1)
    by (simp add: refill_budgets_def)
qed

section \<open>The timer-driven scheduler: invariant\<close>

lemma ks_new_okD:
  assumes "ks_new n f q = Ok k" and "n \<le> 2 ^ 32"
  shows "ks_inv k" "ks_current k = None" "ks_ticks k = 0" "ks_view k = Map.empty"
  using assms by (auto simp: ks_new_def ks_inv_def word_le_nat_alt unat_gt_0 Suc_leI split: if_splits)

lemma on_scheduler_simps [simp]:
  "snd (on_scheduler f k) = k\<lparr>ks_scheduler := snd (f (ks_scheduler k))\<rparr>"
  "fst (on_scheduler f k) = map_err SchedulerErr (fst (f (ks_scheduler k)))"
  by (simp_all add: on_scheduler_def split_beta)

lemma on_scheduler_eq:
  "on_scheduler f k = (r, k') \<longleftrightarrow>
     r = map_err SchedulerErr (fst (f (ks_scheduler k))) \<and> k' = k\<lparr>ks_scheduler := snd (f (ks_scheduler k))\<rparr>"
  by (auto simp: on_scheduler_def split_beta)

lemma wrap_ok_simps [simp]: "fst (wrap_ok x) = Ok (fst x)" "snd (wrap_ok x) = snd x"
  by (simp_all add: wrap_ok_def)

lemma select_replacement_simps:
  "snd (select_replacement from k) = k\<lparr>ks_remaining := ks_quantum_ticks k,
     ks_scheduler := snd (sched_schedule (ks_scheduler k)), ks_current := fst (sched_schedule (ks_scheduler k))\<rparr>"
  by (simp add: select_replacement_def Let_def split_beta)

lemma select_replacement_inv:
  assumes "sched_inv (ks_scheduler k)" and "1 \<le> ks_quantum_ticks k"
  shows "ks_inv (snd (select_replacement from k))"
proof -
  obtain r s where rs: "sched_schedule (ks_scheduler k) = (r, s)" by fastforce
  have "sched_inv s" "sched_view s = ks_view k"
    using schedule_preserves [OF assms(1)] rs by simp_all
  moreover have "\<exists>p. ks_view k h = Some (Runnable, p)" if "r = Some h" for h
    using schedule_someD [OF _ assms(1)] rs that by simp
  ultimately show ?thesis using assms(2) rs by (simp add: ks_inv_def select_replacement_simps)
qed

lemma select_replacement_view:
  assumes "sched_inv (ks_scheduler k)"
  shows "ks_view (snd (select_replacement from k)) = ks_view k"
    and "sched_spent (ks_scheduler (snd (select_replacement from k))) = sched_spent (ks_scheduler k)"
  using schedule_preserves [OF assms] by (simp_all add: select_replacement_simps)

lemma ks_invD:
  assumes "ks_inv k"
  shows "sched_inv (ks_scheduler k)" "1 \<le> ks_quantum_ticks k" "1 \<le> ks_remaining k"
    and "ks_current k = Some h \<Longrightarrow> \<exists>p. ks_view k h = Some (Runnable, p)"
  using assms by (auto simp: ks_inv_def)

text \<open>An update of the inner scheduler that leaves the current task alone keeps the invariant.\<close>

lemma ks_inv_scheduler:
  assumes "ks_inv k" and "sched_inv s"
    and "\<And>h p. ks_current k = Some h \<Longrightarrow> ks_view k h = Some (Runnable, p) \<Longrightarrow> \<exists>q. sched_view s h = Some (Runnable, q)"
  shows "ks_inv (k\<lparr>ks_scheduler := s\<rparr>)"
  using assms by (fastforce simp: ks_inv_def)

lemma set_state_eqs:
  "fst (sched_set_state h st s) = (case sched_view s h of None \<Rightarrow> Err InvalidTask | Some _ \<Rightarrow> Ok ())"
  "sched_view (snd (sched_set_state h st s)) =
     (case sched_view s h of None \<Rightarrow> sched_view s | Some (_, p) \<Rightarrow> (sched_view s)(h \<mapsto> (st, p)))"
proof -
  obtain r s' where r: "sched_set_state h st s = (r, s')" by fastforce
  have "fst (r, s') = (case sched_view s h of None \<Rightarrow> Err InvalidTask | Some _ \<Rightarrow> Ok ()) \<and>
      sched_view s' = (case sched_view s h of None \<Rightarrow> sched_view s | Some (_, p) \<Rightarrow> (sched_view s)(h \<mapsto> (st, p)))"
  proof (cases r)
    case (Ok u)
    then show ?thesis using sched_set_state_okD [of h st s u s'] r by auto
  next
    case (Err e)
    then show ?thesis using task_mut_errD r by (fastforce simp: sched_set_state_def)
  qed
  then show "fst (sched_set_state h st s) = (case sched_view s h of None \<Rightarrow> Err InvalidTask | Some _ \<Rightarrow> Ok ())"
    "sched_view (snd (sched_set_state h st s)) =
     (case sched_view s h of None \<Rightarrow> sched_view s | Some (_, p) \<Rightarrow> (sched_view s)(h \<mapsto> (st, p)))"
    by (simp_all add: r)
qed

lemma remove_eqs:
  "fst (sched_remove h s) = (case sched_view s h of None \<Rightarrow> Err InvalidTask | Some _ \<Rightarrow> Ok ())"
  "sched_view (snd (sched_remove h s)) = (sched_view s)(h := None)"
proof -
  obtain r s' where r: "sched_remove h s = (r, s')" by fastforce
  have "fst (r, s') = (case sched_view s h of None \<Rightarrow> Err InvalidTask | Some _ \<Rightarrow> Ok ()) \<and>
      sched_view s' = (sched_view s)(h := None)"
  proof (cases r)
    case (Ok u)
    then show ?thesis using sched_remove_okD(1,2) [of h s u s'] r by auto
  next
    case (Err e)
    then have "s' = s \<and> sched_view s h = None \<and> e = InvalidTask"
      using task_mut_errD r by (simp add: sched_remove_def)
    then show ?thesis using Err by (simp add: fun_upd_idem)
  qed
  then show "fst (sched_remove h s) = (case sched_view s h of None \<Rightarrow> Err InvalidTask | Some _ \<Rightarrow> Ok ())"
    "sched_view (snd (sched_remove h s)) = (sched_view s)(h := None)" by (simp_all add: r)
qed

lemma ks_create_inv: "ks_inv k \<Longrightarrow> ks_inv (snd (ks_create p k))"
  unfolding ks_create_def on_scheduler_simps
  using table.alloc_view [OF ks_invD(1)] by (intro ks_inv_scheduler) (auto simp: ks_invD sched_create_inv)

lemma ks_wake_inv: "ks_inv k \<Longrightarrow> ks_inv (snd (ks_wake h k))"
  unfolding ks_wake_def on_scheduler_simps
  by (intro ks_inv_scheduler) (auto simp: ks_invD sched_set_state_inv set_state_eqs split: option.splits)

lemma ks_start_inv: "ks_inv k \<Longrightarrow> ks_inv (snd (ks_start k))"
  by (auto simp: ks_start_def select_replacement_inv ks_invD split: option.splits)

lemma ks_timer_tick_inv:
  assumes "ks_inv k"
  shows "ks_inv (snd (ks_timer_tick k))"
proof (cases "checked_add (ks_ticks k) 1")
  case None
  then show ?thesis using assms by (simp add: ks_timer_tick_def)
next
  case (Some n)
  have rem: "ks_remaining k - 1 \<le> ks_remaining k" "1 \<le> ks_remaining k - 1 \<or> ks_remaining k - 1 = 0"
    using ks_invD(3) [OF assms] by (simp_all add: word_le_nat_alt unat_sub unat_gt_0 word_unat_eq_iff) linarith
  have cont: "ks_inv (k\<lparr>ks_ticks := n, ks_remaining := ks_remaining k - 1\<rparr>)" if "ks_remaining k - 1 \<noteq> 0"
    using assms rem that by (auto simp: ks_inv_def)
  have "ks_inv (snd (select_replacement from (k\<lparr>ks_ticks := n, ks_remaining := x\<rparr>)))" for "from" x
    using assms by (intro select_replacement_inv) (auto simp: ks_invD)
  then show ?thesis using assms cont select_replacement_inv [of "k\<lparr>ks_ticks := n\<rparr>"]
    by (auto simp: ks_timer_tick_def Some Let_def ks_invD split: option.splits)
qed

lemma ks_yield_inv: "ks_inv k \<Longrightarrow> ks_inv (snd (ks_yield_current k))"
  by (auto simp: ks_yield_current_def select_replacement_inv ks_invD split: option.splits)

text \<open>The current task is live, so retiring or blocking it cannot fail.\<close>

lemma ks_block_eq:
  assumes "ks_inv k" and "ks_current k = Some h"
  shows "ks_block_current k = wrap_ok (select_replacement (Some h)
     (k\<lparr>ks_current := None, ks_scheduler := snd (sched_set_state h Blocked (ks_scheduler k))\<rparr>))"
  using ks_invD(4) [OF assms] assms(2)
  by (auto simp: ks_block_current_def on_scheduler_def split_beta set_state_eqs)

lemma ks_terminate_eq:
  assumes "ks_inv k" and "ks_current k = Some h"
  shows "ks_terminate_current k = wrap_ok (select_replacement (Some h)
     (k\<lparr>ks_current := None, ks_scheduler := snd (sched_remove h (ks_scheduler k))\<rparr>))"
  using ks_invD(4) [OF assms] assms(2)
  by (auto simp: ks_terminate_current_def on_scheduler_def split_beta remove_eqs)

lemma ks_no_current:
  "ks_current k = None \<Longrightarrow> ks_block_current k = (Err NoCurrentTask, k)"
  "ks_current k = None \<Longrightarrow> ks_terminate_current k = (Err NoCurrentTask, k)"
  "ks_current k = None \<Longrightarrow> ks_yield_current k = (Err NoCurrentTask, k)"
  by (simp_all add: ks_block_current_def ks_terminate_current_def ks_yield_current_def)

lemma ks_block_inv: "ks_inv k \<Longrightarrow> ks_inv (snd (ks_block_current k))"
  by (cases "ks_current k")
    (auto simp: ks_no_current ks_block_eq ks_invD sched_set_state_inv intro!: select_replacement_inv)

lemma ks_terminate_inv: "ks_inv k \<Longrightarrow> ks_inv (snd (ks_terminate_current k))"
  by (cases "ks_current k")
    (auto simp: ks_no_current ks_terminate_eq ks_invD sched_remove_inv intro!: select_replacement_inv)

text \<open>Removing any task but the current one.\<close>

lemma ks_remove_inv:
  assumes "ks_inv k" and "ks_current k \<noteq> Some h"
  shows "ks_inv (k\<lparr>ks_scheduler := snd (sched_remove h (ks_scheduler k))\<rparr>)"
  using assms by (intro ks_inv_scheduler) (auto simp: ks_invD sched_remove_inv remove_eqs)

text \<open>What the operations that select a task do to the map of live tasks.\<close>

lemma ks_select_views:
  assumes "ks_inv k"
  shows "ks_view (snd (ks_start k)) = ks_view k" "ks_view (snd (ks_timer_tick k)) = ks_view k"
    and "ks_view (snd (ks_yield_current k)) = ks_view k"
proof -
  note v = select_replacement_view(1)
  note i = ks_invD(1) [OF assms]
  show "ks_view (snd (ks_start k)) = ks_view k"
    by (simp add: ks_start_def v i split: option.splits)
  show "ks_view (snd (ks_yield_current k)) = ks_view k"
    by (simp add: ks_yield_current_def v i split: option.splits)
  show "ks_view (snd (ks_timer_tick k)) = ks_view k"
    by (simp add: ks_timer_tick_def Let_def v i split: option.splits)
qed

lemma ks_block_view:
  assumes "ks_inv k" and "ks_current k = Some h"
  shows "\<exists>p. ks_view (snd (ks_block_current k)) = (ks_view k)(h \<mapsto> (Blocked, p))"
    and "\<exists>out. fst (ks_block_current k) = Ok out"
proof -
  obtain p where "ks_view k h = Some (Runnable, p)" using ks_invD(4) [OF assms] by auto
  then show "\<exists>p. ks_view (snd (ks_block_current k)) = (ks_view k)(h \<mapsto> (Blocked, p))"
    using select_replacement_view(1) [of "k\<lparr>ks_current := None, ks_scheduler := snd (sched_set_state h Blocked (ks_scheduler k))\<rparr>"]
      sched_set_state_inv [OF ks_invD(1) [OF assms(1)]]
    by (auto simp: ks_block_eq [OF assms] set_state_eqs)
  show "\<exists>out. fst (ks_block_current k) = Ok out" by (simp add: ks_block_eq [OF assms])
qed

lemma ks_terminate_view:
  assumes "ks_inv k" and "ks_current k = Some h"
  shows "ks_view (snd (ks_terminate_current k)) = (ks_view k)(h := None)"
    and "\<exists>out. fst (ks_terminate_current k) = Ok out"
  using select_replacement_view(1) [of "k\<lparr>ks_current := None, ks_scheduler := snd (sched_remove h (ks_scheduler k))\<rparr>"]
    sched_remove_inv [OF ks_invD(1) [OF assms(1)]]
  by (simp_all add: ks_terminate_eq [OF assms] remove_eqs)

section \<open>Migration\<close>

lemma ks_createE:
  assumes "ks_inv k"
  obtains (ok) h k' where "ks_create p k = (Ok h, k')" "ks_inv k'" "ks_view k h = None"
      "ks_view k' = (ks_view k)(h \<mapsto> (Runnable, p))" "ks_current k' = ks_current k"
      "ks_current k \<noteq> Some h"
  | (full) "ks_create p k = (Err (SchedulerErr Full), k)"
proof (cases "sched_create p (ks_scheduler k)")
  case (Pair r s)
  show thesis
  proof (cases r)
    case (Ok h)
    then have v: "ks_view k h = None" "sched_view s = (ks_view k)(h \<mapsto> (Runnable, p))"
      using sched_create_okD [of p "ks_scheduler k" h s] Pair ks_invD(1) [OF assms] by simp_all
    then have "ks_current k \<noteq> Some h" using ks_invD(4) [OF assms, of h] by auto
    then show thesis using ok [of h "k\<lparr>ks_scheduler := s\<rparr>"] v Ok Pair ks_create_inv [OF assms, of p]
      by (simp add: ks_create_def on_scheduler_def)
  next
    case (Err e)
    then show thesis using full sched_create_errD [of p "ks_scheduler k" e s] Pair
      by (simp add: ks_create_def on_scheduler_def)
  qed
qed

lemma ks_detach_eq:
  "ks_detach h k =
     (if ks_current k = Some h then (Err CurrentTaskCannotMigrate, k)
      else case ks_view k h of
        None \<Rightarrow> (Err (SchedulerErr InvalidTask), k)
      | Some (st, p) \<Rightarrow> (Ok \<lparr>det_source = h, det_state = st, det_priority = p\<rparr>,
                           k\<lparr>ks_scheduler := snd (sched_remove h (ks_scheduler k))\<rparr>))"
  by (auto simp: ks_detach_def sched_view_def on_scheduler_def remove_eqs split_beta
      split: result.splits dest: sched_task_ErrD)

text \<open>Admitting a task in a given state: create, then block if needed.\<close>

lemma ks_attachE:
  assumes "ks_inv k"
  obtains (ok) h k' where "ks_attach d k = (Ok \<lparr>mig_source = det_source d, mig_destination = h,
        mig_state = det_state d, mig_priority = det_priority d\<rparr>, k')"
      "ks_inv k'" "ks_view k h = None" "ks_view k' = (ks_view k)(h \<mapsto> (det_state d, det_priority d))"
      "ks_current k' = ks_current k"
  | (full) "ks_attach d k = (Err (SchedulerErr Full, d), k)"
  using assms
proof (cases rule: ks_createE [where p = "det_priority d"])
  case (ok h k1)
  show thesis
  proof (cases "det_state d")
    case Runnable
    then show thesis using that(1) [of h k1] ok by (simp add: ks_attach_def)
  next
    case Blocked
    let ?k' = "k1\<lparr>ks_scheduler := snd (sched_set_state h Blocked (ks_scheduler k1))\<rparr>"
    have "ks_inv ?k'"
      using ok(2,5,6) by (intro ks_inv_scheduler) (auto simp: ks_invD sched_set_state_inv set_state_eqs split: option.splits)
    then show thesis using that(1) [of h ?k'] ok Blocked
      by (simp add: ks_attach_def on_scheduler_def split_beta set_state_eqs)
  qed
qed (simp add: that(2) ks_attach_def)

lemma ks_migrate_eq:
  "ks_migrate_to h k dst =
     (if ks_current k = Some h then (Err CurrentTaskCannotMigrate, k, dst)
      else case ks_view k h of
        None \<Rightarrow> (Err (SchedulerErr InvalidTask), k, dst)
      | Some (st, p) \<Rightarrow>
          (case ks_attach \<lparr>det_source = h, det_state = st, det_priority = p\<rparr> dst of
             (Err (e, _), dst') \<Rightarrow> (Err e, k, dst')
           | (Ok m, dst') \<Rightarrow> (Ok m, k\<lparr>ks_scheduler := snd (sched_remove h (ks_scheduler k))\<rparr>, dst')))"
proof (cases "sched_task (ks_scheduler k) h")
  case (Ok t)
  then have "ks_view k h = Some (t_state t, t_priority t)" by (simp add: sched_view_def)
  moreover from this have "on_scheduler (sched_remove h) k =
      (Ok (), k\<lparr>ks_scheduler := snd (sched_remove h (ks_scheduler k))\<rparr>)"
    by (simp add: on_scheduler_def split_beta remove_eqs)
  ultimately show ?thesis using Ok
    by (simp add: ks_migrate_to_def ks_attach_def split: prod.splits result.splits)
next
  case (Err e)
  then have "ks_view k h = None" by (simp add: sched_view_def)
  then show ?thesis using Err by (simp add: ks_migrate_to_def sched_task_ErrD)
qed

section \<open>Sequences of operations\<close>

datatype ks_op =
  OpCreate priority | OpStart | OpTick | OpYield | OpBlock | OpTerminate | OpWake task_id
| OpDetach task_id | OpDetachFor scheduler_load | OpAttach detached_task

fun ks_exec :: "ks_op \<Rightarrow> kernel_scheduler \<Rightarrow> kernel_scheduler" where
  "ks_exec (OpCreate p) k = snd (ks_create p k)"
| "ks_exec OpStart k = snd (ks_start k)"
| "ks_exec OpTick k = snd (ks_timer_tick k)"
| "ks_exec OpYield k = snd (ks_yield_current k)"
| "ks_exec OpBlock k = snd (ks_block_current k)"
| "ks_exec OpTerminate k = snd (ks_terminate_current k)"
| "ks_exec (OpWake h) k = snd (ks_wake h k)"
| "ks_exec (OpDetach h) k = snd (ks_detach h k)"
| "ks_exec (OpDetachFor l) k = snd (ks_detach_for_rebalance l k)"
| "ks_exec (OpAttach d) k = snd (ks_attach d k)"

definition ks_run :: "ks_op list \<Rightarrow> kernel_scheduler \<Rightarrow> kernel_scheduler" where
  "ks_run ops k = fold ks_exec ops k"

lemma ks_detach_inv: "ks_inv k \<Longrightarrow> ks_inv (snd (ks_detach h k))"
  by (auto simp: ks_detach_eq ks_remove_inv split: option.splits)

lemma ks_detach_for_eq:
  "ks_detach_for_rebalance l k =
     (case ks_rebalance_candidate l k of
        Err e \<Rightarrow> (Err e, k)
      | Ok None \<Rightarrow> (Ok None, k)
      | Ok (Some h) \<Rightarrow> (case fst (ks_detach h k) of Err e \<Rightarrow> Err e | Ok d \<Rightarrow> Ok (Some d), snd (ks_detach h k)))"
  by (auto simp: ks_detach_for_rebalance_def split: result.splits option.splits prod.splits)

lemma ks_exec_inv: "ks_inv k \<Longrightarrow> ks_inv (ks_exec x k)"
proof (cases x)
  case (OpAttach d)
  assume inv: "ks_inv k"
  then show ?thesis using OpAttach by (cases rule: ks_attachE [where d = d]) (auto simp: inv)
qed (auto simp: ks_create_inv ks_start_inv ks_timer_tick_inv ks_yield_inv ks_block_inv ks_terminate_inv
    ks_wake_inv ks_detach_inv ks_detach_for_eq split: result.splits option.splits)

lemma ks_run_inv: "ks_inv k \<Longrightarrow> ks_inv (ks_run ops k)"
  by (induction ops arbitrary: k) (auto simp: ks_run_def ks_exec_inv)

text \<open>No operation revives a spent identity, and an identity an operation unbinds is spent.\<close>

definition kept_or_spent :: "kernel_scheduler \<Rightarrow> kernel_scheduler \<Rightarrow> bool" where
  "kept_or_spent k k' \<longleftrightarrow> (\<forall>h. sched_spent (ks_scheduler k) h \<longrightarrow> sched_spent (ks_scheduler k') h) \<and>
     (\<forall>h. ks_view k h \<noteq> None \<longrightarrow> ks_view k' h \<noteq> None \<or> sched_spent (ks_scheduler k') h)"

lemma kept_or_spent_refl [simp]: "kept_or_spent k k"
  by (simp add: kept_or_spent_def)

lemma kept_or_spent_trans: "kept_or_spent k k' \<Longrightarrow> kept_or_spent k' k'' \<Longrightarrow> kept_or_spent k k''"
  unfolding kept_or_spent_def by blast

lemma kept_cong:
  "ks_view k' = ks_view k \<Longrightarrow> sched_spent (ks_scheduler k') = sched_spent (ks_scheduler k) \<Longrightarrow> kept_or_spent k k'"
  by (simp add: kept_or_spent_def)

lemma kept_remove:
  assumes "sched_inv (ks_scheduler k)"
  shows "kept_or_spent k (k\<lparr>ks_current := c, ks_scheduler := snd (sched_remove h (ks_scheduler k))\<rparr>)"
proof -
  have "sched_spent (snd (sched_remove h (ks_scheduler k))) h" if "ks_view k h \<noteq> None"
    using remove_eqs(1) [of h "ks_scheduler k"] that sched_remove_okD(3) [of h "ks_scheduler k"]
    by (cases "sched_remove h (ks_scheduler k)") auto
  then show ?thesis using assms by (auto simp: kept_or_spent_def remove_eqs sched_remove_spent)
qed

lemma kept_set_state:
  assumes "sched_inv (ks_scheduler k)"
  shows "kept_or_spent k (k\<lparr>ks_current := c, ks_scheduler := snd (sched_set_state h st (ks_scheduler k))\<rparr>)"
  using assms by (auto simp: kept_or_spent_def set_state_eqs sched_set_state_spent split: option.splits)

lemma kept_create:
  assumes "sched_inv (ks_scheduler k)"
  shows "kept_or_spent k (snd (ks_create p k))"
  using assms table.alloc_view [OF assms]
  by (auto simp: kept_or_spent_def ks_create_def sched_create_spent)

lemma kept_select:
  assumes "kept_or_spent k k'" and "sched_inv (ks_scheduler k')"
  shows "kept_or_spent k (snd (select_replacement from k'))"
  using kept_or_spent_trans [OF assms(1)] kept_cong select_replacement_view [OF assms(2)] by blast

lemma ks_tick_kept:
  assumes "ks_inv k"
  shows "kept_or_spent k (snd (ks_timer_tick k))"
proof -
  have "kept_or_spent k (snd (select_replacement from (k\<lparr>ks_ticks := n, ks_remaining := x\<rparr>)))"
    "kept_or_spent k (snd (select_replacement from (k\<lparr>ks_ticks := n\<rparr>)))" for "from" n x
    by (rule kept_select; auto simp: ks_invD [OF assms] kept_or_spent_def)+
  then show ?thesis
    by (auto simp: ks_timer_tick_def Let_def kept_or_spent_def split: option.splits)
qed

lemma ks_retire_kept:
  assumes "ks_inv k"
  shows "kept_or_spent k (snd (ks_block_current k))" "kept_or_spent k (snd (ks_terminate_current k))"
    and "kept_or_spent k (snd (ks_yield_current k))" "kept_or_spent k (snd (ks_start k))"
    and "kept_or_spent k (snd (ks_detach h k))" "kept_or_spent k (snd (ks_wake h k))"
proof -
  note inv = ks_invD(1) [OF assms]
  have s: "kept_or_spent k (snd (select_replacement from k))" for "from" by (rule kept_select) (simp_all add: inv)
  show "kept_or_spent k (snd (ks_yield_current k))" "kept_or_spent k (snd (ks_start k))"
    by (auto simp: ks_yield_current_def ks_start_def s split: option.splits)
  have b: "kept_or_spent k (snd (select_replacement from (k\<lparr>ks_current := None,
      ks_scheduler := snd (sched_set_state g Blocked (ks_scheduler k))\<rparr>)))" for "from" g
    using kept_set_state [OF inv] by (intro kept_select) (auto simp: inv sched_set_state_inv)
  show "kept_or_spent k (snd (ks_block_current k))"
    by (cases "ks_current k") (simp_all add: ks_no_current ks_block_eq assms b)
  have t: "kept_or_spent k (snd (select_replacement from (k\<lparr>ks_current := None,
      ks_scheduler := snd (sched_remove g (ks_scheduler k))\<rparr>)))" for "from" g
    using kept_remove [OF inv] by (intro kept_select) (auto simp: inv sched_remove_inv)
  show "kept_or_spent k (snd (ks_terminate_current k))"
    by (cases "ks_current k") (simp_all add: ks_no_current ks_terminate_eq assms t)
  show "kept_or_spent k (snd (ks_detach h k))"
    using kept_remove [OF inv, where c = "ks_current k"] by (auto simp: ks_detach_eq split: option.splits)
  show "kept_or_spent k (snd (ks_wake h k))"
    using kept_set_state [OF inv, where c = "ks_current k"] by (simp add: ks_wake_def)
qed

lemma ks_attach_kept:
  assumes "ks_inv k"
  shows "kept_or_spent k (snd (ks_attach d k))"
  using assms
proof (cases rule: ks_createE [where p = "det_priority d"])
  case (ok h k1)
  have k1: "kept_or_spent k k1" using kept_create [OF ks_invD(1) [OF assms]] ok(1) by (metis snd_conv)
  have "kept_or_spent k (k1\<lparr>ks_scheduler := snd (sched_set_state h Blocked (ks_scheduler k1))\<rparr>)"
    using kept_or_spent_trans [OF k1 kept_set_state [OF ks_invD(1) [OF ok(2)], where c = "ks_current k1"]] by simp
  then show ?thesis using k1 ok by (simp add: ks_attach_def on_scheduler_def split_beta set_state_eqs)
qed (simp add: ks_attach_def)

lemma ks_exec_kept: "ks_inv k \<Longrightarrow> kept_or_spent k (ks_exec x k)"
  by (cases x) (auto simp: kept_create ks_invD ks_tick_kept ks_retire_kept ks_attach_kept ks_detach_for_eq
      split: result.splits option.splits)

lemma ks_run_spent: "ks_inv k \<Longrightarrow> sched_spent (ks_scheduler k) h \<Longrightarrow> sched_spent (ks_scheduler (ks_run ops k)) h"
proof (induction ops arbitrary: k)
  case (Cons x ops)
  then have "sched_spent (ks_scheduler (ks_exec x k)) h"
    using ks_exec_kept by (auto simp: kept_or_spent_def)
  with Cons show ?case by (simp add: ks_run_def ks_exec_inv)
qed (simp add: ks_run_def)

section \<open>Loads\<close>

lemma load_update:
  assumes "i < length (tasks s)"
  shows "l_runnable (sched_load (s\<lparr>tasks := (tasks s)[i := t]\<rparr>)) + (if task_runnable (tasks s ! i) then 1 else 0) =
     l_runnable (sched_load s) + (if task_runnable t then 1 else 0)"
    and "l_occupied (sched_load (s\<lparr>tasks := (tasks s)[i := t]\<rparr>)) + (if t_occupied (tasks s ! i) then 1 else 0) =
     l_occupied (sched_load s) + (if t_occupied t then 1 else 0)"
  using length_filter_update [OF assms] by (simp_all add: sched_load_def)

lemma remove_load:
  assumes "sched_view s h = Some (st, p)"
  shows "l_runnable (sched_load s) = l_runnable (sched_load (snd (sched_remove h s))) + (if st = Runnable then 1 else 0)"
    and "l_occupied (sched_load s) = Suc (l_occupied (sched_load (snd (sched_remove h s))))"
proof -
  obtain t where t: "sched_task s h = Ok t" "st = t_state t" using sched_view_SomeD [OF assms] by auto
  note d = sched_task_okD [OF t(1)]
  show "l_runnable (sched_load s) = l_runnable (sched_load (snd (sched_remove h s))) + (if st = Runnable then 1 else 0)"
    "l_occupied (sched_load s) = Suc (l_occupied (sched_load (snd (sched_remove h s))))"
    using load_update [OF d(1)] d(2,3) t
    by (auto simp: sched_remove_def task_mut_def task_runnable_def split: if_splits)
qed

lemma create_load:
  assumes "sched_create p s = (Ok h, s')"
  shows "l_runnable (sched_load s') = Suc (l_runnable (sched_load s))"
    and "l_occupied (sched_load s') = Suc (l_occupied (sched_load s))"
proof -
  from assms obtain i where i: "position (\<lambda>t. \<not> t_occupied t \<and> t_generation t \<noteq> 0) (tasks s) = Some i"
    and s': "s' = s\<lparr>tasks := (tasks s)[i := (tasks s ! i)\<lparr>t_occupied := True, t_state := Runnable,
       t_priority := p, t_budget := priority_budget p\<rparr>]\<rparr>"
    by (auto simp: sched_create_def Let_def split: option.splits)
  show "l_runnable (sched_load s') = Suc (l_runnable (sched_load s))"
    "l_occupied (sched_load s') = Suc (l_occupied (sched_load s))"
    using load_update [OF position_SomeD(1) [OF i]] position_SomeD(2) [OF i]
    by (auto simp: s' task_runnable_def split: if_splits)
qed

lemma candidate_SomeD:
  assumes "migration_candidate s excluded = Some h" and "sched_inv s"
  shows "\<exists>p. sched_view s h = Some (Runnable, p)" and "Some h \<noteq> excluded"
proof -
  from assms(1) obtain slot where "find (\<lambda>slot. task_runnable (tasks s ! slot) \<and>
      Some (slot_id s slot) \<noteq> excluded) (scan_order s) = Some slot" and h: "h = slot_id s slot"
    by (auto simp: migration_candidate_def)
  from find_scan_SomeD(1,2) [OF this(1) assms(2)]
  show "\<exists>p. sched_view s h = Some (Runnable, p)" and "Some h \<noteq> excluded"
    using slot_id_view [OF assms(2)] by (auto simp: h)
qed

lemma attach_runnable_load:
  assumes "ks_attach d k = (Ok m, k')" and "det_state d = Runnable"
  shows "l_runnable (ks_load k') = Suc (l_runnable (ks_load k))"
proof -
  obtain h where "ks_create (det_priority d) k = (Ok h, k')"
    using assms by (auto simp: ks_attach_def split: prod.splits result.splits)
  then have "sched_create (det_priority d) (ks_scheduler k) = (Ok h, ks_scheduler k')"
    by (cases "sched_create (det_priority d) (ks_scheduler k)") (auto simp: ks_create_def on_scheduler_def)
  then show ?thesis by (simp add: ks_load_def create_load)
qed

lemma rebalance_migratedD:
  assumes "ks_inv k" and "ks_rebalance_to k dst = (Ok (Migrated m), k', dst')"
  shows "l_runnable (ks_load k) = Suc (l_runnable (ks_load k'))"
    and "l_runnable (ks_load dst') = Suc (l_runnable (ks_load dst))"
    and "l_runnable (ks_load dst) + 2 \<le> l_runnable (ks_load k) \<or> 2 ^ 64 \<le> l_runnable (ks_load k)"
    and "ks_migrate_to (mig_source m) k dst = (Ok m, k', dst')"
proof -
  from assms(2) obtain h where h: "migration_candidate (ks_scheduler k) (ks_current k) = Some h"
    "ks_migrate_to h k dst = (Ok m, k', dst')"
    and gap: "\<not> l_runnable (ks_load k) \<le> usize_saturating_add (l_runnable (ks_load dst)) 1"
    by (auto simp: ks_rebalance_to_def split: if_splits option.splits prod.splits result.splits)
  obtain p where v: "ks_view k h = Some (Runnable, p)" and nc: "ks_current k \<noteq> Some h"
    using candidate_SomeD [OF h(1) ks_invD(1) [OF assms(1)]] by auto
  have k': "k' = k\<lparr>ks_scheduler := snd (sched_remove h (ks_scheduler k))\<rparr>"
    and a: "ks_attach \<lparr>det_source = h, det_state = Runnable, det_priority = p\<rparr> dst = (Ok m, dst')"
    using h(2) v nc by (auto simp: ks_migrate_eq split: prod.splits result.splits)
  show "l_runnable (ks_load k) = Suc (l_runnable (ks_load k'))"
    using remove_load(1) [OF v] by (simp add: ks_load_def k')
  show "l_runnable (ks_load dst') = Suc (l_runnable (ks_load dst))" using attach_runnable_load [OF a] by simp
  show "l_runnable (ks_load dst) + 2 \<le> l_runnable (ks_load k) \<or> 2 ^ 64 \<le> l_runnable (ks_load k)"
    using gap by (auto simp: usize_saturating_add_def min_def split: if_splits)
  have "mig_source m = h" using a by (auto simp: ks_attach_def split: prod.splits result.splits if_splits)
  with h(2) show "ks_migrate_to (mig_source m) k dst = (Ok m, k', dst')" by simp
qed

section \<open>The periodic balancer\<close>

lemma load_less_trans: "load_less a b \<Longrightarrow> load_less b c \<Longrightarrow> load_less a c"
  by (auto simp: load_less_def)

lemma load_less_neg_trans: "\<not> load_less a b \<Longrightarrow> load_less c b \<Longrightarrow> \<not> load_less a c"
  by (auto simp: load_less_def)

lemma balance_scan_spec:
  assumes "\<forall>c l. sel = Some (c, l) \<longrightarrow> l = loads ! c \<and> balance_eligible cpu loads c"
  shows "case balance_scan cpu loads cs sel of
     None \<Rightarrow> sel = None \<and> (\<forall>c \<in> set cs. \<not> balance_eligible cpu loads c)
   | Some (c, l) \<Rightarrow> l = loads ! c \<and> balance_eligible cpu loads c \<and>
       (c \<in> set cs \<or> sel = Some (c, l)) \<and> (\<forall>d m. sel = Some (d, m) \<longrightarrow> \<not> load_less m l) \<and>
       (\<forall>d \<in> set cs. balance_eligible cpu loads d \<longrightarrow> \<not> load_less (loads ! d) l)"
  using assms
proof (induction cs arbitrary: sel)
  case Nil
  then show ?case by (auto simp: load_less_def split: option.splits)
next
  case (Cons x cs)
  define sel' where "sel' = (if balance_eligible cpu loads x \<and>
      (case sel of None \<Rightarrow> True | Some (_, load) \<Rightarrow> load_less (loads ! x) load)
      then Some (x, loads ! x) else sel)"
  have ok: "\<forall>c l. sel' = Some (c, l) \<longrightarrow> l = loads ! c \<and> balance_eligible cpu loads c"
    using Cons.prems by (auto simp: sel'_def split: if_splits)
  note IH = Cons.IH [OF ok]
  have scan: "balance_scan cpu loads (x # cs) sel = balance_scan cpu loads cs sel'"
    by (simp add: sel'_def)
  show ?case
  proof (cases "balance_scan cpu loads cs sel'")
    case None
    then have "sel' = None" "\<forall>c \<in> set cs. \<not> balance_eligible cpu loads c" using IH by auto
    then show ?thesis using None scan by (auto simp: sel'_def split: if_splits)
  next
    case (Some r)
    obtain c l where r: "r = (c, l)" by fastforce
    from IH have "l = loads ! c \<and> balance_eligible cpu loads c \<and> (c \<in> set cs \<or> sel' = Some (c, l)) \<and>
      (\<forall>d m. sel' = Some (d, m) \<longrightarrow> \<not> load_less m l) \<and>
      (\<forall>d \<in> set cs. balance_eligible cpu loads d \<longrightarrow> \<not> load_less (loads ! d) l)"
      unfolding Some r option.case prod.case .
    then have c: "l = loads ! c" "balance_eligible cpu loads c" "c \<in> set cs \<or> sel' = Some (c, l)"
      "\<forall>d m. sel' = Some (d, m) \<longrightarrow> \<not> load_less m l"
      "\<forall>d \<in> set cs. balance_eligible cpu loads d \<longrightarrow> \<not> load_less (loads ! d) l"
      by blast+
    have "c \<in> set (x # cs) \<or> sel = Some (c, l)" using c(3) by (auto simp: sel'_def split: if_splits)
    moreover have "\<not> load_less m l" if "sel = Some (d, m)" for d m
      using c(4) that load_less_trans by (fastforce simp: sel'_def split: if_splits)
    moreover have "\<not> load_less (loads ! x) l" if elig: "balance_eligible cpu loads x"
    proof (cases "sel' = Some (x, loads ! x)")
      case True
      then show ?thesis using c(4) by blast
    next
      case False
      then obtain d m where "sel = Some (d, m)" "sel' = sel" "\<not> load_less (loads ! x) m"
        using elig by (auto simp: sel'_def split: if_splits option.splits)
      then show ?thesis using c(4) by (auto simp: load_less_def)
    qed
    ultimately show ?thesis using Some r c(1,2,5) scan by auto
  qed
qed

lemma rotation_covers:
  fixes c n d :: nat
  assumes "d < n"
  shows "d \<in> set (map (\<lambda>k. (c + k) mod n) [0..<n])"
proof -
  have "(c + (d + n - c mod n) mod n) mod n = (c mod n + (d + n - c mod n)) mod n"
    by (simp add: mod_simps)
  also have "c mod n + (d + n - c mod n) = d + n" using assms mod_less_divisor [of n c] by linarith
  finally have "(c + (d + n - c mod n) mod n) mod n = d" using assms by simp
  then show ?thesis using assms by (auto simp: image_iff intro!: bexI [of _ "(d + n - c mod n) mod n"])
qed

lemma rotation_set: "0 < n \<Longrightarrow> set (map (\<lambda>k. (c + k) mod n) [0..<n]) = {..<n :: nat}"
  using rotation_covers [of _ n c] by auto

section \<open>Properties\<close>

text \<open>
  A task identity that any operation unbinds (termination or detachment) never
  becomes valid again, whatever operations follow, on slots that are reused without limit: a
  slot whose 32-bit generation is used up is retired instead of wrapping.
\<close>

theorem ks_retired_ids_stay_dead:
  assumes "ks_inv k" and "ks_view k h \<noteq> None" and "ks_view (ks_exec x k) h = None"
  shows "ks_view (ks_run ops (ks_exec x k)) h = None"
proof -
  have "sched_spent (ks_scheduler (ks_exec x k)) h"
    using ks_exec_kept [OF assms(1), of x] assms(2,3) unfolding kept_or_spent_def by metis
  then have "sched_spent (ks_scheduler (ks_run ops (ks_exec x k))) h"
    by (rule ks_run_spent [OF ks_exec_inv [OF assms(1)]])
  then show ?thesis
    using sched_spent_dead ks_invD(1) ks_run_inv ks_exec_inv assms(1) by blast
qed

definition demo_scheduler :: kernel_scheduler where
  "demo_scheduler = \<lparr>ks_scheduler = sched_new 2, ks_current = None, ks_ticks = 0,
     ks_quantum_ticks = 1, ks_remaining = 1\<rparr>"

lemma demo_scheduler_inv: "ks_inv demo_scheduler"
  using ks_new_okD(1) [of 2 100 1 demo_scheduler] by (simp add: ks_new_def demo_scheduler_def)

theorem ks_retired_ids_stay_dead_witness:
  "let k = ks_run [OpCreate NORMAL, OpStart] demo_scheduler;
       h = \<lparr>tid_slot = 0, tid_generation = 1\<rparr> in
   ks_view k h = Some (Runnable, NORMAL) \<and>
   ks_view (ks_run [OpCreate REALTIME, OpStart] (ks_exec OpTerminate k)) h = None"
proof -
  let ?k = "ks_run [OpCreate NORMAL, OpStart] demo_scheduler"
  let ?h = "\<lparr>tid_slot = 0, tid_generation = 1\<rparr>"
  have "ks_view ?k ?h = Some (Runnable, NORMAL)" "ks_view (ks_exec OpTerminate ?k) ?h = None"
    by code_simp+
  then show ?thesis
    using ks_retired_ids_stay_dead [OF ks_run_inv [OF demo_scheduler_inv], where h = ?h and x = OpTerminate]
    by (simp add: Let_def)
qed

text \<open>
  In every state reachable from a fresh scheduler the current task is live and
  runnable, the quantum counter is at least one (so the decrement at a timer tick cannot
  underflow) and never above the quantum, and blocking or terminating the current task
  succeeds whenever there is one.
\<close>

theorem ks_current_always_valid:
  assumes "ks_new n ticks_per_second quantum = Ok k" and "n \<le> 2 ^ 32"
  shows "(case ks_current (ks_run ops k) of
            Some h \<Rightarrow> (\<exists>p. ks_view (ks_run ops k) h = Some (Runnable, p)) \<and>
              is_ok (fst (ks_block_current (ks_run ops k))) \<and>
              is_ok (fst (ks_terminate_current (ks_run ops k)))
          | None \<Rightarrow> fst (ks_block_current (ks_run ops k)) = Err NoCurrentTask \<and>
              fst (ks_terminate_current (ks_run ops k)) = Err NoCurrentTask) \<and>
         1 \<le> ks_remaining (ks_run ops k) \<and>
         ks_remaining (ks_run ops k) \<le> ks_quantum_ticks (ks_run ops k)"
proof -
  have inv: "ks_inv (ks_run ops k)" using ks_run_inv ks_new_okD(1) [OF assms] by blast
  then show ?thesis
    using ks_invD(4) [OF inv]
    by (auto simp: ks_no_current ks_block_eq ks_terminate_eq ks_inv_def split: option.splits)
qed

theorem ks_current_always_valid_witness:
  "let k = ks_run [OpCreate NORMAL, OpCreate REALTIME, OpStart, OpTick] demo_scheduler in
   ks_current k = Some \<lparr>tid_slot = 1, tid_generation = 1\<rparr> \<and> 1 \<le> ks_remaining k"
proof -
  have new: "ks_new 2 100 1 = Ok demo_scheduler" by (simp add: ks_new_def demo_scheduler_def)
  have "ks_current (ks_run [OpCreate NORMAL, OpCreate REALTIME, OpStart, OpTick] demo_scheduler) =
      Some \<lparr>tid_slot = 1, tid_generation = 1\<rparr>" by code_simp
  then show ?thesis
    using ks_current_always_valid [OF new, of "[OpCreate NORMAL, OpCreate REALTIME, OpStart, OpTick]"]
    by (simp add: Let_def)
qed

text \<open>
  Migration neither loses nor duplicates a task.  On success the source loses
  exactly the migrated identity, the destination gains exactly one fresh identity with the same
  state and priority, and neither scheduler's current task changes; on failure both schedulers
  are as before.
\<close>

theorem ks_migration_conserves:
  assumes "ks_inv k" and "ks_inv dst"
  shows "case ks_migrate_to h k dst of
     (Ok m, k', dst') \<Rightarrow> ks_inv k' \<and> ks_inv dst' \<and>
       (\<exists>st p. ks_view k h = Some (st, p) \<and> ks_view k' = (ks_view k)(h := None) \<and>
          mig_source m = h \<and> mig_state m = st \<and> mig_priority m = p \<and>
          ks_view dst (mig_destination m) = None \<and>
          ks_view dst' = (ks_view dst)(mig_destination m \<mapsto> (st, p))) \<and>
       ks_current k' = ks_current k \<and> ks_current dst' = ks_current dst
   | (Err _, k', dst') \<Rightarrow> k' = k \<and> dst' = dst"
proof (cases "ks_current k = Some h \<or> ks_view k h = None")
  case True
  then show ?thesis by (auto simp: ks_migrate_eq)
next
  case False
  then obtain st p where v: "ks_view k h = Some (st, p)" and nc: "ks_current k \<noteq> Some h" by auto
  show ?thesis using assms(2)
  proof (cases rule: ks_attachE [where d = "\<lparr>det_source = h, det_state = st, det_priority = p\<rparr>"])
    case (ok g dst')
    then show ?thesis using v nc ks_remove_inv [OF assms(1) nc] by (simp add: ks_migrate_eq remove_eqs)
  next
    case full
    then show ?thesis using v nc by (simp add: ks_migrate_eq)
  qed
qed

theorem ks_migration_conserves_witness:
  "let k = ks_run [OpCreate REALTIME] demo_scheduler; h = \<lparr>tid_slot = 0, tid_generation = 1\<rparr> in
   is_ok (fst (ks_migrate_to h k demo_scheduler)) \<and>
   ks_view (fst (snd (ks_migrate_to h k demo_scheduler))) h = None"
proof -
  let ?k = "ks_run [OpCreate REALTIME] demo_scheduler" and ?h = "\<lparr>tid_slot = 0, tid_generation = 1\<rparr>"
  have "is_ok (fst (ks_migrate_to ?h ?k demo_scheduler))" by code_simp
  then show ?thesis
    using ks_migration_conserves [OF ks_run_inv [OF demo_scheduler_inv] demo_scheduler_inv, where h = ?h,
        of "[OpCreate REALTIME]"]
    by (auto simp: Let_def is_ok_def split: prod.splits result.splits)
qed

text \<open>
  A rebalancing step that migrates a task keeps the total of runnable tasks, does
  not overshoot (the source still has at least as many as the destination), and is not undone:
  rebalancing straight back reports balance.  Repeated steps therefore end.
\<close>

theorem ks_rebalance_no_ping_pong:
  assumes "ks_inv k" and "ks_inv dst" and "ks_rebalance_to k dst = (Ok (Migrated m), k', dst')"
  shows "l_runnable (ks_load k') + l_runnable (ks_load dst') = l_runnable (ks_load k) + l_runnable (ks_load dst) \<and>
     l_runnable (ks_load dst') \<le> l_runnable (ks_load k') \<and>
     l_runnable (ks_load k') < l_runnable (ks_load k) \<and>
     ks_rebalance_to dst' k' = (Ok Balanced, dst', k')"
proof -
  note d = rebalance_migratedD [OF assms(1,3)]
  have "l_runnable (ks_load k) \<le> 2 ^ 32"
    using ks_invD(1) [OF assms(1)] order.trans [OF length_filter_le [of task_runnable "tasks (ks_scheduler k)"]]
    by (simp add: ks_load_def sched_load_def sched_inv_def)
  then have "l_runnable (ks_load dst) + 2 \<le> l_runnable (ks_load k)" using d(3) by simp
  then have le: "l_runnable (ks_load dst') \<le> l_runnable (ks_load k')" using d(1,2) by linarith
  have "l_runnable (ks_load dst') \<le> usize_saturating_add (l_runnable (ks_load k')) 1"
    using le \<open>l_runnable (ks_load k) \<le> 2 ^ 32\<close> d(1) by (simp add: usize_saturating_add_def)
  then have "ks_rebalance_to dst' k' = (Ok Balanced, dst', k')" by (simp add: ks_rebalance_to_def)
  with le d(1,2) show ?thesis by simp
qed

theorem ks_rebalance_no_ping_pong_witness:
  "let r = ks_rebalance_to (ks_run [OpCreate NORMAL, OpCreate NORMAL] demo_scheduler) demo_scheduler in
   l_runnable (ks_load (fst (snd r))) = 1 \<and>
   fst (ks_rebalance_to (snd (snd r)) (fst (snd r))) = Ok Balanced"
proof -
  let ?k = "ks_run [OpCreate NORMAL, OpCreate NORMAL] demo_scheduler"
  let ?m = "\<lparr>mig_source = \<lparr>tid_slot = 0, tid_generation = 1\<rparr>, mig_destination = \<lparr>tid_slot = 0, tid_generation = 1\<rparr>,
    mig_state = Runnable, mig_priority = NORMAL\<rparr>"
  let ?g = "ks_migrate_to \<lparr>tid_slot = 0, tid_generation = 1\<rparr> ?k demo_scheduler"
  have r: "fst ?g = Ok ?m" "l_runnable (ks_load (fst (snd ?g))) = 1" "l_runnable (ks_load ?k) = 2"
    "l_runnable (ks_load demo_scheduler) = 0"
    "migration_candidate (ks_scheduler ?k) (ks_current ?k) = Some \<lparr>tid_slot = 0, tid_generation = 1\<rparr>"
    by code_simp+
  obtain k' dst' where g: "?g = (Ok ?m, k', dst')" using r(1) by (metis fst_conv prod.collapse)
  have e: "ks_rebalance_to ?k demo_scheduler = (Ok (Migrated ?m), k', dst')"
    unfolding ks_rebalance_to_def r(3-5) by (simp add: usize_saturating_add_def g)
  show ?thesis
    using ks_rebalance_no_ping_pong [OF ks_run_inv [OF demo_scheduler_inv] demo_scheduler_inv e] r(2)
    unfolding Let_def e g by simp
qed

text \<open>
  The balancing policy on a poll that is due: it names a target exactly when some
  remote CPU has room and at least two fewer runnable tasks than the local one, the target is a
  least loaded such CPU, and the next poll that may name one is a whole interval after this
  tick, however late this poll was.  A poll before that tick names none.
\<close>

theorem pb_poll_least_loaded:
  assumes "cpu < length loads" and "pb_last_tick b \<le> tick"
    and "unat tick + unat (pb_interval_ticks b) < 2 ^ 64"
  shows "case pb_poll tick cpu loads b of
     (Ok (Some t), b') \<Rightarrow> pb_next_tick b \<le> tick \<and> bt_cpu t < length loads \<and> bt_cpu t \<noteq> cpu \<and>
       bt_load t = loads ! bt_cpu t \<and> balance_eligible cpu loads (bt_cpu t) \<and>
       (\<forall>c < length loads. balance_eligible cpu loads c \<longrightarrow> \<not> load_less (loads ! c) (bt_load t)) \<and>
       unat (pb_next_tick b') = unat tick + unat (pb_interval_ticks b')
   | (Ok None, b') \<Rightarrow> tick < pb_next_tick b \<or> (\<forall>c < length loads. \<not> balance_eligible cpu loads c)
   | (Err _, _) \<Rightarrow> False"
proof -
  let ?cs = "map (\<lambda>k. (pb_cursor b + k) mod length loads) [0..<length loads]"
  let ?r = "balance_scan cpu loads ?cs None"
  obtain n where n: "checked_add tick (pb_interval_ticks b) = Some n"
    using assms(3) by (simp add: checked_add_def)
  have un: "unat n = unat tick + unat (pb_interval_ticks b)" using checked_add_SomeD(2) [OF n] .
  have cs: "set ?cs = {..<length loads}" using assms(1) by (intro rotation_set) auto
  have poll: "pb_poll tick cpu loads b = (if tick < pb_next_tick b then (Ok None, b\<lparr>pb_last_tick := tick\<rparr>)
      else case ?r of None \<Rightarrow> (Ok None, b\<lparr>pb_last_tick := tick, pb_next_tick := n\<rparr>)
        | Some (c, l) \<Rightarrow> (Ok (Some \<lparr>bt_cpu = c, bt_load = l\<rparr>), b\<lparr>pb_last_tick := tick, pb_next_tick := n,
            pb_cursor := (c + 1) mod length loads\<rparr>))"
    using assms(1,2) by (simp add: pb_poll_def n Let_def)
  have spec: "case ?r of None \<Rightarrow> (\<forall>c < length loads. \<not> balance_eligible cpu loads c)
     | Some (c, l) \<Rightarrow> l = loads ! c \<and> balance_eligible cpu loads c \<and> c < length loads \<and>
       (\<forall>d < length loads. balance_eligible cpu loads d \<longrightarrow> \<not> load_less (loads ! d) l)"
    using balance_scan_spec [of None loads cpu ?cs] unfolding cs by (simp split: option.splits prod.splits)
  show ?thesis
  proof (cases "tick < pb_next_tick b")
    case False
    then show ?thesis using spec un unfolding poll
      by (cases ?r) (auto simp: balance_eligible_def)
  qed (simp add: poll)
qed

definition demo_loads :: "scheduler_load list" where
  "demo_loads = [\<lparr>l_occupied = 4, l_runnable = 4, l_capacity = 4\<rparr>, \<lparr>l_occupied = 2, l_runnable = 2, l_capacity = 4\<rparr>,
     \<lparr>l_occupied = 1, l_runnable = 1, l_capacity = 4\<rparr>]"

theorem pb_poll_least_loaded_witness:
  "\<exists>b. pb_new 3 0 10 = Ok b \<and> (\<exists>t b'. pb_poll 25 0 demo_loads b = (Ok (Some t), b') \<and>
     bt_cpu t = 2 \<and> unat (pb_next_tick b') = 35)"
proof -
  let ?b = "\<lparr>pb_interval_ticks = 10, pb_next_tick = 10, pb_last_tick = 0, pb_cursor = 0\<rparr>"
  have new: "pb_new 3 0 10 = Ok ?b" by (simp add: pb_new_def checked_add_def)
  obtain t b' where p: "pb_poll 25 0 demo_loads ?b = (Ok (Some t), b')" and t: "bt_cpu t = 2"
    "pb_interval_ticks b' = 10"
    by (simp add: pb_poll_def checked_add_def Let_def demo_loads_def balance_eligible_def load_less_def
        usize_saturating_add_def upt_rec)
  have "unat (pb_next_tick b') = 35"
    using pb_poll_least_loaded [of 0 demo_loads ?b 25] p t by (simp add: demo_loads_def)
  then show ?thesis using new p t by blast
qed

end
