(* ===== verification/Scheduling_Liveness.thy ===== *)
theory Scheduling_Liveness
  imports Scheduler
begin

text \<open>
  When a runnable task gets the CPU.  Under timer ticks alone every runnable task is selected
  within nine quanta per table slot: each selection consumes one unit of the runnable tasks'
  budgets, and a task with budget left is at most one trip of the cursor away.  Wake-ups refill
  budgets, so two tasks that wake each other can keep a third from ever being selected.
\<close>

section \<open>Iterated selection\<close>

definition sched_next :: "scheduler \<Rightarrow> scheduler" where
  "sched_next s = snd (sched_schedule s)"

lemma sched_next_iter_inv: "sched_inv s \<Longrightarrow> sched_inv ((sched_next ^^ k) s)"
  by (induction k) (simp_all add: sched_next_def schedule_preserves)

lemma iter_next: "(sched_next ^^ Suc k) s = (sched_next ^^ k) (sched_next s)"
  by (simp add: funpow_swap1)

lemma schedule_eligible:
  assumes "sched_inv s" and "i < length (tasks s)" and "slot_eligible s i"
  shows "sched_schedule s = select_with_budget s \<and> fst (select_with_budget s) \<noteq> None"
proof -
  obtain r s' where r: "select_with_budget s = (r, s')" by fastforce
  have "r \<noteq> None" using select_noneD(2) [OF _ assms(1,2), of s'] assms(3) r by auto
  then show ?thesis using r by (auto simp: sched_schedule_def)
qed

lemma slot_distance_inject:
  assumes "sched_inv s" and "i < length (tasks s)" and "j < length (tasks s)"
    and "slot_distance s i = slot_distance s j"
  shows "i = j"
  using scan_slot(2) [OF assms(1,2)] scan_slot(2) [OF assms(1,3)] assms(4) by metis

text \<open>Selecting another slot brings the cursor closer to a slot with budget.\<close>

lemma select_other_closer:
  assumes inv: "sched_inv s" and i: "i < length (tasks s)" "slot_eligible s i"
    and sel: "select_with_budget s = (Some h, s')" and other: "h \<noteq> slot_id s i"
  shows "slot_distance s' i < slot_distance s i" "slot_eligible s' i" "slot_id s' i = slot_id s i"
    and "length (tasks s') = length (tasks s)"
proof -
  obtain j where j: "j < length (tasks s)" "slot_eligible s j" "h = slot_id s j"
    and s': "s' = s\<lparr>tasks := (tasks s)[j := (tasks s ! j)\<lparr>t_budget := t_budget (tasks s ! j) - 1\<rparr>],
            cursor := (j + 1) mod length (tasks s)\<rparr>"
    and le: "slot_distance s j \<le> slot_distance s i"
    using select_okD [OF sel inv] i by metis
  have "i \<noteq> j" using other j(3) by auto
  then have lt: "slot_distance s j < slot_distance s i"
    using le slot_distance_inject [OF inv i(1) j(1)] by fastforce
  show "slot_eligible s' i" "slot_id s' i = slot_id s i" "length (tasks s') = length (tasks s)"
    using i \<open>i \<noteq> j\<close> by (simp_all add: s' slot_eligible_def slot_id_def)
  let ?n = "length (tasks s)" and ?d = "slot_distance s i - slot_distance s j - 1"
  have d: "?d < ?n" using scan_slot(1) [OF inv i(1)] by simp
  have inv': "sched_inv s'" using select_preserves(1) [OF inv] sel by simp
  have "(cursor s' + ?d) mod ?n = (j + 1 + ?d) mod ?n" by (simp add: s' mod_simps)
  also have "\<dots> = ((cursor s + slot_distance s j) mod ?n + (1 + ?d)) mod ?n"
    using scan_slot(2) [OF inv j(1)] by simp
  also have "\<dots> = (cursor s + slot_distance s j + (1 + ?d)) mod ?n" by (rule mod_add_left_eq)
  also have "\<dots> = (cursor s + slot_distance s i) mod ?n" using lt by simp
  also have "\<dots> = i" by (rule scan_slot(2) [OF inv i(1)])
  finally have "(cursor s' + ?d) mod length (tasks s') = i" by (simp add: s')
  then have "slot_distance s' i = ?d" using distance_scan [OF inv', of ?d] d by (simp add: s')
  then show "slot_distance s' i < slot_distance s i" using lt by simp
qed

lemma budget_selected_soon:
  assumes "sched_inv s" and "i < length (tasks s)" and "slot_eligible s i"
  shows "\<exists>k \<le> slot_distance s i. fst (sched_schedule ((sched_next ^^ k) s)) = Some (slot_id s i)"
  using assms
proof (induction "slot_distance s i" arbitrary: s rule: less_induct)
  case less
  note e = schedule_eligible [OF less.prems]
  obtain h s' where sel: "select_with_budget s = (Some h, s')" using e by (metis option.collapse prod.collapse)
  show ?case
  proof (cases "h = slot_id s i")
    case True
    then show ?thesis using e sel by (intro exI [of _ 0]) simp
  next
    case False
    note c = select_other_closer [OF less.prems sel False]
    have nxt: "sched_next s = s'" using e sel by (simp add: sched_next_def)
    have "sched_inv s'" using select_preserves(1) [OF less.prems(1)] sel by simp
    then obtain k where "k \<le> slot_distance s' i"
      "fst (sched_schedule ((sched_next ^^ k) s')) = Some (slot_id s i)"
      using less.hyps [of s'] c less.prems(2) by auto
    then show ?thesis using c(1) nxt by (intro exI [of _ "Suc k"]) (simp add: iter_next del: funpow.simps)
  qed
qed

section \<open>Budgets are used up\<close>

definition pending_budget :: "scheduler \<Rightarrow> nat" where
  "pending_budget s = sum_list (map (\<lambda>t. if task_runnable t then unat (t_budget t) else 0) (tasks s))"

lemma sum_list_update:
  fixes f :: "'a \<Rightarrow> nat"
  shows "i < length xs \<Longrightarrow> sum_list (map f (xs[i := y])) + f (xs ! i) = sum_list (map f xs) + f y"
proof (induction xs arbitrary: i)
  case (Cons x xs)
  then show ?case by (cases i) auto
qed simp

lemma sum_list_bound:
  fixes f :: "'a \<Rightarrow> nat"
  shows "\<forall>x \<in> set xs. f x \<le> b \<Longrightarrow> sum_list (map f xs) \<le> b * length xs"
  by (induction xs) auto

lemma pending_bound: "sched_inv s \<Longrightarrow> pending_budget s \<le> 8 * length (tasks s)"
  unfolding pending_budget_def by (rule sum_list_bound) (auto simp: sched_inv_def task_ok_def)

lemma select_uses_budget:
  assumes "sched_inv s" and "select_with_budget s = (Some h, s')"
  shows "pending_budget s = Suc (pending_budget s')"
    and "length (tasks s') = length (tasks s)"
    and "task_runnable (tasks s' ! i) = task_runnable (tasks s ! i)" "slot_id s' i = slot_id s i"
proof -
  obtain j where j: "j < length (tasks s)" "slot_eligible s j"
    and s': "s' = s\<lparr>tasks := (tasks s)[j := (tasks s ! j)\<lparr>t_budget := t_budget (tasks s ! j) - 1\<rparr>],
            cursor := (j + 1) mod length (tasks s)\<rparr>"
    using select_okD [OF assms(2,1)] by metis
  have "unat (t_budget (tasks s ! j) - 1) + 1 = unat (t_budget (tasks s ! j))"
    using j(2) by (simp add: slot_eligible_def unat_pred_u8 unat_gt_0)
  then show "pending_budget s = Suc (pending_budget s')"
    using sum_list_update [OF j(1), of "\<lambda>t. if task_runnable t then unat (t_budget t) else 0"
        "(tasks s ! j)\<lparr>t_budget := t_budget (tasks s ! j) - 1\<rparr>"] j(2)
    by (simp add: pending_budget_def s' slot_eligible_def task_runnable_def)
  show "length (tasks s') = length (tasks s)" "task_runnable (tasks s' ! i) = task_runnable (tasks s ! i)"
    "slot_id s' i = slot_id s i"
    by (auto simp: s' task_runnable_def slot_id_def nth_update_if)
qed

lemma refill_step:
  assumes inv: "sched_inv s" and i: "i < length (tasks s)" "task_runnable (tasks s ! i)"
    and none: "select_with_budget s = (None, s')"
  shows "sched_schedule s = sched_schedule (refill_budgets s)" and "slot_eligible (refill_budgets s) i"
    and "slot_id (refill_budgets s) i = slot_id s i" "length (tasks (refill_budgets s)) = length (tasks s)"
proof -
  show e: "slot_eligible (refill_budgets s) i" and "slot_id (refill_budgets s) i = slot_id s i"
    and len: "length (tasks (refill_budgets s)) = length (tasks s)"
    using i by (simp_all add: slot_eligible_def slot_id_def refill_budgets_def task_runnable_def)
  have "\<exists>t \<in> set (tasks s). task_runnable t" using i nth_mem by blast
  then have "sched_schedule s = select_with_budget (refill_budgets s)"
    using none select_noneD(1) [OF none inv] by (simp add: sched_schedule_def)
  then show "sched_schedule s = sched_schedule (refill_budgets s)"
    using schedule_eligible [OF refill_preserves(1) [OF inv], of i] e len i by simp
qed

lemma runnable_selected_soon:
  assumes "sched_inv s" and "i < length (tasks s)" and "task_runnable (tasks s ! i)"
  shows "\<exists>k < pending_budget s + length (tasks s). fst (sched_schedule ((sched_next ^^ k) s)) = Some (slot_id s i)"
  using assms
proof (induction "pending_budget s" arbitrary: s rule: less_induct)
  case less
  note inv = less.prems(1)
  consider (budget) "slot_eligible s i" | (other) h s' where "select_with_budget s = (Some h, s')" "\<not> slot_eligible s i"
    | (refill) s' where "select_with_budget s = (None, s')" by (metis option.exhaust prod.exhaust)
  then show ?case
  proof cases
    case budget
    then show ?thesis using budget_selected_soon [OF inv less.prems(2) budget] scan_slot(1) [OF inv less.prems(2)]
      by (metis le_less_trans trans_less_add2)
  next
    case (other h s')
    note u = select_uses_budget [OF inv other(1)]
    have nxt: "sched_next s = s'" using other(1) by (simp add: sched_next_def sched_schedule_def)
    have inv': "sched_inv s'" using select_preserves(1) [OF inv] other(1) by simp
    obtain k where "k < pending_budget s' + length (tasks s')"
      "fst (sched_schedule ((sched_next ^^ k) s')) = Some (slot_id s' i)"
      using less.hyps [of s'] u(1) u(2) u(3) [of i] inv' less.prems(2,3) by auto
    then show ?thesis using u(1,2) u(4) [of i] nxt by (intro exI [of _ "Suc k"]) (simp add: iter_next del: funpow.simps)
  next
    case (refill s')
    note r = refill_step [OF less.prems refill]
    have inv': "sched_inv (refill_budgets s)" by (rule refill_preserves(1) [OF inv])
    obtain k where k: "k \<le> slot_distance (refill_budgets s) i"
      "fst (sched_schedule ((sched_next ^^ k) (refill_budgets s))) = Some (slot_id s i)"
      using budget_selected_soon [OF inv' _ r(2)] r(3,4) less.prems(2) by auto
    have "fst (sched_schedule ((sched_next ^^ k) s)) = Some (slot_id s i)"
    proof (cases k)
      case (Suc j)
      have "sched_next s = sched_next (refill_budgets s)" using r(1) by (simp add: sched_next_def)
      then show ?thesis using k(2) Suc by (simp add: iter_next del: funpow.simps)
    qed (use k r(1) in simp)
    moreover have "k < length (tasks s)" using k(1) scan_slot(1) [OF inv', of i] r(4) less.prems(2) by simp
    ultimately show ?thesis by (intro exI [of _ k]) simp
  qed
qed

section \<open>Timer ticks\<close>

definition ks_tick :: "kernel_scheduler \<Rightarrow> kernel_scheduler" where
  "ks_tick k = snd (ks_timer_tick k)"

lemma ks_run_ticks: "ks_run (replicate m OpTick) k = (ks_tick ^^ m) k"
  by (induction m arbitrary: k) (simp_all add: ks_run_def ks_tick_def funpow_swap1)

text \<open>One round: from any state the scheduler selects within a quantum of ticks.\<close>

definition selected :: "kernel_scheduler \<Rightarrow> kernel_scheduler \<Rightarrow> bool" where
  "selected k k' \<longleftrightarrow> ks_scheduler k' = sched_next (ks_scheduler k) \<and>
     ks_current k' = fst (sched_schedule (ks_scheduler k)) \<and> ks_quantum_ticks k' = ks_quantum_ticks k"

lemma unat_pred_u32: "b \<noteq> (0 :: u32) \<Longrightarrow> unat (b - 1) = unat b - 1"
  by (simp add: unat_sub word_le_nat_alt unat_gt_0 Suc_leI)

lemma tick_step:
  assumes "ks_inv k" and "unat (ks_ticks k) + 1 < 2 ^ 64"
  shows "unat (ks_ticks (ks_tick k)) = unat (ks_ticks k) + 1"
    and "selected k (ks_tick k) \<or>
      (ks_scheduler (ks_tick k) = ks_scheduler k \<and> ks_current (ks_tick k) = ks_current k \<and>
       ks_quantum_ticks (ks_tick k) = ks_quantum_ticks k \<and>
       Suc (unat (ks_remaining (ks_tick k))) = unat (ks_remaining k))"
proof -
  have n: "checked_add (ks_ticks k) 1 = Some (ks_ticks k + 1)" using assms(2) by (simp add: checked_add_def)
  have r: "ks_remaining k \<noteq> 0" using ks_invD(3) [OF assms(1)] by auto
  then have rem: "Suc (unat (ks_remaining k - 1)) = unat (ks_remaining k)"
    by (simp add: unat_pred_u32 unat_gt_0)
  show "unat (ks_ticks (ks_tick k)) = unat (ks_ticks k) + 1"
    using checked_add_1_SomeD [OF n]
    by (simp add: ks_tick_def ks_timer_tick_def n Let_def select_replacement_simps split: option.splits)
  show "selected k (ks_tick k) \<or>
      (ks_scheduler (ks_tick k) = ks_scheduler k \<and> ks_current (ks_tick k) = ks_current k \<and>
       ks_quantum_ticks (ks_tick k) = ks_quantum_ticks k \<and>
       Suc (unat (ks_remaining (ks_tick k))) = unat (ks_remaining k))"
    using rem by (simp add: ks_tick_def ks_timer_tick_def n Let_def select_replacement_simps selected_def
        sched_next_def split: option.splits)
qed

lemma round_selects:
  assumes "ks_inv k" and "unat (ks_ticks k) + unat (ks_remaining k) < 2 ^ 64"
  shows "\<exists>m. m \<le> unat (ks_remaining k) \<and> selected k ((ks_tick ^^ m) k) \<and> ks_inv ((ks_tick ^^ m) k) \<and>
     unat (ks_ticks ((ks_tick ^^ m) k)) = unat (ks_ticks k) + m"
  using assms
proof (induction "unat (ks_remaining k)" arbitrary: k)
  case 0
  then show ?case using ks_invD(3) [OF 0(2)] by (simp add: word_le_nat_alt)
next
  case (Suc n)
  have lt: "unat (ks_ticks k) + 1 < 2 ^ 64" using Suc.hyps(2) Suc.prems(2) by linarith
  note t = tick_step [OF Suc.prems(1) lt]
  have inv: "ks_inv (ks_tick k)" by (simp add: ks_tick_def ks_timer_tick_inv Suc.prems(1))
  show ?case using t(2)
  proof
    assume "selected k (ks_tick k)"
    then show ?thesis using inv t(1) Suc.hyps(2) by (intro exI [of _ 1]) simp
  next
    assume c: "ks_scheduler (ks_tick k) = ks_scheduler k \<and> ks_current (ks_tick k) = ks_current k \<and>
      ks_quantum_ticks (ks_tick k) = ks_quantum_ticks k \<and>
      Suc (unat (ks_remaining (ks_tick k))) = unat (ks_remaining k)"
    then have "n = unat (ks_remaining (ks_tick k))" using Suc.hyps(2) by simp
    from Suc.hyps(1) [OF this inv] obtain m where
      "m \<le> unat (ks_remaining (ks_tick k))" "selected (ks_tick k) ((ks_tick ^^ m) (ks_tick k))"
      "ks_inv ((ks_tick ^^ m) (ks_tick k))"
      "unat (ks_ticks ((ks_tick ^^ m) (ks_tick k))) = unat (ks_ticks (ks_tick k)) + m"
      using t(1) c Suc.prems(2) by auto
    then show ?thesis using c t(1)
      by (intro exI [of _ "Suc m"]) (simp add: funpow_swap1 selected_def)
  qed
qed

lemma rounds_select:
  assumes "ks_inv k" and "unat (ks_ticks k) + Suc j * unat (ks_quantum_ticks k) < 2 ^ 64"
  shows "\<exists>m \<le> Suc j * unat (ks_quantum_ticks k).
     ks_current ((ks_tick ^^ m) k) = fst (sched_schedule ((sched_next ^^ j) (ks_scheduler k)))"
  using assms
proof (induction j arbitrary: k)
  case (0 k)
  have "unat (ks_remaining k) \<le> unat (ks_quantum_ticks k)" using 0(1) by (simp add: ks_inv_def word_le_nat_alt)
  moreover obtain m where "m \<le> unat (ks_remaining k)" "selected k ((ks_tick ^^ m) k)"
    using round_selects [OF 0(1)] 0(2) calculation by auto
  ultimately show ?case by (intro exI [of _ m]) (simp add: selected_def)
next
  case (Suc j)
  have rq: "unat (ks_remaining k) \<le> unat (ks_quantum_ticks k)"
    using Suc.prems(1) by (simp add: ks_inv_def word_le_nat_alt)
  then have "unat (ks_ticks k) + unat (ks_remaining k) < 2 ^ 64" using Suc.prems(2) by simp
  then obtain m where m: "m \<le> unat (ks_remaining k)" "selected k ((ks_tick ^^ m) k)"
    "ks_inv ((ks_tick ^^ m) k)" "unat (ks_ticks ((ks_tick ^^ m) k)) = unat (ks_ticks k) + m"
    using round_selects [OF Suc.prems(1)] by auto
  let ?k = "(ks_tick ^^ m) k"
  have q: "ks_quantum_ticks ?k = ks_quantum_ticks k" "ks_scheduler ?k = sched_next (ks_scheduler k)"
    using m(2) by (simp_all add: selected_def)
  have "unat (ks_ticks ?k) + Suc j * unat (ks_quantum_ticks ?k) < 2 ^ 64"
    using m(1,4) rq Suc.prems(2) by (simp add: q)
  from Suc.IH [OF m(3) this] obtain l where l: "l \<le> Suc j * unat (ks_quantum_ticks k)"
    "ks_current ((ks_tick ^^ l) ?k) = fst (sched_schedule ((sched_next ^^ j) (sched_next (ks_scheduler k))))"
    by (auto simp: q)
  then have "ks_current ((ks_tick ^^ (l + m)) k) = fst (sched_schedule ((sched_next ^^ Suc j) (ks_scheduler k)))"
    by (simp only: funpow_add comp_apply iter_next)
  moreover have "l + m \<le> Suc (Suc j) * unat (ks_quantum_ticks k)" using l(1) m(1) rq by simp
  ultimately show ?case by blast
qed

section \<open>Properties\<close>

text \<open>
  Property C12.  No starvation under the timer: whatever the other tasks' priorities, a runnable
  task of any priority becomes the current task within \<open>9 * n * q\<close> timer ticks, for a table of
  \<open>n\<close> slots and a quantum of \<open>q\<close> ticks, as long as the tick counter does not run out.
\<close>

theorem ks_timer_no_starvation:
  assumes "ks_inv k" and "ks_view k h = Some (Runnable, p)"
    and "unat (ks_ticks k) + 9 * length (tasks (ks_scheduler k)) * unat (ks_quantum_ticks k) < 2 ^ 64"
  shows "\<exists>m \<le> 9 * length (tasks (ks_scheduler k)) * unat (ks_quantum_ticks k).
     ks_current (ks_run (replicate m OpTick) k) = Some h"
proof -
  let ?s = "ks_scheduler k" and ?q = "unat (ks_quantum_ticks k)"
  have inv: "sched_inv ?s" by (rule ks_invD(1) [OF assms(1)])
  obtain t where t: "sched_task ?s h = Ok t" "t_state t = Runnable" using sched_view_SomeD [OF assms(2)] by auto
  note d = sched_task_okD [OF t(1)]
  let ?i = "unat (tid_slot h)"
  have "task_runnable (tasks ?s ! ?i)" using d(2,3) t(2) by (simp add: task_runnable_def)
  moreover have h: "slot_id ?s ?i = h" using d(2,4) by (simp add: slot_id_def)
  ultimately obtain j where j: "j < pending_budget ?s + length (tasks ?s)"
    "fst (sched_schedule ((sched_next ^^ j) ?s)) = Some h"
    using runnable_selected_soon [OF inv d(1)] by auto
  have "Suc j \<le> 9 * length (tasks ?s)" using j(1) pending_bound [OF inv] by linarith
  then have b: "Suc j * ?q \<le> 9 * length (tasks ?s) * ?q" by (rule mult_le_mono1)
  then obtain m where "m \<le> Suc j * ?q" "ks_current ((ks_tick ^^ m) k) = Some h"
    using rounds_select [OF assms(1), of j] assms(3) j(2) by auto
  then show ?thesis using b by (auto simp: ks_run_ticks intro: order.trans)
qed

theorem ks_timer_no_starvation_witness:
  "\<exists>m \<le> 18. ks_current (ks_run (replicate m OpTick)
     (ks_run [OpCreate REALTIME, OpCreate BACKGROUND, OpStart] demo_scheduler)) =
     Some \<lparr>tid_slot = 1, tid_generation = 1\<rparr>"
proof -
  let ?k = "ks_run [OpCreate REALTIME, OpCreate BACKGROUND, OpStart] demo_scheduler"
  have "ks_view ?k \<lparr>tid_slot = 1, tid_generation = 1\<rparr> = Some (Runnable, BACKGROUND)"
    "length (tasks (ks_scheduler ?k)) = 2" "ks_ticks ?k = 0" "ks_quantum_ticks ?k = 1"
    by code_simp+
  then show ?thesis
    using ks_timer_no_starvation [OF ks_run_inv [OF demo_scheduler_inv],
        of "[OpCreate REALTIME, OpCreate BACKGROUND, OpStart]" "\<lparr>tid_slot = 1, tid_generation = 1\<rparr>"]
    by simp
qed

text \<open>
  Three tasks: a background task in slot 0 that has used its budget, and two normal tasks that
  wake each other before they block.
\<close>

definition wake_pair :: "ks_op list" where
  "wake_pair = [OpWake \<lparr>tid_slot = 1, tid_generation = 1\<rparr>, OpBlock,
                OpWake \<lparr>tid_slot = 2, tid_generation = 1\<rparr>, OpBlock]"

definition wake_pair_start :: kernel_scheduler where
  "wake_pair_start = ks_run
     ([OpCreate BACKGROUND, OpCreate NORMAL, OpCreate NORMAL, OpStart, OpYield, OpYield] @ wake_pair @ wake_pair)
     \<lparr>ks_scheduler = sched_new 3, ks_current = None, ks_ticks = 0, ks_quantum_ticks = 10, ks_remaining = 10\<rparr>"

definition starved :: "kernel_scheduler \<Rightarrow> bool" where
  "starved k \<longleftrightarrow> ks_view k \<lparr>tid_slot = 0, tid_generation = 1\<rparr> = Some (Runnable, BACKGROUND) \<and>
     ks_current k \<noteq> None \<and> ks_current k \<noteq> Some \<lparr>tid_slot = 0, tid_generation = 1\<rparr>"

lemma wake_pair_cycle: "ks_run (wake_pair @ wake_pair) wake_pair_start = wake_pair_start"
  by code_simp

lemma wake_pair_cycles: "ks_run (concat (replicate n (wake_pair @ wake_pair))) wake_pair_start = wake_pair_start"
proof (induction n)
  case (Suc n)
  have "ks_run (concat (replicate (Suc n) (wake_pair @ wake_pair))) wake_pair_start =
      ks_run (concat (replicate n (wake_pair @ wake_pair))) (ks_run (wake_pair @ wake_pair) wake_pair_start)"
    by (simp add: ks_run_def)
  then show ?case by (simp only: wake_pair_cycle Suc)
qed (simp add: ks_run_def)

lemma wake_pair_starved:
  "list_all (\<lambda>j. starved (ks_run (take j (wake_pair @ wake_pair)) wake_pair_start)) [0..<9]"
  by code_simp

text \<open>
  Property C39.  Wake-ups defeat the no-starvation guarantee: two normal tasks that wake each
  other and then block keep a runnable background task off the CPU for ever, because waking a
  task whose budget is used up refills it while the waiting task's budget is never refilled.
  At every point of every number of rounds the background task is runnable, some task runs,
  and it is not the background task.
\<close>

theorem ks_wake_starvation:
  "starved (ks_run (concat (replicate n (wake_pair @ wake_pair)) @ take j (wake_pair @ wake_pair))
     wake_pair_start)"
proof -
  have "starved (ks_run (take i (wake_pair @ wake_pair)) wake_pair_start)" if "i < 9" for i
    using wake_pair_starved that by (auto simp: list_all_iff)
  moreover have "take j (wake_pair @ wake_pair) = take (min j 8) (wake_pair @ wake_pair)"
    by (simp add: wake_pair_def min_def)
  ultimately have "starved (ks_run (take j (wake_pair @ wake_pair)) wake_pair_start)" by simp
  then show ?thesis using wake_pair_cycles [of n] by (simp add: ks_run_def)
qed

end
