(* ===== verification/Capability.thy ===== *)
theory Capability
  imports Kernel_Prelude
begin

text \<open>
  Capability spaces, after \<open>crates/mrml-kernel/src/capability.rs\<close>: rights masks,
  64-bit capability tokens, and the fixed-capacity space with \<open>insert\<close>, \<open>authorize\<close>,
  \<open>derive\<close> and \<open>revoke\<close>.  The space refines a partial map from live handles to
  objects and rights (the \<open>handle_table\<close> interface), delegation only attenuates, and the
  32-bit generation of a slot is followed exactly through its wrap-around.
\<close>

section \<open>Definitions\<close>

type_synonym object_id = u64
type_synonym rights = u16

definition NONE :: rights where "NONE = 0"
definition READ :: rights where "READ = push_bit 0 1"
definition WRITE :: rights where "WRITE = push_bit 1 1"
definition EXECUTE :: rights where "EXECUTE = push_bit 2 1"
definition MAP :: rights where "MAP = push_bit 3 1"
definition SIGNAL :: rights where "SIGNAL = push_bit 4 1"
definition DELEGATE :: rights where "DELEGATE = push_bit 5 1"
definition CONTROL :: rights where "CONTROL = push_bit 6 1"

definition rights_union :: "rights \<Rightarrow> rights \<Rightarrow> rights" where
  "rights_union self other = self OR other"

definition rights_contains :: "rights \<Rightarrow> rights \<Rightarrow> bool" where
  "rights_contains self requested = (self AND requested = requested)"

definition rights_intersect :: "rights \<Rightarrow> rights \<Rightarrow> rights" where
  "rights_intersect self limit = self AND limit"

record capability =
  cap_slot :: u32
  cap_generation :: u32

definition cap_token :: "capability \<Rightarrow> u64" where
  "cap_token c = handle_token (cap_generation c) (cap_slot c)"

definition cap_from_token :: "u64 \<Rightarrow> capability" where
  "cap_from_token t = \<lparr>cap_slot = ucast t, cap_generation = ucast (drop_bit 32 t)\<rparr>"

record entry =
  e_generation :: u32
  e_object :: object_id
  e_rights :: rights
  e_occupied :: bool

definition entry_EMPTY :: entry where
  "entry_EMPTY = \<lparr>e_generation = 1, e_object = 0, e_rights = NONE, e_occupied = False\<rparr>"

datatype capability_error = SpaceFull | Invalid | PermissionDenied | DelegationDenied

record capability_space =
  entries :: "entry list"

definition cap_new :: "nat \<Rightarrow> capability_space" where
  "cap_new n = \<lparr>entries = replicate n entry_EMPTY\<rparr>"

definition cap_insert ::
  "object_id \<Rightarrow> rights \<Rightarrow> capability_space \<Rightarrow>
     (capability, capability_error) result \<times> capability_space" where
  "cap_insert obj r s =
     (case position (\<lambda>e. \<not> e_occupied e) (entries s) of
        None \<Rightarrow> (Err SpaceFull, s)
      | Some slot \<Rightarrow>
          let e = entries s ! slot in
          (Ok \<lparr>cap_slot = of_nat slot, cap_generation = e_generation e\<rparr>,
           s\<lparr>entries := (entries s)[slot :=
               e\<lparr>e_object := obj, e_rights := r, e_occupied := True\<rparr>]\<rparr>))"

definition cap_entry :: "capability_space \<Rightarrow> capability \<Rightarrow> (entry, capability_error) result" where
  "cap_entry s c =
     (if unat (cap_slot c) < length (entries s) then
        (let e = entries s ! unat (cap_slot c) in
         if e_occupied e \<and> e_generation e = cap_generation c then Ok e else Err Invalid)
      else Err Invalid)"

definition cap_authorize ::
  "capability_space \<Rightarrow> capability \<Rightarrow> rights \<Rightarrow> (object_id, capability_error) result" where
  "cap_authorize s c requested =
     (case cap_entry s c of
        Err e \<Rightarrow> Err e
      | Ok e \<Rightarrow> if rights_contains (e_rights e) requested then Ok (e_object e)
                else Err PermissionDenied)"

definition cap_derive ::
  "capability_space \<Rightarrow> capability \<Rightarrow> rights \<Rightarrow> capability_space \<Rightarrow>
     (capability, capability_error) result \<times> capability_space" where
  "cap_derive src c requested dst =
     (case cap_entry src c of
        Err e \<Rightarrow> (Err e, dst)
      | Ok e \<Rightarrow>
          if \<not> rights_contains (e_rights e) DELEGATE then (Err DelegationDenied, dst)
          else if \<not> rights_contains (e_rights e) requested then (Err PermissionDenied, dst)
          else cap_insert (e_object e) (rights_intersect (e_rights e) requested) dst)"

definition next_generation :: "u32 \<Rightarrow> u32" where
  "next_generation g = max (g + 1) 1"

definition cap_revoke ::
  "capability \<Rightarrow> capability_space \<Rightarrow> (unit, capability_error) result \<times> capability_space" where
  "cap_revoke c s =
     (if unat (cap_slot c) < length (entries s) then
        (let e = entries s ! unat (cap_slot c) in
         if e_occupied e \<and> e_generation e = cap_generation c then
           (Ok (), s\<lparr>entries := (entries s)[unat (cap_slot c) :=
              \<lparr>e_generation = next_generation (e_generation e), e_object = 0,
               e_rights = NONE, e_occupied = False\<rparr>]\<rparr>)
         else (Err Invalid, s))
      else (Err Invalid, s))"

text \<open>
  The abstract reading of a space: which handles are live, and what each stands for.  The
  invariant says that slots fit the 32-bit slot field and that no generation is zero.
\<close>

definition cap_view :: "capability_space \<Rightarrow> capability \<Rightarrow> (object_id \<times> rights) option" where
  "cap_view s c = (case cap_entry s c of Ok e \<Rightarrow> Some (e_object e, e_rights e) | Err _ \<Rightarrow> None)"

definition cap_inv :: "capability_space \<Rightarrow> bool" where
  "cap_inv s \<longleftrightarrow> length (entries s) \<le> 2 ^ 32 \<and> (\<forall>e \<in> set (entries s). e_generation e \<noteq> 0)"

definition cap_alloc ::
  "object_id \<times> rights \<Rightarrow> capability_space \<Rightarrow>
     (capability, capability_error) result \<times> capability_space" where
  "cap_alloc a s = cap_insert (fst a) (snd a) s"

section \<open>Rights\<close>

lemma rights_contains_iff: "rights_contains r q \<longleftrightarrow> (\<forall>i. bit q i \<longrightarrow> bit r i)"
proof -
  have "rights_contains r q \<longleftrightarrow> (\<forall>i < 16. bit q i \<longrightarrow> bit r i)"
    by (auto simp: rights_contains_def bit_eq_iff bit_and_iff)
  moreover have "bit q i \<Longrightarrow> i < 16" for i using bit_imp_le_length [of q i] by simp
  ultimately show ?thesis by blast
qed

lemma rights_contains_refl [simp]: "rights_contains r r"
  by (simp add: rights_contains_iff)

lemma rights_contains_trans:
  "rights_contains a b \<Longrightarrow> rights_contains b c \<Longrightarrow> rights_contains a c"
  by (simp add: rights_contains_iff)

lemma rights_intersect_contained: "rights_contains r q \<Longrightarrow> rights_intersect r q = q"
  by (simp add: rights_contains_def rights_intersect_def)

section \<open>Tokens\<close>

lemma cap_from_token_token [simp]: "cap_from_token (cap_token c) = c"
  by (simp add: cap_from_token_def cap_token_def)

lemma cap_token_from_token [simp]: "cap_token (cap_from_token t) = t"
  by (simp add: cap_from_token_def cap_token_def)

lemma cap_token_high: "(drop_bit 32 (cap_token c) = 0) = (cap_generation c = 0)"
  by (simp add: drop_bit_32_eq_0_iff cap_token_def)

section \<open>The space as a partial map\<close>

lemma next_generation_nonzero [simp]: "next_generation g \<noteq> 0"
  unfolding next_generation_def max_def by (auto simp: word_le_nat_alt)

lemma cap_inv_new [simp]: "n \<le> 2 ^ 32 \<Longrightarrow> cap_inv (cap_new n)"
  by (auto simp: cap_inv_def cap_new_def entry_EMPTY_def)

lemma cap_view_new [simp]: "cap_view (cap_new n) = Map.empty"
  by (auto simp: cap_view_def cap_new_def cap_entry_def entry_EMPTY_def Let_def fun_eq_iff)

lemma cap_entry_eq_Ok [simp]:
  "cap_entry s c = Ok e \<longleftrightarrow>
     unat (cap_slot c) < length (entries s) \<and> e = entries s ! unat (cap_slot c) \<and>
     e_occupied e \<and> e_generation e = cap_generation c"
  by (auto simp: cap_entry_def Let_def)

lemma cap_entry_eq_Err:
  "cap_entry s c = Err x \<longleftrightarrow> x = Invalid \<and> (\<forall>e. cap_entry s c \<noteq> Ok e)"
  by (auto simp: cap_entry_def Let_def)

lemma cap_view_eq_Some:
  "cap_view s c = Some v \<longleftrightarrow> (\<exists>e. cap_entry s c = Ok e \<and> v = (e_object e, e_rights e))"
  by (auto simp: cap_view_def split: result.splits simp del: cap_entry_eq_Ok)

lemma cap_view_eq_None: "cap_view s c = None \<longleftrightarrow> cap_entry s c = Err Invalid"
  by (auto simp: cap_view_def cap_entry_eq_Err split: result.splits simp del: cap_entry_eq_Ok)

lemma cap_view_entry:
  "cap_view s c = (if unat (cap_slot c) < length (entries s) \<and>
      e_occupied (entries s ! unat (cap_slot c)) \<and>
      e_generation (entries s ! unat (cap_slot c)) = cap_generation c
    then Some (e_object (entries s ! unat (cap_slot c)), e_rights (entries s ! unat (cap_slot c)))
    else None)"
  by (auto simp: cap_view_def cap_entry_def Let_def)

lemma cap_insert_inv: "cap_inv s \<Longrightarrow> cap_inv (snd (cap_insert obj r s))"
  by (auto simp: cap_insert_def cap_inv_def Let_def split: option.splits
      dest!: set_update_subset_insert [THEN subsetD] dest: position_SomeD(1))

lemma cap_revoke_inv: "cap_inv s \<Longrightarrow> cap_inv (snd (cap_revoke c s))"
  by (auto simp: cap_revoke_def cap_inv_def Let_def
      dest!: set_update_subset_insert [THEN subsetD])

lemma cap_insert_okD:
  assumes "cap_insert obj r s = (Ok c, s')" and "cap_inv s"
  shows "cap_view s c = None" and "cap_view s' = (cap_view s)(c \<mapsto> (obj, r))"
proof -
  from assms obtain i where i: "position (\<lambda>e. \<not> e_occupied e) (entries s) = Some i"
    and c: "c = \<lparr>cap_slot = of_nat i, cap_generation = e_generation (entries s ! i)\<rparr>"
    and s': "s' = s\<lparr>entries := (entries s)[i :=
      (entries s ! i)\<lparr>e_object := obj, e_rights := r, e_occupied := True\<rparr>]\<rparr>"
    by (auto simp: cap_insert_def Let_def split: option.splits)
  have free: "\<not> e_occupied (entries s ! i)" and len: "i < length (entries s)"
    using position_SomeD [OF i] by auto
  have idx: "unat (of_nat i :: u32) = i"
    using len assms(2) by (auto simp: cap_inv_def intro: unat_of_nat_u32)
  show "cap_view s c = None" using free by (simp add: cap_view_entry c idx)
  have key: "unat (cap_slot d) = i \<Longrightarrow> cap_slot d = of_nat i" for d by auto
  show "cap_view s' = (cap_view s)(c \<mapsto> (obj, r))"
  proof
    fix d
    show "cap_view s' d = ((cap_view s)(c \<mapsto> (obj, r))) d"
    proof (cases "unat (cap_slot d) = i")
      case True
      with key [OF True] show ?thesis
        using len free by (auto simp: cap_view_entry s' c idx)
    next
      case False
      then have "d \<noteq> c" using idx c by auto
      with False show ?thesis by (simp add: cap_view_entry s')
    qed
  qed
qed

lemma cap_insert_errD: "cap_insert obj r s = (Err x, s') \<Longrightarrow> s' = s \<and> x = SpaceFull"
  by (auto simp: cap_insert_def Let_def split: option.splits)

lemma cap_insert_full_iff:
  "fst (cap_insert obj r s) = Err SpaceFull \<longleftrightarrow> (\<forall>e \<in> set (entries s). e_occupied e)"
proof (cases "position (\<lambda>e. \<not> e_occupied e) (entries s)")
  case None
  moreover from this have "\<forall>e \<in> set (entries s). e_occupied e" by (simp add: position_None_iff)
  ultimately show ?thesis by (simp add: cap_insert_def)
next
  case (Some i)
  then have "entries s ! i \<in> set (entries s)" "\<not> e_occupied (entries s ! i)"
    by (auto dest: position_SomeD)
  with Some show ?thesis by (auto simp: cap_insert_def Let_def)
qed

lemma cap_revoke_okD:
  assumes "cap_revoke c s = (Ok u, s')"
  shows "cap_view s c \<noteq> None" and "cap_view s' = (cap_view s)(c := None)"
proof -
  let ?i = "unat (cap_slot c)"
  from assms have len: "?i < length (entries s)" and occ: "e_occupied (entries s ! ?i)"
    and gen: "e_generation (entries s ! ?i) = cap_generation c"
    and s': "s' = s\<lparr>entries := (entries s)[?i :=
      \<lparr>e_generation = next_generation (e_generation (entries s ! ?i)), e_object = 0,
       e_rights = NONE, e_occupied = False\<rparr>]\<rparr>"
    by (auto simp: cap_revoke_def Let_def split: if_splits)
  show "cap_view s c \<noteq> None" using len occ gen by (simp add: cap_view_entry)
  show "cap_view s' = (cap_view s)(c := None)"
  proof
    fix d
    show "cap_view s' d = ((cap_view s)(c := None)) d"
    proof (cases "unat (cap_slot d) = ?i")
      case True
      then have "cap_slot d = cap_slot c" by (simp add: word_unat_eq_iff)
      then show ?thesis using len gen by (auto simp: cap_view_entry s')
    next
      case False
      then have "d \<noteq> c" by auto
      with False show ?thesis by (simp add: cap_view_entry s')
    qed
  qed
qed

lemma cap_revoke_errD: "cap_revoke c s = (Err x, s') \<Longrightarrow> s' = s \<and> cap_view s c = None \<and> x = Invalid"
  by (auto simp: cap_revoke_def cap_view_entry Let_def split: if_splits)

interpretation space: handle_table cap_view cap_inv "\<lambda>a. a" cap_alloc cap_revoke
proof unfold_locales
  fix s :: capability_space and a :: "object_id \<times> rights" and h s' e u
  show "cap_inv s \<Longrightarrow> cap_inv (snd (cap_alloc a s))"
    by (simp add: cap_alloc_def cap_insert_inv)
  show "cap_inv s \<Longrightarrow> cap_inv (snd (cap_revoke h s))"
    by (rule cap_revoke_inv)
  show "cap_inv s \<Longrightarrow> cap_alloc a s = (Ok h, s') \<Longrightarrow>
      cap_view s h = None \<and> cap_view s' = (cap_view s)(h \<mapsto> a)"
    using cap_insert_okD [of "fst a" "snd a" s h s'] by (simp add: cap_alloc_def)
  show "cap_alloc a s = (Err e, s') \<Longrightarrow> s' = s"
    by (simp add: cap_alloc_def cap_insert_errD)
  show "cap_inv s \<Longrightarrow> cap_revoke h s = (Ok u, s') \<Longrightarrow>
      cap_view s h \<noteq> None \<and> cap_view s' = (cap_view s)(h := None)"
    using cap_revoke_okD [of h s u s'] by simp
  show "cap_inv s \<Longrightarrow> cap_revoke h s = (Err e, s') \<Longrightarrow> s' = s \<and> cap_view s h = None"
    by (simp add: cap_revoke_errD)
qed

section \<open>Authorization and delegation over the map\<close>

lemma cap_authorize_view:
  "cap_authorize s c requested =
     (case cap_view s c of
        None \<Rightarrow> Err Invalid
      | Some (obj, r) \<Rightarrow> if rights_contains r requested then Ok obj else Err PermissionDenied)"
  by (auto simp: cap_authorize_def cap_view_def cap_entry_def Let_def)

lemma cap_derive_view:
  "cap_derive src c requested dst =
     (case cap_view src c of
        None \<Rightarrow> (Err Invalid, dst)
      | Some (obj, r) \<Rightarrow>
          if \<not> rights_contains r DELEGATE then (Err DelegationDenied, dst)
          else if \<not> rights_contains r requested then (Err PermissionDenied, dst)
          else cap_insert obj requested dst)"
  by (auto simp: cap_derive_def cap_view_def cap_entry_def Let_def rights_intersect_contained)

lemma cap_derive_okD:
  assumes "cap_derive src c requested dst = (Ok d, dst')" and "cap_inv dst"
  shows "\<exists>obj r. cap_view src c = Some (obj, r) \<and> rights_contains r DELEGATE \<and>
     rights_contains r requested \<and> cap_view dst d = None \<and>
     cap_view dst' = (cap_view dst)(d \<mapsto> (obj, requested))"
  using assms cap_insert_okD [OF _ assms(2)]
  by (auto simp: cap_derive_view split: option.splits if_splits)

lemma cap_derive_errD: "cap_derive src c requested dst = (Err x, dst') \<Longrightarrow> dst' = dst"
  by (auto simp: cap_derive_view split: option.splits if_splits dest!: cap_insert_errD)

section \<open>Generations and their wrap-around\<close>

lemma unat_next_generation: "g \<noteq> 0 \<Longrightarrow> unat (next_generation g) = unat g mod (2 ^ 32 - 1) + 1"
proof -
  assume g: "g \<noteq> 0"
  then have pos: "1 \<le> unat g" by (simp add: Suc_leI unat_gt_0)
  have lt: "unat g < 2 ^ 32" using unsigned_less [of g] by simp
  have "unat (max (g + 1) 1) = max (unat (g + 1)) 1"
    by (simp add: max_def word_le_nat_alt)
  moreover have "unat (g + 1) = (unat g + 1) mod 2 ^ 32"
    by (simp add: unat_word_ariths)
  moreover have "max ((unat g + 1) mod 2 ^ 32) 1 = unat g mod (2 ^ 32 - 1) + 1"
  proof (cases "unat g = 2 ^ 32 - 1")
    case False
    with lt have "unat g < 2 ^ 32 - 1" by linarith
    then show ?thesis by simp
  qed simp
  ultimately show ?thesis by (simp add: next_generation_def)
qed

lemma iterate_nonzero: "g \<noteq> 0 \<Longrightarrow> (next_generation ^^ k) g \<noteq> 0"
  by (cases k) simp_all

lemma unat_iterate_generation:
  assumes "g \<noteq> 0"
  shows "unat ((next_generation ^^ k) g) = (unat g - 1 + k) mod (2 ^ 32 - 1) + 1"
proof (induction k)
  case 0
  have "1 \<le> unat g" using assms by (simp add: Suc_leI unat_gt_0)
  moreover have "unat g < 2 ^ 32" using unsigned_less [of g] by simp
  ultimately have "(unat g - 1) mod (2 ^ 32 - 1) = unat g - 1" by (intro mod_less) linarith
  then show ?case using \<open>1 \<le> unat g\<close> by simp
next
  case (Suc k)
  have "unat ((next_generation ^^ Suc k) g) =
      unat ((next_generation ^^ k) g) mod (2 ^ 32 - 1) + 1"
    using iterate_nonzero [OF assms, of k] by (simp add: unat_next_generation)
  also have "\<dots> = ((unat g - 1 + k) mod (2 ^ 32 - 1) + 1) mod (2 ^ 32 - 1) + 1"
    by (simp only: Suc.IH)
  also have "\<dots> = (unat g - 1 + Suc k) mod (2 ^ 32 - 1) + 1"
    by (simp only: mod_add_left_eq add.assoc Suc_eq_plus1)
  finally show ?case .
qed

lemma iterate_generation_period:
  assumes "g \<noteq> 0"
  shows "(next_generation ^^ k) g = g \<longleftrightarrow> (2 ^ 32 - 1) dvd k"
proof -
  have "1 \<le> unat g" using assms by (simp add: Suc_leI unat_gt_0)
  moreover have "unat g < 2 ^ 32" using unsigned_less [of g] by simp
  ultimately have lt: "unat g - 1 < 2 ^ 32 - 1" and pos: "1 \<le> unat g" by linarith+
  have "(next_generation ^^ k) g = g \<longleftrightarrow> (unat g - 1 + k) mod (2 ^ 32 - 1) + 1 = unat g"
    by (simp add: word_unat_eq_iff unat_iterate_generation [OF assms])
  also have "\<dots> \<longleftrightarrow> (unat g - 1 + k) mod (2 ^ 32 - 1) = (unat g - 1) mod (2 ^ 32 - 1)"
    using lt pos by auto
  also have "\<dots> \<longleftrightarrow> (2 ^ 32 - 1) dvd k"
    using mod_eq_dvd_iff_nat [of "unat g - 1" "unat g - 1 + k" "2 ^ 32 - 1"] by simp
  finally show ?thesis .
qed

lemma table_exec_generation:
  "\<exists>k \<le> 1. length (entries (table_exec cap_alloc cap_revoke x s)) = length (entries s) \<and>
     (i < length (entries s) \<longrightarrow>
      e_generation (entries (table_exec cap_alloc cap_revoke x s) ! i) =
        (next_generation ^^ k) (e_generation (entries s ! i)))"
proof (cases x)
  case (Alloc a)
  show ?thesis
    by (rule exI [of _ 0])
      (auto simp: Alloc cap_alloc_def cap_insert_def Let_def nth_update_if split: option.splits)
next
  case (Release c)
  show ?thesis
  proof (cases "fst (cap_revoke c s) = Ok () \<and> unat (cap_slot c) = i")
    case True
    then show ?thesis
      by (intro exI [of _ 1])
        (auto simp: Release cap_revoke_def Let_def nth_update_if split: if_splits)
  next
    case False
    then show ?thesis
      by (intro exI [of _ 0])
        (auto simp: Release cap_revoke_def Let_def nth_update_if split: if_splits)
  qed
qed

lemma table_run_generation:
  "\<exists>k \<le> length xs. length (entries (table_run cap_alloc cap_revoke xs s)) = length (entries s) \<and>
     (i < length (entries s) \<longrightarrow>
      e_generation (entries (table_run cap_alloc cap_revoke xs s) ! i) =
        (next_generation ^^ k) (e_generation (entries s ! i)))"
proof (induction xs arbitrary: s)
  case (Cons x xs)
  let ?t = "table_exec cap_alloc cap_revoke x s"
  obtain k where k: "k \<le> 1" "length (entries ?t) = length (entries s)"
    "i < length (entries s) \<Longrightarrow>
      e_generation (entries ?t ! i) = (next_generation ^^ k) (e_generation (entries s ! i))"
    using table_exec_generation [of x s i] by auto
  obtain m where m: "m \<le> length xs"
    "length (entries (table_run cap_alloc cap_revoke xs ?t)) = length (entries ?t)"
    "i < length (entries ?t) \<Longrightarrow>
      e_generation (entries (table_run cap_alloc cap_revoke xs ?t) ! i) =
        (next_generation ^^ m) (e_generation (entries ?t ! i))"
    using Cons.IH [of ?t] by auto
  show ?case
    by (rule exI [of _ "m + k"]) (use k m in \<open>auto simp: funpow_add\<close>)
qed simp

lemma cap_derive_inv: "cap_inv dst \<Longrightarrow> cap_inv (snd (cap_derive src c requested dst))"
  by (auto simp: cap_derive_view cap_insert_inv split: option.splits)

text \<open>A space of one free slot, and what one round of \<open>insert\<close> and \<open>revoke\<close> does to it.\<close>

definition one_slot :: "u32 \<Rightarrow> capability_space" where
  "one_slot g = \<lparr>entries = [\<lparr>e_generation = g, e_object = 0, e_rights = NONE, e_occupied = False\<rparr>]\<rparr>"

text \<open>One use of a slot: something is inserted and revoked again.\<close>

definition reuse :: "object_id \<Rightarrow> rights \<Rightarrow> capability_space \<Rightarrow> capability_space" where
  "reuse a r s = (case cap_insert a r s of (Ok h, s) \<Rightarrow> snd (cap_revoke h s) | (Err _, s) \<Rightarrow> s)"

lemma reuse_one_slot: "reuse a r (one_slot g) = one_slot (next_generation g)"
  by (simp add: reuse_def one_slot_def cap_insert_def cap_revoke_def Let_def)

lemma reuse_rounds: "(reuse a r ^^ k) (one_slot g) = one_slot ((next_generation ^^ k) g)"
  by (induction k) (simp_all add: reuse_one_slot)


section \<open>Properties\<close>

text \<open>
  Property C6.  \<open>insert\<close> and \<open>revoke\<close> implement a partial map from handles to objects and
  rights on every branch: \<open>insert\<close> binds a handle that was dead and touches no other, it fails
  only when every slot is occupied; \<open>revoke\<close> unbinds exactly its argument and fails exactly on
  dead handles.  Both keep the space's invariant, and a failure changes nothing.
\<close>

theorem cap_space_refines_map:
  assumes "cap_inv s"
  shows "(case cap_insert obj r s of
            (Ok c, s') \<Rightarrow> cap_inv s' \<and> cap_view s c = None \<and> cap_view s' = (cap_view s)(c \<mapsto> (obj, r))
          | (Err x, s') \<Rightarrow> x = SpaceFull \<and> s' = s \<and> (\<forall>e \<in> set (entries s). e_occupied e)) \<and>
         (case cap_revoke h s of
            (Ok _, s') \<Rightarrow> cap_inv s' \<and> cap_view s h \<noteq> None \<and> cap_view s' = (cap_view s)(h := None)
          | (Err x, s') \<Rightarrow> x = Invalid \<and> s' = s \<and> cap_view s h = None)"
proof (intro conjI)
  obtain q t where i: "cap_insert obj r s = (q, t)" by fastforce
  show "case cap_insert obj r s of
            (Ok c, s') \<Rightarrow> cap_inv s' \<and> cap_view s c = None \<and> cap_view s' = (cap_view s)(c \<mapsto> (obj, r))
          | (Err x, s') \<Rightarrow> x = SpaceFull \<and> s' = s \<and> (\<forall>e \<in> set (entries s). e_occupied e)"
    using i assms cap_insert_okD cap_insert_errD cap_insert_inv [OF assms, of obj r]
      cap_insert_full_iff [of obj r s]
    by (cases q) auto
  obtain q' t' where j: "cap_revoke h s = (q', t')" by fastforce
  show "case cap_revoke h s of
            (Ok _, s') \<Rightarrow> cap_inv s' \<and> cap_view s h \<noteq> None \<and> cap_view s' = (cap_view s)(h := None)
          | (Err x, s') \<Rightarrow> x = Invalid \<and> s' = s \<and> cap_view s h = None"
    using j assms cap_revoke_okD cap_revoke_errD cap_revoke_inv [OF assms, of h]
    by (cases q') auto
qed

theorem cap_space_refines_map_witness:
  "fst (cap_insert 7 READ (cap_new 2)) = Ok \<lparr>cap_slot = 0, cap_generation = 1\<rparr> \<and>
   cap_view (snd (cap_insert 7 READ (cap_new 2))) \<lparr>cap_slot = 0, cap_generation = 1\<rparr> = Some (7, READ)"
proof -
  have ok: "fst (cap_insert 7 READ (cap_new 2)) = Ok \<lparr>cap_slot = 0, cap_generation = 1\<rparr>"
    by (simp add: cap_insert_def cap_new_def entry_EMPTY_def numeral_2_eq_2 Let_def)
  then show ?thesis
    using cap_space_refines_map [OF cap_inv_new, of 2 7 READ]
    by (simp add: split_beta)
qed

text \<open>
  Property C8.  Delegation never amplifies authority.  Whatever a derived handle authorizes in
  the destination space, the handle it was derived from authorizes in the source space for the
  same object, the source held \<open>DELEGATE\<close>, and every other handle of the destination keeps its
  meaning.
\<close>

theorem cap_derive_attenuates:
  assumes "cap_inv dst" and "cap_derive src c requested dst = (Ok d, dst')"
  shows "(\<forall>q obj. cap_authorize dst' d q = Ok obj \<longrightarrow> cap_authorize src c q = Ok obj) \<and>
         (\<exists>obj. cap_authorize src c DELEGATE = Ok obj \<and> cap_authorize dst' d requested = Ok obj) \<and>
         (\<forall>h. h \<noteq> d \<longrightarrow> cap_view dst' h = cap_view dst h)"
proof -
  obtain obj r where "cap_view src c = Some (obj, r)" "rights_contains r DELEGATE"
    "rights_contains r requested" "cap_view dst' = (cap_view dst)(d \<mapsto> (obj, requested))"
    using cap_derive_okD [OF assms(2,1)] by auto
  then show ?thesis
    by (auto simp: cap_authorize_view split: if_splits dest: rights_contains_trans)
qed

theorem cap_derive_attenuates_witness:
  "\<exists>src c dst d dst'. cap_inv dst \<and> cap_derive src c READ dst = (Ok d, dst') \<and>
     cap_authorize dst' d WRITE = Err PermissionDenied \<and> cap_authorize src c READ = Ok 7"
proof -
  let ?src = "snd (cap_insert 7 (rights_union READ DELEGATE) (cap_new 1))"
  let ?c = "\<lparr>cap_slot = 0, cap_generation = 1\<rparr>"
  let ?dst = "cap_new 1"
  have e: "?src = \<lparr>entries = [\<lparr>e_generation = 1, e_object = 7,
      e_rights = 33, e_occupied = True\<rparr>]\<rparr>"
    by (simp add: cap_insert_def cap_new_def entry_EMPTY_def Let_def rights_union_def READ_def
        DELEGATE_def)
  have inv: "cap_inv ?dst" by simp
  have d: "cap_derive ?src ?c READ ?dst = (Ok ?c, \<lparr>entries = [\<lparr>e_generation = 1, e_object = 7,
      e_rights = 1, e_occupied = True\<rparr>]\<rparr>)"
    unfolding e by (simp add: cap_derive_def cap_entry_def cap_insert_def cap_new_def entry_EMPTY_def
        Let_def rights_contains_def rights_intersect_def READ_def DELEGATE_def)
  have "cap_authorize (snd (cap_derive ?src ?c READ ?dst)) ?c WRITE = Err PermissionDenied"
    unfolding d by (simp add: cap_authorize_def cap_entry_def rights_contains_def WRITE_def)
  moreover have "cap_authorize (snd (cap_derive ?src ?c READ ?dst)) ?c READ = Ok 7"
    unfolding d by (simp add: cap_authorize_def cap_entry_def rights_contains_def READ_def)
  ultimately show ?thesis
    using cap_derive_attenuates [OF inv d] inv d by (metis snd_conv)
qed

text \<open>
  A revoked handle stays invalid, for every right, through any sequence of fewer
  than \<open>2 ^ 32 - 2\<close> later insertions and revocations on its space, whatever they are.
\<close>

theorem cap_stale_handle_stays_invalid:
  assumes "cap_inv s" and "cap_revoke c s = (Ok (), s')" and "length xs < 2 ^ 32 - 2"
  shows "cap_authorize (table_run cap_alloc cap_revoke xs s') c q = Err Invalid"
proof -
  let ?i = "unat (cap_slot c)" and ?t = "table_run cap_alloc cap_revoke xs s'"
  have live: "?i < length (entries s)" "e_generation (entries s ! ?i) = cap_generation c"
    "e_generation (entries s' ! ?i) = next_generation (cap_generation c)"
    "length (entries s') = length (entries s)"
    using assms(2) by (auto simp: cap_revoke_def Let_def split: if_splits)
  then have nz: "cap_generation c \<noteq> 0" using assms(1) by (auto simp: cap_inv_def)
  obtain k where k: "k \<le> length xs" "?i < length (entries s') \<Longrightarrow>
      e_generation (entries ?t ! ?i) = (next_generation ^^ k) (e_generation (entries s' ! ?i))"
    using table_run_generation [of xs s' ?i] by auto
  have "e_generation (entries ?t ! ?i) = (next_generation ^^ Suc k) (cap_generation c)"
    using k live by (simp add: funpow_swap1)
  moreover have "(next_generation ^^ Suc k) (cap_generation c) \<noteq> cap_generation c"
    using iterate_generation_period [OF nz, of "Suc k"] k(1) assms(3) by (auto dest: dvd_imp_le)
  ultimately have "cap_view ?t c = None" by (simp add: cap_view_entry)
  then show ?thesis by (simp add: cap_authorize_view)
qed

theorem cap_stale_handle_stays_invalid_witness:
  "cap_authorize (table_run cap_alloc cap_revoke [Alloc (8, READ)]
      (snd (cap_revoke \<lparr>cap_slot = 0, cap_generation = 1\<rparr> (snd (cap_insert 7 READ (cap_new 1))))))
     \<lparr>cap_slot = 0, cap_generation = 1\<rparr> READ = Err Invalid"
proof -
  let ?s = "snd (cap_insert 7 READ (cap_new 1))" and ?c = "\<lparr>cap_slot = 0, cap_generation = 1\<rparr>"
  have "cap_inv ?s" by (rule cap_insert_inv) simp
  moreover have "cap_revoke ?c ?s = (Ok (), snd (cap_revoke ?c ?s))"
    by (simp add: cap_revoke_def cap_insert_def cap_new_def entry_EMPTY_def Let_def)
  ultimately show ?thesis
    using cap_stale_handle_stays_invalid [of ?s ?c "snd (cap_revoke ?c ?s)" "[Alloc (8, READ)]" READ]
    by simp
qed

text \<open>
  Property C38.  Generations are 32 bits and wrap from their maximum to 1, so a revoked handle comes back to
  life.  In a space of one slot, after \<open>k\<close> uses of the slot, each an insertion and its revocation, the handle
  that the first of them got authorizes the right \<open>q\<close> over the object \<open>b\<close> the slot is given next exactly
  when \<open>k\<close> is a multiple of \<open>2 ^ 32 - 1\<close>; at every other count it is refused.
\<close>

theorem cap_stale_handle_revalidates_after_wrap:
  "fst (cap_insert a r (cap_new 1)) = Ok \<lparr>cap_slot = 0, cap_generation = 1\<rparr> \<and>
   cap_authorize (snd (cap_insert b q ((reuse a r ^^ k) (cap_new 1)))) \<lparr>cap_slot = 0, cap_generation = 1\<rparr> q =
     (if (2 ^ 32 - 1) dvd k then Ok b else Err Invalid)"
proof -
  have new: "cap_new (Suc 0) = one_slot 1" by (simp add: cap_new_def entry_EMPTY_def one_slot_def)
  have "snd (cap_insert b q (one_slot g)) = \<lparr>entries = [\<lparr>e_generation = g, e_object = b, e_rights = q, e_occupied = True\<rparr>]\<rparr>" for g
    by (simp add: one_slot_def cap_insert_def Let_def)
  then show ?thesis using iterate_generation_period [of 1 k]
    by (simp add: new reuse_rounds cap_authorize_def cap_entry_def) (simp add: one_slot_def cap_insert_def Let_def)
qed

end
