(* ===== verification/Ipc.thy ===== *)
theory Ipc
  imports Capability
begin

text \<open>
  Inter-process messages, after \<open>crates/mrml-kernel/src/ipc.rs\<close>: bounded messages,
  atomic capability transfer, the pointer-free wire format, sending endpoints and receivers
  with sequence numbers.  The wire format is a canonical codec, a failed transfer leaves no
  authority behind, and a receiver accepts each sequence number once and in order.
\<close>

section \<open>Definitions\<close>

definition MAX_INLINE_PAYLOAD :: nat where "MAX_INLINE_PAYLOAD = 4096"
definition MAX_CAPABILITIES :: nat where "MAX_CAPABILITIES = 8"
definition WIRE_HEADER_LENGTH :: nat where "WIRE_HEADER_LENGTH = 24"
definition WIRE_MAGIC :: bytes where "WIRE_MAGIC = [77, 82, 73, 80]"
definition WIRE_VERSION :: u8 where "WIRE_VERSION = 1"

datatype ipc_error =
  PayloadTooLarge | TooManyCapabilities | Unauthorized | SequenceExhausted
| BufferTooSmall | Malformed | Replay

definition ipc_from_capability_error :: "capability_error \<Rightarrow> ipc_error" where
  "ipc_from_capability_error _ = Unauthorized"

record message =
  m_payload :: bytes
  m_payload_length :: u16
  m_capabilities :: "capability option list"
  m_capability_count :: u8

definition message_new :: "bytes \<Rightarrow> capability list \<Rightarrow> (message, ipc_error) result" where
  "message_new payload caps =
     (if length payload > MAX_INLINE_PAYLOAD then Err PayloadTooLarge
      else if length caps > MAX_CAPABILITIES then Err TooManyCapabilities
      else Ok \<lparr>m_payload = payload @ replicate (MAX_INLINE_PAYLOAD - length payload) 0,
               m_payload_length = of_nat (length payload),
               m_capabilities = map Some caps @ replicate (MAX_CAPABILITIES - length caps) None,
               m_capability_count = of_nat (length caps)\<rparr>)"

definition message_payload :: "message \<Rightarrow> bytes" where
  "message_payload m = take (unat (m_payload_length m)) (m_payload m)"

definition message_capabilities :: "message \<Rightarrow> capability list" where
  "message_capabilities m = flatten (take (unat (m_capability_count m)) (m_capabilities m))"

primrec revoke_all :: "capability list \<Rightarrow> capability_space \<Rightarrow> capability_space" where
  "revoke_all [] s = s"
| "revoke_all (c # cs) s = revoke_all cs (snd (cap_revoke c s))"

fun transfer_loop ::
  "(capability \<times> rights) list \<Rightarrow> capability_space \<Rightarrow> capability list \<Rightarrow> capability_space \<Rightarrow>
     (capability list, ipc_error) result \<times> capability_space" where
  "transfer_loop [] src derived dst = (Ok derived, dst)"
| "transfer_loop ((c, r) # rest) src derived dst =
     (case cap_derive src c r dst of
        (Ok d, dst') \<Rightarrow> transfer_loop rest src (derived @ [d]) dst'
      | (Err e, dst') \<Rightarrow> (Err (ipc_from_capability_error e), revoke_all derived dst'))"

definition message_transfer ::
  "bytes \<Rightarrow> (capability \<times> rights) list \<Rightarrow> capability_space \<Rightarrow> capability_space \<Rightarrow>
     (message, ipc_error) result \<times> capability_space" where
  "message_transfer payload requested src dst =
     (if length payload > MAX_INLINE_PAYLOAD then (Err PayloadTooLarge, dst)
      else if length requested > MAX_CAPABILITIES then (Err TooManyCapabilities, dst)
      else case transfer_loop requested src [] dst of
             (Err e, dst') \<Rightarrow> (Err e, dst')
           | (Ok derived, dst') \<Rightarrow>
               (case message_new payload [] of
                  Err e \<Rightarrow> (Err e, dst')
                | Ok m \<Rightarrow>
                    (Ok (m\<lparr>m_capabilities :=
                           map Some derived @ replicate (MAX_CAPABILITIES - length derived) None,
                         m_capability_count := of_nat (length requested)\<rparr>), dst')))"

definition wire_bytes :: "u64 \<Rightarrow> message \<Rightarrow> bytes" where
  "wire_bytes sequence m =
     WIRE_MAGIC @ [WIRE_VERSION, 0, m_capability_count m, 0] @ to_le_bytes 8 sequence @
     to_le_bytes 2 (m_payload_length m) @ replicate 6 0 @
     concat (map (\<lambda>c. to_le_bytes 8 (cap_token c)) (message_capabilities m)) @ message_payload m"

text \<open>
  \<open>encode\<close> copies into a caller-owned buffer; the outer option is \<open>None\<close> where the slice
  copy would panic because fewer tokens were written than the capability count announces.
\<close>

definition message_encode ::
  "message \<Rightarrow> u64 \<Rightarrow> bytes \<Rightarrow> ((nat, ipc_error) result \<times> bytes) option" where
  "message_encode m sequence output =
     (if sequence = 0 then Some (Err Malformed, output)
      else let required = WIRE_HEADER_LENGTH + unat (m_capability_count m) * 8
                            + unat (m_payload_length m) in
        if length output < required then Some (Err BufferTooSmall, output)
        else if length (wire_bytes sequence m) \<noteq> required then None
        else Some (Ok required, wire_bytes sequence m @ drop required output))"

fun decode_capabilities :: "nat \<Rightarrow> bytes \<Rightarrow> (capability list, ipc_error) result" where
  "decode_capabilities 0 input = Ok []"
| "decode_capabilities (Suc n) input =
     (let token = (from_le_bytes (take 8 input) :: u64) in
      if token = 0 \<or> drop_bit 32 token = 0 then Err Malformed
      else case decode_capabilities n (drop 8 input) of
             Err e \<Rightarrow> Err e
           | Ok cs \<Rightarrow> Ok (cap_from_token token # cs))"

definition message_decode :: "bytes \<Rightarrow> (u64 \<times> message, ipc_error) result" where
  "message_decode input =
     (if length input < WIRE_HEADER_LENGTH \<or> sub_slice input 0 4 \<noteq> WIRE_MAGIC
         \<or> input ! 4 \<noteq> WIRE_VERSION \<or> input ! 5 \<noteq> 0 \<or> input ! 7 \<noteq> 0
         \<or> (\<exists>b \<in> set (sub_slice input 18 24). b \<noteq> 0)
      then Err Malformed
      else let capability_count = unat (input ! 6) in
        if capability_count > MAX_CAPABILITIES then Err TooManyCapabilities
        else let sequence = from_le_bytes (sub_slice input 8 16) in
          if sequence = 0 then Err Malformed
          else let payload_length = unat (from_le_bytes [input ! 16, input ! 17] :: u16) in
            if payload_length > MAX_INLINE_PAYLOAD then Err PayloadTooLarge
            else let required = WIRE_HEADER_LENGTH + capability_count * 8 + payload_length in
              if length input \<noteq> required then Err Malformed
              else case decode_capabilities capability_count (drop WIRE_HEADER_LENGTH input) of
                     Err e \<Rightarrow> Err e
                   | Ok caps \<Rightarrow>
                       (case message_new (drop (WIRE_HEADER_LENGTH + capability_count * 8) input) [] of
                          Err e \<Rightarrow> Err e
                        | Ok base \<Rightarrow>
                            Ok (sequence, base\<lparr>m_capabilities :=
                                  map Some caps @ replicate (MAX_CAPABILITIES - length caps) None,
                                m_capability_count := of_nat capability_count\<rparr>)))"

record endpoint =
  ep_object :: object_id
  ep_next_sequence :: u64

definition endpoint_new :: "object_id \<Rightarrow> endpoint" where
  "endpoint_new obj = \<lparr>ep_object = obj, ep_next_sequence = 1\<rparr>"

definition authorize_send ::
  "endpoint \<Rightarrow> capability_space \<Rightarrow> capability \<Rightarrow> message \<Rightarrow> (u64, ipc_error) result \<times> endpoint" where
  "authorize_send ep sender_space cap _ =
     (case cap_authorize sender_space cap SIGNAL of
        Err e \<Rightarrow> (Err (ipc_from_capability_error e), ep)
      | Ok obj \<Rightarrow>
          if obj \<noteq> ep_object ep then (Err Unauthorized, ep)
          else let sequence = ep_next_sequence ep in
            (case checked_add sequence 1 of
               None \<Rightarrow> (Err SequenceExhausted, ep)
             | Some n \<Rightarrow> (Ok sequence, ep\<lparr>ep_next_sequence := n\<rparr>)))"

record receiver =
  rc_next_sequence :: u64

definition receiver_new :: receiver where
  "receiver_new = \<lparr>rc_next_sequence = 1\<rparr>"

definition receiver_decode :: "receiver \<Rightarrow> bytes \<Rightarrow> (message, ipc_error) result \<times> receiver" where
  "receiver_decode rc input =
     (case message_decode input of
        Err e \<Rightarrow> (Err e, rc)
      | Ok (sequence, m) \<Rightarrow>
          if sequence \<noteq> rc_next_sequence rc then (Err Replay, rc)
          else (case checked_add (rc_next_sequence rc) 1 of
                  None \<Rightarrow> (Err SequenceExhausted, rc)
                | Some n \<Rightarrow> (Ok m, rc\<lparr>rc_next_sequence := n\<rparr>)))"

text \<open>A receiver over a stream of wire messages: the sequence numbers of those it accepts.\<close>

definition wire_sequence :: "bytes \<Rightarrow> u64" where
  "wire_sequence input = from_le_bytes (sub_slice input 8 16)"

fun receive_stream :: "receiver \<Rightarrow> bytes list \<Rightarrow> u64 list" where
  "receive_stream rc [] = []"
| "receive_stream rc (w # ws) =
     (case receiver_decode rc w of
        (Ok _, rc') \<Rightarrow> wire_sequence w # receive_stream rc' ws
      | (Err _, rc') \<Rightarrow> receive_stream rc' ws)"

text \<open>A sender that authorizes each message at an endpoint and puts it on the wire.\<close>

fun send_stream :: "endpoint \<Rightarrow> capability_space \<Rightarrow> capability \<Rightarrow> message list \<Rightarrow> bytes list" where
  "send_stream ep space cap [] = []"
| "send_stream ep space cap (m # ms) =
     (case authorize_send ep space cap m of
        (Ok sequence, ep') \<Rightarrow> wire_bytes sequence m # send_stream ep' space cap ms
      | (Err _, ep') \<Rightarrow> send_stream ep' space cap ms)"

text \<open>The messages the constructors can build, and those whose tokens the wire can carry.\<close>

definition message_wf :: "message \<Rightarrow> bool" where
  "message_wf m \<longleftrightarrow> (\<exists>payload caps. message_new payload caps = Ok m)"

definition wire_wf :: "u64 \<times> message \<Rightarrow> bool" where
  "wire_wf x \<longleftrightarrow> fst x \<noteq> 0 \<and> message_wf (snd x) \<and>
     (\<forall>c \<in> set (message_capabilities (snd x)). cap_generation c \<noteq> 0)"

section \<open>Messages\<close>

lemmas ipc_consts = MAX_INLINE_PAYLOAD_def MAX_CAPABILITIES_def WIRE_HEADER_LENGTH_def

lemma unat_small_u16: "n \<le> 4096 \<Longrightarrow> unat (of_nat n :: u16) = n"
  by (simp add: unat_of_nat)

lemma unat_small_u8: "n \<le> 8 \<Longrightarrow> unat (of_nat n :: u8) = n"
  by (simp add: unat_of_nat)

lemma message_new_okD:
  assumes "message_new payload caps = Ok m"
  shows "length payload \<le> 4096" "length caps \<le> 8"
    and "m_payload_length m = of_nat (length payload)" "m_capability_count m = of_nat (length caps)"
    and "message_payload m = payload" "message_capabilities m = caps"
  using assms by (auto simp: message_new_def message_payload_def message_capabilities_def ipc_consts
      unat_small_u16 unat_small_u8 split: if_splits)

lemma message_new_total: "length payload \<le> 4096 \<Longrightarrow> length caps \<le> 8 \<Longrightarrow> \<exists>m. message_new payload caps = Ok m"
  by (auto simp: message_new_def ipc_consts)

lemma message_wfE:
  assumes "message_wf m"
  obtains payload caps where "message_new payload caps = Ok m"
    "message_payload m = payload" "message_capabilities m = caps"
    "length payload \<le> 4096" "length caps \<le> 8"
  using assms message_new_okD by (auto simp: message_wf_def)

lemma message_with_caps:
  assumes "message_new payload [] = Ok m" and "length caps \<le> 8"
  shows "message_new payload caps = Ok (m\<lparr>m_capabilities :=
     map Some caps @ replicate (MAX_CAPABILITIES - length caps) None,
     m_capability_count := of_nat (length caps)\<rparr>)"
  using assms by (auto simp: message_new_def ipc_consts split: if_splits)

section \<open>The wire format\<close>

lemma length_concat_tokens: "length (concat (map (\<lambda>c. to_le_bytes 8 (cap_token c)) cs)) = 8 * length cs"
  by (induction cs) simp_all

lemma decode_capabilities_encode:
  "\<forall>c \<in> set cs. cap_generation c \<noteq> 0 \<Longrightarrow>
     decode_capabilities (length cs) (concat (map (\<lambda>c. to_le_bytes 8 (cap_token c)) cs) @ rest) = Ok cs"
proof (induction cs)
  case (Cons c cs)
  then have "drop_bit 32 (cap_token c) \<noteq> 0" by (simp add: cap_token_high)
  moreover from this have "cap_token c \<noteq> 0" by auto
  ultimately show ?case using Cons by (simp add: Let_def)
qed simp

lemma decode_capabilities_okD:
  "decode_capabilities n input = Ok cs \<Longrightarrow> 8 * n \<le> length input \<Longrightarrow>
     length cs = n \<and> (\<forall>c \<in> set cs. cap_generation c \<noteq> 0) \<and>
     concat (map (\<lambda>c. to_le_bytes 8 (cap_token c)) cs) = take (8 * n) input"
proof (induction n arbitrary: input cs)
  case (Suc n)
  let ?t = "from_le_bytes (take 8 input) :: u64"
  from Suc.prems(1) obtain cs' where cs: "cs = cap_from_token ?t # cs'" "drop_bit 32 ?t \<noteq> 0"
    "decode_capabilities n (drop 8 input) = Ok cs'"
    by (auto simp: Let_def split: if_splits result.splits)
  have "length cs' = n \<and> (\<forall>c \<in> set cs'. cap_generation c \<noteq> 0) \<and>
      concat (map (\<lambda>c. to_le_bytes 8 (cap_token c)) cs') = take (8 * n) (drop 8 input)"
    using Suc.IH [OF cs(3)] Suc.prems(2) by simp
  moreover have "cap_generation (cap_from_token ?t) \<noteq> 0"
    using cs(2) cap_token_high [of "cap_from_token ?t"] by simp
  moreover have "to_le_bytes 8 (cap_token (cap_from_token ?t)) = take 8 input"
    using Suc.prems(2) by simp
  ultimately show ?case
    using take_add [of 8 "8 * n" input] by (simp add: cs(1) add.commute)
qed simp

lemma wire_bytes_new:
  assumes "message_new payload caps = Ok m"
  shows "wire_bytes sequence m =
     WIRE_MAGIC @ [WIRE_VERSION, 0, of_nat (length caps), 0] @ to_le_bytes 8 sequence @
     to_le_bytes 2 (of_nat (length payload) :: u16) @ replicate 6 0 @
     concat (map (\<lambda>c. to_le_bytes 8 (cap_token c)) caps) @ payload"
  using message_new_okD [OF assms] by (simp add: wire_bytes_def)

lemma length_wire_bytes:
  "message_new payload caps = Ok m \<Longrightarrow>
     length (wire_bytes sequence m) = 24 + 8 * length caps + length payload"
  by (simp add: wire_bytes_new WIRE_MAGIC_def length_concat_tokens)

lemma le2_bytes: "to_le_bytes 2 (w :: u16) = [ucast w, ucast (drop_bit 8 w)]"
  by (simp add: to_le_bytes_def numeral_2_eq_2)

lemma decode_wire:
  assumes "wire_wf (sequence, m)"
  shows "message_decode (wire_bytes sequence m) = Ok (sequence, m)"
proof -
  obtain payload caps where new: "message_new payload caps = Ok m"
    and caps: "message_capabilities m = caps" and lp: "length payload \<le> 4096" and lc: "length caps \<le> 8"
    using assms by (auto simp: wire_wf_def elim: message_wfE)
  have gens: "\<forall>c \<in> set caps. cap_generation c \<noteq> 0" and seq: "sequence \<noteq> 0"
    using assms caps by (auto simp: wire_wf_def)
  obtain base where base: "message_new payload [] = Ok base" using message_new_total [OF lp, of "[]"] by auto
  let ?S = "to_le_bytes 8 sequence" and ?L = "of_nat (length payload) :: u16"
  let ?T = "concat (map (\<lambda>c. to_le_bytes 8 (cap_token c)) caps)"
  define w where "w = wire_bytes sequence m"
  have w: "w = [77, 82, 73, 80, 1, 0, of_nat (length caps), 0] @ ?S @
      [ucast ?L, ucast (drop_bit 8 ?L)] @ replicate 6 0 @ ?T @ payload"
    by (simp add: w_def wire_bytes_new [OF new] WIRE_MAGIC_def WIRE_VERSION_def le2_bytes)
  have head: "sub_slice w 0 4 = WIRE_MAGIC" "w ! 4 = WIRE_VERSION" "w ! 5 = 0" "unat (w ! 6) = length caps"
      "w ! 7 = 0" "sub_slice w 8 16 = ?S" "sub_slice w 18 24 = replicate 6 0"
    using lc by (simp_all add: w sub_slice_def WIRE_MAGIC_def WIRE_VERSION_def unat_small_u8)
  have "w ! 16 = ucast ?L" "w ! 17 = ucast (drop_bit 8 ?L)" by (simp_all add: w nth_append)
  then have "from_le_bytes [w ! 16, w ! 17] = ?L" by (simp only: flip: le2_bytes) simp
  then have plen: "unat (from_le_bytes [w ! 16, w ! 17] :: u16) = length payload"
    using lp by (simp only: unat_small_u16)
  have len: "length w = 24 + length caps * 8 + length payload"
    using length_wire_bytes [OF new] by (simp add: w_def)
  have d24: "drop 24 w = ?T @ payload" by (simp add: w)
  then have dp: "drop (24 + length caps * 8) w = payload"
    using drop_drop [of "length caps * 8" 24 w] by (simp add: length_concat_tokens add.commute)
  have m: "base\<lparr>m_capabilities := map Some caps @ replicate (8 - length caps) None,
      m_capability_count := of_nat (length caps)\<rparr> = m"
    using message_with_caps [OF base lc] new by (simp add: ipc_consts)
  have tokens: "decode_capabilities (length caps) (?T @ payload) = Ok caps"
    using decode_capabilities_encode [OF gens] .
  have "message_decode w = Ok (sequence, m)"
    using lp lc seq unfolding message_decode_def ipc_consts Let_def head plen len d24 dp tokens base
    by (simp add: m)
  then show ?thesis by (simp add: w_def)
qed

lemma header_split:
  assumes "24 \<le> length input"
  shows "input = sub_slice input 0 4 @ [input ! 4, input ! 5, input ! 6, input ! 7] @ sub_slice input 8 16 @
     [input ! 16, input ! 17] @ sub_slice input 18 24 @ drop 24 input"
proof -
  have pairs: "sub_slice input 4 6 = [input ! 4, input ! 5]"
    "sub_slice input 6 8 = [input ! 6, input ! 7]" "sub_slice input 16 18 = [input ! 16, input ! 17]"
    using sub_slice_pair [of 4 input] sub_slice_pair [of 6 input] sub_slice_pair [of 16 input] assms
    by simp_all
  have "input = sub_slice input 0 (length input)" by (simp add: sub_slice_def)
  also have "\<dots> = sub_slice input 0 4 @ sub_slice input 4 6 @ sub_slice input 6 8 @ sub_slice input 8 16 @
      sub_slice input 16 18 @ sub_slice input 18 24 @ sub_slice input 24 (length input)"
    using assms by (simp add: sub_slice_append flip: append_assoc)
  finally show ?thesis by (simp add: pairs flip: sub_slice_to_end)
qed

lemma decode_okD:
  assumes "message_decode input = Ok (sequence, m)"
  shows "wire_wf (sequence, m) \<and> wire_bytes sequence m = input"
proof -
  let ?n = "unat (input ! 6)" and ?l = "from_le_bytes [input ! 16, input ! 17] :: u16"
  from assms have len: "length input = 24 + ?n * 8 + unat ?l" and magic: "sub_slice input 0 4 = WIRE_MAGIC"
    and fixed: "input ! 4 = WIRE_VERSION" "input ! 5 = 0" "input ! 7 = 0"
    and zero: "\<forall>b \<in> set (sub_slice input 18 24). b = 0" and n8: "?n \<le> 8" and l: "unat ?l \<le> 4096"
    and seq: "sequence = from_le_bytes (sub_slice input 8 16)" "sequence \<noteq> 0"
    by (auto simp: message_decode_def Let_def ipc_consts split: if_splits result.splits)
  from assms obtain caps base where caps: "decode_capabilities ?n (drop 24 input) = Ok caps"
    and base: "message_new (drop (24 + ?n * 8) input) [] = Ok base"
    and m: "m = base\<lparr>m_capabilities := map Some caps @ replicate (MAX_CAPABILITIES - length caps) None,
      m_capability_count := of_nat ?n\<rparr>"
    by (auto simp: message_decode_def Let_def ipc_consts split: if_splits result.splits)
  have cd: "length caps = ?n" "\<forall>c \<in> set caps. cap_generation c \<noteq> 0"
    "concat (map (\<lambda>c. to_le_bytes 8 (cap_token c)) caps) = take (8 * ?n) (drop 24 input)"
    using decode_capabilities_okD [OF caps] len by simp_all
  have new: "message_new (drop (24 + ?n * 8) input) caps = Ok m"
    using message_with_caps [OF base, of caps] n8 cd(1) m by simp
  have lp: "of_nat (length (drop (24 + ?n * 8) input)) = ?l" using len by simp
  have le2: "to_le_bytes 2 ?l = [input ! 16, input ! 17]" by (rule to_from_le_bytes) simp_all
  have le8: "to_le_bytes 8 sequence = sub_slice input 8 16"
    using len by (simp add: seq(1) length_sub_slice)
  have z: "sub_slice input 18 24 = replicate 6 0"
    using zero len by (intro zeros_eq_replicate) (simp_all add: length_sub_slice)
  have d24: "drop 24 input = take (8 * ?n) (drop 24 input) @ drop (24 + ?n * 8) input"
  proof -
    have "drop (8 * ?n) (drop 24 input) = drop (24 + ?n * 8) input" by (simp add: add.commute mult.commute)
    then show ?thesis using append_take_drop_id [of "8 * ?n" "drop 24 input"] by simp
  qed
  have "24 \<le> length input" using len by linarith
  from header_split [OF this] have "input = WIRE_MAGIC @ [WIRE_VERSION, 0, input ! 6, 0] @ sub_slice input 8 16 @
      [input ! 16, input ! 17] @ replicate 6 0 @ drop 24 input"
    unfolding magic fixed z .
  also have "\<dots> = WIRE_MAGIC @ [WIRE_VERSION, 0, input ! 6, 0] @ to_le_bytes 8 sequence @
      to_le_bytes 2 ?l @ replicate 6 0 @ take (8 * ?n) (drop 24 input) @ drop (24 + ?n * 8) input"
    unfolding le2 le8 by (subst (1) d24) (rule refl)
  also have "\<dots> = wire_bytes sequence m"
    unfolding wire_bytes_new [OF new] lp cd by simp
  finally have "wire_bytes sequence m = input" by simp
  moreover have "wire_wf (sequence, m)"
    using seq(2) new cd(2) message_new_okD(6) [OF new] by (auto simp: wire_wf_def message_wf_def)
  ultimately show ?thesis by simp
qed

interpretation wire: codec "\<lambda>(sequence, m). wire_bytes sequence m" message_decode wire_wf
proof unfold_locales
  show "wire_wf x \<Longrightarrow> message_decode (case x of (sequence, m) \<Rightarrow> wire_bytes sequence m) = Ok x" for x
    by (cases x) (simp add: decode_wire)
  show "message_decode b = Ok x \<Longrightarrow>
      wire_wf x \<and> (case x of (sequence, m) \<Rightarrow> wire_bytes sequence m) = b" for b x
    by (cases x) (simp add: decode_okD)
qed

section \<open>Encoding\<close>

lemma length_wire_bytes_wf:
  "message_wf m \<Longrightarrow> length (wire_bytes sequence m) =
     WIRE_HEADER_LENGTH + unat (m_capability_count m) * 8 + unat (m_payload_length m)"
  using message_new_okD(1-4) [of _ _ m]
  by (auto simp: message_wf_def length_wire_bytes unat_small_u8 unat_small_u16 ipc_consts)

lemma encode_wf:
  assumes "message_wf m" and "sequence \<noteq> 0"
  shows "message_encode m sequence output =
     (if length output < length (wire_bytes sequence m) then Some (Err BufferTooSmall, output)
      else Some (Ok (length (wire_bytes sequence m)),
                 wire_bytes sequence m @ drop (length (wire_bytes sequence m)) output))"
  using assms by (simp add: message_encode_def length_wire_bytes_wf [OF assms(1)] Let_def)

section \<open>Capability transfer\<close>

text \<open>What a transfer request may bind: the same object, the requested rights, delegable.\<close>

definition transferable :: "capability_space \<Rightarrow> capability \<times> rights \<Rightarrow> object_id \<times> rights \<Rightarrow> bool" where
  "transferable src request g \<longleftrightarrow>
     (\<exists>r. cap_view src (fst request) = Some (fst g, r) \<and> rights_contains r DELEGATE \<and>
          rights_contains r (snd request) \<and> snd g = snd request)"

lemma cap_revoke_view: "cap_view (snd (cap_revoke c s)) = (cap_view s)(c := None)"
proof -
  obtain q t where "cap_revoke c s = (q, t)" by fastforce
  then show ?thesis
    by (cases q) (auto simp: cap_revoke_okD(2) fun_upd_idem dest: cap_revoke_errD)
qed

lemma revoke_all_view: "cap_view (revoke_all cs s) = (cap_view s) |` (- set cs)"
  by (induction cs arbitrary: s)
    (auto simp: cap_revoke_view restrict_map_def fun_eq_iff)

lemma revoke_all_inv: "cap_inv s \<Longrightarrow> cap_inv (revoke_all cs s)"
  by (induction cs arbitrary: s) (simp_all add: cap_revoke_inv)

lemma transfer_loop_inv: "cap_inv dst \<Longrightarrow> cap_inv (snd (transfer_loop reqs src derived dst))"
proof (induction reqs arbitrary: derived dst)
  case (Cons q reqs)
  obtain c r where q: "q = (c, r)" by fastforce
  obtain res dst1 where d: "cap_derive src c r dst = (res, dst1)" by fastforce
  then have "cap_inv dst1" using cap_derive_inv [OF Cons.prems, of src c r] by simp
  then show ?case using Cons.IH by (cases res) (simp_all add: q d revoke_all_inv)
qed simp

lemma transfer_loop_err:
  "cap_inv dst \<Longrightarrow> transfer_loop reqs src derived dst = (Err e, dst') \<Longrightarrow>
     e = Unauthorized \<and> cap_view dst' = (cap_view dst) |` (- set derived)"
proof (induction reqs arbitrary: derived dst)
  case (Cons q reqs)
  obtain c r where q: "q = (c, r)" by fastforce
  obtain res dst1 where d: "cap_derive src c r dst = (res, dst1)" by fastforce
  then have inv: "cap_inv dst1" using cap_derive_inv [OF Cons.prems(1), of src c r] by simp
  show ?case
  proof (cases res)
    case (Ok h)
    then have "cap_view dst h = None" and "\<exists>g. cap_view dst1 = (cap_view dst)(h \<mapsto> g)"
      using cap_derive_okD [of src c r dst h dst1] d Cons.prems(1) by auto
    then have "cap_view dst1 |` (- set (derived @ [h])) = cap_view dst |` (- set derived)"
      by (auto simp: restrict_map_def fun_eq_iff)
    then show ?thesis using Cons.IH [OF inv, of "derived @ [h]"] Cons.prems(2) Ok by (simp add: q d)
  next
    case (Err x)
    then have "dst1 = dst" using d cap_derive_errD by auto
    then show ?thesis using Cons.prems(2) Err
      by (auto simp: q d ipc_from_capability_error_def revoke_all_view)
  qed
qed simp

lemma transfer_loop_ok:
  "cap_inv dst \<Longrightarrow> transfer_loop reqs src derived dst = (Ok ds, dst') \<Longrightarrow>
     \<exists>new gs. ds = derived @ new \<and> distinct new \<and> (\<forall>h \<in> set new. cap_view dst h = None) \<and>
       length new = length reqs \<and> list_all2 (transferable src) reqs gs \<and>
       cap_view dst' = (cap_view dst)(new [\<mapsto>] gs)"
proof (induction reqs arbitrary: derived dst)
  case Nil
  then show ?case by (intro exI [of _ "[]"]) auto
next
  case (Cons q reqs)
  obtain c r where q: "q = (c, r)" by fastforce
  obtain res dst1 where d: "cap_derive src c r dst = (res, dst1)" by fastforce
  then have inv: "cap_inv dst1" using cap_derive_inv [OF Cons.prems(1), of src c r] by simp
  from Cons.prems(2) d obtain h where res: "res = Ok h" by (cases res) (auto simp: q)
  then obtain obj r' where g: "cap_view src c = Some (obj, r')" "rights_contains r' DELEGATE"
    "rights_contains r' r" and fresh: "cap_view dst h = None"
    and dst1: "cap_view dst1 = (cap_view dst)(h \<mapsto> (obj, r))"
    using cap_derive_okD [of src c r dst h dst1] d Cons.prems(1) by auto
  obtain new gs where IH: "ds = (derived @ [h]) @ new" "distinct new"
    "\<forall>h \<in> set new. cap_view dst1 h = None" "length new = length reqs"
    "list_all2 (transferable src) reqs gs" "cap_view dst' = (cap_view dst1)(new [\<mapsto>] gs)"
    using Cons.IH [OF inv, of "derived @ [h]"] Cons.prems(2) by (auto simp: q d res)
  have "h \<notin> set new" using IH(3) dst1 by auto
  moreover from this have "\<forall>x \<in> set new. cap_view dst x = None" using IH(3) dst1 by (metis fun_upd_apply)
  moreover have "transferable src q (obj, r)" using g by (simp add: q transferable_def)
  moreover have "cap_view dst' = (cap_view dst)(h # new [\<mapsto>] (obj, r) # gs)" by (simp add: IH(6) dst1)
  ultimately show ?case using IH(1,2,4,5) fresh
    by (intro exI [of _ "h # new"] exI [of _ "(obj, r) # gs"]) simp
qed

lemma transfer_message:
  assumes "length payload \<le> 4096" and "length derived \<le> 8" and "length requested = length derived"
  shows "\<exists>m. message_new payload [] = Ok m \<and> message_new payload derived = Ok (m\<lparr>m_capabilities :=
     map Some derived @ replicate (MAX_CAPABILITIES - length derived) None,
     m_capability_count := of_nat (length requested)\<rparr>)"
  using assms message_new_total [of payload "[]"] message_with_caps by fastforce

lemma transfer_eq:
  assumes "cap_inv dst" and "length payload \<le> 4096" and "length requested \<le> 8"
  shows "message_transfer payload requested src dst =
     (case transfer_loop requested src [] dst of
        (Err e, dst') \<Rightarrow> (Err e, dst')
      | (Ok derived, dst') \<Rightarrow> (message_new payload derived, dst'))"
proof -
  obtain res dst' where r: "transfer_loop requested src [] dst = (res, dst')" by fastforce
  show ?thesis
  proof (cases res)
    case (Ok derived)
    then have len: "length derived = length requested"
      using transfer_loop_ok [OF assms(1), of requested src "[]" derived dst'] r by auto
    obtain m where "message_new payload [] = Ok m" "message_new payload derived = Ok (m\<lparr>m_capabilities :=
        map Some derived @ replicate (MAX_CAPABILITIES - length derived) None,
        m_capability_count := of_nat (length requested)\<rparr>)"
      using transfer_message [OF assms(2), of derived requested] len assms(3) by metis
    then show ?thesis using assms(2,3) r Ok by (simp add: message_transfer_def ipc_consts)
  qed (use assms r in \<open>simp add: message_transfer_def ipc_consts\<close>)
qed

lemma message_transfer_errD:
  assumes "message_transfer payload requested src dst = (Err e, dst')" and "cap_inv dst"
  shows "cap_inv dst'" "cap_view dst' = cap_view dst"
proof -
  have "cap_inv dst' \<and> cap_view dst' = cap_view dst"
  proof (cases "length payload \<le> 4096 \<and> length requested \<le> 8")
    case False
    then show ?thesis using assms by (auto simp: message_transfer_def ipc_consts split: if_splits)
  next
    case True
    obtain res d where r: "transfer_loop requested src [] dst = (res, d)" by fastforce
    have inv: "cap_inv d" using transfer_loop_inv [OF assms(2), of requested src "[]"] r by simp
    show ?thesis
    proof (cases res)
      case (Err x)
      then show ?thesis using transfer_loop_err [OF assms(2), of requested src "[]" x d] r True assms(1) inv
        by (simp add: transfer_eq [OF assms(2)] restrict_map_def)
    next
      case (Ok ds)
      then have "length ds = length requested" using transfer_loop_ok [OF assms(2), of requested src "[]" ds d] r by auto
      then obtain m where "message_new payload ds = Ok m" using message_new_total [of payload ds] True by auto
      then show ?thesis using Ok r True assms(1) by (simp add: transfer_eq [OF assms(2)])
    qed
  qed
  then show "cap_inv dst'" "cap_view dst' = cap_view dst" by simp_all
qed

lemma message_transfer_okD:
  assumes "message_transfer payload requested src dst = (Ok m, dst')" and "cap_inv dst"
  shows "cap_inv dst'" "message_new payload (message_capabilities m) = Ok m" "message_payload m = payload"
    and "distinct (message_capabilities m)" "length (message_capabilities m) = length requested"
    and "\<forall>h \<in> set (message_capabilities m). cap_view dst h = None"
    and "\<exists>gs. list_all2 (transferable src) requested gs \<and>
           cap_view dst' = (cap_view dst)(message_capabilities m [\<mapsto>] gs)"
proof -
  have lens: "length payload \<le> 4096" "length requested \<le> 8"
    using assms(1) by (auto simp: message_transfer_def ipc_consts split: if_splits)
  obtain ds where r: "transfer_loop requested src [] dst = (Ok ds, dst')" and new: "message_new payload ds = Ok m"
    using assms(1) by (auto simp: transfer_eq [OF assms(2) lens] split: prod.splits result.splits)
  note eq = message_new_okD(5,6) [OF new]
  show "cap_inv dst'" using transfer_loop_inv [OF assms(2), of requested src "[]"] r by simp
  show "message_new payload (message_capabilities m) = Ok m" "message_payload m = payload"
    using new eq by simp_all
  show "distinct (message_capabilities m)" "length (message_capabilities m) = length requested"
    "\<forall>h \<in> set (message_capabilities m). cap_view dst h = None"
    "\<exists>gs. list_all2 (transferable src) requested gs \<and>
       cap_view dst' = (cap_view dst)(message_capabilities m [\<mapsto>] gs)"
    using transfer_loop_ok [OF assms(2) r] eq(2) by auto
qed

section \<open>Sequence numbers\<close>

lemma wire_sequence_decode: "message_decode w = Ok (s, m) \<Longrightarrow> wire_sequence w = s"
  by (auto simp: message_decode_def wire_sequence_def Let_def split: if_splits result.splits)

lemma receiver_decode_okD:
  assumes "receiver_decode rc w = (Ok m, rc')"
  shows "wire_sequence w = rc_next_sequence rc"
    and "unat (rc_next_sequence rc') = Suc (unat (rc_next_sequence rc))"
  using assms checked_add_1_SomeD [of "rc_next_sequence rc"]
  by (auto simp: receiver_decode_def wire_sequence_decode split: result.splits option.splits if_splits)

lemma receiver_decode_errD: "receiver_decode rc w = (Err e, rc') \<Longrightarrow> rc' = rc"
  by (auto simp: receiver_decode_def split: result.splits option.splits if_splits)

lemma receive_stream_consecutive:
  "map unat (receive_stream rc ws) =
     [unat (rc_next_sequence rc)..<unat (rc_next_sequence rc) + length (receive_stream rc ws)]"
proof (induction ws arbitrary: rc)
  case (Cons w ws)
  obtain res rc' where r: "receiver_decode rc w = (res, rc')" by fastforce
  show ?case
  proof (cases res)
    case (Ok m)
    then show ?thesis using r Cons.IH [of rc'] receiver_decode_okD [of rc w m rc']
      by (simp add: upt_conv_Cons del: upt.simps)
  next
    case (Err e)
    then show ?thesis using r Cons.IH [of rc] receiver_decode_errD [of rc w e rc'] by simp
  qed
qed simp

lemma receiver_decode_wire:
  assumes "message_wf m" and "\<forall>c \<in> set (message_capabilities m). cap_generation c \<noteq> 0"
    and "sequence \<noteq> 0" and "checked_add sequence 1 = Some n"
  shows "receiver_decode \<lparr>rc_next_sequence = sequence\<rparr> (wire_bytes sequence m) =
     (Ok m, \<lparr>rc_next_sequence = n\<rparr>)"
  using assms by (simp add: receiver_decode_def decode_wire wire_wf_def)

lemma send_stream_received:
  assumes "cap_authorize space cap SIGNAL = Ok (ep_object ep)"
    and "\<forall>m \<in> set ms. message_wf m \<and> (\<forall>c \<in> set (message_capabilities m). cap_generation c \<noteq> 0)"
    and "ep_next_sequence ep \<noteq> 0" and "unat (ep_next_sequence ep) + length ms < 2 ^ 64"
  shows "length (send_stream ep space cap ms) = length ms \<and>
     map unat (receive_stream \<lparr>rc_next_sequence = ep_next_sequence ep\<rparr> (send_stream ep space cap ms)) =
       [unat (ep_next_sequence ep)..<unat (ep_next_sequence ep) + length ms]"
  using assms
proof (induction ms arbitrary: ep)
  case (Cons m ms)
  let ?s = "ep_next_sequence ep" and ?ep = "ep\<lparr>ep_next_sequence := ep_next_sequence ep + 1\<rparr>"
  have n: "checked_add ?s 1 = Some (?s + 1)" using Cons.prems(4) by (simp add: checked_add_def)
  then have next_unat: "unat (?s + 1) = Suc (unat ?s)" by (rule checked_add_1_SomeD)
  then have nz: "?s + 1 \<noteq> 0" by (metis nat.distinct(1) unat_0)
  have sent: "authorize_send ep space cap m = (Ok ?s, ?ep)"
    using Cons.prems(1) by (simp add: authorize_send_def n Let_def)
  have dec: "receiver_decode \<lparr>rc_next_sequence = ?s\<rparr> (wire_bytes ?s m) = (Ok m, \<lparr>rc_next_sequence = ?s + 1\<rparr>)"
    using receiver_decode_wire [OF _ _ Cons.prems(3) n] Cons.prems(2) by simp
  have "wire_sequence (wire_bytes ?s m) = ?s" using receiver_decode_okD(1) [OF dec] by simp
  then show ?case
    using Cons.IH [of ?ep] Cons.prems next_unat nz by (simp add: sent dec upt_conv_Cons del: upt.simps)
qed simp

section \<open>Properties\<close>

text \<open>
  The wire format is canonical.  A byte string decodes to a sequence number and a
  message exactly when they are well formed and encoding them into any buffer that is long
  enough writes exactly that byte string, leaves the rest of the buffer alone and does not panic.
\<close>

theorem ipc_wire_canonical:
  assumes "length b \<le> length output"
  shows "message_decode b = Ok (sequence, m) \<longleftrightarrow>
     wire_wf (sequence, m) \<and>
     message_encode m sequence output = Some (Ok (length b), b @ drop (length b) output)"
proof -
  have "message_encode m sequence output = Some (Ok (length b), b @ drop (length b) output) \<longleftrightarrow>
      b = wire_bytes sequence m" if "wire_wf (sequence, m)"
  proof -
    have "message_wf m" "sequence \<noteq> 0" using that by (simp_all add: wire_wf_def)
    then show ?thesis using encode_wf [of m sequence "output"] assms by auto
  qed
  then show ?thesis using wire.dec_iff [of b "(sequence, m)"] by auto
qed

theorem ipc_wire_canonical_witness:
  "\<exists>m. message_new [9] [\<lparr>cap_slot = 2, cap_generation = 1\<rparr>] = Ok m \<and>
     message_decode [77, 82, 73, 80, 1, 0, 1, 0, 5, 0, 0, 0, 0, 0, 0, 0, 1, 0, 0, 0, 0, 0, 0, 0,
                     2, 0, 0, 0, 1, 0, 0, 0, 9] = Ok (5, m)"
proof -
  let ?c = "\<lparr>cap_slot = 2, cap_generation = 1\<rparr>"
  let ?b = "[77, 82, 73, 80, 1, 0, 1, 0, 5, 0, 0, 0, 0, 0, 0, 0, 1, 0, 0, 0, 0, 0, 0, 0,
             2, 0, 0, 0, 1, 0, 0, 0, 9] :: bytes"
  obtain m where m: "message_new [9] [?c] = Ok m" using message_new_total [of "[9]" "[?c]"] by auto
  have "to_le_bytes 8 (5 :: u64) = [5, 0, 0, 0, 0, 0, 0, 0]" "to_le_bytes 2 (1 :: u16) = [1, 0]"
    "to_le_bytes 8 (cap_token ?c) = [2, 0, 0, 0, 1, 0, 0, 0]" "replicate 6 (0 :: u8) = [0, 0, 0, 0, 0, 0]"
    by code_simp+
  then have b: "wire_bytes 5 m = ?b"
    by (simp add: wire_bytes_new [OF m] WIRE_MAGIC_def WIRE_VERSION_def)
  have wf: "wire_wf (5, m)"
    using m message_new_okD(6) [OF m] by (auto simp: wire_wf_def message_wf_def)
  then have "message_encode m 5 ?b = Some (Ok (length ?b), ?b @ drop (length ?b) ?b)"
    using encode_wf [of m 5 ?b] b by (simp add: wire_wf_def)
  then show ?thesis using ipc_wire_canonical [of ?b ?b 5 m] wf m by blast
qed

text \<open>
  Property C9.  Capability transfer is atomic and attenuating.  On an error the receiver's space
  means what it meant before, even when some requests had already been granted.  On success the
  message carries one new handle per request, in order; each is bound to the object of the
  requested handle with exactly the requested rights, which the sender held together with
  \<open>DELEGATE\<close>; no other handle of the receiver changes.
\<close>

theorem ipc_transfer_atomic:
  assumes "cap_inv dst"
  shows "case message_transfer payload requested src dst of
     (Err _, dst') \<Rightarrow> cap_inv dst' \<and> cap_view dst' = cap_view dst
   | (Ok m, dst') \<Rightarrow> cap_inv dst' \<and> message_payload m = payload \<and>
       distinct (message_capabilities m) \<and>
       length (message_capabilities m) = length requested \<and>
       (\<forall>h \<in> set (message_capabilities m). cap_view dst h = None) \<and>
       (\<exists>gs. list_all2 (transferable src) requested gs \<and>
             cap_view dst' = (cap_view dst)(message_capabilities m [\<mapsto>] gs))"
proof (cases "message_transfer payload requested src dst")
  case (Pair res dst')
  then show ?thesis
  proof (cases res)
    case (Ok m)
    then show ?thesis using message_transfer_okD [of payload requested src dst m dst'] Pair assms by simp
  next
    case (Err e)
    then show ?thesis using message_transfer_errD [of payload requested src dst e dst'] Pair assms by simp
  qed
qed

theorem ipc_transfer_atomic_witness:
  "let src = snd (cap_insert 7 (rights_union READ DELEGATE) (cap_new 1));
       c = \<lparr>cap_slot = 0, cap_generation = 1\<rparr> in
   fst (message_transfer [] [(c, READ), (c, WRITE)] src (cap_new 2)) = Err Unauthorized \<and>
   cap_view (snd (message_transfer [] [(c, READ), (c, WRITE)] src (cap_new 2))) = Map.empty"
proof -
  let ?src = "snd (cap_insert 7 (rights_union READ DELEGATE) (cap_new 1))"
  let ?c = "\<lparr>cap_slot = 0, cap_generation = 1\<rparr>"
  let ?t = "message_transfer [] [(?c, READ), (?c, WRITE)] ?src (cap_new 2)"
  have e: "?src = \<lparr>entries = [\<lparr>e_generation = 1, e_object = 7, e_rights = 33, e_occupied = True\<rparr>]\<rparr>"
    by (simp add: cap_insert_def cap_new_def entry_EMPTY_def Let_def rights_union_def READ_def
        DELEGATE_def)
  have "fst ?t = Err Unauthorized"
    unfolding e by (simp add: message_transfer_def ipc_consts cap_derive_def cap_entry_def cap_insert_def
        cap_new_def entry_EMPTY_def Let_def rights_contains_def rights_intersect_def READ_def WRITE_def
        DELEGATE_def numeral_2_eq_2 ipc_from_capability_error_def)
  then show ?thesis
    using ipc_transfer_atomic [OF cap_inv_new, of 2 "[]" "[(?c, READ), (?c, WRITE)]" ?src]
    by (simp add: Let_def split_beta)
qed

text \<open>
  A receiver accepts sequence numbers one by one without gap, repetition or
  reordering: whatever byte strings arrive, those accepted carry 1, 2, 3 and so on.
\<close>

theorem ipc_receiver_in_order:
  "map unat (receive_stream receiver_new ws) = [1..<Suc (length (receive_stream receiver_new ws))] \<and>
   distinct (receive_stream receiver_new ws)"
proof -
  let ?r = "receive_stream receiver_new ws"
  have m: "map unat ?r = [1..<Suc (length ?r)]"
    using receive_stream_consecutive [of receiver_new ws] by (simp add: receiver_new_def)
  then have "distinct ?r" by (metis distinct_upt distinct_map)
  with m show ?thesis by blast
qed

text \<open>
  Endpoint and receiver agree end to end: when the sender's handle carries
  \<open>SIGNAL\<close> for the endpoint's object, every one of up to \<open>2 ^ 64 - 2\<close> messages is sent, and a
  receiver that gets them in order accepts all of them.
\<close>

theorem ipc_send_receive:
  assumes "cap_authorize space cap SIGNAL = Ok obj"
    and "\<forall>m \<in> set ms. wire_wf (1, m)" and "length ms < 2 ^ 64 - 1"
  shows "length (send_stream (endpoint_new obj) space cap ms) = length ms \<and>
     map unat (receive_stream receiver_new (send_stream (endpoint_new obj) space cap ms)) =
       [1..<Suc (length ms)]"
  using send_stream_received [of space cap "endpoint_new obj" ms] assms
  by (auto simp: endpoint_new_def receiver_new_def wire_wf_def)

theorem ipc_send_receive_witness:
  "\<exists>m. message_new [9] [] = Ok m \<and>
     map unat (receive_stream receiver_new (send_stream (endpoint_new 7)
       (snd (cap_insert 7 SIGNAL (cap_new 1))) \<lparr>cap_slot = 0, cap_generation = 1\<rparr> [m, m])) = [1, 2]"
proof -
  let ?s = "snd (cap_insert 7 SIGNAL (cap_new 1))" and ?c = "\<lparr>cap_slot = 0, cap_generation = 1\<rparr>"
  obtain m where m: "message_new [9] [] = Ok m" using message_new_total [of "[9]" "[]"] by auto
  then have wf: "wire_wf (1, m)"
    using message_new_okD(6) [OF m] by (auto simp: wire_wf_def message_wf_def)
  have "cap_authorize ?s ?c SIGNAL = Ok 7"
    by (simp add: cap_authorize_def cap_entry_def cap_insert_def cap_new_def entry_EMPTY_def Let_def)
  then show ?thesis
    using ipc_send_receive [of ?s ?c 7 "[m, m]"] wf m by (simp add: upt_rec)
qed

end
