(* ===== verification/Memory.thy ===== *)
theory Memory
  imports Kernel_Prelude "HOL-Library.Sublist"
begin

text \<open>
  Physical memory, after \<open>crates/mrml-kernel/src/memory.rs\<close>: page-aligned physical
  addresses, firmware memory regions, the validated memory map and the monotonic early-boot
  frame allocator.  The allocator's cursor is read as the list of free frames it has not
  passed yet; every grant is a contiguous run of that list, so frames handed out never
  overlap and always lie in free regions.
\<close>

section \<open>Definitions\<close>

definition PAGE_SIZE :: u64 where
  "PAGE_SIZE = 4096"

datatype phys_addr = PhysAddr (phys_get: u64)

instantiation phys_addr :: linorder
begin

definition less_eq_phys_addr :: "phys_addr \<Rightarrow> phys_addr \<Rightarrow> bool" where
  "less_eq_phys_addr a b = (phys_get a \<le> phys_get b)"

definition less_phys_addr :: "phys_addr \<Rightarrow> phys_addr \<Rightarrow> bool" where
  "less_phys_addr a b = (phys_get a < phys_get b)"

instance
  by standard
    (auto simp: less_eq_phys_addr_def less_phys_addr_def phys_addr.expand)

end

datatype memory_error =
  Empty | Unaligned | InvalidLength | Overflow | Unsorted | Overlap | OutOfMemory

definition phys_new :: "u64 \<Rightarrow> (phys_addr, memory_error) result" where
  "phys_new address =
     (if address mod PAGE_SIZE \<noteq> 0 then Err Unaligned else Ok (PhysAddr address))"

datatype memory_kind = Free | Kernel | Firmware | Mmio | Acpi | Reserved

record memory_region =
  mr_start :: phys_addr
  mr_pages :: u64
  mr_kind :: memory_kind

definition region_new ::
  "phys_addr \<Rightarrow> u64 \<Rightarrow> memory_kind \<Rightarrow> (memory_region, memory_error) result" where
  "region_new start pages kind =
     (if pages = 0 \<or> pages > (- 1) div PAGE_SIZE then Err InvalidLength
      else if checked_add (phys_get start) (pages * PAGE_SIZE) = None then Err Overflow
      else Ok \<lparr>mr_start = start, mr_pages = pages, mr_kind = kind\<rparr>)"

definition region_end :: "memory_region \<Rightarrow> u64" where
  "region_end r = phys_get (mr_start r) + mr_pages r * PAGE_SIZE"

fun map_windows :: "memory_region list \<Rightarrow> (unit, memory_error) result" where
  "map_windows (a # b # rs) =
     (if mr_start a > mr_start b then Err Unsorted
      else if region_end a > phys_get (mr_start b) then Err Overlap
      else map_windows (b # rs))"
| "map_windows _ = Ok ()"

definition map_new :: "memory_region list \<Rightarrow> (memory_region list, memory_error) result" where
  "map_new regions =
     (if regions = [] then Err Empty
      else case map_windows regions of Err e \<Rightarrow> Err e | Ok _ \<Rightarrow> Ok regions)"

record frame_allocator =
  fa_map :: "memory_region list"
  region_index :: nat
  page_index :: u64

definition allocator_new :: "memory_region list \<Rightarrow> frame_allocator" where
  "allocator_new m = \<lparr>fa_map = m, region_index = 0, page_index = 0\<rparr>"

function allocate :: "frame_allocator \<Rightarrow> (phys_addr, memory_error) result \<times> frame_allocator" where
  "allocate fa =
     (if region_index fa < length (fa_map fa) then
        let region = fa_map fa ! region_index fa in
        if mr_kind region \<noteq> Free \<or> page_index fa \<ge> mr_pages region
        then allocate (fa\<lparr>region_index := region_index fa + 1, page_index := 0\<rparr>)
        else case checked_mul (page_index fa) PAGE_SIZE of
               None \<Rightarrow> (Err Overflow, fa)
             | Some offset \<Rightarrow>
                 (case checked_add (phys_get (mr_start region)) offset of
                    None \<Rightarrow> (Err Overflow, fa)
                  | Some address \<Rightarrow>
                      (Ok (PhysAddr address), fa\<lparr>page_index := page_index fa + 1\<rparr>))
      else (Err OutOfMemory, fa))"
  by pat_completeness auto
termination
  by (relation "measure (\<lambda>fa. length (fa_map fa) - region_index fa)") auto

definition is_power_of_two :: "'a::len word \<Rightarrow> bool" where
  "is_power_of_two a = (length (filter (bit a) [0..<LENGTH('a)]) = 1)"

function allocate_contiguous_loop ::
  "u64 \<Rightarrow> u64 \<Rightarrow> frame_allocator \<Rightarrow> (phys_addr, memory_error) result \<times> frame_allocator" where
  "allocate_contiguous_loop pages alignment_pages fa =
     (if region_index fa < length (fa_map fa) then
        let region = fa_map fa ! region_index fa;
            next_region = fa\<lparr>region_index := region_index fa + 1, page_index := 0\<rparr> in
        if mr_kind region \<noteq> Free then allocate_contiguous_loop pages alignment_pages next_region
        else case checked_add (page_index fa) (alignment_pages - 1) of
               None \<Rightarrow> (Err Overflow, fa)
             | Some value \<Rightarrow>
                 (let aligned = value AND NOT (alignment_pages - 1) in
                  case checked_add aligned pages of
                    None \<Rightarrow> (Err Overflow, fa)
                  | Some end_page \<Rightarrow>
                      if end_page \<le> mr_pages region then
                        (case checked_mul aligned PAGE_SIZE of
                           None \<Rightarrow> (Err Overflow, fa)
                         | Some offset \<Rightarrow>
                             (case checked_add (phys_get (mr_start region)) offset of
                                None \<Rightarrow> (Err Overflow, fa)
                              | Some address \<Rightarrow>
                                  (phys_new address, fa\<lparr>page_index := end_page\<rparr>)))
                      else allocate_contiguous_loop pages alignment_pages next_region)
      else (Err OutOfMemory, fa))"
  by pat_completeness auto
termination
  by (relation "measure (\<lambda>(p, a, fa). length (fa_map fa) - region_index fa)") auto

definition allocate_contiguous ::
  "u64 \<Rightarrow> u64 \<Rightarrow> frame_allocator \<Rightarrow> (phys_addr, memory_error) result \<times> frame_allocator" where
  "allocate_contiguous pages alignment_pages fa =
     (if pages = 0 then (Err InvalidLength, fa)
      else if alignment_pages = 0 \<or> \<not> is_power_of_two alignment_pages then (Err Unaligned, fa)
      else allocate_contiguous_loop pages alignment_pages fa)"

declare allocate.simps [simp del] allocate_contiguous_loop.simps [simp del]

text \<open>
  The specification: the frames of a region, the free frames of a map in address order, and
  those the allocator's cursor has not passed.
\<close>

definition region_frames :: "memory_region \<Rightarrow> u64 list" where
  "region_frames r =
     map (\<lambda>i. phys_get (mr_start r) + of_nat i * PAGE_SIZE) [0..<unat (mr_pages r)]"

definition free_frames :: "memory_region list \<Rightarrow> u64 list" where
  "free_frames rs = concat (map region_frames (filter (\<lambda>r. mr_kind r = Free) rs))"

definition remaining :: "frame_allocator \<Rightarrow> u64 list" where
  "remaining fa =
     (case drop (region_index fa) (fa_map fa) of
        [] \<Rightarrow> []
      | r # rs \<Rightarrow>
          (if mr_kind r = Free then drop (unat (page_index fa)) (region_frames r) else [])
            @ free_frames rs)"

definition region_wf :: "memory_region \<Rightarrow> bool" where
  "region_wf r \<longleftrightarrow> phys_new (phys_get (mr_start r)) = Ok (mr_start r) \<and>
     region_new (mr_start r) (mr_pages r) (mr_kind r) = Ok r"

definition map_wf :: "memory_region list \<Rightarrow> bool" where
  "map_wf rs \<longleftrightarrow> (\<forall>r \<in> set rs. region_wf r) \<and> map_new rs = Ok rs"

text \<open>A sequence of boot-time requests, and the frames it was granted.\<close>

datatype request = Single | Contiguous u64 u64

fun serve :: "request \<Rightarrow> frame_allocator \<Rightarrow> (phys_addr, memory_error) result \<times> frame_allocator" where
  "serve Single fa = allocate fa"
| "serve (Contiguous n a) fa = allocate_contiguous n a fa"

fun request_pages :: "request \<Rightarrow> nat" where
  "request_pages Single = 1"
| "request_pages (Contiguous n a) = unat n"

fun granted :: "request list \<Rightarrow> frame_allocator \<Rightarrow> u64 list" where
  "granted [] fa = []"
| "granted (q # qs) fa =
     (case serve q fa of
        (Ok p, fa') \<Rightarrow>
          map (\<lambda>i. phys_get p + of_nat i * PAGE_SIZE) [0..<request_pages q] @ granted qs fa'
      | (Err _, fa') \<Rightarrow> granted qs fa')"

section \<open>Regions never overflow\<close>

lemma region_wfD:
  assumes "region_wf r"
  shows "0 < unat (mr_pages r)" and "unat (mr_pages r) \<le> 2 ^ 52 - 1"
    and "unat (phys_get (mr_start r)) + unat (mr_pages r) * 4096 < 2 ^ 64"
    and "unat (region_end r) = unat (phys_get (mr_start r)) + unat (mr_pages r) * 4096"
    and "phys_get (mr_start r) mod PAGE_SIZE = 0"
proof -
  have "(- 1 :: u64) div PAGE_SIZE = 2 ^ 52 - 1" by (simp add: PAGE_SIZE_def)
  then have le: "mr_pages r \<le> 2 ^ 52 - 1" and nz: "mr_pages r \<noteq> 0"
    and al: "phys_get (mr_start r) mod PAGE_SIZE = 0"
    and add: "checked_add (phys_get (mr_start r)) (mr_pages r * PAGE_SIZE) \<noteq> None"
    using assms by (auto simp: region_wf_def region_new_def phys_new_def split: if_splits)
  from le show pg: "unat (mr_pages r) \<le> 2 ^ 52 - 1"
    by (simp add: word_le_nat_alt)
  from nz show "0 < unat (mr_pages r)" by (simp add: unat_gt_0)
  show "phys_get (mr_start r) mod PAGE_SIZE = 0" by (fact al)
  have mul: "unat (mr_pages r * PAGE_SIZE) = unat (mr_pages r) * 4096"
    using pg by (simp add: PAGE_SIZE_def unat_word_ariths)
  with add show "unat (phys_get (mr_start r)) + unat (mr_pages r) * 4096 < 2 ^ 64"
    by (simp add: checked_add_None_iff)
  then show "unat (region_end r) = unat (phys_get (mr_start r)) + unat (mr_pages r) * 4096"
    using mul by (simp add: region_end_def unat_word_ariths)
qed

lemma unat_frame:
  assumes "region_wf r" and "i < unat (mr_pages r)"
  shows "unat (phys_get (mr_start r) + of_nat i * PAGE_SIZE) =
           unat (phys_get (mr_start r)) + i * 4096"
proof -
  have "i < 2 ^ 52" using assms region_wfD(2) [OF assms(1)] by linarith
  then have "unat (of_nat i * PAGE_SIZE :: u64) = i * 4096"
    by (simp add: PAGE_SIZE_def unat_word_ariths unat_of_nat)
  moreover have "unat (phys_get (mr_start r)) + i * 4096 < 2 ^ 64"
    using assms(2) region_wfD(3) [OF assms(1)] by linarith
  ultimately show ?thesis by (simp add: unat_word_ariths)
qed

lemma region_frames_bounds:
  assumes "region_wf r" and "f \<in> set (region_frames r)"
  shows "unat (phys_get (mr_start r)) \<le> unat f" and "unat f + 4096 \<le> unat (region_end r)"
proof -
  obtain i where i: "i < unat (mr_pages r)" "f = phys_get (mr_start r) + of_nat i * PAGE_SIZE"
    using assms(2) by (auto simp: region_frames_def)
  then have f: "unat f = unat (phys_get (mr_start r)) + i * 4096" by (simp add: unat_frame assms(1))
  then show "unat (phys_get (mr_start r)) \<le> unat f" by simp
  have "i * 4096 + 4096 \<le> unat (mr_pages r) * 4096" using i(1) by linarith
  then show "unat f + 4096 \<le> unat (region_end r)" by (simp add: f region_wfD(4) [OF assms(1)])
qed

lemma region_frames_sorted: "region_wf r \<Longrightarrow> sorted_wrt (<) (map unat (region_frames r))"
  by (auto simp: sorted_wrt_iff_nth_less region_frames_def unat_frame)

section \<open>The map is ordered and disjoint\<close>

lemma map_windows_starts:
  "map_windows (a # rs) = Ok () \<Longrightarrow> \<forall>r \<in> set (a # rs). region_wf r \<Longrightarrow> r \<in> set rs \<Longrightarrow>
     unat (region_end a) \<le> unat (phys_get (mr_start r))"
proof (induction rs arbitrary: a)
  case (Cons b rs)
  from Cons.prems(1) have le: "unat (region_end a) \<le> unat (phys_get (mr_start b))"
    and rest: "map_windows (b # rs) = Ok ()"
    by (auto simp: not_less word_le_nat_alt split: if_splits)
  show ?case
  proof (cases "r = b")
    case False
    then have "r \<in> set rs" using Cons.prems(3) by simp
    then have "unat (region_end b) \<le> unat (phys_get (mr_start r))"
      using Cons.IH [OF rest] Cons.prems(2) by simp
    moreover have "unat (phys_get (mr_start b)) \<le> unat (region_end b)"
      using Cons.prems(2) by (simp add: region_wfD(4))
    ultimately show ?thesis using le by linarith
  qed (simp add: le)
qed simp

lemma map_windows_ConsD: "map_windows (a # rs) = Ok () \<Longrightarrow> map_windows rs = Ok ()"
  by (cases rs) (auto split: if_splits)

lemma free_frames_memD:
  "f \<in> set (free_frames rs) \<Longrightarrow> \<exists>r \<in> set rs. mr_kind r = Free \<and> f \<in> set (region_frames r)"
  by (auto simp: free_frames_def)

lemma free_frames_sorted:
  "map_windows rs = Ok () \<Longrightarrow> \<forall>r \<in> set rs. region_wf r \<Longrightarrow>
     sorted_wrt (<) (map unat (free_frames rs))"
proof (induction rs)
  case (Cons a rs)
  have rest: "sorted_wrt (<) (map unat (free_frames rs))"
    using Cons.IH map_windows_ConsD [OF Cons.prems(1)] Cons.prems(2) by simp
  have "unat f < unat g" if f: "f \<in> set (region_frames a)" and g: "g \<in> set (free_frames rs)" for f g
  proof -
    obtain r where r: "r \<in> set rs" "g \<in> set (region_frames r)"
      using free_frames_memD [OF g] by auto
    have "unat (region_end a) \<le> unat (phys_get (mr_start r))"
      by (rule map_windows_starts [OF Cons.prems(1,2) r(1)])
    moreover have "unat (phys_get (mr_start r)) \<le> unat g"
      using Cons.prems(2) r by (simp add: region_frames_bounds(1))
    moreover have "unat f + 4096 \<le> unat (region_end a)"
      using Cons.prems(2) f by (simp add: region_frames_bounds(2))
    ultimately show ?thesis by linarith
  qed
  then show ?case
    using rest Cons.prems(2) by (auto simp: free_frames_def sorted_wrt_append region_frames_sorted)
qed (simp add: free_frames_def)

lemma map_wf_distinct: "map_wf rs \<Longrightarrow> distinct (free_frames rs)"
proof -
  assume "map_wf rs"
  then have "sorted_wrt (<) (map unat (free_frames rs))"
    by (intro free_frames_sorted) (auto simp: map_wf_def map_new_def split: if_splits result.splits)
  then have "distinct (map unat (free_frames rs))" by (simp add: strict_sorted_iff)
  then show ?thesis by (simp add: distinct_map)
qed

section \<open>The allocator walks the free frames\<close>

lemma remaining_next:
  "remaining (fa\<lparr>region_index := k, page_index := 0\<rparr>) = free_frames (drop k (fa_map fa))"
  by (auto simp: remaining_def free_frames_def split: list.splits)

lemma remaining_new: "remaining (allocator_new rs) = free_frames rs"
  by (auto simp: remaining_def allocator_new_def free_frames_def split: list.splits)

lemma remaining_at:
  "region_index fa < length (fa_map fa) \<Longrightarrow> remaining fa =
     (if mr_kind (fa_map fa ! region_index fa) = Free
      then drop (unat (page_index fa)) (region_frames (fa_map fa ! region_index fa)) else []) @
     free_frames (drop (Suc (region_index fa)) (fa_map fa))"
  by (auto simp: remaining_def Cons_nth_drop_Suc [symmetric])

lemma remaining_skip:
  assumes "region_index fa < length (fa_map fa)"
    and "mr_kind (fa_map fa ! region_index fa) \<noteq> Free \<or>
      page_index fa \<ge> mr_pages (fa_map fa ! region_index fa)"
  shows "remaining fa = remaining (fa\<lparr>region_index := region_index fa + 1, page_index := 0\<rparr>)"
  using assms by (auto simp: remaining_at remaining_next region_frames_def word_le_nat_alt)

lemma region_frames_run:
  assumes "p + n \<le> unat (mr_pages r)"
  shows "drop p (region_frames r) =
     map (\<lambda>i. phys_get (mr_start r) + of_nat p * PAGE_SIZE + of_nat i * PAGE_SIZE) [0..<n] @
     drop (p + n) (region_frames r)"
proof -
  have "[p..<unat (mr_pages r)] = map (\<lambda>i. p + i) [0..<n] @ [p + n..<unat (mr_pages r)]"
    using assms upt_add_eq_append [of p "p + n" "unat (mr_pages r) - (p + n)"] map_add_upt [of p n]
    by (simp add: add.commute)
  then show ?thesis
    by (simp add: region_frames_def drop_map algebra_simps)
qed

lemma allocate_spec:
  "\<forall>r \<in> set (fa_map fa). region_wf r \<Longrightarrow>
     fa_map (snd (allocate fa)) = fa_map fa \<and>
     (case remaining fa of
        [] \<Rightarrow> fst (allocate fa) = Err OutOfMemory \<and> remaining (snd (allocate fa)) = []
      | f # fs \<Rightarrow> fst (allocate fa) = Ok (PhysAddr f) \<and> remaining (snd (allocate fa)) = fs)"
proof (induction fa rule: allocate.induct)
  case (1 fa)
  let ?r = "fa_map fa ! region_index fa" and ?p = "unat (page_index fa)"
  consider (stop) "\<not> region_index fa < length (fa_map fa)"
    | (skip) "region_index fa < length (fa_map fa)" "mr_kind ?r \<noteq> Free \<or> page_index fa \<ge> mr_pages ?r"
    | (grant) "region_index fa < length (fa_map fa)" "mr_kind ?r = Free" "page_index fa < mr_pages ?r"
    by fastforce
  then show ?case
  proof cases
    case stop
    then show ?thesis by (simp add: allocate.simps [of fa] remaining_def)
  next
    case skip
    have "allocate fa = allocate (fa\<lparr>region_index := region_index fa + 1, page_index := 0\<rparr>)"
      using skip by (simp add: allocate.simps [of fa] Let_def)
    then show ?thesis
      unfolding remaining_skip [OF skip]
      using "1.IH" [OF skip(1) refl skip(2)] "1.prems" by (simp only:) (auto split: list.splits)
  next
    case grant
    then have wf: "region_wf ?r" and p: "?p < unat (mr_pages ?r)"
      using "1.prems" by (auto simp: word_less_nat_alt)
    have mul: "checked_mul (page_index fa) PAGE_SIZE = Some (page_index fa * PAGE_SIZE)"
      using p region_wfD(2) [OF wf] by (simp add: checked_mul_def PAGE_SIZE_def)
    have um: "unat (page_index fa * PAGE_SIZE) = ?p * 4096"
      using checked_mul_SomeD(2) [OF mul] by (simp add: PAGE_SIZE_def)
    have add: "checked_add (phys_get (mr_start ?r)) (page_index fa * PAGE_SIZE) =
        Some (phys_get (mr_start ?r) + page_index fa * PAGE_SIZE)"
      using p region_wfD(3) [OF wf] by (simp add: checked_add_def um)
    have fa': "allocate fa = (Ok (PhysAddr (phys_get (mr_start ?r) + page_index fa * PAGE_SIZE)),
        fa\<lparr>page_index := page_index fa + 1\<rparr>)"
      using grant mul add by (simp add: allocate.simps [of fa] Let_def not_le [symmetric])
    have suc: "unat (page_index fa + 1) = Suc ?p"
      using p unat_u64_less [of "mr_pages ?r"] by (simp add: unat_word_ariths)
    have "remaining fa = (phys_get (mr_start ?r) + page_index fa * PAGE_SIZE) #
        remaining (fa\<lparr>page_index := page_index fa + 1\<rparr>)"
      using region_frames_run [of ?p 1 ?r] p grant suc by (simp add: remaining_at)
    then show ?thesis by (simp add: fa')
  qed
qed

section \<open>Alignment\<close>

lemma is_power_of_twoD:
  fixes a :: "'a::len word"
  assumes "is_power_of_two a"
  shows "\<exists>k < LENGTH('a). a = 2 ^ k"
proof -
  from assms obtain k where k: "filter (bit a) [0..<LENGTH('a)] = [k]"
    by (auto simp: is_power_of_two_def length_Suc_conv)
  then have mem: "set (filter (bit a) [0..<LENGTH('a)]) = {k}" by simp
  then have kl: "k < LENGTH('a)" and bits: "i < LENGTH('a) \<Longrightarrow> bit a i \<longleftrightarrow> i = k" for i by auto
  have "a = 2 ^ k"
  proof (rule bit_word_eqI)
    fix i assume "i < LENGTH('a)"
    then show "bit a i \<longleftrightarrow> bit (2 ^ k :: 'a word) i"
      using bits [of i] by (auto simp: bit_exp_iff)
  qed
  with kl show ?thesis by blast
qed

lemma and_not_mask_eq: "(x :: 'a::len word) AND NOT (mask k) = push_bit k (drop_bit k x)"
  by (rule bit_word_eqI)
    (auto simp: bit_and_iff bit_not_iff bit_mask_iff bit_push_bit_iff bit_drop_bit_eq)

lemma unat_round_down: "unat (push_bit k (drop_bit k (x :: 'a::len word))) = (unat x div 2 ^ k) * 2 ^ k"
proof -
  have "push_bit k (drop_bit k x) + take_bit k x = x" by (rule bits_ident)
  moreover have "unat (take_bit k x) = unat x mod 2 ^ k"
    by (simp add: unsigned_take_bit_eq flip: take_bit_eq_mod)
  moreover have "push_bit k (drop_bit k x) = x - take_bit k x"
    using \<open>push_bit k (drop_bit k x) + take_bit k x = x\<close> by (metis add_diff_cancel_right')
  moreover have "take_bit k x \<le> x"
    by (simp add: word_le_nat_alt unsigned_take_bit_eq)
  ultimately show ?thesis
    by (simp add: unat_sub minus_mod_eq_div_mult)
qed

lemma round_up:
  fixes a :: u64
  assumes "is_power_of_two a" and "checked_add x (a - 1) = Some v"
  shows "\<exists>k < 64. unat a = 2 ^ k \<and> unat (v AND NOT (a - 1)) mod 2 ^ k = 0 \<and>
     unat x \<le> unat (v AND NOT (a - 1))"
proof -
  obtain k where k: "k < 64" "a = 2 ^ k" using is_power_of_twoD [OF assms(1)] by auto
  then have m: "a - 1 = mask k" by (simp add: mask_eq_exp_minus_1)
  have ua: "unat a = 2 ^ k" using k by (simp add: unat_exp)
  then have "a \<noteq> 0" by auto
  then have "unat (a - 1) = 2 ^ k - 1" by (simp add: unat_minus_one ua)
  then have "unat v = unat x + (2 ^ k - 1)"
    using checked_add_SomeD(2) [OF assms(2)] by simp
  moreover have "unat v mod 2 ^ k \<le> 2 ^ k - 1" by (simp add: less_Suc_eq_le [symmetric])
  moreover have "unat v = (unat v div 2 ^ k) * 2 ^ k + unat v mod 2 ^ k"
    by (simp only: div_mult_mod_eq)
  ultimately have "unat x \<le> (unat v div 2 ^ k) * 2 ^ k" by linarith
  with k(1) ua show ?thesis
    by (intro exI [of _ k]) (simp add: m and_not_mask_eq unat_round_down)
qed

section \<open>Contiguous runs\<close>

definition run_frames :: "phys_addr \<Rightarrow> nat \<Rightarrow> u64 list" where
  "run_frames p n = map (\<lambda>i. phys_get p + of_nat i * PAGE_SIZE) [0..<n]"

definition run_placed :: "memory_region list \<Rightarrow> phys_addr \<Rightarrow> u64 \<Rightarrow> u64 \<Rightarrow> bool" where
  "run_placed m p pages align \<longleftrightarrow>
     (\<exists>r \<in> set m. \<exists>j. mr_kind r = Free \<and> phys_get p = phys_get (mr_start r) + of_nat j * PAGE_SIZE \<and>
        j mod unat align = 0 \<and> j + unat pages \<le> unat (mr_pages r))"

lemma contiguous_grant:
  assumes wf: "\<forall>r \<in> set (fa_map fa). region_wf r" and ri: "region_index fa < length (fa_map fa)"
    and free: "mr_kind (fa_map fa ! region_index fa) = Free"
    and al: "is_power_of_two a" "checked_add (page_index fa) (a - 1) = Some v"
    and en: "checked_add (v AND NOT (a - 1)) pages = Some e" "e \<le> mr_pages (fa_map fa ! region_index fa)"
  shows "\<exists>p. allocate_contiguous_loop pages a fa = (Ok p, fa\<lparr>page_index := e\<rparr>) \<and>
     run_placed (fa_map fa) p pages a \<and>
     (\<exists>sk. remaining fa = sk @ run_frames p (unat pages) @ remaining (fa\<lparr>page_index := e\<rparr>))"
proof -
  let ?r = "fa_map fa ! region_index fa" and ?j = "v AND NOT (a - 1)"
  have rwf: "region_wf ?r" using wf ri by simp
  obtain k where k: "unat a = 2 ^ k" "unat ?j mod 2 ^ k = 0" "unat (page_index fa) \<le> unat ?j"
    using round_up [OF al] by auto
  have ue: "unat e = unat ?j + unat pages" and le: "unat e \<le> unat (mr_pages ?r)"
    using checked_add_SomeD(2) [OF en(1)] en(2) by (auto simp: word_le_nat_alt)
  then have jl: "unat ?j \<le> unat (mr_pages ?r)" by linarith
  have mul: "checked_mul ?j PAGE_SIZE = Some (?j * PAGE_SIZE)"
    using jl region_wfD(2) [OF rwf] by (simp add: checked_mul_def PAGE_SIZE_def)
  have um: "unat (?j * PAGE_SIZE) = unat ?j * 4096"
    using checked_mul_SomeD(2) [OF mul] by (simp add: PAGE_SIZE_def)
  let ?p = "phys_get (mr_start ?r) + ?j * PAGE_SIZE"
  have add: "checked_add (phys_get (mr_start ?r)) (?j * PAGE_SIZE) = Some ?p"
    using jl region_wfD(3) [OF rwf] by (simp add: checked_add_def um)
  have "unat (phys_get (mr_start ?r) mod PAGE_SIZE) = 0" using region_wfD(5) [OF rwf] by simp
  then have "unat ?p mod 4096 = 0"
    using checked_add_SomeD(2) [OF add] um by (simp add: unat_mod PAGE_SIZE_def)
  then have "phys_new ?p = Ok (PhysAddr ?p)"
    by (simp add: phys_new_def PAGE_SIZE_def word_arith_nat_mod)
  then have res: "allocate_contiguous_loop pages a fa = (Ok (PhysAddr ?p), fa\<lparr>page_index := e\<rparr>)"
    using ri free al en mul add by (simp add: allocate_contiguous_loop.simps [of pages a fa] Let_def)
  have placed: "run_placed (fa_map fa) (PhysAddr ?p) pages a"
    using ri free k ue le by (auto simp: run_placed_def intro!: bexI [of _ ?r] exI [of _ "unat ?j"])
  let ?F = "region_frames ?r"
  have "drop (unat (page_index fa)) ?F =
      take (unat ?j - unat (page_index fa)) (drop (unat (page_index fa)) ?F) @ drop (unat ?j) ?F"
    using k(3) by (metis append_take_drop_id drop_drop le_add_diff_inverse2)
  also have "drop (unat ?j) ?F = run_frames (PhysAddr ?p) (unat pages) @ drop (unat e) ?F"
    using region_frames_run [of "unat ?j" "unat pages" ?r] ue le by (simp add: run_frames_def)
  finally have "\<exists>sk. remaining fa = sk @ run_frames (PhysAddr ?p) (unat pages) @
      remaining (fa\<lparr>page_index := e\<rparr>)"
    using ri free by (auto simp: remaining_at)
  with res placed show ?thesis by blast
qed

lemma allocate_contiguous_loop_spec:
  "\<forall>r \<in> set (fa_map fa). region_wf r \<Longrightarrow> is_power_of_two a \<Longrightarrow>
     allocate_contiguous_loop pages a fa = (q, fa') \<Longrightarrow>
     fa_map fa' = fa_map fa \<and>
     (\<forall>p. q = Ok p \<longrightarrow> run_placed (fa_map fa) p pages a) \<and>
     (\<exists>sk. remaining fa = sk @ (case q of Ok p \<Rightarrow> run_frames p (unat pages) | Err _ \<Rightarrow> []) @ remaining fa')"
proof (induction pages a fa rule: allocate_contiguous_loop.induct)
  case (1 pages a fa)
  let ?r = "fa_map fa ! region_index fa"
  let ?n = "fa\<lparr>region_index := region_index fa + 1, page_index := 0\<rparr>"
  note simps = allocate_contiguous_loop.simps [of pages a fa]
  have nxt: "\<exists>sk. remaining fa = sk @ remaining ?n" if "region_index fa < length (fa_map fa)"
    using that by (auto simp: remaining_at remaining_next)
  show ?case
  proof (cases "region_index fa < length (fa_map fa)")
    case False
    then show ?thesis using "1.prems"(3) by (auto simp: simps)
  next
    case ri: True
    show ?thesis
    proof (cases "mr_kind ?r = Free")
      case False
      then have "allocate_contiguous_loop pages a ?n = (q, fa')"
        using ri "1.prems"(3) by (simp add: simps Let_def)
      with "1.IH"(1) [OF ri refl refl False] "1.prems" nxt [OF ri] show ?thesis by fastforce
    next
      case free: True
      show ?thesis
      proof (cases "checked_add (page_index fa) (a - 1)")
        case None
        then show ?thesis using ri free "1.prems"(3) by (auto simp: simps Let_def)
      next
        case (Some v)
        note v = Some
        show ?thesis
        proof (cases "checked_add (v AND NOT (a - 1)) pages")
          case None
          then show ?thesis using ri free v "1.prems"(3) by (auto simp: simps Let_def)
        next
          case (Some e)
          show ?thesis
          proof (cases "e \<le> mr_pages ?r")
            case True
            from contiguous_grant [OF "1.prems"(1) ri free "1.prems"(2) v Some True] "1.prems"(3)
            show ?thesis by auto
          next
            case False
            then have "allocate_contiguous_loop pages a ?n = (q, fa')"
              using ri free v Some "1.prems"(3) by (simp add: simps Let_def)
            with "1.IH"(2) [OF ri refl refl _ v refl Some False] free "1.prems" nxt [OF ri]
            show ?thesis by fastforce
          qed
        qed
      qed
    qed
  qed
qed

lemma serve_spec:
  assumes "\<forall>r \<in> set (fa_map fa). region_wf r" and "serve q fa = (a, fa')"
  shows "fa_map fa' = fa_map fa \<and>
     (\<exists>sk. remaining fa = sk @ (case a of Ok p \<Rightarrow> run_frames p (request_pages q) | Err _ \<Rightarrow> []) @
        remaining fa')"
proof (cases q)
  case Single
  with allocate_spec [OF assms(1)] assms(2) show ?thesis
    by (cases "remaining fa") (auto simp: run_frames_def)
next
  case (Contiguous n al)
  then show ?thesis
    using assms allocate_contiguous_loop_spec [OF assms(1), of al n a fa']
    by (cases a) (auto simp: allocate_contiguous_def split: if_splits)
qed

lemma granted_subseq:
  "\<forall>r \<in> set (fa_map fa). region_wf r \<Longrightarrow> subseq (granted qs fa) (remaining fa)"
proof (induction qs arbitrary: fa)
  case (Cons q qs)
  obtain a fa' where s: "serve q fa = (a, fa')" by fastforce
  obtain sk where fa': "fa_map fa' = fa_map fa" and sk: "remaining fa = sk @
      (case a of Ok p \<Rightarrow> run_frames p (request_pages q) | Err _ \<Rightarrow> []) @ remaining fa'"
    using serve_spec [OF Cons.prems s] by auto
  have "subseq (granted qs fa') (remaining fa')" using Cons fa' by simp
  then show ?case
    unfolding sk using s
    by (cases a) (auto simp: run_frames_def intro: list_emb_append_mono list_emb_append2)
qed simp

lemma granted_singles:
  "\<forall>r \<in> set (fa_map fa). region_wf r \<Longrightarrow> granted (replicate n Single) fa = take n (remaining fa)"
proof (induction n arbitrary: fa)
  case (Suc n)
  obtain a fa' where s: "allocate fa = (a, fa')" by fastforce
  with Suc.IH [of fa'] allocate_spec [OF Suc.prems] Suc.prems show ?case
    by (cases "remaining fa") auto
qed simp

section \<open>Properties\<close>

text \<open>
  Property C10.  Whatever mixture of single-frame and contiguous requests early boot makes, the
  frames it is granted are pairwise distinct and are, in order, a subsequence of the frames of
  the map's \<open>Free\<close> regions: no frame is handed out twice and none comes from a reserved region.
\<close>

theorem frames_granted_once:
  assumes "map_wf m"
  shows "subseq (granted qs (allocator_new m)) (free_frames m) \<and> distinct (granted qs (allocator_new m))"
proof -
  have "\<forall>r \<in> set (fa_map (allocator_new m)). region_wf r"
    using assms by (simp add: map_wf_def allocator_new_def)
  from granted_subseq [OF this] have "subseq (granted qs (allocator_new m)) (free_frames m)"
    by (simp add: remaining_new)
  with map_wf_distinct [OF assms] show ?thesis by (auto simp: subseq_conv_nths distinct_nthsI)
qed

definition sample_map :: "memory_region list" where
  "sample_map = [\<lparr>mr_start = PhysAddr 0, mr_pages = 2, mr_kind = Firmware\<rparr>,
                 \<lparr>mr_start = PhysAddr 0x2000, mr_pages = 2, mr_kind = Free\<rparr>,
                 \<lparr>mr_start = PhysAddr 0x5000, mr_pages = 1, mr_kind = Free\<rparr>]"

lemma sample_map_wf: "map_wf sample_map"
  by (simp add: sample_map_def map_wf_def map_new_def region_wf_def region_new_def phys_new_def
      PAGE_SIZE_def checked_add_def region_end_def less_phys_addr_def)

theorem frames_granted_once_witness:
  "map_wf sample_map \<and>
   distinct (granted [Single, Contiguous 1 1, Single] (allocator_new sample_map))"
  using frames_granted_once [OF sample_map_wf] sample_map_wf by blast

text \<open>
  Repeated single-frame allocation enumerates exactly the free frames of the map,
  in address order: after \<open>n\<close> calls the first \<open>n\<close> of them have been granted, and once all
  are gone \<open>allocate\<close> reports \<open>OutOfMemory\<close>.
\<close>

theorem allocate_enumerates_free_frames:
  assumes "map_wf m"
  shows "granted (replicate n Single) (allocator_new m) = take n (free_frames m) \<and>
     (free_frames m = [] \<longrightarrow> fst (allocate (allocator_new m)) = Err OutOfMemory)"
proof -
  have wf: "\<forall>r \<in> set (fa_map (allocator_new m)). region_wf r"
    using assms by (simp add: map_wf_def allocator_new_def)
  show ?thesis
    using granted_singles [OF wf] allocate_spec [OF wf] by (auto simp: remaining_new)
qed

theorem allocate_enumerates_free_frames_witness:
  "granted (replicate 5 Single) (allocator_new sample_map) = [0x2000, 0x3000, 0x5000]"
  using allocate_enumerates_free_frames [OF sample_map_wf, of 5]
  by (simp add: sample_map_def free_frames_def region_frames_def PAGE_SIZE_def upt_rec)

text \<open>
  A contiguous grant lies inside one \<open>Free\<close> region and starts a multiple of
  \<open>alignment_pages\<close> pages after the start of that region.  The alignment is relative to the
  region, not to physical address zero.
\<close>

theorem contiguous_grant_aligned_in_region:
  assumes "map_wf m" and "allocate_contiguous pages align (allocator_new m) = (Ok p, fa')"
  shows "\<exists>r \<in> set m. \<exists>j. mr_kind r = Free \<and>
     phys_get p = phys_get (mr_start r) + of_nat j * PAGE_SIZE \<and>
     j mod unat align = 0 \<and> j + unat pages \<le> unat (mr_pages r)"
proof -
  have "\<forall>r \<in> set (fa_map (allocator_new m)). region_wf r"
    using assms(1) by (simp add: map_wf_def allocator_new_def)
  from allocate_contiguous_loop_spec [OF this, of align pages "Ok p" fa'] assms(2)
  have "run_placed m p pages align"
    by (auto simp: allocate_contiguous_def allocator_new_def split: if_splits)
  then show ?thesis by (simp add: run_placed_def)
qed

theorem contiguous_grant_aligned_in_region_witness:
  "\<exists>fa'. allocate_contiguous 1 2 (allocator_new
       [\<lparr>mr_start = PhysAddr 0x1000, mr_pages = 4, mr_kind = Free\<rparr>]) = (Ok (PhysAddr 0x1000), fa') \<and>
     (0x1000 :: u64) mod (2 * PAGE_SIZE) \<noteq> 0"
proof -
  let ?m = "[\<lparr>mr_start = PhysAddr 0x1000, mr_pages = 4, mr_kind = Free\<rparr>]"
  have wf: "map_wf ?m"
    by (simp add: map_wf_def map_new_def region_wf_def region_new_def phys_new_def PAGE_SIZE_def
        checked_add_def)
  have ap: "is_power_of_two (2 :: u64)" by (simp add: is_power_of_two_def upt_rec)
  have "allocate_contiguous 1 2 (allocator_new ?m) =
      (Ok (PhysAddr 0x1000), (allocator_new ?m)\<lparr>page_index := 1\<rparr>)"
    using ap by (simp add: allocate_contiguous_def allocate_contiguous_loop.simps allocator_new_def
        Let_def checked_add_def checked_mul_def phys_new_def PAGE_SIZE_def)
  with contiguous_grant_aligned_in_region [OF wf this] show ?thesis
    by (auto simp: PAGE_SIZE_def)
qed

end
