(* ===== verification/Paging.thy ===== *)
theory Paging
  imports Memory
begin

text \<open>
  The paging vocabulary of \<open>crates/mrml-kernel/src/arch/x86_64.rs\<close>: canonical virtual
  addresses and their four table indices, page permissions, and the hardware leaf and table
  entries, with the canonicality test of \<open>arch/x86_64/trap.rs\<close>.
\<close>

section \<open>Definitions\<close>

definition MAX_PHYSICAL_ADDRESS :: u64 where "MAX_PHYSICAL_ADDRESS = 2 ^ 52 - PAGE_SIZE"
definition ADDRESS_MASK :: u64 where "ADDRESS_MASK = 0x000ffffffffff000"

datatype page_error = NonCanonical | PageUnaligned | PhysicalAddressTooLarge | WritableExecutable | InvalidEntry

datatype virt_addr = VirtAddr (virt_get: u64)

definition virt_new :: "u64 \<Rightarrow> (virt_addr, page_error) result" where
  "virt_new address =
     (let high = drop_bit 48 address; sign = drop_bit 47 address AND 1 in
      if (sign = 0 \<and> high \<noteq> 0) \<or> (sign = 1 \<and> high \<noteq> 0xffff) then Err NonCanonical
      else if address mod PAGE_SIZE \<noteq> 0 then Err PageUnaligned
      else Ok (VirtAddr address))"

definition pml4_index :: "virt_addr \<Rightarrow> nat" where
  "pml4_index v = unat (drop_bit 39 (virt_get v) AND 0x1ff)"
definition pdpt_index :: "virt_addr \<Rightarrow> nat" where
  "pdpt_index v = unat (drop_bit 30 (virt_get v) AND 0x1ff)"
definition directory_index :: "virt_addr \<Rightarrow> nat" where
  "directory_index v = unat (drop_bit 21 (virt_get v) AND 0x1ff)"
definition table_index :: "virt_addr \<Rightarrow> nat" where
  "table_index v = unat (drop_bit 12 (virt_get v) AND 0x1ff)"

definition canonical :: "u64 \<Rightarrow> bool" where
  "canonical address \<longleftrightarrow> signed_drop_bit 16 (push_bit 16 address) = address"

datatype page_permissions = PagePermissions (perm_bits: u8)

definition KERNEL_READ :: page_permissions where "KERNEL_READ = PagePermissions 0"
definition KERNEL_READ_WRITE :: page_permissions where "KERNEL_READ_WRITE = PagePermissions (push_bit 0 1)"
definition KERNEL_READ_EXECUTE :: page_permissions where "KERNEL_READ_EXECUTE = PagePermissions (push_bit 1 1)"
definition KERNEL_LOW_READ_WRITE :: page_permissions where
  "KERNEL_LOW_READ_WRITE = PagePermissions (push_bit 0 1 OR push_bit 3 1)"
definition KERNEL_LOW_READ_EXECUTE :: page_permissions where
  "KERNEL_LOW_READ_EXECUTE = PagePermissions (push_bit 1 1 OR push_bit 3 1)"
definition KERNEL_SHARED_READ :: page_permissions where "KERNEL_SHARED_READ = PagePermissions (push_bit 3 1)"
definition USER_READ :: page_permissions where "USER_READ = PagePermissions (push_bit 2 1)"
definition USER_READ_WRITE :: page_permissions where
  "USER_READ_WRITE = PagePermissions (push_bit 2 1 OR push_bit 0 1)"
definition USER_READ_EXECUTE :: page_permissions where
  "USER_READ_EXECUTE = PagePermissions (push_bit 2 1 OR push_bit 1 1)"

definition perm_writable :: "page_permissions \<Rightarrow> bool" where
  "perm_writable p \<longleftrightarrow> perm_bits p AND push_bit 0 1 \<noteq> 0"
definition perm_executable :: "page_permissions \<Rightarrow> bool" where
  "perm_executable p \<longleftrightarrow> perm_bits p AND push_bit 1 1 \<noteq> 0"
definition perm_user :: "page_permissions \<Rightarrow> bool" where
  "perm_user p \<longleftrightarrow> perm_bits p AND push_bit 2 1 \<noteq> 0"
definition perm_low_supervisor_mmio :: "page_permissions \<Rightarrow> bool" where
  "perm_low_supervisor_mmio p \<longleftrightarrow> perm_bits p AND push_bit 3 1 \<noteq> 0"

datatype page_table_entry = PageTableEntry (entry_bits: u64)

definition entry_leaf :: "phys_addr \<Rightarrow> page_permissions \<Rightarrow> (page_table_entry, page_error) result" where
  "entry_leaf frame permissions =
     (if phys_get frame > MAX_PHYSICAL_ADDRESS then Err PhysicalAddressTooLarge
      else if perm_writable permissions \<and> perm_executable permissions then Err WritableExecutable
      else Ok (PageTableEntry
        (phys_get frame OR 1 OR (if perm_writable permissions then push_bit 1 1 else 0)
         OR (if perm_user permissions then push_bit 2 1 else 0)
         OR (if \<not> perm_executable permissions then push_bit 63 1 else 0))))"

definition entry_table :: "phys_addr \<Rightarrow> bool \<Rightarrow> (page_table_entry, page_error) result" where
  "entry_table frame user =
     (if phys_get frame > MAX_PHYSICAL_ADDRESS then Err PhysicalAddressTooLarge
      else Ok (PageTableEntry (phys_get frame OR 1 OR push_bit 1 1 OR push_bit 2 (if user then 1 else 0))))"

definition entry_frame :: "page_table_entry \<Rightarrow> (phys_addr, page_error) result" where
  "entry_frame e =
     (if entry_bits e AND 1 = 0 then Err InvalidEntry
      else case phys_new (entry_bits e AND ADDRESS_MASK) of
             Ok address \<Rightarrow> Ok address
           | Err _ \<Rightarrow> Err InvalidEntry)"

section \<open>Bits of addresses\<close>

lemma word_and_bit: "(w :: 'a::len word) AND push_bit n 1 = 0 \<longleftrightarrow> \<not> bit w n"
  by (metis and_exp_eq_0_iff_not_bit push_bit_of_1)

lemma and_1_eq_0_iff: "(w :: 'a::len word) AND 1 = 0 \<longleftrightarrow> \<not> bit w 0"
  using word_and_bit [of w 0] by simp

lemma aligned_iff_bits:
  fixes a :: u64
  shows "a mod PAGE_SIZE = 0 \<longleftrightarrow> (\<forall>i < 12. \<not> bit a i)"
proof -
  have "a mod PAGE_SIZE = take_bit 12 a" by (simp add: PAGE_SIZE_def take_bit_eq_mod)
  also have "\<dots> = 0 \<longleftrightarrow> (\<forall>i < 12. \<not> bit a i)"
    by (auto simp: bit_eq_iff bit_take_bit_iff)
  finally show ?thesis .
qed

lemma drop_bit_eq_0_iff_bits: "drop_bit n (a :: u64) = 0 \<longleftrightarrow> (\<forall>i \<ge> n. \<not> bit a i)"
proof
  assume "drop_bit n a = 0"
  then have "\<not> bit (drop_bit n a) k" for k by simp
  then show "\<forall>i \<ge> n. \<not> bit a i" by (metis bit_drop_bit_eq comp_apply le_Suc_ex)
next
  assume "\<forall>i \<ge> n. \<not> bit a i"
  then show "drop_bit n a = 0" by (intro bit_word_eqI) (simp add: bit_drop_bit_eq)
qed

lemma u64_eq_iff: "(a :: u64) = b \<longleftrightarrow> (\<forall>i < 64. bit a i = bit b i)"
  by (simp add: bit_eq_iff)

lemma bit_sign_extend:
  "i < 64 \<Longrightarrow> bit (signed_drop_bit 16 (push_bit 16 (a :: u64))) i = bit a (if 48 \<le> i then 47 else i)"
  by (simp add: bit_signed_drop_bit_iff bit_push_bit_iff)

lemma bit_flag: "bit (if c then push_bit n 1 else (0 :: u64)) i \<longleftrightarrow> c \<and> i = n \<and> n < 64"
  by (auto simp: bit_push_bit_iff bit_1_iff bit_exp_iff)

lemma from_47_iff: "(\<forall>i :: nat. 47 \<le> i \<longrightarrow> i < 64 \<longrightarrow> P i) \<longleftrightarrow> P 47 \<and> (\<forall>i. 48 \<le> i \<longrightarrow> i < 64 \<longrightarrow> P i)"
proof -
  have "47 \<le> i \<longleftrightarrow> i = 47 \<or> 48 \<le> i" for i :: nat by linarith
  then show ?thesis by auto
qed

lemma canonical_iff_bits: "canonical a \<longleftrightarrow> (\<forall>i. 48 \<le> i \<longrightarrow> i < 64 \<longrightarrow> bit a i = bit a 47)"
proof -
  have "canonical a \<longleftrightarrow> (\<forall>i < 64. bit (signed_drop_bit 16 (push_bit 16 a)) i = bit a i)"
    unfolding canonical_def by (rule u64_eq_iff)
  also have "\<dots> \<longleftrightarrow> (\<forall>i < 64. bit a (if 48 \<le> i then 47 else i) = bit a i)"
    by (simp only: bit_sign_extend cong: imp_cong)
  finally show ?thesis by auto
qed

lemma below_split_canonical: "(a :: u64) < push_bit 47 1 \<Longrightarrow> canonical (a AND m)"
proof -
  assume "a < push_bit 47 1"
  then have "unat a < 2 ^ 47" by (simp add: word_less_nat_alt)
  then have "take_bit 47 a = a"
    by (simp add: word_unat_eq_iff unsigned_take_bit_eq take_bit_nat_eq_self_iff)
  then have "\<not> bit a i" if "47 \<le> i" for i using that by (metis bit_take_bit_iff not_le)
  then show ?thesis by (simp add: canonical_iff_bits bit_and_iff)
qed

lemma bit_u64_less: "bit (a :: u64) i \<Longrightarrow> i < 64"
  using bit_imp_le_length [of a i] by simp

lemma high_ones_iff: "drop_bit 48 (a :: u64) = 0xffff \<longleftrightarrow> (\<forall>i. 48 \<le> i \<longrightarrow> i < 64 \<longrightarrow> bit a i)"
proof -
  have "(0xffff :: u64) = mask 16" by (simp add: mask_eq_exp_minus_1)
  then have "drop_bit 48 a = 0xffff \<longleftrightarrow> (\<forall>k < 64. bit (drop_bit 48 a) k = (k < 16))"
    by (simp add: bit_eq_iff bit_mask_iff)
  also have "\<dots> \<longleftrightarrow> (\<forall>i. 48 \<le> i \<longrightarrow> i < 64 \<longrightarrow> bit a i)" (is "?L \<longleftrightarrow> ?R")
  proof
    assume L: ?L
    show ?R
    proof (intro allI impI)
      fix i :: nat assume "48 \<le> i" "i < 64"
      then have "bit (drop_bit 48 a) (i - 48)" using L by simp
      then show "bit a i" using \<open>48 \<le> i\<close> by (simp add: bit_drop_bit_eq)
    qed
  next
    assume R: ?R
    show ?L using R bit_u64_less by (fastforce simp: bit_drop_bit_eq)
  qed
  finally show ?thesis .
qed

lemma virt_new_iff: "virt_new a = Ok v \<longleftrightarrow> canonical a \<and> a mod PAGE_SIZE = 0 \<and> v = VirtAddr a"
proof -
  have sign: "drop_bit 47 a AND 1 = (if bit a 47 then 1 else 0)"
    by (rule bit_word_eqI) (auto simp: bit_and_iff bit_drop_bit_eq bit_1_iff intro: gr0I)
  have zero: "drop_bit 48 a = 0 \<longleftrightarrow> (\<forall>i. 48 \<le> i \<longrightarrow> i < 64 \<longrightarrow> \<not> bit a i)"
    using bit_u64_less by (auto simp: drop_bit_eq_0_iff_bits)
  have "canonical a \<longleftrightarrow> (if bit a 47 then drop_bit 48 a = 0xffff else drop_bit 48 a = 0)"
    unfolding canonical_iff_bits high_ones_iff zero by auto
  then show ?thesis by (auto simp: virt_new_def sign Let_def)
qed

section \<open>Entries\<close>

lemma phys_new_okD: "phys_new a = Ok f \<Longrightarrow> phys_get f mod PAGE_SIZE = 0"
  by (metis phys_addr.sel phys_new_def result.distinct(1) result.inject(1))

lemma address_mask_bits: "bit ADDRESS_MASK i \<longleftrightarrow> 12 \<le> i \<and> i < 52"
proof -
  have e: "ADDRESS_MASK = push_bit 12 (mask 40)"
    by (simp add: ADDRESS_MASK_def mask_eq_exp_minus_1 push_bit_eq_mult)
  show ?thesis unfolding e by (simp only: bit_push_bit_iff bit_mask_iff) auto
qed

lemma frame_bits:
  assumes "phys_get f \<le> MAX_PHYSICAL_ADDRESS" and "phys_get f mod PAGE_SIZE = 0"
  shows "bit (phys_get f) i \<Longrightarrow> 12 \<le> i \<and> i < 52"
proof -
  assume b: "bit (phys_get f) i"
  have "phys_get f < 2 ^ 52" using assms(1) by (simp add: MAX_PHYSICAL_ADDRESS_def PAGE_SIZE_def word_le_nat_alt word_less_nat_alt)
  then have "take_bit 52 (phys_get f) = phys_get f"
    by (simp add: word_unat_eq_iff unsigned_take_bit_eq take_bit_nat_eq_self_iff word_less_nat_alt)
  then have "i < 52" using b by (metis bit_take_bit_iff)
  moreover have "12 \<le> i" using assms(2) b by (auto simp: aligned_iff_bits not_less [symmetric])
  ultimately show ?thesis by simp
qed

lemma entry_frame_of_bits:
  assumes "phys_new a = Ok f" and "phys_get f \<le> MAX_PHYSICAL_ADDRESS"
    and "\<And>i. bit e i \<longleftrightarrow> bit (phys_get f) i \<or> flags i" and "\<And>i. flags i \<Longrightarrow> i < 12 \<or> 52 \<le> i" and "flags 0"
  shows "entry_frame (PageTableEntry e) = Ok f"
proof -
  have f: "phys_get f mod PAGE_SIZE = 0"
    using assms(1) by (rule phys_new_okD)
  have "e AND ADDRESS_MASK = phys_get f"
  proof (rule bit_word_eqI)
    fix i
    show "bit (e AND ADDRESS_MASK) i = bit (phys_get f) i"
      using frame_bits [OF assms(2) f, of i] assms(4) [of i]
      by (auto simp: bit_and_iff assms(3) address_mask_bits)
  qed
  moreover have "e AND 1 \<noteq> 0" using assms(3,5) by (simp add: and_1_eq_0_iff)
  ultimately show ?thesis using f by (simp add: entry_frame_def phys_new_def)
qed

lemma bit_leaf:
  assumes "entry_leaf f p = Ok e"
  shows "bit (entry_bits e) i \<longleftrightarrow> bit (phys_get f) i \<or>
     (i = 0 \<or> i = 1 \<and> perm_writable p \<or> i = 2 \<and> perm_user p \<or> i = 63 \<and> \<not> perm_executable p)"
proof -
  have "entry_bits e = phys_get f OR 1 OR (if perm_writable p then push_bit 1 1 else 0)
      OR (if perm_user p then push_bit 2 1 else 0) OR (if \<not> perm_executable p then push_bit 63 1 else 0)"
    using assms unfolding entry_leaf_def by (auto simp del: push_bit_of_1 split: if_split_asm)
  then show ?thesis by (simp only: bit_or_iff bit_flag bit_1_iff) auto
qed

lemma bit_table:
  assumes "entry_table f user = Ok e"
  shows "bit (entry_bits e) i \<longleftrightarrow> bit (phys_get f) i \<or> (i = 0 \<or> i = 1 \<or> i = 2 \<and> user)"
proof -
  have "entry_bits e = phys_get f OR 1 OR (if True then push_bit 1 1 else 0)
      OR (if user then push_bit 2 1 else 0)"
    using assms unfolding entry_table_def by (auto simp del: push_bit_of_1 split: if_split_asm)
  then show ?thesis by (simp only: bit_or_iff bit_flag bit_1_iff) auto
qed

section \<open>Table indices\<close>

lemma virt_indices_inj:
  assumes "virt_new a = Ok v" and "virt_new b = Ok w"
    and "pml4_index v = pml4_index w" and "pdpt_index v = pdpt_index w"
    and "directory_index v = directory_index w" and "table_index v = table_index w"
  shows "a = b"
proof -
  have v: "canonical a" "a mod PAGE_SIZE = 0" "v = VirtAddr a" and w: "canonical b" "b mod PAGE_SIZE = 0" "w = VirtAddr b"
    using assms(1,2) by (auto simp: virt_new_iff)
  have m: "(0x1ff :: u64) = mask 9" by (simp add: mask_eq_exp_minus_1)
  have field: "bit a (n + k) = bit b (n + k)"
    if "unat (drop_bit n a AND 0x1ff) = unat (drop_bit n b AND 0x1ff)" "k < 9" for n k
  proof -
    have "bit (drop_bit n a AND 0x1ff) k = bit (drop_bit n b AND 0x1ff) k"
      using that(1) by (metis word_unat_eq_iff)
    then show ?thesis using that(2) unfolding m by (simp add: bit_and_iff bit_mask_iff bit_drop_bit_eq)
  qed
  have idx: "k < 9 \<Longrightarrow> bit a (39 + k) = bit b (39 + k)" "k < 9 \<Longrightarrow> bit a (30 + k) = bit b (30 + k)"
    "k < 9 \<Longrightarrow> bit a (21 + k) = bit b (21 + k)" "k < 9 \<Longrightarrow> bit a (12 + k) = bit b (12 + k)" for k
    using assms(3-6) field
    by (simp_all add: pml4_index_def pdpt_index_def directory_index_def table_index_def v w)
  have "bit a i = bit b i" if i: "i < 64" for i
  proof -
    consider "i < 12" | "12 \<le> i" "i < 21" | "21 \<le> i" "i < 30" | "30 \<le> i" "i < 39" | "39 \<le> i" "i < 48" | "48 \<le> i"
      by linarith
    then show ?thesis
    proof cases
      case 1
      then show ?thesis using v(2) w(2) by (auto simp: aligned_iff_bits)
    next
      case 2
      then show ?thesis using idx(4) [of "i - 12"] by simp
    next
      case 3
      then show ?thesis using idx(3) [of "i - 21"] by simp
    next
      case 4
      then show ?thesis using idx(2) [of "i - 30"] by simp
    next
      case 5
      then show ?thesis using idx(1) [of "i - 39"] by simp
    next
      case 6
      then show ?thesis using v(1) w(1) i idx(1) [of 8] by (simp add: canonical_iff_bits)
    qed
  qed
  then show "a = b" by (simp add: u64_eq_iff)
qed

section \<open>Properties\<close>

text \<open>
  Hardware leaf entries are faithful and never writable and executable at once:
  an entry is built exactly for frames below the physical limit and permissions that are not
  both, it gives back its frame, its writable and user bits are those of the permissions, and
  no-execute is set exactly when execution was not asked for.
\<close>

theorem leaf_entry_faithful:
  assumes "phys_new a = Ok f"
  shows "case entry_leaf f p of
     Ok e \<Rightarrow> entry_frame e = Ok f \<and> bit (entry_bits e) 0 \<and>
       bit (entry_bits e) 1 = perm_writable p \<and> bit (entry_bits e) 2 = perm_user p \<and>
       bit (entry_bits e) 63 = (\<not> perm_executable p) \<and>
       \<not> (bit (entry_bits e) 1 \<and> \<not> bit (entry_bits e) 63)
   | Err x \<Rightarrow> (x = PhysicalAddressTooLarge \<and> MAX_PHYSICAL_ADDRESS < phys_get f) \<or>
       (x = WritableExecutable \<and> perm_writable p \<and> perm_executable p)"
proof (cases "entry_leaf f p")
  case (Ok e)
  have lim: "phys_get f \<le> MAX_PHYSICAL_ADDRESS" and wx: "\<not> (perm_writable p \<and> perm_executable p)"
    using Ok by (auto simp: entry_leaf_def split: if_splits)
  have al: "phys_get f mod PAGE_SIZE = 0" using assms by (rule phys_new_okD)
  note fb = frame_bits [OF lim al]
  have low: "\<not> bit (phys_get f) 0" "\<not> bit (phys_get f) 1" "\<not> bit (phys_get f) 2" "\<not> bit (phys_get f) 63"
    using fb [of 0] fb [of 1] fb [of 2] fb [of 63] by auto
  have "entry_frame (PageTableEntry (entry_bits e)) = Ok f"
    by (rule entry_frame_of_bits [OF assms lim bit_leaf [OF Ok]]) auto
  moreover have "bit (entry_bits e) 0" "bit (entry_bits e) 1 = perm_writable p"
    "bit (entry_bits e) 2 = perm_user p" "bit (entry_bits e) 63 = (\<not> perm_executable p)"
    unfolding bit_leaf [OF Ok] using low by simp_all
  ultimately show ?thesis unfolding Ok result.case using wx by simp
next
  case (Err x)
  then show ?thesis by (auto simp: entry_leaf_def split: if_splits)
qed

theorem leaf_entry_faithful_witness:
  "\<exists>e. entry_leaf (PhysAddr 0x2000) USER_READ_WRITE = Ok e \<and> entry_frame e = Ok (PhysAddr 0x2000) \<and>
     bit (entry_bits e) 63"
proof -
  have new: "phys_new 0x2000 = Ok (PhysAddr 0x2000)" by (simp add: phys_new_def PAGE_SIZE_def)
  have "\<not> perm_executable USER_READ_WRITE" "\<exists>e. entry_leaf (PhysAddr 0x2000) USER_READ_WRITE = Ok e"
    by (simp_all add: entry_leaf_def MAX_PHYSICAL_ADDRESS_def PAGE_SIZE_def USER_READ_WRITE_def
        perm_executable_def)
  then show ?thesis using leaf_entry_faithful [OF new, of USER_READ_WRITE] by auto
qed

text \<open>
  Property C40.  A virtual address is accepted exactly when it is canonical, in the sense of the
  trap handler's sign-extension test, and page aligned; accepted addresses are determined by
  their four table indices, so two different pages never share all of them.
\<close>

theorem virt_addr_indices_unique:
  "(virt_new a = Ok v \<longleftrightarrow> canonical a \<and> a mod PAGE_SIZE = 0 \<and> v = VirtAddr a) \<and>
   (virt_new a = Ok v \<and> virt_new b = Ok w \<and> pml4_index v = pml4_index w \<and> pdpt_index v = pdpt_index w \<and>
      directory_index v = directory_index w \<and> table_index v = table_index w \<longrightarrow> a = b)"
  by (intro conjI impI virt_new_iff) (elim conjE, rule virt_indices_inj)

theorem virt_addr_indices_unique_witness:
  "virt_new 0xffff800000000000 = Ok (VirtAddr 0xffff800000000000) \<and>
   table_index (VirtAddr 0xffff800000000000) = table_index (VirtAddr 0xffff800000000000)"
proof -
  have "canonical 0xffff800000000000" by code_simp
  then show ?thesis
    using virt_addr_indices_unique [of "0xffff800000000000" "VirtAddr 0xffff800000000000" "0xffff800000000000" "VirtAddr 0xffff800000000000"]
    by (simp add: PAGE_SIZE_def)
qed

end
