(* ===== verification/Slots.thy ===== *)
theory Slots
  imports Kernel_Prelude
begin

text \<open>
  The fixed-size arrays of optional entries with a key inside the entry, which the kernel uses
  for saved contexts, task domains, services and device leases.  The code searches them with
  \<open>position\<close> on the slots or \<open>flatten\<close> and \<open>find\<close> on the entries; with distinct keys an array
  is a partial map, and the updates the code makes are updates of that map.
\<close>

section \<open>Definitions\<close>

definition slot_of :: "('a \<Rightarrow> 'k) \<Rightarrow> 'k \<Rightarrow> 'a option list \<Rightarrow> nat option" where
  "slot_of key k xs = position (is_some_and (\<lambda>a. key a = k)) xs"

definition lookup :: "('a \<Rightarrow> 'k) \<Rightarrow> 'k \<Rightarrow> 'a option list \<Rightarrow> 'a option" where
  "lookup key k xs = find (\<lambda>a. key a = k) (flatten xs)"

definition free_slot :: "'a option list \<Rightarrow> nat option" where
  "free_slot xs = position (\<lambda>x. x = None) xs"

text \<open>A write through the reference that \<open>iter_mut().flatten().find(..)\<close> returns.\<close>

definition modify :: "('a \<Rightarrow> 'k) \<Rightarrow> 'k \<Rightarrow> ('a \<Rightarrow> 'a) \<Rightarrow> 'a option list \<Rightarrow> 'a option list" where
  "modify key k f xs = (case slot_of key k xs of None \<Rightarrow> xs | Some i \<Rightarrow> xs[i := map_option f (xs ! i)])"

definition keys_distinct :: "('a \<Rightarrow> 'k) \<Rightarrow> 'a option list \<Rightarrow> bool" where
  "keys_distinct key xs \<longleftrightarrow> (\<forall>i < length xs. \<forall>j < length xs. \<forall>a b.
     xs ! i = Some a \<longrightarrow> xs ! j = Some b \<longrightarrow> key a = key b \<longrightarrow> i = j)"

abbreviation slots_map :: "('a \<Rightarrow> 'k) \<Rightarrow> 'a option list \<Rightarrow> 'k \<Rightarrow> 'a option" where
  "slots_map key xs \<equiv> (\<lambda>k. lookup key k xs)"

section \<open>Search\<close>

lemma slot_of_SomeE:
  assumes "slot_of key k xs = Some i"
  obtains a where "i < length xs" "xs ! i = Some a" "key a = k" "lookup key k xs = Some a"
proof -
  from assms have i: "i < length xs" "is_some_and (\<lambda>a. key a = k) (xs ! i)"
    by (auto simp: slot_of_def dest: position_SomeD)
  then obtain a where a: "xs ! i = Some a" "key a = k" by (auto simp: is_some_and_iff)
  have "position (is_some_and (\<lambda>a. key a = k)) xs = Some i \<Longrightarrow> find (\<lambda>a. key a = k) (flatten xs) = Some a"
    using a
  proof (induction xs arbitrary: i)
    case (Cons x xs)
    then show ?case by (cases x; cases i) (auto split: if_splits)
  qed simp
  then show thesis using that i(1) a assms by (simp add: slot_of_def lookup_def)
qed

lemma slot_of_None_iff: "slot_of key k xs = None \<longleftrightarrow> lookup key k xs = None"
  by (auto simp: slot_of_def lookup_def position_None_iff find_None_iff set_flatten is_some_and_iff)

lemma lookup_SomeD:
  assumes "lookup key k xs = Some a"
  shows "key a = k" and "\<exists>i < length xs. xs ! i = Some a \<and> slot_of key k xs = Some i"
proof -
  have "slot_of key k xs \<noteq> None" using assms by (simp add: slot_of_None_iff)
  then obtain i where i: "slot_of key k xs = Some i" by auto
  from slot_of_SomeE [OF this] obtain b where b: "i < length xs" "xs ! i = Some b" "key b = k" "lookup key k xs = Some b" .
  then show "key a = k" "\<exists>i < length xs. xs ! i = Some a \<and> slot_of key k xs = Some i"
    using assms i by auto
qed

lemma lookup_NoneD: "lookup key k xs = None \<Longrightarrow> i < length xs \<Longrightarrow> xs ! i = Some a \<Longrightarrow> key a \<noteq> k"
  by (auto simp: lookup_def find_None_iff in_flatten_iff)

lemma lookup_iff:
  assumes "keys_distinct key xs"
  shows "lookup key k xs = Some a \<longleftrightarrow> (\<exists>i < length xs. xs ! i = Some a \<and> key a = k)"
proof
  assume "\<exists>i < length xs. xs ! i = Some a \<and> key a = k"
  then obtain i where i: "i < length xs" "xs ! i = Some a" "key a = k" by auto
  then obtain b where b: "lookup key k xs = Some b" using lookup_NoneD by fastforce
  from lookup_SomeD [OF b] obtain j where j: "key b = k" "j < length xs" "xs ! j = Some b" by auto
  then have "j = i" using assms i by (auto simp: keys_distinct_def)
  with i j b show "lookup key k xs = Some a" by simp
qed (metis lookup_SomeD)

lemma free_slot_SomeD: "free_slot xs = Some i \<Longrightarrow> i < length xs \<and> xs ! i = None"
  by (auto simp: free_slot_def dest: position_SomeD)

lemma free_slot_None_iff: "free_slot xs = None \<longleftrightarrow> None \<notin> set xs"
  unfolding free_slot_def position_None_iff by metis

section \<open>Updates\<close>

lemma keys_distinctI:
  assumes "\<And>i j a b. i < length xs \<Longrightarrow> j < length xs \<Longrightarrow> xs ! i = Some a \<Longrightarrow> xs ! j = Some b \<Longrightarrow>
     key a = key b \<Longrightarrow> i = j"
  shows "keys_distinct key xs"
  using assms by (auto simp: keys_distinct_def)

lemma keys_distinctD:
  "keys_distinct key xs \<Longrightarrow> i < length xs \<Longrightarrow> j < length xs \<Longrightarrow> xs ! i = Some a \<Longrightarrow> xs ! j = Some b \<Longrightarrow>
     key a = key b \<Longrightarrow> i = j"
  by (auto simp: keys_distinct_def)

lemma keys_distinct_update:
  assumes "keys_distinct key xs"
    and "\<And>a j b. x = Some a \<Longrightarrow> j < length xs \<Longrightarrow> j \<noteq> i \<Longrightarrow> xs ! j = Some b \<Longrightarrow> key b \<noteq> key a"
  shows "keys_distinct key (xs[i := x])"
proof (rule keys_distinctI)
  fix j k a b
  assume h: "j < length (xs[i := x])" "k < length (xs[i := x])" "xs[i := x] ! j = Some a"
    "xs[i := x] ! k = Some b" "key a = key b"
  show "j = k"
  proof (cases "j = i"; cases "k = i")
    assume "j = i" "k \<noteq> i"
    then show ?thesis using h assms(2) [of a k b] by simp
  next
    assume "j \<noteq> i" "k = i"
    then show ?thesis using h assms(2) [of b j a] by simp
  next
    assume "j \<noteq> i" "k \<noteq> i"
    then show ?thesis using h keys_distinctD [OF assms(1), of j k a b] by simp
  qed simp
qed

lemma lookup_update:
  assumes "keys_distinct key xs" and "keys_distinct key (xs[i := x])" and "i < length xs"
  shows "lookup key k (xs[i := x]) =
     (if \<exists>b. x = Some b \<and> key b = k then x
      else if \<exists>a. xs ! i = Some a \<and> key a = k then None else lookup key k xs)"
proof -
  let ?R = "\<lambda>c. \<exists>j < length xs. j \<noteq> i \<and> xs ! j = Some c \<and> key c = k"
  have new: "lookup key k (xs[i := x]) = Some c \<longleftrightarrow> (x = Some c \<and> key c = k) \<or> ?R c" for c
  proof -
    have "lookup key k (xs[i := x]) = Some c \<longleftrightarrow> (\<exists>j < length xs. xs[i := x] ! j = Some c \<and> key c = k)"
      by (simp add: lookup_iff [OF assms(2)])
    also have "\<dots> \<longleftrightarrow> (xs[i := x] ! i = Some c \<and> key c = k) \<or>
        (\<exists>j < length xs. j \<noteq> i \<and> xs[i := x] ! j = Some c \<and> key c = k)" using assms(3) by blast
    also have "\<dots> \<longleftrightarrow> (x = Some c \<and> key c = k) \<or> ?R c"
      using assms(3) by (simp cong: conj_cong)
    finally show ?thesis .
  qed
  have old: "lookup key k xs = Some c \<longleftrightarrow> (xs ! i = Some c \<and> key c = k) \<or> ?R c" for c
    unfolding lookup_iff [OF assms(1)] using assms(3) by blast
  have clash: "\<not> ?R c" if "xs ! i = Some a" "key a = k" for a c
    using that keys_distinctD [OF assms(1) assms(3)] by metis
  show ?thesis
  proof (cases "\<exists>b. x = Some b \<and> key b = k")
    case True
    then show ?thesis using new by auto
  next
    case False
    then have n: "lookup key k (xs[i := x]) = Some c \<longleftrightarrow> ?R c" for c using new by auto
    show ?thesis
    proof (cases "\<exists>a. xs ! i = Some a \<and> key a = k")
      case True
      then have "lookup key k (xs[i := x]) \<noteq> Some c" for c using n clash by blast
      then show ?thesis using True False by (metis option.exhaust)
    next
      case fresh: False
      then have "lookup key k (xs[i := x]) = Some c \<longleftrightarrow> lookup key k xs = Some c" for c using n old by blast
      then have "lookup key k (xs[i := x]) = lookup key k xs" by (metis option.exhaust)
      then show ?thesis using False fresh by (simp only: if_False)
    qed
  qed
qed

lemma insert_slot:
  assumes "keys_distinct key xs" and "free_slot xs = Some i" and "lookup key (key a) xs = None"
  shows "keys_distinct key (xs[i := Some a])" "slots_map key (xs[i := Some a]) = (slots_map key xs)(key a \<mapsto> a)"
proof -
  note f = free_slot_SomeD [OF assms(2)]
  show d: "keys_distinct key (xs[i := Some a])"
    using assms lookup_NoneD [OF assms(3)] by (intro keys_distinct_update) auto
  show "slots_map key (xs[i := Some a]) = (slots_map key xs)(key a \<mapsto> a)"
    using f by (auto simp: lookup_update [OF assms(1) d])
qed

lemma remove_slot:
  assumes "keys_distinct key xs" and "slot_of key k xs = Some i"
  shows "keys_distinct key (xs[i := None])" "slots_map key (xs[i := None]) = (slots_map key xs)(k := None)"
proof -
  obtain a where a: "i < length xs" "xs ! i = Some a" "key a = k" using slot_of_SomeE [OF assms(2)] by metis
  show d: "keys_distinct key (xs[i := None])" using assms by (intro keys_distinct_update) auto
  show "slots_map key (xs[i := None]) = (slots_map key xs)(k := None)"
    using a by (auto simp: lookup_update [OF assms(1) d])
qed

lemma replace_slot:
  assumes "keys_distinct key xs" and "slot_of key k xs = Some i" and "key b = k"
  shows "keys_distinct key (xs[i := Some b])" "slots_map key (xs[i := Some b]) = (slots_map key xs)(k \<mapsto> b)"
proof -
  obtain a where a: "i < length xs" "xs ! i = Some a" "key a = k" using slot_of_SomeE [OF assms(2)] by metis
  show d: "keys_distinct key (xs[i := Some b])"
  proof (rule keys_distinct_update [OF assms(1)])
    fix c j d assume "Some b = Some c" "j < length xs" "j \<noteq> i" "xs ! j = Some d"
    then show "key d \<noteq> key c" using keys_distinctD [OF assms(1) _ a(1) _ a(2)] a(3) assms(3) by auto
  qed
  show "slots_map key (xs[i := Some b]) = (slots_map key xs)(k \<mapsto> b)"
    using a assms(3) by (auto simp: lookup_update [OF assms(1) d])
qed

lemma modify_slot:
  assumes "keys_distinct key xs" and "lookup key k xs = Some a" and "key (f a) = k"
  shows "keys_distinct key (modify key k f xs)" "slots_map key (modify key k f xs) = (slots_map key xs)(k \<mapsto> f a)"
proof -
  obtain i where i: "xs ! i = Some a" "slot_of key k xs = Some i" using lookup_SomeD(2) [OF assms(2)] by auto
  then show "keys_distinct key (modify key k f xs)" "slots_map key (modify key k f xs) = (slots_map key xs)(k \<mapsto> f a)"
    using replace_slot [OF assms(1) i(2), of "f a"] assms(3) by (simp_all add: modify_def)
qed

lemma length_modify [simp]: "length (modify key k f xs) = length xs"
  by (simp add: modify_def split: option.splits)

lemma keys_distinct_replicate [simp]: "keys_distinct key (replicate n None)"
  by (simp add: keys_distinct_def)

lemma lookup_replicate [simp]: "lookup key k (replicate n None) = None"
  by (simp add: lookup_def)

end
