(* ===== verification/User_Mode.thy ===== *)
theory User_Mode
  imports Paging Slots Capability Scheduler
begin

text \<open>
  The boundary to user mode: the trap frames of \<open>arch/x86_64/trap.rs\<close>, the saved user
  contexts of \<open>arch/x86_64/context.rs\<close> and the register ABI of \<open>syscall.rs\<close> in
  \<open>crates/mrml-kernel/src\<close>.  The three frame types share a prefix of fifteen general
  registers, a record that each of them extends.  The assembly that enters user mode and the
  raw stack reads of the exception stubs are not modelled; the two stack words that
  \<open>normalize\<close> reads behind a ring-three frame are arguments.
\<close>

section \<open>Definitions: frames\<close>

record gprs =
  r15 :: u64
  r14 :: u64
  r13 :: u64
  r12 :: u64
  r11 :: u64
  r10 :: u64
  r9 :: u64
  r8 :: u64
  rdi :: u64
  rsi :: u64
  rbp :: u64
  rbx :: u64
  rdx :: u64
  rcx :: u64
  rax :: u64

record user_context = gprs +
  uc_rip :: u64
  uc_rsp :: u64
  uc_rflags :: u64
  uc_page_table :: phys_addr

record hardware_trap_frame = gprs +
  hf_vector :: u64
  hf_error :: u64
  hf_rip :: u64
  hf_cs :: u64
  hf_rflags :: u64

record trap_frame = gprs +
  tf_vector :: u64
  tf_error :: u64
  tf_rip :: u64
  tf_cs :: u64
  tf_rflags :: u64
  tf_rsp :: u64
  tf_ss :: u64

record user_call_frame = gprs +
  cf_rip :: u64
  cf_cs :: u64
  cf_rflags :: u64
  cf_rsp :: u64
  cf_ss :: u64

definition USER_DATA_SELECTOR :: u16 where "USER_DATA_SELECTOR = 0x1b"
definition USER_CODE_SELECTOR :: u16 where "USER_CODE_SELECTOR = 0x23"
definition USER_INITIAL_RFLAGS :: u64 where "USER_INITIAL_RFLAGS = 0x202"

section \<open>Definitions: traps\<close>

datatype trap_error =
  TrapInvalidVector | TrapInvalidPrivilege | NonCanonicalInstruction | NonCanonicalStack
| TrapInvalidFlags | InvalidErrorCode

datatype trap_disposition = TerminateUser u8 "u64 option" | HaltKernel u8

definition ERROR_CODE_VECTORS :: u32 where
  "ERROR_CODE_VECTORS = push_bit 8 1 OR push_bit 10 1 OR push_bit 11 1 OR push_bit 12 1 OR push_bit 13 1
     OR push_bit 14 1 OR push_bit 17 1 OR push_bit 21 1 OR push_bit 29 1 OR push_bit 30 1"

definition NEVER_RECOVER_VECTORS :: u32 where
  "NEVER_RECOVER_VECTORS = push_bit 2 1 OR push_bit 8 1 OR push_bit 18 1"

definition trap_validate :: "trap_frame \<Rightarrow> (unit, trap_error) result" where
  "trap_validate f =
     (if tf_vector f \<ge> 32 then Err TrapInvalidVector
      else let privilege = tf_cs f AND 3 in
        if privilege \<noteq> 0 \<and> privilege \<noteq> 3 then Err TrapInvalidPrivilege
        else if \<not> canonical (tf_rip f) then Err NonCanonicalInstruction
        else if privilege = 3 \<and> \<not> canonical (tf_rsp f) then Err NonCanonicalStack
        else if tf_rflags f AND 2 = 0 \<or> tf_rflags f AND (push_bit 14 1 OR push_bit 17 1) \<noteq> 0
             then Err TrapInvalidFlags
        else let has_error = ERROR_CODE_VECTORS AND push_bit (unat (tf_vector f)) 1 \<noteq> 0 in
          if \<not> has_error \<and> tf_error f \<noteq> 0 then Err InvalidErrorCode
          else Ok ())"

definition trap_disposition :: "trap_frame \<Rightarrow> u64 option \<Rightarrow> (trap_disposition, trap_error) result" where
  "trap_disposition f fault_address =
     (case trap_validate f of
        Err e \<Rightarrow> Err e
      | Ok _ \<Rightarrow>
          let vector = (ucast (tf_vector f) :: u8) in
          if tf_cs f AND 3 = 3 \<and> NEVER_RECOVER_VECTORS AND push_bit (unat (tf_vector f)) 1 = 0 then
            (if vector = 14 then
               (case fault_address of
                  None \<Rightarrow> Err InvalidErrorCode
                | Some address \<Rightarrow>
                    if \<not> canonical address then Err NonCanonicalInstruction
                    else Ok (TerminateUser vector (Some address)))
             else if fault_address \<noteq> None then Err InvalidErrorCode
             else Ok (TerminateUser vector None))
          else Ok (HaltKernel vector))"

definition trap_normalize ::
  "hardware_trap_frame \<Rightarrow> u64 \<Rightarrow> u64 \<Rightarrow> u64 \<Rightarrow> u64 \<Rightarrow> trap_frame" where
  "trap_normalize f tail_rsp tail_ss kernel_rsp kernel_ss =
     (let (rsp, ss) = if hf_cs f AND 3 = 3 then (tail_rsp, tail_ss) else (kernel_rsp, kernel_ss) in
      \<lparr>r15 = r15 f, r14 = r14 f, r13 = r13 f, r12 = r12 f, r11 = r11 f, r10 = r10 f, r9 = r9 f, r8 = r8 f,
       rdi = rdi f, rsi = rsi f, rbp = rbp f, rbx = rbx f, rdx = rdx f, rcx = rcx f, rax = rax f,
       tf_vector = hf_vector f, tf_error = hf_error f, tf_rip = hf_rip f, tf_cs = hf_cs f,
       tf_rflags = hf_rflags f, tf_rsp = rsp, tf_ss = ss\<rparr>)"

section \<open>Definitions: the register ABI\<close>

datatype syscall_error =
  UnknownOperation | ReservedArgument | SyscallInvalidCapability | SyscallInvalidTask
| SyscallPayloadTooLarge | InvalidPrivilege | InvalidInstruction | SyscallInvalidStack | SyscallInvalidFlags

definition MAX_SYSCALL_INLINE_PAYLOAD :: nat where "MAX_SYSCALL_INLINE_PAYLOAD = 24"

definition USER_RETURN_FLAGS :: u64 where
  "USER_RETURN_FLAGS = 2 OR push_bit 0 1 OR push_bit 2 1 OR push_bit 4 1 OR push_bit 6 1 OR push_bit 7 1
     OR push_bit 8 1 OR push_bit 9 1 OR push_bit 10 1 OR push_bit 11 1 OR push_bit 18 1 OR push_bit 21 1"

definition user_address :: "u64 \<Rightarrow> bool" where
  "user_address address \<longleftrightarrow> address \<noteq> 0 \<and> address < push_bit 47 1"

definition validate_return :: "user_call_frame \<Rightarrow> (unit, syscall_error) result" where
  "validate_return f =
     (if cf_cs f \<noteq> ucast USER_CODE_SELECTOR \<or> cf_ss f \<noteq> ucast USER_DATA_SELECTOR then Err InvalidPrivilege
      else if \<not> user_address (cf_rip f) then Err InvalidInstruction
      else if \<not> user_address (cf_rsp f) then Err SyscallInvalidStack
      else if cf_rflags f AND 2 = 0 \<or> cf_rflags f AND NOT USER_RETURN_FLAGS \<noteq> 0 then Err SyscallInvalidFlags
      else Ok ())"

datatype syscall_request =
  Yield | Receive | Exit | SendInline capability task_id bytes u8

definition syscall_decode ::
  "u64 \<Rightarrow> u64 \<Rightarrow> u64 \<Rightarrow> u64 \<Rightarrow> u64 \<Rightarrow> u64 \<Rightarrow> u64 \<Rightarrow> (syscall_request, syscall_error) result" where
  "syscall_decode operation a b c d e f =
     (let reserved = (a OR b OR c OR d OR e OR f) \<noteq> 0 in
      if operation = 0 then (if reserved then Err ReservedArgument else Ok Yield)
      else if operation = 1 then
        (if a = 0 \<or> drop_bit 32 a = 0 then Err SyscallInvalidCapability
         else if b = 0 \<or> drop_bit 32 b = 0 then Err SyscallInvalidTask
         else let len = unat c in
           if len > MAX_SYSCALL_INLINE_PAYLOAD then Err SyscallPayloadTooLarge
           else Ok (SendInline (cap_from_token a) (tid_from_token b)
             (take len (to_le_bytes 8 d @ to_le_bytes 8 e @ to_le_bytes 8 f)
                @ replicate (MAX_SYSCALL_INLINE_PAYLOAD - len) 0)
             (of_nat len)))
      else if operation = 2 then (if reserved then Err ReservedArgument else Ok Receive)
      else if operation = 3 then (if reserved then Err ReservedArgument else Ok Exit)
      else Err UnknownOperation)"

definition frame_request :: "user_call_frame \<Rightarrow> (syscall_request, syscall_error) result" where
  "frame_request f =
     (case validate_return f of
        Err e \<Rightarrow> Err e
      | Ok _ \<Rightarrow> syscall_decode (rax f) (rdi f) (rsi f) (rdx f) (r10 f) (r8 f) (r9 f))"

definition request_payload :: "syscall_request \<Rightarrow> bytes" where
  "request_payload r = (case r of SendInline _ _ payload len \<Rightarrow> take (unat len) payload | _ \<Rightarrow> [])"

definition frame_complete :: "u64 \<Rightarrow> user_call_frame \<Rightarrow> user_call_frame" where
  "frame_complete sequence f = f\<lparr>rax := 0, rdx := sequence\<rparr>"

text \<open>The loop that packs bytes into three words, byte by byte, as both frame types run it.\<close>

fun pack_words :: "nat \<Rightarrow> bytes \<Rightarrow> u64 list \<Rightarrow> u64 list" where
  "pack_words index [] ws = ws"
| "pack_words index (b # bs) ws =
     pack_words (index + 1) bs
       (ws[index div 8 := ws ! (index div 8) OR push_bit ((index mod 8) * 8) (ucast b)])"

definition complete_message :: "bytes \<Rightarrow> ('a gprs_scheme) \<Rightarrow> 'a gprs_scheme" where
  "complete_message payload f =
     (let ws = pack_words 0 (take MAX_SYSCALL_INLINE_PAYLOAD payload) [0, 0, 0] in
      f\<lparr>rax := 0, rdx := of_nat (min (length payload) MAX_SYSCALL_INLINE_PAYLOAD),
        r10 := ws ! 0, r8 := ws ! 1, r9 := ws ! 2\<rparr>)"

section \<open>Definitions: saved contexts\<close>

datatype context_error =
  KernelPageTable | CtxInvalidEntry | CtxInvalidStack | InvalidSelectors | CtxInvalidFlags
| CtxInvalidVector | DuplicateTask | CtxMissingTask | TableFull

definition validate_user_address :: "u64 \<Rightarrow> bool" where
  "validate_user_address address \<longleftrightarrow>
     \<not> (address = 0 \<or> address \<ge> push_bit 47 1) \<and> is_ok (virt_new (address AND NOT (PAGE_SIZE - 1)))"

definition validate_user_flags :: "u64 \<Rightarrow> (unit, context_error) result" where
  "validate_user_flags flags =
     (if flags AND 2 = 0 \<or> flags AND NOT (2 OR push_bit 0 1 OR push_bit 2 1 OR push_bit 4 1 OR push_bit 6 1
           OR push_bit 7 1 OR push_bit 8 1 OR push_bit 9 1 OR push_bit 10 1 OR push_bit 11 1 OR push_bit 18 1
           OR push_bit 21 1) \<noteq> 0
      then Err CtxInvalidFlags else Ok ())"

definition context_new :: "phys_addr \<Rightarrow> u64 \<Rightarrow> u64 \<Rightarrow> (user_context, context_error) result" where
  "context_new page_table entry stack =
     (if phys_get page_table = 0 then Err KernelPageTable
      else if \<not> validate_user_address entry then Err CtxInvalidEntry
      else if \<not> validate_user_address stack then Err CtxInvalidStack
      else if stack = 0 \<or> stack mod 16 \<noteq> 0 then Err CtxInvalidStack
      else Ok \<lparr>r15 = 0, r14 = 0, r13 = 0, r12 = 0, r11 = 0, r10 = 0, r9 = 0, r8 = 0, rdi = 0, rsi = 0,
               rbp = 0, rbx = 0, rdx = 0, rcx = 0, rax = 0, uc_rip = entry, uc_rsp = stack,
               uc_rflags = USER_INITIAL_RFLAGS, uc_page_table = page_table\<rparr>)"

text \<open>The field-by-field copy of the registers that ends both \<open>from_trap\<close> and \<open>from_user_call\<close>.\<close>

definition copy_registers :: "'a gprs_scheme \<Rightarrow> u64 \<Rightarrow> u64 \<Rightarrow> u64 \<Rightarrow> phys_addr \<Rightarrow> user_context" where
  "copy_registers f rip rsp rflags page_table =
     \<lparr>r15 = r15 f, r14 = r14 f, r13 = r13 f, r12 = r12 f, r11 = r11 f, r10 = r10 f, r9 = r9 f, r8 = r8 f,
      rdi = rdi f, rsi = rsi f, rbp = rbp f, rbx = rbx f, rdx = rdx f, rcx = rcx f, rax = rax f,
      uc_rip = rip, uc_rsp = rsp, uc_rflags = rflags, uc_page_table = page_table\<rparr>"

definition context_from_trap :: "phys_addr \<Rightarrow> trap_frame \<Rightarrow> (user_context, context_error) result" where
  "context_from_trap page_table f =
     (if tf_cs f \<noteq> ucast USER_CODE_SELECTOR \<or> tf_ss f \<noteq> ucast USER_DATA_SELECTOR then Err InvalidSelectors
      else if \<not> validate_user_address (tf_rip f) then Err CtxInvalidEntry
      else if \<not> validate_user_address (tf_rsp f) then Err CtxInvalidStack
      else case validate_user_flags (tf_rflags f) of
        Err e \<Rightarrow> Err e
      | Ok _ \<Rightarrow>
          if phys_get page_table = 0 then Err KernelPageTable
          else Ok (copy_registers f (tf_rip f) (tf_rsp f) (tf_rflags f) page_table))"

definition context_from_external_interrupt ::
  "phys_addr \<Rightarrow> trap_frame \<Rightarrow> u8 \<Rightarrow> (user_context, context_error) result" where
  "context_from_external_interrupt page_table f vector =
     (if \<not> (32 \<le> vector \<and> vector \<le> 254) \<or> tf_vector f \<noteq> ucast vector then Err CtxInvalidVector
      else context_from_trap page_table (f\<lparr>tf_rflags := tf_rflags f AND NOT (push_bit 16 1)\<rparr>))"

definition context_from_user_call ::
  "phys_addr \<Rightarrow> user_call_frame \<Rightarrow> (user_context, context_error) result" where
  "context_from_user_call page_table f =
     (case validate_return f of
        Err e \<Rightarrow> Err (case e of
             InvalidPrivilege \<Rightarrow> InvalidSelectors
           | InvalidInstruction \<Rightarrow> CtxInvalidEntry
           | SyscallInvalidStack \<Rightarrow> CtxInvalidStack
           | _ \<Rightarrow> CtxInvalidFlags)
      | Ok _ \<Rightarrow>
          if phys_get page_table = 0 then Err KernelPageTable
          else Ok (copy_registers f (cf_rip f) (cf_rsp f) (cf_rflags f) page_table))"

section \<open>Definitions: the table of saved contexts\<close>

type_synonym context_table = "(task_id \<times> user_context) option list"

definition table_new :: "nat \<Rightarrow> context_table" where
  "table_new n = replicate n None"

definition table_bind ::
  "task_id \<Rightarrow> user_context \<Rightarrow> context_table \<Rightarrow> (unit, context_error) result \<times> context_table" where
  "table_bind t c xs =
     (if \<exists>e \<in> set (flatten xs). fst e = t then (Err DuplicateTask, xs)
      else case free_slot xs of
        None \<Rightarrow> (Err TableFull, xs)
      | Some i \<Rightarrow> (Ok (), xs[i := Some (t, c)]))"

definition table_get :: "task_id \<Rightarrow> context_table \<Rightarrow> (user_context, context_error) result" where
  "table_get t xs = ok_or (map_option snd (lookup fst t xs)) CtxMissingTask"

definition table_replace ::
  "task_id \<Rightarrow> user_context \<Rightarrow> context_table \<Rightarrow> (unit, context_error) result \<times> context_table" where
  "table_replace t c xs =
     (case lookup fst t xs of
        None \<Rightarrow> (Err CtxMissingTask, xs)
      | Some _ \<Rightarrow> (Ok (), modify fst t (\<lambda>e. (fst e, c)) xs))"

definition table_revoke ::
  "task_id \<Rightarrow> context_table \<Rightarrow> (user_context, context_error) result \<times> context_table" where
  "table_revoke t xs =
     (case slot_of fst t xs of
        None \<Rightarrow> (Err CtxMissingTask, xs)
      | Some i \<Rightarrow> (case xs ! i of
          None \<Rightarrow> (Err CtxMissingTask, xs)
        | Some e \<Rightarrow> (Ok (snd e), xs[i := None])))"

section \<open>Single bits\<close>

lemma bit_single: "bit (push_bit n (1 :: 'a::len word)) i \<longleftrightarrow> i = n \<and> n < LENGTH('a)"
  by (auto simp: bit_push_bit_iff bit_1_iff bit_exp_iff)

lemma vector_mask_iff:
  assumes "k < 32"
  shows "NEVER_RECOVER_VECTORS AND push_bit k 1 = 0 \<longleftrightarrow> k \<notin> {2, 8, 18}"
  unfolding word_and_bit NEVER_RECOVER_VECTORS_def by (simp only: bit_or_iff bit_single) (use assms in auto)

definition USER_FLAG_BITS :: "nat set" where
  "USER_FLAG_BITS = {0, 1, 2, 4, 6, 7, 8, 9, 10, 11, 18, 21}"

lemma user_flags_bits: "bit USER_RETURN_FLAGS i \<longleftrightarrow> i \<in> USER_FLAG_BITS"
proof -
  have two: "(2 :: u64) = push_bit 1 1" by simp
  show ?thesis unfolding USER_RETURN_FLAGS_def two USER_FLAG_BITS_def
    by (simp only: bit_or_iff bit_single) auto
qed

lemma flags_ok_iff:
  fixes w :: u64
  shows "\<not> (w AND 2 = 0 \<or> w AND NOT USER_RETURN_FLAGS \<noteq> 0) \<longleftrightarrow> bit w 1 \<and> (\<forall>i. bit w i \<longrightarrow> i \<in> USER_FLAG_BITS)"
proof -
  have "w AND 2 = 0 \<longleftrightarrow> \<not> bit w 1" using word_and_bit [of w 1] by simp
  moreover have "w AND NOT USER_RETURN_FLAGS = 0 \<longleftrightarrow> (\<forall>i. bit w i \<longrightarrow> i \<in> USER_FLAG_BITS)"
    by (auto simp: bit_eq_iff bit_and_iff bit_not_iff user_flags_bits dest: bit_u64_less)
  ultimately show ?thesis by blast
qed

lemma validate_user_flags_iff:
  "validate_user_flags w = Ok u \<longleftrightarrow> \<not> (w AND 2 = 0 \<or> w AND NOT USER_RETURN_FLAGS \<noteq> 0)"
  unfolding validate_user_flags_def USER_RETURN_FLAGS_def by simp

text \<open>Below the canonical split every address is canonical, so both address tests agree.\<close>

lemma page_round_down_aligned: "(a AND NOT (PAGE_SIZE - 1)) mod PAGE_SIZE = 0"
proof -
  have "PAGE_SIZE - 1 = mask 12" by (simp add: PAGE_SIZE_def mask_eq_exp_minus_1)
  then show ?thesis by (auto simp: aligned_iff_bits bit_and_iff bit_not_iff bit_mask_iff)
qed

lemma validate_user_address_iff: "validate_user_address a \<longleftrightarrow> user_address a"
proof -
  have "is_ok (virt_new (a AND NOT (PAGE_SIZE - 1)))" if "a < push_bit 47 1"
  proof -
    have "virt_new (a AND NOT (PAGE_SIZE - 1)) = Ok (VirtAddr (a AND NOT (PAGE_SIZE - 1)))"
      unfolding virt_new_iff using below_split_canonical [OF that] page_round_down_aligned by blast
    then show ?thesis by (simp only: is_ok_simps)
  qed
  then show ?thesis by (auto simp: validate_user_address_def user_address_def not_le)
qed

section \<open>Packing\<close>

lemma length_pack_words [simp]: "length (pack_words index bs ws) = length ws"
  by (induction index bs ws rule: pack_words.induct) simp_all

lemma byte_index:
  "P (i - m * 8) \<and> m * 8 \<le> i \<and> i - m * 8 < 8 \<longleftrightarrow> P (i mod 8) \<and> i div 8 = (m :: nat)"
proof -
  have "m * 8 \<le> i \<and> i - m * 8 < 8 \<longleftrightarrow> i div 8 = m" by (intro iffI conjI; linarith)
  moreover have "i div 8 = m \<Longrightarrow> i - m * 8 = i mod 8" by (simp add: minus_div_mult_eq_mod [symmetric])
  ultimately show ?thesis by metis
qed

lemma bit_pack_words:
  "index + length bs \<le> 8 * length ws \<Longrightarrow> j < length ws \<Longrightarrow>
     bit (pack_words index bs ws ! j) i \<longleftrightarrow> bit (ws ! j) i \<or>
       (i < 64 \<and> index \<le> 8 * j + i div 8 \<and> 8 * j + i div 8 < index + length bs \<and>
        bit (bs ! (8 * j + i div 8 - index)) (i mod 8))"
proof (induction index bs ws rule: pack_words.induct)
  case (2 index b bs ws)
  let ?w = "ws[index div 8 := ws ! (index div 8) OR push_bit ((index mod 8) * 8) (ucast b)]"
  have IH: "bit (pack_words (index + 1) bs ?w ! j) i \<longleftrightarrow> bit (?w ! j) i \<or>
       (i < 64 \<and> index + 1 \<le> 8 * j + i div 8 \<and> 8 * j + i div 8 < index + 1 + length bs \<and>
        bit (bs ! (8 * j + i div 8 - (index + 1))) (i mod 8))"
    using 2 by simp
  have here: "bit (?w ! j) i \<longleftrightarrow> bit (ws ! j) i \<or> (i < 64 \<and> 8 * j + i div 8 = index \<and> bit b (i mod 8))"
  proof (cases "index div 8 = j")
    case True
    have "bit (push_bit ((index mod 8) * 8) (ucast b :: u64)) i \<longleftrightarrow>
        i < 64 \<and> (index mod 8) * 8 \<le> i \<and> i - (index mod 8) * 8 < 8 \<and> bit b (i - (index mod 8) * 8)"
      by (auto simp: bit_push_bit_iff bit_ucast_iff dest: bit_imp_le_length)
    also have "\<dots> \<longleftrightarrow> i < 64 \<and> i div 8 = index mod 8 \<and> bit b (i mod 8)"
      using byte_index [of "bit b" i "index mod 8"] by blast
    also have "\<dots> \<longleftrightarrow> i < 64 \<and> 8 * j + i div 8 = index \<and> bit b (i mod 8)"
    proof -
      have "i div 8 = index mod 8 \<longleftrightarrow> 8 * j + i div 8 = index"
        using True div_mult_mod_eq [of index 8] by linarith
      then show ?thesis by simp
    qed
    finally show ?thesis using True 2(3) by (auto simp: bit_or_iff)
  next
    case False
    have "8 * j + i div 8 \<noteq> index" if "i < 64"
    proof
      assume e: "8 * j + i div 8 = index"
      have "i div 8 < 8" using that by simp
      then have "index div 8 = j" using e by linarith
      with False show False by simp
    qed
    then show ?thesis using False by auto
  qed
  have "8 * j + i div 8 - index = Suc (8 * j + i div 8 - (index + 1))" if "index + 1 \<le> 8 * j + i div 8"
    using that by simp
  then show ?case unfolding pack_words.simps IH here
    by (cases "8 * j + i div 8 = index") auto
qed auto

lemma pack_words_le:
  assumes "length bs \<le> 24" and "j < 3"
  shows "pack_words 0 bs [0, 0, 0] ! j =
     from_le_bytes (take 8 (drop (8 * j) (bs @ replicate (24 - length bs) 0)))"
proof (rule bit_word_eqI)
  fix i assume "i < LENGTH(64)"
  then have i: "i < 64" "i div 8 < 8" by auto
  define p where "p = bs @ replicate (24 - length bs) (0 :: u8)"
  have p: "length p = 24" using assms(1) by (simp add: p_def)
  have z: "\<not> bit ([0 :: u64, 0, 0] ! j) i" using assms(2) by (cases j rule: nat.exhaust) (auto simp: less_Suc_eq numeral_3_eq_3)
  have "8 * j + i div 8 < 24" using assms(2) i(2) by linarith
  then have "bit (from_le_bytes (take 8 (drop (8 * j) p)) :: u64) i \<longleftrightarrow>
      bit (p ! (8 * j + i div 8)) (i mod 8)"
    using i assms(2) p by (simp add: bit_from_le_bytes)
  also have "\<dots> \<longleftrightarrow> 8 * j + i div 8 < length bs \<and> bit (bs ! (8 * j + i div 8)) (i mod 8)"
    using \<open>8 * j + i div 8 < 24\<close> by (simp add: p_def nth_append)
  finally show "bit (pack_words 0 bs [0, 0, 0] ! j) i \<longleftrightarrow>
      bit (from_le_bytes (take 8 (drop (8 * j) (bs @ replicate (24 - length bs) 0))) :: u64) i"
    unfolding p_def using bit_pack_words [of 0 bs "[0, 0, 0]" j i] assms i z by simp
qed

lemma pack_words_bytes:
  assumes "length bs \<le> 24"
  shows "to_le_bytes 8 (pack_words 0 bs [0, 0, 0] ! 0) @ to_le_bytes 8 (pack_words 0 bs [0, 0, 0] ! 1) @
     to_le_bytes 8 (pack_words 0 bs [0, 0, 0] ! 2) = bs @ replicate (24 - length bs) 0"
proof -
  define p where "p = bs @ replicate (24 - length bs) (0 :: u8)"
  have len: "length p = 24" using assms by (simp add: p_def)
  have w: "to_le_bytes 8 (pack_words 0 bs [0, 0, 0] ! j) = take 8 (drop (8 * j) p)" if "j < 3" for j
    using that len unfolding p_def by (subst pack_words_le [OF assms that]) (rule to_from_le_bytes, auto)
  have "p = sub_slice p 0 8 @ sub_slice p 8 16 @ sub_slice p 16 24"
    using len sub_slice_append [of 0 8 16 p] sub_slice_append [of 0 16 24 p]
    by (simp add: sub_slice_def flip: append_assoc)
  then show ?thesis using w [of 0] w [of 1] w [of 2] by (simp add: sub_slice_def flip: p_def)
qed

section \<open>The context table as a map\<close>

lemma bind_duplicate_iff: "(\<exists>e \<in> set (flatten xs). fst e = t) \<longleftrightarrow> lookup fst t xs \<noteq> None"
  unfolding lookup_def find_None_iff by blast

section \<open>Properties\<close>

text \<open>What makes a saved context safe to restore with \<open>iretq\<close>.\<close>

definition context_safe :: "user_context \<Rightarrow> bool" where
  "context_safe c \<longleftrightarrow> phys_get (uc_page_table c) \<noteq> 0 \<and> user_address (uc_rip c) \<and> user_address (uc_rsp c) \<and>
     bit (uc_rflags c) 1 \<and> (\<forall>i. bit (uc_rflags c) i \<longrightarrow> i \<in> USER_FLAG_BITS)"

text \<open>
  Property C37.  No path into a saved context lets user code gain privilege: whether a context is
  created, saved from a trap, from an external interrupt or from a system call, it names
  the nonzero page table it was made with, its instruction and stack pointers are nonzero lower-half addresses, and its
  flags contain the fixed bit and nothing outside the permitted set (so no I/O privilege, nested
  task, resume or virtual-8086 bit).
\<close>

theorem contexts_stay_unprivileged:
  assumes "context_new pt entry stack = Ok c \<or> context_from_trap pt tf = Ok c \<or>
     context_from_external_interrupt pt tf vector = Ok c \<or> context_from_user_call pt cf = Ok c"
  shows "context_safe c \<and> uc_page_table c = pt \<and> \<not> bit (uc_rflags c) 12 \<and> \<not> bit (uc_rflags c) 13 \<and>
     \<not> bit (uc_rflags c) 14 \<and> \<not> bit (uc_rflags c) 16 \<and> \<not> bit (uc_rflags c) 17"
proof -
  have trap: "context_safe c \<and> uc_page_table c = pt" if "context_from_trap pt f = Ok c" for f
    using that flags_ok_iff [of "tf_rflags f"]
    by (auto simp: context_from_trap_def copy_registers_def context_safe_def validate_user_flags_iff
        validate_user_address_iff split: if_splits result.splits)
  have init: "bit USER_INITIAL_RFLAGS i \<longleftrightarrow> i = 1 \<or> i = 9" for i
  proof -
    have e: "USER_INITIAL_RFLAGS = push_bit 1 1 OR push_bit 9 1" by (simp add: USER_INITIAL_RFLAGS_def)
    show ?thesis unfolding e by (simp only: bit_or_iff bit_single) auto
  qed
  have "context_safe c \<and> uc_page_table c = pt" if "context_new pt entry stack = Ok c"
    using that by (auto simp: context_new_def context_safe_def validate_user_address_iff init USER_FLAG_BITS_def
        split: if_splits)
  moreover have "context_safe c \<and> uc_page_table c = pt" if "context_from_user_call pt cf = Ok c"
    using that flags_ok_iff [of "cf_rflags cf"]
    by (auto simp: context_from_user_call_def copy_registers_def context_safe_def validate_return_def
        split: if_splits result.splits)
  moreover have "context_safe c \<and> uc_page_table c = pt" if "context_from_external_interrupt pt tf vector = Ok c"
    using that trap by (auto simp: context_from_external_interrupt_def split: if_splits)
  ultimately have "context_safe c \<and> uc_page_table c = pt" using assms trap by blast
  then show ?thesis by (auto simp: context_safe_def USER_FLAG_BITS_def)
qed

theorem contexts_stay_unprivileged_witness:
  "\<exists>c. context_new (PhysAddr 0x1000) 0x400000 0x7ff0 = Ok c \<and> context_safe c"
proof -
  have a: "user_address 0x400000" "user_address 0x7ff0" by (simp_all add: user_address_def)
  then obtain c where "context_new (PhysAddr 0x1000) 0x400000 0x7ff0 = Ok c"
    by (simp add: context_new_def validate_user_address_iff)
  then show ?thesis using contexts_stay_unprivileged by blast
qed

text \<open>
  The two validators of user frames agree: a system-call frame is accepted as a
  saved context exactly when the same registers are accepted from a trap, the two results are
  equal, and a rejection names the same reason.
\<close>

theorem context_validators_agree:
  "context_from_user_call pt \<lparr>r15 = g15, r14 = g14, r13 = g13, r12 = g12, r11 = g11, r10 = g10, r9 = g9,
       r8 = g8, rdi = gdi, rsi = gsi, rbp = gbp, rbx = gbx, rdx = gdx, rcx = gcx, rax = gax,
       cf_rip = ip, cf_cs = cs, cf_rflags = fl, cf_rsp = sp, cf_ss = ss\<rparr> =
   context_from_trap pt \<lparr>r15 = g15, r14 = g14, r13 = g13, r12 = g12, r11 = g11, r10 = g10, r9 = g9,
       r8 = g8, rdi = gdi, rsi = gsi, rbp = gbp, rbx = gbx, rdx = gdx, rcx = gcx, rax = gax,
       tf_vector = v, tf_error = e, tf_rip = ip, tf_cs = cs, tf_rflags = fl, tf_rsp = sp, tf_ss = ss\<rparr>"
  by (simp add: context_from_user_call_def context_from_trap_def validate_return_def validate_user_address_iff
      copy_registers_def validate_user_flags_def USER_RETURN_FLAGS_def)

text \<open>
  Faults are contained: a trap retires the user task only when it came from ring
  three and is not a non-maskable interrupt, double fault or machine check, it reports an
  address exactly for page faults and only a canonical one; every other accepted trap halts the
  kernel and names its own vector.
\<close>

theorem trap_fault_containment:
  "case trap_disposition f fault_address of
     Ok (TerminateUser vector address) \<Rightarrow> unat vector = unat (tf_vector f) \<and> tf_cs f AND 3 = 3 \<and>
       unat vector \<notin> {2, 8, 18} \<and> address = fault_address \<and> (address \<noteq> None \<longleftrightarrow> vector = 14) \<and>
       (\<forall>a. address = Some a \<longrightarrow> canonical a)
   | Ok (HaltKernel vector) \<Rightarrow> unat vector = unat (tf_vector f) \<and>
       (tf_cs f AND 3 = 0 \<or> unat vector \<in> {2, 8, 18})
   | Err _ \<Rightarrow> True"
proof (cases "trap_validate f")
  case (Ok u)
  then have v: "unat (tf_vector f) < 32" and priv: "tf_cs f AND 3 = 0 \<or> tf_cs f AND 3 = 3"
    by (auto simp: trap_validate_def Let_def word_le_nat_alt not_le split: if_splits)
  have "unat (ucast (tf_vector f) :: u8) = unat (tf_vector f)"
    using v by (simp add: unsigned_ucast_eq take_bit_nat_eq_self)
  then show ?thesis using priv vector_mask_iff [OF v]
    by (auto simp: trap_disposition_def Ok Let_def split: option.splits)
qed (simp add: trap_disposition_def)

theorem trap_fault_containment_witness:
  "\<exists>f. trap_disposition f (Some 0x1000) = Ok (TerminateUser 14 (Some 0x1000)) \<and> tf_cs f AND 3 = 3"
proof -
  let ?f = "\<lparr>r15 = 0, r14 = 0, r13 = 0, r12 = 0, r11 = 0, r10 = 0, r9 = 0, r8 = 0, rdi = 0, rsi = 0,
    rbp = 0, rbx = 0, rdx = 0, rcx = 0, rax = 0, tf_vector = 14, tf_error = 7, tf_rip = 0x400000,
    tf_cs = 0x23, tf_rflags = 0x202, tf_rsp = 0x7ff0, tf_ss = 0x1b\<rparr>"
  have "canonical 0x400000" "canonical 0x7ff0" "canonical 0x1000"
    using below_split_canonical [of "0x400000" "-1"] below_split_canonical [of "0x7ff0" "-1"]
      below_split_canonical [of "0x1000" "-1"] by simp_all
  then have "trap_disposition ?f (Some 0x1000) = Ok (TerminateUser 14 (Some 0x1000))"
    by (simp add: trap_disposition_def trap_validate_def ERROR_CODE_VECTORS_def NEVER_RECOVER_VECTORS_def Let_def)
  then show ?thesis using trap_fault_containment [of ?f "Some 0x1000"] by (intro exI [of _ ?f]) simp
qed

text \<open>
  Inline payloads survive the registers: a payload of up to 24 bytes that the
  kernel packs into a frame with \<open>complete_message\<close> is what the system-call decoder reads from
  the same registers, for every valid endpoint and receiver token; the length register is right
  and a longer payload is cut at 24 bytes.
\<close>

theorem inline_payload_round_trip:
  assumes "drop_bit 32 endpoint \<noteq> 0" and "drop_bit 32 receiver \<noteq> 0"
  shows "let f' = complete_message payload f in
     \<exists>buffer. syscall_decode 1 endpoint receiver (rdx f') (r10 f') (r8 f') (r9 f') =
         Ok (SendInline (cap_from_token endpoint) (tid_from_token receiver) buffer
           (of_nat (min (length payload) 24))) \<and>
       length buffer = 24 \<and>
       request_payload (SendInline (cap_from_token endpoint) (tid_from_token receiver) buffer
           (of_nat (min (length payload) 24))) = take 24 payload"
proof -
  let ?bs = "take 24 payload" and ?n = "min (length payload) 24"
  have nz: "endpoint \<noteq> 0" "receiver \<noteq> 0" using assms by auto
  have len: "unat (of_nat ?n :: u64) = ?n" "unat (of_nat ?n :: u8) = ?n"
    by (simp_all add: unat_of_nat take_bit_nat_eq_self)
  have w: "to_le_bytes 8 (pack_words 0 ?bs [0, 0, 0] ! 0) @ to_le_bytes 8 (pack_words 0 ?bs [0, 0, 0] ! 1) @
     to_le_bytes 8 (pack_words 0 ?bs [0, 0, 0] ! 2) = ?bs @ replicate (24 - length ?bs) 0"
    by (rule pack_words_bytes) simp
  have t: "take ?n (?bs @ replicate (24 - length ?bs) 0) = ?bs" "take ?n payload = ?bs"
    by (simp_all add: min_def)
  let ?W = "\<lambda>j. pack_words 0 ?bs [0, 0, 0] ! j"
  have "syscall_decode 1 endpoint receiver (of_nat ?n) (?W 0) (?W 1) (?W 2) =
      Ok (SendInline (cap_from_token endpoint) (tid_from_token receiver)
        (take ?n (to_le_bytes 8 (?W 0) @ to_le_bytes 8 (?W 1) @ to_le_bytes 8 (?W 2)) @ replicate (24 - ?n) 0) (of_nat ?n))"
    using assms nz by (simp add: syscall_decode_def MAX_SYSCALL_INLINE_PAYLOAD_def Let_def len del: take_append)
  then have "syscall_decode 1 endpoint receiver (of_nat ?n) (?W 0) (?W 1) (?W 2) =
      Ok (SendInline (cap_from_token endpoint) (tid_from_token receiver) (?bs @ replicate (24 - ?n) 0) (of_nat ?n))"
    unfolding w t .
  then show ?thesis using len(2) t(2)
    by (simp add: complete_message_def MAX_SYSCALL_INLINE_PAYLOAD_def Let_def request_payload_def)
qed

theorem inline_payload_round_trip_witness:
  "\<exists>(f' :: gprs) buffer. syscall_decode 1 (2 ^ 32) (2 ^ 32) (rdx f') (r10 f') (r8 f') (r9 f') =
     Ok (SendInline (cap_from_token (2 ^ 32)) (tid_from_token (2 ^ 32)) buffer 3) \<and> take 3 buffer = [1, 2, 3]"
proof -
  let ?f = "\<lparr>r15 = 0, r14 = 0, r13 = 0, r12 = 0, r11 = 0, r10 = 0, r9 = 0, r8 = 0, rdi = 0, rsi = 0,
        rbp = 0, rbx = 0, rdx = 0, rcx = 0, rax = 0\<rparr> :: gprs"
  obtain buffer where "syscall_decode 1 (2 ^ 32) (2 ^ 32) (rdx (complete_message [1, 2, 3] ?f))
      (r10 (complete_message [1, 2, 3] ?f)) (r8 (complete_message [1, 2, 3] ?f)) (r9 (complete_message [1, 2, 3] ?f)) =
      Ok (SendInline (cap_from_token (2 ^ 32)) (tid_from_token (2 ^ 32)) buffer 3)" "take 3 buffer = [1, 2, 3]"
    using inline_payload_round_trip [of "2 ^ 32" "2 ^ 32" "[1, 2, 3]" ?f]
    by (auto simp: Let_def request_payload_def)
  then show ?thesis by blast
qed

text \<open>
  The table of saved contexts is a partial map: binding adds a context for a task
  that has none and fails on a second one, replacing changes exactly one, revoking returns and
  removes exactly the bound context, and lookups read the map.
\<close>

theorem context_table_refines_map:
  assumes "keys_distinct fst xs"
  shows "(case table_bind t c xs of
            (Ok _, ys) \<Rightarrow> keys_distinct fst ys \<and> lookup fst t xs = None \<and> slots_map fst ys = (slots_map fst xs)(t \<mapsto> (t, c))
          | (Err e, ys) \<Rightarrow> ys = xs \<and> (e = DuplicateTask \<and> lookup fst t xs \<noteq> None \<or> e = TableFull \<and> None \<notin> set xs)) \<and>
         (case table_replace t c xs of
            (Ok _, ys) \<Rightarrow> keys_distinct fst ys \<and> lookup fst t xs \<noteq> None \<and> slots_map fst ys = (slots_map fst xs)(t \<mapsto> (t, c))
          | (Err e, ys) \<Rightarrow> ys = xs \<and> e = CtxMissingTask \<and> lookup fst t xs = None) \<and>
         (case table_revoke t xs of
            (Ok d, ys) \<Rightarrow> keys_distinct fst ys \<and> table_get t xs = Ok d \<and> slots_map fst ys = (slots_map fst xs)(t := None)
          | (Err e, ys) \<Rightarrow> ys = xs \<and> e = CtxMissingTask \<and> lookup fst t xs = None)"
proof (intro conjI)
  show "case table_bind t c xs of
            (Ok _, ys) \<Rightarrow> keys_distinct fst ys \<and> lookup fst t xs = None \<and> slots_map fst ys = (slots_map fst xs)(t \<mapsto> (t, c))
          | (Err e, ys) \<Rightarrow> ys = xs \<and> (e = DuplicateTask \<and> lookup fst t xs \<noteq> None \<or> e = TableFull \<and> None \<notin> set xs)"
  proof (cases "lookup fst t xs = None")
    case True
    then show ?thesis using insert_slot [OF assms, of _ "(t, c)"] free_slot_None_iff [of xs]
      by (simp add: table_bind_def bind_duplicate_iff split: option.splits)
  qed (simp add: table_bind_def bind_duplicate_iff)
  show "case table_replace t c xs of
            (Ok _, ys) \<Rightarrow> keys_distinct fst ys \<and> lookup fst t xs \<noteq> None \<and> slots_map fst ys = (slots_map fst xs)(t \<mapsto> (t, c))
          | (Err e, ys) \<Rightarrow> ys = xs \<and> e = CtxMissingTask \<and> lookup fst t xs = None"
    using modify_slot [OF assms, of t _ "\<lambda>e. (fst e, c)"] lookup_SomeD(1) [of fst t xs]
    by (fastforce simp: table_replace_def split: option.splits)
  show "case table_revoke t xs of
            (Ok d, ys) \<Rightarrow> keys_distinct fst ys \<and> table_get t xs = Ok d \<and> slots_map fst ys = (slots_map fst xs)(t := None)
          | (Err e, ys) \<Rightarrow> ys = xs \<and> e = CtxMissingTask \<and> lookup fst t xs = None"
  proof (cases "slot_of fst t xs")
    case None
    then show ?thesis by (simp add: table_revoke_def flip: slot_of_None_iff)
  next
    case (Some i)
    then obtain e where "xs ! i = Some e" "lookup fst t xs = Some e" by (rule slot_of_SomeE)
    then show ?thesis using remove_slot [OF assms Some] by (simp add: table_revoke_def Some table_get_def)
  qed
qed

theorem context_table_refines_map_witness:
  "\<forall>t c. lookup fst t (snd (table_bind t c (table_new 1))) = Some (t, c)"
proof (intro allI)
  fix t c
  have d: "keys_distinct fst (table_new 1)" unfolding table_new_def by (rule keys_distinct_replicate)
  have "fst (table_bind t c (table_new 1)) = Ok ()"
    by (simp add: table_new_def table_bind_def free_slot_def)
  then show "lookup fst t (snd (table_bind t c (table_new 1))) = Some (t, c)"
    using context_table_refines_map [OF d, of t c] by (auto simp: split_beta fun_eq_iff)
qed

end
