(* ===== verification/Task_Runtime.thy ===== *)
theory Task_Runtime
  imports Ipc User_Mode
begin

text \<open>
  The task runtime, after \<open>crates/mrml-kernel/src/task_runtime.rs\<close>: it owns the scheduler and
  one domain per task (saved context, capability space and a two-message inbox), moves messages
  and capabilities between domains, retires domains on exit and faults, and detaches and attaches
  whole domains for migration between CPUs.
\<close>

section \<open>Definitions\<close>

definition TASK_INBOX_MESSAGES :: nat where "TASK_INBOX_MESSAGES = 2"

datatype task_runtime_error =
  RtFull | RtMissingTask | RtNoCurrentTask | AddressSpaceMismatch | NonRecoverableFault
| RtScheduler kernel_schedule_error | IntegrityFailure | SameTaskIpc | RtIpc ipc_error
| InboxFull | InboxEmpty

record task_domain =
  td_task :: task_id
  td_context :: user_context
  td_capabilities :: capability_space
  td_inbox :: "message option list"
  td_inbox_head :: u8
  td_inbox_tail :: u8
  td_inbox_count :: u8

record detached_task_domain =
  dd_scheduling :: detached_task
  dd_domain :: task_domain

record fault_retirement =
  fr_task :: task_id
  fr_context :: user_context
  fr_vector :: u8
  fr_address :: "u64 option"
  fr_next :: schedule_outcome

record task_termination =
  tt_task :: task_id
  tt_next :: schedule_outcome

record task_runtime =
  tr_scheduler :: kernel_scheduler
  tr_domains :: "task_domain option list"

definition rt_new :: "nat \<Rightarrow> u32 \<Rightarrow> u32 \<Rightarrow> (task_runtime, task_runtime_error) result" where
  "rt_new n ticks_per_second quantum_ticks =
     (case ks_new n ticks_per_second quantum_ticks of
        Err e \<Rightarrow> Err (RtScheduler e)
      | Ok k \<Rightarrow> Ok \<lparr>tr_scheduler = k, tr_domains = replicate n None\<rparr>)"

text \<open>An operation of the scheduler field, with its errors wrapped.\<close>

definition on_kernel ::
  "(kernel_scheduler \<Rightarrow> ('a, kernel_schedule_error) result \<times> kernel_scheduler) \<Rightarrow> task_runtime \<Rightarrow>
     ('a, task_runtime_error) result \<times> task_runtime" where
  "on_kernel f rt =
     (let (r, k) = f (tr_scheduler rt) in (map_err RtScheduler r, rt\<lparr>tr_scheduler := k\<rparr>))"

definition rt_create ::
  "nat \<Rightarrow> priority \<Rightarrow> user_context \<Rightarrow> task_runtime \<Rightarrow> (task_id, task_runtime_error) result \<times> task_runtime" where
  "rt_create caps p context rt =
     (case free_slot (tr_domains rt) of
        None \<Rightarrow> (Err RtFull, rt)
      | Some slot \<Rightarrow>
          (case on_kernel (ks_create p) rt of
             (Err e, rt) \<Rightarrow> (Err e, rt)
           | (Ok t, rt) \<Rightarrow>
               (Ok t, rt\<lparr>tr_domains := (tr_domains rt)[slot := Some
                  \<lparr>td_task = t, td_context = context, td_capabilities = cap_new caps,
                   td_inbox = replicate TASK_INBOX_MESSAGES None, td_inbox_head = 0, td_inbox_tail = 0,
                   td_inbox_count = 0\<rparr>]\<rparr>)))"

definition rt_start :: "task_runtime \<Rightarrow> schedule_outcome \<times> task_runtime" where
  "rt_start rt = (let (r, k) = ks_start (tr_scheduler rt) in (r, rt\<lparr>tr_scheduler := k\<rparr>))"

definition rt_current :: "task_runtime \<Rightarrow> task_id option" where
  "rt_current rt = ks_current (tr_scheduler rt)"

definition rt_load :: "task_runtime \<Rightarrow> scheduler_load" where
  "rt_load rt = ks_load (tr_scheduler rt)"

definition rt_timer_tick ::
  "task_runtime \<Rightarrow> (schedule_outcome, task_runtime_error) result \<times> task_runtime" where
  "rt_timer_tick = on_kernel ks_timer_tick"

definition rt_yield_current ::
  "task_runtime \<Rightarrow> (schedule_outcome, task_runtime_error) result \<times> task_runtime" where
  "rt_yield_current = on_kernel ks_yield_current"

abbreviation rt_domain :: "task_runtime \<Rightarrow> task_id \<Rightarrow> task_domain option" where
  "rt_domain rt t \<equiv> lookup td_task t (tr_domains rt)"

definition rt_context :: "task_id \<Rightarrow> task_runtime \<Rightarrow> (user_context, task_runtime_error) result" where
  "rt_context t rt = ok_or (map_option td_context (rt_domain rt t)) RtMissingTask"

text \<open>\<open>context_mut\<close> lends a domain's saved context to an update of the caller.\<close>

definition rt_context_mut ::
  "task_id \<Rightarrow> (user_context \<Rightarrow> user_context) \<Rightarrow> task_runtime \<Rightarrow> (unit, task_runtime_error) result \<times> task_runtime" where
  "rt_context_mut t f rt =
     (case rt_domain rt t of
        None \<Rightarrow> (Err RtMissingTask, rt)
      | Some _ \<Rightarrow>
          (Ok (), rt\<lparr>tr_domains := modify td_task t (\<lambda>d. d\<lparr>td_context := f (td_context d)\<rparr>) (tr_domains rt)\<rparr>))"

definition rt_preempt_current ::
  "user_context \<Rightarrow> task_runtime \<Rightarrow> (schedule_outcome, task_runtime_error) result \<times> task_runtime" where
  "rt_preempt_current interrupted rt =
     (case ks_current (tr_scheduler rt) of
        None \<Rightarrow> (Err RtNoCurrentTask, rt)
      | Some current \<Rightarrow>
          (case rt_domain rt current of
             None \<Rightarrow> (Err IntegrityFailure, rt)
           | Some d \<Rightarrow>
               if uc_page_table (td_context d) \<noteq> uc_page_table interrupted then (Err AddressSpaceMismatch, rt)
               else (case on_kernel ks_timer_tick rt of
                  (Err e, rt) \<Rightarrow> (Err e, rt)
                | (Ok outcome, rt) \<Rightarrow>
                    (case rt_context_mut current (\<lambda>_. interrupted) rt of
                       (Err e, rt) \<Rightarrow> (Err e, rt)
                     | (Ok _, rt) \<Rightarrow> (Ok outcome, rt)))))"

definition rt_detach_domain ::
  "task_id \<Rightarrow> task_runtime \<Rightarrow> (detached_task_domain, task_runtime_error) result \<times> task_runtime" where
  "rt_detach_domain t rt =
     (case slot_of td_task t (tr_domains rt) of
        None \<Rightarrow> (Err RtMissingTask, rt)
      | Some slot \<Rightarrow>
          (case tr_domains rt ! slot of
             None \<Rightarrow> (Err IntegrityFailure, rt)
           | Some d \<Rightarrow>
               (case on_kernel (ks_detach t) (rt\<lparr>tr_domains := (tr_domains rt)[slot := None]\<rparr>) of
                  (Ok scheduling, rt) \<Rightarrow> (Ok \<lparr>dd_scheduling = scheduling, dd_domain = d\<rparr>, rt)
                | (Err e, rt) \<Rightarrow> (Err e, rt\<lparr>tr_domains := (tr_domains rt)[slot := Some d]\<rparr>))))"

definition rt_detach_domain_for_rebalance ::
  "scheduler_load \<Rightarrow> task_runtime \<Rightarrow>
     (detached_task_domain option, task_runtime_error) result \<times> task_runtime" where
  "rt_detach_domain_for_rebalance destination rt =
     (case ks_rebalance_candidate destination (tr_scheduler rt) of
        Err e \<Rightarrow> (Err (RtScheduler e), rt)
      | Ok None \<Rightarrow> (Ok None, rt)
      | Ok (Some candidate) \<Rightarrow>
          (case rt_domain rt candidate of
             None \<Rightarrow> (Err IntegrityFailure, rt)
           | Some _ \<Rightarrow>
               (case rt_detach_domain candidate rt of
                  (Err e, rt) \<Rightarrow> (Err e, rt)
                | (Ok d, rt) \<Rightarrow> (Ok (Some d), rt))))"

text \<open>The ticket is taken out of the caller's option and put back on a refusal.\<close>

definition rt_attach_domain ::
  "detached_task_domain option \<Rightarrow> task_runtime \<Rightarrow>
     (task_migration, task_runtime_error) result \<times> detached_task_domain option \<times> task_runtime" where
  "rt_attach_domain ticket rt =
     (case free_slot (tr_domains rt) of
        None \<Rightarrow> (Err RtFull, ticket, rt)
      | Some slot \<Rightarrow>
          (case ticket of
             None \<Rightarrow> (Err RtMissingTask, None, rt)
           | Some dd \<Rightarrow>
               (case ks_attach (dd_scheduling dd) (tr_scheduler rt) of
                  (Ok m, k) \<Rightarrow>
                    (Ok m, None, rt\<lparr>tr_scheduler := k, tr_domains := (tr_domains rt)[slot :=
                       Some ((dd_domain dd)\<lparr>td_task := mig_destination m\<rparr>)]\<rparr>)
                | (Err (e, scheduling), k) \<Rightarrow>
                    (Err (RtScheduler e), Some \<lparr>dd_scheduling = scheduling, dd_domain = dd_domain dd\<rparr>,
                     rt\<lparr>tr_scheduler := k\<rparr>))))"

text \<open>\<open>capabilities_mut\<close> lends the space of one domain to an operation of the caller.\<close>

definition rt_capabilities_mut ::
  "task_id \<Rightarrow> (capability_space \<Rightarrow> 'a \<times> capability_space) \<Rightarrow> task_runtime \<Rightarrow>
     ('a, task_runtime_error) result \<times> task_runtime" where
  "rt_capabilities_mut t f rt =
     (case rt_domain rt t of
        None \<Rightarrow> (Err RtMissingTask, rt)
      | Some d \<Rightarrow>
          let (r, s) = f (td_capabilities d) in
          (Ok r, rt\<lparr>tr_domains := modify td_task t (\<lambda>d. d\<lparr>td_capabilities := s\<rparr>) (tr_domains rt)\<rparr>))"

text \<open>Both retirements take the whole domain out first and then ask for a replacement.\<close>

definition retire_current ::
  "task_runtime \<Rightarrow> (task_domain \<times> schedule_outcome, task_runtime_error) result \<times> task_runtime" where
  "retire_current rt =
     (case ks_current (tr_scheduler rt) of
        None \<Rightarrow> (Err RtNoCurrentTask, rt)
      | Some current \<Rightarrow>
          (case slot_of td_task current (tr_domains rt) of
             None \<Rightarrow> (Err IntegrityFailure, rt)
           | Some slot \<Rightarrow>
               (case tr_domains rt ! slot of
                  None \<Rightarrow> (Err IntegrityFailure, rt)
                | Some d \<Rightarrow>
                    (case on_kernel ks_terminate_current (rt\<lparr>tr_domains := (tr_domains rt)[slot := None]\<rparr>) of
                       (Err e, rt) \<Rightarrow> (Err e, rt)
                     | (Ok outcome, rt) \<Rightarrow> (Ok (d, outcome), rt)))))"

definition rt_terminate_current_fault ::
  "trap_disposition \<Rightarrow> task_runtime \<Rightarrow> (fault_retirement, task_runtime_error) result \<times> task_runtime" where
  "rt_terminate_current_fault disposition rt =
     (case disposition of
        HaltKernel _ \<Rightarrow> (Err NonRecoverableFault, rt)
      | TerminateUser vector address \<Rightarrow>
          (case retire_current rt of
             (Err e, rt) \<Rightarrow> (Err e, rt)
           | (Ok (d, outcome), rt') \<Rightarrow>
               (Ok \<lparr>fr_task = the (ks_current (tr_scheduler rt)), fr_context = td_context d,
                    fr_vector = vector, fr_address = address, fr_next = outcome\<rparr>, rt')))"

definition rt_terminate_current ::
  "task_runtime \<Rightarrow> (task_termination, task_runtime_error) result \<times> task_runtime" where
  "rt_terminate_current rt =
     (case retire_current rt of
        (Err e, rt) \<Rightarrow> (Err e, rt)
      | (Ok (d, outcome), rt') \<Rightarrow>
          (Ok \<lparr>tt_task = the (ks_current (tr_scheduler rt)), tt_next = outcome\<rparr>, rt'))"

definition two_domains_mut ::
  "task_domain option list \<Rightarrow> nat \<Rightarrow> nat \<Rightarrow> (task_domain \<times> task_domain) option" where
  "two_domains_mut domains first second =
     (if first = second \<or> first \<ge> length domains \<or> second \<ge> length domains then None
      else case domains ! first of
        None \<Rightarrow> None
      | Some a \<Rightarrow> (case domains ! second of None \<Rightarrow> None | Some b \<Rightarrow> Some (a, b)))"

text \<open>The roll-back loop of a refused send; False where a revocation fails.\<close>

fun revoke_each :: "capability list \<Rightarrow> capability_space \<Rightarrow> bool \<times> capability_space" where
  "revoke_each [] s = (True, s)"
| "revoke_each (c # cs) s =
     (case cap_revoke c s of
        (Ok _, s') \<Rightarrow> revoke_each cs s'
      | (Err _, s') \<Rightarrow> (False, s'))"

definition rt_send_ipc ::
  "task_id \<Rightarrow> task_id \<Rightarrow> capability \<Rightarrow> bytes \<Rightarrow> (capability \<times> rights) list \<Rightarrow> endpoint \<Rightarrow> task_runtime \<Rightarrow>
     (u64 \<times> message, task_runtime_error) result \<times> endpoint \<times> task_runtime" where
  "rt_send_ipc sender receiver cap payload requested ep rt =
     (if sender = receiver then (Err SameTaskIpc, ep, rt)
      else case slot_of td_task sender (tr_domains rt) of
        None \<Rightarrow> (Err RtMissingTask, ep, rt)
      | Some sender_slot \<Rightarrow>
      (case slot_of td_task receiver (tr_domains rt) of
        None \<Rightarrow> (Err RtMissingTask, ep, rt)
      | Some receiver_slot \<Rightarrow>
      (case two_domains_mut (tr_domains rt) sender_slot receiver_slot of
        None \<Rightarrow> (Err IntegrityFailure, ep, rt)
      | Some (source, destination) \<Rightarrow>
          let store = (\<lambda>s. rt\<lparr>tr_domains := (tr_domains rt)[receiver_slot :=
                             Some (destination\<lparr>td_capabilities := s\<rparr>)]\<rparr>) in
          (case message_transfer payload requested (td_capabilities source) (td_capabilities destination) of
             (Err e, s) \<Rightarrow> (Err (RtIpc e), ep, store s)
           | (Ok m, s) \<Rightarrow>
               (case authorize_send ep (td_capabilities source) cap m of
                  (Ok sequence, ep) \<Rightarrow> (Ok (sequence, m), ep, store s)
                | (Err e, ep) \<Rightarrow>
                    (case revoke_each (message_capabilities m) s of
                       (True, s) \<Rightarrow> (Err (RtIpc e), ep, store s)
                     | (False, s) \<Rightarrow> (Err IntegrityFailure, ep, store s)))))))"

definition rt_deliver_ipc ::
  "task_id \<Rightarrow> task_id \<Rightarrow> capability \<Rightarrow> bytes \<Rightarrow> (capability \<times> rights) list \<Rightarrow> endpoint \<Rightarrow> task_runtime \<Rightarrow>
     (u64, task_runtime_error) result \<times> endpoint \<times> task_runtime" where
  "rt_deliver_ipc sender receiver cap payload requested ep rt =
     (case slot_of td_task receiver (tr_domains rt) of
        None \<Rightarrow> (Err RtMissingTask, ep, rt)
      | Some receiver_slot \<Rightarrow>
      if \<not> is_some_and (\<lambda>d. unat (td_inbox_count d) \<noteq> TASK_INBOX_MESSAGES) (tr_domains rt ! receiver_slot)
      then (Err InboxFull, ep, rt)
      else case rt_send_ipc sender receiver cap payload requested ep rt of
        (Err e, ep, rt) \<Rightarrow> (Err e, ep, rt)
      | (Ok (sequence, m), ep, rt) \<Rightarrow>
      (case tr_domains rt ! receiver_slot of
        None \<Rightarrow> (Err IntegrityFailure, ep, rt)
      | Some d \<Rightarrow>
          let tail = unat (td_inbox_tail d) in
          if td_inbox d ! tail \<noteq> None then (Err IntegrityFailure, ep, rt)
          else
          let d' = d\<lparr>td_inbox := (td_inbox d)[tail := Some m],
                      td_inbox_tail := of_nat ((tail + 1) mod TASK_INBOX_MESSAGES),
                      td_inbox_count := td_inbox_count d + 1\<rparr> in
          (case on_kernel (ks_wake receiver) (rt\<lparr>tr_domains := (tr_domains rt)[receiver_slot := Some d']\<rparr>) of
             (Err e, rt) \<Rightarrow> (Err e, ep, rt)
           | (Ok _, rt) \<Rightarrow> (Ok sequence, ep, rt))))"

definition rt_receive_ipc ::
  "task_id \<Rightarrow> task_runtime \<Rightarrow> (message, task_runtime_error) result \<times> task_runtime" where
  "rt_receive_ipc t rt =
     (case rt_domain rt t of
        None \<Rightarrow> (Err RtMissingTask, rt)
      | Some d \<Rightarrow>
          if td_inbox_count d = 0 then (Err InboxEmpty, rt)
          else let head = unat (td_inbox_head d) in
            (case td_inbox d ! head of
               None \<Rightarrow> (Err IntegrityFailure, rt)
             | Some m \<Rightarrow>
                 (Ok m, rt\<lparr>tr_domains := modify td_task t
                    (\<lambda>d. d\<lparr>td_inbox := (td_inbox d)[head := None],
                           td_inbox_head := of_nat ((head + 1) mod TASK_INBOX_MESSAGES),
                           td_inbox_count := td_inbox_count d - 1\<rparr>) (tr_domains rt)\<rparr>)))"

text \<open>The inner sum: a message, or the outcome of blocking.\<close>

definition rt_receive_or_block_current ::
  "task_runtime \<Rightarrow> (message + schedule_outcome, task_runtime_error) result \<times> task_runtime" where
  "rt_receive_or_block_current rt =
     (case ks_current (tr_scheduler rt) of
        None \<Rightarrow> (Err RtNoCurrentTask, rt)
      | Some current \<Rightarrow>
          (case rt_receive_ipc current rt of
             (Ok m, rt) \<Rightarrow> (Ok (Inl m), rt)
           | (Err InboxEmpty, rt) \<Rightarrow>
               (case on_kernel ks_block_current rt of
                  (Ok outcome, rt) \<Rightarrow> (Ok (Inr outcome), rt)
                | (Err e, rt) \<Rightarrow> (Err e, rt))
           | (Err e, rt) \<Rightarrow> (Err e, rt)))"

section \<open>The inbox as a queue\<close>

text \<open>Which slots of the ring are in use: \<open>count\<close> slots from \<open>head\<close>, wrapping around.\<close>

definition inbox_ok :: "task_domain \<Rightarrow> bool" where
  "inbox_ok d \<longleftrightarrow> length (td_inbox d) = 2 \<and> td_inbox_head d \<in> {0, 1} \<and> td_inbox_count d \<in> {0, 1, 2} \<and>
     td_inbox_tail d = of_nat ((unat (td_inbox_head d) + unat (td_inbox_count d)) mod 2) \<and>
     (\<forall>i < 2. td_inbox d ! i = None \<longleftrightarrow> (i + 2 - unat (td_inbox_head d)) mod 2 \<ge> unat (td_inbox_count d))"

definition inbox_queue :: "task_domain \<Rightarrow> message list" where
  "inbox_queue d = map (\<lambda>k. the (td_inbox d ! ((unat (td_inbox_head d) + k) mod 2))) [0..<unat (td_inbox_count d)]"

text \<open>The four shapes of the ring.\<close>

lemma inbox_cases:
  assumes "inbox_ok d"
  obtains (empty) h where "td_inbox d = [None, None]" "td_inbox_head d = h" "td_inbox_tail d = h"
      "td_inbox_count d = 0" "h \<in> {0, 1}" "inbox_queue d = []"
  | (one0) m where "td_inbox d = [Some m, None]" "td_inbox_head d = 0" "td_inbox_tail d = 1"
      "td_inbox_count d = 1" "inbox_queue d = [m]"
  | (one1) m where "td_inbox d = [None, Some m]" "td_inbox_head d = 1" "td_inbox_tail d = 0"
      "td_inbox_count d = 1" "inbox_queue d = [m]"
  | (two0) m n where "td_inbox d = [Some m, Some n]" "td_inbox_head d = 0" "td_inbox_tail d = 0"
      "td_inbox_count d = 2" "inbox_queue d = [m, n]"
  | (two1) m n where "td_inbox d = [Some n, Some m]" "td_inbox_head d = 1" "td_inbox_tail d = 1"
      "td_inbox_count d = 2" "inbox_queue d = [m, n]"
proof -
  obtain x y where i: "td_inbox d = [x, y]"
    using assms unfolding inbox_ok_def by (metis (no_types) length_0_conv length_Suc_conv numeral_2_eq_2)
  have h: "td_inbox_head d = 0 \<or> td_inbox_head d = 1" and c: "td_inbox_count d = 0 \<or> td_inbox_count d = 1 \<or> td_inbox_count d = 2"
    and t: "td_inbox_tail d = of_nat ((unat (td_inbox_head d) + unat (td_inbox_count d)) mod 2)"
    using assms by (auto simp: inbox_ok_def)
  have "\<forall>j < 2. td_inbox d ! j = None \<longleftrightarrow> (j + 2 - unat (td_inbox_head d)) mod 2 \<ge> unat (td_inbox_count d)"
    using assms by (simp add: inbox_ok_def)
  from this [rule_format, of 0] this [rule_format, of 1]
  have x: "x = None \<longleftrightarrow> (2 - unat (td_inbox_head d)) mod 2 \<ge> unat (td_inbox_count d)"
    and y: "y = None \<longleftrightarrow> (3 - unat (td_inbox_head d)) mod 2 \<ge> unat (td_inbox_count d)"
    by (simp_all add: i numeral_2_eq_2 numeral_3_eq_3)
  have q: "inbox_queue d = map (\<lambda>k. the ([x, y] ! ((unat (td_inbox_head d) + k) mod 2))) [0..<unat (td_inbox_count d)]"
    by (simp add: inbox_queue_def i)
  have upt: "[0..<2] = [0, 1 :: nat]" by (simp add: upt_rec)
  from h c consider "td_inbox_count d = 0" | "td_inbox_count d = 1" "td_inbox_head d = 0"
    | "td_inbox_count d = 1" "td_inbox_head d = 1" | "td_inbox_count d = 2" "td_inbox_head d = 0"
    | "td_inbox_count d = 2" "td_inbox_head d = 1" by blast
  then show thesis
  proof cases
    case 1
    have "td_inbox d = [None, None]" "inbox_queue d = []" using 1 x y i q by simp_all
    moreover have "td_inbox_tail d = td_inbox_head d" using 1 t h by auto
    ultimately show thesis using 1 h by (intro empty) auto
  next
    case 2
    then have "x \<noteq> None" "y = None" "td_inbox_tail d = 1" "inbox_queue d = [the x]" using x y t q by simp_all
    then show thesis using 2 i by (intro one0 [of "the x"]) auto
  next
    case 3
    then have "x = None" "y \<noteq> None" "td_inbox_tail d = 0" "inbox_queue d = [the y]" using x y t q by simp_all
    then show thesis using 3 i by (intro one1 [of "the y"]) auto
  next
    case 4
    then have "x \<noteq> None" "y \<noteq> None" "td_inbox_tail d = 0" "inbox_queue d = [the x, the y]" using x y t q upt by simp_all
    then show thesis using 4 i by (intro two0 [of "the x" "the y"]) auto
  next
    case 5
    then have "x \<noteq> None" "y \<noteq> None" "td_inbox_tail d = 1" "inbox_queue d = [the y, the x]" using x y t q upt by simp_all
    then show thesis using 5 i by (intro two1 [of "the x" "the y"]) auto
  qed
qed

definition inbox_push :: "message \<Rightarrow> task_domain \<Rightarrow> task_domain" where
  "inbox_push m d = d\<lparr>td_inbox := (td_inbox d)[unat (td_inbox_tail d) := Some m],
     td_inbox_tail := of_nat ((unat (td_inbox_tail d) + 1) mod 2), td_inbox_count := td_inbox_count d + 1\<rparr>"

definition inbox_pop :: "task_domain \<Rightarrow> task_domain" where
  "inbox_pop d = d\<lparr>td_inbox := (td_inbox d)[unat (td_inbox_head d) := None],
     td_inbox_head := of_nat ((unat (td_inbox_head d) + 1) mod 2), td_inbox_count := td_inbox_count d - 1\<rparr>"

lemmas inbox_eval = inbox_ok_def inbox_queue_def inbox_push_def inbox_pop_def less_2_cases_iff upt_rec

lemma inbox_count_queue: "inbox_ok d \<Longrightarrow> length (inbox_queue d) = unat (td_inbox_count d)"
  by (simp add: inbox_queue_def)

lemma inbox_push:
  assumes "inbox_ok d" and "unat (td_inbox_count d) \<noteq> 2"
  shows "inbox_ok (inbox_push m d)" "inbox_queue (inbox_push m d) = inbox_queue d @ [m]"
    and "td_inbox d ! unat (td_inbox_tail d) = None"
  using assms by (cases rule: inbox_cases; auto simp: inbox_eval)+

lemma inbox_pop:
  assumes "inbox_ok d" and "td_inbox_count d \<noteq> 0"
  shows "inbox_ok (inbox_pop d)" "inbox_queue d = the (td_inbox d ! unat (td_inbox_head d)) # inbox_queue (inbox_pop d)"
    and "td_inbox d ! unat (td_inbox_head d) \<noteq> None"
  using assms by (cases rule: inbox_cases; auto simp: inbox_eval)+

lemma inbox_push_other [simp]:
  "td_task (inbox_push m d) = td_task d" "td_context (inbox_push m d) = td_context d"
  "td_capabilities (inbox_push m d) = td_capabilities d"
  "td_task (inbox_pop d) = td_task d" "td_context (inbox_pop d) = td_context d"
  "td_capabilities (inbox_pop d) = td_capabilities d"
  by (simp_all add: inbox_push_def inbox_pop_def)

section \<open>The invariant\<close>

text \<open>
  The runtime's domains are exactly the tasks its scheduler knows, one domain per task, each
  with a well-formed capability space and inbox.
\<close>

definition domain_ok :: "task_domain \<Rightarrow> bool" where
  "domain_ok d \<longleftrightarrow> cap_inv (td_capabilities d) \<and> inbox_ok d"

definition rt_inv :: "task_runtime \<Rightarrow> bool" where
  "rt_inv rt \<longleftrightarrow> ks_inv (tr_scheduler rt) \<and> keys_distinct td_task (tr_domains rt) \<and>
     (\<forall>h. ks_view (tr_scheduler rt) h = None \<longleftrightarrow> rt_domain rt h = None) \<and>
     (\<forall>h d. rt_domain rt h = Some d \<longrightarrow> domain_ok d)"

lemma rt_invD:
  assumes "rt_inv rt"
  shows "ks_inv (tr_scheduler rt)" "keys_distinct td_task (tr_domains rt)"
    and "ks_view (tr_scheduler rt) h = None \<longleftrightarrow> rt_domain rt h = None"
    and "rt_domain rt h = Some d \<Longrightarrow> cap_inv (td_capabilities d) \<and> inbox_ok d"
  using assms by (auto simp: rt_inv_def domain_ok_def)

lemma rt_current_domain:
  assumes "rt_inv rt" and "ks_current (tr_scheduler rt) = Some h"
  obtains d where "rt_domain rt h = Some d"
  using ks_invD(4) [OF rt_invD(1) [OF assms(1)] assms(2)] rt_invD(3) [OF assms(1), of h] by fastforce

text \<open>Scheduler steps that keep the set of tasks.\<close>

lemma rt_inv_scheduler:
  assumes "rt_inv rt" and "ks_inv k" and "\<And>h. ks_view k h = None \<longleftrightarrow> ks_view (tr_scheduler rt) h = None"
  shows "rt_inv (rt\<lparr>tr_scheduler := k\<rparr>)"
  using assms by (simp add: rt_inv_def)

text \<open>Replacing one domain by another of the same task.\<close>

lemma rt_inv_domain:
  assumes "rt_inv rt" and "rt_domain rt t \<noteq> None" and "domain_ok d"
    and "keys_distinct td_task ds" and "slots_map td_task ds = (slots_map td_task (tr_domains rt))(t \<mapsto> d)"
  shows "rt_inv (rt\<lparr>tr_domains := ds\<rparr>)"
  using assms by (auto simp: rt_inv_def fun_eq_iff)

lemma domain_task: "rt_domain rt t = Some d \<Longrightarrow> td_task d = t"
  by (rule lookup_SomeD(1))

lemma rt_inv_modify:
  assumes "rt_inv rt" and "rt_domain rt t = Some d" and "td_task (f d) = t" and "domain_ok (f d)"
  shows "rt_inv (rt\<lparr>tr_domains := modify td_task t f (tr_domains rt)\<rparr>)"
    and "slots_map td_task (modify td_task t f (tr_domains rt)) = (slots_map td_task (tr_domains rt))(t \<mapsto> f d)"
proof -
  note m = modify_slot [where f = f, OF rt_invD(2) [OF assms(1)] assms(2,3)]
  show "slots_map td_task (modify td_task t f (tr_domains rt)) = (slots_map td_task (tr_domains rt))(t \<mapsto> f d)"
    by (rule m(2))
  show "rt_inv (rt\<lparr>tr_domains := modify td_task t f (tr_domains rt)\<rparr>)"
    by (rule rt_inv_domain [OF assms(1) _ assms(4) m]) (simp add: assms(2))
qed

lemma on_kernel_simps [simp]:
  "snd (on_kernel f rt) = rt\<lparr>tr_scheduler := snd (f (tr_scheduler rt))\<rparr>"
  "fst (on_kernel f rt) = map_err RtScheduler (fst (f (tr_scheduler rt)))"
  by (simp_all add: on_kernel_def split_beta)

lemma on_kernel_split: "on_kernel f rt = (map_err RtScheduler (fst (f (tr_scheduler rt))), rt\<lparr>tr_scheduler := snd (f (tr_scheduler rt))\<rparr>)"
  by (simp add: on_kernel_def split_beta)

section \<open>Creation, scheduling and preemption\<close>

lemma fresh_domain_ok:
  "n \<le> 2 ^ 32 \<Longrightarrow> domain_ok \<lparr>td_task = t, td_context = c, td_capabilities = cap_new n,
     td_inbox = replicate TASK_INBOX_MESSAGES None, td_inbox_head = 0, td_inbox_tail = 0, td_inbox_count = 0\<rparr>"
  by (simp add: domain_ok_def inbox_ok_def TASK_INBOX_MESSAGES_def)

text \<open>A new identity with a new domain in a free slot.\<close>

lemma rt_inv_insert:
  assumes "rt_inv rt" and "free_slot (tr_domains rt) = Some i" and "domain_ok d"
    and "ks_inv k" "ks_view (tr_scheduler rt) (td_task d) = None" "ks_view k = (ks_view (tr_scheduler rt))(td_task d \<mapsto> v)"
  shows "rt_inv (rt\<lparr>tr_scheduler := k, tr_domains := (tr_domains rt)[i := Some d]\<rparr>)"
    and "slots_map td_task ((tr_domains rt)[i := Some d]) = (slots_map td_task (tr_domains rt))(td_task d \<mapsto> d)"
proof -
  have "rt_domain rt (td_task d) = None" using assms(5) rt_invD(3) [OF assms(1)] by simp
  note ins = insert_slot [OF rt_invD(2) [OF assms(1)] assms(2) this]
  show "slots_map td_task ((tr_domains rt)[i := Some d]) = (slots_map td_task (tr_domains rt))(td_task d \<mapsto> d)"
    by (rule ins(2))
  show "rt_inv (rt\<lparr>tr_scheduler := k, tr_domains := (tr_domains rt)[i := Some d]\<rparr>)"
    using assms(1,3,4,6) ins by (auto simp: rt_inv_def fun_eq_iff)
qed

lemma rt_create_inv:
  assumes "rt_inv rt" and "caps \<le> 2 ^ 32"
  shows "rt_inv (snd (rt_create caps p c rt))"
proof (cases "free_slot (tr_domains rt)")
  case (Some i)
  show ?thesis using rt_invD(1) [OF assms(1)]
  proof (cases rule: ks_createE [where p = p])
    case (ok h k')
    let ?d = "\<lparr>td_task = h, td_context = c, td_capabilities = cap_new caps,
      td_inbox = replicate TASK_INBOX_MESSAGES None, td_inbox_head = 0, td_inbox_tail = 0, td_inbox_count = 0\<rparr>"
    have "rt_inv (rt\<lparr>tr_scheduler := k', tr_domains := (tr_domains rt)[i := Some ?d]\<rparr>)"
      using ok by (intro rt_inv_insert(1) [OF assms(1) Some fresh_domain_ok [OF assms(2)] ok(2)]) simp_all
    then show ?thesis using Some ok(1) by (simp add: rt_create_def on_kernel_split)
  next
    case full
    then show ?thesis using Some assms(1) by (simp add: rt_create_def on_kernel_split)
  qed
qed (simp add: rt_create_def assms)

lemma rt_select_inv:
  assumes "rt_inv rt"
  shows "rt_inv (snd (rt_start rt))" "rt_inv (snd (rt_timer_tick rt))" "rt_inv (snd (rt_yield_current rt))"
  using assms ks_select_views [OF rt_invD(1) [OF assms]] rt_invD(1) [OF assms]
  by (auto simp: rt_start_def rt_timer_tick_def rt_yield_current_def split_beta
      intro!: rt_inv_scheduler ks_start_inv ks_timer_tick_inv ks_yield_inv)

lemma domain_ok_context: "domain_ok d \<Longrightarrow> domain_ok (d\<lparr>td_context := c\<rparr>)"
  by (simp add: domain_ok_def inbox_ok_def)

lemma domain_ok_caps: "domain_ok d \<Longrightarrow> cap_inv s \<Longrightarrow> domain_ok (d\<lparr>td_capabilities := s\<rparr>)"
  by (simp add: domain_ok_def inbox_ok_def)

lemma rt_domain_ok: "rt_inv rt \<Longrightarrow> rt_domain rt t = Some d \<Longrightarrow> domain_ok d"
  by (auto simp: rt_inv_def)

lemma rt_preempt_eq:
  assumes "rt_inv rt" and "ks_current (tr_scheduler rt) = Some t" and "rt_domain rt t = Some d"
    and "uc_page_table (td_context d) = uc_page_table c" and "fst (ks_timer_tick (tr_scheduler rt)) = Ok out"
  shows "rt_preempt_current c rt = (Ok out, rt\<lparr>tr_scheduler := snd (ks_timer_tick (tr_scheduler rt)),
     tr_domains := modify td_task t (\<lambda>d. d\<lparr>td_context := c\<rparr>) (tr_domains rt)\<rparr>)"
  using assms by (simp add: rt_preempt_current_def rt_context_mut_def on_kernel_split)

lemma rt_preempt_inv: "rt_inv rt \<Longrightarrow> rt_inv (snd (rt_preempt_current c rt))"
proof -
  assume inv: "rt_inv rt"
  have tick: "rt_inv (rt\<lparr>tr_scheduler := snd (ks_timer_tick (tr_scheduler rt))\<rparr>)"
    using rt_select_inv(2) [OF inv] by (simp add: rt_timer_tick_def)
  show ?thesis
  proof (cases "ks_current (tr_scheduler rt)")
    case (Some t)
    then obtain d where d: "rt_domain rt t = Some d" using rt_current_domain [OF inv] by metis
    have "rt_inv (rt\<lparr>tr_scheduler := snd (ks_timer_tick (tr_scheduler rt)),
        tr_domains := modify td_task t (\<lambda>d. d\<lparr>td_context := c\<rparr>) (tr_domains rt)\<rparr>)"
      using rt_inv_modify(1) [OF tick, of t d "\<lambda>d. d\<lparr>td_context := c\<rparr>"] d domain_task [OF d]
        domain_ok_context [OF rt_domain_ok [OF inv d]] by simp
    then show ?thesis using Some d inv tick
      by (auto simp: rt_preempt_current_def rt_context_mut_def on_kernel_split split: result.splits)
  qed (simp add: rt_preempt_current_def inv)
qed

lemma rt_context_mut_inv: "rt_inv rt \<Longrightarrow> rt_inv (snd (rt_context_mut t f rt))"
proof (cases "rt_domain rt t")
  case (Some d)
  assume inv: "rt_inv rt"
  show ?thesis
    using rt_inv_modify(1) [OF inv Some, of "\<lambda>d. d\<lparr>td_context := f (td_context d)\<rparr>"] domain_task [OF Some]
      domain_ok_context [OF rt_domain_ok [OF inv Some]] Some by (simp add: rt_context_mut_def)
qed (simp add: rt_context_mut_def)

section \<open>Whole domains: detach, attach, retire\<close>

lemma rt_inv_remove:
  assumes "rt_inv rt" and "slot_of td_task t (tr_domains rt) = Some i"
    and "ks_inv k" "ks_view k = (ks_view (tr_scheduler rt))(t := None)"
  shows "rt_inv (rt\<lparr>tr_domains := (tr_domains rt)[i := None], tr_scheduler := k\<rparr>)"
    and "slots_map td_task ((tr_domains rt)[i := None]) = (slots_map td_task (tr_domains rt))(t := None)"
proof -
  note r = remove_slot [OF rt_invD(2) [OF assms(1)] assms(2)]
  show "slots_map td_task ((tr_domains rt)[i := None]) = (slots_map td_task (tr_domains rt))(t := None)" by (rule r(2))
  show "rt_inv (rt\<lparr>tr_domains := (tr_domains rt)[i := None], tr_scheduler := k\<rparr>)"
    using assms(1,3,4) r by (auto simp: rt_inv_def fun_eq_iff)
qed

lemma rt_slotE:
  assumes "rt_domain rt t = Some d"
  obtains i where "slot_of td_task t (tr_domains rt) = Some i" "i < length (tr_domains rt)" "tr_domains rt ! i = Some d"
  using lookup_SomeD(2) [OF assms] by auto

lemma rt_detachE:
  assumes "rt_inv rt"
  obtains (ok) d st p i where "rt_domain rt t = Some d" "ks_view (tr_scheduler rt) t = Some (st, p)"
      "slot_of td_task t (tr_domains rt) = Some i" "ks_current (tr_scheduler rt) \<noteq> Some t"
      "rt_detach_domain t rt = (Ok \<lparr>dd_scheduling = \<lparr>det_source = t, det_state = st, det_priority = p\<rparr>, dd_domain = d\<rparr>,
         rt\<lparr>tr_domains := (tr_domains rt)[i := None],
            tr_scheduler := (tr_scheduler rt)\<lparr>ks_scheduler := snd (sched_remove t (ks_scheduler (tr_scheduler rt)))\<rparr>\<rparr>)"
  | (missing) "rt_domain rt t = None" "rt_detach_domain t rt = (Err RtMissingTask, rt)"
  | (current) "ks_current (tr_scheduler rt) = Some t"
      "rt_detach_domain t rt = (Err (RtScheduler CurrentTaskCannotMigrate), rt)"
proof (cases "rt_domain rt t")
  case None
  then show thesis using missing by (simp add: rt_detach_domain_def flip: slot_of_None_iff)
next
  case (Some d)
  then obtain i where i: "slot_of td_task t (tr_domains rt) = Some i" "tr_domains rt ! i = Some d"
    by (rule rt_slotE)
  obtain st p where v: "ks_view (tr_scheduler rt) t = Some (st, p)"
    using rt_invD(3) [OF assms, of t] Some by fastforce
  show thesis
  proof (cases "ks_current (tr_scheduler rt) = Some t")
    case True
    then have "rt_detach_domain t rt = (Err (RtScheduler CurrentTaskCannotMigrate), rt)"
      using i list_update_id [of "tr_domains rt" i] by (simp add: rt_detach_domain_def on_kernel_split ks_detach_eq)
    then show thesis using current True by simp
  next
    case False
    then show thesis using ok [OF Some v i(1) False] i v
      by (simp add: rt_detach_domain_def on_kernel_split ks_detach_eq)
  qed
qed

lemma rt_detach_inv: "rt_inv rt \<Longrightarrow> rt_inv (snd (rt_detach_domain t rt))"
proof -
  assume inv: "rt_inv rt"
  then show ?thesis
  proof (cases rule: rt_detachE [where t = t])
    case (ok d st p i)
    then show ?thesis
      using rt_inv_remove(1) [OF inv ok(3) ks_remove_inv [OF rt_invD(1) [OF inv] ok(4)]]
      by (simp add: remove_eqs)
  qed (simp_all add: inv)
qed

lemma domain_ok_task: "domain_ok d \<Longrightarrow> domain_ok (d\<lparr>td_task := t\<rparr>)"
  by (simp add: domain_ok_def inbox_ok_def)

lemma rt_attachE:
  assumes "rt_inv rt"
  obtains (ok) i h k' where "free_slot (tr_domains rt) = Some i" "ks_view (tr_scheduler rt) h = None" "ks_inv k'"
      "ks_view k' = (ks_view (tr_scheduler rt))(h \<mapsto> (det_state (dd_scheduling dd), det_priority (dd_scheduling dd)))"
      "rt_attach_domain (Some dd) rt = (Ok \<lparr>mig_source = det_source (dd_scheduling dd), mig_destination = h,
         mig_state = det_state (dd_scheduling dd), mig_priority = det_priority (dd_scheduling dd)\<rparr>, None,
         rt\<lparr>tr_scheduler := k', tr_domains := (tr_domains rt)[i := Some ((dd_domain dd)\<lparr>td_task := h\<rparr>)]\<rparr>)"
  | (refused) e where "rt_attach_domain (Some dd) rt = (Err e, Some dd, rt)" "e = RtFull \<or> e = RtScheduler (SchedulerErr Full)"
proof (cases "free_slot (tr_domains rt)")
  case None
  then show thesis using refused [of RtFull] by (simp add: rt_attach_domain_def)
next
  case (Some i)
  from rt_invD(1) [OF assms] show thesis
  proof (cases rule: ks_attachE [where d = "dd_scheduling dd"])
    case (ok h k')
    then show thesis using that(1) [OF Some, of h k'] Some by (simp add: rt_attach_domain_def)
  next
    case full
    then show thesis using refused [of "RtScheduler (SchedulerErr Full)"] Some by (simp add: rt_attach_domain_def)
  qed
qed

lemma rt_attach_inv:
  assumes "rt_inv rt" and "\<And>dd. ticket = Some dd \<Longrightarrow> domain_ok (dd_domain dd)"
  shows "rt_inv (snd (snd (rt_attach_domain ticket rt)))"
proof (cases ticket)
  case None
  then show ?thesis using assms(1) by (simp add: rt_attach_domain_def split: option.splits)
next
  case (Some dd)
  from assms(1) show ?thesis
  proof (cases rule: rt_attachE [where dd = dd])
    case (ok i h k')
    have "rt_inv (rt\<lparr>tr_scheduler := k', tr_domains := (tr_domains rt)[i := Some ((dd_domain dd)\<lparr>td_task := h\<rparr>)]\<rparr>)"
      using ok(2,4) by (intro rt_inv_insert(1) [OF assms(1) ok(1) domain_ok_task [OF assms(2) [OF Some]] ok(3)]) simp_all
    then show ?thesis using ok(5) Some by simp
  qed (simp add: Some assms(1))
qed

lemma retireE:
  assumes "rt_inv rt"
  obtains (ok) t d i out where "ks_current (tr_scheduler rt) = Some t" "rt_domain rt t = Some d"
      "slot_of td_task t (tr_domains rt) = Some i" "fst (ks_terminate_current (tr_scheduler rt)) = Ok out"
      "retire_current rt = (Ok (d, out), rt\<lparr>tr_domains := (tr_domains rt)[i := None],
         tr_scheduler := snd (ks_terminate_current (tr_scheduler rt))\<rparr>)"
  | (idle) "ks_current (tr_scheduler rt) = None" "retire_current rt = (Err RtNoCurrentTask, rt)"
proof (cases "ks_current (tr_scheduler rt)")
  case None
  then show thesis using idle by (simp add: retire_current_def)
next
  case (Some t)
  obtain d where d: "rt_domain rt t = Some d" using rt_current_domain [OF assms Some] .
  then obtain i where i: "slot_of td_task t (tr_domains rt) = Some i" "tr_domains rt ! i = Some d" by (rule rt_slotE)
  obtain out where out: "fst (ks_terminate_current (tr_scheduler rt)) = Ok out"
    using ks_terminate_view(2) [OF rt_invD(1) [OF assms] Some] by auto
  show thesis using ok [OF Some d i(1) out] Some i out by (simp add: retire_current_def on_kernel_split)
qed

lemma retire_inv: "rt_inv rt \<Longrightarrow> rt_inv (snd (retire_current rt))"
proof -
  assume inv: "rt_inv rt"
  then show ?thesis
  proof (cases rule: retireE)
    case (ok t d i out)
    then show ?thesis
      using rt_inv_remove(1) [OF inv ok(3) ks_terminate_inv [OF rt_invD(1) [OF inv]]
          ks_terminate_view(1) [OF rt_invD(1) [OF inv] ok(1)]] by simp
  qed (simp add: inv)
qed

section \<open>Messages between domains\<close>

lemma revoke_each_spec:
  assumes "cap_inv s" and "distinct cs" and "\<forall>c \<in> set cs. cap_view s c \<noteq> None"
  shows "fst (revoke_each cs s)" "cap_inv (snd (revoke_each cs s))"
    and "cap_view (snd (revoke_each cs s)) = cap_view s |` (- set cs)"
proof -
  have "fst (revoke_each cs s) \<and> cap_inv (snd (revoke_each cs s)) \<and>
     cap_view (snd (revoke_each cs s)) = cap_view s |` (- set cs)"
    using assms
  proof (induction cs arbitrary: s)
    case Nil
    then show ?case by (simp add: restrict_map_def)
  next
    case (Cons c cs)
    obtain r s' where r: "cap_revoke c s = (r, s')" by fastforce
    have view: "cap_view s' = (cap_view s)(c := None)" using cap_revoke_view [of c s] r by simp
    have inv: "cap_inv s'" using cap_revoke_inv [OF Cons.prems(1), of c] r by simp
    have "r = Ok ()"
      using Cons.prems(3) r by (cases r) (auto dest: cap_revoke_errD)
    moreover have "\<forall>c \<in> set cs. cap_view s' c \<noteq> None" using Cons.prems(2,3) view by auto
    ultimately show ?case using Cons.IH [OF inv] Cons.prems(2) r view by (auto simp: restrict_map_def fun_eq_iff)
  qed
  then show "fst (revoke_each cs s)" "cap_inv (snd (revoke_each cs s))"
    "cap_view (snd (revoke_each cs s)) = cap_view s |` (- set cs)" by simp_all
qed

lemma restrict_updates_fresh:
  assumes "\<forall>h \<in> set ds. m h = None" and "length ds = length gs"
  shows "(m(ds [\<mapsto>] gs)) |` (- set ds) = m"
  using assms by (auto simp: restrict_map_def fun_eq_iff)

lemma authorize_send_errD: "authorize_send ep s c m = (Err e, ep') \<Longrightarrow> ep' = ep"
  by (auto simp: authorize_send_def Let_def split: result.splits if_splits option.splits)

text \<open>What the roll-back of a refused send leaves of the receiver's space.\<close>

lemma transfer_rolled_back:
  assumes "message_transfer payload requested src dst = (Ok m, s)" and "cap_inv dst"
  shows "fst (revoke_each (message_capabilities m) s)" "cap_inv (snd (revoke_each (message_capabilities m) s))"
    and "cap_view (snd (revoke_each (message_capabilities m) s)) = cap_view dst"
proof -
  note t = message_transfer_okD [OF assms]
  obtain gs where gs: "list_all2 (transferable src) requested gs"
      "cap_view s = (cap_view dst)(message_capabilities m [\<mapsto>] gs)" using t(7) by auto
  have len: "length (message_capabilities m) = length gs" using list_all2_lengthD [OF gs(1)] t(5) by simp
  have bound: "\<forall>c \<in> set (message_capabilities m). cap_view s c \<noteq> None"
    using len dom_map_upds [of "cap_view dst" "message_capabilities m" gs] by (auto simp: gs(2) dom_def)
  note r = revoke_each_spec [OF t(1) t(4) bound]
  show "fst (revoke_each (message_capabilities m) s)" "cap_inv (snd (revoke_each (message_capabilities m) s))"
    by (rule r)+
  show "cap_view (snd (revoke_each (message_capabilities m) s)) = cap_view dst"
    using r(3) restrict_updates_fresh [OF t(6) len] by (simp add: gs(2))
qed

lemma two_domains_mut_slots:
  assumes "rt_domain rt a = Some x" "slot_of td_task a (tr_domains rt) = Some i"
    and "rt_domain rt b = Some y" "slot_of td_task b (tr_domains rt) = Some j" and "a \<noteq> b"
  shows "two_domains_mut (tr_domains rt) i j = Some (x, y)"
  using assms by (auto simp: two_domains_mut_def elim!: slot_of_SomeE)

text \<open>
  A send either succeeds, or is refused before anything changed, or is refused with the
  receiver's space rebuilt to the same authority.
\<close>

lemma rt_sendE:
  assumes "rt_inv rt"
  obtains (ok) src dst i s m q ep' where "sender \<noteq> receiver" "rt_domain rt sender = Some src"
      "rt_domain rt receiver = Some dst" "slot_of td_task receiver (tr_domains rt) = Some i"
      "message_transfer payload requested (td_capabilities src) (td_capabilities dst) = (Ok m, s)" "cap_inv s"
      "authorize_send ep (td_capabilities src) cap m = (Ok q, ep')"
      "rt_send_ipc sender receiver cap payload requested ep rt =
         (Ok (q, m), ep', rt\<lparr>tr_domains := (tr_domains rt)[i := Some (dst\<lparr>td_capabilities := s\<rparr>)]\<rparr>)"
  | (unchanged) e where "rt_send_ipc sender receiver cap payload requested ep rt = (Err e, ep, rt)"
      "e = SameTaskIpc \<and> sender = receiver \<or>
       e = RtMissingTask \<and> (rt_domain rt sender = None \<or> rt_domain rt receiver = None)"
  | (rolled_back) src dst i s e where "sender \<noteq> receiver" "rt_domain rt sender = Some src"
      "rt_domain rt receiver = Some dst" "slot_of td_task receiver (tr_domains rt) = Some i"
      "cap_inv s" "cap_view s = cap_view (td_capabilities dst)"
      "rt_send_ipc sender receiver cap payload requested ep rt =
         (Err (RtIpc e), ep, rt\<lparr>tr_domains := (tr_domains rt)[i := Some (dst\<lparr>td_capabilities := s\<rparr>)]\<rparr>)"
proof (cases "sender = receiver \<or> rt_domain rt sender = None \<or> rt_domain rt receiver = None")
  case True
  show thesis
  proof (cases "sender = receiver")
    case True
    then show thesis using unchanged [of SameTaskIpc] by (simp add: rt_send_ipc_def)
  next
    case False
    have "rt_send_ipc sender receiver cap payload requested ep rt = (Err RtMissingTask, ep, rt)"
      using True False
      by (auto simp: rt_send_ipc_def simp flip: slot_of_None_iff split: option.splits)
    then show thesis using True False by (intro unchanged [of RtMissingTask]) auto
  qed
next
  case False
  then obtain src dst where d: "rt_domain rt sender = Some src" "rt_domain rt receiver = Some dst" "sender \<noteq> receiver"
    by auto
  obtain i where i: "slot_of td_task receiver (tr_domains rt) = Some i" using rt_slotE [OF d(2)] .
  obtain j where j: "slot_of td_task sender (tr_domains rt) = Some j" using rt_slotE [OF d(1)] .
  note two = two_domains_mut_slots [OF d(1) j d(2) i d(3)]
  have inv: "cap_inv (td_capabilities dst)" using rt_invD(4) [OF assms d(2)] by simp
  obtain r s where t: "message_transfer payload requested (td_capabilities src) (td_capabilities dst) = (r, s)" by fastforce
  show thesis
  proof (cases r)
    case (Err e)
    then show thesis using rolled_back [OF d(3,1,2) i message_transfer_errD [OF t [unfolded Err] inv], of e] t
      by (simp add: rt_send_ipc_def d i j two Let_def)
  next
    case (Ok m)
    note t_ok = t [unfolded Ok]
    obtain q ep' where a: "authorize_send ep (td_capabilities src) cap m = (q, ep')" by fastforce
    show thesis
    proof (cases q)
      case (Ok n)
      then show thesis
        using ok [OF d(3,1,2) i t_ok message_transfer_okD(1) [OF t_ok inv], of n ep'] t_ok a
        by (simp add: rt_send_ipc_def d i j two Let_def)
    next
      case (Err e)
      note undone = transfer_rolled_back [OF t_ok inv]
      show thesis
        using rolled_back [OF d(3,1,2) i undone(2,3), of e] undone(1) t_ok a Err authorize_send_errD [of ep "td_capabilities src" cap m e ep']
        by (simp add: rt_send_ipc_def d i j two Let_def split_beta)
    qed
  qed
qed

lemma inbox_caps_simps [simp]:
  "inbox_ok (d\<lparr>td_capabilities := s\<rparr>) = inbox_ok d" "inbox_queue (d\<lparr>td_capabilities := s\<rparr>) = inbox_queue d"
  by (simp_all add: inbox_ok_def inbox_queue_def)

lemma rt_inv_replace:
  assumes "rt_inv rt" and "slot_of td_task t (tr_domains rt) = Some i" and "td_task d = t" and "domain_ok d"
  shows "rt_inv (rt\<lparr>tr_domains := (tr_domains rt)[i := Some d]\<rparr>)"
    and "slots_map td_task ((tr_domains rt)[i := Some d]) = (slots_map td_task (tr_domains rt))(t \<mapsto> d)"
proof -
  note r = replace_slot [OF rt_invD(2) [OF assms(1)] assms(2,3)]
  show "slots_map td_task ((tr_domains rt)[i := Some d]) = (slots_map td_task (tr_domains rt))(t \<mapsto> d)" by (rule r(2))
  have "rt_domain rt t \<noteq> None" using assms(2) by (auto elim: slot_of_SomeE)
  then show "rt_inv (rt\<lparr>tr_domains := (tr_domains rt)[i := Some d]\<rparr>)"
    by (rule rt_inv_domain [OF assms(1) _ assms(4) r])
qed

lemma rt_send_inv:
  assumes "rt_inv rt"
  shows "rt_inv (snd (snd (rt_send_ipc sender receiver cap payload requested ep rt)))"
    and "fst (rt_send_ipc sender receiver cap payload requested ep rt) \<noteq> Err IntegrityFailure"
proof -
  let ?r = "rt_send_ipc sender receiver cap payload requested ep rt"
  have "rt_inv (snd (snd ?r)) \<and> fst ?r \<noteq> Err IntegrityFailure"
    using assms
  proof (cases rule: rt_sendE [where sender = sender and receiver = receiver and cap = cap and payload = payload
        and requested = requested and ep = ep])
    case (ok src dst i s m q ep')
    then show ?thesis using rt_inv_replace(1) [OF assms ok(4), of "dst\<lparr>td_capabilities := s\<rparr>"]
        domain_ok_caps [OF rt_domain_ok [OF assms ok(3)] ok(6)] domain_task [OF ok(3)] by simp
  next
    case (rolled_back src dst i s e)
    then show ?thesis using rt_inv_replace(1) [OF assms rolled_back(4), of "dst\<lparr>td_capabilities := s\<rparr>"]
        domain_ok_caps [OF rt_domain_ok [OF assms rolled_back(3)] rolled_back(5)] domain_task [OF rolled_back(3)] by simp
  qed (auto simp: assms)
  then show "rt_inv (snd (snd ?r))" "fst ?r \<noteq> Err IntegrityFailure" by simp_all
qed

text \<open>Delivery is a send followed by a push into the receiver's inbox and a wake-up.\<close>

lemma rt_deliverE:
  assumes "rt_inv rt"
  obtains (ok) src dst i s m q ep' where "sender \<noteq> receiver" "rt_domain rt sender = Some src"
      "rt_domain rt receiver = Some dst" "slot_of td_task receiver (tr_domains rt) = Some i"
      "message_transfer payload requested (td_capabilities src) (td_capabilities dst) = (Ok m, s)" "cap_inv s"
      "authorize_send ep (td_capabilities src) cap m = (Ok q, ep')" "unat (td_inbox_count dst) \<noteq> 2"
      "rt_deliver_ipc sender receiver cap payload requested ep rt =
         (Ok q, ep', rt\<lparr>tr_domains := (tr_domains rt)[i := Some (inbox_push m (dst\<lparr>td_capabilities := s\<rparr>))],
            tr_scheduler := snd (ks_wake receiver (tr_scheduler rt))\<rparr>)"
  | (full) dst where "rt_domain rt receiver = Some dst" "length (inbox_queue dst) = 2"
      "rt_deliver_ipc sender receiver cap payload requested ep rt = (Err InboxFull, ep, rt)"
  | (refused) e rt' where "rt_send_ipc sender receiver cap payload requested ep rt = (Err e, ep, rt')"
      "rt_deliver_ipc sender receiver cap payload requested ep rt = (Err e, ep, rt')"
  | (missing) "rt_domain rt receiver = None"
      "rt_deliver_ipc sender receiver cap payload requested ep rt = (Err RtMissingTask, ep, rt)"
proof (cases "rt_domain rt receiver")
  case None
  then show thesis using missing by (simp add: rt_deliver_ipc_def flip: slot_of_None_iff)
next
  case (Some dst)
  then obtain i where i: "slot_of td_task receiver (tr_domains rt) = Some i" "i < length (tr_domains rt)"
      "tr_domains rt ! i = Some dst" by (rule rt_slotE)
  have ib: "inbox_ok dst" using rt_invD(4) [OF assms Some] by simp
  show thesis
  proof (cases "unat (td_inbox_count dst) = 2")
    case True
    then show thesis using full [OF Some] i inbox_count_queue [OF ib]
      by (simp add: rt_deliver_ipc_def TASK_INBOX_MESSAGES_def)
  next
    case False
    have go: "rt_deliver_ipc sender receiver cap payload requested ep rt = (Err e, ep, rt')"
      if "rt_send_ipc sender receiver cap payload requested ep rt = (Err e, ep, rt')" for e rt'
      using False i that by (simp add: rt_deliver_ipc_def TASK_INBOX_MESSAGES_def)
    from assms show thesis
    proof (cases rule: rt_sendE [where sender = sender and receiver = receiver and cap = cap and payload = payload
          and requested = requested and ep = ep])
      case (ok src dst' i' s m q ep')
      have eq: "i' = i" "dst' = dst" using ok(3,4) i(1) Some by simp_all
      obtain v where v: "ks_view (tr_scheduler rt) receiver = Some v" using rt_invD(3) [OF assms, of receiver] Some by auto
      have empty: "td_inbox dst ! unat (td_inbox_tail dst) = None" using inbox_push(3) [OF ib False] .
      show thesis
        using that(1) [OF ok(1,2) Some i(1) ok(5) [unfolded eq] ok(6,7)] False ok(8) i v empty eq
        by (simp add: rt_deliver_ipc_def TASK_INBOX_MESSAGES_def Let_def on_kernel_split ks_wake_def
            set_state_eqs(1) inbox_push_def split_beta)
    qed (use refused go in blast)+
  qed
qed

lemma rt_deliver_inv:
  assumes "rt_inv rt"
  shows "rt_inv (snd (snd (rt_deliver_ipc sender receiver cap payload requested ep rt)))"
    and "fst (rt_deliver_ipc sender receiver cap payload requested ep rt) \<noteq> Err IntegrityFailure"
proof -
  let ?r = "rt_deliver_ipc sender receiver cap payload requested ep rt"
  have "rt_inv (snd (snd ?r)) \<and> fst ?r \<noteq> Err IntegrityFailure"
    using assms
  proof (cases rule: rt_deliverE [where sender = sender and receiver = receiver and cap = cap and payload = payload
        and requested = requested and ep = ep])
    case (ok src dst i s m q ep')
    let ?d = "inbox_push m (dst\<lparr>td_capabilities := s\<rparr>)"
    have "domain_ok ?d" using inbox_push(1) [of "dst\<lparr>td_capabilities := s\<rparr>" m] ok(6,8) rt_invD(4) [OF assms ok(3)]
      by (simp add: domain_ok_def)
    then have "rt_inv (rt\<lparr>tr_domains := (tr_domains rt)[i := Some ?d]\<rparr>)"
      using rt_inv_replace(1) [OF assms ok(4), of ?d] domain_task [OF ok(3)] by simp
    then have "rt_inv (rt\<lparr>tr_domains := (tr_domains rt)[i := Some ?d], tr_scheduler := snd (ks_wake receiver (tr_scheduler rt))\<rparr>)"
      using ks_wake_inv [OF rt_invD(1) [OF assms], of receiver]
      by (elim rt_inv_scheduler) (auto simp: ks_wake_def set_state_eqs split: option.splits)
    then show ?thesis using ok(9) by simp
  next
    case (refused e rt')
    then show ?thesis using rt_send_inv [OF assms, of sender receiver cap payload requested ep] by simp
  qed (auto simp: assms)
  then show "rt_inv (snd (snd ?r))" "fst ?r \<noteq> Err IntegrityFailure" by simp_all
qed

lemma rt_receiveE:
  assumes "rt_inv rt"
  obtains (ok) d m where "rt_domain rt t = Some d" "inbox_queue d = m # inbox_queue (inbox_pop d)"
      "rt_receive_ipc t rt = (Ok m, rt\<lparr>tr_domains := modify td_task t (\<lambda>_. inbox_pop d) (tr_domains rt)\<rparr>)"
      "domain_ok (inbox_pop d)"
  | (empty) d where "rt_domain rt t = Some d" "inbox_queue d = []" "rt_receive_ipc t rt = (Err InboxEmpty, rt)"
  | (missing) "rt_domain rt t = None" "rt_receive_ipc t rt = (Err RtMissingTask, rt)"
proof (cases "rt_domain rt t")
  case None
  then show thesis using missing by (simp add: rt_receive_ipc_def)
next
  case (Some d)
  have ib: "inbox_ok d" "cap_inv (td_capabilities d)" using rt_invD(4) [OF assms Some] by simp_all
  show thesis
  proof (cases "td_inbox_count d = 0")
    case True
    then show thesis using empty [OF Some] Some inbox_count_queue [OF ib(1)] by (simp add: rt_receive_ipc_def)
  next
    case False
    note pop = inbox_pop [OF ib(1) False]
    obtain i where i: "slot_of td_task t (tr_domains rt) = Some i" "tr_domains rt ! i = Some d" using rt_slotE [OF Some] by metis
    obtain m where m: "td_inbox d ! unat (td_inbox_head d) = Some m" using pop(3) by auto
    have "rt_receive_ipc t rt = (Ok m, rt\<lparr>tr_domains := modify td_task t (\<lambda>_. inbox_pop d) (tr_domains rt)\<rparr>)"
      using Some False m i
      by (simp add: rt_receive_ipc_def Let_def modify_def inbox_pop_def TASK_INBOX_MESSAGES_def)
    then show thesis using ok [OF Some] pop(1,2) m ib(2) by (simp add: domain_ok_def)
  qed
qed

lemma rt_receive_inv:
  assumes "rt_inv rt"
  shows "rt_inv (snd (rt_receive_ipc t rt))" "fst (rt_receive_ipc t rt) \<noteq> Err IntegrityFailure"
proof -
  have "rt_inv (snd (rt_receive_ipc t rt)) \<and> fst (rt_receive_ipc t rt) \<noteq> Err IntegrityFailure"
    using assms
  proof (cases rule: rt_receiveE [where t = t])
    case (ok d m)
    then show ?thesis using rt_inv_modify(1) [OF assms ok(1), of "\<lambda>_. inbox_pop d"] domain_task [OF ok(1)] by simp
  qed (simp_all add: assms)
  then show "rt_inv (snd (rt_receive_ipc t rt))" "fst (rt_receive_ipc t rt) \<noteq> Err IntegrityFailure" by simp_all
qed

lemma rt_receive_or_block_inv:
  assumes "rt_inv rt"
  shows "rt_inv (snd (rt_receive_or_block_current rt))" "fst (rt_receive_or_block_current rt) \<noteq> Err IntegrityFailure"
proof -
  have "rt_inv (snd (rt_receive_or_block_current rt)) \<and> fst (rt_receive_or_block_current rt) \<noteq> Err IntegrityFailure"
  proof (cases "ks_current (tr_scheduler rt)")
    case None
    then show ?thesis by (simp add: rt_receive_or_block_current_def assms)
  next
    case (Some t)
    note block = ks_block_view [OF rt_invD(1) [OF assms] Some] ks_block_inv [OF rt_invD(1) [OF assms]]
    obtain p out where b: "ks_view (snd (ks_block_current (tr_scheduler rt))) = (ks_view (tr_scheduler rt))(t \<mapsto> (Blocked, p))"
        "fst (ks_block_current (tr_scheduler rt)) = Ok out" using block(1,2) by auto
    have v: "ks_view (tr_scheduler rt) t \<noteq> None" using ks_invD(4) [OF rt_invD(1) [OF assms] Some] by auto
    have inv: "rt_inv (rt\<lparr>tr_scheduler := snd (ks_block_current (tr_scheduler rt))\<rparr>)"
      using v by (intro rt_inv_scheduler [OF assms block(3)]) (simp add: b(1))
    from assms show ?thesis
    proof (cases rule: rt_receiveE [where t = t])
      case (ok d m)
      then show ?thesis using Some rt_receive_inv(1) [OF assms, of t] by (simp add: rt_receive_or_block_current_def)
    next
      case (empty d)
      then show ?thesis using Some inv b(2) by (simp add: rt_receive_or_block_current_def on_kernel_split)
    next
      case missing
      then show ?thesis using Some assms by (simp add: rt_receive_or_block_current_def)
    qed
  qed
  then show "rt_inv (snd (rt_receive_or_block_current rt))" "fst (rt_receive_or_block_current rt) \<noteq> Err IntegrityFailure"
    by simp_all
qed

lemma rt_capabilities_inv:
  assumes "rt_inv rt" and "\<And>s. cap_inv s \<Longrightarrow> cap_inv (snd (f s))"
  shows "rt_inv (snd (rt_capabilities_mut t f rt))"
proof (cases "rt_domain rt t")
  case (Some d)
  have "domain_ok (d\<lparr>td_capabilities := snd (f (td_capabilities d))\<rparr>)"
    using assms(2) rt_invD(4) [OF assms(1) Some] by (intro domain_ok_caps rt_domain_ok [OF assms(1) Some]) simp
  then show ?thesis
    using rt_inv_modify(1) [OF assms(1) Some, of "\<lambda>e. e\<lparr>td_capabilities := snd (f (td_capabilities d))\<rparr>"] domain_task [OF Some] Some
    by (simp add: rt_capabilities_mut_def split_beta)
qed (simp add: rt_capabilities_mut_def assms)

text \<open>A migration candidate always has a domain, and it is never the running task.\<close>

lemma rt_candidate_domain:
  assumes "rt_inv rt" and "ks_rebalance_candidate l (tr_scheduler rt) = Ok (Some h)"
  shows "rt_domain rt h \<noteq> None" "ks_current (tr_scheduler rt) \<noteq> Some h"
proof -
  have c: "migration_candidate (ks_scheduler (tr_scheduler rt)) (ks_current (tr_scheduler rt)) = Some h"
    using assms(2) by (auto simp: ks_rebalance_candidate_def ok_or_def split: if_splits option.splits)
  note d = candidate_SomeD [OF c ks_invD(1) [OF rt_invD(1) [OF assms(1)]]]
  show "rt_domain rt h \<noteq> None" using d(1) rt_invD(3) [OF assms(1), of h] by auto
  show "ks_current (tr_scheduler rt) \<noteq> Some h" using d(2) by auto
qed

lemma rt_rebalanceE:
  assumes "rt_inv rt"
  obtains (moved) h dd rt' where "ks_current (tr_scheduler rt) \<noteq> Some h" "rt_detach_domain h rt = (Ok dd, rt')"
      "rt_detach_domain_for_rebalance l rt = (Ok (Some dd), rt')"
  | (kept) "rt_detach_domain_for_rebalance l rt = (Ok None, rt)"
  | (none) "rt_detach_domain_for_rebalance l rt = (Err (RtScheduler NoMigrationCandidate), rt)"
proof (cases "ks_rebalance_candidate l (tr_scheduler rt)")
  case (Err e)
  then have "e = NoMigrationCandidate" by (auto simp: ks_rebalance_candidate_def ok_or_def split: if_splits option.splits)
  then show thesis using none Err by (simp add: rt_detach_domain_for_rebalance_def)
next
  case (Ok c)
  show thesis
  proof (cases c)
    case None
    then show thesis using kept Ok by (simp add: rt_detach_domain_for_rebalance_def)
  next
    case (Some h)
    note h = rt_candidate_domain [OF assms Ok [unfolded Some]]
    from assms show thesis
    proof (cases rule: rt_detachE [where t = h])
      case (ok d st p i)
      show thesis using moved [OF ok(4) ok(5)] ok(1,5) Ok Some by (simp add: rt_detach_domain_for_rebalance_def)
    qed (use h in auto)
  qed
qed

end
