(* ===== verification/Runtime_Safety.thy ===== *)
theory Runtime_Safety
  imports Task_Runtime
begin

text \<open>
  Properties of the task runtime as a whole: its invariant over every sequence of operations, the
  inbox as a first-in first-out queue, refused sends and deliveries, migration of whole domains
  and their retirement.
\<close>

section \<open>Sequences of operations\<close>

datatype rt_op =
  RtCreate nat priority user_context | RtContextMut task_id user_context | RtStart | RtTick | RtYield | RtPreempt user_context
| RtDetach task_id | RtDetachFor scheduler_load | RtAttach "detached_task_domain option"
| RtFault trap_disposition | RtExit | RtReceive task_id | RtReceiveOrBlock
| RtSend task_id task_id capability bytes "(capability \<times> rights) list"
| RtDeliver task_id task_id capability bytes "(capability \<times> rights) list"
| RtGrant task_id object_id rights | RtRevoke task_id capability

definition error_of :: "('a, 'e) result \<Rightarrow> 'e option" where
  "error_of r = (case r of Ok _ \<Rightarrow> None | Err e \<Rightarrow> Some e)"

text \<open>One operation on an endpoint and a runtime: the reported error, if any, and the new state.\<close>

fun rt_exec :: "rt_op \<Rightarrow> endpoint \<times> task_runtime \<Rightarrow> task_runtime_error option \<times> endpoint \<times> task_runtime" where
  "rt_exec (RtCreate n p c) (ep, rt) = (let (r, rt) = rt_create n p c rt in (error_of r, ep, rt))"
| "rt_exec (RtContextMut t c) (ep, rt) = (let (r, rt) = rt_context_mut t (\<lambda>_. c) rt in (error_of r, ep, rt))"
| "rt_exec RtStart (ep, rt) = (None, ep, snd (rt_start rt))"
| "rt_exec RtTick (ep, rt) = (let (r, rt) = rt_timer_tick rt in (error_of r, ep, rt))"
| "rt_exec RtYield (ep, rt) = (let (r, rt) = rt_yield_current rt in (error_of r, ep, rt))"
| "rt_exec (RtPreempt c) (ep, rt) = (let (r, rt) = rt_preempt_current c rt in (error_of r, ep, rt))"
| "rt_exec (RtDetach t) (ep, rt) = (let (r, rt) = rt_detach_domain t rt in (error_of r, ep, rt))"
| "rt_exec (RtDetachFor l) (ep, rt) = (let (r, rt) = rt_detach_domain_for_rebalance l rt in (error_of r, ep, rt))"
| "rt_exec (RtAttach d) (ep, rt) = (let (r, _, rt) = rt_attach_domain d rt in (error_of r, ep, rt))"
| "rt_exec (RtFault d) (ep, rt) = (let (r, rt) = rt_terminate_current_fault d rt in (error_of r, ep, rt))"
| "rt_exec RtExit (ep, rt) = (let (r, rt) = rt_terminate_current rt in (error_of r, ep, rt))"
| "rt_exec (RtReceive t) (ep, rt) = (let (r, rt) = rt_receive_ipc t rt in (error_of r, ep, rt))"
| "rt_exec RtReceiveOrBlock (ep, rt) = (let (r, rt) = rt_receive_or_block_current rt in (error_of r, ep, rt))"
| "rt_exec (RtSend a b c p q) (ep, rt) = (let (r, ep, rt) = rt_send_ipc a b c p q ep rt in (error_of r, ep, rt))"
| "rt_exec (RtDeliver a b c p q) (ep, rt) = (let (r, ep, rt) = rt_deliver_ipc a b c p q ep rt in (error_of r, ep, rt))"
| "rt_exec (RtGrant t b q) (ep, rt) = (let (r, rt) = rt_capabilities_mut t (cap_insert b q) rt in (error_of r, ep, rt))"
| "rt_exec (RtRevoke t c) (ep, rt) = (let (r, rt) = rt_capabilities_mut t (cap_revoke c) rt in (error_of r, ep, rt))"

fun rt_run :: "rt_op list \<Rightarrow> endpoint \<times> task_runtime \<Rightarrow> task_runtime_error list \<times> endpoint \<times> task_runtime" where
  "rt_run [] s = ([], s)"
| "rt_run (x # xs) s =
     (let (e, s) = rt_exec x s; (es, s) = rt_run xs s in ((case e of None \<Rightarrow> es | Some e \<Rightarrow> e # es), s))"

text \<open>
  The bounds of the code: capability slots are numbered by 32-bit indices, and an attached domain
  comes out of another runtime.
\<close>

fun rt_op_ok :: "rt_op \<Rightarrow> bool" where
  "rt_op_ok (RtCreate n _ _) \<longleftrightarrow> n \<le> 2 ^ 32"
| "rt_op_ok (RtAttach (Some dd)) \<longleftrightarrow> domain_ok (dd_domain dd)"
| "rt_op_ok _ \<longleftrightarrow> True"

lemma rt_new_inv: "rt_new n f q = Ok rt \<Longrightarrow> n \<le> 2 ^ 32 \<Longrightarrow> rt_inv rt"
  by (auto simp: rt_new_def rt_inv_def ks_new_okD split: result.splits)

lemma retire_error: "rt_inv rt \<Longrightarrow> fst (retire_current rt) \<noteq> Err IntegrityFailure"
  by (erule retireE) simp_all

lemma terminate_eqs:
  "snd (rt_terminate_current rt) = snd (retire_current rt)"
  "error_of (fst (rt_terminate_current rt)) = error_of (fst (retire_current rt))"
  "snd (rt_terminate_current_fault (TerminateUser v a) rt) = snd (retire_current rt)"
  "error_of (fst (rt_terminate_current_fault (TerminateUser v a) rt)) = error_of (fst (retire_current rt))"
  by (auto simp: rt_terminate_current_def rt_terminate_current_fault_def error_of_def split: prod.splits result.splits)

lemma rt_fault_inv: "rt_inv rt \<Longrightarrow> rt_inv (snd (rt_terminate_current_fault d rt))"
  by (cases d) (simp_all add: terminate_eqs retire_inv, simp add: rt_terminate_current_fault_def)

lemma rt_rebalance_inv: "rt_inv rt \<Longrightarrow> rt_inv (snd (rt_detach_domain_for_rebalance l rt))"
proof -
  assume inv: "rt_inv rt"
  then show ?thesis using rt_detach_inv [OF inv] inv by (cases rule: rt_rebalanceE [where l = l]) (metis snd_conv, simp_all add: inv)
qed

lemma error_of_simps [simp]: "error_of (Ok a) = None" "error_of (Err e) = Some e" "error_of (map_err f r) = map_option f (error_of r)"
  "error_of r = Some e \<longleftrightarrow> r = Err e" "error_of r = None \<longleftrightarrow> (\<exists>a. r = Ok a)"
  by (cases r; auto simp: error_of_def)+

lemma rt_op_ok_attach: "rt_op_ok (RtAttach ticket) \<longleftrightarrow> (\<forall>dd. ticket = Some dd \<longrightarrow> domain_ok (dd_domain dd))"
  by (cases ticket) simp_all

lemma rt_exec_inv:
  assumes "rt_inv rt" and "rt_op_ok x"
  shows "rt_inv (snd (snd (rt_exec x (ep, rt))))"
  using assms
  by (cases x)
    (auto simp: split_beta rt_create_inv rt_select_inv rt_preempt_inv rt_context_mut_inv rt_detach_inv rt_rebalance_inv rt_op_ok_attach
      rt_attach_inv rt_fault_inv terminate_eqs retire_inv rt_receive_inv rt_receive_or_block_inv rt_send_inv rt_deliver_inv
      rt_capabilities_inv cap_insert_inv cap_revoke_inv)

lemma map_err_eq_Err [simp]: "map_err f r = Err e \<longleftrightarrow> (\<exists>x. r = Err x \<and> e = f x)"
  by (cases r) auto

lemma rt_direct_errors:
  assumes "rt_inv rt"
  shows "fst (rt_create n p c rt) \<noteq> Err IntegrityFailure" "fst (rt_preempt_current c rt) \<noteq> Err IntegrityFailure"
    and "fst (rt_context_mut t g rt) \<noteq> Err IntegrityFailure"
    and "fst (rt_timer_tick rt) \<noteq> Err IntegrityFailure" "fst (rt_yield_current rt) \<noteq> Err IntegrityFailure"
    and "fst (rt_detach_domain t rt) \<noteq> Err IntegrityFailure"
    and "fst (rt_detach_domain_for_rebalance l rt) \<noteq> Err IntegrityFailure"
    and "fst (rt_attach_domain ticket rt) \<noteq> Err IntegrityFailure"
    and "fst (rt_capabilities_mut t f rt) \<noteq> Err IntegrityFailure"
proof -
  show "fst (rt_create n p c rt) \<noteq> Err IntegrityFailure"
    by (auto simp: rt_create_def on_kernel_split split: option.splits result.splits)
  show "fst (rt_preempt_current c rt) \<noteq> Err IntegrityFailure"
    using assms by (auto simp: rt_preempt_current_def rt_context_mut_def on_kernel_split split: option.splits result.splits elim: rt_current_domain)
  show "fst (rt_context_mut t g rt) \<noteq> Err IntegrityFailure"
    by (auto simp: rt_context_mut_def split: option.splits)
  show "fst (rt_timer_tick rt) \<noteq> Err IntegrityFailure" "fst (rt_yield_current rt) \<noteq> Err IntegrityFailure"
    by (simp_all add: rt_timer_tick_def rt_yield_current_def)
  show "fst (rt_detach_domain t rt) \<noteq> Err IntegrityFailure"
    using assms by (cases rule: rt_detachE [where t = t]) simp_all
  show "fst (rt_detach_domain_for_rebalance l rt) \<noteq> Err IntegrityFailure"
    using assms by (cases rule: rt_rebalanceE [where l = l]) simp_all
  show "fst (rt_attach_domain ticket rt) \<noteq> Err IntegrityFailure"
    by (auto simp: rt_attach_domain_def split: option.splits result.splits prod.splits)
  show "fst (rt_capabilities_mut t f rt) \<noteq> Err IntegrityFailure"
    by (auto simp: rt_capabilities_mut_def split_beta split: option.splits)
qed

lemma terminate_errors:
  assumes "rt_inv rt"
  shows "fst (rt_terminate_current rt) \<noteq> Err IntegrityFailure" "fst (rt_terminate_current_fault d rt) \<noteq> Err IntegrityFailure"
proof -
  note r = retire_error [OF assms]
  show "fst (rt_terminate_current rt) \<noteq> Err IntegrityFailure"
    using r terminate_eqs(2) [of rt] by (metis error_of_simps(4))
  show "fst (rt_terminate_current_fault d rt) \<noteq> Err IntegrityFailure"
  proof (cases d)
    case (TerminateUser v a)
    then show ?thesis using r terminate_eqs(4) [of v a rt] by (metis error_of_simps(4))
  qed (simp add: rt_terminate_current_fault_def)
qed

lemma rt_exec_error:
  assumes "rt_inv rt"
  shows "fst (rt_exec x (ep, rt)) \<noteq> Some IntegrityFailure"
  by (cases x) (simp_all add: split_beta rt_direct_errors [OF assms] rt_receive_inv [OF assms]
      rt_receive_or_block_inv [OF assms] rt_send_inv [OF assms] rt_deliver_inv [OF assms] terminate_errors [OF assms])

lemma rt_run_inv:
  assumes "rt_inv rt" and "\<forall>x \<in> set xs. rt_op_ok x"
  shows "rt_inv (snd (snd (rt_run xs (ep, rt)))) \<and> IntegrityFailure \<notin> set (fst (rt_run xs (ep, rt)))"
  using assms
proof (induction xs arbitrary: ep rt)
  case (Cons x xs)
  obtain e ep' rt' where r: "rt_exec x (ep, rt) = (e, ep', rt')" by (metis prod_cases3)
  have "rt_inv rt'" "e \<noteq> Some IntegrityFailure"
    using rt_exec_inv [OF Cons.prems(1), of x ep] rt_exec_error [OF Cons.prems(1), of x ep] Cons.prems(2) r by simp_all
  then show ?case using Cons.IH [of rt' ep'] Cons.prems(2) r by (auto simp: split_beta split: option.splits)
qed simp

section \<open>The runtime never reports a broken invariant\<close>

definition demo_context :: user_context where
  "demo_context = \<lparr>r15 = 0, r14 = 0, r13 = 0, r12 = 0, r11 = 0, r10 = 0, r9 = 0, r8 = 0, rdi = 0, rsi = 0,
     rbp = 0, rbx = 0, rdx = 0, rcx = 0, rax = 0, uc_rip = 0x400000, uc_rsp = 0x7ff0,
     uc_rflags = 0x202, uc_page_table = PhysAddr 0x1000\<rparr>"

definition demo_fresh :: task_runtime where
  "demo_fresh = \<lparr>tr_scheduler = demo_scheduler, tr_domains = replicate 2 None\<rparr>"

definition task0 :: task_id where "task0 = \<lparr>tid_slot = 0, tid_generation = 1\<rparr>"
definition task1 :: task_id where "task1 = \<lparr>tid_slot = 1, tid_generation = 1\<rparr>"
definition demo_cap :: capability where "demo_cap = \<lparr>cap_slot = 0, cap_generation = 1\<rparr>"

text \<open>Two tasks; the first may signal endpoint 7 and hand its authority on.\<close>

definition demo_ops :: "rt_op list" where
  "demo_ops = [RtCreate 2 NORMAL demo_context, RtCreate 2 NORMAL demo_context, RtStart,
     RtGrant task0 7 (rights_union SIGNAL DELEGATE)]"

definition demo_runtime :: task_runtime where
  "demo_runtime = snd (snd (rt_run demo_ops (endpoint_new 7, demo_fresh)))"

lemma demo_new: "rt_new 2 100 1 = Ok demo_fresh"
  by (simp add: rt_new_def ks_new_def demo_fresh_def demo_scheduler_def)

lemma demo_ops_ok: "\<forall>x \<in> set demo_ops. rt_op_ok x"
  by (simp add: demo_ops_def)

lemma demo_runtime_inv: "rt_inv demo_runtime"
  unfolding demo_runtime_def using rt_run_inv [OF rt_new_inv [OF demo_new] demo_ops_ok] by simp

lemma demo_current: "ks_current (tr_scheduler demo_runtime) = Some task0"
  by code_simp

text \<open>
  Property C1.  Whatever sequence of operations a fresh task runtime executes, on success and on
  failure, the tasks its scheduler knows are exactly the tasks that own a domain, the task that
  runs always has a saved context, and no operation ever finds the two out of step: the
  \<open>IntegrityFailure\<close> branches of the code are unreachable.
\<close>

theorem runtime_integrity:
  assumes "rt_new n ticks quantum = Ok rt" and "n \<le> 2 ^ 32" and "\<forall>x \<in> set ops. rt_op_ok x"
    and "rt_run ops (ep, rt) = (errors, ep', rt')"
  shows "IntegrityFailure \<notin> set errors \<and>
     (\<forall>t. ks_view (tr_scheduler rt') t = None \<longleftrightarrow> rt_context t rt' = Err RtMissingTask) \<and>
     (\<forall>t. rt_current rt' = Some t \<longrightarrow> (\<exists>c. rt_context t rt' = Ok c))"
proof -
  have inv: "rt_inv rt'" and e: "IntegrityFailure \<notin> set errors"
    using rt_run_inv [OF rt_new_inv [OF assms(1,2)] assms(3), of ep] assms(4) by simp_all
  have dom: "ks_view (tr_scheduler rt') t = None \<longleftrightarrow> rt_context t rt' = Err RtMissingTask" for t
    using rt_invD(3) [OF inv, of t] by (cases "rt_domain rt' t") (simp_all add: rt_context_def)
  have "\<exists>c. rt_context t rt' = Ok c" if c: "rt_current rt' = Some t" for t
  proof -
    obtain d where "rt_domain rt' t = Some d" using rt_current_domain [OF inv c [unfolded rt_current_def]] .
    then show ?thesis by (simp add: rt_context_def)
  qed
  then show ?thesis using e dom by blast
qed

theorem runtime_integrity_witness:
  "\<exists>rt ep'. rt_new 2 100 1 = Ok rt \<and> rt_run demo_ops (endpoint_new 7, rt) = ([], ep', demo_runtime) \<and>
     rt_current demo_runtime = Some task0 \<and> (\<exists>c. rt_context task0 demo_runtime = Ok c)"
proof -
  have none: "fst (rt_run demo_ops (endpoint_new 7, demo_fresh)) = []" by code_simp
  obtain ep' where r: "rt_run demo_ops (endpoint_new 7, demo_fresh) = ([], ep', demo_runtime)"
    using none by (simp add: demo_runtime_def prod_eq_iff)
  have c: "rt_current demo_runtime = Some task0" by (simp add: rt_current_def demo_current)
  show ?thesis using runtime_integrity [OF demo_new _ demo_ops_ok r] demo_new r c by auto
qed

section \<open>Messages\<close>

text \<open>The abstract state of message passing: what waits for a task, and what a task may do.\<close>

definition rt_queues :: "task_runtime \<Rightarrow> task_id \<Rightarrow> message list option" where
  "rt_queues rt t = map_option inbox_queue (rt_domain rt t)"

definition rt_authority :: "task_runtime \<Rightarrow> task_id \<Rightarrow> (capability \<Rightarrow> (object_id \<times> rights) option) option" where
  "rt_authority rt t = map_option (\<lambda>d. cap_view (td_capabilities d)) (rt_domain rt t)"

lemma views_replace:
  assumes "rt_inv rt" and "slot_of td_task t (tr_domains rt) = Some i" and "td_task d = t"
  shows "rt_queues (rt\<lparr>tr_domains := (tr_domains rt)[i := Some d]\<rparr>) = (rt_queues rt)(t \<mapsto> inbox_queue d)"
    and "rt_authority (rt\<lparr>tr_domains := (tr_domains rt)[i := Some d]\<rparr>) = (rt_authority rt)(t \<mapsto> cap_view (td_capabilities d))"
  using replace_slot(2) [OF rt_invD(2) [OF assms(1)] assms(2,3)]
  by (auto simp: rt_queues_def rt_authority_def fun_eq_iff)

lemma views_scheduler [simp]:
  "rt_queues (rt\<lparr>tr_scheduler := k\<rparr>) = rt_queues rt" "rt_authority (rt\<lparr>tr_scheduler := k\<rparr>) = rt_authority rt"
  "rt_queues (rt\<lparr>tr_domains := ds, tr_scheduler := k\<rparr>) = rt_queues (rt\<lparr>tr_domains := ds\<rparr>)"
  "rt_authority (rt\<lparr>tr_domains := ds, tr_scheduler := k\<rparr>) = rt_authority (rt\<lparr>tr_domains := ds\<rparr>)"
  by (simp_all add: rt_queues_def rt_authority_def fun_eq_iff)

lemma send_refused_views:
  assumes "rt_inv rt" and "rt_send_ipc a b c payload requested ep rt = (Err e, ep', rt')"
  shows "ep' = ep" "rt_queues rt' = rt_queues rt" "rt_authority rt' = rt_authority rt"
    and "tr_scheduler rt' = tr_scheduler rt"
proof -
  have "ep' = ep \<and> rt_queues rt' = rt_queues rt \<and> rt_authority rt' = rt_authority rt \<and> tr_scheduler rt' = tr_scheduler rt"
    using assms(1)
  proof (cases rule: rt_sendE [where sender = a and receiver = b and cap = c and payload = payload
        and requested = requested and ep = ep])
    case (rolled_back src dst i s e')
    have r: "ep' = ep" "rt' = rt\<lparr>tr_domains := (tr_domains rt)[i := Some (dst\<lparr>td_capabilities := s\<rparr>)]\<rparr>"
      using assms(2) rolled_back(7) by auto
    have "td_task (dst\<lparr>td_capabilities := s\<rparr>) = b" using domain_task [OF rolled_back(3)] by simp
    from views_replace [OF assms(1) rolled_back(4) this]
    show ?thesis using rolled_back(3,6) by (auto simp: r rt_queues_def rt_authority_def fun_eq_iff)
  qed (use assms(2) in auto)
  then show "ep' = ep" "rt_queues rt' = rt_queues rt" "rt_authority rt' = rt_authority rt"
    "tr_scheduler rt' = tr_scheduler rt" by simp_all
qed

text \<open>
  Property C7.  The inboxes are queues.  A delivery that succeeds appends the payload's message to
  the receiver's queue, which had room for it, and makes the receiver runnable; a receive that
  succeeds takes the oldest message; a receive reports an empty inbox exactly when the queue is
  empty; every other task's queue is untouched.
\<close>

theorem inbox_refines_queue:
  assumes "rt_inv rt"
  shows "(case rt_deliver_ipc a b c payload requested ep rt of
            (Ok _, _, rt') \<Rightarrow> (\<exists>q m p. rt_queues rt b = Some q \<and> length q < 2 \<and> message_payload m = payload \<and>
               rt_queues rt' = (rt_queues rt)(b \<mapsto> q @ [m]) \<and> ks_view (tr_scheduler rt') b = Some (Runnable, p))
          | (Err e, _, rt') \<Rightarrow> rt_queues rt' = rt_queues rt \<and> (e = InboxFull \<longrightarrow> map_option length (rt_queues rt b) = Some 2)) \<and>
         (case rt_receive_ipc t rt of
            (Ok m, rt') \<Rightarrow> (\<exists>q. rt_queues rt t = Some (m # q) \<and> rt_queues rt' = (rt_queues rt)(t \<mapsto> q))
          | (Err e, rt') \<Rightarrow> rt' = rt \<and> (e = InboxEmpty \<longleftrightarrow> rt_queues rt t = Some []))"
    (is "?deliver \<and> ?receive")
proof
  show ?deliver using assms
  proof (cases rule: rt_deliverE [where sender = a and receiver = b and cap = c and payload = payload
        and requested = requested and ep = ep])
    case (ok src dst i s m q ep')
    let ?d = "inbox_push m (dst\<lparr>td_capabilities := s\<rparr>)"
    have d: "inbox_ok dst" "cap_inv (td_capabilities dst)" "td_task ?d = b"
      using rt_invD(4) [OF assms ok(3)] domain_task [OF ok(3)] by simp_all
    have "unat (td_inbox_count dst) < 2" using d(1) ok(8) by (auto simp: inbox_ok_def)
    moreover have "message_payload m = payload" using message_transfer_okD(3) [OF ok(5) d(2)] .
    moreover have "inbox_queue ?d = inbox_queue dst @ [m]" using inbox_push(2) [of "dst\<lparr>td_capabilities := s\<rparr>" m] d(1) ok(8) by simp
    moreover obtain v where "ks_view (tr_scheduler rt) b = Some v" using rt_invD(3) [OF assms, of b] ok(3) by auto
    ultimately show ?thesis using ok(3,9) views_replace(1) [OF assms ok(4) d(3)] inbox_count_queue [OF d(1)]
      by (auto simp: rt_queues_def ks_wake_def set_state_eqs split: prod.splits)
  next
    case (full dst)
    then show ?thesis by (simp add: rt_queues_def)
  next
    case (refused e rt')
    have "e \<noteq> InboxFull" using assms
      by (cases rule: rt_sendE [where sender = a and receiver = b and cap = c and payload = payload
            and requested = requested and ep = ep]) (use refused(1) in auto)
    then show ?thesis using refused(2) send_refused_views(2) [OF assms refused(1)] by simp
  qed simp
  show ?receive using assms
  proof (cases rule: rt_receiveE [where t = t])
    case (ok d m)
    have "td_task (inbox_pop d) = t" using domain_task [OF ok(1)] by simp
    from rt_inv_modify(2) [OF assms ok(1), of "\<lambda>_. inbox_pop d", OF this ok(4)]
    show ?thesis using ok by (auto simp: rt_queues_def fun_eq_iff)
  qed (auto simp: rt_queues_def)
qed

theorem inbox_refines_queue_witness:
  "\<exists>ep' rt'. rt_deliver_ipc task0 task1 demo_cap [1, 2] [] (endpoint_new 7) demo_runtime = (Ok 1, ep', rt') \<and>
     rt_queues demo_runtime task1 = Some [] \<and> map_option (map message_payload) (rt_queues rt' task1) = Some [[1, 2]]"
proof -
  let ?r = "rt_deliver_ipc task0 task1 demo_cap [1, 2] [] (endpoint_new 7) demo_runtime"
  have "fst ?r = Ok 1" and q: "rt_queues demo_runtime task1 = Some []" by code_simp+
  then obtain ep' rt' where r: "?r = (Ok 1, ep', rt')" by (metis prod.collapse)
  from inbox_refines_queue [OF demo_runtime_inv, where a = task0 and b = task1 and c = demo_cap and
      payload = "[1, 2]" and requested = "[]" and ep = "endpoint_new 7", THEN conjunct1]
  show ?thesis using r q by auto
qed

text \<open>
  Exactly the requested rights reach the receiver: one fresh handle per request, in order, each bound to
  an object and rights that the sender held and could delegate; nobody else's authority changes.
\<close>

definition delegated ::
  "task_runtime \<Rightarrow> task_id \<Rightarrow> task_id \<Rightarrow> (capability \<times> rights) list \<Rightarrow> message \<Rightarrow> task_runtime \<Rightarrow> bool" where
  "delegated rt a b requested m rt' \<longleftrightarrow>
     (\<exists>src dst gs. rt_domain rt a = Some src \<and> rt_authority rt b = Some dst \<and>
        distinct (message_capabilities m) \<and> length (message_capabilities m) = length requested \<and>
        list_all2 (transferable (td_capabilities src)) requested gs \<and>
        (\<forall>h \<in> set (message_capabilities m). dst h = None) \<and>
        rt_authority rt' = (rt_authority rt)(b \<mapsto> dst(message_capabilities m [\<mapsto>] gs)))"

definition may_signal :: "task_runtime \<Rightarrow> task_id \<Rightarrow> capability \<Rightarrow> endpoint \<Rightarrow> bool" where
  "may_signal rt a c ep \<longleftrightarrow> (\<exists>src. rt_domain rt a = Some src \<and> cap_authorize (td_capabilities src) c SIGNAL = Ok (ep_object ep))"

lemma authorize_send_okD:
  assumes "authorize_send ep space c m = (Ok q, ep')"
  shows "cap_authorize space c SIGNAL = Ok (ep_object ep)" "q = ep_next_sequence ep"
    "unat (ep_next_sequence ep') = Suc (unat (ep_next_sequence ep))"
  using assms checked_add_1_SomeD [of "ep_next_sequence ep"]
  by (auto simp: authorize_send_def Let_def split: result.splits option.splits if_splits)

text \<open>The receiver's domain after a transfer, whatever else the operation does to it.\<close>

lemma transfer_delegates:
  assumes "rt_inv rt" and "rt_domain rt a = Some src" and "rt_domain rt b = Some dst"
    and "slot_of td_task b (tr_domains rt) = Some i"
    and "message_transfer payload requested (td_capabilities src) (td_capabilities dst) = (Ok m, s)"
    and "td_task d = b" and "td_capabilities d = s"
  shows "delegated rt a b requested m (rt\<lparr>tr_domains := (tr_domains rt)[i := Some d]\<rparr>)"
proof -
  have "cap_inv (td_capabilities dst)" using rt_invD(4) [OF assms(1,3)] by simp
  note m = message_transfer_okD [OF assms(5) this]
  obtain gs where "list_all2 (transferable (td_capabilities src)) requested gs"
      "cap_view s = (cap_view (td_capabilities dst))(message_capabilities m [\<mapsto>] gs)" using m(7) by auto
  then show ?thesis using assms(2,3,7) m(4-6) views_replace(2) [OF assms(1,4,6)]
    by (auto simp: delegated_def rt_authority_def)
qed

text \<open>
  Property C2.  Authority only flows by delegation.  A send or delivery that fails, for whatever
  reason and at whatever point, leaves the endpoint's sequence and the authority of every task
  exactly as they were.  One that succeeds was allowed by a handle of the sender that signals the endpoint,
  takes the endpoint's next sequence number, and gives the receiver, under one fresh handle per request,
  exactly the requested rights on objects the sender could delegate; nobody else's authority
  changes.  The message delivered to the receiver's inbox carries exactly those handles.
\<close>

theorem ipc_authority_flow:
  assumes "rt_inv rt"
  shows "(case rt_send_ipc a b c payload requested ep rt of
            (Err e, ep', rt') \<Rightarrow> ep' = ep \<and> rt_authority rt' = rt_authority rt
          | (Ok (n, m), ep', rt') \<Rightarrow> may_signal rt a c ep \<and> delegated rt a b requested m rt' \<and>
              n = ep_next_sequence ep \<and> unat (ep_next_sequence ep') = Suc (unat n)) \<and>
         (case rt_deliver_ipc a b c payload requested ep rt of
            (Err e, ep', rt') \<Rightarrow> ep' = ep \<and> rt_authority rt' = rt_authority rt \<and> tr_scheduler rt' = tr_scheduler rt
          | (Ok n, ep', rt') \<Rightarrow> may_signal rt a c ep \<and>
              (\<exists>q m. rt_queues rt b = Some q \<and> rt_queues rt' b = Some (q @ [m]) \<and> delegated rt a b requested m rt') \<and>
              n = ep_next_sequence ep \<and> unat (ep_next_sequence ep') = Suc (unat n))"
    (is "?send \<and> ?deliver")
proof
  show ?send using assms
  proof (cases rule: rt_sendE [where sender = a and receiver = b and cap = c and payload = payload
        and requested = requested and ep = ep])
    case (ok src dst i s m q ep')
    have "td_task (dst\<lparr>td_capabilities := s\<rparr>) = b" using domain_task [OF ok(3)] by simp
    from transfer_delegates [OF assms ok(2-5) this]
    show ?thesis using ok(2,8) authorize_send_okD [OF ok(7)] by (auto simp: may_signal_def)
  next
    case (rolled_back src dst i s e)
    show ?thesis using send_refused_views [OF assms rolled_back(7)] rolled_back(7) by simp
  qed simp
  show ?deliver using assms
  proof (cases rule: rt_deliverE [where sender = a and receiver = b and cap = c and payload = payload
        and requested = requested and ep = ep])
    case (ok src dst i s m q ep')
    let ?d = "inbox_push m (dst\<lparr>td_capabilities := s\<rparr>)"
    have d: "td_task ?d = b" "td_capabilities ?d = s" using domain_task [OF ok(3)] by simp_all
    have "inbox_ok dst" using rt_invD(4) [OF assms ok(3)] by simp
    then have "inbox_queue ?d = inbox_queue dst @ [m]"
      using inbox_push(2) [of "dst\<lparr>td_capabilities := s\<rparr>" m] ok(8) by simp
    then have "rt_queues rt b = Some (inbox_queue dst)"
        "rt_queues (rt\<lparr>tr_domains := (tr_domains rt)[i := Some ?d]\<rparr>) b = Some (inbox_queue dst @ [m])"
      using ok(3) views_replace(1) [OF assms ok(4) d(1)] by (simp_all add: rt_queues_def)
    then show ?thesis using ok(2,9) authorize_send_okD [OF ok(7)] transfer_delegates [OF assms ok(2-5) d]
      by (auto simp: may_signal_def delegated_def)
  next
    case (refused e rt')
    then show ?thesis using send_refused_views [OF assms refused(1)] by simp
  qed simp_all
qed

theorem ipc_authority_flow_witness:
  "(\<exists>ep' rt' m. rt_deliver_ipc task0 task1 demo_cap [] [(demo_cap, SIGNAL)] (endpoint_new 7) demo_runtime = (Ok 1, ep', rt') \<and>
     delegated demo_runtime task0 task1 [(demo_cap, SIGNAL)] m rt') \<and>
   (let r = rt_send_ipc task0 task1 demo_cap [] [(demo_cap, SIGNAL)] (endpoint_new 8) demo_runtime in
     fst r = Err (RtIpc Unauthorized) \<and> rt_authority (snd (snd r)) = rt_authority demo_runtime)"
proof
  let ?d = "rt_deliver_ipc task0 task1 demo_cap [] [(demo_cap, SIGNAL)] (endpoint_new 7) demo_runtime"
  have "fst ?d = Ok 1" by code_simp
  then obtain ep' rt' where d: "?d = (Ok 1, ep', rt')" by (metis prod.collapse)
  from ipc_authority_flow [OF demo_runtime_inv, where a = task0 and b = task1 and c = demo_cap and
      payload = "[]" and requested = "[(demo_cap, SIGNAL)]" and ep = "endpoint_new 7", THEN conjunct2]
  show "\<exists>ep' rt' m. ?d = (Ok 1, ep', rt') \<and> delegated demo_runtime task0 task1 [(demo_cap, SIGNAL)] m rt'"
    using d by auto
  let ?r = "rt_send_ipc task0 task1 demo_cap [] [(demo_cap, SIGNAL)] (endpoint_new 8) demo_runtime"
  have "fst ?r = Err (RtIpc Unauthorized)" by code_simp
  with ipc_authority_flow [OF demo_runtime_inv, where a = task0 and b = task1 and c = demo_cap and
      payload = "[]" and requested = "[(demo_cap, SIGNAL)]" and ep = "endpoint_new 8", THEN conjunct1]
  show "let r = ?r in fst r = Err (RtIpc Unauthorized) \<and> rt_authority (snd (snd r)) = rt_authority demo_runtime"
    by (simp add: Let_def split: prod.splits)
qed

section \<open>Whole domains\<close>

text \<open>
  Migrating a domain between two runtimes moves it whole.  After detaching, the
  source has forgotten the task and kept every other domain; a successful attach gives the
  destination the same context, capability space and inbox under a fresh identity with the same
  scheduling state and priority, and touches no other domain there; a refused attach returns the
  same ticket and leaves the destination as it was.  The running task is never detached.
\<close>

theorem domain_migration_moves_whole:
  assumes "rt_inv a" and "rt_inv b" and "rt_detach_domain t a = (Ok ticket, a')"
  shows "\<exists>d s. rt_domain a t = Some d \<and> ks_view (tr_scheduler a) t = Some s \<and> rt_current a \<noteq> Some t \<and>
     slots_map td_task (tr_domains a') = (slots_map td_task (tr_domains a))(t := None) \<and>
     ks_view (tr_scheduler a') = (ks_view (tr_scheduler a))(t := None) \<and>
     (case rt_attach_domain (Some ticket) b of
        (Ok m, ticket', b') \<Rightarrow> ticket' = None \<and> mig_source m = t \<and> rt_domain b (mig_destination m) = None \<and>
          slots_map td_task (tr_domains b') =
            (slots_map td_task (tr_domains b))(mig_destination m \<mapsto> d\<lparr>td_task := mig_destination m\<rparr>) \<and>
          ks_view (tr_scheduler b') = (ks_view (tr_scheduler b))(mig_destination m \<mapsto> s)
      | (Err _, ticket', b') \<Rightarrow> ticket' = Some ticket \<and> b' = b)"
  using assms(1)
proof (cases rule: rt_detachE [where t = t])
  case (ok d st p i)
  have ticket: "ticket = \<lparr>dd_scheduling = \<lparr>det_source = t, det_state = st, det_priority = p\<rparr>, dd_domain = d\<rparr>"
    and a': "slots_map td_task (tr_domains a') = (slots_map td_task (tr_domains a))(t := None)"
    "ks_view (tr_scheduler a') = (ks_view (tr_scheduler a))(t := None)"
    using assms(3) ok(5) remove_slot(2) [OF rt_invD(2) [OF assms(1)] ok(3)] by (auto simp: remove_eqs)
  have "case rt_attach_domain (Some ticket) b of
      (Ok m, ticket', b') \<Rightarrow> ticket' = None \<and> mig_source m = t \<and> rt_domain b (mig_destination m) = None \<and>
        slots_map td_task (tr_domains b') =
          (slots_map td_task (tr_domains b))(mig_destination m \<mapsto> d\<lparr>td_task := mig_destination m\<rparr>) \<and>
        ks_view (tr_scheduler b') = (ks_view (tr_scheduler b))(mig_destination m \<mapsto> (st, p))
    | (Err _, ticket', b') \<Rightarrow> ticket' = Some ticket \<and> b' = b"
    using assms(2)
  proof (cases rule: rt_attachE [where dd = ticket])
    case (ok j h k')
    have none: "rt_domain b h = None" using ok(2) rt_invD(3) [OF assms(2), of h] by simp
    have "slots_map td_task ((tr_domains b)[j := Some (d\<lparr>td_task := h\<rparr>)]) = (slots_map td_task (tr_domains b))(h \<mapsto> d\<lparr>td_task := h\<rparr>)"
      using insert_slot(2) [OF rt_invD(2) [OF assms(2)] ok(1), of "d\<lparr>td_task := h\<rparr>"] none by simp
    then show ?thesis using ok(4,5) none by (simp add: ticket)
  qed simp
  then show ?thesis using ok(1,2,4) a' by (intro exI [of _ d] exI [of _ "(st, p)"]) (simp add: rt_current_def)
qed (use assms(3) in simp_all)

theorem domain_migration_moves_whole_witness:
  "\<exists>ticket a'. rt_detach_domain task1 demo_runtime = (Ok ticket, a') \<and> rt_domain a' task1 = None \<and>
     (\<exists>b'. rt_attach_domain (Some ticket) demo_fresh =
        (Ok \<lparr>mig_source = task1, mig_destination = task0, mig_state = Runnable, mig_priority = NORMAL\<rparr>, None, b') \<and>
      map_option td_context (rt_domain b' task0) = Some demo_context)"
proof -
  let ?r = "rt_detach_domain task1 demo_runtime"
  let ?m = "\<lparr>mig_source = task1, mig_destination = task0, mig_state = Runnable, mig_priority = NORMAL\<rparr>"
  have "case fst ?r of Ok ticket \<Rightarrow> fst (rt_attach_domain (Some ticket) demo_fresh) = Ok ?m | Err _ \<Rightarrow> False"
    by code_simp
  then obtain ticket a' x b' where r: "?r = (Ok ticket, a')" and b: "rt_attach_domain (Some ticket) demo_fresh = (Ok ?m, x, b')"
    by (auto simp: prod_eq_iff split: result.splits)
  have c: "map_option td_context (rt_domain demo_runtime task1) = Some demo_context" by code_simp
  from domain_migration_moves_whole [OF demo_runtime_inv rt_new_inv [OF demo_new] r]
  show ?thesis using r b c by (auto simp: fun_eq_iff)
qed

text \<open>
  Retiring the running task, by exit or by a recoverable fault, removes its whole
  domain (context, capabilities and inbox) and its identity before the next task is chosen: the
  task chosen is another one that has a domain, and no other domain changes.  A fault reports the
  retired task and its last context; a non-recoverable one changes nothing at all.
\<close>

theorem retirement_removes_domain:
  assumes "rt_inv rt" and "rt_current rt = Some t"
  shows "\<exists>d out rt'. rt_domain rt t = Some d \<and>
     rt_terminate_current rt = (Ok \<lparr>tt_task = t, tt_next = out\<rparr>, rt') \<and>
     rt_terminate_current_fault (TerminateUser v address) rt =
       (Ok \<lparr>fr_task = t, fr_context = td_context d, fr_vector = v, fr_address = address, fr_next = out\<rparr>, rt') \<and>
     rt_terminate_current_fault (HaltKernel w) rt = (Err NonRecoverableFault, rt) \<and>
     slots_map td_task (tr_domains rt') = (slots_map td_task (tr_domains rt))(t := None) \<and>
     ks_view (tr_scheduler rt') = (ks_view (tr_scheduler rt))(t := None) \<and>
     (\<forall>n. rt_current rt' = Some n \<longrightarrow> n \<noteq> t \<and> rt_domain rt' n \<noteq> None)"
  using assms(1)
proof (cases rule: retireE)
  case (ok u d i out)
  then have u: "u = t" using assms(2) by (simp add: rt_current_def)
  define rt' where "rt' = snd (retire_current rt)"
  have r: "retire_current rt = (Ok (d, out), rt')" by (simp add: rt'_def ok(5))
  have inv: "rt_inv rt'" unfolding rt'_def by (rule retire_inv [OF assms(1)])
  have doms: "slots_map td_task (tr_domains rt') = (slots_map td_task (tr_domains rt))(t := None)"
    using remove_slot(2) [OF rt_invD(2) [OF assms(1)] ok(3)] u by (simp add: rt'_def ok(5))
  have views: "ks_view (tr_scheduler rt') = (ks_view (tr_scheduler rt))(t := None)"
    using ks_terminate_view(1) [OF rt_invD(1) [OF assms(1)] ok(1)] u by (simp add: rt'_def ok(5))
  have cur: "n \<noteq> t \<and> rt_domain rt' n \<noteq> None" if n: "rt_current rt' = Some n" for n
  proof -
    obtain e where e: "rt_domain rt' n = Some e" using rt_current_domain [OF inv n [unfolded rt_current_def]] .
    then show ?thesis using fun_cong [OF doms, of n] by auto
  qed
  have "rt_terminate_current rt = (Ok \<lparr>tt_task = t, tt_next = out\<rparr>, rt')"
    "rt_terminate_current_fault (TerminateUser v address) rt =
       (Ok \<lparr>fr_task = t, fr_context = td_context d, fr_vector = v, fr_address = address, fr_next = out\<rparr>, rt')"
    "rt_terminate_current_fault (HaltKernel w) rt = (Err NonRecoverableFault, rt)"
    using ok(1) u by (simp_all add: rt_terminate_current_def rt_terminate_current_fault_def r)
  then show ?thesis using ok(2) u doms views cur by blast
qed (use assms(2) in \<open>simp add: rt_current_def\<close>)

theorem retirement_removes_domain_witness:
  "\<exists>out rt'. rt_terminate_current demo_runtime = (Ok \<lparr>tt_task = task0, tt_next = out\<rparr>, rt') \<and>
     rt_domain rt' task0 = None"
proof -
  have "rt_current demo_runtime = Some task0" by (simp add: rt_current_def demo_current)
  from retirement_removes_domain [OF demo_runtime_inv this, of 14 None 8]
  show ?thesis by (auto simp: fun_eq_iff)
qed

text \<open>
  Preempting the running task stores the interrupted context in that task's domain
  and nowhere else, whichever task runs next; a context of another address space is refused
  and changes nothing, and every other domain keeps its context.
\<close>

theorem preempt_saves_interrupted:
  assumes "rt_inv rt" and "rt_current rt = Some t" and "rt_domain rt t = Some d"
  shows "case rt_preempt_current c rt of
     (Ok _, rt') \<Rightarrow> uc_page_table c = uc_page_table (td_context d) \<and>
       slots_map td_task (tr_domains rt') = (slots_map td_task (tr_domains rt))(t \<mapsto> d\<lparr>td_context := c\<rparr>) \<and>
       rt_context t rt' = Ok c \<and> ks_view (tr_scheduler rt') = ks_view (tr_scheduler rt)
   | (Err e, rt') \<Rightarrow> tr_domains rt' = tr_domains rt \<and>
       (e = AddressSpaceMismatch \<longleftrightarrow> uc_page_table c \<noteq> uc_page_table (td_context d)) \<and>
       (e = AddressSpaceMismatch \<longrightarrow> rt' = rt)"
proof (cases "uc_page_table (td_context d) = uc_page_table c")
  case False
  then show ?thesis using assms(2,3) by (auto simp: rt_preempt_current_def rt_current_def)
next
  case True
  have cur: "ks_current (tr_scheduler rt) = Some t" using assms(2) by (simp add: rt_current_def)
  have m: "slots_map td_task (modify td_task t (\<lambda>d. d\<lparr>td_context := c\<rparr>) (tr_domains rt)) =
      (slots_map td_task (tr_domains rt))(t \<mapsto> d\<lparr>td_context := c\<rparr>)"
    using modify_slot(2) [where f = "\<lambda>d. d\<lparr>td_context := c\<rparr>", OF rt_invD(2) [OF assms(1)] assms(3)] domain_task [OF assms(3)] by simp
  show ?thesis
  proof (cases "fst (ks_timer_tick (tr_scheduler rt))")
    case (Ok out)
    show ?thesis using rt_preempt_eq [OF assms(1) cur assms(3) True Ok] m True fun_cong [OF m, of t]
        ks_select_views(2) [OF rt_invD(1) [OF assms(1)]] by (simp add: rt_context_def)
  next
    case (Err e)
    then show ?thesis using True cur assms(3) by (auto simp: rt_preempt_current_def rt_context_mut_def on_kernel_split)
  qed
qed

theorem preempt_saves_interrupted_witness:
  "\<exists>out rt'. rt_preempt_current (demo_context\<lparr>uc_rip := 0x400010\<rparr>) demo_runtime = (Ok out, rt') \<and>
     rt_context task0 rt' = Ok (demo_context\<lparr>uc_rip := 0x400010\<rparr>)"
proof -
  let ?c = "demo_context\<lparr>uc_rip := 0x400010\<rparr>"
  have "case fst (rt_preempt_current ?c demo_runtime) of Ok _ \<Rightarrow> True | Err _ \<Rightarrow> False" by code_simp
  then obtain out rt' where r: "rt_preempt_current ?c demo_runtime = (Ok out, rt')"
    by (auto simp: prod_eq_iff split: result.splits)
  have cur: "rt_current demo_runtime = Some task0" by (simp add: rt_current_def demo_current)
  obtain d where "rt_domain demo_runtime task0 = Some d" using rt_current_domain [OF demo_runtime_inv demo_current] .
  from preempt_saves_interrupted [OF demo_runtime_inv cur this, of ?c] show ?thesis using r by simp
qed

end
