(* ===== verification/Mailbox.thy ===== *)
theory Mailbox
  imports Kernel_Prelude
begin

text \<open>
  The ownership mailbox of \<open>crates/mrml-kernel/src/scheduler.rs\<close>: an atomic byte guards one
  \<open>MaybeUninit\<close> slot that any number of CPUs publish into and take from.  A thread's operation
  is split at its memory accesses (the compare-exchange, the access to the slot, the final
  store), and the accesses of all threads interleave freely; the acquire and release orderings
  of the code are what makes this interleaving semantics adequate.  Reading the slot moves the
  value out, so the slot counts as uninitialised afterwards.
\<close>

section \<open>Definitions\<close>

definition MAILBOX_EMPTY :: u8 where "MAILBOX_EMPTY = 0"
definition MAILBOX_WRITING :: u8 where "MAILBOX_WRITING = 1"
definition MAILBOX_FULL :: u8 where "MAILBOX_FULL = 2"
definition MAILBOX_READING :: u8 where "MAILBOX_READING = 3"

text \<open>Where a thread is inside \<open>publish\<close> or \<open>take\<close>.\<close>

datatype 'a mb_pc = Outside | Writing 'a | Storing_Full | Reading | Storing_Empty 'a

datatype 'a mb_action = Publish 'a | Take | Resume

text \<open>The last three fields record history: accepted, refused and returned values.\<close>

record 'a mailbox =
  mb_state :: u8
  mb_task :: "'a option"
  mb_pcs :: "nat \<Rightarrow> 'a mb_pc"
  mb_accepted :: "'a list"
  mb_refused :: "'a list"
  mb_taken :: "'a list"

definition mb_new :: "'a mailbox" where
  "mb_new = \<lparr>mb_state = MAILBOX_EMPTY, mb_task = None, mb_pcs = (\<lambda>_. Outside),
     mb_accepted = [], mb_refused = [], mb_taken = []\<rparr>"

definition mb_publish_cas :: "nat \<Rightarrow> 'a \<Rightarrow> 'a mailbox \<Rightarrow> 'a mailbox" where
  "mb_publish_cas i v s =
     (if mb_state s = MAILBOX_EMPTY
      then s\<lparr>mb_state := MAILBOX_WRITING, mb_pcs := (mb_pcs s)(i := Writing v),
             mb_accepted := mb_accepted s @ [v]\<rparr>
      else s\<lparr>mb_refused := mb_refused s @ [v]\<rparr>)"

definition mb_take_cas :: "nat \<Rightarrow> 'a mailbox \<Rightarrow> 'a mailbox" where
  "mb_take_cas i s =
     (if mb_state s = MAILBOX_FULL
      then s\<lparr>mb_state := MAILBOX_READING, mb_pcs := (mb_pcs s)(i := Reading)\<rparr>
      else s)"

text \<open>
  One step of thread \<open>i\<close>.  \<open>None\<close> marks a step that is not possible: starting an operation
  inside another one, resuming outside, or reading an uninitialised slot, which the code may
  not do at all.
\<close>

fun mb_step :: "nat \<Rightarrow> 'a mb_action \<Rightarrow> 'a mailbox \<Rightarrow> 'a mailbox option" where
  "mb_step i (Publish v) s = (case mb_pcs s i of Outside \<Rightarrow> Some (mb_publish_cas i v s) | _ \<Rightarrow> None)"
| "mb_step i Take s = (case mb_pcs s i of Outside \<Rightarrow> Some (mb_take_cas i s) | _ \<Rightarrow> None)"
| "mb_step i Resume s =
     (case mb_pcs s i of
        Outside \<Rightarrow> None
      | Writing v \<Rightarrow> Some (s\<lparr>mb_task := Some v, mb_pcs := (mb_pcs s)(i := Storing_Full)\<rparr>)
      | Storing_Full \<Rightarrow> Some (s\<lparr>mb_state := MAILBOX_FULL, mb_pcs := (mb_pcs s)(i := Outside)\<rparr>)
      | Reading \<Rightarrow>
          (case mb_task s of
             None \<Rightarrow> None
           | Some v \<Rightarrow> Some (s\<lparr>mb_task := None, mb_pcs := (mb_pcs s)(i := Storing_Empty v)\<rparr>))
      | Storing_Empty v \<Rightarrow>
          Some (s\<lparr>mb_state := MAILBOX_EMPTY, mb_pcs := (mb_pcs s)(i := Outside),
                  mb_taken := mb_taken s @ [v]\<rparr>))"

text \<open>\<open>drop\<close> has exclusive ownership: it drops the value of a full mailbox and nothing else.\<close>

definition mb_drop :: "'a mailbox \<Rightarrow> 'a option" where
  "mb_drop s = (if mb_state s = MAILBOX_FULL then mb_task s else None)"

inductive mb_reachable :: "'a mailbox \<Rightarrow> bool" where
  start: "mb_reachable mb_new"
| step: "mb_reachable s \<Longrightarrow> mb_step i a s = Some s' \<Longrightarrow> mb_reachable s'"

fun mb_run :: "(nat \<times> 'a mb_action) list \<Rightarrow> 'a mailbox \<Rightarrow> 'a mailbox option" where
  "mb_run [] s = Some s"
| "mb_run ((i, a) # xs) s = (case mb_step i a s of None \<Rightarrow> None | Some s' \<Rightarrow> mb_run xs s')"

lemma mb_run_reachable: "mb_reachable s \<Longrightarrow> mb_run xs s = Some s' \<Longrightarrow> mb_reachable s'"
  by (induction xs s rule: mb_run.induct) (auto split: option.splits intro: step)

section \<open>The invariant\<close>

text \<open>
  The state byte says which single thread, if any, owns the slot, and what is in flight between
  the accepted and the returned values.
\<close>

definition quiet :: "'a mailbox \<Rightarrow> bool" where
  "quiet s \<longleftrightarrow> (\<forall>i. mb_pcs s i = Outside)"

definition owner :: "'a mailbox \<Rightarrow> nat \<Rightarrow> 'a mb_pc \<Rightarrow> bool" where
  "owner s i pc \<longleftrightarrow> mb_pcs s = (\<lambda>_. Outside)(i := pc) \<and> pc \<noteq> Outside"

inductive mb_phase :: "'a mailbox \<Rightarrow> 'a list \<Rightarrow> bool" where
  empty: "mb_state s = MAILBOX_EMPTY \<Longrightarrow> mb_task s = None \<Longrightarrow> quiet s \<Longrightarrow> mb_phase s []"
| writing: "mb_state s = MAILBOX_WRITING \<Longrightarrow> mb_task s = None \<Longrightarrow> owner s i (Writing v) \<Longrightarrow> mb_phase s [v]"
| written: "mb_state s = MAILBOX_WRITING \<Longrightarrow> mb_task s = Some v \<Longrightarrow> owner s i Storing_Full \<Longrightarrow> mb_phase s [v]"
| full: "mb_state s = MAILBOX_FULL \<Longrightarrow> mb_task s = Some v \<Longrightarrow> quiet s \<Longrightarrow> mb_phase s [v]"
| reading: "mb_state s = MAILBOX_READING \<Longrightarrow> mb_task s = Some v \<Longrightarrow> owner s i Reading \<Longrightarrow> mb_phase s [v]"
| read: "mb_state s = MAILBOX_READING \<Longrightarrow> mb_task s = None \<Longrightarrow> owner s i (Storing_Empty v) \<Longrightarrow> mb_phase s [v]"

definition mb_inv :: "'a mailbox \<Rightarrow> bool" where
  "mb_inv s \<longleftrightarrow> (\<exists>flight. mb_phase s flight \<and> mb_accepted s = mb_taken s @ flight)"

lemmas mailbox_states = MAILBOX_EMPTY_def MAILBOX_WRITING_def MAILBOX_FULL_def MAILBOX_READING_def

lemma ownerD: "owner s i pc \<Longrightarrow> mb_pcs s j \<noteq> Outside \<longleftrightarrow> j = i" "owner s i pc \<Longrightarrow> mb_pcs s i = pc"
  by (auto simp: owner_def)

lemma owner_upd:
  "quiet s \<Longrightarrow> (mb_pcs s)(i := pc) = (\<lambda>_. Outside)(i := pc)"
  "owner s i pc' \<Longrightarrow> (mb_pcs s)(i := pc) = (\<lambda>_. Outside)(i := pc)"
  by (auto simp: owner_def quiet_def fun_eq_iff)

text \<open>Starting an operation: only an empty or a full mailbox changes hands.\<close>

lemma publish_inv:
  assumes "mb_inv s" and "mb_pcs s i = Outside"
  shows "mb_inv (mb_publish_cas i v s)"
proof (cases "mb_state s = MAILBOX_EMPTY")
  case True
  then have "quiet s" "mb_task s = None" "mb_accepted s = mb_taken s"
    using assms(1) by (auto simp: mb_inv_def mailbox_states elim!: mb_phase.cases)
  then have "mb_phase (mb_publish_cas i v s) [v]"
    using True by (intro writing) (auto simp: mb_publish_cas_def owner_def owner_upd)
  then show ?thesis using True \<open>mb_accepted s = mb_taken s\<close> by (auto simp: mb_inv_def mb_publish_cas_def)
next
  case False
  obtain flight where f: "mb_phase s flight" "mb_accepted s = mb_taken s @ flight"
    using assms(1) by (auto simp: mb_inv_def)
  from f(1) have "mb_phase (s\<lparr>mb_refused := mb_refused s @ [v]\<rparr>) flight"
    by cases (auto simp: quiet_def owner_def intro: mb_phase.intros)
  then show ?thesis using False f(2) by (auto simp: mb_inv_def mb_publish_cas_def)
qed

lemma take_inv:
  assumes "mb_inv s" and "mb_pcs s i = Outside"
  shows "mb_inv (mb_take_cas i s)"
proof (cases "mb_state s = MAILBOX_FULL")
  case True
  then obtain v where v: "quiet s" "mb_task s = Some v" "mb_accepted s = mb_taken s @ [v]"
    using assms(1) by (auto simp: mb_inv_def mailbox_states elim!: mb_phase.cases)
  then have "mb_phase (mb_take_cas i s) [v]"
    using True by (intro reading) (auto simp: mb_take_cas_def owner_def owner_upd)
  then show ?thesis using True v(3) by (auto simp: mb_inv_def mb_take_cas_def)
qed (simp add: assms mb_take_cas_def)

lemma resume_inv:
  assumes "mb_inv s" and "mb_step i Resume s = Some s'"
  shows "mb_inv s'"
proof -
  obtain flight where f: "mb_phase s flight" "mb_accepted s = mb_taken s @ flight"
    using assms(1) by (auto simp: mb_inv_def)
  from assms(2) have busy: "mb_pcs s i \<noteq> Outside" by auto
  from f(1) show ?thesis
  proof cases
    case (writing j v)
    then have j: "j = i" using ownerD(1) busy by metis
    then have "mb_phase s' [v]" using writing assms(2) ownerD(2) [OF writing(4)] owner_upd(2) [OF writing(4)]
      by (intro mb_phase.written) (auto simp: owner_def)
    then show ?thesis using writing j assms(2) f(2) ownerD(2) [OF writing(4)] by (auto simp: mb_inv_def)
  next
    case (written v j)
    then have j: "j = i" using ownerD(1) busy by metis
    then have "mb_phase s' [v]" using written assms(2) ownerD(2) [OF written(4)] owner_upd(2) [OF written(4)]
      by (intro mb_phase.full) (auto simp: quiet_def)
    then show ?thesis using written j assms(2) f(2) ownerD(2) [OF written(4)] by (auto simp: mb_inv_def)
  next
    case (reading v j)
    then have j: "j = i" using ownerD(1) busy by metis
    then have "mb_phase s' [v]" using reading assms(2) ownerD(2) [OF reading(4)] owner_upd(2) [OF reading(4)]
      by (intro mb_phase.read) (auto simp: owner_def)
    then show ?thesis using reading j assms(2) f(2) ownerD(2) [OF reading(4)] by (auto simp: mb_inv_def)
  next
    case (read j v)
    then have j: "j = i" using ownerD(1) busy by metis
    then have "mb_phase s' []" using read assms(2) ownerD(2) [OF read(4)] owner_upd(2) [OF read(4)]
      by (intro mb_phase.empty) (auto simp: quiet_def)
    then show ?thesis using read j assms(2) f(2) ownerD(2) [OF read(4)] by (auto simp: mb_inv_def)
  qed (use busy in \<open>auto simp: quiet_def\<close>)
qed

lemma mb_step_inv: "mb_inv s \<Longrightarrow> mb_step i a s = Some s' \<Longrightarrow> mb_inv s'"
  by (cases a) (auto simp del: mb_step.simps(3) simp: publish_inv take_inv resume_inv split: mb_pc.splits)

lemma mb_reachable_inv: "mb_reachable s \<Longrightarrow> mb_inv s"
proof (induction rule: mb_reachable.induct)
  case start
  have "mb_phase mb_new []" by (rule mb_phase.empty) (simp_all add: mb_new_def quiet_def)
  then show ?case by (auto simp: mb_inv_def mb_new_def)
qed (rule mb_step_inv)

section \<open>Properties\<close>

text \<open>
  Property C31.  Mutual exclusion and memory safety, for any number of threads and any
  interleaving: at most one thread is inside the critical region, a thread about to read finds
  an initialised slot, a thread about to write finds an uninitialised one (so no value is
  overwritten), and a thread inside an operation can always take its next step.
\<close>

theorem mailbox_mutual_exclusion:
  assumes "mb_reachable s"
  shows "(\<forall>i j. mb_pcs s i \<noteq> Outside \<longrightarrow> mb_pcs s j \<noteq> Outside \<longrightarrow> i = j) \<and>
         (\<forall>i. mb_pcs s i = Reading \<longrightarrow> mb_task s \<noteq> None) \<and>
         (\<forall>i v. mb_pcs s i = Writing v \<longrightarrow> mb_task s = None) \<and>
         (\<forall>i. mb_pcs s i \<noteq> Outside \<longrightarrow> mb_step i Resume s \<noteq> None)"
proof -
  obtain flight where "mb_phase s flight" using mb_reachable_inv [OF assms] by (auto simp: mb_inv_def)
  then show ?thesis
    by cases (auto simp: quiet_def owner_def split: if_splits)
qed

theorem mailbox_mutual_exclusion_witness:
  "\<exists>s :: nat mailbox. mb_reachable s \<and> mb_pcs s 0 = Reading \<and> mb_task s \<noteq> None"
proof -
  let ?acts = "[(0, Publish 7), (0, Resume), (0, Resume), (0, Take)]"
  obtain s :: "nat mailbox" where s: "mb_run ?acts mb_new = Some s" "mb_pcs s 0 = Reading"
    by (simp add: mb_new_def mb_publish_cas_def mb_take_cas_def mailbox_states)
  from mb_run_reachable [OF start s(1)] show ?thesis using mailbox_mutual_exclusion s(2) by blast
qed

text \<open>
  Values are neither lost nor duplicated nor reordered: what has been accepted is
  what has been returned followed by at most one value still in flight.  When no thread is
  inside an operation, that value is exactly what dropping the mailbox would drop, so every
  accepted task is returned or dropped exactly once.
\<close>

theorem mailbox_linear_ownership:
  assumes "mb_reachable s"
  shows "\<exists>flight. mb_accepted s = mb_taken s @ flight \<and> length flight \<le> 1 \<and>
     ((\<forall>i. mb_pcs s i = Outside) \<longrightarrow> flight = (case mb_drop s of None \<Rightarrow> [] | Some v \<Rightarrow> [v]))"
proof -
  obtain flight where f: "mb_phase s flight" "mb_accepted s = mb_taken s @ flight"
    using mb_reachable_inv [OF assms] by (auto simp: mb_inv_def)
  from f(1) have "length flight \<le> 1 \<and> ((\<forall>i. mb_pcs s i = Outside) \<longrightarrow>
      flight = (case mb_drop s of None \<Rightarrow> [] | Some v \<Rightarrow> [v]))"
    by cases (auto simp: quiet_def owner_def mb_drop_def mailbox_states fun_eq_iff split: if_splits)
  with f(2) show ?thesis by blast
qed

theorem mailbox_linear_ownership_witness:
  "\<exists>s :: nat mailbox. mb_reachable s \<and> mb_accepted s = [7] \<and> mb_taken s = [] \<and> mb_drop s = Some 7"
proof -
  let ?acts = "[(0, Publish 7), (0, Resume), (0, Resume)]"
  obtain s :: "nat mailbox" where s: "mb_run ?acts mb_new = Some s" "mb_accepted s = [7]" "mb_taken s = []"
    "\<forall>i. mb_pcs s i = Outside"
    by (simp add: mb_new_def mb_publish_cas_def mailbox_states)
  from mb_run_reachable [OF start s(1)] have r: "mb_reachable s" .
  have "[7] = (case mb_drop s of None \<Rightarrow> [] | Some v \<Rightarrow> [v])"
    using mailbox_linear_ownership [OF r] s by auto
  then have "mb_drop s = Some 7" by (auto split: option.splits)
  with r s show ?thesis by blast
qed

end
