(* ===== verification/Domain_Balancer.thy ===== *)
theory Domain_Balancer
  imports Runtime_Safety Mailbox "HOL-Library.Multiset"
begin

text \<open>
  The periodic domain balancer of \<open>crates/mrml-kernel/src/task_runtime.rs\<close>: it couples the
  scheduler's peer selection to the ownership mailboxes of the other CPUs, keeping a refused
  ticket until it is accepted.
\<close>

section \<open>Definitions\<close>

datatype domain_balance_error = BalancePolicy balance_policy_error | BalanceRuntime task_runtime_error

datatype domain_balance_outcome = BalanceIdle | Published balance_target | RetryPending balance_target

record timer_domain_balance_outcome =
  tb_scheduling :: schedule_outcome
  tb_balancing :: domain_balance_outcome

record periodic_domain_balancer =
  db_policy :: periodic_balancer
  db_pending :: "(balance_target \<times> detached_task_domain) option"

definition db_new :: "nat \<Rightarrow> u64 \<Rightarrow> u64 \<Rightarrow> (periodic_domain_balancer, domain_balance_error) result" where
  "db_new cpus start_tick interval_ticks =
     (case pb_new cpus start_tick interval_ticks of
        Ok policy \<Rightarrow> Ok \<lparr>db_policy = policy, db_pending = None\<rparr>
      | Err e \<Rightarrow> Err (BalancePolicy e))"

definition db_pending_target :: "periodic_domain_balancer \<Rightarrow> balance_target option" where
  "db_pending_target db = map_option fst (db_pending db)"

text \<open>A publication that is not interleaved with other operations on the same mailbox.\<close>

definition mb_publish :: "'a \<Rightarrow> 'a mailbox \<Rightarrow> (unit, 'a) result \<times> 'a mailbox" where
  "mb_publish v s =
     (if mb_state s = MAILBOX_EMPTY
      then (Ok (), s\<lparr>mb_state := MAILBOX_FULL, mb_task := Some v, mb_accepted := mb_accepted s @ [v]\<rparr>)
      else (Err v, s\<lparr>mb_refused := mb_refused s @ [v]\<rparr>))"

type_synonym mailboxes = "detached_task_domain mailbox list"

text \<open>Publishing a ticket, or keeping it pending.\<close>

definition publish_or_keep ::
  "balance_target \<Rightarrow> detached_task_domain \<Rightarrow> periodic_domain_balancer \<Rightarrow> mailboxes \<Rightarrow>
     domain_balance_outcome \<times> periodic_domain_balancer \<times> mailboxes" where
  "publish_or_keep target ticket db boxes =
     (case mb_publish ticket (boxes ! bt_cpu target) of
        (Ok _, box) \<Rightarrow> (Published target, db, boxes[bt_cpu target := box])
      | (Err ticket, box) \<Rightarrow>
          (RetryPending target, db\<lparr>db_pending := Some (target, ticket)\<rparr>, boxes[bt_cpu target := box]))"

definition poll_and_publish ::
  "u64 \<Rightarrow> nat \<Rightarrow> scheduler_load list \<Rightarrow> periodic_domain_balancer \<Rightarrow> task_runtime \<Rightarrow> mailboxes \<Rightarrow>
     (domain_balance_outcome, domain_balance_error) result \<times> periodic_domain_balancer \<times> task_runtime \<times> mailboxes" where
  "poll_and_publish tick local_cpu loads db rt boxes =
     (case db_pending db of
        Some (target, ticket) \<Rightarrow>
          let (out, db, boxes) = publish_or_keep target ticket (db\<lparr>db_pending := None\<rparr>) boxes in
          (Ok out, db, rt, boxes)
      | None \<Rightarrow>
          (case pb_poll tick local_cpu loads (db_policy db) of
             (Err e, p) \<Rightarrow> (Err (BalancePolicy e), db\<lparr>db_policy := p\<rparr>, rt, boxes)
           | (Ok None, p) \<Rightarrow> (Ok BalanceIdle, db\<lparr>db_policy := p\<rparr>, rt, boxes)
           | (Ok (Some target), p) \<Rightarrow>
               let db = db\<lparr>db_policy := p\<rparr> in
               (case rt_detach_domain_for_rebalance (bt_load target) rt of
                  (Err e, rt) \<Rightarrow> (Err (BalanceRuntime e), db, rt, boxes)
                | (Ok None, rt) \<Rightarrow> (Ok BalanceIdle, db, rt, boxes)
                | (Ok (Some ticket), rt) \<Rightarrow>
                    let (out, db, boxes) = publish_or_keep target ticket db boxes in
                    (Ok out, db, rt, boxes))))"

definition timer_tick_and_publish ::
  "nat \<Rightarrow> scheduler_load list \<Rightarrow> periodic_domain_balancer \<Rightarrow> task_runtime \<Rightarrow> mailboxes \<Rightarrow>
     (timer_domain_balance_outcome, domain_balance_error) result \<times> periodic_domain_balancer \<times> task_runtime \<times> mailboxes" where
  "timer_tick_and_publish local_cpu loads db rt boxes =
     (if local_cpu \<ge> length loads \<or> loads ! local_cpu \<noteq> rt_load rt
      then (Err (BalanceRuntime IntegrityFailure), db, rt, boxes)
      else case rt_timer_tick rt of
        (Err e, rt) \<Rightarrow> (Err (BalanceRuntime e), db, rt, boxes)
      | (Ok scheduling, rt) \<Rightarrow>
          (case poll_and_publish (ks_ticks (tr_scheduler rt)) local_cpu loads db rt boxes of
             (Err e, db, rt, boxes) \<Rightarrow> (Err e, db, rt, boxes)
           | (Ok balancing, db, rt, boxes) \<Rightarrow>
               (Ok \<lparr>tb_scheduling = scheduling, tb_balancing = balancing\<rparr>, db, rt, boxes)))"

section \<open>Every domain is somewhere\<close>

text \<open>The publication is what the mailbox's own steps do when nothing comes between them.\<close>

lemma mb_publish_steps:
  assumes "mb_pcs s i = Outside"
  shows "mb_run (if mb_state s = MAILBOX_EMPTY then [(i, Publish v), (i, Resume), (i, Resume)] else [(i, Publish v)]) s
     = Some (snd (mb_publish v s))"
  using assms by (simp add: mb_publish_def mb_publish_cas_def fun_upd_idem)

definition held_in :: "mailboxes \<Rightarrow> task_domain multiset" where
  "held_in boxes = (\<Sum>b \<in># mset boxes. case mb_task b of None \<Rightarrow> {#} | Some t \<Rightarrow> {#dd_domain t#})"

definition held_by :: "task_runtime \<Rightarrow> task_domain multiset" where
  "held_by rt = mset (flatten (tr_domains rt))"

definition held_pending :: "periodic_domain_balancer \<Rightarrow> task_domain multiset" where
  "held_pending db = (case db_pending db of None \<Rightarrow> {#} | Some (_, t) \<Rightarrow> {#dd_domain t#})"

definition held :: "periodic_domain_balancer \<Rightarrow> task_runtime \<Rightarrow> mailboxes \<Rightarrow> task_domain multiset" where
  "held db rt boxes = held_pending db + held_by rt + held_in boxes"

lemma flatten_clear:
  "i < length xs \<Longrightarrow> xs ! i = Some a \<Longrightarrow> mset (flatten xs) = add_mset a (mset (flatten (xs[i := None])))"
  by (induction xs arbitrary: i) (auto simp: nth_Cons flatten_def split: nat.splits option.splits)

lemma detach_held:
  assumes "rt_inv rt" and "rt_detach_domain t rt = (Ok dd, rt')"
  shows "held_by rt = add_mset (dd_domain dd) (held_by rt')"
  using assms(1)
proof (cases rule: rt_detachE [where t = t])
  case (ok d st p i)
  then have "i < length (tr_domains rt)" "tr_domains rt ! i = Some d" by (auto elim!: slot_of_SomeE)
  from flatten_clear [OF this] show ?thesis using ok(5) assms(2) by (auto simp: held_by_def)
qed (use assms(2) in simp_all)

lemma held_in_update:
  assumes "i < length boxes" and "mb_task (boxes ! i) = None" and "mb_task b = Some t"
  shows "held_in (boxes[i := b]) = add_mset (dd_domain t) (held_in boxes)"
proof -
  obtain M where M: "mset boxes = add_mset (boxes ! i) M"
    using assms(1) multi_member_split [of "boxes ! i" "mset boxes"] by auto
  then show ?thesis using assms by (simp add: held_in_def mset_update)
qed

lemma held_in_same:
  assumes "i < length boxes" and "mb_task b = mb_task (boxes ! i)"
  shows "held_in (boxes[i := b]) = held_in boxes"
proof -
  obtain M where M: "mset boxes = add_mset (boxes ! i) M"
    using assms(1) multi_member_split [of "boxes ! i" "mset boxes"] by auto
  then show ?thesis using assms by (simp add: held_in_def mset_update)
qed

text \<open>What the mailbox protocol guarantees: an empty state byte means an empty slot.\<close>

definition boxes_ok :: "mailboxes \<Rightarrow> bool" where
  "boxes_ok boxes \<longleftrightarrow> (\<forall>b \<in> set boxes. mb_inv b)"

lemma mb_inv_empty: "mb_inv s \<Longrightarrow> mb_state s = MAILBOX_EMPTY \<Longrightarrow> mb_task s = None"
  by (auto simp: mb_inv_def mailbox_states elim!: mb_phase.cases)

lemma mb_publish_inv: "mb_inv s \<Longrightarrow> mb_inv (snd (mb_publish v s))"
proof -
  assume inv: "mb_inv s"
  show ?thesis
  proof (cases "mb_state s = MAILBOX_EMPTY")
    case True
    then have "mb_phase (snd (mb_publish v s)) [v]" "mb_accepted s = mb_taken s"
      using inv by (auto simp: mb_inv_def mb_publish_def mailbox_states quiet_def elim!: mb_phase.cases intro!: mb_phase.full)
    then show ?thesis using True by (auto simp: mb_inv_def mb_publish_def)
  next
    case False
    have "\<exists>i. mb_pcs s i = Outside"
      using inv by (auto simp: mb_inv_def quiet_def elim!: mb_phase.cases) (metis n_not_Suc_n ownerD(1))+
    then obtain i where "mb_pcs s i = Outside" by blast
    from publish_inv [OF inv this, of v] show ?thesis using False by (simp add: mb_publish_def mb_publish_cas_def)
  qed
qed

lemma publish_held:
  assumes "boxes_ok boxes" and "bt_cpu target < length boxes" and "db_pending db = None"
    and "publish_or_keep target ticket db boxes = (out, db', boxes')"
  shows "held db' rt boxes' = add_mset (dd_domain ticket) (held db rt boxes)"
    and "out = Published target \<and> db' = db \<and> mb_task (boxes' ! bt_cpu target) = Some ticket \<or>
         out = RetryPending target \<and> db_pending db' = Some (target, ticket)"
    and "length boxes' = length boxes" "\<And>j. j \<noteq> bt_cpu target \<Longrightarrow> boxes' ! j = boxes ! j" "boxes_ok boxes'"
proof -
  let ?b = "boxes ! bt_cpu target"
  have inv: "mb_inv ?b" using assms(1,2) by (simp add: boxes_ok_def)
  have boxes': "boxes' = boxes[bt_cpu target := snd (mb_publish ticket ?b)]"
    using assms(4) by (auto simp: publish_or_keep_def split: prod.splits result.splits)
  show "length boxes' = length boxes" "\<And>j. j \<noteq> bt_cpu target \<Longrightarrow> boxes' ! j = boxes ! j" by (simp_all add: boxes')
  show "boxes_ok boxes'" using assms(1) mb_publish_inv [OF inv]
    by (auto simp: boxes_ok_def boxes' dest!: set_update_subset_insert [THEN subsetD])
  have "held db' rt boxes' = add_mset (dd_domain ticket) (held db rt boxes) \<and>
    (out = Published target \<and> db' = db \<and> mb_task (boxes' ! bt_cpu target) = Some ticket \<or>
     out = RetryPending target \<and> db_pending db' = Some (target, ticket))"
  proof (cases "mb_state ?b = MAILBOX_EMPTY")
    case True
    then have p: "mb_publish ticket ?b = (Ok (), ?b\<lparr>mb_state := MAILBOX_FULL, mb_task := Some ticket,
        mb_accepted := mb_accepted ?b @ [ticket]\<rparr>)" by (simp add: mb_publish_def)
    then have "held_in boxes' = add_mset (dd_domain ticket) (held_in boxes)"
      using held_in_update [OF assms(2) mb_inv_empty [OF inv True]] by (simp add: boxes')
    then show ?thesis using assms(2,4) p by (auto simp: publish_or_keep_def held_def)
  next
    case False
    then have p: "mb_publish ticket ?b = (Err ticket, ?b\<lparr>mb_refused := mb_refused ?b @ [ticket]\<rparr>)"
      by (simp add: mb_publish_def)
    then have "held_in boxes' = held_in boxes" using held_in_same [OF assms(2)] by (simp add: boxes')
    then show ?thesis using assms(3,4) p by (auto simp: publish_or_keep_def held_def held_pending_def)
  qed
  then show "held db' rt boxes' = add_mset (dd_domain ticket) (held db rt boxes)"
    "out = Published target \<and> db' = db \<and> mb_task (boxes' ! bt_cpu target) = Some ticket \<or>
     out = RetryPending target \<and> db_pending db' = Some (target, ticket)" by simp_all
qed

lemma balance_scan_cpu:
  "balance_scan local_cpu loads cpus selected = Some (cpu, load) \<Longrightarrow> cpu \<in> set cpus \<or> selected = Some (cpu, load)"
  by (induction cpus arbitrary: selected) (auto split: if_splits)

lemma poll_target_cpu:
  assumes "pb_poll tick local_cpu loads p = (Ok (Some target), p')"
  shows "bt_cpu target < length loads"
  using assms
  by (auto simp: pb_poll_def Let_def split: if_splits option.splits dest!: balance_scan_cpu intro!: mod_less_divisor)

lemma poll_cases:
  assumes "rt_inv rt" and "poll_and_publish tick cpu loads db rt boxes = (r, db', rt', boxes')"
  obtains (retry) t ticket out where "db_pending db = Some (t, ticket)"
      "publish_or_keep t ticket (db\<lparr>db_pending := None\<rparr>) boxes = (out, db', boxes')" "r = Ok out" "rt' = rt"
  | (idle) p where "db_pending db = None" "db' = db\<lparr>db_policy := p\<rparr>" "rt' = rt" "boxes' = boxes"
      "r = Ok BalanceIdle \<or> (\<exists>e. r = Err e)"
  | (moved) target h dd p out where "db_pending db = None" "bt_cpu target < length loads" "rt_detach_domain h rt = (Ok dd, rt')"
      "publish_or_keep target dd (db\<lparr>db_policy := p\<rparr>) boxes = (out, db', boxes')" "r = Ok out"
proof (cases "db_pending db")
  case (Some x)
  obtain t ticket where x: "x = (t, ticket)" by fastforce
  show thesis using retry [of t ticket] assms(2) Some x by (auto simp: poll_and_publish_def split: prod.splits)
next
  case None
  obtain a p where poll: "pb_poll tick cpu loads (db_policy db) = (a, p)" by fastforce
  show thesis
  proof (cases "\<exists>target. a = Ok (Some target)")
    case False
    then show thesis using idle [of p] assms(2) None poll
      by (auto simp: poll_and_publish_def split: result.splits option.splits)
  next
    case True
    then obtain target where a: "a = Ok (Some target)" by blast
    have cpu: "bt_cpu target < length loads" using poll_target_cpu poll a by metis
    from assms(1) show thesis
    proof (cases rule: rt_rebalanceE [where l = "bt_load target"])
      case (moved h dd rt1)
      then show thesis using that(3) [OF None cpu, of h dd p] assms(2) None poll a
        by (auto simp: poll_and_publish_def Let_def split: prod.splits)
    qed (use idle [of p] assms(2) None poll a in \<open>auto simp: poll_and_publish_def Let_def\<close>)
  qed
qed

definition db_ok :: "periodic_domain_balancer \<Rightarrow> mailboxes \<Rightarrow> bool" where
  "db_ok db boxes \<longleftrightarrow> boxes_ok boxes \<and> (\<forall>target ticket. db_pending db = Some (target, ticket) \<longrightarrow> bt_cpu target < length boxes)"

text \<open>
  Property C32.  The balancer neither duplicates nor discards a domain.  Whatever the policy, the
  runtime or the destination mailbox answers, the domains of the runtime, of the pending
  ticket and of the mailboxes are together the same before and after a poll; a pending ticket is
  offered to its own mailbox before the runtime is asked for another, and stays pending when
  the mailbox refuses it.
\<close>

theorem balancer_conserves_domains:
  assumes "rt_inv rt" and "db_ok db boxes" and "length boxes = length loads"
    and "poll_and_publish tick cpu loads db rt boxes = (r, db', rt', boxes')"
  shows "held db' rt' boxes' = held db rt boxes \<and> db_ok db' boxes' \<and> rt_inv rt' \<and>
     (case r of
        Ok (Published t) \<Rightarrow> db_pending db' = None \<and> mb_task (boxes' ! bt_cpu t) \<noteq> None
      | Ok (RetryPending t) \<Rightarrow> db_pending_target db' = Some t
      | _ \<Rightarrow> boxes' = boxes \<and> rt' = rt \<and> db_pending db' = None) \<and>
     (\<forall>t ticket. db_pending db = Some (t, ticket) \<longrightarrow> rt' = rt \<and>
        (r = Ok (Published t) \<and> mb_task (boxes' ! bt_cpu t) = Some ticket \<or>
         r = Ok (RetryPending t) \<and> db_pending db' = Some (t, ticket)))"
  using assms(1,4)
proof (cases rule: poll_cases)
  case (retry t ticket out)
  have pre: "boxes_ok boxes" "bt_cpu t < length boxes" using assms(2) retry(1) by (auto simp: db_ok_def)
  note h = publish_held [OF pre _ retry(2)]
  have "held db rt boxes = add_mset (dd_domain ticket) (held (db\<lparr>db_pending := None\<rparr>) rt boxes)"
    using retry(1) by (simp add: held_def held_pending_def)
  then show ?thesis using h(1) [of rt] h(2-) assms(1) retry pre(2) by (auto simp: db_ok_def db_pending_target_def)
next
  case (idle p)
  then show ?thesis using assms(1,2) by (auto simp: held_def held_pending_def db_ok_def)
next
  case (moved target k dd p out)
  let ?db = "db\<lparr>db_policy := p\<rparr>"
  have pre: "boxes_ok boxes" "bt_cpu target < length boxes" using assms(2,3) moved(2) by (simp_all add: db_ok_def)
  have inv: "rt_inv rt'" using rt_detach_inv [OF assms(1), of k] moved(3) by simp
  note h = publish_held [OF pre _ moved(4)]
  have "held db rt boxes = add_mset (dd_domain dd) (held ?db rt' boxes)"
    using detach_held [OF assms(1) moved(3)] by (simp add: held_def held_pending_def)
  then show ?thesis using h(1) [of rt'] h(2-) inv moved(1,5) pre(2) by (auto simp: db_ok_def db_pending_target_def)
qed

definition demo_ticket :: detached_task_domain where
  "demo_ticket = (case fst (rt_detach_domain task1 demo_runtime) of Ok d \<Rightarrow> d)"

theorem balancer_conserves_domains_witness:
  "\<forall>load policy. \<exists>db' boxes'. poll_and_publish 5 0 [load, load]
     \<lparr>db_policy = policy, db_pending = Some (\<lparr>bt_cpu = 1, bt_load = load\<rparr>, demo_ticket)\<rparr> demo_runtime [mb_new, mb_new] =
       (Ok (Published \<lparr>bt_cpu = 1, bt_load = load\<rparr>), db', demo_runtime, boxes') \<and>
     mb_task (boxes' ! 1) = Some demo_ticket"
proof (intro allI)
  fix load policy
  let ?t = "\<lparr>bt_cpu = 1, bt_load = load\<rparr>"
  let ?db = "\<lparr>db_policy = policy, db_pending = Some (?t, demo_ticket)\<rparr>"
  obtain r db' rt' boxes' where p: "poll_and_publish 5 0 [load, load] ?db demo_runtime [mb_new, mb_new] = (r, db', rt', boxes')"
    by (metis prod_cases4)
  have r: "r = Ok (Published ?t)"
    using p by (simp add: poll_and_publish_def publish_or_keep_def mb_publish_def mb_new_def)
  have "db_ok ?db [mb_new, mb_new]"
    using mb_reachable_inv [OF mb_reachable.start] by (simp add: db_ok_def boxes_ok_def)
  from balancer_conserves_domains [OF demo_runtime_inv this _ p] p r
  show "\<exists>db' boxes'. poll_and_publish 5 0 [load, load] ?db demo_runtime [mb_new, mb_new] =
      (Ok (Published ?t), db', demo_runtime, boxes') \<and> mb_task (boxes' ! 1) = Some demo_ticket" by auto
qed

end
