(* ===== verification/Service_Lifecycle.thy ===== *)
theory Service_Lifecycle
  imports Runtime_Safety
begin

text \<open>
  The service supervisor, after \<open>crates/mrml-kernel/src/service_lifecycle.rs\<close>: it binds service
  identities to tasks, retires the running service through the task runtime, and restarts a
  stopped one under CONTROL authority, a restart budget and an exponential backoff.
\<close>

section \<open>Definitions\<close>

record service_id =
  si_slot :: u32
  si_generation :: u32

definition service_token :: "service_id \<Rightarrow> u64" where
  "service_token s = (push_bit 32 (ucast (si_generation s)) OR ucast (si_slot s))"

datatype service_state = SvRunning | SvExited | SvFaulted

record restart_policy =
  maximum_restarts :: u32
  base_backoff_ticks :: u64
  maximum_backoff_ticks :: u64

datatype service_error =
  SvFull | InvalidService | InvalidObject | TaskMismatch | StillRunning | GenerationExhausted
| InvalidRestartPolicy | RestartLimit | RestartBackoff u64 | TimeExhausted
| SvUnauthorized capability_error | SvRuntime task_runtime_error

definition ONCE_IMMEDIATE :: restart_policy where
  "ONCE_IMMEDIATE = \<lparr>maximum_restarts = 1, base_backoff_ticks = 0, maximum_backoff_ticks = 0\<rparr>"

definition policy_new :: "u32 \<Rightarrow> u64 \<Rightarrow> u64 \<Rightarrow> (restart_policy, service_error) result" where
  "policy_new maximum base max_backoff =
     (if maximum = 0 \<or> max_backoff < base then Err InvalidRestartPolicy
      else Ok \<lparr>maximum_restarts = maximum, base_backoff_ticks = base, maximum_backoff_ticks = max_backoff\<rparr>)"

definition policy_delay :: "restart_policy \<Rightarrow> u32 \<Rightarrow> u64" where
  "policy_delay p completed_restarts =
     (let shift = min completed_restarts 63 in
      min (saturating_mul (base_backoff_ticks p) (push_bit (unat shift) 1)) (maximum_backoff_ticks p))"

record service_retirement =
  sr_service :: service_id
  sr_task :: task_id
  sr_next :: schedule_outcome

record service_fault =
  sf_service :: service_id
  sf_retirement :: fault_retirement

record service_slot =
  ss_generation :: u32
  ss_object :: object_id
  ss_task :: "task_id option"
  ss_state :: service_state
  ss_occupied :: bool
  ss_restart_policy :: restart_policy
  ss_completed_restarts :: u32
  ss_next_restart_tick :: u64

definition service_EMPTY :: service_slot where
  "service_EMPTY = \<lparr>ss_generation = 1, ss_object = 0, ss_task = None, ss_state = SvExited, ss_occupied = False,
     ss_restart_policy = ONCE_IMMEDIATE, ss_completed_restarts = 0, ss_next_restart_tick = 0\<rparr>"

type_synonym service_supervisor = "service_slot list"

definition sv_new :: "nat \<Rightarrow> service_supervisor" where
  "sv_new n = replicate n service_EMPTY"

definition register_with_policy ::
  "object_id \<Rightarrow> task_id \<Rightarrow> restart_policy \<Rightarrow> service_supervisor \<Rightarrow>
     (service_id, service_error) result \<times> service_supervisor" where
  "register_with_policy obj task policy sv =
     (if obj = 0 then (Err InvalidObject, sv)
      else case position (\<lambda>e. \<not> ss_occupied e) sv of
        None \<Rightarrow> (Err SvFull, sv)
      | Some slot \<Rightarrow>
          let e = (sv ! slot)\<lparr>ss_object := obj, ss_task := Some task, ss_state := SvRunning, ss_occupied := True,
                    ss_restart_policy := policy, ss_completed_restarts := 0, ss_next_restart_tick := 0\<rparr> in
          (Ok \<lparr>si_slot = of_nat slot, si_generation = ss_generation e\<rparr>, sv[slot := e]))"

definition register ::
  "object_id \<Rightarrow> task_id \<Rightarrow> service_supervisor \<Rightarrow> (service_id, service_error) result \<times> service_supervisor" where
  "register obj task = register_with_policy obj task ONCE_IMMEDIATE"

definition sv_slot :: "service_supervisor \<Rightarrow> service_id \<Rightarrow> (service_slot, service_error) result" where
  "sv_slot sv s =
     (let i = unat (si_slot s) in
      if i < length sv \<and> ss_occupied (sv ! i) \<and> ss_generation (sv ! i) = si_generation s
      then Ok (sv ! i) else Err InvalidService)"

definition sv_state :: "service_supervisor \<Rightarrow> service_id \<Rightarrow> (service_state, service_error) result" where
  "sv_state sv s = (case sv_slot sv s of Ok e \<Rightarrow> Ok (ss_state e) | Err x \<Rightarrow> Err x)"

definition sv_task :: "service_supervisor \<Rightarrow> service_id \<Rightarrow> (task_id option, service_error) result" where
  "sv_task sv s = (case sv_slot sv s of Ok e \<Rightarrow> Ok (ss_task e) | Err x \<Rightarrow> Err x)"

definition running_task_slot :: "service_supervisor \<Rightarrow> task_id \<Rightarrow> (nat, service_error) result" where
  "running_task_slot sv t =
     ok_or (position (\<lambda>e. ss_occupied e \<and> ss_state e = SvRunning \<and> ss_task e = Some t) sv) TaskMismatch"

definition sv_id :: "service_supervisor \<Rightarrow> nat \<Rightarrow> service_id" where
  "sv_id sv slot = \<lparr>si_slot = of_nat slot, si_generation = ss_generation (sv ! slot)\<rparr>"

definition arm_restart :: "nat \<Rightarrow> u64 \<Rightarrow> service_supervisor \<Rightarrow> (unit, service_error) result \<times> service_supervisor" where
  "arm_restart slot now sv =
     (let e = sv ! slot in
      if ss_completed_restarts e \<ge> maximum_restarts (ss_restart_policy e)
      then (Ok (), sv[slot := e\<lparr>ss_next_restart_tick := - 1\<rparr>])
      else case checked_add now (policy_delay (ss_restart_policy e) (ss_completed_restarts e)) of
        None \<Rightarrow> (Err TimeExhausted, sv)
      | Some n \<Rightarrow> (Ok (), sv[slot := e\<lparr>ss_next_restart_tick := n\<rparr>]))"

definition exit_current_at ::
  "u64 \<Rightarrow> service_supervisor \<Rightarrow> task_runtime \<Rightarrow>
     (service_retirement, service_error) result \<times> service_supervisor \<times> task_runtime" where
  "exit_current_at now sv rt =
     (case rt_current rt of
        None \<Rightarrow> (Err (SvRuntime RtNoCurrentTask), sv, rt)
      | Some current \<Rightarrow>
      (case running_task_slot sv current of
        Err e \<Rightarrow> (Err e, sv, rt)
      | Ok slot \<Rightarrow>
          let service = sv_id sv slot in
          (case rt_terminate_current rt of
             (Err e, rt) \<Rightarrow> (Err (SvRuntime e), sv, rt)
           | (Ok t, rt) \<Rightarrow>
               if tt_task t \<noteq> current then (Err TaskMismatch, sv, rt)
               else
               let sv = sv[slot := (sv ! slot)\<lparr>ss_task := None, ss_state := SvExited\<rparr>] in
               (case arm_restart slot now sv of
                  (Err e, sv) \<Rightarrow> (Err e, sv, rt)
                | (Ok _, sv) \<Rightarrow>
                    (Ok \<lparr>sr_service = service, sr_task = tt_task t, sr_next = tt_next t\<rparr>, sv, rt)))))"

definition exit_current ::
  "service_supervisor \<Rightarrow> task_runtime \<Rightarrow>
     (service_retirement, service_error) result \<times> service_supervisor \<times> task_runtime" where
  "exit_current = exit_current_at 0"

definition fault_current_at ::
  "trap_disposition \<Rightarrow> u64 \<Rightarrow> service_supervisor \<Rightarrow> task_runtime \<Rightarrow>
     (service_fault, service_error) result \<times> service_supervisor \<times> task_runtime" where
  "fault_current_at disposition now sv rt =
     (case rt_current rt of
        None \<Rightarrow> (Err (SvRuntime RtNoCurrentTask), sv, rt)
      | Some current \<Rightarrow>
      (case running_task_slot sv current of
        Err e \<Rightarrow> (Err e, sv, rt)
      | Ok slot \<Rightarrow>
          let service = sv_id sv slot in
          (case rt_terminate_current_fault disposition rt of
             (Err e, rt) \<Rightarrow> (Err (SvRuntime e), sv, rt)
           | (Ok f, rt) \<Rightarrow>
               if fr_task f \<noteq> current then (Err TaskMismatch, sv, rt)
               else
               let sv = sv[slot := (sv ! slot)\<lparr>ss_task := None, ss_state := SvFaulted\<rparr>] in
               (case arm_restart slot now sv of
                  (Err e, sv) \<Rightarrow> (Err e, sv, rt)
                | (Ok _, sv) \<Rightarrow> (Ok \<lparr>sf_service = service, sf_retirement = f\<rparr>, sv, rt)))))"

definition fault_current ::
  "trap_disposition \<Rightarrow> service_supervisor \<Rightarrow> task_runtime \<Rightarrow>
     (service_fault, service_error) result \<times> service_supervisor \<times> task_runtime" where
  "fault_current disposition = fault_current_at disposition 0"

definition restart_at ::
  "service_id \<Rightarrow> capability_space \<Rightarrow> capability \<Rightarrow> nat \<Rightarrow> priority \<Rightarrow> user_context \<Rightarrow> u64 \<Rightarrow>
     service_supervisor \<Rightarrow> task_runtime \<Rightarrow>
     (service_id, service_error) result \<times> service_supervisor \<times> task_runtime" where
  "restart_at service management control caps priority fresh_context now sv rt =
     (case sv_slot sv service of
        Err e \<Rightarrow> (Err e, sv, rt)
      | Ok entry \<Rightarrow>
      if ss_state entry = SvRunning \<or> ss_task entry \<noteq> None then (Err StillRunning, sv, rt)
      else case cap_authorize management control CONTROL of
        Err e \<Rightarrow> (Err (SvUnauthorized e), sv, rt)
      | Ok authorized \<Rightarrow>
      if authorized \<noteq> ss_object entry then (Err (SvUnauthorized PermissionDenied), sv, rt)
      else if ss_completed_restarts entry \<ge> maximum_restarts (ss_restart_policy entry)
      then (Err RestartLimit, sv, rt)
      else if now < ss_next_restart_tick entry
      then (Err (RestartBackoff (ss_next_restart_tick entry)), sv, rt)
      else case checked_add (ss_generation entry) 1 of
        None \<Rightarrow> (Err GenerationExhausted, sv, rt)
      | Some generation \<Rightarrow>
      if generation = 0 then (Err GenerationExhausted, sv, rt)
      else case rt_create caps priority fresh_context rt of
        (Err e, rt) \<Rightarrow> (Err (SvRuntime e), sv, rt)
      | (Ok task, rt) \<Rightarrow>
          let slot = unat (si_slot service) in
          (Ok \<lparr>si_slot = of_nat slot, si_generation = generation\<rparr>,
           sv[slot := (sv ! slot)\<lparr>ss_generation := generation, ss_task := Some task, ss_state := SvRunning,
                ss_completed_restarts := ss_completed_restarts (sv ! slot) + 1\<rparr>], rt))"

definition restart ::
  "service_id \<Rightarrow> capability_space \<Rightarrow> capability \<Rightarrow> nat \<Rightarrow> priority \<Rightarrow> user_context \<Rightarrow>
     service_supervisor \<Rightarrow> task_runtime \<Rightarrow>
     (service_id, service_error) result \<times> service_supervisor \<times> task_runtime" where
  "restart service management control caps priority fresh_context =
     restart_at service management control caps priority fresh_context 0"

section \<open>How a slot evolves\<close>

datatype sv_op =
  SvRegister object_id task_id restart_policy | SvExit u64 | SvFault trap_disposition u64
| SvRestart service_id capability_space capability nat priority user_context u64
| SvRuntimeStep task_runtime

text \<open>Between supervisor operations the runtime may change in any way.\<close>

fun sv_exec :: "sv_op \<Rightarrow> service_supervisor \<times> task_runtime \<Rightarrow> service_supervisor \<times> task_runtime" where
  "sv_exec (SvRegister obj task policy) (sv, rt) = (snd (register_with_policy obj task policy sv), rt)"
| "sv_exec (SvExit now) (sv, rt) = snd (exit_current_at now sv rt)"
| "sv_exec (SvFault d now) (sv, rt) = snd (fault_current_at d now sv rt)"
| "sv_exec (SvRestart s m c n p ctx now) (sv, rt) = snd (restart_at s m c n p ctx now sv rt)"
| "sv_exec (SvRuntimeStep rt') (sv, rt) = (sv, rt')"

definition sv_run :: "sv_op list \<Rightarrow> service_supervisor \<times> task_runtime \<Rightarrow> service_supervisor \<times> task_runtime" where
  "sv_run ops s = fold sv_exec ops s"

text \<open>
  What no operation undoes: a slot once bound stays bound to its object and policy, and its
  generation advances exactly with its count of restarts, within the budget.
\<close>

definition advances :: "service_slot \<Rightarrow> service_slot \<Rightarrow> bool" where
  "advances e e' \<longleftrightarrow> (ss_occupied e \<longrightarrow> ss_occupied e' \<and> ss_object e' = ss_object e \<and>
     ss_restart_policy e' = ss_restart_policy e \<and> unat (ss_generation e) \<le> unat (ss_generation e') \<and>
     unat (ss_completed_restarts e') + unat (ss_generation e) = unat (ss_completed_restarts e) + unat (ss_generation e') \<and>
     (ss_completed_restarts e \<le> maximum_restarts (ss_restart_policy e) \<longrightarrow>
      ss_completed_restarts e' \<le> maximum_restarts (ss_restart_policy e)))"

definition sv_advances :: "service_supervisor \<Rightarrow> service_supervisor \<Rightarrow> bool" where
  "sv_advances sv sv' \<longleftrightarrow> length sv' = length sv \<and> (\<forall>i < length sv. advances (sv ! i) (sv' ! i))"

lemma advances_refl [simp]: "advances e e"
  by (simp add: advances_def)

lemma advances_trans: "advances a b \<Longrightarrow> advances b c \<Longrightarrow> advances a c"
  by (auto simp: advances_def)

lemma sv_advances_refl [simp]: "sv_advances sv sv"
  by (simp add: sv_advances_def)

lemma sv_advances_trans: "sv_advances a b \<Longrightarrow> sv_advances b c \<Longrightarrow> sv_advances a c"
  by (auto simp: sv_advances_def intro: advances_trans)

lemma sv_advances_update: "advances (sv ! i) e \<Longrightarrow> sv_advances sv (sv[i := e])"
  by (cases "i < length sv") (auto simp: sv_advances_def nth_list_update)

lemma advances_stop [simp]:
  "advances e (e\<lparr>ss_task := t, ss_state := st\<rparr>)" "advances e (e\<lparr>ss_next_restart_tick := n\<rparr>)"
  by (simp_all add: advances_def)

lemma arm_restart_advances: "sv_advances sv (snd (arm_restart slot now sv))"
  by (auto simp: arm_restart_def Let_def sv_advances_update split: option.splits)

lemma stop_advances:
  "sv_advances sv (snd (arm_restart slot now (sv[slot := (sv ! slot)\<lparr>ss_task := t, ss_state := st\<rparr>])))"
  by (rule sv_advances_trans [OF sv_advances_update arm_restart_advances]) simp

lemma exit_advances: "sv_advances sv (fst (snd (exit_current_at now sv rt)))"
  using stop_advances [where t = None and st = SvExited and now = now and sv = sv]
  by (auto simp: exit_current_at_def Let_def split: option.splits result.splits prod.splits) (metis snd_conv)+

lemma fault_advances: "sv_advances sv (fst (snd (fault_current_at d now sv rt)))"
  using stop_advances [where t = None and st = SvFaulted and now = now and sv = sv]
  by (auto simp: fault_current_at_def Let_def split: option.splits result.splits prod.splits) (metis snd_conv)+

lemma register_advances: "sv_advances sv (snd (register_with_policy obj task policy sv))"
  by (auto simp: register_with_policy_def Let_def advances_def sv_advances_update
      split: option.splits dest!: position_SomeD(2))

lemma sv_slot_iff:
  "sv_slot sv s = Ok e \<longleftrightarrow> unat (si_slot s) < length sv \<and> e = sv ! unat (si_slot s) \<and> ss_occupied e \<and>
     ss_generation e = si_generation s"
  by (auto simp: sv_slot_def Let_def)

text \<open>A successful restart, condition by condition.\<close>

lemma restart_okD:
  assumes "restart_at s m c n p ctx now sv rt = (Ok s', sv', rt')"
  obtains e task where "sv_slot sv s = Ok e" "ss_state e \<noteq> SvRunning" "ss_task e = None"
    "cap_authorize m c CONTROL = Ok (ss_object e)"
    "ss_completed_restarts e < maximum_restarts (ss_restart_policy e)" "ss_next_restart_tick e \<le> now"
    "unat (si_generation s') = Suc (unat (si_generation s))" "si_slot s' = si_slot s"
    "rt_create n p ctx rt = (Ok task, rt')"
    "sv' = sv[unat (si_slot s) := e\<lparr>ss_generation := si_generation s', ss_task := Some task, ss_state := SvRunning,
        ss_completed_restarts := ss_completed_restarts e + 1\<rparr>]"
proof -
  obtain e where e: "sv_slot sv s = Ok e" using assms by (auto simp: restart_at_def split: result.splits)
  have idle: "ss_state e \<noteq> SvRunning" "ss_task e = None" using assms by (auto simp: restart_at_def e split: if_splits)
  obtain b where b: "cap_authorize m c CONTROL = Ok b" using assms by (auto simp: restart_at_def e idle split: result.splits)
  have obj: "b = ss_object e" using assms by (auto simp: restart_at_def e idle b split: if_splits)
  have lim: "\<not> ss_completed_restarts e \<ge> maximum_restarts (ss_restart_policy e)"
    using assms by (auto simp: restart_at_def e idle b obj split: if_splits)
  have tick: "\<not> now < ss_next_restart_tick e" using assms by (auto simp: restart_at_def e idle b obj lim split: if_splits)
  obtain g where g: "checked_add (ss_generation e) 1 = Some g"
    using assms by (auto simp: restart_at_def e idle b obj lim tick split: option.splits)
  have nz: "g \<noteq> 0" using checked_add_1_SomeD [OF g] by auto
  obtain task where t: "rt_create n p ctx rt = (Ok task, rt')"
    using assms by (auto simp: restart_at_def e idle b obj lim tick g nz Let_def split: result.splits prod.splits)
  have e': "sv ! unat (si_slot s) = e" using e by (simp add: sv_slot_iff)
  have r: "s' = \<lparr>si_slot = si_slot s, si_generation = g\<rparr>"
    "sv' = sv[unat (si_slot s) := e\<lparr>ss_generation := g, ss_task := Some task, ss_state := SvRunning,
        ss_completed_restarts := ss_completed_restarts e + 1\<rparr>]"
    using assms e by (auto simp: restart_at_def e idle b obj lim tick g nz t Let_def e')
  have "ss_generation e = si_generation s" using e by (auto simp: sv_slot_iff)
  then show thesis
    using that [OF e idle b [unfolded obj]] lim tick t r checked_add_1_SomeD [OF g]
    by (simp add: not_le not_less)
qed

lemma restart_errD: "restart_at s m c n p ctx now sv rt = (Err x, sv', rt') \<Longrightarrow> sv' = sv"
  by (auto simp: restart_at_def Let_def split: if_splits result.splits option.splits prod.splits)

lemma restart_advances: "sv_advances sv (fst (snd (restart_at s m c n p ctx now sv rt)))"
proof (cases "restart_at s m c n p ctx now sv rt")
  case (fields r sv' rt')
  show ?thesis
  proof (cases r)
    case (Ok s')
    from restart_okD [OF fields [unfolded Ok]] obtain e task where
      r: "sv_slot sv s = Ok e" "ss_completed_restarts e < maximum_restarts (ss_restart_policy e)"
        "unat (si_generation s') = Suc (unat (si_generation s))"
        "sv' = sv[unat (si_slot s) := e\<lparr>ss_generation := si_generation s', ss_task := Some task, ss_state := SvRunning,
          ss_completed_restarts := ss_completed_restarts e + 1\<rparr>]" by metis
    have "unat (maximum_restarts (ss_restart_policy e)) < 2 ^ 32"
      using unsigned_less [of "maximum_restarts (ss_restart_policy e)"] by simp
    then have "unat (ss_completed_restarts e + 1) = Suc (unat (ss_completed_restarts e))"
      using r(2) by (simp add: unat_word_ariths word_less_nat_alt)
    moreover from this have "ss_completed_restarts e + 1 \<le> maximum_restarts (ss_restart_policy e)"
      using r(2) by (simp add: word_le_nat_alt word_less_nat_alt)
    ultimately have "advances e (e\<lparr>ss_generation := si_generation s', ss_task := Some task, ss_state := SvRunning,
        ss_completed_restarts := ss_completed_restarts e + 1\<rparr>)" using r(1,3) by (auto simp: advances_def sv_slot_iff)
    then show ?thesis using r(1,4) fields by (auto simp: sv_slot_iff intro!: sv_advances_update)
  next
    case (Err x)
    then show ?thesis using restart_errD fields by fastforce
  qed
qed

lemma sv_exec_advances: "sv_advances (fst st) (fst (sv_exec x st))"
  by (cases st; cases x)
    (simp_all add: register_advances exit_advances fault_advances restart_advances)

lemma sv_run_advances: "sv_advances (fst st) (fst (sv_run ops st))"
  unfolding sv_run_def
  by (induction ops arbitrary: st) (simp, metis fold_simps(2) sv_advances_trans sv_exec_advances)

section \<open>Backoff\<close>

lemma unat_policy_delay:
  "unat (policy_delay p k) = min (unat (base_backoff_ticks p) * 2 ^ min (unat k) 63) (unat (maximum_backoff_ticks p))"
proof -
  define j where "j = unat (min k 63)"
  have j: "j = min (unat k) 63" by (simp add: j_def min_def word_le_nat_alt)
  then have "j \<le> 63" by simp
  then have "(2 :: nat) ^ j \<le> 2 ^ 63" by (rule power_increasing) simp
  then have sh: "unat (push_bit j (1 :: u64)) = 2 ^ j" by (simp only: unsigned_push_bit_eq) (simp add: push_bit_eq_mult take_bit_eq_mod)
  have mn: "unat (min a b) = min (unat a) (unat b)" for a b :: u64 by (simp add: min_def word_le_nat_alt)
  have "unat (maximum_backoff_ticks p) < 2 ^ 64" using unsigned_less [of "maximum_backoff_ticks p"] by simp
  then show ?thesis unfolding policy_delay_def Let_def mn unat_saturating_mul j_def [symmetric] sh
    by (simp add: j min_def)
qed

text \<open>What a retirement that reports success leaves in the slot of the service.\<close>

lemma exit_okD:
  assumes "exit_current_at now sv rt = (Ok r, sv', rt')"
  obtains slot t where "rt_current rt = Some t" "slot < length sv" "ss_occupied (sv ! slot)" "ss_task (sv ! slot) = Some t"
    "sr_service r = sv_id sv slot" "rt_terminate_current rt = (Ok \<lparr>tt_task = t, tt_next = sr_next r\<rparr>, rt')"
    "arm_restart slot now (sv[slot := (sv ! slot)\<lparr>ss_task := None, ss_state := SvExited\<rparr>]) = (Ok (), sv')"
proof -
  obtain t where t: "rt_current rt = Some t" using assms by (auto simp: exit_current_at_def split: option.splits)
  obtain slot where slot: "running_task_slot sv t = Ok slot"
    using assms by (auto simp: exit_current_at_def t split: result.splits)
  then have p: "position (\<lambda>e. ss_occupied e \<and> ss_state e = SvRunning \<and> ss_task e = Some t) sv = Some slot"
    by (auto simp: running_task_slot_def ok_or_def split: option.splits)
  show thesis using that [OF t, of slot] position_SomeD [OF p] assms
    by (auto simp: exit_current_at_def t slot Let_def split: result.splits prod.splits if_splits)
qed

lemma arm_restart_okD:
  assumes "arm_restart slot now sv = (Ok (), sv')" and "slot < length sv"
    and "ss_completed_restarts (sv ! slot) < maximum_restarts (ss_restart_policy (sv ! slot))"
  shows "unat (ss_next_restart_tick (sv' ! slot)) =
     unat now + unat (policy_delay (ss_restart_policy (sv ! slot)) (ss_completed_restarts (sv ! slot)))"
  using assms by (auto simp: arm_restart_def Let_def not_le dest: checked_add_SomeD(2) split: option.splits if_splits)

lemma arm_restart_next: "\<exists>n. snd (arm_restart slot now sv) = sv[slot := (sv ! slot)\<lparr>ss_next_restart_tick := n\<rparr>]"
proof -
  have id: "sv = sv[slot := (sv ! slot)\<lparr>ss_next_restart_tick := ss_next_restart_tick (sv ! slot)\<rparr>]" by simp
  show ?thesis unfolding arm_restart_def Let_def
    by (cases "checked_add now (policy_delay (ss_restart_policy (sv ! slot)) (ss_completed_restarts (sv ! slot)))";
        simp; metis id)
qed

lemma arm_restart_kept:
  assumes "slot < length sv" and "arm_restart slot now sv = (r, sv')"
  shows "ss_completed_restarts (sv' ! slot) = ss_completed_restarts (sv ! slot)"
    and "ss_restart_policy (sv' ! slot) = ss_restart_policy (sv ! slot)"
  using assms arm_restart_next [of slot now sv] by auto

text \<open>
  Where the eligible time does not fit 64 bits, the retirement reports \<open>TimeExhausted\<close> after the
  task is gone and the service stopped, and leaves the earlier eligible time in place.
\<close>

lemma exit_overflow_keeps_eligible_time:
  assumes "exit_current_at now sv rt = (Err TimeExhausted, sv', rt')"
  shows "\<exists>slot < length sv. ss_state (sv' ! slot) = SvExited \<and> ss_task (sv' ! slot) = None \<and>
     ss_next_restart_tick (sv' ! slot) = ss_next_restart_tick (sv ! slot) \<and> rt' = snd (rt_terminate_current rt)"
proof -
  obtain t where t: "rt_current rt = Some t" using assms by (auto simp: exit_current_at_def split: option.splits)
  obtain slot where slot: "running_task_slot sv t = Ok slot"
    using assms by (auto simp: exit_current_at_def running_task_slot_def ok_or_def t split: result.splits option.splits)
  then have p: "position (\<lambda>e. ss_occupied e \<and> ss_state e = SvRunning \<and> ss_task e = Some t) sv = Some slot"
    by (auto simp: running_task_slot_def ok_or_def split: option.splits)
  show ?thesis using position_SomeD(1) [OF p] assms
    by (intro exI [of _ slot])
      (auto simp: exit_current_at_def t slot Let_def arm_restart_def split: result.splits prod.splits if_splits option.splits)
qed

section \<open>Properties\<close>

text \<open>
  Property C30.  A restart succeeds only for a stopped service, under CONTROL authority for exactly the
  service's object, within its budget and after its backoff; it binds a new task under the next
  generation of the same slot and touches no other slot, while a refused restart changes no
  slot at all.  From then on the old identity is refused whatever the supervisor and the runtime do
  later: service generations, unlike those of capabilities, never wrap.
\<close>

theorem service_restart_safe:
  "case restart_at s management control caps priority ctx now sv rt of
     (Err x, sv', rt') \<Rightarrow> sv' = sv
   | (Ok s', sv', rt') \<Rightarrow> \<exists>e task.
       sv_slot sv s = Ok e \<and> ss_state e \<noteq> SvRunning \<and> cap_authorize management control CONTROL = Ok (ss_object e) \<and>
       ss_completed_restarts e < maximum_restarts (ss_restart_policy e) \<and> ss_next_restart_tick e \<le> now \<and>
       rt_create caps priority ctx rt = (Ok task, rt') \<and> sv_state sv' s' = Ok SvRunning \<and> sv_task sv' s' = Ok (Some task) \<and>
       (\<forall>i. sv' ! i = sv ! i \<or> i = unat (si_slot s)) \<and>
       (\<forall>ops. sv_slot (fst (sv_run ops (sv', rt'))) s = Err InvalidService)"
proof (cases "restart_at s management control caps priority ctx now sv rt")
  case (fields r sv' rt')
  show ?thesis
  proof (cases r)
    case (Err x)
    then show ?thesis using fields restart_errD by fastforce
  next
    case (Ok s')
    from restart_okD [OF fields [unfolded Ok]] obtain e task where
      r: "sv_slot sv s = Ok e" "ss_state e \<noteq> SvRunning" "cap_authorize management control CONTROL = Ok (ss_object e)"
        "ss_completed_restarts e < maximum_restarts (ss_restart_policy e)" "ss_next_restart_tick e \<le> now"
        "unat (si_generation s') = Suc (unat (si_generation s))" "si_slot s' = si_slot s" "rt_create caps priority ctx rt = (Ok task, rt')"
        "sv' = sv[unat (si_slot s) := e\<lparr>ss_generation := si_generation s', ss_task := Some task, ss_state := SvRunning,
          ss_completed_restarts := ss_completed_restarts e + 1\<rparr>]" by metis
    let ?i = "unat (si_slot s)"
    have e: "?i < length sv" "e = sv ! ?i" "ss_occupied e" using r(1) by (auto simp: sv_slot_iff)
    have new: "sv_slot sv' s' = Ok (sv' ! ?i)" "ss_state (sv' ! ?i) = SvRunning" "ss_task (sv' ! ?i) = Some task"
      using e r(7,9) by (simp_all add: sv_slot_iff)
    have stale: "sv_slot (fst (sv_run ops (sv', rt'))) s = Err InvalidService" for ops
    proof -
      have "advances (sv' ! ?i) (fst (sv_run ops (sv', rt')) ! ?i)"
        using sv_run_advances [of "(sv', rt')" ops] e(1) r(9) by (auto simp: sv_advances_def)
      then have "Suc (unat (si_generation s)) \<le> unat (ss_generation (fst (sv_run ops (sv', rt')) ! ?i))"
        using e r(6,9) by (auto simp: advances_def)
      then show ?thesis by (auto simp: sv_slot_def Let_def)
    qed
    show ?thesis using fields Ok r(1-5,8) new stale
      by (auto simp: sv_state_def sv_task_def r(9))
  qed
qed

lemma register_okD:
  assumes "register_with_policy obj task policy sv = (Ok s, sv')" and "length sv \<le> 2 ^ 32"
  obtains i e where "i < length sv" "unat (si_slot s) = i" "sv' = sv[i := e]" "ss_occupied e" "ss_object e = obj"
    "ss_restart_policy e = policy" "ss_completed_restarts e = 0" "ss_generation e = si_generation s"
proof -
  obtain i where i: "position (\<lambda>e. \<not> ss_occupied e) sv = Some i"
    using assms(1) by (auto simp: register_with_policy_def split: if_splits option.splits)
  have "i < length sv" using position_SomeD(1) [OF i] .
  then have "unat (of_nat i :: u32) = i" using assms(2) by (simp add: unat_of_nat)
  then show thesis using assms(1) i \<open>i < length sv\<close>
    by (intro that [of i "sv' ! i"]) (auto simp: register_with_policy_def Let_def split: if_splits)
qed

text \<open>
  A service registered with a restart policy is restarted at most as often as the policy
  allows, and restart number \<open>k\<close> after an orderly exit at time \<open>now\<close> happens no earlier than
  \<open>now\<close> plus the base delay doubled \<open>k\<close> times (at most 63 doublings) and capped by the policy's
  largest delay, all without overflow, whatever happens between registration and exit.
\<close>

theorem service_restart_budget:
  assumes "length sv \<le> 2 ^ 32" and "register_with_policy obj task policy sv = (Ok s, sv0)"
    and "sv_run ops (sv0, rt0) = (sv1, rt1)" and "exit_current_at now sv1 rt1 = (Ok r, sv2, rt2)"
    and "si_slot (sr_service r) = si_slot s"
    and "restart_at (sr_service r) management control caps priority ctx t sv2 rt3 = (Ok s', sv3, rt4)"
  shows "\<exists>k. k < unat (maximum_restarts policy) \<and> unat (si_generation (sr_service r)) = unat (si_generation s) + k \<and>
     unat (si_generation s') = unat (si_generation s) + Suc k \<and>
     unat now + min (unat (base_backoff_ticks policy) * 2 ^ min k 63) (unat (maximum_backoff_ticks policy)) \<le> unat t"
proof -
  obtain i e where i: "i < length sv" "unat (si_slot s) = i" "sv0 = sv[i := e]" "ss_occupied e" "ss_restart_policy e = policy"
      "ss_completed_restarts e = 0" "ss_generation e = si_generation s" using register_okD [OF assms(2,1)] by metis
  have len: "length sv1 = length sv" and adv: "advances e (sv1 ! i)"
    using sv_run_advances [of "(sv0, rt0)" ops] assms(3) i(1,3) by (auto simp: sv_advances_def)
  from exit_okD [OF assms(4)] obtain slot where
    x: "slot < length sv1" "sr_service r = sv_id sv1 slot"
      "arm_restart slot now (sv1[slot := (sv1 ! slot)\<lparr>ss_task := None, ss_state := SvExited\<rparr>]) = (Ok (), sv2)" by metis
  have "unat (of_nat slot :: u32) = slot" using x(1) len assms(1) by (simp add: unat_of_nat)
  then have slot: "slot = i" using assms(5) i(2) x(2) by (simp add: sv_id_def)
  let ?k = "unat (ss_completed_restarts (sv1 ! i))"
  have gen: "unat (si_generation (sr_service r)) = unat (si_generation s) + ?k" "ss_restart_policy (sv1 ! i) = policy"
    using adv i(4-7) x(2) by (auto simp: advances_def slot sv_id_def)
  from restart_okD [OF assms(6)] obtain f where f: "sv_slot sv2 (sr_service r) = Ok f"
      "ss_completed_restarts f < maximum_restarts (ss_restart_policy f)" "ss_next_restart_tick f \<le> t"
      "unat (si_generation s') = Suc (unat (si_generation (sr_service r)))" by metis
  have f_eq: "f = sv2 ! i" using f(1) assms(5) i(2) by (auto simp: sv_slot_iff)
  have kept: "ss_completed_restarts f = ss_completed_restarts (sv1 ! i)" "ss_restart_policy f = policy"
    using arm_restart_kept [OF _ x(3)] x(1) gen(2) by (simp_all add: f_eq slot)
  have "unat (ss_next_restart_tick f) = unat now + unat (policy_delay policy (ss_completed_restarts (sv1 ! i)))"
    using arm_restart_okD [OF x(3)] x(1) f(2) kept gen(2) by (simp add: slot f_eq)
  then have "unat now + min (unat (base_backoff_ticks policy) * 2 ^ min ?k 63) (unat (maximum_backoff_ticks policy)) \<le> unat t"
    using f(3) by (simp add: unat_policy_delay word_le_nat_alt)
  then show ?thesis using f(2,4) kept gen(1) by (intro exI [of _ ?k]) (simp add: word_less_nat_alt)
qed

definition demo_policy :: restart_policy where
  "demo_policy = \<lparr>maximum_restarts = 2, base_backoff_ticks = 10, maximum_backoff_ticks = 15\<rparr>"

definition demo_management :: capability_space where
  "demo_management = snd (cap_insert 0x61 CONTROL (cap_new 1))"

theorem service_restart_budget_witness:
  "\<exists>s sv0 r sv2 rt2 s' sv3 rt4. register_with_policy 0x61 task0 demo_policy (sv_new 1) = (Ok s, sv0) \<and>
     exit_current_at 100 sv0 demo_runtime = (Ok r, sv2, rt2) \<and>
     restart_at (sr_service r) demo_management demo_cap 0 NORMAL demo_context 110 sv2 rt2 = (Ok s', sv3, rt4) \<and>
     unat (si_generation s') = unat (si_generation s) + 1"
proof -
  let ?reg = "register_with_policy 0x61 task0 demo_policy (sv_new 1)"
  let ?ex = "exit_current_at 100 (snd ?reg) demo_runtime"
  have "case fst ?reg of Err _ \<Rightarrow> False | Ok s \<Rightarrow> (case ?ex of (Err _, _) \<Rightarrow> False | (Ok r, sv2, rt2) \<Rightarrow>
      si_slot (sr_service r) = si_slot s \<and> si_generation (sr_service r) = si_generation s \<and>
      (case fst (restart_at (sr_service r) demo_management demo_cap 0 NORMAL demo_context 110 sv2 rt2) of
         Err _ \<Rightarrow> False | Ok _ \<Rightarrow> True))" by code_simp
  moreover obtain x sv0 where reg: "?reg = (x, sv0)" by fastforce
  moreover obtain y sv2 rt2 where ex: "exit_current_at 100 sv0 demo_runtime = (y, sv2, rt2)" by (metis prod_cases3)
  ultimately obtain s r where sr: "x = Ok s" "y = Ok r" "si_slot (sr_service r) = si_slot s"
      "si_generation (sr_service r) = si_generation s"
      "case fst (restart_at (sr_service r) demo_management demo_cap 0 NORMAL demo_context 110 sv2 rt2) of
         Err _ \<Rightarrow> False | Ok _ \<Rightarrow> True"
    by (cases x; cases y) simp_all
  moreover obtain z sv3 rt4 where
    "restart_at (sr_service r) demo_management demo_cap 0 NORMAL demo_context 110 sv2 rt2 = (z, sv3, rt4)" by (metis prod_cases3)
  ultimately obtain s' where w: "?reg = (Ok s, sv0)" "exit_current_at 100 sv0 demo_runtime = (Ok r, sv2, rt2)"
      "si_slot (sr_service r) = si_slot s" "si_generation (sr_service r) = si_generation s"
      "restart_at (sr_service r) demo_management demo_cap 0 NORMAL demo_context 110 sv2 rt2 = (Ok s', sv3, rt4)"
    using reg ex by (cases z) simp_all
  have run: "sv_run [] (sv0, demo_runtime) = (sv0, demo_runtime)" by (simp add: sv_run_def)
  have "length (sv_new 1) \<le> 2 ^ 32" by (simp add: sv_new_def)
  from service_restart_budget [OF this w(1) run w(2,3,5)] w show ?thesis by (auto simp: w(4)) 
qed

end
