(* ===== verification/Directory_Grant.thy ===== *)
theory Directory_Grant
  imports Kernel_Prelude
begin

text \<open>
  Host directory grants, after \<open>crates/mrml-kernel/src/grant.rs\<close>.  A path is the byte string of a
  UTF-8 text; the separators are ASCII bytes, which occur in UTF-8 only as themselves, so that
  splitting the bytes is splitting the text.
\<close>

section \<open>Definitions\<close>

definition MAX_HOST_PATH :: nat where "MAX_HOST_PATH = 512"

datatype grant_mode = ReadOnly | ReadWrite

datatype grant_error = GrantEmpty | GrantTooLong | NotAbsolute | InvalidCharacter | Traversal

record directory_grant =
  dg_path :: bytes
  dg_length :: u16
  dg_mode :: grant_mode

definition is_ascii_alphabetic :: "u8 \<Rightarrow> bool" where
  "is_ascii_alphabetic b \<longleftrightarrow> 0x41 \<le> b \<and> b \<le> 0x5A \<or> 0x61 \<le> b \<and> b \<le> 0x7A"

definition is_separator :: "u8 \<Rightarrow> bool" where
  "is_separator b \<longleftrightarrow> b = 0x2F \<or> b = 0x5C"

text \<open>\<open>str::split\<close>: the pieces between separators, at least one.\<close>

fun split_path :: "bytes \<Rightarrow> bytes list" where
  "split_path [] = [[]]"
| "split_path (b # bs) =
     (if is_separator b then [] # split_path bs
      else case split_path bs of [] \<Rightarrow> [[b]] | c # cs \<Rightarrow> (b # c) # cs)"

definition windows_absolute :: "bytes \<Rightarrow> bool" where
  "windows_absolute bs \<longleftrightarrow> length bs \<ge> 3 \<and> is_ascii_alphabetic (bs ! 0) \<and> bs ! 1 = 0x3A \<and> is_separator (bs ! 2)"

definition grant_new :: "bytes \<Rightarrow> grant_mode \<Rightarrow> (directory_grant, grant_error) result" where
  "grant_new bs mode =
     (if bs = [] then Err GrantEmpty
      else if length bs > MAX_HOST_PATH then Err GrantTooLong
      else if bs ! 0 \<noteq> 0x2F \<and> \<not> windows_absolute bs then Err NotAbsolute
      else if list_ex (\<lambda>b. b = 0 \<or> b < 0x20) bs then Err InvalidCharacter
      else if list_ex (\<lambda>c. c = [0x2E, 0x2E]) (split_path bs) then Err Traversal
      else Ok \<lparr>dg_path = bs @ replicate (MAX_HOST_PATH - length bs) 0, dg_length = of_nat (length bs),
               dg_mode = mode\<rparr>)"

definition grant_path :: "directory_grant \<Rightarrow> bytes" where
  "grant_path g = take (unat (dg_length g)) (dg_path g)"

section \<open>Components\<close>

text \<open>
  A component of a path: a separator-free stretch bounded by separators or the ends.
\<close>

definition path_component :: "bytes \<Rightarrow> bytes \<Rightarrow> bool" where
  "path_component c bs \<longleftrightarrow> (\<exists>pre post. bs = pre @ c @ post \<and> (\<forall>b \<in> set c. \<not> is_separator b) \<and>
     (pre = [] \<or> is_separator (last pre)) \<and> (post = [] \<or> is_separator (hd post)))"

lemma split_path_free: "\<forall>b \<in> set c. \<not> is_separator b \<Longrightarrow> split_path c = [c]"
  by (induction c) auto

lemma split_path_step:
  "\<forall>b \<in> set c. \<not> is_separator b \<Longrightarrow> is_separator s \<Longrightarrow> split_path (c @ s # rest) = c # split_path rest"
  by (induction c) auto

lemma first_component:
  assumes "\<forall>b \<in> set c. \<not> is_separator b" and "post = [] \<or> is_separator (hd post)"
  shows "takeWhile (\<lambda>b. \<not> is_separator b) (c @ post) = c"
  using assms by (cases post) (auto simp: takeWhile_eq_all_conv)

lemma component_free: "\<forall>b \<in> set bs. \<not> is_separator b \<Longrightarrow> path_component c bs \<longleftrightarrow> c = bs"
proof -
  assume free: "\<forall>b \<in> set bs. \<not> is_separator b"
  have "c = bs" if comp: "path_component c bs"
  proof -
    obtain pre post where p: "bs = pre @ c @ post" "pre = [] \<or> is_separator (last pre)" "post = [] \<or> is_separator (hd post)"
      using comp by (auto simp: path_component_def)
    then have "pre = []" "post = []" using free by (metis Un_iff last_in_set hd_in_set set_append)+
    then show ?thesis using p(1) by simp
  qed
  moreover have "path_component bs bs" using free unfolding path_component_def by (intro exI [of _ "[]"]) simp
  ultimately show ?thesis by blast
qed

text \<open>The components after the first separator are the components of the rest.\<close>

lemma component_step:
  assumes "\<forall>b \<in> set w. \<not> is_separator b" and "is_separator s"
  shows "path_component c (w @ s # rest) \<longleftrightarrow> c = w \<or> path_component c rest"
proof
  assume "path_component c (w @ s # rest)"
  then obtain pre post where p: "w @ s # rest = pre @ c @ post" "\<forall>b \<in> set c. \<not> is_separator b"
      "pre = [] \<or> is_separator (last pre)" "post = [] \<or> is_separator (hd post)" by (auto simp: path_component_def)
  show "c = w \<or> path_component c rest"
  proof (cases "pre = []")
    case True
    then show ?thesis using first_component [OF assms(1), of "s # rest"] first_component [OF p(2,4)] assms(2) p(1) by simp
  next
    case False
    then have sep: "is_separator (last pre)" using p(3) by simp
    from append_eq_append_conv2 [THEN iffD1, OF p(1)]
    consider us where "w = pre @ us" | us where "w @ us = pre" "s # rest = us @ c @ post" by blast
    then show ?thesis
    proof cases
      case 1
      then show ?thesis using False sep assms(1) by (metis Un_iff last_in_set set_append)
    next
      case (2 us)
      then obtain vs where vs: "us = s # vs" using False sep assms(1) by (cases us) auto
      then have "rest = vs @ c @ post" "vs = [] \<or> is_separator (last vs)" using 2 sep by (auto split: if_splits)
      then show ?thesis using p(2,4) unfolding path_component_def by blast
    qed
  qed
next
  assume "c = w \<or> path_component c rest"
  then show "path_component c (w @ s # rest)"
  proof
    assume "c = w"
    then show ?thesis using assms unfolding path_component_def by (intro exI [of _ "[]"] exI [of _ "s # rest"]) simp
  next
    assume "path_component c rest"
    then obtain pre post where p: "rest = pre @ c @ post" "\<forall>b \<in> set c. \<not> is_separator b"
      "pre = [] \<or> is_separator (last pre)" "post = [] \<or> is_separator (hd post)" by (auto simp: path_component_def)
    then show ?thesis using assms(2) unfolding path_component_def
      by (intro exI [of _ "w @ s # pre"] exI [of _ post]) auto
  qed
qed

lemma split_path_components: "c \<in> set (split_path bs) \<longleftrightarrow> path_component c bs"
proof (induction "length bs" arbitrary: bs rule: less_induct)
  case less
  define w where "w = takeWhile (\<lambda>b. \<not> is_separator b) bs"
  have w: "\<forall>b \<in> set w. \<not> is_separator b" unfolding w_def by (auto dest: set_takeWhileD)
  show ?case
  proof (cases "dropWhile (\<lambda>b. \<not> is_separator b) bs")
    case Nil
    then have "bs = w" unfolding w_def by (metis append_Nil2 takeWhile_dropWhile_id)
    then show ?thesis using split_path_free [OF w] component_free [OF w] by simp
  next
    case (Cons s rest)
    then have bs: "bs = w @ s # rest" unfolding w_def by (metis takeWhile_dropWhile_id)
    have s: "is_separator s" using Cons hd_dropWhile [of "\<lambda>b. \<not> is_separator b" bs] by simp
    show ?thesis unfolding bs split_path_step [OF w s] component_step [OF w s] using less [of rest] by (simp add: bs)
  qed
qed

section \<open>Properties\<close>

text \<open>
  A directory grant is issued exactly for the nonempty paths of at most 512 bytes that
  are absolute in the Unix or the Windows form, contain no control character and have no
  component equal to two dots, a component being a maximal stretch between slashes of either
  kind; the grant then names exactly that path, with the mode asked for.
\<close>

theorem grant_new_iff:
  "((\<exists>g. grant_new bs mode = Ok g) \<longleftrightarrow>
     0 < length bs \<and> length bs \<le> 512 \<and> (hd bs = 0x2F \<or> windows_absolute bs) \<and> list_all (\<lambda>b. 0x20 \<le> b) bs \<and>
     \<not> path_component [0x2E, 0x2E] bs) \<and>
   (case grant_new bs mode of
      Ok g \<Rightarrow> grant_path g = bs \<and> dg_mode g = mode \<and> length (dg_path g) = 512
    | Err e \<Rightarrow> e = GrantEmpty \<longleftrightarrow> bs = [])"
proof -
  have ctl: "list_ex (\<lambda>b. b = 0 \<or> b < 0x20) bs \<longleftrightarrow> \<not> list_all (\<lambda>b. 0x20 \<le> b) bs"
    by (induction bs) (auto simp: not_le)
  have dots: "list_ex (\<lambda>c. c = [0x2E, 0x2E]) (split_path bs) \<longleftrightarrow> path_component [0x2E, 0x2E] bs"
    by (auto simp: list_ex_iff simp flip: split_path_components)
  have "unat (of_nat (length bs) :: u16) = length bs" if "length bs \<le> 512"
    using that by (simp add: unat_of_nat)
  then show ?thesis unfolding grant_new_def ctl dots
    by (auto simp: MAX_HOST_PATH_def grant_path_def hd_conv_nth)
qed

end
