(* ===== verification/Vm_Table.thy ===== *)
theory Vm_Table
  imports Memory Capability
begin

text \<open>
  The lifecycle table of virtual machines, after \<open>VmTable\<close> in \<open>crates/mrml-kernel/src/vm.rs\<close>:
  generational handles, the five states of a machine and its budget of exits.
\<close>

section \<open>Definitions\<close>

datatype vm_error =
  EmptyRegion | VmUnaligned | VmOverflow | RegionTableFull | GuestOverlap | HostAlias | WritableExecutable
| Unmapped | VmPermissionDenied | MalformedHypercall | UnsupportedHypercall | VmReplay | VmSequenceExhausted
| VmCapability capability_error | WrongObject | VmTableFull | StaleVm | InvalidVmState | ExitBudgetExceeded
| InvalidIo | IoDenied | IoPolicyFull | UnhandledExit | InterruptDenied | StaleMapping

datatype vm_id = VmId (vm_token: u64)

definition vm_id_new :: "u32 \<Rightarrow> u32 \<Rightarrow> vm_id" where
  "vm_id_new index generation = VmId (handle_token generation index)"

definition vm_index :: "vm_id \<Rightarrow> nat" where
  "vm_index i = unat (ucast (vm_token i) :: u32)"

definition vm_generation :: "vm_id \<Rightarrow> u32" where
  "vm_generation i = ucast (drop_bit 32 (vm_token i))"

datatype vm_state = Created | Loaded | Running | Stopped | Failed

record vm_slot =
  vs_generation :: u32
  vs_state :: vm_state
  vs_exits :: u64
  vs_exit_budget :: u64

record vm_table =
  vt_slots :: "vm_slot option list"
  vt_generations :: "u32 list"

definition vt_new :: "nat \<Rightarrow> vm_table" where
  "vt_new n = \<lparr>vt_slots = replicate n None, vt_generations = replicate n 0\<rparr>"

definition vt_create :: "u64 \<Rightarrow> vm_table \<Rightarrow> (vm_id, vm_error) result \<times> vm_table" where
  "vt_create exit_budget t =
     (if exit_budget = 0 then (Err ExitBudgetExceeded, t)
      else case position (\<lambda>s. s = None) (vt_slots t) of
        None \<Rightarrow> (Err VmTableFull, t)
      | Some index \<Rightarrow>
          (case checked_add (vt_generations t ! index) 1 of
             None \<Rightarrow> (Err VmSequenceExhausted, t)
           | Some generation \<Rightarrow>
               (Ok (vm_id_new (of_nat index) generation),
                t\<lparr>vt_generations := (vt_generations t)[index := generation],
                  vt_slots := (vt_slots t)[index := Some \<lparr>vs_generation = generation, vs_state = Created,
                     vs_exits = 0, vs_exit_budget = exit_budget\<rparr>]\<rparr>)))"

definition vt_slot :: "vm_table \<Rightarrow> vm_id \<Rightarrow> (vm_slot, vm_error) result" where
  "vt_slot t i =
     (if vm_index i < length (vt_slots t) then
        (case vt_slots t ! vm_index i of
           None \<Rightarrow> Err StaleVm
         | Some s \<Rightarrow> if vs_generation s = vm_generation i then Ok s else Err StaleVm)
      else Err StaleVm)"

text \<open>\<open>slot_mut\<close>: what the caller of the borrowed slot does to it, with its own result.\<close>

definition vt_slot_mut ::
  "vm_id \<Rightarrow> (vm_slot \<Rightarrow> ('a, vm_error) result \<times> vm_slot) \<Rightarrow> vm_table \<Rightarrow> ('a, vm_error) result \<times> vm_table" where
  "vt_slot_mut i f t =
     (case vt_slot t i of
        Err e \<Rightarrow> (Err e, t)
      | Ok s \<Rightarrow> let (r, s') = f s in (r, t\<lparr>vt_slots := (vt_slots t)[vm_index i := Some s']\<rparr>))"

definition vt_state :: "vm_table \<Rightarrow> vm_id \<Rightarrow> (vm_state, vm_error) result" where
  "vt_state t i = (case vt_slot t i of Ok s \<Rightarrow> Ok (vs_state s) | Err e \<Rightarrow> Err e)"

definition vt_transition :: "vm_id \<Rightarrow> vm_state \<Rightarrow> vm_state \<Rightarrow> vm_table \<Rightarrow> (unit, vm_error) result \<times> vm_table" where
  "vt_transition i from to =
     vt_slot_mut i (\<lambda>s. if vs_state s \<noteq> from then (Err InvalidVmState, s) else (Ok (), s\<lparr>vs_state := to\<rparr>))"

definition vt_mark_loaded :: "vm_id \<Rightarrow> vm_table \<Rightarrow> (unit, vm_error) result \<times> vm_table" where
  "vt_mark_loaded i = vt_transition i Created Loaded"

definition vt_start :: "vm_id \<Rightarrow> vm_table \<Rightarrow> (unit, vm_error) result \<times> vm_table" where
  "vt_start i = vt_slot_mut i (\<lambda>s.
     if \<not> (vs_state s = Loaded \<or> vs_state s = Stopped) then (Err InvalidVmState, s)
     else (Ok (), s\<lparr>vs_exits := 0, vs_state := Running\<rparr>))"

definition vt_account_exit :: "vm_id \<Rightarrow> vm_table \<Rightarrow> (u64, vm_error) result \<times> vm_table" where
  "vt_account_exit i = vt_slot_mut i (\<lambda>s.
     if vs_state s \<noteq> Running then (Err InvalidVmState, s)
     else case checked_add (vs_exits s) 1 of
       None \<Rightarrow> (Err ExitBudgetExceeded, s)
     | Some exits \<Rightarrow>
         let s = s\<lparr>vs_exits := exits\<rparr> in
         if exits > vs_exit_budget s then (Err ExitBudgetExceeded, s\<lparr>vs_state := Failed\<rparr>)
         else (Ok (vs_exit_budget s - exits), s))"

definition vt_stop :: "vm_id \<Rightarrow> vm_table \<Rightarrow> (unit, vm_error) result \<times> vm_table" where
  "vt_stop i = vt_transition i Running Stopped"

definition vt_fail :: "vm_id \<Rightarrow> vm_table \<Rightarrow> (unit, vm_error) result \<times> vm_table" where
  "vt_fail i = vt_slot_mut i (\<lambda>s. (Ok (), s\<lparr>vs_state := Failed\<rparr>))"

definition vt_destroy :: "vm_id \<Rightarrow> vm_table \<Rightarrow> (unit, vm_error) result \<times> vm_table" where
  "vt_destroy i t =
     (case vt_slot t i of
        Err e \<Rightarrow> (Err e, t)
      | Ok _ \<Rightarrow> (Ok (), t\<lparr>vt_slots := (vt_slots t)[vm_index i := None]\<rparr>))"

section \<open>The table as a map of live machines\<close>

definition vt_view :: "vm_table \<Rightarrow> vm_id \<Rightarrow> (vm_state \<times> u64 \<times> u64) option" where
  "vt_view t i = (case vt_slot t i of Ok s \<Rightarrow> Some (vs_state s, vs_exits s, vs_exit_budget s) | Err _ \<Rightarrow> None)"

text \<open>
  The generation counter of a slot is the generation of the machine in it, and never behind; the
  exits of a machine that has not failed are within its budget.
\<close>

definition slot_ok :: "u32 \<Rightarrow> vm_slot option \<Rightarrow> bool" where
  "slot_ok g s \<longleftrightarrow> (\<forall>v. s = Some v \<longrightarrow> vs_generation v = g \<and> g \<noteq> 0 \<and>
     (vs_state v \<noteq> Failed \<longrightarrow> vs_exits v \<le> vs_exit_budget v))"

definition vt_inv :: "vm_table \<Rightarrow> bool" where
  "vt_inv t \<longleftrightarrow> length (vt_generations t) = length (vt_slots t) \<and> length (vt_slots t) \<le> 2 ^ 32 \<and>
     (\<forall>k < length (vt_slots t). slot_ok (vt_generations t ! k) (vt_slots t ! k))"

text \<open>A handle is spent when its slot's counter has reached its generation and the machine is gone.\<close>

definition vt_spent :: "vm_table \<Rightarrow> vm_id \<Rightarrow> bool" where
  "vt_spent t i \<longleftrightarrow> vm_index i < length (vt_slots t) \<and> vm_generation i \<le> vt_generations t ! vm_index i \<and>
     vt_slot t i = Err StaleVm"

lemma vm_id_parts [simp]:
  "vm_index (vm_id_new k g) = unat k" "vm_generation (vm_id_new k g) = g"
  by (simp_all add: vm_id_new_def vm_index_def vm_generation_def)

lemma vm_id_eqI: "vm_index i = vm_index j \<Longrightarrow> vm_generation i = vm_generation j \<Longrightarrow> i = j"
proof (cases i; cases j)
  fix a b assume ij: "i = VmId a" "j = VmId b" "vm_index i = vm_index j" "vm_generation i = vm_generation j"
  then have "(ucast a :: u32) = ucast b" "(ucast (drop_bit 32 a) :: u32) = ucast (drop_bit 32 b)"
    by (simp_all add: vm_index_def vm_generation_def flip: word_unat_eq_iff)
  then show "i = j" using handle_token_split [of a] handle_token_split [of b] ij(1,2) by metis
qed

lemma vt_slot_iff:
  "vt_slot t i = Ok s \<longleftrightarrow> vm_index i < length (vt_slots t) \<and> vt_slots t ! vm_index i = Some s \<and>
     vs_generation s = vm_generation i"
  "vt_slot t i = Err e \<longleftrightarrow> e = StaleVm \<and> (\<forall>s. vt_slot t i \<noteq> Ok s)"
  by (auto simp: vt_slot_def split: option.splits)

abbreviation vm_content :: "vm_slot \<Rightarrow> vm_state \<times> u64 \<times> u64" where
  "vm_content s \<equiv> (vs_state s, vs_exits s, vs_exit_budget s)"

lemma vt_view_slot:
  "vt_slot t i = Ok s \<Longrightarrow> vt_view t i = Some (vm_content s)" "vt_slot t i = Err e \<Longrightarrow> vt_view t i = None"
  by (simp_all add: vt_view_def)

lemma vt_view_None: "vt_view t i = None \<longleftrightarrow> vt_slot t i = Err StaleVm"
  by (auto simp: vt_view_def vt_slot_def split: option.splits)

text \<open>Replacing the machine of a slot by another of the same generation, or by none.\<close>

lemma vt_view_update:
  assumes "vt_slot t i = Ok s" and "\<And>v. x = Some v \<Longrightarrow> vs_generation v = vm_generation i"
  shows "vt_view (t\<lparr>vt_slots := (vt_slots t)[vm_index i := x]\<rparr>) = (vt_view t)(i := map_option vm_content x)"
proof
  fix j
  have k: "vm_index i < length (vt_slots t)" "vt_slots t ! vm_index i = Some s" "vs_generation s = vm_generation i"
    using assms(1) by (auto simp: vt_slot_iff)
  show "vt_view (t\<lparr>vt_slots := (vt_slots t)[vm_index i := x]\<rparr>) j = ((vt_view t)(i := map_option vm_content x)) j"
  proof (cases "vm_index j = vm_index i")
    case True
    then show ?thesis using k assms(2) vm_id_eqI [of j i]
      by (cases x) (auto simp: vt_view_def vt_slot_def split: option.splits)
  next
    case False
    then show ?thesis by (auto simp: vt_view_def vt_slot_def)
  qed
qed

lemma vt_inv_update:
  assumes "vt_inv t" and "\<And>v. x = Some v \<Longrightarrow> slot_ok (vt_generations t ! k) (Some v)"
  shows "vt_inv (t\<lparr>vt_slots := (vt_slots t)[k := x]\<rparr>)"
proof -
  have "slot_ok (vt_generations t ! k) x" using assms(2) by (cases x) (auto simp: slot_ok_def)
  then show ?thesis using assms(1) by (auto simp: vt_inv_def nth_update_if)
qed

lemma vt_inv_slot:
  assumes "vt_inv t" and "vt_slot t i = Ok s"
  shows "vt_generations t ! vm_index i = vm_generation i" "vm_generation i \<noteq> 0"
    and "vs_state s \<noteq> Failed \<Longrightarrow> vs_exits s \<le> vs_exit_budget s"
  using assms by (auto simp: vt_inv_def slot_ok_def vt_slot_iff)

text \<open>The laws of \<open>slot_mut\<close>, for callers that leave the generation alone and keep the budget.\<close>

definition vm_edit :: "(vm_slot \<Rightarrow> ('a, vm_error) result \<times> vm_slot) \<Rightarrow> bool" where
  "vm_edit f \<longleftrightarrow> (\<forall>s. vs_generation (snd (f s)) = vs_generation s \<and> vs_exit_budget (snd (f s)) = vs_exit_budget s \<and>
     (vs_state s \<noteq> Failed \<and> vs_exits s \<le> vs_exit_budget s \<longrightarrow>
      vs_state (snd (f s)) = Failed \<or> vs_exits (snd (f s)) \<le> vs_exit_budget s) \<and>
     (vs_state s = Failed \<longrightarrow> vs_state (snd (f s)) = Failed))"

lemma vt_slot_mut_eq:
  "vt_slot_mut i f t = (case vt_slot t i of Err e \<Rightarrow> (Err e, t)
     | Ok s \<Rightarrow> (fst (f s), t\<lparr>vt_slots := (vt_slots t)[vm_index i := Some (snd (f s))]\<rparr>))"
  by (simp add: vt_slot_mut_def split_beta split: result.splits)

lemma vt_slot_mut_laws:
  assumes "vt_inv t" and "vm_edit f"
  shows "vt_inv (snd (vt_slot_mut i f t))"
    and "vt_view (snd (vt_slot_mut i f t)) =
      (case vt_slot t i of Err e \<Rightarrow> vt_view t | Ok s \<Rightarrow> (vt_view t)(i \<mapsto> vm_content (snd (f s))))"
    and "vt_generations (snd (vt_slot_mut i f t)) = vt_generations t"
    and "length (vt_slots (snd (vt_slot_mut i f t))) = length (vt_slots t)"
proof -
  show "vt_generations (snd (vt_slot_mut i f t)) = vt_generations t"
    "length (vt_slots (snd (vt_slot_mut i f t))) = length (vt_slots t)"
    by (simp_all add: vt_slot_mut_eq split: result.splits)
  have gen: "vs_generation (snd (f s)) = vm_generation i" if "vt_slot t i = Ok s" for s
    using assms(2) that by (simp add: vm_edit_def vt_slot_iff)
  show "vt_view (snd (vt_slot_mut i f t)) =
      (case vt_slot t i of Err e \<Rightarrow> vt_view t | Ok s \<Rightarrow> (vt_view t)(i \<mapsto> vm_content (snd (f s))))"
    using vt_view_update [where x = "Some (snd (f s))" for s] gen
    by (cases "vt_slot t i") (simp_all add: vt_slot_mut_eq)
  show "vt_inv (snd (vt_slot_mut i f t))"
  proof (cases "vt_slot t i")
    case (Ok s)
    have "slot_ok (vt_generations t ! vm_index i) (Some (snd (f s)))"
      using assms(2) vt_inv_slot [OF assms(1) Ok] gen [OF Ok] unfolding vm_edit_def slot_ok_def by (metis option.inject)
    then show ?thesis using vt_inv_update [OF assms(1), where x = "Some (snd (f s))" and k = "vm_index i"] Ok by (simp add: vt_slot_mut_eq)
  qed (simp add: vt_slot_mut_eq assms(1))
qed

lemma vt_create_errD: "vt_create b t = (Err e, t') \<Longrightarrow> t' = t"
  by (auto simp: vt_create_def split: if_splits option.splits)

lemma vt_createE:
  assumes "vt_inv t" and "vt_create b t = (Ok i, t')"
  obtains k g where "k < length (vt_slots t)" "vt_slots t ! k = None" "unat g = Suc (unat (vt_generations t ! k))"
    "vm_index i = k" "vm_generation i = g" "t' = t\<lparr>vt_generations := (vt_generations t)[k := g],
       vt_slots := (vt_slots t)[k := Some \<lparr>vs_generation = g, vs_state = Created, vs_exits = 0, vs_exit_budget = b\<rparr>]\<rparr>"
proof -
  obtain k where k: "position (\<lambda>s. s = None) (vt_slots t) = Some k"
    using assms(2) by (auto simp: vt_create_def split: if_splits option.splits)
  obtain g where g: "checked_add (vt_generations t ! k) 1 = Some g"
    using assms(2) by (auto simp: vt_create_def k split: if_splits option.splits)
  note p = position_SomeD [OF k]
  have "unat (of_nat k :: u32) = k" using p(1) assms(1) by (simp add: vt_inv_def unat_of_nat)
  then show thesis using that [of k g] p checked_add_1_SomeD [OF g] assms(2)
    by (auto simp: vt_create_def k g split: if_splits)
qed

lemma vt_create_okD:
  assumes "vt_inv t" and "vt_create b t = (Ok i, t')"
  shows "vt_inv t'" "vt_view t i = None" "vt_view t' = (vt_view t)(i \<mapsto> (Created, 0, b))"
proof -
  from assms obtain k g where c: "k < length (vt_slots t)" "vt_slots t ! k = None" "unat g = Suc (unat (vt_generations t ! k))"
    "vm_index i = k" "vm_generation i = g" and t': "t' = t\<lparr>vt_generations := (vt_generations t)[k := g],
       vt_slots := (vt_slots t)[k := Some \<lparr>vs_generation = g, vs_state = Created, vs_exits = 0, vs_exit_budget = b\<rparr>]\<rparr>"
    by (rule vt_createE)
  have "g \<noteq> 0" using c(3) by auto
  then have "slot_ok g (Some \<lparr>vs_generation = g, vs_state = Created, vs_exits = 0, vs_exit_budget = b\<rparr>)"
    by (simp add: slot_ok_def)
  then show "vt_inv t'" using assms(1) by (simp add: t' vt_inv_def nth_update_if)
  show "vt_view t i = None" using c by (simp add: vt_view_def vt_slot_def)
  show "vt_view t' = (vt_view t)(i \<mapsto> (Created, 0, b))"
  proof
    fix h
    show "vt_view t' h = ((vt_view t)(i \<mapsto> (Created, 0, b))) h"
    proof (cases "vm_index h = k")
      case True
      have "h = i \<longleftrightarrow> vm_generation h = g" using vm_id_eqI [of h i] True c(4,5) by auto
      then show ?thesis using True c(1,2) by (simp add: t' vt_view_def vt_slot_def)
    next
      case False
      then show ?thesis using c(4) by (auto simp: t' vt_view_def vt_slot_def)
    qed
  qed
qed

lemma vt_destroy_okD:
  assumes "vt_inv t" and "vt_destroy i t = (Ok u, t')"
  shows "vt_inv t'" "vt_view t i \<noteq> None" "vt_view t' = (vt_view t)(i := None)" "vt_spent t' i"
proof -
  obtain s where s: "vt_slot t i = Ok s" and t': "t' = t\<lparr>vt_slots := (vt_slots t)[vm_index i := None]\<rparr>"
    using assms(2) by (auto simp: vt_destroy_def split: result.splits)
  show "vt_inv t'" using vt_inv_update [OF assms(1), where x = None] by (simp add: t')
  show "vt_view t i \<noteq> None" using s by (simp add: vt_view_def)
  show "vt_view t' = (vt_view t)(i := None)" using vt_view_update [OF s, where x = None] by (simp add: t')
  then have "vt_slot t' i = Err StaleVm" by (metis fun_upd_same vt_view_None)
  then show "vt_spent t' i" using vt_inv_slot(1) [OF assms(1) s] s by (auto simp: vt_spent_def t' vt_slot_iff)
qed

lemma vt_destroy_errD: "vt_destroy i t = (Err e, t') \<Longrightarrow> t' = t \<and> vt_view t i = None"
  by (auto simp: vt_destroy_def vt_view_def split: result.splits)

lemma vt_spent_create: "vt_inv t \<Longrightarrow> vt_spent t i \<Longrightarrow> vt_spent (snd (vt_create b t)) i"
proof -
  assume inv: "vt_inv t" and spent: "vt_spent t i"
  show ?thesis
  proof (cases "fst (vt_create b t)")
    case (Ok j)
    from vt_createE [OF inv, of b j "snd (vt_create b t)"] Ok obtain k g where
      c: "k < length (vt_slots t)" "unat g = Suc (unat (vt_generations t ! k))"
        "snd (vt_create b t) = t\<lparr>vt_generations := (vt_generations t)[k := g], vt_slots := (vt_slots t)[k :=
           Some \<lparr>vs_generation = g, vs_state = Created, vs_exits = 0, vs_exit_budget = b\<rparr>]\<rparr>"
      by (metis prod.collapse)
    have "vm_generation i < g" if "vm_index i = k"
      using spent that c(2) by (simp add: vt_spent_def word_le_nat_alt word_less_nat_alt)
    moreover have "length (vt_generations t) = length (vt_slots t)" using inv by (simp add: vt_inv_def)
    ultimately show ?thesis using spent c(1)
      by (auto simp: c(3) vt_spent_def vt_slot_def nth_update_if split: option.splits)
  next
    case (Err e)
    then have "snd (vt_create b t) = t" by (metis prod.collapse vt_create_errD)
    then show ?thesis using spent by simp
  qed
qed

lemma vt_spent_destroy: "vt_spent t i \<Longrightarrow> vt_spent (snd (vt_destroy j t)) i"
  by (auto simp: vt_spent_def vt_destroy_def vt_slot_def nth_update_if split: result.splits option.splits)

interpretation vms: retiring_table vt_view vt_inv "\<lambda>b. (Created, 0, b)" vt_create vt_destroy vt_spent
proof unfold_locales
  fix t t' :: vm_table and b i j e u
  show "vt_inv t \<Longrightarrow> vt_inv (snd (vt_create b t))"
    by (cases "vt_create b t"; cases "fst (vt_create b t)") (auto dest: vt_create_okD(1) vt_create_errD)
  show "vt_inv t \<Longrightarrow> vt_inv (snd (vt_destroy i t))"
    by (cases "vt_destroy i t"; cases "fst (vt_destroy i t)") (auto dest: vt_destroy_okD(1) vt_destroy_errD)
  show "vt_inv t \<Longrightarrow> vt_create b t = (Ok i, t') \<Longrightarrow> vt_view t i = None \<and> vt_view t' = (vt_view t)(i \<mapsto> (Created, 0, b))"
    using vt_create_okD by blast
  show "vt_create b t = (Err e, t') \<Longrightarrow> t' = t" by (rule vt_create_errD)
  show "vt_inv t \<Longrightarrow> vt_destroy i t = (Ok u, t') \<Longrightarrow> vt_view t i \<noteq> None \<and> vt_view t' = (vt_view t)(i := None)"
    using vt_destroy_okD by blast
  show "vt_inv t \<Longrightarrow> vt_destroy i t = (Err e, t') \<Longrightarrow> t' = t \<and> vt_view t i = None" by (rule vt_destroy_errD)
  show "vt_inv t \<Longrightarrow> vt_destroy i t = (Ok u, t') \<Longrightarrow> vt_spent t' i" by (rule vt_destroy_okD(4))
  show "vt_inv t \<Longrightarrow> vt_spent t i \<Longrightarrow> vt_view t i = None" by (simp add: vt_spent_def vt_view_None)
  show "vt_inv t \<Longrightarrow> vt_spent t i \<Longrightarrow> vt_spent (snd (vt_create b t)) i" by (rule vt_spent_create)
  show "vt_inv t \<Longrightarrow> vt_spent t i \<Longrightarrow> vt_spent (snd (vt_destroy j t)) i" by (rule vt_spent_destroy)
qed

section \<open>The lifecycle\<close>

datatype vm_op =
  VmCreate u64 | VmMarkLoaded vm_id | VmStart vm_id | VmAccountExit vm_id | VmStop vm_id | VmFail vm_id | VmDestroy vm_id

fun vm_exec :: "vm_op \<Rightarrow> vm_table \<Rightarrow> vm_table" where
  "vm_exec (VmCreate b) t = snd (vt_create b t)"
| "vm_exec (VmMarkLoaded i) t = snd (vt_mark_loaded i t)"
| "vm_exec (VmStart i) t = snd (vt_start i t)"
| "vm_exec (VmAccountExit i) t = snd (vt_account_exit i t)"
| "vm_exec (VmStop i) t = snd (vt_stop i t)"
| "vm_exec (VmFail i) t = snd (vt_fail i t)"
| "vm_exec (VmDestroy i) t = snd (vt_destroy i t)"

definition vm_run :: "vm_op list \<Rightarrow> vm_table \<Rightarrow> vm_table" where
  "vm_run ops t = fold vm_exec ops t"

text \<open>The edges of the state diagram: what one operation may do to a machine.\<close>

inductive vm_edge :: "vm_state \<Rightarrow> vm_state \<Rightarrow> bool" where
  stay: "vm_edge a a"
| load: "vm_edge Created Loaded"
| run: "vm_edge Loaded Running"
| stop: "vm_edge Running Stopped"
| resume: "vm_edge Stopped Running"
| crash: "vm_edge a Failed"

inductive_cases vm_edge_FailedE: "vm_edge Failed a"

definition edit_ok :: "(vm_slot \<Rightarrow> ('a, vm_error) result \<times> vm_slot) \<Rightarrow> bool" where
  "edit_ok f \<longleftrightarrow> vm_edit f \<and> (\<forall>s. vm_edge (vs_state s) (vs_state (snd (f s))))"

lemma edits_ok:
  "edit_ok (\<lambda>s. if vs_state s \<noteq> Created then (Err InvalidVmState, s) else (Ok (), s\<lparr>vs_state := Loaded\<rparr>))"
  "edit_ok (\<lambda>s. if vs_state s \<noteq> Running then (Err InvalidVmState, s) else (Ok (), s\<lparr>vs_state := Stopped\<rparr>))"
  "edit_ok (\<lambda>s. if \<not> (vs_state s = Loaded \<or> vs_state s = Stopped) then (Err InvalidVmState, s)
     else (Ok (), s\<lparr>vs_exits := 0, vs_state := Running\<rparr>))"
  "edit_ok (\<lambda>s. (Ok (), s\<lparr>vs_state := Failed\<rparr>))"
  "edit_ok (\<lambda>s. if vs_state s \<noteq> Running then (Err InvalidVmState, s)
     else case checked_add (vs_exits s) 1 of
       None \<Rightarrow> (Err ExitBudgetExceeded, s)
     | Some exits \<Rightarrow>
         let s = s\<lparr>vs_exits := exits\<rparr> in
         if exits > vs_exit_budget s then (Err ExitBudgetExceeded, s\<lparr>vs_state := Failed\<rparr>)
         else (Ok (vs_exit_budget s - exits), s))"
  by (auto simp: edit_ok_def vm_edit_def Let_def intro: vm_edge.intros split: option.splits)

lemmas vt_edits = vt_mark_loaded_def vt_stop_def vt_start_def vt_fail_def vt_account_exit_def vt_transition_def

lemma edit_laws:
  assumes "vt_inv t" and "edit_ok f"
  shows "vt_inv (snd (vt_slot_mut i f t))"
    and "vt_view t j = None \<longleftrightarrow> vt_view (snd (vt_slot_mut i f t)) j = None"
    and "vt_view t j = Some (a, x, b) \<Longrightarrow> \<exists>a' x'. vt_view (snd (vt_slot_mut i f t)) j = Some (a', x', b) \<and> vm_edge a a'"
    and "vt_spent t j \<Longrightarrow> vt_spent (snd (vt_slot_mut i f t)) j"
proof -
  have e: "vm_edit f" "vm_edge (vs_state s) (vs_state (snd (f s)))" for s using assms(2) by (simp_all add: edit_ok_def)
  note laws = vt_slot_mut_laws [OF assms(1) e(1), of i]
  show "vt_inv (snd (vt_slot_mut i f t))" by (rule laws(1))
  have v: "vt_view t i = Some (vm_content s)" if "vt_slot t i = Ok s" for s using that by (simp add: vt_view_def)
  show none: "vt_view t j = None \<longleftrightarrow> vt_view (snd (vt_slot_mut i f t)) j = None"
    using v by (auto simp: laws(2) split: result.splits)
  show "\<exists>a' x'. vt_view (snd (vt_slot_mut i f t)) j = Some (a', x', b) \<and> vm_edge a a'" if "vt_view t j = Some (a, x, b)"
  proof (cases "\<exists>s. vt_slot t i = Ok s \<and> j = i")
    case True
    then obtain s where s: "vt_slot t i = Ok s" "j = i" by blast
    then have "vs_state s = a" "vs_exit_budget (snd (f s)) = b" using that v e(1) by (auto simp: vm_edit_def)
    then show ?thesis using s e(2) [of s] by (auto simp: laws(2))
  next
    case False
    then have "vt_view (snd (vt_slot_mut i f t)) j = vt_view t j" by (auto simp: laws(2) split: result.splits)
    then show ?thesis using that by (auto intro: vm_edge.stay)
  qed
  show "vt_spent (snd (vt_slot_mut i f t)) j" if "vt_spent t j"
    using that none by (simp add: vt_spent_def laws(3,4) vt_view_None)
qed

lemma vm_exec_cases:
  obtains (create) b where "op = VmCreate b" | (destroy) i where "op = VmDestroy i"
  | (edit) i f where "edit_ok (f :: vm_slot \<Rightarrow> (unit, vm_error) result \<times> vm_slot)" "vm_exec op = (\<lambda>t. snd (vt_slot_mut i f t))"
  | (account) i f where "edit_ok (f :: vm_slot \<Rightarrow> (u64, vm_error) result \<times> vm_slot)" "vm_exec op = (\<lambda>t. snd (vt_slot_mut i f t))"
proof (cases op)
  case (VmMarkLoaded i)
  then show thesis using edit [OF edits_ok(1), of i] by (auto simp: fun_eq_iff vt_edits)
next
  case (VmStart i)
  then show thesis using edit [OF edits_ok(3), of i] by (auto simp: fun_eq_iff vt_edits)
next
  case (VmAccountExit i)
  then show thesis using account [OF edits_ok(5), of i] by (auto simp: fun_eq_iff vt_edits)
next
  case (VmStop i)
  then show thesis using edit [OF edits_ok(2), of i] by (auto simp: fun_eq_iff vt_edits)
next
  case (VmFail i)
  then show thesis using edit [OF edits_ok(4), of i] by (auto simp: fun_eq_iff vt_edits)
qed (use create destroy in auto)

lemma vm_exec_laws:
  assumes "vt_inv t"
  shows "vt_inv (vm_exec op t)" "vt_spent t j \<Longrightarrow> vt_spent (vm_exec op t) j"
    and "vt_view t j = Some (a, x, b) \<Longrightarrow> vt_view (vm_exec op t) j = None \<and> op = VmDestroy j \<or>
       (\<exists>a' x'. vt_view (vm_exec op t) j = Some (a', x', b) \<and> vm_edge a a')"
proof -
  have "vt_inv (vm_exec op t) \<and> (vt_spent t j \<longrightarrow> vt_spent (vm_exec op t) j) \<and>
    (vt_view t j = Some (a, x, b) \<longrightarrow> vt_view (vm_exec op t) j = None \<and> op = VmDestroy j \<or>
       (\<exists>a' x'. vt_view (vm_exec op t) j = Some (a', x', b) \<and> vm_edge a a'))"
  proof (cases rule: vm_exec_cases [where op = op])
    case (create c)
    then show ?thesis using vms.alloc_inv [OF assms, of c] vms.spent_alloc [OF assms, of j c]
        vms.alloc_view [OF assms, of j "(a, x, b)" c] by (auto intro: vm_edge.stay)
  next
    case (destroy i)
    have "vt_view (snd (vt_destroy i t)) j = (if j = i then None else vt_view t j)"
      by (cases "vt_destroy i t"; cases "fst (vt_destroy i t)") (auto dest!: vt_destroy_okD(3) [OF assms] vt_destroy_errD)
    then show ?thesis using destroy vms.free_inv [OF assms, of i] vt_spent_destroy [of t j i] by (auto intro: vm_edge.stay)
  next
    case (edit i f)
    show ?thesis using edit_laws(1) [OF assms edit(1), where i = i] edit_laws(3,4) [OF assms edit(1), where i = i and j = j] edit(2) by auto
  next
    case (account i f)
    show ?thesis using edit_laws(1) [OF assms account(1), where i = i] edit_laws(3,4) [OF assms account(1), where i = i and j = j] account(2) by auto
  qed
  then show "vt_inv (vm_exec op t)" "vt_spent t j \<Longrightarrow> vt_spent (vm_exec op t) j"
    "vt_view t j = Some (a, x, b) \<Longrightarrow> vt_view (vm_exec op t) j = None \<and> op = VmDestroy j \<or>
       (\<exists>a' x'. vt_view (vm_exec op t) j = Some (a', x', b) \<and> vm_edge a a')" by blast+
qed

lemma vm_run_laws: "vt_inv t \<Longrightarrow> vt_inv (vm_run ops t) \<and> (vt_spent t j \<longrightarrow> vt_spent (vm_run ops t) j)"
  unfolding vm_run_def by (induction ops arbitrary: t) (simp_all add: vm_exec_laws)

lemma vt_view_within_budget:
  assumes "vt_inv t" and "vt_view t i = Some (a, x, b)" and "a \<noteq> Failed"
  shows "x \<le> b"
  using assms vt_inv_slot(3) [OF assms(1), of i] by (auto simp: vt_view_def split: result.splits)

lemma failed_stays:
  "vt_inv t \<Longrightarrow> (\<exists>x b. vt_view t i = Some (Failed, x, b)) \<or> vt_spent t i \<Longrightarrow>
     (\<exists>x b. vt_view (vm_run ops t) i = Some (Failed, x, b)) \<or> vt_spent (vm_run ops t) i"
proof (induction ops arbitrary: t)
  case (Cons op ops)
  have "(\<exists>x b. vt_view (vm_exec op t) i = Some (Failed, x, b)) \<or> vt_spent (vm_exec op t) i"
    using Cons.prems(2)
  proof (elim disjE exE)
    fix x b assume v: "vt_view t i = Some (Failed, x, b)"
    from vm_exec_laws(3) [OF Cons.prems(1) v, of op] show ?thesis
    proof (elim disjE exE conjE)
      assume "op = VmDestroy i"
      moreover obtain u where "vt_destroy i t = (Ok u, snd (vt_destroy i t))"
        using v by (auto simp: vt_view_def vt_destroy_def split: result.splits)
      ultimately show ?thesis using vt_destroy_okD(4) [OF Cons.prems(1)] by simp
    qed (auto elim: vm_edge_FailedE)
  qed (use vm_exec_laws(2) [OF Cons.prems(1)] in blast)
  then show ?case using Cons.IH [OF vm_exec_laws(1) [OF Cons.prems(1)]] by (simp add: vm_run_def)
qed (simp add: vm_run_def)

section \<open>Properties\<close>

text \<open>
  Property C33.  In every state reachable from an empty table, whatever operation comes next, a live
  machine is removed only by destroying it and otherwise moves along an edge of the lifecycle
  diagram with its budget unchanged; its exits never exceed the budget unless it has failed;
  and once it has failed or been destroyed, no later sequence of operations brings it back: a failed
  machine stays failed until destroyed, and a destroyed handle is never valid again.
\<close>

theorem vm_lifecycle:
  assumes "n \<le> 2 ^ 32" and "t = vm_run before (vt_new n)" and "vt_view t i = Some (a, x, b)"
  shows "(a = Failed \<or> x \<le> b) \<and>
     (case vt_view (vm_exec op t) i of
        None \<Rightarrow> op = VmDestroy i \<and> (\<forall>later. vt_view (vm_run later (vm_exec op t)) i = None)
      | Some (a', x', b') \<Rightarrow> vm_edge a a' \<and> b' = b \<and>
          (a' = Failed \<longrightarrow> (\<forall>later. case vt_view (vm_run later (vm_exec op t)) i of
             None \<Rightarrow> True | Some (a'', _) \<Rightarrow> a'' = Failed)))"
proof -
  have "vt_inv (vt_new n)" using assms(1) by (simp add: vt_inv_def vt_new_def slot_ok_def)
  then have inv: "vt_inv t" using vm_run_laws assms(2) by blast
  note inv' = vm_exec_laws(1) [OF inv, of op]
  have budget: "a = Failed \<or> x \<le> b" using vt_view_within_budget [OF inv assms(3)] by blast
  have dead: "vt_view (vm_run later (vm_exec op t)) i = None" if "op = VmDestroy i" for later
  proof -
    obtain u where "vt_destroy i t = (Ok u, snd (vt_destroy i t))"
      using assms(3) by (auto simp: vt_view_def vt_destroy_def split: result.splits)
    then have "vt_spent (vm_exec op t) i" using vt_destroy_okD(4) [OF inv] that by simp
    then show ?thesis using vm_run_laws [OF inv'] vms.spent_dead by blast
  qed
  have final: "case vt_view (vm_run later (vm_exec op t)) i of None \<Rightarrow> True | Some (a'', _) \<Rightarrow> a'' = Failed"
    if "vt_view (vm_exec op t) i = Some (Failed, x', b')" for x' b' later
    using failed_stays [OF inv', of i later] that vms.spent_dead [OF conjunct1 [OF vm_run_laws [OF inv']]]
    by (auto split: option.splits)
  from vm_exec_laws(3) [OF inv assms(3), of op] show ?thesis using budget dead final by (auto split: option.splits)
qed

theorem vm_lifecycle_witness:
  "let i = vm_id_new 0 1; t = vm_run [VmCreate 5, VmMarkLoaded i, VmStart i] (vt_new 1) in
   vt_view t i = Some (Running, 0, 5) \<and> vt_view (vm_run [VmCreate 9] (vm_exec (VmDestroy i) t)) i = None"
proof -
  let ?i = "vm_id_new 0 1"
  let ?ops = "[VmCreate 5, VmMarkLoaded ?i, VmStart ?i]"
  have v: "vt_view (vm_run ?ops (vt_new 1)) ?i = Some (Running, 0, 5)"
    and d: "vt_view (vm_exec (VmDestroy ?i) (vm_run ?ops (vt_new 1))) ?i = None" by code_simp+
  have "(1 :: nat) \<le> 2 ^ 32" by simp
  from vm_lifecycle [OF this refl v, of "VmDestroy ?i"] show ?thesis using v d by (simp add: Let_def)
qed

end
