(* ===== verification/Guest_Memory.thy ===== *)
theory Guest_Memory
  imports Vm_Table
begin

text \<open>
  Guest memory, after \<open>GuestRegion\<close> and \<open>GuestMemory\<close> in \<open>crates/mrml-kernel/src/vm.rs\<close>: a sorted
  table of page regions that map guest addresses to host addresses, with write and execute
  permissions, and the translation of guest ranges.
\<close>

section \<open>Definitions\<close>

definition MAX_GUEST_REGIONS :: nat where "MAX_GUEST_REGIONS = 64"

datatype guest_access = GuestRead | GuestWrite | GuestExecute

record guest_region =
  gr_guest_start :: u64
  gr_host_start :: phys_addr
  gr_pages :: u64
  gr_writable :: bool
  gr_executable :: bool

record guest_mapping =
  gm_id :: u64
  gm_region :: guest_region

definition guest_region_new :: "u64 \<Rightarrow> phys_addr \<Rightarrow> u64 \<Rightarrow> bool \<Rightarrow> bool \<Rightarrow> (guest_region, vm_error) result" where
  "guest_region_new guest_start host_start pages writable executable =
     (if pages = 0 then Err EmptyRegion
      else if guest_start mod PAGE_SIZE \<noteq> 0 then Err VmUnaligned
      else if writable \<and> executable then Err WritableExecutable
      else case checked_mul pages PAGE_SIZE of
        None \<Rightarrow> Err VmOverflow
      | Some len \<Rightarrow>
          if checked_add guest_start len = None then Err VmOverflow
          else if checked_add (phys_get host_start) len = None then Err VmOverflow
          else Ok \<lparr>gr_guest_start = guest_start, gr_host_start = host_start, gr_pages = pages,
                   gr_writable = writable, gr_executable = executable\<rparr>)"

definition region_length :: "guest_region \<Rightarrow> u64" where
  "region_length r = gr_pages r * PAGE_SIZE"

definition overlaps :: "u64 \<Rightarrow> u64 \<Rightarrow> u64 \<Rightarrow> u64 \<Rightarrow> bool" where
  "overlaps a_start a_end b_start b_end \<longleftrightarrow> a_start < b_end \<and> b_start < a_end"

record guest_memory =
  mm_mappings :: "guest_mapping option list"
  mm_count :: nat
  mm_next_id :: u64

definition mm_new :: "nat \<Rightarrow> guest_memory" where
  "mm_new n = \<lparr>mm_mappings = replicate n None, mm_count = 0, mm_next_id = 1\<rparr>"

text \<open>The loop of \<open>map\<close> over the existing regions.\<close>

fun map_conflict :: "guest_region \<Rightarrow> guest_mapping list \<Rightarrow> vm_error option" where
  "map_conflict r [] = None"
| "map_conflict r (m # ms) =
     (let e = gm_region m in
      if overlaps (gr_guest_start r) (gr_guest_start r + region_length r)
           (gr_guest_start e) (gr_guest_start e + region_length e) then Some GuestOverlap
      else if overlaps (phys_get (gr_host_start r)) (phys_get (gr_host_start r) + region_length r)
           (phys_get (gr_host_start e)) (phys_get (gr_host_start e) + region_length e) then Some HostAlias
      else map_conflict r ms)"

text \<open>
  The shift by \<open>copy_within\<close> and the store, as one list; \<open>partition_point\<close> finds the end of the
  prefix on which its predicate holds.
\<close>

definition mm_map :: "guest_region \<Rightarrow> guest_memory \<Rightarrow> (u64, vm_error) result \<times> guest_memory" where
  "mm_map r g =
     (if length (mm_mappings g) > MAX_GUEST_REGIONS \<or> mm_count g = length (mm_mappings g)
      then (Err RegionTableFull, g)
      else case map_conflict r (flatten (take (mm_count g) (mm_mappings g))) of
        Some e \<Rightarrow> (Err e, g)
      | None \<Rightarrow>
          let used = take (mm_count g) (mm_mappings g);
              at = length (takeWhile (is_some_and (\<lambda>m. gr_guest_start (gm_region m) < gr_guest_start r)) used) in
          (case checked_add (mm_next_id g) 1 of
             None \<Rightarrow> (Err VmSequenceExhausted, g)
           | Some n \<Rightarrow>
               (Ok (mm_next_id g),
                g\<lparr>mm_next_id := n,
                  mm_mappings := take at used @ Some \<lparr>gm_id = mm_next_id g, gm_region = r\<rparr> # drop at used @
                                 drop (mm_count g + 1) (mm_mappings g),
                  mm_count := mm_count g + 1\<rparr>)))"

definition mm_unmap :: "u64 \<Rightarrow> guest_memory \<Rightarrow> (guest_region, vm_error) result \<times> guest_memory" where
  "mm_unmap i g =
     (let used = take (mm_count g) (mm_mappings g) in
      case position (is_some_and (\<lambda>m. gm_id m = i)) used of
        None \<Rightarrow> (Err StaleMapping, g)
      | Some at \<Rightarrow>
          (Ok (gm_region (the (used ! at))),
           g\<lparr>mm_mappings := take at used @ drop (at + 1) used @ None # drop (mm_count g) (mm_mappings g),
             mm_count := mm_count g - 1\<rparr>))"

definition mm_protect :: "u64 \<Rightarrow> bool \<Rightarrow> bool \<Rightarrow> guest_memory \<Rightarrow> (unit, vm_error) result \<times> guest_memory" where
  "mm_protect i writable executable g =
     (if writable \<and> executable then (Err WritableExecutable, g)
      else
      let used = take (mm_count g) (mm_mappings g) in
      case position (is_some_and (\<lambda>m. gm_id m = i)) used of
        None \<Rightarrow> (Err StaleMapping, g)
      | Some at \<Rightarrow>
          (Ok (), g\<lparr>mm_mappings := (mm_mappings g)[at := map_option (\<lambda>m. m\<lparr>gm_region := (gm_region m)
             \<lparr>gr_writable := writable, gr_executable := executable\<rparr>\<rparr>) (used ! at)]\<rparr>))"

definition mm_translate :: "u64 \<Rightarrow> u64 \<Rightarrow> guest_access \<Rightarrow> guest_memory \<Rightarrow> (u64, vm_error) result" where
  "mm_translate guest len access g =
     (if len = 0 then Err Unmapped
      else case checked_add guest len of
        None \<Rightarrow> Err VmOverflow
      | Some e \<Rightarrow>
      (case find (\<lambda>r. guest \<ge> gr_guest_start r \<and> e \<le> gr_guest_start r + region_length r)
              (map gm_region (flatten (take (mm_count g) (mm_mappings g)))) of
        None \<Rightarrow> Err Unmapped
      | Some r \<Rightarrow>
          if access = GuestWrite \<and> \<not> gr_writable r \<or> access = GuestExecute \<and> \<not> gr_executable r
          then Err VmPermissionDenied
          else ok_or (checked_add (phys_get (gr_host_start r)) (guest - gr_guest_start r)) VmOverflow))"

section \<open>Regions as intervals of natural numbers\<close>

definition gs :: "guest_region \<Rightarrow> nat" where "gs r = unat (gr_guest_start r)"
definition hs :: "guest_region \<Rightarrow> nat" where "hs r = unat (phys_get (gr_host_start r))"
definition span :: "guest_region \<Rightarrow> nat" where "span r = unat (gr_pages r) * 4096"

definition region_ok :: "guest_region \<Rightarrow> bool" where
  "region_ok r \<longleftrightarrow> 0 < span r \<and> gs r mod 4096 = 0 \<and> gs r + span r < 2 ^ 64 \<and> hs r + span r < 2 ^ 64 \<and>
     \<not> (gr_writable r \<and> gr_executable r)"

lemma guest_region_new_ok: "guest_region_new a h n w x = Ok r \<Longrightarrow> region_ok r"
proof -
  assume new: "guest_region_new a h n w x = Ok r"
  have nz: "n \<noteq> 0" "a mod PAGE_SIZE = 0" "\<not> (w \<and> x)" using new by (auto simp: guest_region_new_def split: if_splits)
  obtain l where l: "checked_mul n PAGE_SIZE = Some l"
    using new nz by (auto simp: guest_region_new_def split: option.splits if_splits)
  have r: "checked_add a l \<noteq> None" "checked_add (phys_get h) l \<noteq> None"
    "r = \<lparr>gr_guest_start = a, gr_host_start = h, gr_pages = n, gr_writable = w, gr_executable = x\<rparr>"
    using new nz l by (auto simp: guest_region_new_def split: if_splits)
  have sp: "unat l = span r" using checked_mul_SomeD(2) [OF l] by (simp add: r(3) span_def PAGE_SIZE_def)
  have "unat (a mod PAGE_SIZE) = 0" using nz(2) by simp
  then have al: "gs r mod 4096 = 0" by (simp add: unat_mod PAGE_SIZE_def r(3) gs_def)
  have "0 < span r" using nz(1) by (simp add: r(3) span_def unat_gt_0)
  then show "region_ok r" using r(1,2) nz(3) al sp
    by (simp add: region_ok_def checked_add_None_iff not_le r(3) gs_def hs_def)
qed

lemma region_unats:
  assumes "region_ok r"
  shows "unat (region_length r) = span r" "unat (gr_guest_start r + region_length r) = gs r + span r"
    and "unat (phys_get (gr_host_start r) + region_length r) = hs r + span r"
proof -
  show l: "unat (region_length r) = span r"
    using assms by (simp add: region_length_def PAGE_SIZE_def region_ok_def span_def unat_word_ariths)
  show "unat (gr_guest_start r + region_length r) = gs r + span r"
    "unat (phys_get (gr_host_start r) + region_length r) = hs r + span r"
    using assms l by (simp_all add: region_ok_def gs_def hs_def unat_word_ariths)
qed

definition apart :: "(guest_region \<Rightarrow> nat) \<Rightarrow> guest_region \<Rightarrow> guest_region \<Rightarrow> bool" where
  "apart f a b \<longleftrightarrow> f a + span a \<le> f b \<or> f b + span b \<le> f a"

lemma map_conflict_None:
  assumes "region_ok r" and "\<forall>m \<in> set ms. region_ok (gm_region m)"
  shows "map_conflict r ms = None \<longleftrightarrow> (\<forall>m \<in> set ms. apart gs r (gm_region m) \<and> apart hs r (gm_region m))"
  using assms(2)
  by (induction ms)
    (auto simp: Let_def overlaps_def word_less_nat_alt region_unats assms(1) apart_def not_less simp flip: gs_def hs_def)

section \<open>The table\<close>

definition mm_live :: "guest_memory \<Rightarrow> guest_mapping list" where
  "mm_live g = flatten (take (mm_count g) (mm_mappings g))"

definition mm_view :: "guest_memory \<Rightarrow> u64 \<Rightarrow> guest_region option" where
  "mm_view g = map_of (map (\<lambda>m. (gm_id m, gm_region m)) (mm_live g))"

text \<open>
  The used prefix is dense and sorted by guest address; regions are well formed and apart on both
  sides; identities are distinct and below the next one.
\<close>

definition mappings_ok :: "u64 \<Rightarrow> guest_mapping list \<Rightarrow> bool" where
  "mappings_ok n ms \<longleftrightarrow> sorted_wrt (\<lambda>a b. gs a + span a \<le> gs b) (map gm_region ms) \<and>
     sorted_wrt (apart hs) (map gm_region ms) \<and> (\<forall>m \<in> set ms. region_ok (gm_region m) \<and> gm_id m < n) \<and>
     distinct (map gm_id ms)"

definition mm_inv :: "guest_memory \<Rightarrow> bool" where
  "mm_inv g \<longleftrightarrow> (\<exists>k. mm_mappings g = map Some (mm_live g) @ replicate k None) \<and>
     mm_count g = length (mm_live g) \<and> mappings_ok (mm_next_id g) (mm_live g)"

lemma mm_liveI:
  assumes "mm_mappings g = map Some ms @ replicate k None" and "mm_count g = length ms"
  shows "mm_live g = ms"
  using assms by (simp add: mm_live_def)

lemma mm_invI:
  assumes "mm_mappings g = map Some ms @ replicate k None" and "mm_count g = length ms" and "mappings_ok (mm_next_id g) ms"
  shows "mm_inv g" "mm_live g = ms"
proof -
  show l: "mm_live g = ms" using mm_liveI [OF assms(1,2)] .
  show "mm_inv g" unfolding mm_inv_def l using assms by blast
qed

lemma mm_invE:
  assumes "mm_inv g"
  obtains k where "mm_mappings g = map Some (mm_live g) @ replicate k None" "mm_count g = length (mm_live g)"
    "mappings_ok (mm_next_id g) (mm_live g)" "take (mm_count g) (mm_mappings g) = map Some (mm_live g)"
proof -
  obtain k where k: "mm_mappings g = map Some (mm_live g) @ replicate k None" using assms by (auto simp: mm_inv_def)
  have c: "mm_count g = length (mm_live g)" "mappings_ok (mm_next_id g) (mm_live g)" using assms by (auto simp: mm_inv_def)
  have "take (mm_count g) (mm_mappings g) = map Some (mm_live g)" by (subst k) (simp add: c(1))
  then show thesis using that k c by blast
qed

lemma mm_new_inv: "mm_inv (mm_new n)" "mm_view (mm_new n) = Map.empty"
  by (simp_all add: mm_inv_def mm_live_def mm_new_def mappings_ok_def mm_view_def)

lemma dropWhile_sorted:
  assumes "sorted_wrt (\<lambda>a b. gs a + span a \<le> gs b) (map gm_region ms)" and "m \<in> set (dropWhile (\<lambda>m. gs (gm_region m) < a) ms)"
  shows "a \<le> gs (gm_region m)"
  using assms
proof (induction ms)
  case (Cons x xs)
  then show ?case by (cases "gs (gm_region x) < a") auto
qed simp

text \<open>Inserting a region that is apart from all the others, at the point where the order wants it.\<close>

lemma mappings_ok_insert:
  assumes "mappings_ok n ms" and "region_ok (gm_region m)" and "gm_id m = n" and "n < n'"
    and "\<forall>e \<in> set ms. apart gs (gm_region m) (gm_region e) \<and> apart hs (gm_region m) (gm_region e)"
    and "pre = takeWhile (\<lambda>e. gs (gm_region e) < gs (gm_region m)) ms"
    and "post = dropWhile (\<lambda>e. gs (gm_region e) < gs (gm_region m)) ms"
  shows "mappings_ok n' (pre @ m # post)"
proof -
  have ms: "ms = pre @ post" by (simp add: assms(6,7))
  have sub: "set pre \<subseteq> set ms" "set post \<subseteq> set ms" by (auto simp: ms)
  have before: "gs (gm_region e) + span (gm_region e) \<le> gs (gm_region m)" if "e \<in> set pre" for e
  proof -
    have "gs (gm_region e) < gs (gm_region m)" using that assms(6) by (auto dest: set_takeWhileD)
    moreover have "apart gs (gm_region m) (gm_region e)" using assms(5) sub(1) that by blast
    ultimately show ?thesis by (auto simp: apart_def)
  qed
  have after: "gs (gm_region m) + span (gm_region m) \<le> gs (gm_region e)" if "e \<in> set post" for e
  proof -
    have "sorted_wrt (\<lambda>a b. gs a + span a \<le> gs b) (map gm_region ms)" using assms(1) by (simp add: mappings_ok_def)
    then have "gs (gm_region m) \<le> gs (gm_region e)" using dropWhile_sorted that assms(7) by blast
    moreover have "apart gs (gm_region m) (gm_region e)" "0 < span (gm_region e)"
      using assms(1,5) sub(2) that by (auto simp: mappings_ok_def region_ok_def)
    ultimately show ?thesis by (auto simp: apart_def)
  qed
  have host: "apart hs (gm_region e) (gm_region m)" "apart hs (gm_region m) (gm_region e)" if "e \<in> set ms" for e
    using assms(5) that by (auto simp: apart_def)
  have order: "\<forall>x \<in> set pre. \<forall>y \<in> set post. gs (gm_region x) + span (gm_region x) \<le> gs (gm_region y)"
    using before after by fastforce
  have "gm_id e \<noteq> n \<and> gm_id e < n'" if "e \<in> set ms" for e
    using assms(1,4) that by (auto simp: mappings_ok_def intro: less_trans)
  then show ?thesis using assms(1-4) before after host order
    unfolding mappings_ok_def ms by (auto simp: sorted_wrt_append ms)
qed

text \<open>What each operation does to the list of live mappings.\<close>

lemma mm_map_okD:
  assumes "mm_inv g" and "region_ok r" and "mm_map r g = (Ok i, g')"
  shows "mm_inv g'" "i = mm_next_id g" "unat (mm_next_id g') = Suc (unat i)"
    and "\<exists>pre post. mm_live g = pre @ post \<and> mm_live g' = pre @ \<lparr>gm_id = i, gm_region = r\<rparr> # post"
    and "\<forall>m \<in> set (mm_live g). apart gs r (gm_region m) \<and> apart hs r (gm_region m)"
proof -
  let ?P = "\<lambda>m. gs (gm_region m) < gs r" and ?ms = "mm_live g"
  let ?new = "\<lparr>gm_id = mm_next_id g, gm_region = r\<rparr>"
  obtain k where k: "mm_mappings g = map Some ?ms @ replicate k None" "mm_count g = length ?ms"
    "mappings_ok (mm_next_id g) ?ms" "take (mm_count g) (mm_mappings g) = map Some ?ms" using assms(1) by (rule mm_invE)
  have room: "\<not> (length (mm_mappings g) > MAX_GUEST_REGIONS \<or> mm_count g = length (mm_mappings g))"
    and none: "map_conflict r ?ms = None"
    using assms(3) by (auto simp: mm_map_def k(4) split: if_splits option.splits)
  obtain n where n: "checked_add (mm_next_id g) 1 = Some n"
    using assms(3) room none by (auto simp: mm_map_def k(4) Let_def split: option.splits)
  have "0 < k" using room k(1,2) by (cases k) auto
  then have rest: "drop (Suc (length ?ms)) (mm_mappings g) = replicate (k - 1) None" by (simp add: k(1))
  have at: "length (takeWhile (is_some_and (\<lambda>m. gr_guest_start (gm_region m) < gr_guest_start r)) (map Some ?ms))
      = length (takeWhile ?P ?ms)"
    by (simp add: takeWhile_map comp_def is_some_and_def gs_def word_less_nat_alt)
  let ?a = "length (takeWhile ?P ?ms)"
  have eq: "mm_map r g = (Ok (mm_next_id g), g\<lparr>mm_next_id := n,
      mm_mappings := take ?a (map Some ?ms) @ Some ?new # drop ?a (map Some ?ms) @ drop (mm_count g + 1) (mm_mappings g),
      mm_count := mm_count g + 1\<rparr>)"
    using room none by (simp add: mm_map_def k(4) Let_def at n)
  have split: "take ?a ?ms = takeWhile ?P ?ms" "drop ?a ?ms = dropWhile ?P ?ms"
    by (rule takeWhile_eq_take [symmetric], rule dropWhile_eq_drop [symmetric])
  have "length ?ms = ?a + length (dropWhile ?P ?ms)" by (metis length_append takeWhile_dropWhile_id)
  then have g': "i = mm_next_id g" "mm_next_id g' = n" "mm_count g' = length (takeWhile ?P ?ms @ ?new # dropWhile ?P ?ms)"
    "mm_mappings g' = map Some (takeWhile ?P ?ms @ ?new # dropWhile ?P ?ms) @ replicate (k - 1) None"
    using eq assms(3) rest by (auto simp: take_map drop_map split k(2))
  show apart: "\<forall>m \<in> set (mm_live g). apart gs r (gm_region m) \<and> apart hs r (gm_region m)"
    using map_conflict_None [OF assms(2), of ?ms] none k(3) by (simp add: mappings_ok_def)
  have lt: "mm_next_id g < n" using checked_add_1_SomeD [OF n] by (simp add: word_less_nat_alt)
  have "mappings_ok n (takeWhile ?P ?ms @ ?new # dropWhile ?P ?ms)"
    using mappings_ok_insert [OF k(3), of ?new n] assms(2) apart lt by simp
  from mm_invI [OF g'(4,3)] this g'(2) have live: "mm_live g' = takeWhile ?P ?ms @ ?new # dropWhile ?P ?ms" and "mm_inv g'" by simp_all
  then show "mm_inv g'" by simp
  show "i = mm_next_id g" by (rule g'(1))
  show "unat (mm_next_id g') = Suc (unat i)" using checked_add_1_SomeD [OF n] g'(1,2) by simp
  show "\<exists>pre post. mm_live g = pre @ post \<and> mm_live g' = pre @ \<lparr>gm_id = i, gm_region = r\<rparr> # post"
    using live g'(1) by (intro exI [of _ "takeWhile ?P ?ms"] exI [of _ "dropWhile ?P ?ms"]) simp
qed

lemma mm_map_errD: "mm_map r g = (Err e, g') \<Longrightarrow> g' = g"
  by (auto simp: mm_map_def Let_def split: if_splits option.splits)

lemma mm_find:
  assumes "mm_inv g"
  obtains (found) pre m post k where "position (is_some_and (\<lambda>m. gm_id m = i)) (take (mm_count g) (mm_mappings g)) = Some (length pre)"
      "mm_live g = pre @ m # post" "gm_id m = i" "mm_mappings g = map Some (pre @ m # post) @ replicate k None"
      "mm_count g = length (pre @ m # post)" "mappings_ok (mm_next_id g) (pre @ m # post)"
  | (none) "position (is_some_and (\<lambda>m. gm_id m = i)) (take (mm_count g) (mm_mappings g)) = None"
      "\<forall>m \<in> set (mm_live g). gm_id m \<noteq> i"
proof -
  obtain k where k: "mm_mappings g = map Some (mm_live g) @ replicate k None" "mm_count g = length (mm_live g)"
    "mappings_ok (mm_next_id g) (mm_live g)" "take (mm_count g) (mm_mappings g) = map Some (mm_live g)" using assms by (rule mm_invE)
  show thesis
  proof (cases "position (is_some_and (\<lambda>m. gm_id m = i)) (take (mm_count g) (mm_mappings g))")
    case None
    then show thesis using none by (auto simp: position_None_iff k(4))
  next
    case (Some at)
    then have at: "at < length (mm_live g)" "gm_id (mm_live g ! at) = i"
      using position_SomeD [OF Some [unfolded k(4)]] by (auto simp: is_some_and_def)
    let ?pre = "take at (mm_live g)" and ?post = "drop (Suc at) (mm_live g)"
    have split: "mm_live g = ?pre @ mm_live g ! at # ?post" using at(1) by (rule id_take_nth_drop)
    have "length ?pre = at" using at(1) by simp
    then show thesis using found [of ?pre "mm_live g ! at" ?post k] split Some at k by metis
  qed
qed

lemma mappings_ok_remove: "mappings_ok n (pre @ m # post) \<Longrightarrow> mappings_ok n (pre @ post)"
  by (auto simp: mappings_ok_def sorted_wrt_append)

lemma mappings_ok_replace:
  assumes "mappings_ok n (pre @ m # post)" and "gm_id m' = gm_id m" and "region_ok (gm_region m')"
    and "gs (gm_region m') = gs (gm_region m)" "hs (gm_region m') = hs (gm_region m)" "span (gm_region m') = span (gm_region m)"
  shows "mappings_ok n (pre @ m' # post)"
  using assms by (auto simp: mappings_ok_def sorted_wrt_append apart_def)

lemma mm_unmap_cases:
  assumes "mm_inv g"
  obtains (found) pre m post where "mm_live g = pre @ m # post" "gm_id m = i" "mm_unmap i g = (Ok (gm_region m), snd (mm_unmap i g))"
      "mm_inv (snd (mm_unmap i g))" "mm_live (snd (mm_unmap i g)) = pre @ post" "mm_next_id (snd (mm_unmap i g)) = mm_next_id g"
  | (stale) "mm_unmap i g = (Err StaleMapping, g)" "\<forall>m \<in> set (mm_live g). gm_id m \<noteq> i"
  using assms
proof (cases rule: mm_find [where i = i])
  case (found pre m post k)
  let ?g = "snd (mm_unmap i g)"
  have u: "take (mm_count g) (mm_mappings g) = map Some (pre @ m # post)" by (simp add: found(4,5))
  have g: "mm_unmap i g = (Ok (gm_region m), ?g)" "mm_count ?g = length (pre @ post)" "mm_next_id ?g = mm_next_id g"
    "mm_mappings ?g = map Some (pre @ post) @ replicate (Suc k) None"
    using found(1,4,5) by (simp_all add: mm_unmap_def Let_def u nth_append)
  note inv = mm_invI [OF g(4,2)]
  show thesis using that(1) [OF found(2,3) g(1)] inv mappings_ok_remove [OF found(6)] g(3) by simp
next
  case none
  then show thesis using stale by (simp add: mm_unmap_def Let_def)
qed

lemma mm_protect_cases:
  assumes "mm_inv g"
  obtains (found) pre m post where "\<not> (w \<and> x)" "mm_live g = pre @ m # post" "gm_id m = i"
      "mm_protect i w x g = (Ok (), snd (mm_protect i w x g))" "mm_inv (snd (mm_protect i w x g))"
      "mm_live (snd (mm_protect i w x g)) = pre @ m\<lparr>gm_region := (gm_region m)\<lparr>gr_writable := w, gr_executable := x\<rparr>\<rparr> # post"
      "mm_next_id (snd (mm_protect i w x g)) = mm_next_id g"
  | (stale) "\<not> (w \<and> x)" "mm_protect i w x g = (Err StaleMapping, g)" "\<forall>m \<in> set (mm_live g). gm_id m \<noteq> i"
  | (both) "w \<and> x" "mm_protect i w x g = (Err WritableExecutable, g)"
proof (cases "w \<and> x")
  case True
  then show thesis using both by (simp add: mm_protect_def)
next
  case False
  from assms show thesis
  proof (cases rule: mm_find [where i = i])
    case (found pre m post k)
    let ?g = "snd (mm_protect i w x g)" and ?m = "m\<lparr>gm_region := (gm_region m)\<lparr>gr_writable := w, gr_executable := x\<rparr>\<rparr>"
    have u: "take (mm_count g) (mm_mappings g) = map Some (pre @ m # post)" by (simp add: found(4,5))
    have g: "mm_protect i w x g = (Ok (), ?g)" "mm_count ?g = length (pre @ ?m # post)" "mm_next_id ?g = mm_next_id g"
      "mm_mappings ?g = map Some (pre @ ?m # post) @ replicate k None"
      using found(1,4,5) False by (auto simp: mm_protect_def Let_def u nth_append list_update_append)
    have "mappings_ok (mm_next_id g) (pre @ ?m # post)"
      using found(6) False
      by (intro mappings_ok_replace [OF found(6)]) (auto simp: mappings_ok_def region_ok_def gs_def hs_def span_def)
    then show thesis using that(1) [OF False found(2,3) g(1)] mm_invI [OF g(4,2)] g(3) by simp
  next
    case none
    then show thesis using stale False by (simp add: mm_protect_def Let_def)
  qed
qed

section \<open>Translation\<close>

definition allows :: "guest_region \<Rightarrow> guest_access \<Rightarrow> bool" where
  "allows r a \<longleftrightarrow> (a = GuestWrite \<longrightarrow> gr_writable r) \<and> (a = GuestExecute \<longrightarrow> gr_executable r)"

definition covers :: "guest_region \<Rightarrow> nat \<Rightarrow> nat \<Rightarrow> bool" where
  "covers r a n \<longleftrightarrow> gs r \<le> a \<and> a + n \<le> gs r + span r"

text \<open>At most one live region covers a nonempty range.\<close>

lemma covers_unique:
  assumes "mappings_ok n ms" and "l \<in> set ms" "m \<in> set ms" and "covers (gm_region l) a len" "covers (gm_region m) a len" "0 < len"
  shows "l = m"
proof -
  obtain i j where ij: "i < length ms" "j < length ms" "l = ms ! i" "m = ms ! j" using assms(2,3) by (auto simp: in_set_conv_nth)
  have lt: "False" if "i < j" "i < length ms" "j < length ms" "covers (gm_region (ms ! i)) a len" "covers (gm_region (ms ! j)) a len" for i j
  proof -
    have "gs (gm_region (ms ! i)) + span (gm_region (ms ! i)) \<le> gs (gm_region (ms ! j))"
      using assms(1) that(1,3) by (simp add: mappings_ok_def sorted_wrt_iff_nth_less)
    then show False using assms(6) that(4,5) by (simp add: covers_def)
  qed
  show ?thesis using lt [of i j] lt [of j i] ij assms(4,5) by (metis linorder_neqE_nat)
qed

lemma find_region:
  assumes "mappings_ok n ms" and "checked_add guest len = Some e" and "len \<noteq> 0"
  shows "find (\<lambda>r. guest \<ge> gr_guest_start r \<and> e \<le> gr_guest_start r + region_length r) (map gm_region ms) =
     map_option gm_region (find (\<lambda>m. covers (gm_region m) (unat guest) (unat len)) ms)"
proof -
  have ok: "\<forall>m \<in> set ms. region_ok (gm_region m)" using assms(1) by (auto simp: mappings_ok_def)
  have e: "unat e = unat guest + unat len" using checked_add_SomeD(2) [OF assms(2)] .
  have "find (\<lambda>r. guest \<ge> gr_guest_start r \<and> e \<le> gr_guest_start r + region_length r) (map gm_region ms) =
      map_option gm_region (find (\<lambda>m. covers (gm_region m) (unat guest) (unat len)) ms)"
    using ok
    by (induction ms) (auto simp: covers_def e word_le_nat_alt region_unats simp flip: gs_def)
  then show ?thesis .
qed

text \<open>
  The meaning of a translation: the one region that covers the range, its permissions and the
  distance from its start, without overflow.
\<close>

lemma translate_iff:
  assumes "mm_inv g"
  shows "mm_translate guest len access g = Ok h \<longleftrightarrow>
     len \<noteq> 0 \<and> (\<exists>m \<in> set (mm_live g). covers (gm_region m) (unat guest) (unat len) \<and> allows (gm_region m) access \<and>
        unat h = hs (gm_region m) + (unat guest - gs (gm_region m)))"
proof -
  obtain k where ok: "mappings_ok (mm_next_id g) (mm_live g)" and u: "take (mm_count g) (mm_mappings g) = map Some (mm_live g)"
    using mm_invE [OF assms] by metis
  have reg: "region_ok (gm_region m)" if "m \<in> set (mm_live g)" for m using ok that by (auto simp: mappings_ok_def)
  show ?thesis
  proof (cases "len = 0 \<or> checked_add guest len = None")
    case True
    have "\<not> covers (gm_region m) (unat guest) (unat len)" if "checked_add guest len = None" "m \<in> set (mm_live g)" for m
      using reg [OF that(2)] that(1) by (auto simp: covers_def region_ok_def checked_add_None_iff)
    then show ?thesis using True by (auto simp: mm_translate_def)
  next
    case False
    then obtain e where e: "checked_add guest len = Some e" and nz: "len \<noteq> 0" by auto
    note f = find_region [OF ok e nz]
    have pos: "0 < unat len" using nz by (simp add: unat_gt_0)
    show ?thesis
    proof (cases "find (\<lambda>m. covers (gm_region m) (unat guest) (unat len)) (mm_live g)")
      case None
      then have "mm_translate guest len access g = Err Unmapped" using e nz f by (simp add: mm_translate_def u)
      then show ?thesis using None by (auto simp: find_None_iff)
    next
      case (Some m)
      then have m: "m \<in> set (mm_live g)" "covers (gm_region m) (unat guest) (unat len)"
        by (auto simp: find_Some_iff)
      let ?r = "gm_region m"
      have d: "unat (guest - gr_guest_start ?r) = unat guest - gs ?r"
        using m(2) by (simp add: unat_sub word_le_nat_alt covers_def gs_def)
      have "hs ?r + (unat guest - gs ?r) < 2 ^ 64" using reg [OF m(1)] m(2) pos by (auto simp: region_ok_def covers_def)
      then have h: "checked_add (phys_get (gr_host_start ?r)) (guest - gr_guest_start ?r) =
          Some (phys_get (gr_host_start ?r) + (guest - gr_guest_start ?r))" by (simp add: checked_add_def d hs_def)
      have only: "l = m" if "l \<in> set (mm_live g)" "covers (gm_region l) (unat guest) (unat len)" for l
        using covers_unique [OF ok that(1) m(1) that(2) m(2) pos] .
      have "mm_translate guest len access g = Ok h \<longleftrightarrow> allows ?r access \<and> unat h = hs ?r + (unat guest - gs ?r)"
        using nz e f Some h checked_add_SomeD(2) [OF h]
        by (auto simp: mm_translate_def u allows_def d hs_def word_unat_eq_iff)
      then show ?thesis using m only nz by blast
    qed
  qed
qed

section \<open>Properties\<close>

datatype mm_op = MmMap u64 phys_addr u64 bool bool | MmUnmap u64 | MmProtect u64 bool bool

fun mm_exec :: "mm_op \<Rightarrow> guest_memory \<Rightarrow> guest_memory" where
  "mm_exec (MmMap a h n w x) g = (case guest_region_new a h n w x of Err _ \<Rightarrow> g | Ok r \<Rightarrow> snd (mm_map r g))"
| "mm_exec (MmUnmap i) g = snd (mm_unmap i g)"
| "mm_exec (MmProtect i w x) g = snd (mm_protect i w x g)"

definition mm_run :: "mm_op list \<Rightarrow> guest_memory \<Rightarrow> guest_memory" where
  "mm_run ops g = fold mm_exec ops g"

lemma mm_map_inv: "mm_inv g \<Longrightarrow> region_ok r \<Longrightarrow> mm_inv (snd (mm_map r g))"
  by (cases "mm_map r g"; cases "fst (mm_map r g)") (auto dest: mm_map_okD(1) mm_map_errD)

lemma mm_exec_inv: "mm_inv g \<Longrightarrow> mm_inv (mm_exec x g)"
proof (cases x)
  case (MmMap a h n w e)
  assume "mm_inv g"
  then show ?thesis using MmMap by (auto simp: mm_map_inv guest_region_new_ok split: result.splits)
next
  case (MmUnmap i)
  assume inv: "mm_inv g"
  then show ?thesis using MmUnmap by (cases rule: mm_unmap_cases [where i = i]) (simp_all add: inv)
next
  case (MmProtect i w e)
  assume inv: "mm_inv g"
  then show ?thesis using MmProtect by (cases rule: mm_protect_cases [where i = i and w = w and x = e]) (simp_all add: inv)
qed

lemma mm_run_inv: "mm_inv g \<Longrightarrow> mm_inv (mm_run ops g)"
  unfolding mm_run_def by (induction ops arbitrary: g) (simp_all add: mm_exec_inv)

lemma mm_view_append:
  assumes "mappings_ok n ms" and "ms = pre @ m # post"
  shows "map_of (map (\<lambda>m. (gm_id m, gm_region m)) ms) =
     (map_of (map (\<lambda>m. (gm_id m, gm_region m)) (pre @ post)))(gm_id m \<mapsto> gm_region m)"
    and "map_of (map (\<lambda>m. (gm_id m, gm_region m)) (pre @ post)) (gm_id m) = None"
proof -
  have d: "gm_id m \<notin> gm_id ` set pre" "gm_id m \<notin> gm_id ` set post" using assms by (auto simp: mappings_ok_def)
  then have none: "map_of (map (\<lambda>m. (gm_id m, gm_region m)) pre) (gm_id m) = None"
    "map_of (map (\<lambda>m. (gm_id m, gm_region m)) post) (gm_id m) = None"
    by (auto simp: map_of_eq_None_iff image_image)
  then show "map_of (map (\<lambda>m. (gm_id m, gm_region m)) (pre @ post)) (gm_id m) = None"
    by (simp add: map_add_def)
  show "map_of (map (\<lambda>m. (gm_id m, gm_region m)) ms) =
     (map_of (map (\<lambda>m. (gm_id m, gm_region m)) (pre @ post)))(gm_id m \<mapsto> gm_region m)"
    using none(1) by (auto simp: assms(2) fun_eq_iff map_add_def split: option.splits)
qed

text \<open>
  Property C29.  The operations of guest memory implement a partial map from mapping identities to
  regions: mapping binds the next identity, never issued before, to a region that is apart from
  every live one in guest and in host addresses; unmapping and reprotecting act on the one
  identity they name, succeed exactly when it is live (and the protection is not writable and
  executable at once), and leave the table unchanged when they are refused.
\<close>

theorem guest_memory_refines_map:
  assumes "mm_inv g" and "region_ok r"
  shows "(case mm_map r g of
       (Ok k, g') \<Rightarrow> mm_inv g' \<and> k = mm_next_id g \<and> unat (mm_next_id g') = Suc (unat k) \<and> mm_view g k = None \<and>
         mm_view g' = (mm_view g)(k \<mapsto> r) \<and> (\<forall>e \<in> ran (mm_view g). apart gs r e \<and> apart hs r e)
     | (Err _, g') \<Rightarrow> g' = g) \<and>
    (case mm_unmap i g of
       (Ok e, g') \<Rightarrow> mm_inv g' \<and> mm_next_id g' = mm_next_id g \<and> mm_view g i = Some e \<and> mm_view g' = (mm_view g)(i := None)
     | (Err _, g') \<Rightarrow> g' = g \<and> mm_view g i = None) \<and>
    (case mm_protect i w x g of
       (Ok _, g') \<Rightarrow> mm_inv g' \<and> mm_next_id g' = mm_next_id g \<and> \<not> (w \<and> x) \<and> (\<exists>e. mm_view g i = Some e \<and>
         mm_view g' = (mm_view g)(i \<mapsto> e\<lparr>gr_writable := w, gr_executable := x\<rparr>))
     | (Err _, g') \<Rightarrow> g' = g \<and> (w \<and> x \<or> mm_view g i = None))"
    (is "?map \<and> ?unmap \<and> ?protect")
proof (intro conjI)
  have ok: "mappings_ok (mm_next_id g) (mm_live g)" using assms(1) by (simp add: mm_inv_def)
  have none: "mm_view g k = None" if "\<forall>m \<in> set (mm_live g). gm_id m \<noteq> k" for k
    using that by (auto simp: mm_view_def map_of_eq_None_iff)
  show ?map
  proof (cases "mm_map r g")
    case (Pair q g')
    show ?thesis
    proof (cases q)
      case (Ok k)
      note d = mm_map_okD [OF assms Pair [unfolded Ok]]
      obtain pre post where l: "mm_live g = pre @ post" "mm_live g' = pre @ \<lparr>gm_id = k, gm_region = r\<rparr> # post" using d(4) by blast
      have "mappings_ok (mm_next_id g') (mm_live g')" using d(1) by (simp add: mm_inv_def)
      note v = mm_view_append [OF this l(2)]
      have "\<forall>e \<in> ran (mm_view g). apart gs r e \<and> apart hs r e"
        using d(5) by (auto simp: mm_view_def ran_def dest!: map_of_SomeD)
      then show ?thesis using Pair Ok d(1-3) v l by (simp add: mm_view_def)
    next
      case (Err e)
      then show ?thesis using Pair mm_map_errD by fastforce
    qed
  qed
  show ?unmap using assms(1)
  proof (cases rule: mm_unmap_cases [where i = i])
    case (found pre m post)
    have "mm_view g = (mm_view (snd (mm_unmap i g)))(i \<mapsto> gm_region m)" "mm_view (snd (mm_unmap i g)) i = None"
      using mm_view_append [OF ok found(1)] found(2,5) by (simp_all add: mm_view_def)
    then show ?thesis using found(3,4,6) by (auto simp: fun_upd_idem split: prod.splits)
  next
    case stale
    then show ?thesis using none by simp
  qed
  show ?protect using assms(1)
  proof (cases rule: mm_protect_cases [where i = i and w = w and x = x])
    case (found pre m post)
    let ?g = "snd (mm_protect i w x g)" and ?m = "m\<lparr>gm_region := (gm_region m)\<lparr>gr_writable := w, gr_executable := x\<rparr>\<rparr>"
    have ok': "mappings_ok (mm_next_id ?g) (mm_live ?g)" using found(5) by (simp add: mm_inv_def)
    have "mm_view g i = Some (gm_region m)" "mm_view ?g = (mm_view g)(i \<mapsto> gm_region ?m)"
      using mm_view_append [OF ok found(2)] mm_view_append [OF ok' found(6)] found(3) by (simp_all add: mm_view_def)
    then show ?thesis using found(1,4,5,7) by (auto split: prod.splits)
  qed (use none in auto)
qed

definition demo_region :: guest_region where
  "demo_region = \<lparr>gr_guest_start = 0x1000, gr_host_start = PhysAddr 0x200000, gr_pages = 2, gr_writable = True,
     gr_executable = False\<rparr>"

lemma demo_region_new: "guest_region_new 0x1000 (PhysAddr 0x200000) 2 True False = Ok demo_region"
  by (simp add: guest_region_new_def demo_region_def PAGE_SIZE_def checked_mul_def checked_add_def)

theorem guest_memory_refines_map_witness:
  "\<exists>g. mm_map demo_region (mm_new 4) = (Ok 1, g) \<and> mm_view g = [1 \<mapsto> demo_region]"
proof -
  have "fst (mm_map demo_region (mm_new 4)) = Ok 1"
    by (simp add: mm_map_def mm_new_def MAX_GUEST_REGIONS_def Let_def checked_add_def)
  then obtain g where g: "mm_map demo_region (mm_new 4) = (Ok 1, g)" by (metis prod.collapse)
  from guest_memory_refines_map [OF mm_new_inv(1) guest_region_new_ok [OF demo_region_new], of 4] g
  show ?thesis by (simp add: mm_new_inv(2))
qed

text \<open>
  Property C3.  Whatever sequence of mappings, unmappings and protection changes has been made, no
  guest range is both writable and executable, no two guest bytes reach the same host byte, and a
  translated range is contiguous on the host: its every byte translates on its own to the byte at
  the same distance.
\<close>

theorem guest_translation_isolated:
  assumes "g = mm_run ops (mm_new n)"
  shows "(mm_translate a len GuestWrite g = Ok h \<longrightarrow> mm_translate a len GuestExecute g \<noteq> Ok h') \<and>
    (mm_translate a 1 access g = Ok h \<and> mm_translate b 1 access' g = Ok h \<longrightarrow> a = b) \<and>
    (mm_translate a len access g = Ok h \<and> k < len \<longrightarrow> mm_translate (a + k) 1 access g = Ok (h + k))"
proof (intro conjI impI)
  have inv: "mm_inv g" using mm_run_inv [OF mm_new_inv(1)] assms by simp
  then have ok: "mappings_ok (mm_next_id g) (mm_live g)" by (simp add: mm_inv_def)
  note t = translate_iff [OF inv]
  have reg: "region_ok (gm_region m)" if "m \<in> set (mm_live g)" for m using ok that by (auto simp: mappings_ok_def)
  show "mm_translate a len GuestExecute g \<noteq> Ok h'" if w: "mm_translate a len GuestWrite g = Ok h"
  proof
    assume "mm_translate a len GuestExecute g = Ok h'"
    then obtain l m where "l \<in> set (mm_live g)" "m \<in> set (mm_live g)" "covers (gm_region l) (unat a) (unat len)"
        "covers (gm_region m) (unat a) (unat len)" "gr_writable (gm_region l)" "gr_executable (gm_region m)" "0 < unat len"
      using w by (auto simp: t allows_def unat_gt_0)
    then show False using covers_unique [OF ok] reg by (metis region_ok_def)
  qed
  show "a = b" if ab: "mm_translate a 1 access g = Ok h \<and> mm_translate b 1 access' g = Ok h"
  proof -
    from ab obtain l m where lm: "l \<in> set (mm_live g)" "m \<in> set (mm_live g)" "covers (gm_region l) (unat a) 1"
        "covers (gm_region m) (unat b) 1" "unat h = hs (gm_region l) + (unat a - gs (gm_region l))"
        "unat h = hs (gm_region m) + (unat b - gs (gm_region m))" by (auto simp: t)
    have "\<not> apart hs (gm_region l) (gm_region m)" using lm(3-6) by (auto simp: apart_def covers_def)
    moreover have "l = m \<or> apart hs (gm_region l) (gm_region m)" using ok lm(1,2)
      by (auto simp: mappings_ok_def sorted_wrt_iff_nth_less in_set_conv_nth apart_def) (metis linorder_neqE_nat)
    ultimately have "unat a = unat b" using lm(3-6) by (auto simp: covers_def)
    then show ?thesis by (simp add: word_unat_eq_iff)
  qed
  show "mm_translate (a + k) 1 access g = Ok (h + k)" if hk: "mm_translate a len access g = Ok h \<and> k < len"
  proof -
    from hk obtain m where m: "m \<in> set (mm_live g)" "covers (gm_region m) (unat a) (unat len)" "allows (gm_region m) access"
        "unat h = hs (gm_region m) + (unat a - gs (gm_region m))" by (auto simp: t)
    have k: "unat k < unat len" using hk by (simp add: word_less_nat_alt)
    have "unat a + unat k < 2 ^ 64" "unat h + unat k < 2 ^ 64"
      using m(2,4) k reg [OF m(1)] unfolding covers_def region_ok_def by linarith+
    then have "unat (a + k) = unat a + unat k" "unat (h + k) = unat h + unat k" by (simp_all add: unat_word_ariths)
    moreover have "covers (gm_region m) (unat a + unat k) 1" using m(2) k by (simp add: covers_def)
    ultimately show ?thesis using m k unfolding t by (intro conjI bexI [of _ m]) (auto simp: covers_def)
  qed
qed

theorem guest_translation_isolated_witness:
  "let g = mm_run [MmMap 0x1000 (PhysAddr 0x200000) 2 True False] (mm_new 4) in
     mm_translate 0x1010 0x20 GuestWrite g = Ok 0x200010 \<and> mm_translate 0x1018 1 GuestWrite g = Ok 0x200018 \<and>
     mm_translate 0x1010 0x20 GuestExecute g \<noteq> Ok 0x200010"
proof -
  let ?g = "mm_run [MmMap 0x1000 (PhysAddr 0x200000) 2 True False] (mm_new 4)"
  have g: "?g = \<lparr>mm_mappings = [Some \<lparr>gm_id = 1, gm_region = demo_region\<rparr>, None, None, None], mm_count = 1, mm_next_id = 2\<rparr>"
  proof -
    have "replicate 4 None = [None, None, None, None :: guest_mapping option]" by (simp add: eval_nat_numeral)
    then show ?thesis
      by (simp add: mm_run_def demo_region_new mm_map_def mm_new_def MAX_GUEST_REGIONS_def Let_def checked_add_def)
  qed
  have w: "mm_translate 0x1010 0x20 GuestWrite ?g = Ok 0x200010"
    unfolding g by (simp add: mm_translate_def checked_add_def demo_region_def region_length_def PAGE_SIZE_def)
  have "mm_translate (0x1010 + 8) 1 GuestWrite ?g = Ok (0x200010 + 8)"
    using guest_translation_isolated [OF refl, where ops = "[MmMap 0x1000 (PhysAddr 0x200000) 2 True False]" and n = 4 and a = "0x1010" and len = "0x20" and
        h = "0x200010" and k = 8 and access = GuestWrite] w by simp
  moreover have "mm_translate 0x1010 0x20 GuestExecute ?g \<noteq> Ok 0x200010"
    using guest_translation_isolated [OF refl, where ops = "[MmMap 0x1000 (PhysAddr 0x200000) 2 True False]" and n = 4 and a = "0x1010" and len = "0x20" and
        h = "0x200010" and h' = "0x200010"] w by blast
  ultimately show ?thesis using w by (simp add: Let_def)
qed

end
