(* ===== verification/Hypercall.thy ===== *)
theory Hypercall
  imports Guest_Memory
begin

text \<open>
  Hypercalls, after \<open>Hypercall\<close>, \<open>HypercallRouter\<close> and \<open>VmBackend\<close> in \<open>crates/mrml-kernel/src/vm.rs\<close>: the
  64-byte descriptor a guest leaves in its memory, its decoder and encoder, and the router that
  checks sequence, authority and memory before it hands a request on.
\<close>

section \<open>Definitions\<close>

definition HYPERCALL_BYTES :: nat where "HYPERCALL_BYTES = 64"

definition HYPERCALL_MAGIC :: bytes where
  "HYPERCALL_MAGIC = [0x4D, 0x52, 0x4D, 0x4C, 0x48, 0x43, 0x30, 0x31]"

datatype hypercall_operation = HcYield | ToolRequest | GpuRequest | HcShutdown

fun operation_code :: "hypercall_operation \<Rightarrow> u16" where
  "operation_code HcYield = 1"
| "operation_code ToolRequest = 2"
| "operation_code GpuRequest = 3"
| "operation_code HcShutdown = 4"

definition operation_of :: "u16 \<Rightarrow> hypercall_operation option" where
  "operation_of c =
     (if c = 1 then Some HcYield else if c = 2 then Some ToolRequest else if c = 3 then Some GpuRequest
      else if c = 4 then Some HcShutdown else None)"

record hypercall =
  hc_operation :: hypercall_operation
  hc_sequence :: u64
  hc_capability :: capability
  hc_guest_address :: u64
  hc_length :: u32
  hc_argument :: u64

definition yield_call :: "u64 \<Rightarrow> hypercall" where
  "yield_call sequence = \<lparr>hc_operation = HcYield, hc_sequence = sequence, hc_capability = cap_from_token 0,
     hc_guest_address = 0, hc_length = 0, hc_argument = 0\<rparr>"

definition shutdown_call :: "u64 \<Rightarrow> capability \<Rightarrow> hypercall" where
  "shutdown_call sequence cap = \<lparr>hc_operation = HcShutdown, hc_sequence = sequence, hc_capability = cap,
     hc_guest_address = 0, hc_length = 0, hc_argument = 0\<rparr>"

definition request_call ::
  "hypercall_operation \<Rightarrow> u64 \<Rightarrow> capability \<Rightarrow> u64 \<Rightarrow> u32 \<Rightarrow> u64 \<Rightarrow> (hypercall, vm_error) result" where
  "request_call operation sequence cap guest_address len argument =
     (if \<not> (operation = ToolRequest \<or> operation = GpuRequest) \<or> len = 0 then Err MalformedHypercall
      else Ok \<lparr>hc_operation = operation, hc_sequence = sequence, hc_capability = cap,
               hc_guest_address = guest_address, hc_length = len, hc_argument = argument\<rparr>)"

definition read_u16 :: "bytes \<Rightarrow> nat \<Rightarrow> u16" where "read_u16 input at = from_le_bytes (sub_slice input at (at + 2))"
definition read_u32 :: "bytes \<Rightarrow> nat \<Rightarrow> u32" where "read_u32 input at = from_le_bytes (sub_slice input at (at + 4))"
definition read_u64 :: "bytes \<Rightarrow> nat \<Rightarrow> u64" where "read_u64 input at = from_le_bytes (sub_slice input at (at + 8))"

definition hypercall_decode :: "bytes \<Rightarrow> (hypercall, vm_error) result" where
  "hypercall_decode input =
     (if length input \<noteq> HYPERCALL_BYTES \<or> sub_slice input 0 8 \<noteq> HYPERCALL_MAGIC
         \<or> list_ex (\<lambda>b. b \<noteq> 0) (sub_slice input 10 16) \<or> list_ex (\<lambda>b. b \<noteq> 0) (drop 52 input)
      then Err MalformedHypercall
      else case operation_of (read_u16 input 8) of
        None \<Rightarrow> Err UnsupportedHypercall
      | Some operation \<Rightarrow>
          let len = read_u32 input 40 in
          if (operation = ToolRequest \<or> operation = GpuRequest) \<and> len = 0 then Err MalformedHypercall
          else let cap = read_u64 input 24; guest_address = read_u64 input 32; argument = read_u64 input 44 in
          if operation = HcYield \<and> (cap \<noteq> 0 \<or> guest_address \<noteq> 0 \<or> len \<noteq> 0 \<or> argument \<noteq> 0)
          then Err MalformedHypercall
          else if operation = HcShutdown \<and> (guest_address \<noteq> 0 \<or> len \<noteq> 0 \<or> argument \<noteq> 0)
          then Err MalformedHypercall
          else Ok \<lparr>hc_operation = operation, hc_sequence = read_u64 input 16, hc_capability = cap_from_token cap,
                   hc_guest_address = guest_address, hc_length = len, hc_argument = argument\<rparr>)"

definition hypercall_encode :: "hypercall \<Rightarrow> bytes" where
  "hypercall_encode h =
     HYPERCALL_MAGIC @ to_le_bytes 2 (operation_code (hc_operation h)) @ replicate 6 0 @
     to_le_bytes 8 (hc_sequence h) @ to_le_bytes 8 (cap_token (hc_capability h)) @
     to_le_bytes 8 (hc_guest_address h) @ to_le_bytes 4 (hc_length h) @ to_le_bytes 8 (hc_argument h) @ replicate 12 0"

datatype routed_hypercall = RoutedYield | RoutedTool u64 u32 u64 | RoutedGpu u64 u32 u64 | RoutedShutdown

datatype vm_exit =
  ExitHypercall u64 | ExitMemoryFault u64 guest_access | ExitIo u16 u8 bool u32 | ExitMmio u64 u8 bool u64
| ExitHalted | ExitInterrupted | ExitUnknown u64

datatype 'e vm_run_error = RunBackend 'e | RunPolicy vm_error

text \<open>
  The contract of a hypervisor adapter: its operations on its own state \<open>'b\<close>, with errors \<open>'e\<close>.  A read
  fills the caller's buffer of the given size.
\<close>

record ('b, 'e) vm_backend =
  vb_run :: "u32 \<Rightarrow> 'b \<Rightarrow> (vm_exit, 'e) result \<times> 'b"
  vb_read_guest :: "'b \<Rightarrow> u64 \<Rightarrow> nat \<Rightarrow> (bytes, 'e) result"
  vb_write_guest :: "u64 \<Rightarrow> bytes \<Rightarrow> 'b \<Rightarrow> (unit, 'e) result \<times> 'b"
  vb_inject_interrupt :: "u32 \<Rightarrow> u8 \<Rightarrow> 'b \<Rightarrow> (unit, 'e) result \<times> 'b"

definition decode_hypercall_exit ::
  "('b, 'e) vm_backend \<Rightarrow> 'b \<Rightarrow> vm_exit \<Rightarrow> (hypercall option, 'e vm_run_error) result" where
  "decode_hypercall_exit vb b exit =
     (case exit of
        ExitHypercall descriptor_address \<Rightarrow>
          (case vb_read_guest vb b descriptor_address HYPERCALL_BYTES of
             Err e \<Rightarrow> Err (RunBackend e)
           | Ok wire \<Rightarrow>
               (case hypercall_decode wire of Ok h \<Rightarrow> Ok (Some h) | Err e \<Rightarrow> Err (RunPolicy e)))
      | _ \<Rightarrow> Ok None)"

record hypercall_router =
  hr_next_sequence :: u64
  hr_tool_object :: object_id
  hr_gpu_object :: object_id
  hr_control_object :: object_id

definition router_new :: "object_id \<Rightarrow> object_id \<Rightarrow> object_id \<Rightarrow> hypercall_router" where
  "router_new tool gpu control = \<lparr>hr_next_sequence = 1, hr_tool_object = tool, hr_gpu_object = gpu,
     hr_control_object = control\<rparr>"

definition require_object ::
  "capability_space \<Rightarrow> capability \<Rightarrow> rights \<Rightarrow> object_id \<Rightarrow> (unit, vm_error) result" where
  "require_object s cap q expected =
     (case cap_authorize s cap q of
        Err e \<Rightarrow> Err (VmCapability e)
      | Ok obj \<Rightarrow> if obj = expected then Ok () else Err WrongObject)"

definition route_target ::
  "hypercall_router \<Rightarrow> hypercall \<Rightarrow> capability_space \<Rightarrow> guest_memory \<Rightarrow> (routed_hypercall, vm_error) result" where
  "route_target hr call s memory =
     (case hc_operation call of
        HcYield \<Rightarrow> Ok RoutedYield
      | ToolRequest \<Rightarrow>
          (case require_object s (hc_capability call) SIGNAL (hr_tool_object hr) of
             Err e \<Rightarrow> Err e
           | Ok _ \<Rightarrow>
               (case mm_translate (hc_guest_address call) (ucast (hc_length call)) GuestRead memory of
                  Err e \<Rightarrow> Err e
                | Ok h \<Rightarrow> Ok (RoutedTool h (hc_length call) (hc_argument call))))
      | GpuRequest \<Rightarrow>
          (case require_object s (hc_capability call) SIGNAL (hr_gpu_object hr) of
             Err e \<Rightarrow> Err e
           | Ok _ \<Rightarrow>
               (case mm_translate (hc_guest_address call) (ucast (hc_length call)) GuestRead memory of
                  Err e \<Rightarrow> Err e
                | Ok h \<Rightarrow> Ok (RoutedGpu h (hc_length call) (hc_argument call))))
      | HcShutdown \<Rightarrow>
          (case require_object s (hc_capability call) SIGNAL (hr_control_object hr) of
             Err e \<Rightarrow> Err e
           | Ok _ \<Rightarrow> Ok RoutedShutdown))"

definition route ::
  "hypercall \<Rightarrow> capability_space \<Rightarrow> guest_memory \<Rightarrow> hypercall_router \<Rightarrow>
     (routed_hypercall, vm_error) result \<times> hypercall_router" where
  "route call s memory hr =
     (if hc_sequence call \<noteq> hr_next_sequence hr then (Err VmReplay, hr)
      else case route_target hr call s memory of
        Err e \<Rightarrow> (Err e, hr)
      | Ok routed \<Rightarrow>
          (case checked_add (hr_next_sequence hr) 1 of
             None \<Rightarrow> (Err VmSequenceExhausted, hr)
           | Some n \<Rightarrow> (Ok routed, hr\<lparr>hr_next_sequence := n\<rparr>)))"

section \<open>The descriptor codec\<close>

definition hypercall_wf :: "hypercall \<Rightarrow> bool" where
  "hypercall_wf h \<longleftrightarrow>
     (case hc_operation h of
        HcYield \<Rightarrow> h = yield_call (hc_sequence h)
      | HcShutdown \<Rightarrow> h = shutdown_call (hc_sequence h) (hc_capability h)
      | _ \<Rightarrow> hc_length h \<noteq> 0)"

lemma operation_of_code [simp]: "operation_of (operation_code x) = Some x"
  by (cases x) (simp_all add: operation_of_def)

lemma operation_of_SomeD: "operation_of c = Some x \<Longrightarrow> c = operation_code x"
  by (auto simp: operation_of_def split: if_splits)

lemma encode_fields:
  fixes h :: hypercall
  defines "w \<equiv> hypercall_encode h"
  shows "length w = 64" "sub_slice w 0 8 = HYPERCALL_MAGIC" "sub_slice w 8 10 = to_le_bytes 2 (operation_code (hc_operation h))"
    and "sub_slice w 10 16 = replicate 6 0" "sub_slice w 16 24 = to_le_bytes 8 (hc_sequence h)"
    and "sub_slice w 24 32 = to_le_bytes 8 (cap_token (hc_capability h))"
    and "sub_slice w 32 40 = to_le_bytes 8 (hc_guest_address h)" "sub_slice w 40 44 = to_le_bytes 4 (hc_length h)"
    and "sub_slice w 44 52 = to_le_bytes 8 (hc_argument h)" "drop 52 w = replicate 12 0"
  unfolding w_def by (simp_all add: hypercall_encode_def HYPERCALL_MAGIC_def sub_slice_def)

lemma decode_encode:
  assumes "hypercall_wf h"
  shows "hypercall_decode (hypercall_encode h) = Ok h"
proof -
  note f = encode_fields [of h]
  have r: "read_u16 (hypercall_encode h) 8 = operation_code (hc_operation h)" "read_u32 (hypercall_encode h) 40 = hc_length h"
    "read_u64 (hypercall_encode h) 16 = hc_sequence h" "read_u64 (hypercall_encode h) 24 = cap_token (hc_capability h)"
    "read_u64 (hypercall_encode h) 32 = hc_guest_address h" "read_u64 (hypercall_encode h) 44 = hc_argument h"
    by (simp_all add: read_u16_def read_u32_def read_u64_def f)
  show ?thesis using assms
    unfolding hypercall_decode_def r f Let_def HYPERCALL_BYTES_def operation_of_code
    by (cases h; cases "hc_operation h") (auto simp: hypercall_wf_def yield_call_def shutdown_call_def list_ex_iff)
qed

lemma descriptor_split:
  assumes "length w = 64"
  shows "w = sub_slice w 0 8 @ sub_slice w 8 10 @ sub_slice w 10 16 @ sub_slice w 16 24 @ sub_slice w 24 32 @
     sub_slice w 32 40 @ sub_slice w 40 44 @ sub_slice w 44 52 @ drop 52 w"
proof -
  have "w = sub_slice w 0 64" using assms by (simp add: sub_slice_def)
  also have "\<dots> = sub_slice w 0 8 @ sub_slice w 8 10 @ sub_slice w 10 16 @ sub_slice w 16 24 @ sub_slice w 24 32 @
     sub_slice w 32 40 @ sub_slice w 40 44 @ sub_slice w 44 52 @ sub_slice w 52 64"
    by (simp add: sub_slice_append flip: append_assoc)
  also have "sub_slice w 52 64 = drop 52 w" using assms by (simp add: sub_slice_def)
  finally show ?thesis .
qed

lemma hypercall_decode_okD:
  assumes "hypercall_decode w = Ok h"
  shows "hypercall_wf h \<and> hypercall_encode h = w"
proof -
  from assms have w: "length w = 64" "sub_slice w 0 8 = HYPERCALL_MAGIC" "\<forall>b \<in> set (sub_slice w 10 16). b = 0"
      "\<forall>b \<in> set (drop 52 w). b = 0"
    by (auto simp: hypercall_decode_def HYPERCALL_BYTES_def list_ex_iff split: if_splits)
  obtain x where x: "operation_of (read_u16 w 8) = Some x"
    using assms by (auto simp: hypercall_decode_def split: if_splits option.splits)
  have h: "hc_operation h = x" "hc_sequence h = read_u64 w 16" "hc_capability h = cap_from_token (read_u64 w 24)"
    "hc_guest_address h = read_u64 w 32" "hc_length h = read_u32 w 40" "hc_argument h = read_u64 w 44"
    using assms by (auto simp: hypercall_decode_def x Let_def split: if_splits)
  have "hypercall_wf h" using assms h
    by (cases h; cases x) (auto simp: hypercall_decode_def x Let_def hypercall_wf_def yield_call_def shutdown_call_def split: if_splits)
  moreover have "hypercall_encode h = w"
  proof -
    have z: "replicate 6 0 = sub_slice w 10 16" "replicate 12 0 = drop 52 w"
      using w by (auto intro!: zeros_eq_replicate [symmetric] simp: length_sub_slice)
    have b: "to_le_bytes 2 (read_u16 w 8) = sub_slice w 8 10" "to_le_bytes 8 (read_u64 w 16) = sub_slice w 16 24"
      "to_le_bytes 8 (read_u64 w 24) = sub_slice w 24 32" "to_le_bytes 8 (read_u64 w 32) = sub_slice w 32 40"
      "to_le_bytes 4 (read_u32 w 40) = sub_slice w 40 44" "to_le_bytes 8 (read_u64 w 44) = sub_slice w 44 52"
      using w(1) by (simp_all add: read_u16_def read_u32_def read_u64_def length_sub_slice)
    show ?thesis unfolding hypercall_encode_def h operation_of_SomeD [OF x, symmetric] cap_token_from_token z b w(2) [symmetric]
      by (rule descriptor_split [OF w(1), symmetric])
  qed
  ultimately show ?thesis by simp
qed

interpretation descriptor: codec hypercall_encode hypercall_decode hypercall_wf
  by unfold_locales (simp_all add: decode_encode hypercall_decode_okD)

lemma constructors_wf:
  "hypercall_wf (yield_call n)" "hypercall_wf (shutdown_call n c)"
  "request_call x n c a l g = Ok h \<Longrightarrow> hypercall_wf h"
  by (auto simp: hypercall_wf_def yield_call_def shutdown_call_def request_call_def split: if_splits hypercall_operation.splits)

section \<open>Properties\<close>

text \<open>
  The hypercall descriptor is canonical: a byte string decodes to a call exactly when it is
  the encoding of a well-formed call, and the well-formed calls are exactly those the three
  constructors build.
\<close>

theorem hypercall_canonical:
  "(hypercall_decode w = Ok h \<longleftrightarrow> hypercall_wf h \<and> w = hypercall_encode h) \<and>
   (hypercall_wf h \<longleftrightarrow> (\<exists>n. h = yield_call n) \<or> (\<exists>n c. h = shutdown_call n c) \<or>
      (\<exists>x n c a l g. request_call x n c a l g = Ok h))"
proof
  show "hypercall_decode w = Ok h \<longleftrightarrow> hypercall_wf h \<and> w = hypercall_encode h" by (rule descriptor.dec_iff)
  have req: "request_call (hc_operation h) (hc_sequence h) (hc_capability h) (hc_guest_address h) (hc_length h) (hc_argument h) = Ok h"
    if "hc_operation h = ToolRequest \<or> hc_operation h = GpuRequest" "hc_length h \<noteq> 0"
    using that by (cases h) (auto simp: request_call_def)
  have "hypercall_wf h \<Longrightarrow> (\<exists>n. h = yield_call n) \<or> (\<exists>n c. h = shutdown_call n c) \<or>
      (\<exists>x n c a l g. request_call x n c a l g = Ok h)"
    using req by (cases "hc_operation h") (auto simp: hypercall_wf_def)
  then show "hypercall_wf h \<longleftrightarrow> (\<exists>n. h = yield_call n) \<or> (\<exists>n c. h = shutdown_call n c) \<or>
      (\<exists>x n c a l g. request_call x n c a l g = Ok h)" using constructors_wf by blast
qed

text \<open>Routing a whole stream of calls; the capability space and the memory may change in between.\<close>

fun route_stream ::
  "hypercall_router \<Rightarrow> (hypercall \<times> capability_space \<times> guest_memory) list \<Rightarrow> u64 list" where
  "route_stream hr [] = []"
| "route_stream hr ((call, s, memory) # cs) =
     (case route call s memory hr of
        (Ok _, hr') \<Rightarrow> hc_sequence call # route_stream hr' cs
      | (Err _, hr') \<Rightarrow> route_stream hr' cs)"

lemma route_okD:
  assumes "route call s memory hr = (Ok x, hr')"
  shows "hc_sequence call = hr_next_sequence hr" "route_target hr call s memory = Ok x"
    and "\<exists>n. hr' = hr\<lparr>hr_next_sequence := n\<rparr> \<and> unat n = Suc (unat (hc_sequence call))"
  using assms checked_add_1_SomeD [of "hr_next_sequence hr"]
  by (auto simp: route_def split: if_splits result.splits option.splits)

lemma route_errD: "route call s memory hr = (Err e, hr') \<Longrightarrow> hr' = hr"
  by (auto simp: route_def split: if_splits result.splits option.splits)

lemma route_stream_consecutive:
  "map unat (route_stream hr cs) = [unat (hr_next_sequence hr)..<unat (hr_next_sequence hr) + length (route_stream hr cs)]"
proof (induction cs arbitrary: hr)
  case (Cons c cs)
  obtain call s memory where c: "c = (call, s, memory)" by (metis prod_cases3)
  obtain r hr' where r: "route call s memory hr = (r, hr')" by fastforce
  show ?case
  proof (cases r)
    case (Ok x)
    obtain n where "hr' = hr\<lparr>hr_next_sequence := n\<rparr>" "unat n = Suc (unat (hr_next_sequence hr))"
      using route_okD(1,3) [OF r [unfolded Ok]] by auto
    then show ?thesis using Cons.IH [of hr'] route_okD(1) [OF r [unfolded Ok]] Ok r c by (simp add: upt_conv_Cons del: upt_Suc)
  next
    case (Err e)
    then show ?thesis using Cons.IH [of hr'] route_errD [OF r [unfolded Err]] r c by simp
  qed
qed simp

text \<open>
  A router hands a tool or GPU request on only under a capability of the caller that signals
  exactly the object of that service, and with the host address of a guest range that is mapped
  as a whole; a shutdown needs the control object; a refusal changes nothing.  Over any stream of
  calls those accepted carry the sequence numbers 1, 2, 3 and so on, each once.
\<close>

theorem hypercall_routing:
  "(case route call s memory hr of
      (Err e, hr') \<Rightarrow> hr' = hr
    | (Ok RoutedYield, _) \<Rightarrow> hc_operation call = HcYield
    | (Ok (RoutedTool h l g), _) \<Rightarrow> hc_operation call = ToolRequest \<and>
        cap_authorize s (hc_capability call) SIGNAL = Ok (hr_tool_object hr) \<and> l = hc_length call \<and> g = hc_argument call \<and>
        mm_translate (hc_guest_address call) (ucast l) GuestRead memory = Ok h
    | (Ok (RoutedGpu h l g), _) \<Rightarrow> hc_operation call = GpuRequest \<and>
        cap_authorize s (hc_capability call) SIGNAL = Ok (hr_gpu_object hr) \<and> l = hc_length call \<and> g = hc_argument call \<and>
        mm_translate (hc_guest_address call) (ucast l) GuestRead memory = Ok h
    | (Ok RoutedShutdown, _) \<Rightarrow> hc_operation call = HcShutdown \<and>
        cap_authorize s (hc_capability call) SIGNAL = Ok (hr_control_object hr)) \<and>
   map unat (route_stream (router_new t u c) cs) = [1..<Suc (length (route_stream (router_new t u c) cs))]"
proof
  have target: "case x of
      RoutedYield \<Rightarrow> hc_operation call = HcYield
    | RoutedTool h l g \<Rightarrow> hc_operation call = ToolRequest \<and>
        cap_authorize s (hc_capability call) SIGNAL = Ok (hr_tool_object hr) \<and> l = hc_length call \<and> g = hc_argument call \<and>
        mm_translate (hc_guest_address call) (ucast l) GuestRead memory = Ok h
    | RoutedGpu h l g \<Rightarrow> hc_operation call = GpuRequest \<and>
        cap_authorize s (hc_capability call) SIGNAL = Ok (hr_gpu_object hr) \<and> l = hc_length call \<and> g = hc_argument call \<and>
        mm_translate (hc_guest_address call) (ucast l) GuestRead memory = Ok h
    | RoutedShutdown \<Rightarrow> hc_operation call = HcShutdown \<and>
        cap_authorize s (hc_capability call) SIGNAL = Ok (hr_control_object hr)"
    if "route_target hr call s memory = Ok x" for x
    using that
    by (auto simp: route_target_def require_object_def split: hypercall_operation.splits result.splits if_splits)
  show "case route call s memory hr of
      (Err e, hr') \<Rightarrow> hr' = hr
    | (Ok RoutedYield, _) \<Rightarrow> hc_operation call = HcYield
    | (Ok (RoutedTool h l g), _) \<Rightarrow> hc_operation call = ToolRequest \<and>
        cap_authorize s (hc_capability call) SIGNAL = Ok (hr_tool_object hr) \<and> l = hc_length call \<and> g = hc_argument call \<and>
        mm_translate (hc_guest_address call) (ucast l) GuestRead memory = Ok h
    | (Ok (RoutedGpu h l g), _) \<Rightarrow> hc_operation call = GpuRequest \<and>
        cap_authorize s (hc_capability call) SIGNAL = Ok (hr_gpu_object hr) \<and> l = hc_length call \<and> g = hc_argument call \<and>
        mm_translate (hc_guest_address call) (ucast l) GuestRead memory = Ok h
    | (Ok RoutedShutdown, _) \<Rightarrow> hc_operation call = HcShutdown \<and>
        cap_authorize s (hc_capability call) SIGNAL = Ok (hr_control_object hr)"
    using route_errD target route_okD(2)
    by (cases "route call s memory hr"; cases "fst (route call s memory hr)")
      (fastforce split: routed_hypercall.splits)+
  show "map unat (route_stream (router_new t u c) cs) = [1..<Suc (length (route_stream (router_new t u c) cs))]"
    using route_stream_consecutive [of "router_new t u c" cs] by (simp add: router_new_def)
qed

end
