(* ===== verification/Vm_Dispatch.thy ===== *)
theory Vm_Dispatch
  imports Hypercall
begin

text \<open>
  Dispatch of virtual-machine exits and injection of interrupts, after
  \<open>crates/mrml-kernel/src/vm_dispatch.rs\<close> and \<open>vm_interrupt.rs\<close>.  The hypervisor adapter is a parameter.
\<close>

section \<open>Definitions: port policy\<close>

definition MAX_IO_PORT_RULES :: nat where "MAX_IO_PORT_RULES = 32"

datatype io_direction = IoRead | IoWrite | IoBoth

record io_port_rule =
  io_port :: u16
  io_size :: u8
  io_direction :: io_direction

definition rule_new :: "u16 \<Rightarrow> u8 \<Rightarrow> io_direction \<Rightarrow> (io_port_rule, vm_error) result" where
  "rule_new port sz direction =
     (if \<not> (sz = 1 \<or> sz = 2 \<or> sz = 4) then Err InvalidIo
      else Ok \<lparr>io_port = port, io_size = sz, io_direction = direction\<rparr>)"

definition rule_permits :: "io_port_rule \<Rightarrow> u16 \<Rightarrow> u8 \<Rightarrow> bool \<Rightarrow> bool" where
  "rule_permits r port sz write \<longleftrightarrow> io_port r = port \<and> io_size r = sz \<and>
     (case io_direction r of IoBoth \<Rightarrow> True | IoWrite \<Rightarrow> write | IoRead \<Rightarrow> \<not> write)"

record io_port_policy =
  ip_rules :: "io_port_rule option list"
  ip_count :: nat

definition io_deny_all :: "nat \<Rightarrow> io_port_policy" where
  "io_deny_all n = \<lparr>ip_rules = replicate n None, ip_count = 0\<rparr>"

definition io_allow :: "io_port_rule \<Rightarrow> io_port_policy \<Rightarrow> (unit, vm_error) result \<times> io_port_policy" where
  "io_allow r p =
     (if length (ip_rules p) > MAX_IO_PORT_RULES \<or> ip_count p = length (ip_rules p) then (Err IoPolicyFull, p)
      else if list_ex (\<lambda>e. io_port e = io_port r \<and> io_size e = io_size r) (flatten (take (ip_count p) (ip_rules p)))
      then (Err InvalidIo, p)
      else (Ok (), p\<lparr>ip_rules := (ip_rules p)[ip_count p := Some r], ip_count := ip_count p + 1\<rparr>))"

definition io_permits :: "io_port_policy \<Rightarrow> u16 \<Rightarrow> u8 \<Rightarrow> bool \<Rightarrow> bool" where
  "io_permits p port sz write \<longleftrightarrow>
     list_ex (\<lambda>r. rule_permits r port sz write) (flatten (take (ip_count p) (ip_rules p)))"

section \<open>Definitions: exits\<close>

datatype exit_disposition =
  DispResume | DispYield | DispTool u64 u32 u64 | DispGpu u64 u32 u64 | DispIo u16 u8 bool u32 | DispStopped

definition disposition_of :: "routed_hypercall \<Rightarrow> exit_disposition" where
  "disposition_of x =
     (case x of
        RoutedYield \<Rightarrow> DispYield
      | RoutedTool h l a \<Rightarrow> DispTool h l a
      | RoutedGpu h l a \<Rightarrow> DispGpu h l a
      | RoutedShutdown \<Rightarrow> DispStopped)"

definition dispatch_inner ::
  "('b, 'e) vm_backend \<Rightarrow> 'b \<Rightarrow> vm_exit \<Rightarrow> capability_space \<Rightarrow> guest_memory \<Rightarrow> io_port_policy \<Rightarrow> hypercall_router \<Rightarrow>
     (exit_disposition, 'e vm_run_error) result \<times> hypercall_router" where
  "dispatch_inner vb b exit s memory io hr =
     (case exit of
        ExitHypercall _ \<Rightarrow>
          (case decode_hypercall_exit vb b exit of
             Err e \<Rightarrow> (Err e, hr)
           | Ok None \<Rightarrow> (Err (RunPolicy UnhandledExit), hr)
           | Ok (Some call) \<Rightarrow>
               (case route call s memory hr of
                  (Err e, hr) \<Rightarrow> (Err (RunPolicy e), hr)
                | (Ok x, hr) \<Rightarrow> (Ok (disposition_of x), hr)))
      | ExitIo port sz write v \<Rightarrow>
          if io_permits io port sz write then (Ok (DispIo port sz write v), hr)
          else (Err (RunPolicy IoDenied), hr)
      | ExitInterrupted \<Rightarrow> (Ok DispResume, hr)
      | ExitHalted \<Rightarrow> (Ok DispStopped, hr)
      | ExitMemoryFault _ _ \<Rightarrow> (Err (RunPolicy UnhandledExit), hr)
      | ExitMmio _ _ _ _ \<Rightarrow> (Err (RunPolicy UnhandledExit), hr)
      | ExitUnknown _ \<Rightarrow> (Err (RunPolicy UnhandledExit), hr))"

definition dispatch_vm_exit ::
  "('b, 'e) vm_backend \<Rightarrow> 'b \<Rightarrow> vm_id \<Rightarrow> vm_exit \<Rightarrow> capability_space \<Rightarrow> guest_memory \<Rightarrow> io_port_policy \<Rightarrow>
     vm_table \<Rightarrow> hypercall_router \<Rightarrow>
     (exit_disposition, 'e vm_run_error) result \<times> vm_table \<times> hypercall_router" where
  "dispatch_vm_exit vb b vm exit s memory io vms hr =
     (case vt_account_exit vm vms of
        (Err e, vms) \<Rightarrow> (Err (RunPolicy e), vms, hr)
      | (Ok _, vms) \<Rightarrow>
          (case dispatch_inner vb b exit s memory io hr of
             (Err e, hr) \<Rightarrow> (Err e, snd (vt_fail vm vms), hr)
           | (Ok d, hr) \<Rightarrow>
               if d = DispStopped then
                 (case vt_stop vm vms of
                    (Err e, vms) \<Rightarrow> (Err (RunPolicy e), vms, hr)
                  | (Ok _, vms) \<Rightarrow> (Ok d, vms, hr))
               else (Ok d, vms, hr)))"

definition run_vm_once ::
  "('b, 'e) vm_backend \<Rightarrow> u32 \<Rightarrow> vm_id \<Rightarrow> capability_space \<Rightarrow> guest_memory \<Rightarrow> io_port_policy \<Rightarrow>
     'b \<Rightarrow> vm_table \<Rightarrow> hypercall_router \<Rightarrow>
     (exit_disposition, 'e vm_run_error) result \<times> 'b \<times> vm_table \<times> hypercall_router" where
  "run_vm_once vb vcpu vm s memory io b vms hr =
     (case vb_run vb vcpu b of
        (Err e, b) \<Rightarrow> (Err (RunBackend e), b, snd (vt_fail vm vms), hr)
      | (Ok exit, b) \<Rightarrow>
          let (r, vms, hr) = dispatch_vm_exit vb b vm exit s memory io vms hr in (r, b, vms, hr))"

section \<open>Definitions: interrupts\<close>

definition FIRST_EXTERNAL_VECTOR :: u8 where "FIRST_EXTERNAL_VECTOR = 32"
definition LAST_EXTERNAL_VECTOR :: u8 where "LAST_EXTERNAL_VECTOR = 254"

record interrupt_policy =
  it_words :: "u64 list"

definition it_deny_all :: interrupt_policy where
  "it_deny_all = \<lparr>it_words = replicate 4 0\<rparr>"

definition external_vector :: "u8 \<Rightarrow> bool" where
  "external_vector v \<longleftrightarrow> FIRST_EXTERNAL_VECTOR \<le> v \<and> v \<le> LAST_EXTERNAL_VECTOR"

definition it_allow :: "u8 \<Rightarrow> interrupt_policy \<Rightarrow> (unit, vm_error) result \<times> interrupt_policy" where
  "it_allow v p =
     (if \<not> external_vector v then (Err InterruptDenied, p)
      else let k = unat v div 64 in
        (Ok (), p\<lparr>it_words := (it_words p)[k := it_words p ! k OR push_bit (unat v mod 64) 1]\<rparr>))"

definition it_deny :: "u8 \<Rightarrow> interrupt_policy \<Rightarrow> interrupt_policy" where
  "it_deny v p =
     (let k = unat v div 64 in
      p\<lparr>it_words := (it_words p)[k := it_words p ! k AND NOT (push_bit (unat v mod 64) 1)]\<rparr>)"

definition it_permits :: "interrupt_policy \<Rightarrow> u8 \<Rightarrow> bool" where
  "it_permits p v \<longleftrightarrow> external_vector v \<and> it_words p ! (unat v div 64) AND push_bit (unat v mod 64) 1 \<noteq> 0"

definition inject_vm_interrupt ::
  "('b, 'e) vm_backend \<Rightarrow> vm_id \<Rightarrow> u32 \<Rightarrow> u8 \<Rightarrow> interrupt_policy \<Rightarrow> capability_space \<Rightarrow> capability \<Rightarrow> object_id \<Rightarrow>
     'b \<Rightarrow> vm_table \<Rightarrow> (unit, 'e vm_run_error) result \<times> 'b \<times> vm_table" where
  "inject_vm_interrupt vb vm vcpu v p s cap interrupt_object b vms =
     (case vt_state vms vm of
        Err e \<Rightarrow> (Err (RunPolicy e), b, vms)
      | Ok st \<Rightarrow>
      if st \<noteq> Running then (Err (RunPolicy InvalidVmState), b, vms)
      else if \<not> it_permits p v then (Err (RunPolicy InterruptDenied), b, vms)
      else case cap_authorize s cap SIGNAL of
        Err e \<Rightarrow> (Err (RunPolicy (VmCapability e)), b, vms)
      | Ok obj \<Rightarrow>
      if obj \<noteq> interrupt_object then (Err (RunPolicy WrongObject), b, vms)
      else case vb_inject_interrupt vb vcpu v b of
        (Err e, b) \<Rightarrow> (Err (RunBackend e), b, snd (vt_fail vm vms))
      | (Ok _, b) \<Rightarrow> (Ok (), b, vms))"

section \<open>Lemmas\<close>

text \<open>The three edits of a running machine that dispatch makes.\<close>

lemma fail_view:
  assumes "vt_inv t" and "vt_view t i = Some (a, x, b)"
  shows "vt_view (snd (vt_fail i t)) = (vt_view t)(i \<mapsto> (Failed, x, b))" "vt_inv (snd (vt_fail i t))"
proof -
  obtain s where s: "vt_slot t i = Ok s" "vm_content s = (a, x, b)"
    using assms(2) by (auto simp: vt_view_def split: result.splits)
  have e: "vm_edit (\<lambda>s. (Ok (), s\<lparr>vs_state := Failed\<rparr>))" using edits_ok(4) by (simp add: edit_ok_def)
  note l = vt_slot_mut_laws [OF assms(1) e, of i]
  show "vt_view (snd (vt_fail i t)) = (vt_view t)(i \<mapsto> (Failed, x, b))" using l(2) s by (simp add: vt_fail_def)
  show "vt_inv (snd (vt_fail i t))" using l(1) by (simp add: vt_fail_def)
qed

lemma stop_view:
  assumes "vt_inv t" and "vt_view t i = Some (Running, x, b)"
  shows "vt_view (snd (vt_stop i t)) = (vt_view t)(i \<mapsto> (Stopped, x, b))" "vt_inv (snd (vt_stop i t))"
    and "fst (vt_stop i t) = Ok ()"
proof -
  obtain s where s: "vt_slot t i = Ok s" "vm_content s = (Running, x, b)"
    using assms(2) by (auto simp: vt_view_def split: result.splits)
  have e: "vm_edit (\<lambda>s. if vs_state s \<noteq> Running then (Err InvalidVmState, s) else (Ok (), s\<lparr>vs_state := Stopped\<rparr>))"
    using edits_ok(2) by (simp add: edit_ok_def)
  note l = vt_slot_mut_laws [OF assms(1) e, of i]
  show "vt_view (snd (vt_stop i t)) = (vt_view t)(i \<mapsto> (Stopped, x, b))"
    using l(2) s by (simp add: vt_stop_def vt_transition_def)
  show "vt_inv (snd (vt_stop i t))" using l(1) by (simp add: vt_stop_def vt_transition_def)
  show "fst (vt_stop i t) = Ok ()" using s by (simp add: vt_stop_def vt_transition_def vt_slot_mut_def split_beta)
qed

lemma account_view:
  assumes "vt_inv t" and "vt_view t i = Some (Running, x, b)" and "x \<noteq> - 1"
  shows "vt_view (snd (vt_account_exit i t)) = (vt_view t)(i \<mapsto> (if x < b then Running else Failed, x + 1, b))"
    and "fst (vt_account_exit i t) = (if x < b then Ok (b - (x + 1)) else Err ExitBudgetExceeded)"
    and "vt_inv (snd (vt_account_exit i t))"
proof -
  obtain s where s: "vt_slot t i = Ok s" "vm_content s = (Running, x, b)"
    using assms(2) by (auto simp: vt_view_def split: result.splits)
  have e: "vm_edit (\<lambda>s. if vs_state s \<noteq> Running then (Err InvalidVmState, s)
     else case checked_add (vs_exits s) 1 of
       None \<Rightarrow> (Err ExitBudgetExceeded, s)
     | Some exits \<Rightarrow>
         let s = s\<lparr>vs_exits := exits\<rparr> in
         if exits > vs_exit_budget s then (Err ExitBudgetExceeded, s\<lparr>vs_state := Failed\<rparr>)
         else (Ok (vs_exit_budget s - exits), s))" using edits_ok(5) by (simp add: edit_ok_def)
  note l = vt_slot_mut_laws [OF assms(1) e, of i]
  have c: "checked_add x 1 = Some (x + 1)" using checked_add_1_None_iff [of x] assms(3) by (auto simp: checked_add_def split: if_splits)
  have le: "b < x + 1 \<longleftrightarrow> \<not> x < b"
    using checked_add_1_SomeD [OF c] by (simp add: word_less_nat_alt) linarith
  show "vt_view (snd (vt_account_exit i t)) = (vt_view t)(i \<mapsto> (if x < b then Running else Failed, x + 1, b))"
    using l(2) s by (simp add: vt_account_exit_def c Let_def le)
  show "fst (vt_account_exit i t) = (if x < b then Ok (b - (x + 1)) else Err ExitBudgetExceeded)"
    using s by (simp add: vt_account_exit_def vt_slot_mut_eq c Let_def le)
  show "vt_inv (snd (vt_account_exit i t))" using l(1) by (simp add: vt_account_exit_def)
qed

text \<open>
  What the policy lets through, exit by exit, and what becomes of the router: stated from the rules, the
  capabilities and the guest memory alone.
\<close>

definition call_allowed :: "capability_space \<Rightarrow> guest_memory \<Rightarrow> hypercall_router \<Rightarrow> hypercall \<Rightarrow> exit_disposition \<Rightarrow> bool" where
  "call_allowed s memory hr call d \<longleftrightarrow>
     (case hc_operation call of
        HcYield \<Rightarrow> d = DispYield
      | ToolRequest \<Rightarrow> cap_authorize s (hc_capability call) SIGNAL = Ok (hr_tool_object hr) \<and>
          (\<exists>h. mm_translate (hc_guest_address call) (ucast (hc_length call)) GuestRead memory = Ok h \<and>
             d = DispTool h (hc_length call) (hc_argument call))
      | GpuRequest \<Rightarrow> cap_authorize s (hc_capability call) SIGNAL = Ok (hr_gpu_object hr) \<and>
          (\<exists>h. mm_translate (hc_guest_address call) (ucast (hc_length call)) GuestRead memory = Ok h \<and>
             d = DispGpu h (hc_length call) (hc_argument call))
      | HcShutdown \<Rightarrow> cap_authorize s (hc_capability call) SIGNAL = Ok (hr_control_object hr) \<and> d = DispStopped)"

inductive exit_allowed ::
  "('b, 'e) vm_backend \<Rightarrow> 'b \<Rightarrow> capability_space \<Rightarrow> guest_memory \<Rightarrow> io_port_policy \<Rightarrow> hypercall_router \<Rightarrow>
     vm_exit \<Rightarrow> exit_disposition \<Rightarrow> hypercall_router \<Rightarrow> bool"
  for vb b s memory io hr where
  interrupted: "exit_allowed vb b s memory io hr ExitInterrupted DispResume hr"
| halted: "exit_allowed vb b s memory io hr ExitHalted DispStopped hr"
| port: "Some rule \<in> set (take (ip_count io) (ip_rules io)) \<Longrightarrow> rule_permits rule p sz write \<Longrightarrow>
    exit_allowed vb b s memory io hr (ExitIo p sz write v) (DispIo p sz write v) hr"
| hypercall: "vb_read_guest vb b a HYPERCALL_BYTES = Ok wire \<Longrightarrow> hypercall_decode wire = Ok call \<Longrightarrow>
    hc_sequence call = hr_next_sequence hr \<Longrightarrow> hr_next_sequence hr \<noteq> - 1 \<Longrightarrow> call_allowed s memory hr call d \<Longrightarrow>
    exit_allowed vb b s memory io hr (ExitHypercall a) d (hr\<lparr>hr_next_sequence := hr_next_sequence hr + 1\<rparr>)"

inductive_simps exit_allowed_simps [simp]:
  "exit_allowed vb b s memory io hr ExitInterrupted d hr'"
  "exit_allowed vb b s memory io hr ExitHalted d hr'"
  "exit_allowed vb b s memory io hr (ExitIo p sz write v) d hr'"
  "exit_allowed vb b s memory io hr (ExitHypercall a) d hr'"
  "exit_allowed vb b s memory io hr (ExitMemoryFault a g) d hr'"
  "exit_allowed vb b s memory io hr (ExitMmio a sz write w) d hr'"
  "exit_allowed vb b s memory io hr (ExitUnknown c) d hr'"

lemma route_target_allowed:
  "call_allowed s memory hr call d \<longleftrightarrow> (\<exists>x. route_target hr call s memory = Ok x \<and> d = disposition_of x)"
  by (auto simp: call_allowed_def route_target_def require_object_def disposition_of_def
      split: hypercall_operation.splits result.splits)

lemma route_allowed:
  "(\<exists>x. route call s memory hr = (Ok x, hr') \<and> d = disposition_of x) \<longleftrightarrow>
     hc_sequence call = hr_next_sequence hr \<and> hr_next_sequence hr \<noteq> - 1 \<and> call_allowed s memory hr call d \<and>
     hr' = hr\<lparr>hr_next_sequence := hr_next_sequence hr + 1\<rparr>"
  using checked_add_1_None_iff [of "hr_next_sequence hr"]
  by (auto simp: route_def route_target_allowed checked_add_def split: result.splits option.splits if_splits)

lemma io_permits_iff:
  "io_permits io p sz write \<longleftrightarrow> (\<exists>rule. Some rule \<in> set (take (ip_count io) (ip_rules io)) \<and> rule_permits rule p sz write)"
  by (auto simp: io_permits_def list_ex_iff set_flatten)

lemma dispatch_inner_allowed:
  "dispatch_inner vb b exit s memory io hr = (Ok d, hr') \<longleftrightarrow> exit_allowed vb b s memory io hr exit d hr'"
proof (cases exit)
  case (ExitHypercall a)
  have "dispatch_inner vb b exit s memory io hr = (Ok d, hr') \<longleftrightarrow>
     (\<exists>wire call. vb_read_guest vb b a HYPERCALL_BYTES = Ok wire \<and> hypercall_decode wire = Ok call \<and>
       (\<exists>x. route call s memory hr = (Ok x, hr') \<and> d = disposition_of x))"
    by (auto simp: ExitHypercall dispatch_inner_def decode_hypercall_exit_def split: result.splits prod.splits)
  then show ?thesis by (simp only: route_allowed) (auto simp: ExitHypercall)
qed (auto simp: dispatch_inner_def io_permits_iff)

lemma dispatch_inner_err: "dispatch_inner vb b exit s memory io hr = (Err e, hr') \<Longrightarrow> hr' = hr"
  by (auto simp: dispatch_inner_def dest: route_errD split: vm_exit.splits result.splits option.splits prod.splits if_splits)

lemma account_refused:
  assumes "vt_view vms vm = Some (st, x, b)" and "st \<noteq> Running \<or> x = - 1"
  shows "vt_account_exit vm vms = (Err (if st \<noteq> Running then InvalidVmState else ExitBudgetExceeded), vms)"
proof -
  obtain v where v: "vt_slot vms vm = Ok v" "vs_state v = st" "vs_exits v = x" "vt_slots vms ! vm_index vm = Some v"
    using assms(1) by (auto simp: vt_view_def vt_slot_iff split: result.splits)
  have "checked_add (- 1 :: u64) 1 = None" by (simp add: checked_add_1_None_iff)
  then show ?thesis using v assms(2) list_update_id [of "vt_slots vms" "vm_index vm"]
    by (auto simp: vt_account_exit_def vt_slot_mut_def)
qed

section \<open>Properties\<close>

text \<open>
  Property C35.  Dispatching the exit of a running machine touches no other machine.  An exit the policy lets
  through (an interruption, a halt, a port access under a rule, a well-formed hypercall with the next sequence
  number whose capability and guest range are valid) always gets its own disposition and leaves the
  machine running with one more exit on its account, or stopped where the guest halted or shut
  down; every other exit is an error that leaves it failed and the router unchanged.  An exit over the
  budget fails the machine; only when the 64-bit exit counter itself is exhausted is it refused without
  a change.  A machine that is not running is not dispatched at all.
\<close>

theorem vm_dispatch_contained:
  assumes "vt_inv vms" and "vt_view vms vm = Some (st, x, b)"
    and "dispatch_vm_exit vb backend vm exit s memory io vms hr = (r, vms', hr')"
  shows "(st \<noteq> Running \<longrightarrow> r = Err (RunPolicy InvalidVmState) \<and> vms' = vms \<and> hr' = hr) \<and>
     (st = Running \<and> b \<le> x \<longrightarrow> r = Err (RunPolicy ExitBudgetExceeded) \<and> hr' = hr \<and>
        (if x = - 1 then vms' = vms else vt_view vms' = (vt_view vms)(vm \<mapsto> (Failed, x + 1, b)))) \<and>
     (st = Running \<and> x < b \<longrightarrow>
        (\<forall>d hr1. exit_allowed vb backend s memory io hr exit d hr1 \<longrightarrow> r = Ok d \<and> hr' = hr1 \<and>
           vt_view vms' = (vt_view vms)(vm \<mapsto> (if d = DispStopped then Stopped else Running, x + 1, b))) \<and>
        ((\<nexists>d hr1. exit_allowed vb backend s memory io hr exit d hr1) \<longrightarrow>
           (\<exists>e. r = Err e) \<and> hr' = hr \<and> vt_view vms' = (vt_view vms)(vm \<mapsto> (Failed, x + 1, b))))"
proof (cases "st \<noteq> Running \<or> x = - 1")
  case True
  have "\<not> (- 1 :: u64) < b" by (simp add: not_less)
  then show ?thesis using True assms(3) account_refused [OF assms(2) True] by (auto simp: dispatch_vm_exit_def)
next
  case False
  then have run: "vt_view vms vm = Some (Running, x, b)" and nx: "x \<noteq> - 1" and st: "st = Running" using assms(2) by simp_all
  note a = account_view [OF assms(1) run nx]
  obtain q t where acc: "vt_account_exit vm vms = (q, t)" by fastforce
  show ?thesis
  proof (cases "x < b")
    case False
    then show ?thesis using assms(3) st nx a(1,2) acc by (auto simp: dispatch_vm_exit_def)
  next
    case lt: True
    have t: "vt_inv t" "vt_view t = (vt_view vms)(vm \<mapsto> (Running, x + 1, b))" "q = Ok (b - (x + 1))"
      using a acc lt by simp_all
    have tv: "vt_view t vm = Some (Running, x + 1, b)" by (simp add: t(2))
    obtain y hr1 where y: "dispatch_inner vb backend exit s memory io hr = (y, hr1)" by fastforce
    note allowed = dispatch_inner_allowed [of vb backend exit s memory io hr, symmetric, unfolded y]
    show ?thesis
    proof (cases y)
      case (Err e)
      then show ?thesis using assms(3) st lt acc t y fail_view(1) [OF t(1) tv] allowed dispatch_inner_err [of vb backend exit s memory io hr e hr1]
        by (auto simp: dispatch_vm_exit_def)
    next
      case (Ok d)
      obtain z t' where stop: "vt_stop vm t = (z, t')" by fastforce
      have "z = Ok ()" "vt_view t' = (vt_view vms)(vm \<mapsto> (Stopped, x + 1, b))" using stop_view [OF t(1) tv] stop t(2) by simp_all
      then show ?thesis using assms(3) st lt acc t y Ok stop allowed
        by (cases "d = DispStopped") (auto simp: dispatch_vm_exit_def)
    qed
  qed
qed

definition demo_backend :: "(unit, unit) vm_backend" where
  "demo_backend = \<lparr>vb_run = (\<lambda>_ b. (Ok ExitHalted, b)), vb_read_guest = (\<lambda>_ _ _. Err ()),
     vb_write_guest = (\<lambda>_ _ b. (Ok (), b)), vb_inject_interrupt = (\<lambda>_ _ b. (Ok (), b))\<rparr>"

definition demo_vms :: vm_table where
  "demo_vms = vm_run [VmCreate 5, VmMarkLoaded (vm_id_new 0 1), VmStart (vm_id_new 0 1)] (vt_new 1)"

lemma demo_vms_inv: "vt_inv demo_vms"
proof -
  have "vt_inv (vt_new 1)" by (simp add: vt_inv_def vt_new_def slot_ok_def)
  then show ?thesis unfolding demo_vms_def using vm_run_laws by blast
qed

lemma demo_vms_view: "vt_view demo_vms (vm_id_new 0 1) = Some (Running, 0, 5)"
  by code_simp

theorem vm_dispatch_contained_witness:
  "(\<exists>vms' hr'. dispatch_vm_exit demo_backend () (vm_id_new 0 1) (ExitIo 0x3F8 1 True 65) (cap_new 1) (mm_new 1)
      (io_deny_all 4) demo_vms (router_new 1 2 3) = (Err (RunPolicy IoDenied), vms', hr') \<and>
     vt_view vms' (vm_id_new 0 1) = Some (Failed, 1, 5)) \<and>
   (\<exists>vms' hr'. dispatch_vm_exit demo_backend () (vm_id_new 0 1) ExitHalted (cap_new 1) (mm_new 1)
      (io_deny_all 4) demo_vms (router_new 1 2 3) = (Ok DispStopped, vms', hr') \<and>
     vt_view vms' (vm_id_new 0 1) = Some (Stopped, 1, 5))"
proof
  let ?r = "dispatch_vm_exit demo_backend () (vm_id_new 0 1) (ExitIo 0x3F8 1 True 65) (cap_new 1) (mm_new 1)
      (io_deny_all 4) demo_vms (router_new 1 2 3)"
  obtain r vms' hr' where r: "?r = (r, vms', hr')" by (metis prod_cases3)
  have "fst ?r = Err (RunPolicy IoDenied)" by code_simp
  then show "\<exists>vms' hr'. ?r = (Err (RunPolicy IoDenied), vms', hr') \<and> vt_view vms' (vm_id_new 0 1) = Some (Failed, 1, 5)"
    using vm_dispatch_contained [OF demo_vms_inv demo_vms_view r] r by (auto simp: io_deny_all_def)
  let ?h = "dispatch_vm_exit demo_backend () (vm_id_new 0 1) ExitHalted (cap_new 1) (mm_new 1)
      (io_deny_all 4) demo_vms (router_new 1 2 3)"
  obtain h vmh hrh where h: "?h = (h, vmh, hrh)" by (metis prod_cases3)
  show "\<exists>vms' hr'. ?h = (Ok DispStopped, vms', hr') \<and> vt_view vms' (vm_id_new 0 1) = Some (Stopped, 1, 5)"
    using vm_dispatch_contained [OF demo_vms_inv demo_vms_view h] h by simp
qed

section \<open>Interrupts\<close>

lemma and_single: "(w AND push_bit k 1 \<noteq> 0) = bit (w :: u64) k"
  by (metis and_exp_eq_0_iff_not_bit push_bit_of_1)

lemma vector_position: "unat (v :: u8) div 64 < 4" "unat v = unat w \<longleftrightarrow> unat v div 64 = unat w div 64 \<and> unat v mod 64 = unat w mod 64"
proof -
  have "unat v < 256" using unsigned_less [of v, where 'a = nat] by simp
  then show "unat v div 64 < 4" by simp
  show "unat v = unat w \<longleftrightarrow> unat v div 64 = unat w div 64 \<and> unat v mod 64 = unat w mod 64"
    by (metis div_mult_mod_eq)
qed

lemma it_permits_bit: "it_permits p v \<longleftrightarrow> external_vector v \<and> bit (it_words p ! (unat v div 64)) (unat v mod 64)"
  unfolding it_permits_def by (simp only: and_single)

lemma it_allow_permits:
  assumes "length (it_words p) = 4" and "external_vector v"
  shows "it_permits (snd (it_allow v p)) w \<longleftrightarrow> w = v \<or> it_permits p w"
proof (cases "w = v")
  case True
  then show ?thesis using assms vector_position(1) [of v] unfolding it_permits_bit it_allow_def
    by (simp add: Let_def bit_or_iff bit_exp_iff)
next
  case False
  then have "\<not> (unat w div 64 = unat v div 64 \<and> unat w mod 64 = unat v mod 64)"
    using vector_position(2) [of w v] by (simp add: word_unat_eq_iff)
  then show ?thesis using False assms vector_position(1) [of v] unfolding it_permits_bit it_allow_def
    by (auto simp: Let_def nth_list_update bit_or_iff bit_exp_iff)
qed

lemma it_deny_permits:
  assumes "length (it_words p) = 4"
  shows "it_permits (it_deny v p) w \<longleftrightarrow> w \<noteq> v \<and> it_permits p w"
proof -
  have same: "w = v \<longleftrightarrow> unat w div 64 = unat v div 64 \<and> unat w mod 64 = unat v mod 64"
    using vector_position(2) [of w v] by (simp add: word_unat_eq_iff)
  show ?thesis using assms vector_position(1) [of v] unfolding it_permits_bit it_deny_def
    by (auto simp: Let_def nth_list_update bit_and_iff bit_not_iff bit_exp_iff same)
qed

text \<open>
  Property C36.  The interrupt policy implements a set of vectors that never holds an exception vector or
  the spurious vector: allowing inserts, denying removes, and a vector outside 32 to 254 is refused.
  An injection reaches the hypervisor only for a running machine, a vector in the set and a
  capability that signals exactly the machine's interrupt object; a refusal before that point
  changes nothing, and an error of the hypervisor leaves the machine failed and the others alone.
\<close>

theorem interrupt_injection_guarded:
  assumes "length (it_words p) = 4" and "vt_inv vms"
    and "inject_vm_interrupt vb vm vcpu v p s cap obj backend vms = (r, backend', vms')"
  shows "(\<forall>w. it_permits p w \<longrightarrow> 32 \<le> w \<and> w \<le> 254) \<and>
    (case it_allow w p of
       (Ok _, p') \<Rightarrow> Collect (it_permits p') = insert w (Collect (it_permits p)) \<and> length (it_words p') = 4
     | (Err _, p') \<Rightarrow> p' = p \<and> (w < 32 \<or> w = 255)) \<and>
    Collect (it_permits (it_deny w p)) = Collect (it_permits p) - {w} \<and>
    (backend' = backend \<and> vms' = vms \<and> (\<exists>e. r = Err (RunPolicy e)) \<or>
     (\<exists>x b. vt_view vms vm = Some (Running, x, b) \<and> it_permits p v \<and> cap_authorize s cap SIGNAL = Ok obj \<and>
        (case vb_inject_interrupt vb vcpu v backend of
           (Ok _, c) \<Rightarrow> r = Ok () \<and> backend' = c \<and> vms' = vms
         | (Err e, c) \<Rightarrow> r = Err (RunBackend e) \<and> backend' = c \<and> vt_view vms' = (vt_view vms)(vm \<mapsto> (Failed, x, b)))))"
proof (intro conjI)
  note ext = external_vector_def FIRST_EXTERNAL_VECTOR_def LAST_EXTERNAL_VECTOR_def
  show "\<forall>w. it_permits p w \<longrightarrow> 32 \<le> w \<and> w \<le> 254" by (simp add: it_permits_def ext)
  have out: "w < 32 \<or> w = 255" if "\<not> external_vector w"
  proof -
    have "unat w < 256" using unsigned_less [of w, where 'a = nat] by simp
    then show ?thesis using that by (simp add: ext word_le_nat_alt word_less_nat_alt word_unat_eq_iff) linarith
  qed
  show "case it_allow w p of
       (Ok _, p') \<Rightarrow> Collect (it_permits p') = insert w (Collect (it_permits p)) \<and> length (it_words p') = 4
     | (Err _, p') \<Rightarrow> p' = p \<and> (w < 32 \<or> w = 255)"
  proof (cases "external_vector w")
    case True
    have "fst (it_allow w p) = Ok ()" "length (it_words (snd (it_allow w p))) = 4"
      using True assms(1) by (simp_all add: it_allow_def Let_def)
    then show ?thesis using it_allow_permits [OF assms(1) True] by (auto split: prod.splits)
  next
    case False
    then show ?thesis using out by (simp add: it_allow_def)
  qed
  show "Collect (it_permits (it_deny w p)) = Collect (it_permits p) - {w}" using it_deny_permits [OF assms(1)] by auto
  show "backend' = backend \<and> vms' = vms \<and> (\<exists>e. r = Err (RunPolicy e)) \<or>
     (\<exists>x b. vt_view vms vm = Some (Running, x, b) \<and> it_permits p v \<and> cap_authorize s cap SIGNAL = Ok obj \<and>
        (case vb_inject_interrupt vb vcpu v backend of
           (Ok _, c) \<Rightarrow> r = Ok () \<and> backend' = c \<and> vms' = vms
         | (Err e, c) \<Rightarrow> r = Err (RunBackend e) \<and> backend' = c \<and> vt_view vms' = (vt_view vms)(vm \<mapsto> (Failed, x, b))))"
  proof (cases "vt_state vms vm = Ok Running \<and> it_permits p v \<and> cap_authorize s cap SIGNAL = Ok obj")
    case True
    then obtain x b where view: "vt_view vms vm = Some (Running, x, b)"
      by (auto simp: vt_state_def vt_view_def split: result.splits)
    show ?thesis using assms(3) True view fail_view(1) [OF assms(2) view]
      by (auto simp: inject_vm_interrupt_def split: result.splits prod.splits)
  next
    case False
    then show ?thesis using assms(3)
      by (auto simp: inject_vm_interrupt_def split: result.splits prod.splits if_splits)
  qed
qed

theorem interrupt_injection_guarded_witness:
  "\<exists>r c t. inject_vm_interrupt demo_backend (vm_id_new 0 1) 0 14 it_deny_all (cap_new 1) \<lparr>cap_slot = 0, cap_generation = 1\<rparr> 7 ()
      demo_vms = (r, c, t) \<and> t = demo_vms \<and> \<not> it_permits it_deny_all 14"
proof -
  have len: "length (it_words it_deny_all) = 4" by (simp add: it_deny_all_def)
  let ?r = "inject_vm_interrupt demo_backend (vm_id_new 0 1) 0 14 it_deny_all (cap_new 1) \<lparr>cap_slot = 0, cap_generation = 1\<rparr> 7 ()
      demo_vms"
  obtain r c t where r: "?r = (r, c, t)" by (metis prod_cases3)
  from interrupt_injection_guarded [OF len demo_vms_inv r, of 14] have "\<not> it_permits it_deny_all 14" by auto
  with interrupt_injection_guarded [OF len demo_vms_inv r, of 14] show ?thesis using r by blast
qed

end
