(* ===== verification/Vm_Policy.thy ===== *)
theory Vm_Policy
  imports Directory_Grant Slots
begin

text \<open>
  Launch policy of the virtual machines, after \<open>crates/mrml-kernel/src/policy.rs\<close> and the role type
  of \<open>platform.rs\<close>: machine names, PCI device addresses, the IOMMU topology of the host, the
  directory and device grants of one machine and the system policy over all of them.
  The const generics of the code are the lengths of the tables.
\<close>

section \<open>Definitions\<close>

definition MAX_VM_NAME :: nat where "MAX_VM_NAME = 64"

datatype vm_role = Inference | Tool | Device | Storage | Network

datatype policy_error =
    InvalidName | DirectoryTableFull | DeviceTableFull | DuplicateDirectory | DuplicateDevice
  | InvalidDeviceAddress | EmptyTopology | MissingDevice | DuplicateTopologyDevice
  | IncompleteIommuGroup | VmTableFull | DuplicateVmName | DeviceAlreadyAssigned

subsection \<open>Names and devices\<close>

record vm_name =
  vn_bytes :: bytes
  vn_length :: u8

definition is_ascii_alphanumeric :: "u8 \<Rightarrow> bool" where
  "is_ascii_alphanumeric b \<longleftrightarrow> is_ascii_alphabetic b \<or> 0x30 \<le> b \<and> b \<le> 0x39"

definition name_byte :: "u8 \<Rightarrow> bool" where
  "name_byte b \<longleftrightarrow> is_ascii_alphanumeric b \<or> b = 0x2D \<or> b = 0x5F"

definition vm_name_new :: "bytes \<Rightarrow> (vm_name, policy_error) result" where
  "vm_name_new name =
     (if name = [] \<or> length name > MAX_VM_NAME \<or> \<not> list_all name_byte name then Err InvalidName
      else Ok \<lparr>vn_bytes = name @ replicate (MAX_VM_NAME - length name) 0, vn_length = of_nat (length name)\<rparr>)"

definition vm_name_as_str :: "vm_name \<Rightarrow> bytes" where
  "vm_name_as_str n = take (unat (vn_length n)) (vn_bytes n)"

record device_address =
  da_segment :: u16
  da_bus :: u8
  da_device :: u8
  da_function :: u8

definition device_address_new :: "u16 \<Rightarrow> u8 \<Rightarrow> u8 \<Rightarrow> u8 \<Rightarrow> (device_address, policy_error) result" where
  "device_address_new segment bus device func =
     (if device > 31 \<or> func > 7 then Err InvalidDeviceAddress
      else Ok \<lparr>da_segment = segment, da_bus = bus, da_device = device, da_function = func\<rparr>)"

record device_grant =
  dev_address :: device_address
  dev_iommu_group :: u32

record host_device =
  hd_address :: device_address
  hd_iommu_group :: u32
  hd_reset_supported :: bool

subsection \<open>The IOMMU topology\<close>

text \<open>The outer loop of \<open>IommuTopology::new\<close>: each device against those after it.\<close>

fun topology_duplicate :: "host_device list \<Rightarrow> bool" where
  "topology_duplicate [] = False"
| "topology_duplicate (d # ds) =
     (if list_ex (\<lambda>other. hd_address other = hd_address d) ds then True else topology_duplicate ds)"

definition topology_new :: "host_device list \<Rightarrow> (host_device list, policy_error) result" where
  "topology_new devices =
     (if devices = [] then Err EmptyTopology
      else if topology_duplicate devices then Err DuplicateTopologyDevice
      else Ok devices)"

definition topology_grant ::
  "host_device list \<Rightarrow> device_address \<Rightarrow> device_address list \<Rightarrow> (device_grant, policy_error) result" where
  "topology_grant devices address assigned =
     (case find (\<lambda>d. hd_address d = address) devices of
        None \<Rightarrow> Err MissingDevice
      | Some target \<Rightarrow>
          if list_all (\<lambda>d. hd_reset_supported d \<and> hd_address d \<in> set assigned)
               (filter (\<lambda>d. hd_iommu_group d = hd_iommu_group target) devices)
          then Ok \<lparr>dev_address = address, dev_iommu_group = hd_iommu_group target\<rparr>
          else Err IncompleteIommuGroup)"

subsection \<open>The policy of one machine\<close>

record vm_policy =
  vp_name :: vm_name
  vp_role :: vm_role
  vp_directories :: "directory_grant option list"
  vp_devices :: "device_grant option list"

definition vm_policy_new :: "nat \<Rightarrow> nat \<Rightarrow> vm_name \<Rightarrow> vm_role \<Rightarrow> vm_policy" where
  "vm_policy_new directories devices name role =
     \<lparr>vp_name = name, vp_role = role, vp_directories = replicate directories None,
      vp_devices = replicate devices None\<rparr>"

definition policy_name :: "vm_policy \<Rightarrow> bytes" where
  "policy_name p = vm_name_as_str (vp_name p)"

definition add_directory :: "directory_grant \<Rightarrow> vm_policy \<Rightarrow> (unit, policy_error) result \<times> vm_policy" where
  "add_directory grant p =
     (if list_ex (\<lambda>existing. grant_path existing = grant_path grant) (flatten (vp_directories p))
      then (Err DuplicateDirectory, p)
      else case free_slot (vp_directories p) of
        None \<Rightarrow> (Err DirectoryTableFull, p)
      | Some i \<Rightarrow> (Ok (), p\<lparr>vp_directories := (vp_directories p)[i := Some grant]\<rparr>))"

definition add_device :: "device_grant \<Rightarrow> vm_policy \<Rightarrow> (unit, policy_error) result \<times> vm_policy" where
  "add_device grant p =
     (if list_ex (\<lambda>existing. dev_address existing = dev_address grant) (flatten (vp_devices p))
      then (Err DuplicateDevice, p)
      else case free_slot (vp_devices p) of
        None \<Rightarrow> (Err DeviceTableFull, p)
      | Some i \<Rightarrow> (Ok (), p\<lparr>vp_devices := (vp_devices p)[i := Some grant]\<rparr>))"

definition directory_mode :: "bytes \<Rightarrow> vm_policy \<Rightarrow> grant_mode option" where
  "directory_mode path p = map_option dg_mode (lookup grant_path path (vp_directories p))"

definition policy_devices :: "vm_policy \<Rightarrow> device_grant list" where
  "policy_devices p = flatten (vp_devices p)"

subsection \<open>The system policy\<close>

record system_policy =
  sp_vms :: "vm_policy option list"

definition system_policy_new :: "nat \<Rightarrow> system_policy" where
  "system_policy_new vms = \<lparr>sp_vms = replicate vms None\<rparr>"

definition device_clash :: "vm_policy \<Rightarrow> vm_policy \<Rightarrow> bool" where
  "device_clash existing policy \<longleftrightarrow>
     list_ex (\<lambda>requested. list_ex (\<lambda>assigned. dev_address assigned = dev_address requested \<or>
         dev_iommu_group assigned = dev_iommu_group requested) (policy_devices existing))
       (policy_devices policy)"

text \<open>The loop of \<open>add_vm\<close> over the machines present, the first refusal being returned.\<close>

fun admission :: "vm_policy \<Rightarrow> vm_policy list \<Rightarrow> policy_error option" where
  "admission policy [] = None"
| "admission policy (existing # rest) =
     (if policy_name existing = policy_name policy then Some DuplicateVmName
      else if device_clash existing policy then Some DeviceAlreadyAssigned
      else admission policy rest)"

definition system_vms :: "system_policy \<Rightarrow> vm_policy list" where
  "system_vms s = flatten (sp_vms s)"

definition add_vm :: "vm_policy \<Rightarrow> system_policy \<Rightarrow> (unit, policy_error) result \<times> system_policy" where
  "add_vm policy s =
     (case admission policy (system_vms s) of
        Some e \<Rightarrow> (Err e, s)
      | None \<Rightarrow>
          (case free_slot (sp_vms s) of
             None \<Rightarrow> (Err VmTableFull, s)
           | Some i \<Rightarrow> (Ok (), s\<lparr>sp_vms := (sp_vms s)[i := Some policy]\<rparr>)))"

text \<open>A launch: machines are offered one after the other, refused ones are left out.\<close>

definition launch :: "nat \<Rightarrow> vm_policy list \<Rightarrow> system_policy" where
  "launch vms policies = fold (\<lambda>p s. snd (add_vm p s)) policies (system_policy_new vms)"

section \<open>Names and the topology\<close>

lemma vm_name_new_iff:
  "vm_name_new name = Ok n \<longleftrightarrow> name \<noteq> [] \<and> length name \<le> MAX_VM_NAME \<and> list_all name_byte name \<and>
     n = \<lparr>vn_bytes = name @ replicate (MAX_VM_NAME - length name) 0, vn_length = of_nat (length name)\<rparr>"
  by (auto simp: vm_name_new_def)

lemma vm_name_round_trip: "vm_name_new name = Ok n \<Longrightarrow> vm_name_as_str n = name"
  by (auto simp: vm_name_new_iff vm_name_as_str_def MAX_VM_NAME_def unat_of_nat)

lemma topology_duplicate_iff: "topology_duplicate ds \<longleftrightarrow> \<not> distinct (map hd_address ds)"
proof (induction ds)
  case (Cons d ds)
  have "list_ex (\<lambda>other. hd_address other = hd_address d) ds \<longleftrightarrow> hd_address d \<in> hd_address ` set ds"
    unfolding list_ex_iff by (metis image_iff)
  then show ?case using Cons by simp
qed simp

lemma topology_grant_iff:
  assumes "topology_new hosts = Ok devices"
  shows "topology_grant devices address assigned = Ok g \<longleftrightarrow>
     (\<exists>d \<in> set hosts. hd_address d = address \<and>
        g = \<lparr>dev_address = address, dev_iommu_group = hd_iommu_group d\<rparr> \<and>
        (\<forall>e \<in> set hosts. hd_iommu_group e = hd_iommu_group d \<longrightarrow>
           hd_reset_supported e \<and> hd_address e \<in> set assigned))"
    (is "?l \<longleftrightarrow> (\<exists>d \<in> set hosts. ?R d)")
proof -
  from assms have d: "devices = hosts" "distinct (map hd_address hosts)"
    by (auto simp: topology_new_def topology_duplicate_iff split: if_splits)
  show ?thesis
  proof (cases "find (\<lambda>d. hd_address d = address) hosts")
    case None
    then have "hd_address d \<noteq> address" if "d \<in> set hosts" for d using that by (auto simp: find_None_iff)
    then show ?thesis by (auto simp: topology_grant_def d None)
  next
    case (Some t)
    then have t: "t \<in> set hosts" "hd_address t = address" by (auto simp: find_Some_iff)
    then have "e = t" if "e \<in> set hosts" "hd_address e = address" for e
      using that d(2) by (metis distinct_map inj_onD)
    then have "(\<exists>d \<in> set hosts. ?R d) \<longleftrightarrow> ?R t" using t by blast
    then show ?thesis using t by (auto simp: topology_grant_def d Some list_all_iff)
  qed
qed

section \<open>The tables of one machine\<close>

definition policy_inv :: "vm_policy \<Rightarrow> bool" where
  "policy_inv p \<longleftrightarrow> keys_distinct grant_path (vp_directories p) \<and> keys_distinct dev_address (vp_devices p)"

lemma lookup_None_list_ex: "lookup key k xs = None \<longleftrightarrow> \<not> list_ex (\<lambda>a. key a = k) (flatten xs)"
  by (auto simp: lookup_def find_None_iff list_ex_iff)

lemma policy_inv_new [simp]: "policy_inv (vm_policy_new n m name role)"
  by (simp add: policy_inv_def vm_policy_new_def)

lemma add_directory_inv: "policy_inv p \<Longrightarrow> policy_inv (snd (add_directory g p))"
  using insert_slot(1) [of grant_path "vp_directories p" _ g]
  by (auto simp: add_directory_def policy_inv_def lookup_None_list_ex split: option.splits)

lemma add_device_inv: "policy_inv p \<Longrightarrow> policy_inv (snd (add_device g p))"
  using insert_slot(1) [of dev_address "vp_devices p" _ g]
  by (auto simp: add_device_def policy_inv_def lookup_None_list_ex split: option.splits)

section \<open>The system policy\<close>

lemma admission_None_iff:
  "admission policy ps = None \<longleftrightarrow>
     (\<forall>q \<in> set ps. policy_name q \<noteq> policy_name policy \<and> \<not> device_clash q policy)"
  by (induction ps) auto

lemma device_clash_iff:
  "device_clash p q \<longleftrightarrow> (\<exists>a \<in> set (policy_devices p). \<exists>b \<in> set (policy_devices q).
     dev_address a = dev_address b \<or> dev_iommu_group a = dev_iommu_group b)"
  by (auto simp: device_clash_def list_ex_iff)

text \<open>What holds between any two machines of a launch.\<close>

definition apart :: "vm_policy \<Rightarrow> vm_policy \<Rightarrow> bool" where
  "apart p q \<longleftrightarrow> policy_name p \<noteq> policy_name q \<and>
     (\<forall>a \<in> set (policy_devices p). \<forall>b \<in> set (policy_devices q).
        dev_address a \<noteq> dev_address b \<and> dev_iommu_group a \<noteq> dev_iommu_group b)"

lemma apart_sym: "apart p q \<Longrightarrow> apart q p"
  by (metis apart_def)

lemma admission_apart: "admission policy ps = None \<longleftrightarrow> (\<forall>q \<in> set ps. apart q policy)"
  by (auto simp: admission_None_iff device_clash_iff apart_def)

definition system_inv :: "system_policy \<Rightarrow> bool" where
  "system_inv s \<longleftrightarrow> (\<forall>i < length (sp_vms s). \<forall>j < length (sp_vms s). \<forall>p q.
     i \<noteq> j \<longrightarrow> sp_vms s ! i = Some p \<longrightarrow> sp_vms s ! j = Some q \<longrightarrow> apart p q)"

lemma system_invD:
  "system_inv s \<Longrightarrow> i < length (sp_vms s) \<Longrightarrow> j < length (sp_vms s) \<Longrightarrow> i \<noteq> j \<Longrightarrow>
     sp_vms s ! i = Some p \<Longrightarrow> sp_vms s ! j = Some q \<Longrightarrow> apart p q"
  by (auto simp: system_inv_def)

lemma system_inv_new [simp]: "system_inv (system_policy_new n)"
  by (simp add: system_inv_def system_policy_new_def)

lemma add_vm_cases:
  obtains (refused) e where "add_vm policy s = (Err e, s)"
      "(\<exists>q \<in> set (system_vms s). \<not> apart q policy) \<or> None \<notin> set (sp_vms s)"
  | (admitted) i where "add_vm policy s = (Ok (), s\<lparr>sp_vms := (sp_vms s)[i := Some policy]\<rparr>)"
      "i < length (sp_vms s)" "sp_vms s ! i = None" "\<forall>q \<in> set (system_vms s). apart q policy"
proof (cases "admission policy (system_vms s)")
  case (Some e)
  then have "\<exists>q \<in> set (system_vms s). \<not> apart q policy" using admission_apart [of policy "system_vms s"] by auto
  then show thesis using Some refused [of e] by (simp add: add_vm_def)
next
  case adm: None
  then have ap: "\<forall>q \<in> set (system_vms s). apart q policy" by (simp add: admission_apart)
  show thesis
  proof (cases "free_slot (sp_vms s)")
    case None
    then show thesis using adm refused [of VmTableFull] free_slot_None_iff [of "sp_vms s"] by (simp add: add_vm_def)
  next
    case (Some i)
    then show thesis using adm ap admitted [of i] free_slot_SomeD [OF Some] by (simp add: add_vm_def)
  qed
qed

lemma add_vm_inv:
  assumes inv: "system_inv s"
  shows "system_inv (snd (add_vm policy s))"
proof (cases rule: add_vm_cases [of policy s])
  case (admitted i)
  have mem: "apart q policy" if "j < length (sp_vms s)" "sp_vms s ! j = Some q" for j q
    using that admitted(4) by (auto simp: system_vms_def in_flatten_iff)
  show ?thesis unfolding system_inv_def admitted(1) snd_conv
  proof (intro allI impI)
    fix j k p q
    let ?xs = "sp_vms (s\<lparr>sp_vms := (sp_vms s)[i := Some policy]\<rparr>)"
    assume "j < length ?xs" "k < length ?xs" "j \<noteq> k" "?xs ! j = Some p" "?xs ! k = Some q"
    then have jk: "j < length (sp_vms s)" "k < length (sp_vms s)" "j \<noteq> k"
      and p: "if j = i then p = policy else sp_vms s ! j = Some p"
      and q: "if k = i then q = policy else sp_vms s ! k = Some q"
      by (auto simp: nth_list_update split: if_splits)
    show "apart p q"
    proof (cases "j = i")
      case True
      then show ?thesis using p q jk mem [of k q] by (simp add: apart_sym)
    next
      case False
      then show ?thesis using p q jk mem [of j p] system_invD [OF inv jk, of p q] by (cases "k = i") simp_all
    qed
  qed
qed (use inv in simp)

lemma add_vm_flatten:
  "set (system_vms (snd (add_vm p s))) \<subseteq> insert p (set (system_vms s))"
  by (cases rule: add_vm_cases [of p s])
    (auto simp: system_vms_def set_flatten dest: set_update_subset_insert [THEN subsetD])

lemma launch_snoc: "launch n (ps @ [p]) = snd (add_vm p (launch n ps))"
  by (simp add: launch_def)

lemma launch_inv: "system_inv (launch n ps)"
proof (induction ps rule: rev_induct)
  case Nil
  then show ?case by (simp add: launch_def)
next
  case (snoc p ps)
  then show ?case by (simp add: launch_snoc add_vm_inv)
qed

lemma launch_subset: "set (system_vms (launch n ps)) \<subseteq> set ps"
proof (induction ps rule: rev_induct)
  case Nil
  then show ?case by (simp add: launch_def system_policy_new_def system_vms_def)
next
  case (snoc p ps)
  then show ?case using add_vm_flatten [of p "launch n ps"] by (auto simp: launch_snoc)
qed

lemma topology_grant_resettable:
  assumes "topology_new hosts = Ok devices" and "topology_grant devices (dev_address a) assigned = Ok a"
    and "e \<in> set hosts" and "hd_iommu_group e = dev_iommu_group a"
  shows "hd_reset_supported e"
  using assms(2-4) unfolding topology_grant_iff [OF assms(1)] by (metis device_grant.select_convs(2))

lemma topology_grant_group:
  assumes "topology_new hosts = Ok devices" and "topology_grant devices (dev_address b) assigned = Ok b"
    and "e \<in> set hosts" and "hd_address e = dev_address b"
  shows "hd_iommu_group e = dev_iommu_group b"
proof -
  have "distinct (map hd_address hosts)"
    using assms(1) by (auto simp: topology_new_def topology_duplicate_iff split: if_splits)
  moreover obtain d where "d \<in> set hosts" "hd_address d = dev_address b" "hd_iommu_group d = dev_iommu_group b"
    using assms(2) unfolding topology_grant_iff [OF assms(1)] by (metis device_grant.select_convs(2))
  ultimately show ?thesis using assms(3,4) by (metis distinct_map inj_onD)
qed

section \<open>Properties\<close>

definition demo_address :: "u8 \<Rightarrow> device_address" where
  "demo_address f = \<lparr>da_segment = 0, da_bus = 1, da_device = 0, da_function = f\<rparr>"

definition demo_hosts :: "host_device list" where
  "demo_hosts =
     [\<lparr>hd_address = demo_address 0, hd_iommu_group = 7, hd_reset_supported = True\<rparr>,
      \<lparr>hd_address = demo_address 1, hd_iommu_group = 7, hd_reset_supported = True\<rparr>,
      \<lparr>hd_address = demo_address 2, hd_iommu_group = 8, hd_reset_supported = True\<rparr>]"

definition demo_policy :: "u8 \<Rightarrow> u8 \<Rightarrow> u32 \<Rightarrow> vm_policy" where
  "demo_policy c f g =
     \<lparr>vp_name = \<lparr>vn_bytes = c # replicate 63 0, vn_length = 1\<rparr>, vp_role = Device, vp_directories = [],
      vp_devices = [Some \<lparr>dev_address = demo_address f, dev_iommu_group = g\<rparr>]\<rparr>"

definition demo_offers :: "vm_policy list" where
  "demo_offers = [demo_policy 0x61 0 7, demo_policy 0x62 1 7, demo_policy 0x63 2 8]"

text \<open>
  Property C34.  When the device grants offered to a launch were issued over one IOMMU topology, two
  different machines of the launch have different names and share no device; no machine holds a
  device in the IOMMU group of another machine's device, and every device of a group that is
  passed through can be reset.
\<close>

theorem system_policy_exclusive:
  assumes "topology_new hosts = Ok devices"
    and "\<forall>p \<in> set offers. \<forall>g \<in> set (policy_devices p). \<exists>assigned. topology_grant devices (dev_address g) assigned = Ok g"
    and "i < length (sp_vms (launch n offers))" and "j < length (sp_vms (launch n offers))" and "i \<noteq> j"
    and "sp_vms (launch n offers) ! i = Some p" and "sp_vms (launch n offers) ! j = Some q"
  shows "policy_name p \<noteq> policy_name q \<and>
     dev_address ` set (policy_devices p) \<inter> dev_address ` set (policy_devices q) = {} \<and>
     (\<forall>a \<in> set (policy_devices p). \<forall>e \<in> set hosts. hd_iommu_group e = dev_iommu_group a \<longrightarrow>
        hd_reset_supported e \<and> hd_address e \<notin> dev_address ` set (policy_devices q))"
proof -
  have ap: "apart p q" using system_invD [OF launch_inv] assms by blast
  have "p \<in> set (system_vms (launch n offers))" "q \<in> set (system_vms (launch n offers))"
    using assms(3-) by (auto simp: system_vms_def in_flatten_iff)
  then have mem: "p \<in> set offers" "q \<in> set offers" using launch_subset by blast+
  have "hd_reset_supported e \<and> hd_address e \<notin> dev_address ` set (policy_devices q)"
    if a: "a \<in> set (policy_devices p)" and e: "e \<in> set hosts" "hd_iommu_group e = dev_iommu_group a" for a e
  proof
    show "hd_reset_supported e" using assms(2) mem(1) a topology_grant_resettable [OF assms(1)] e by blast
    show "hd_address e \<notin> dev_address ` set (policy_devices q)"
    proof
      assume "hd_address e \<in> dev_address ` set (policy_devices q)"
      then obtain b where b: "b \<in> set (policy_devices q)" "hd_address e = dev_address b" by blast
      then have "hd_iommu_group e = dev_iommu_group b"
        using assms(2) mem(2) topology_grant_group [OF assms(1)] e(1) by blast
      then show False using ap a b e(2) by (auto simp: apart_def)
    qed
  qed
  then show ?thesis using ap by (auto simp: apart_def)
qed

theorem system_policy_exclusive_witness:
  "policy_name (demo_policy 0x61 0 7) \<noteq> policy_name (demo_policy 0x63 2 8) \<and>
   hd_address (demo_hosts ! 1) \<notin> dev_address ` set (policy_devices (demo_policy 0x63 2 8))"
proof -
  have t: "topology_new demo_hosts = Ok demo_hosts" by code_simp
  have g: "\<forall>p \<in> set demo_offers. \<forall>g \<in> set (policy_devices p).
      topology_grant demo_hosts (dev_address g) (map hd_address demo_hosts) = Ok g" by code_simp
  then have g': "\<forall>p \<in> set demo_offers. \<forall>g \<in> set (policy_devices p).
      \<exists>assigned. topology_grant demo_hosts (dev_address g) assigned = Ok g" by blast
  have l: "sp_vms (launch 3 demo_offers) = [Some (demo_policy 0x61 0 7), Some (demo_policy 0x63 2 8), None]"
    by code_simp
  have m: "\<lparr>dev_address = demo_address 0, dev_iommu_group = 7\<rparr> \<in> set (policy_devices (demo_policy 0x61 0 7))"
    "demo_hosts ! 1 \<in> set demo_hosts" "hd_iommu_group (demo_hosts ! 1) = 7" by code_simp+
  from system_policy_exclusive [OF t g', of 0 3 1] l have
    "policy_name (demo_policy 0x61 0 7) \<noteq> policy_name (demo_policy 0x63 2 8) \<and>
     (\<forall>a \<in> set (policy_devices (demo_policy 0x61 0 7)). \<forall>e \<in> set demo_hosts. hd_iommu_group e = dev_iommu_group a \<longrightarrow>
        hd_reset_supported e \<and> hd_address e \<notin> dev_address ` set (policy_devices (demo_policy 0x63 2 8)))" by simp
  then show ?thesis using m by fastforce
qed

text \<open>
  A new machine policy grants nothing.  Adding a directory grant of a path that has none makes the
  mode of exactly that path the granted one; an existing path is never regranted, in particular
  not from read-only to read-write, and a refused grant changes nothing.
\<close>

theorem directory_modes_refine_map:
  assumes "policy_inv p"
  shows "directory_mode path (vm_policy_new n m name role) = None \<and>
     (case add_directory grant p of
        (Ok _, p') \<Rightarrow> directory_mode (grant_path grant) p = None \<and> policy_inv p' \<and>
           (\<lambda>k. directory_mode k p') = (\<lambda>k. directory_mode k p)(grant_path grant \<mapsto> dg_mode grant)
      | (Err DuplicateDirectory, p') \<Rightarrow> p' = p \<and> directory_mode (grant_path grant) p \<noteq> None
      | (Err e, p') \<Rightarrow> p' = p \<and> e = DirectoryTableFull \<and> None \<notin> set (vp_directories p))"
proof -
  have new: "directory_mode path (vm_policy_new n m name role) = None"
    by (simp add: directory_mode_def vm_policy_new_def)
  have kd: "keys_distinct grant_path (vp_directories p)" using assms by (simp add: policy_inv_def)
  show ?thesis
  proof (cases "lookup grant_path (grant_path grant) (vp_directories p)")
    case (Some g)
    then have "add_directory grant p = (Err DuplicateDirectory, p)"
      using lookup_None_list_ex [of grant_path "grant_path grant" "vp_directories p"] by (simp add: add_directory_def)
    then show ?thesis using new Some by (simp add: directory_mode_def)
  next
    case fresh: None
    then have free: "\<not> list_ex (\<lambda>existing. grant_path existing = grant_path grant) (flatten (vp_directories p))"
      by (simp add: lookup_None_list_ex)
    show ?thesis
    proof (cases "free_slot (vp_directories p)")
      case None
      then show ?thesis using new free free_slot_None_iff [of "vp_directories p"] by (simp add: add_directory_def)
    next
      case (Some i)
      note ins = insert_slot [OF kd Some fresh]
      have "lookup grant_path k ((vp_directories p)[i := Some grant]) =
          ((slots_map grant_path (vp_directories p))(grant_path grant \<mapsto> grant)) k" for k
        using fun_cong [OF ins(2), of k] by simp
      moreover have "add_directory grant p = (Ok (), p\<lparr>vp_directories := (vp_directories p)[i := Some grant]\<rparr>)"
        using Some free by (simp add: add_directory_def)
      ultimately show ?thesis
        using new fresh ins(1) assms by (auto simp: directory_mode_def policy_inv_def fun_eq_iff)
    qed
  qed
qed

end
