(* ===== verification/Address_Space.thy ===== *)
theory Address_Space
  imports Paging
begin

text \<open>
  Mapping policy of one address space, after
  \<open>crates/mrml-kernel/src/arch/x86_64/address_space.rs\<close>: validated mappings confined to the
  half of the address space their privilege allows, and the fixed-capacity table of live
  mappings with its generational identities.  The table is an instance of the retiring handle
  table; its mappings never share a virtual page or a physical frame.
\<close>

section \<open>Definitions\<close>

datatype address_space_error =
  AsEmpty | AsOverflow | CrossesCanonicalBoundary | WrongPrivilegeHalf | VirtualOverlap | PhysicalAlias |
  AsFull | InvalidMapping

record mapping =
  virtual_start :: virt_addr
  physical_start :: phys_addr
  mpages :: u64
  mpermissions :: page_permissions

definition mapping_new ::
  "virt_addr \<Rightarrow> phys_addr \<Rightarrow> u64 \<Rightarrow> page_permissions \<Rightarrow> (mapping, address_space_error) result" where
  "mapping_new vs ps pages permissions =
     (if pages = 0 then Err AsEmpty
      else case checked_mul pages PAGE_SIZE of
        None \<Rightarrow> Err AsOverflow
      | Some len \<Rightarrow>
      if checked_add (virt_get vs) len = None then Err AsOverflow
      else if checked_add (phys_get ps) len = None then Err AsOverflow
      else case checked_add (virt_get vs) (len - PAGE_SIZE) of
        None \<Rightarrow> Err AsOverflow
      | Some vl \<Rightarrow>
      (case virt_new vl of
        Err _ \<Rightarrow> Err CrossesCanonicalBoundary
      | Ok virtual_last \<Rightarrow>
      (case checked_add (phys_get ps) (len - PAGE_SIZE) of
        None \<Rightarrow> Err AsOverflow
      | Some physical_last \<Rightarrow>
      if physical_last > MAX_PHYSICAL_ADDRESS then Err AsOverflow
      else
      let user_half = virt_get vs < push_bit 47 1 \<and> virt_get virtual_last < push_bit 47 1;
          kernel_half = virt_get vs \<ge> 0xffff800000000000 \<and> virt_get virtual_last \<ge> 0xffff800000000000 in
      if (perm_user permissions \<and> \<not> user_half)
         \<or> (\<not> perm_user permissions \<and> \<not> perm_low_supervisor_mmio permissions \<and> \<not> kernel_half)
         \<or> (perm_low_supervisor_mmio permissions \<and> \<not> user_half)
      then Err WrongPrivilegeHalf
      else Ok \<lparr>virtual_start = vs, physical_start = ps, mpages = pages, mpermissions = permissions\<rparr>)))"

definition virtual_end :: "mapping \<Rightarrow> u64" where
  "virtual_end m = virt_get (virtual_start m) + mpages m * PAGE_SIZE"

definition physical_end :: "mapping \<Rightarrow> u64" where
  "physical_end m = phys_get (physical_start m) + mpages m * PAGE_SIZE"

record mapping_id =
  mi_slot :: u32
  mi_generation :: u32

record as_slot =
  as_mapping :: "mapping option"
  as_generation :: u32

type_synonym address_space = "as_slot list"

definition AS_SLOT_EMPTY :: as_slot where
  "AS_SLOT_EMPTY = \<lparr>as_mapping = None, as_generation = 1\<rparr>"

definition as_new :: "nat \<Rightarrow> address_space" where
  "as_new capacity = replicate capacity AS_SLOT_EMPTY"

definition as_overlaps :: "u64 \<Rightarrow> u64 \<Rightarrow> u64 \<Rightarrow> u64 \<Rightarrow> bool" where
  "as_overlaps a_start a_end b_start b_end \<longleftrightarrow> a_start < b_end \<and> b_start < a_end"

definition as_mappings :: "address_space \<Rightarrow> mapping list" where
  "as_mappings s = flatten (map as_mapping s)"

fun mapping_conflict :: "mapping \<Rightarrow> mapping list \<Rightarrow> address_space_error option" where
  "mapping_conflict m [] = None"
| "mapping_conflict m (e # es) =
     (if as_overlaps (virt_get (virtual_start m)) (virtual_end m) (virt_get (virtual_start e)) (virtual_end e)
      then Some VirtualOverlap
      else if as_overlaps (phys_get (physical_start m)) (physical_end m)
                (phys_get (physical_start e)) (physical_end e)
      then Some PhysicalAlias
      else mapping_conflict m es)"

definition as_map :: "mapping \<Rightarrow> address_space \<Rightarrow> (mapping_id, address_space_error) result \<times> address_space" where
  "as_map m s =
     (case mapping_conflict m (as_mappings s) of
        Some e \<Rightarrow> (Err e, s)
      | None \<Rightarrow>
          (case position (\<lambda>slot. as_mapping slot = None \<and> as_generation slot \<noteq> 0) s of
             None \<Rightarrow> (Err AsFull, s)
           | Some i \<Rightarrow>
               (Ok \<lparr>mi_slot = of_nat i, mi_generation = as_generation (s ! i)\<rparr>,
                s[i := (s ! i)\<lparr>as_mapping := Some m\<rparr>])))"

definition as_get :: "address_space \<Rightarrow> mapping_id \<Rightarrow> (mapping, address_space_error) result" where
  "as_get s i =
     (if unat (mi_slot i) < length s \<and> as_generation (s ! unat (mi_slot i)) = mi_generation i
      then ok_or (as_mapping (s ! unat (mi_slot i))) InvalidMapping
      else Err InvalidMapping)"

definition as_unmap :: "mapping_id \<Rightarrow> address_space \<Rightarrow> (mapping, address_space_error) result \<times> address_space" where
  "as_unmap i s =
     (if unat (mi_slot i) < length s then
        let slot = s ! unat (mi_slot i) in
        if as_generation slot = mi_generation i \<and> as_mapping slot \<noteq> None then
          (case as_mapping slot of
             None \<Rightarrow> (Err InvalidMapping, s)
           | Some m \<Rightarrow>
               (Ok m, s[unat (mi_slot i) :=
                  \<lparr>as_mapping = None, as_generation = retire_generation (as_generation slot)\<rparr>]))
        else (Err InvalidMapping, s)
      else (Err InvalidMapping, s))"

section \<open>Mappings as intervals of natural numbers\<close>

definition vs_nat :: "mapping \<Rightarrow> nat" where "vs_nat m = unat (virt_get (virtual_start m))"
definition ps_nat :: "mapping \<Rightarrow> nat" where "ps_nat m = unat (phys_get (physical_start m))"
definition mbytes :: "mapping \<Rightarrow> nat" where "mbytes m = unat (mpages m) * 4096"

definition mapping_ok :: "mapping \<Rightarrow> bool" where
  "mapping_ok m \<longleftrightarrow>
     mapping_new (virtual_start m) (physical_start m) (mpages m) (mpermissions m) = Ok m"

lemma mapping_new_fields:
  "mapping_new vs ps n p = Ok m \<Longrightarrow>
     m = \<lparr>virtual_start = vs, physical_start = ps, mpages = n, mpermissions = p\<rparr>"
  unfolding mapping_new_def Let_def
  by (simp split: if_split_asm option.split_asm result.split_asm)

lemma mapping_new_ok: "mapping_new vs ps n p = Ok m \<Longrightarrow> mapping_ok m"
  using mapping_new_fields [of vs ps n p m] by (simp add: mapping_ok_def)

lemma mapping_ok_last:
  assumes "mapping_ok m"
  obtains vl pl where "canonical vl" "unat vl mod 4096 = 0" "pl \<le> MAX_PHYSICAL_ADDRESS"
    "unat vl + 4096 = vs_nat m + mbytes m" "unat pl + 4096 = ps_nat m + mbytes m"
    "vs_nat m + mbytes m < 2 ^ 64" "ps_nat m + mbytes m < 2 ^ 64" "0 < mbytes m"
    "perm_user (mpermissions m) \<longrightarrow> vl < push_bit 47 1"
    "perm_low_supervisor_mmio (mpermissions m) \<longrightarrow> vl < push_bit 47 1"
    "\<not> perm_user (mpermissions m) \<longrightarrow> \<not> perm_low_supervisor_mmio (mpermissions m) \<longrightarrow>
       0xffff800000000000 \<le> virt_get (virtual_start m)"
proof -
  let ?v = "virt_get (virtual_start m)" and ?p = "phys_get (physical_start m)" and ?perm = "mpermissions m"
  have new: "mapping_new (virtual_start m) (physical_start m) (mpages m) ?perm = Ok m"
    using assms by (simp add: mapping_ok_def)
  obtain len where len: "checked_mul (mpages m) PAGE_SIZE = Some len"
    using new by (auto simp: mapping_new_def split: option.splits if_splits)
  obtain vl where vl: "checked_add ?v (len - PAGE_SIZE) = Some vl"
    using new len by (auto simp: mapping_new_def split: option.splits if_splits)
  obtain pl where pl: "checked_add ?p (len - PAGE_SIZE) = Some pl"
    using new len vl by (auto simp: mapping_new_def split: option.splits result.splits if_splits)
  have c: "mpages m \<noteq> 0" "checked_add ?v len \<noteq> None" "checked_add ?p len \<noteq> None" "pl \<le> MAX_PHYSICAL_ADDRESS"
    "canonical vl" "vl mod PAGE_SIZE = 0"
    "perm_user ?perm \<Longrightarrow> vl < push_bit 47 1" "perm_low_supervisor_mmio ?perm \<Longrightarrow> vl < push_bit 47 1"
    "\<not> perm_user ?perm \<Longrightarrow> \<not> perm_low_supervisor_mmio ?perm \<Longrightarrow> 0xffff800000000000 \<le> ?v"
    using new len vl pl
    by (auto simp: mapping_new_def Let_def virt_new_iff not_less split: result.splits if_splits)
  have l: "unat len = mbytes m" using checked_mul_SomeD(2) [OF len] by (simp add: mbytes_def PAGE_SIZE_def)
  have pos: "0 < mbytes m" using c(1) by (simp add: mbytes_def unat_gt_0)
  then have ge: "4096 \<le> mbytes m" by (simp add: mbytes_def)
  then have d: "unat (len - PAGE_SIZE) = mbytes m - 4096"
    by (simp add: unat_sub word_le_nat_alt PAGE_SIZE_def l)
  have "unat (vl mod PAGE_SIZE) = 0" using c(6) by simp
  then have "unat vl mod 4096 = 0" by (simp add: unat_mod PAGE_SIZE_def)
  moreover have "unat vl + 4096 = vs_nat m + mbytes m" "unat pl + 4096 = ps_nat m + mbytes m"
    using checked_add_SomeD(2) [OF vl] checked_add_SomeD(2) [OF pl] d ge by (simp_all add: vs_nat_def ps_nat_def)
  moreover have "vs_nat m + mbytes m < 2 ^ 64" "ps_nat m + mbytes m < 2 ^ 64"
    using c(2,3) l by (simp_all add: checked_add_None_iff vs_nat_def ps_nat_def)
  ultimately show ?thesis using c(4,5,7,8,9) pos by (intro that [of vl pl]) simp_all
qed

lemma below_half: "unat (vl :: u64) mod 4096 = 0 \<Longrightarrow> vl < push_bit 47 1 \<Longrightarrow> unat vl + 4096 \<le> 2 ^ 47"
proof -
  assume a: "unat vl mod 4096 = 0" "vl < push_bit 47 1"
  then have "unat vl < 2 ^ 47" by (simp add: word_less_nat_alt push_bit_of_1)
  moreover obtain k where "unat vl = 4096 * k" using a(1) by (auto simp: mod_eq_0_iff_dvd)
  ultimately show ?thesis by simp
qed

lemma mapping_okD:
  assumes "mapping_ok m"
  shows "0 < mbytes m" "vs_nat m + mbytes m < 2 ^ 64" "ps_nat m + mbytes m < 2 ^ 64"
    and "ps_nat m + mbytes m \<le> 2 ^ 52"
    and "perm_user (mpermissions m) \<or> perm_low_supervisor_mmio (mpermissions m) \<Longrightarrow> vs_nat m + mbytes m \<le> 2 ^ 47"
    and "\<not> perm_user (mpermissions m) \<Longrightarrow> \<not> perm_low_supervisor_mmio (mpermissions m) \<Longrightarrow>
           0xffff800000000000 \<le> vs_nat m"
proof -
  obtain vl pl where "canonical vl" and l: "unat vl mod 4096 = 0" "pl \<le> MAX_PHYSICAL_ADDRESS"
    "unat vl + 4096 = vs_nat m + mbytes m" "unat pl + 4096 = ps_nat m + mbytes m"
    and b: "vs_nat m + mbytes m < 2 ^ 64" "ps_nat m + mbytes m < 2 ^ 64" "0 < mbytes m"
    and h: "perm_user (mpermissions m) \<longrightarrow> vl < push_bit 47 1"
      "perm_low_supervisor_mmio (mpermissions m) \<longrightarrow> vl < push_bit 47 1"
      "\<not> perm_user (mpermissions m) \<longrightarrow> \<not> perm_low_supervisor_mmio (mpermissions m) \<longrightarrow>
       0xffff800000000000 \<le> virt_get (virtual_start m)"
    by (rule mapping_ok_last [OF assms])
  show "0 < mbytes m" "vs_nat m + mbytes m < 2 ^ 64" "ps_nat m + mbytes m < 2 ^ 64" using b by simp_all
  show "ps_nat m + mbytes m \<le> 2 ^ 52"
    using l(2,4) by (simp add: MAX_PHYSICAL_ADDRESS_def PAGE_SIZE_def word_le_nat_alt)
  show "vs_nat m + mbytes m \<le> 2 ^ 47" if "perm_user (mpermissions m) \<or> perm_low_supervisor_mmio (mpermissions m)"
    using that h(1,2) below_half [OF l(1)] l(3) by auto
  show "0xffff800000000000 \<le> vs_nat m"
    if "\<not> perm_user (mpermissions m)" "\<not> perm_low_supervisor_mmio (mpermissions m)"
    using h(3) that by (simp add: word_le_nat_alt vs_nat_def)
qed

definition spans_apart :: "(mapping \<Rightarrow> nat) \<Rightarrow> mapping \<Rightarrow> mapping \<Rightarrow> bool" where
  "spans_apart f a b \<longleftrightarrow> f a + mbytes a \<le> f b \<or> f b + mbytes b \<le> f a"

definition no_conflict :: "mapping \<Rightarrow> mapping \<Rightarrow> bool" where
  "no_conflict a b \<longleftrightarrow> mapping_conflict a [b] = None"

lemma no_conflict_sym: "no_conflict a b \<longleftrightarrow> no_conflict b a"
  by (auto simp: no_conflict_def as_overlaps_def)

lemma mapping_conflict_None: "mapping_conflict m es = None \<longleftrightarrow> (\<forall>e \<in> set es. no_conflict m e)"
  by (induction es) (auto simp: no_conflict_def)

lemma mapping_ends:
  assumes "mapping_ok m"
  shows "unat (virtual_end m) = vs_nat m + mbytes m" "unat (physical_end m) = ps_nat m + mbytes m"
proof -
  have b: "mbytes m < 2 ^ 64" using mapping_okD(2) [OF assms] by linarith
  have l: "unat (mpages m * PAGE_SIZE) = mbytes m"
    using b by (simp add: unat_word_ariths PAGE_SIZE_def mbytes_def)
  show "unat (virtual_end m) = vs_nat m + mbytes m" "unat (physical_end m) = ps_nat m + mbytes m"
    using mapping_okD(2,3) [OF assms] l
    by (simp_all add: virtual_end_def physical_end_def unat_word_ariths vs_nat_def ps_nat_def)
qed

lemma no_conflict_iff:
  "mapping_ok a \<Longrightarrow> mapping_ok b \<Longrightarrow> no_conflict a b \<longleftrightarrow> spans_apart vs_nat a b \<and> spans_apart ps_nat a b"
  by (auto simp: no_conflict_def as_overlaps_def word_less_nat_alt mapping_ends spans_apart_def not_less
      simp flip: vs_nat_def ps_nat_def)

section \<open>The table of mappings\<close>

definition as_free :: "mapping_id \<Rightarrow> address_space \<Rightarrow> (unit, address_space_error) result \<times> address_space" where
  "as_free i s = (case as_unmap i s of (Ok _, s') \<Rightarrow> (Ok (), s') | (Err e, s') \<Rightarrow> (Err e, s'))"

definition as_view :: "address_space \<Rightarrow> mapping_id \<Rightarrow> mapping option" where
  "as_view s i = (case as_get s i of Ok m \<Rightarrow> Some m | Err _ \<Rightarrow> None)"

definition as_spent :: "address_space \<Rightarrow> mapping_id \<Rightarrow> bool" where
  "as_spent s i \<longleftrightarrow> unat (mi_slot i) < length s \<and>
     (as_generation (s ! unat (mi_slot i)) = 0 \<or> mi_generation i < as_generation (s ! unat (mi_slot i)))"

definition as_apart :: "address_space \<Rightarrow> bool" where
  "as_apart s \<longleftrightarrow> (\<forall>i < length s. \<forall>j < length s. \<forall>m m'.
     i \<noteq> j \<longrightarrow> as_mapping (s ! i) = Some m \<longrightarrow> as_mapping (s ! j) = Some m' \<longrightarrow> no_conflict m m')"

definition as_inv :: "address_space \<Rightarrow> bool" where
  "as_inv s \<longleftrightarrow> length s \<le> 2 ^ 32 \<and> (\<forall>slot \<in> set s. as_mapping slot \<noteq> None \<longrightarrow> as_generation slot \<noteq> 0) \<and>
     as_apart s"

lemma as_view_iff:
  "as_view s i = Some m \<longleftrightarrow> unat (mi_slot i) < length s \<and>
     as_generation (s ! unat (mi_slot i)) = mi_generation i \<and> as_mapping (s ! unat (mi_slot i)) = Some m"
  by (auto simp: as_view_def as_get_def split: result.splits)

lemma as_view_eq:
  "as_view s i = (if unat (mi_slot i) < length s \<and> as_generation (s ! unat (mi_slot i)) = mi_generation i
     then as_mapping (s ! unat (mi_slot i)) else None)"
  by (auto simp: as_view_def as_get_def ok_or_def split: option.splits)

lemma set_as_mappings: "m \<in> set (as_mappings s) \<longleftrightarrow> (\<exists>i < length s. as_mapping (s ! i) = Some m)"
  by (auto simp: as_mappings_def in_flatten_iff)

lemma as_map_okD:
  assumes "as_map m s = (Ok h, s')"
  obtains i where "i < length s" "as_mapping (s ! i) = None" "as_generation (s ! i) \<noteq> 0"
    "h = \<lparr>mi_slot = of_nat i, mi_generation = as_generation (s ! i)\<rparr>"
    "s' = s[i := (s ! i)\<lparr>as_mapping := Some m\<rparr>]" "\<forall>e \<in> set (as_mappings s). no_conflict m e"
proof -
  obtain i where p: "position (\<lambda>slot. as_mapping slot = None \<and> as_generation slot \<noteq> 0) s = Some i"
    and r: "h = \<lparr>mi_slot = of_nat i, mi_generation = as_generation (s ! i)\<rparr>"
      "s' = s[i := (s ! i)\<lparr>as_mapping := Some m\<rparr>]" "\<forall>e \<in> set (as_mappings s). no_conflict m e"
    using assms by (auto simp: as_map_def mapping_conflict_None split: option.splits)
  show ?thesis using position_SomeD [OF p] r by (intro that [of i]) auto
qed

lemma as_map_errD: "as_map m s = (Err e, s') \<Longrightarrow> s' = s"
  by (auto simp: as_map_def split: option.splits)

lemma as_free_okD:
  assumes "as_free h s = (Ok u, s')"
  obtains m where "unat (mi_slot h) < length s" "as_generation (s ! unat (mi_slot h)) = mi_generation h"
    "as_mapping (s ! unat (mi_slot h)) = Some m"
    "s' = s[unat (mi_slot h) := \<lparr>as_mapping = None, as_generation = retire_generation (mi_generation h)\<rparr>]"
  using assms by (auto simp: as_free_def as_unmap_def Let_def split: option.splits if_splits)

lemma as_free_errD: "as_free h s = (Err e, s') \<Longrightarrow> s' = s \<and> as_view s h = None"
  by (auto simp: as_free_def as_unmap_def Let_def as_view_eq split: option.splits if_splits)

lemma as_apart_update:
  assumes "as_apart s" and "\<And>m e. as_mapping slot = Some m \<Longrightarrow> e \<in> set (as_mappings s) \<Longrightarrow> no_conflict m e"
  shows "as_apart (s[i := slot])"
  unfolding as_apart_def
proof (intro allI impI)
  fix a b m m'
  assume l: "a < length (s[i := slot])" "b < length (s[i := slot])" "a \<noteq> b"
    and m: "as_mapping (s[i := slot] ! a) = Some m" "as_mapping (s[i := slot] ! b) = Some m'"
  have old: "e \<in> set (as_mappings s)" if "as_mapping (s ! c) = Some e" "c < length s" for c e
    using that set_as_mappings by blast
  consider "a = i" | "b = i" | "a \<noteq> i" "b \<noteq> i" by blast
  then show "no_conflict m m'"
  proof cases
    case 1
    then show ?thesis using l m assms(2) [of m m'] old [of b m'] by (simp add: nth_update_if)
  next
    case 2
    then have "no_conflict m' m" using l m assms(2) [of m' m] old [of a m] by (simp add: nth_update_if)
    then show ?thesis by (simp add: no_conflict_sym)
  next
    case 3
    then show ?thesis using l m assms(1) by (simp add: nth_update_if as_apart_def)
  qed
qed

lemma as_map_inv: "as_inv s \<Longrightarrow> as_inv (snd (as_map m s))"
proof (cases "as_map m s")
  case (Pair r s')
  assume inv: "as_inv s"
  show ?thesis
  proof (cases r)
    case (Ok h)
    then have okeq: "as_map m s = (Ok h, s')" using Pair by simp
    obtain i where i: "i < length s" "as_generation (s ! i) \<noteq> 0"
      "s' = s[i := (s ! i)\<lparr>as_mapping := Some m\<rparr>]" "\<forall>e \<in> set (as_mappings s). no_conflict m e"
      by (rule as_map_okD [OF okeq])
    have "as_apart s'" unfolding i(3) using inv i(4) by (intro as_apart_update) (auto simp: as_inv_def)
    with i(1-3) inv show ?thesis
      by (auto simp: Pair as_inv_def dest!: set_update_subset_insert [THEN subsetD])
  next
    case (Err e)
    with Pair inv show ?thesis using as_map_errD [of m s e s'] by simp
  qed
qed

lemma as_free_inv: "as_inv s \<Longrightarrow> as_inv (snd (as_free h s))"
proof (cases "as_free h s")
  case (Pair r s')
  assume inv: "as_inv s"
  show ?thesis
  proof (cases r)
    case (Ok u)
    then have okeq: "as_free h s = (Ok u, s')" using Pair by simp
    obtain m where s': "s' = s[unat (mi_slot h) :=
        \<lparr>as_mapping = None, as_generation = retire_generation (mi_generation h)\<rparr>]"
      by (rule as_free_okD [OF okeq])
    have "as_apart s'" unfolding s' using inv by (intro as_apart_update) (auto simp: as_inv_def)
    with s' inv show ?thesis
      by (auto simp: Pair as_inv_def dest!: set_update_subset_insert [THEN subsetD])
  next
    case (Err e)
    with Pair inv show ?thesis using as_free_errD [of h s e s'] by simp
  qed
qed

lemma as_map_view:
  assumes "as_inv s" and "as_map m s = (Ok h, s')"
  shows "as_view s h = None" "as_view s' = (as_view s)(h \<mapsto> m)"
proof -
  obtain i where i: "i < length s" "as_mapping (s ! i) = None"
    "h = \<lparr>mi_slot = of_nat i, mi_generation = as_generation (s ! i)\<rparr>"
    "s' = s[i := (s ! i)\<lparr>as_mapping := Some m\<rparr>]"
    by (rule as_map_okD [OF assms(2)])
  have idx: "unat (of_nat i :: u32) = i"
    using i(1) assms(1) by (auto simp: as_inv_def intro: unat_of_nat_u32)
  show "as_view s h = None" using i idx by (simp add: as_view_eq)
  show "as_view s' = (as_view s)(h \<mapsto> m)"
  proof
    fix d
    show "as_view s' d = ((as_view s)(h \<mapsto> m)) d"
    proof (cases "unat (mi_slot d) = i")
      case True
      then have "mi_slot d = of_nat i" by auto
      with True i idx show ?thesis by (cases d) (auto simp: as_view_eq nth_update_if)
    next
      case False
      then have "d \<noteq> h" using idx i(3) by auto
      with False i show ?thesis by (simp add: as_view_eq nth_update_if)
    qed
  qed
qed

lemma as_free_view:
  assumes "as_inv s" and "as_free h s = (Ok u, s')"
  shows "as_view s h \<noteq> None" "as_view s' = (as_view s)(h := None)" "as_spent s' h"
proof -
  obtain m where m: "unat (mi_slot h) < length s" "as_generation (s ! unat (mi_slot h)) = mi_generation h"
    "as_mapping (s ! unat (mi_slot h)) = Some m"
    "s' = s[unat (mi_slot h) := \<lparr>as_mapping = None, as_generation = retire_generation (mi_generation h)\<rparr>]"
    by (rule as_free_okD [OF assms(2)])
  show "as_view s h \<noteq> None" using m by (simp add: as_view_eq)
  show "as_spent s' h" using m retire_generation_cases [of "mi_generation h"] by (simp add: as_spent_def)
  have gen: "retire_generation (mi_generation h) \<noteq> mi_generation h"
    using m assms(1) retire_generation_cases [of "mi_generation h"] by (auto simp: as_inv_def)
  show "as_view s' = (as_view s)(h := None)"
  proof
    fix d
    show "as_view s' d = ((as_view s)(h := None)) d"
    proof (cases "unat (mi_slot d) = unat (mi_slot h)")
      case True
      then have "mi_slot d = mi_slot h" by (simp add: word_eq_iff_unsigned [where ?'a = nat])
      then show ?thesis using m gen by (cases d; cases h) (auto simp: as_view_eq nth_update_if)
    next
      case False
      then show ?thesis using m by (auto simp: as_view_eq nth_update_if)
    qed
  qed
qed

lemma as_map_spent: "as_spent s h \<Longrightarrow> as_spent (snd (as_map m s)) h"
  by (auto simp: as_map_def as_spent_def nth_update_if split: option.splits)

lemma as_free_spent:
  assumes "as_inv s" "as_spent s h"
  shows "as_spent (snd (as_free g s)) h"
proof (cases "as_free g s")
  case (Pair r s')
  show ?thesis
  proof (cases r)
    case (Ok u)
    then have okeq: "as_free g s = (Ok u, s')" using Pair by simp
    obtain m where m: "unat (mi_slot g) < length s" "as_generation (s ! unat (mi_slot g)) = mi_generation g"
      "as_mapping (s ! unat (mi_slot g)) = Some m"
      "s' = s[unat (mi_slot g) := \<lparr>as_mapping = None, as_generation = retire_generation (mi_generation g)\<rparr>]"
      by (rule as_free_okD [OF okeq])
    have "mi_generation g \<noteq> 0" using m assms(1) by (auto simp: as_inv_def)
    then show ?thesis using m assms(2) retire_generation_cases [of "mi_generation g"]
      by (auto simp: as_spent_def nth_update_if Pair dest: order.strict_trans)
  next
    case (Err e)
    with Pair assms(2) show ?thesis using as_free_errD [of g s e s'] by simp
  qed
qed

interpretation spaces: retiring_table as_view as_inv "\<lambda>m. m" as_map as_free as_spent
proof unfold_locales
  fix s s' :: address_space and m h g e u
  show "as_inv s \<Longrightarrow> as_inv (snd (as_map m s))" by (rule as_map_inv)
  show "as_inv s \<Longrightarrow> as_inv (snd (as_free h s))" by (rule as_free_inv)
  show "as_inv s \<Longrightarrow> as_map m s = (Ok h, s') \<Longrightarrow> as_view s h = None \<and> as_view s' = (as_view s)(h \<mapsto> m)"
    by (simp add: as_map_view)
  show "as_map m s = (Err e, s') \<Longrightarrow> s' = s" by (rule as_map_errD)
  show "as_inv s \<Longrightarrow> as_free h s = (Ok u, s') \<Longrightarrow> as_view s h \<noteq> None \<and> as_view s' = (as_view s)(h := None)"
    using as_free_view(1,2) by blast
  show "as_inv s \<Longrightarrow> as_free h s = (Err e, s') \<Longrightarrow> s' = s \<and> as_view s h = None" by (rule as_free_errD)
  show "as_inv s \<Longrightarrow> as_free h s = (Ok u, s') \<Longrightarrow> as_spent s' h" by (rule as_free_view(3))
  show "as_inv s \<Longrightarrow> as_spent s h \<Longrightarrow> as_view s h = None"
    by (auto simp: as_spent_def as_view_eq as_inv_def)
  show "as_inv s \<Longrightarrow> as_spent s h \<Longrightarrow> as_spent (snd (as_map m s)) h" by (rule as_map_spent)
  show "as_inv s \<Longrightarrow> as_spent s h \<Longrightarrow> as_spent (snd (as_free g s)) h" by (rule as_free_spent)
qed

section \<open>Exclusive mappings\<close>

definition maps_virtual :: "mapping \<Rightarrow> nat \<Rightarrow> bool" where
  "maps_virtual m a \<longleftrightarrow> vs_nat m \<le> a \<and> a < vs_nat m + mbytes m"

definition maps_physical :: "mapping \<Rightarrow> nat \<Rightarrow> bool" where
  "maps_physical m a \<longleftrightarrow> ps_nat m \<le> a \<and> a < ps_nat m + mbytes m"

definition mapping_confined :: "mapping \<Rightarrow> bool" where
  "mapping_confined m \<longleftrightarrow> (\<forall>a. maps_physical m a \<longrightarrow> a < 2 ^ 52) \<and>
     (\<forall>a. maps_virtual m a \<longrightarrow>
        (if perm_user (mpermissions m) \<or> perm_low_supervisor_mmio (mpermissions m)
         then a < 2 ^ 47 else 0xffff800000000000 \<le> a))"

lemma mapping_ok_confined: "mapping_ok m \<Longrightarrow> mapping_confined m"
  using mapping_okD(4-6) [of m] by (auto simp: mapping_confined_def maps_virtual_def maps_physical_def)

lemma as_new_inv: "n \<le> 2 ^ 32 \<Longrightarrow> as_inv (as_new n)"
  by (auto simp: as_new_def as_inv_def as_apart_def AS_SLOT_EMPTY_def)

text \<open>Every mapping of a run from the empty table was an argument of one of its operations.\<close>

lemma as_exec_subset:
  "set (as_mappings (table_exec as_map as_free x s)) \<subseteq>
     set (as_mappings s) \<union> (case x of Alloc m \<Rightarrow> {m} | Release _ \<Rightarrow> {})"
proof (cases x)
  case (Alloc m)
  then show ?thesis
    by (auto simp: as_map_def set_as_mappings nth_update_if split: option.splits if_splits)
next
  case (Release i)
  then show ?thesis
    by (auto simp: as_free_def as_unmap_def Let_def set_as_mappings nth_update_if split: option.splits if_splits)
qed

lemma as_run_subset:
  "set (as_mappings (table_run as_map as_free xs s)) \<subseteq> set (as_mappings s) \<union> {m. Alloc m \<in> set xs}"
proof (induction xs arbitrary: s)
  case (Cons x xs)
  from Cons [of "table_exec as_map as_free x s"] as_exec_subset [of x s] show ?case
    by (cases x) auto
qed simp

lemma as_view_in: "as_view s i = Some m \<Longrightarrow> m \<in> set (as_mappings s)"
  by (auto simp: as_view_iff set_as_mappings)

lemma as_inv_apart:
  assumes "as_inv s" "as_view s i = Some m" "as_view s j = Some m'" "i \<noteq> j"
  shows "no_conflict m m'"
proof -
  have "unat (mi_slot i) \<noteq> unat (mi_slot j)"
    using assms(2-4) by (auto simp: as_view_iff word_eq_iff_unsigned [where ?'a = nat] intro!: mapping_id.equality)
  then show ?thesis using assms(1-3) by (auto simp: as_view_iff as_inv_def as_apart_def)
qed

text \<open>
  Property C5.  After any sequence of map and unmap calls with validated mappings on an empty
  address space, two live mappings with different identities share no virtual address and no
  physical address: a frame is never reached through two mappings, whatever their permissions.
  User mappings and the low supervisor mappings lie in the lower half, every other mapping in the upper
  half, every frame is below the physical limit, and an identity whose mapping was removed is never live again.
\<close>

theorem address_space_exclusive:
  assumes "n \<le> 2 ^ 32" and "\<forall>m. Alloc m \<in> set xs \<longrightarrow> mapping_ok m"
    and "s = table_run as_map as_free xs (as_new n)"
    and "as_get s i = Ok m" and "as_get s j = Ok m'" and "i \<noteq> j"
  shows "(\<forall>a. \<not> (maps_virtual m a \<and> maps_virtual m' a)) \<and> (\<forall>a. \<not> (maps_physical m a \<and> maps_physical m' a)) \<and>
    mapping_confined m \<and>
    as_get (table_run as_map as_free ys (snd (as_unmap i s))) i = Err InvalidMapping"
proof -
  have inv: "as_inv s" unfolding assms(3) by (intro spaces.run_inv as_new_inv assms(1))
  have v: "as_view s i = Some m" "as_view s j = Some m'" using assms(4,5) by (simp_all add: as_view_def)
  have "set (as_mappings s) \<subseteq> {m. Alloc m \<in> set xs}"
    using as_run_subset [of xs "as_new n"] by (simp add: assms(3) as_new_def as_mappings_def AS_SLOT_EMPTY_def)
  then have ok: "mapping_ok m" "mapping_ok m'" using v as_view_in assms(2) by blast+
  have "spans_apart vs_nat m m'" "spans_apart ps_nat m m'"
    using as_inv_apart [OF inv v assms(6)] no_conflict_iff [OF ok] by simp_all
  then have "\<not> (maps_virtual m a \<and> maps_virtual m' a)" "\<not> (maps_physical m a \<and> maps_physical m' a)" for a
    by (auto simp: spans_apart_def maps_virtual_def maps_physical_def)
  moreover have "as_free i s = (Ok (), snd (as_unmap i s))"
    using v(1) by (auto simp: as_free_def as_unmap_def Let_def as_view_iff)
  from spaces.freed_stays_dead [OF inv this, of ys]
  have "as_get (table_run as_map as_free ys (snd (as_unmap i s))) i = Err InvalidMapping"
    by (auto simp: as_view_def as_get_def ok_or_def split: result.splits if_splits option.splits)
  ultimately show ?thesis using mapping_ok_confined [OF ok(1)] by blast
qed

definition demo_user_page :: "u64 \<Rightarrow> u64 \<Rightarrow> mapping" where
  "demo_user_page v p = \<lparr>virtual_start = VirtAddr v, physical_start = PhysAddr p, mpages = 1,
     mpermissions = USER_READ_WRITE\<rparr>"

lemma demo_user_pages:
  "mapping_ok (demo_user_page 0x1000 0x5000)" "mapping_ok (demo_user_page 0x2000 0x6000)"
  by (simp_all add: demo_user_page_def mapping_ok_def mapping_new_def PAGE_SIZE_def checked_mul_def checked_add_def
      virt_new_def MAX_PHYSICAL_ADDRESS_def USER_READ_WRITE_def perm_user_def perm_low_supervisor_mmio_def Let_def)

theorem address_space_exclusive_witness:
  "\<exists>s i j. s = table_run as_map as_free
         [Alloc (demo_user_page 0x1000 0x5000), Alloc (demo_user_page 0x2000 0x6000)] (as_new 2) \<and>
     as_get s i = Ok (demo_user_page 0x1000 0x5000) \<and> as_get s j = Ok (demo_user_page 0x2000 0x6000) \<and>
     as_get (table_run as_map as_free [Alloc (demo_user_page 0x1000 0x5000)] (snd (as_unmap i s))) i
       = Err InvalidMapping"
proof -
  define s where "s = table_run as_map as_free
         [Alloc (demo_user_page 0x1000 0x5000), Alloc (demo_user_page 0x2000 0x6000)] (as_new 2)"
  have "as_get s \<lparr>mi_slot = 0, mi_generation = 1\<rparr> = Ok (demo_user_page 0x1000 0x5000)"
    "as_get s \<lparr>mi_slot = 1, mi_generation = 1\<rparr> = Ok (demo_user_page 0x2000 0x6000)"
    unfolding s_def by code_simp+
  moreover have "\<forall>m. Alloc m \<in> set [Alloc (demo_user_page 0x1000 0x5000), Alloc (demo_user_page 0x2000 0x6000)]
      \<longrightarrow> mapping_ok m"
    using demo_user_pages by auto
  ultimately show ?thesis
    using address_space_exclusive [OF _ _ s_def, of "\<lparr>mi_slot = 0, mi_generation = 1\<rparr>" _
        "\<lparr>mi_slot = 1, mi_generation = 1\<rparr>" _ "[Alloc (demo_user_page 0x1000 0x5000)]"]
      s_def by auto
qed

end
