(* ===== verification/Page_Table.thy ===== *)
theory Page_Table
  imports Address_Space
begin

text \<open>
  Four-level page tables, after \<open>crates/mrml-kernel/src/arch/x86_64/page_table.rs\<close>: the
  store contract of page-table frames, the monotonic arena store and the identity-mapped store
  over a physical memory of 64-bit words, the builder that maps, protects and unmaps pages, the
  bounded clone of a supervisor hierarchy, and the inspection of the active tables.  The store
  contract is the locale \<open>table_store\<close>, interpreted on the arena store; inside it the
  builder is shown to implement a partial map from pages to leaf entries.
\<close>

section \<open>Definitions\<close>

definition LEAF_ACCESSED_DIRTY :: u64 where "LEAF_ACCESSED_DIRTY = push_bit 5 1 OR push_bit 6 1"

datatype build_error =
  Storage | InvalidIntermediate | AlreadyMapped | NotMapped | MappingMismatch | AddressOverflow | PtPage page_error

record active_leaf =
  al_physical :: phys_addr
  al_writable :: bool
  al_executable :: bool
  al_user :: bool

record 's page_table_store =
  ps_allocate_zeroed :: "'s \<Rightarrow> (phys_addr, build_error) result \<times> 's"
  ps_read :: "'s \<Rightarrow> phys_addr \<Rightarrow> nat \<Rightarrow> (u64, build_error) result"
  ps_write :: "phys_addr \<Rightarrow> nat \<Rightarrow> u64 \<Rightarrow> 's \<Rightarrow> (unit, build_error) result \<times> 's"

subsection \<open>Stores over physical memory\<close>

text \<open>A memory maps the address of an aligned 64-bit word to its value.\<close>

type_synonym phys_memory = "u64 \<Rightarrow> u64"

definition entry_address :: "u64 \<Rightarrow> nat \<Rightarrow> u64" where
  "entry_address table index = table + 8 * of_nat index"

record arena =
  ar_base :: phys_addr
  ar_capacity :: nat
  ar_allocated :: nat
  ar_memory :: phys_memory

definition arena_new :: "phys_addr \<Rightarrow> u64 \<Rightarrow> phys_memory \<Rightarrow> (arena, build_error) result" where
  "arena_new base pages memory =
     (let capacity = unat pages in
      if capacity = 0 \<or> capacity > 256 \<or> phys_get base mod PAGE_SIZE \<noteq> 0
         \<or> (case checked_mul pages PAGE_SIZE of
              None \<Rightarrow> True
            | Some bytes \<Rightarrow> (case checked_add (phys_get base) bytes of
                None \<Rightarrow> True | Some e \<Rightarrow> drop_bit 52 e \<noteq> 0))
      then Err Storage
      else Ok \<lparr>ar_base = base, ar_capacity = capacity, ar_allocated = 0, ar_memory = memory\<rparr>)"

definition issued_table :: "arena \<Rightarrow> phys_addr \<Rightarrow> (nat, build_error) result" where
  "issued_table s table =
     (if phys_get table < phys_get (ar_base s) then Err Storage
      else let offset = phys_get table - phys_get (ar_base s) in
        if offset mod PAGE_SIZE \<noteq> 0 then Err Storage
        else let page = unat (offset div PAGE_SIZE) in
          if page \<ge> ar_allocated s then Err Storage else Ok page)"

definition zero_frame :: "u64 \<Rightarrow> phys_memory \<Rightarrow> phys_memory" where
  "zero_frame address = fold (\<lambda>index m. m(entry_address address index := 0)) [0..<512]"

definition arena_allocate_zeroed :: "arena \<Rightarrow> (phys_addr, build_error) result \<times> arena" where
  "arena_allocate_zeroed s =
     (if ar_allocated s = ar_capacity s then (Err Storage, s)
      else case checked_add (phys_get (ar_base s)) (of_nat (ar_allocated s) * PAGE_SIZE) of
        None \<Rightarrow> (Err Storage, s)
      | Some address \<Rightarrow>
          (case phys_new address of
             Err _ \<Rightarrow> (Err Storage, s)
           | Ok frame \<Rightarrow>
               (Ok frame, s\<lparr>ar_allocated := ar_allocated s + 1,
                             ar_memory := zero_frame address (ar_memory s)\<rparr>)))"

definition arena_read :: "arena \<Rightarrow> phys_addr \<Rightarrow> nat \<Rightarrow> (u64, build_error) result" where
  "arena_read s table index =
     (if index \<ge> 512 then Err Storage
      else case issued_table s table of
        Err e \<Rightarrow> Err e
      | Ok _ \<Rightarrow> Ok (ar_memory s (entry_address (phys_get table) index)))"

definition arena_write :: "phys_addr \<Rightarrow> nat \<Rightarrow> u64 \<Rightarrow> arena \<Rightarrow> (unit, build_error) result \<times> arena" where
  "arena_write table index value s =
     (if index \<ge> 512 then (Err Storage, s)
      else case issued_table s table of
        Err e \<Rightarrow> (Err e, s)
      | Ok _ \<Rightarrow> (Ok (), s\<lparr>ar_memory := (ar_memory s)(entry_address (phys_get table) index := value)\<rparr>))"

definition arena_store :: "arena page_table_store" where
  "arena_store = \<lparr>ps_allocate_zeroed = arena_allocate_zeroed, ps_read = arena_read, ps_write = arena_write\<rparr>"

definition identity_store :: "phys_memory page_table_store" where
  "identity_store =
     \<lparr>ps_allocate_zeroed = (\<lambda>m. (Err Storage, m)),
      ps_read = (\<lambda>m table index. if index \<ge> 512 then Err Storage
                  else Ok (m (entry_address (phys_get table) index))),
      ps_write = (\<lambda>table index value m. if index \<ge> 512 then (Err Storage, m)
                  else (Ok (), m(entry_address (phys_get table) index := value)))\<rparr>"

subsection \<open>The builder\<close>

record 's page_table_builder =
  tb_store :: 's
  tb_root :: phys_addr

definition builder_new ::
  "'s page_table_store \<Rightarrow> 's \<Rightarrow> ('s page_table_builder, build_error) result" where
  "builder_new ops s =
     (case ps_allocate_zeroed ops s of
        (Err e, _) \<Rightarrow> Err e
      | (Ok root, s) \<Rightarrow> Ok \<lparr>tb_store = s, tb_root = root\<rparr>)"

definition reserved_bits :: "u64 \<Rightarrow> bool" where
  "reserved_bits e \<longleftrightarrow> e AND NOT (push_bit 63 1 OR 0xfff OR ADDRESS_MASK) \<noteq> 0"

definition descend ::
  "'s page_table_store \<Rightarrow> phys_addr \<Rightarrow> nat \<Rightarrow> bool \<Rightarrow> 's \<Rightarrow> (phys_addr, build_error) result \<times> 's" where
  "descend ops parent index user s =
     (case ps_read ops s parent index of
        Err e \<Rightarrow> (Err e, s)
      | Ok current \<Rightarrow>
      if current AND 1 = 0 then
        (case ps_allocate_zeroed ops s of
           (Err e, s) \<Rightarrow> (Err e, s)
         | (Ok child, s) \<Rightarrow>
             (case entry_table child user of
                Err e \<Rightarrow> (Err (PtPage e), s)
              | Ok entry \<Rightarrow>
                  (case ps_write ops parent index (entry_bits entry) s of
                     (Err e, s) \<Rightarrow> (Err e, s)
                   | (Ok _, s) \<Rightarrow> (Ok child, s))))
      else if current AND push_bit 7 1 \<noteq> 0 \<or> reserved_bits current then (Err InvalidIntermediate, s)
      else
        (case (if user \<and> current AND push_bit 2 1 = 0
               then ps_write ops parent index (current OR push_bit 2 1) s else (Ok (), s)) of
           (Err e, s) \<Rightarrow> (Err e, s)
         | (Ok _, s) \<Rightarrow> (map_err (\<lambda>_. InvalidIntermediate) (phys_new (current AND ADDRESS_MASK)), s)))"

definition map_page ::
  "'s page_table_store \<Rightarrow> virt_addr \<Rightarrow> phys_addr \<Rightarrow> page_permissions \<Rightarrow> phys_addr \<Rightarrow> 's \<Rightarrow>
     (unit, build_error) result \<times> 's" where
  "map_page ops v p permissions root s =
     (let user = perm_user permissions in
      case descend ops root (pml4_index v) user s of
        (Err e, s) \<Rightarrow> (Err e, s)
      | (Ok pdpt, s) \<Rightarrow>
      (case descend ops pdpt (pdpt_index v) user s of
        (Err e, s) \<Rightarrow> (Err e, s)
      | (Ok directory, s) \<Rightarrow>
      (case descend ops directory (directory_index v) user s of
        (Err e, s) \<Rightarrow> (Err e, s)
      | (Ok table, s) \<Rightarrow>
      (case ps_read ops s table (table_index v) of
        Err e \<Rightarrow> (Err e, s)
      | Ok current \<Rightarrow>
      if current AND 1 \<noteq> 0 then (Err AlreadyMapped, s)
      else case entry_leaf p permissions of
        Err e \<Rightarrow> (Err (PtPage e), s)
      | Ok leaf \<Rightarrow> ps_write ops table (table_index v) (entry_bits leaf) s))))"

definition mapping_page :: "mapping \<Rightarrow> u64 \<Rightarrow> (virt_addr \<times> phys_addr, build_error) result" where
  "mapping_page m page =
     (case checked_mul page PAGE_SIZE of
        None \<Rightarrow> Err AddressOverflow
      | Some offset \<Rightarrow>
      (case checked_add (virt_get (virtual_start m)) offset of
        None \<Rightarrow> Err AddressOverflow
      | Some va \<Rightarrow>
      (case checked_add (phys_get (physical_start m)) offset of
        None \<Rightarrow> Err AddressOverflow
      | Some pa \<Rightarrow>
      (case virt_new va of
        Err e \<Rightarrow> Err (PtPage e)
      | Ok v \<Rightarrow>
      (case phys_new pa of
        Err _ \<Rightarrow> Err AddressOverflow
      | Ok p \<Rightarrow> Ok (v, p))))))"

definition mapping_range :: "mapping \<Rightarrow> u64 list" where
  "mapping_range m = map of_nat [0..<unat (mpages m)]"

fun map_pages ::
  "'s page_table_store \<Rightarrow> mapping \<Rightarrow> phys_addr \<Rightarrow> u64 list \<Rightarrow> 's \<Rightarrow> (unit, build_error) result \<times> 's" where
  "map_pages ops m root [] s = (Ok (), s)"
| "map_pages ops m root (page # rest) s =
     (case mapping_page m page of
        Err e \<Rightarrow> (Err e, s)
      | Ok (v, p) \<Rightarrow>
          (case map_page ops v p (mpermissions m) root s of
             (Err e, s) \<Rightarrow> (Err e, s)
           | (Ok _, s) \<Rightarrow> map_pages ops m root rest s))"

definition table_map ::
  "'s page_table_store \<Rightarrow> mapping \<Rightarrow> 's page_table_builder \<Rightarrow>
     (unit, build_error) result \<times> 's page_table_builder" where
  "table_map ops m b =
     (case map_pages ops m (tb_root b) (mapping_range m) (tb_store b) of (r, s) \<Rightarrow> (r, b\<lparr>tb_store := s\<rparr>))"

fun walk_tables ::
  "'s page_table_store \<Rightarrow> 's \<Rightarrow> phys_addr \<Rightarrow> nat list \<Rightarrow> (phys_addr, build_error) result" where
  "walk_tables ops s table [] = Ok table"
| "walk_tables ops s table (index # rest) =
     (case ps_read ops s table index of
        Err e \<Rightarrow> Err e
      | Ok entry \<Rightarrow>
          if entry AND 1 = 0 then Err NotMapped
          else if entry AND push_bit 7 1 \<noteq> 0 \<or> reserved_bits entry then Err InvalidIntermediate
          else case phys_new (entry AND ADDRESS_MASK) of
            Err _ \<Rightarrow> Err InvalidIntermediate
          | Ok t \<Rightarrow> walk_tables ops s t rest)"

definition leaf_location ::
  "'s page_table_store \<Rightarrow> 's \<Rightarrow> phys_addr \<Rightarrow> virt_addr \<Rightarrow> (phys_addr \<times> nat, build_error) result" where
  "leaf_location ops s root v =
     (case walk_tables ops s root [pml4_index v, pdpt_index v, directory_index v] of
        Err e \<Rightarrow> Err e
      | Ok table \<Rightarrow> Ok (table, table_index v))"

definition expect_leaf ::
  "'s page_table_store \<Rightarrow> 's \<Rightarrow> phys_addr \<Rightarrow> mapping \<Rightarrow> u64 \<Rightarrow> (phys_addr, build_error) result" where
  "expect_leaf ops s root expected page =
     (case mapping_page expected page of
        Err e \<Rightarrow> Err e
      | Ok (v, p) \<Rightarrow>
      (case leaf_location ops s root v of
        Err e \<Rightarrow> Err e
      | Ok (table, index) \<Rightarrow>
      (case ps_read ops s table index of
        Err e \<Rightarrow> Err e
      | Ok current \<Rightarrow>
      if current AND 1 = 0 then Err NotMapped
      else case entry_leaf p (mpermissions expected) of
        Err e \<Rightarrow> Err (PtPage e)
      | Ok wanted \<Rightarrow>
          if current AND NOT LEAF_ACCESSED_DIRTY \<noteq> entry_bits wanted then Err MappingMismatch
          else Ok p)))"

fun protect_check ::
  "'s page_table_store \<Rightarrow> 's \<Rightarrow> phys_addr \<Rightarrow> mapping \<Rightarrow> page_permissions \<Rightarrow> u64 list \<Rightarrow>
     (unit, build_error) result" where
  "protect_check ops s root expected final [] = Ok ()"
| "protect_check ops s root expected final (page # rest) =
     (case expect_leaf ops s root expected page of
        Err e \<Rightarrow> Err e
      | Ok p \<Rightarrow>
          (case entry_leaf p final of
             Err e \<Rightarrow> Err (PtPage e)
           | Ok _ \<Rightarrow> protect_check ops s root expected final rest))"

fun protect_write ::
  "'s page_table_store \<Rightarrow> phys_addr \<Rightarrow> mapping \<Rightarrow> page_permissions \<Rightarrow> u64 list \<Rightarrow> 's \<Rightarrow>
     (unit, build_error) result \<times> 's" where
  "protect_write ops root expected final [] s = (Ok (), s)"
| "protect_write ops root expected final (page # rest) s =
     (case mapping_page expected page of
        Err e \<Rightarrow> (Err e, s)
      | Ok (v, p) \<Rightarrow>
      (case leaf_location ops s root v of
        Err e \<Rightarrow> (Err e, s)
      | Ok (table, index) \<Rightarrow>
      (case entry_leaf p final of
        Err e \<Rightarrow> (Err (PtPage e), s)
      | Ok final_entry \<Rightarrow>
      (case ps_read ops s table index of
        Err e \<Rightarrow> (Err e, s)
      | Ok current \<Rightarrow>
      (case ps_write ops table index (entry_bits final_entry OR (current AND LEAF_ACCESSED_DIRTY)) s of
        (Err e, s) \<Rightarrow> (Err e, s)
      | (Ok _, s) \<Rightarrow> protect_write ops root expected final rest s)))))"

definition table_protect ::
  "'s page_table_store \<Rightarrow> mapping \<Rightarrow> page_permissions \<Rightarrow> 's page_table_builder \<Rightarrow>
     (unit, build_error) result \<times> 's page_table_builder" where
  "table_protect ops expected final b =
     (case protect_check ops (tb_store b) (tb_root b) expected final (mapping_range expected) of
        Err e \<Rightarrow> (Err e, b)
      | Ok _ \<Rightarrow>
          (case protect_write ops (tb_root b) expected final (mapping_range expected) (tb_store b) of
             (r, s) \<Rightarrow> (r, b\<lparr>tb_store := s\<rparr>)))"

fun unmap_check ::
  "'s page_table_store \<Rightarrow> 's \<Rightarrow> phys_addr \<Rightarrow> mapping \<Rightarrow> u64 list \<Rightarrow> (unit, build_error) result" where
  "unmap_check ops s root expected [] = Ok ()"
| "unmap_check ops s root expected (page # rest) =
     (case expect_leaf ops s root expected page of
        Err e \<Rightarrow> Err e
      | Ok _ \<Rightarrow> unmap_check ops s root expected rest)"

fun unmap_write ::
  "'s page_table_store \<Rightarrow> phys_addr \<Rightarrow> mapping \<Rightarrow> u64 list \<Rightarrow> 's \<Rightarrow> (unit, build_error) result \<times> 's" where
  "unmap_write ops root expected [] s = (Ok (), s)"
| "unmap_write ops root expected (page # rest) s =
     (case mapping_page expected page of
        Err e \<Rightarrow> (Err e, s)
      | Ok (v, _) \<Rightarrow>
      (case leaf_location ops s root v of
        Err e \<Rightarrow> (Err e, s)
      | Ok (table, index) \<Rightarrow>
      (case ps_write ops table index 0 s of
        (Err e, s) \<Rightarrow> (Err e, s)
      | (Ok _, s) \<Rightarrow> unmap_write ops root expected rest s)))"

definition table_unmap_exact ::
  "'s page_table_store \<Rightarrow> mapping \<Rightarrow> 's page_table_builder \<Rightarrow>
     (unit, build_error) result \<times> 's page_table_builder" where
  "table_unmap_exact ops expected b =
     (case unmap_check ops (tb_store b) (tb_root b) expected (mapping_range expected) of
        Err e \<Rightarrow> (Err e, b)
      | Ok _ \<Rightarrow>
          (case unmap_write ops (tb_root b) expected (mapping_range expected) (tb_store b) of
             (r, s) \<Rightarrow> (r, b\<lparr>tb_store := s\<rparr>)))"

section \<open>Bits of table entries\<close>

abbreviation entry_target :: "u64 \<Rightarrow> phys_addr" where
  "entry_target e \<equiv> PhysAddr (e AND ADDRESS_MASK)"

abbreviation present :: "u64 \<Rightarrow> bool" where
  "present e \<equiv> bit e 0"

definition frame_aligned :: "phys_addr \<Rightarrow> bool" where
  "frame_aligned f \<longleftrightarrow> phys_get f mod PAGE_SIZE = 0"

definition link_ok :: "u64 \<Rightarrow> bool" where
  "link_ok e \<longleftrightarrow> \<not> bit e 7 \<and> \<not> reserved_bits e"

lemma bit_flag1: "n < 64 \<Longrightarrow> bit (push_bit n (1 :: u64)) i \<longleftrightarrow> i = n"
  using bit_flag [of True n i] by (simp del: push_bit_of_1)

lemma phys_new_masked [simp]: "phys_new (e AND ADDRESS_MASK) = Ok (entry_target e)"
proof -
  have "(e AND ADDRESS_MASK) mod PAGE_SIZE = 0"
    by (auto simp: aligned_iff_bits bit_and_iff address_mask_bits)
  then show ?thesis by (simp add: phys_new_def)
qed

lemma reserved_bits_iff: "reserved_bits e \<longleftrightarrow> (\<exists>i. 52 \<le> i \<and> i < 63 \<and> bit e i)"
proof -
  have m: "(0xfff :: u64) = mask 12" by (simp add: mask_eq_exp_minus_1)
  have b: "bit (push_bit 63 1 OR 0xfff OR ADDRESS_MASK) i \<longleftrightarrow> i = 63 \<or> i < 52" for i
    unfolding m bit_or_iff bit_mask_iff address_mask_bits
    by (simp add: bit_flag1 del: push_bit_of_1) linarith
  have "reserved_bits e \<longleftrightarrow> (\<exists>i. bit (e AND NOT (push_bit 63 1 OR 0xfff OR ADDRESS_MASK)) i)"
    unfolding reserved_bits_def by (metis bit_0_eq bot_apply bot_bool_def bit_eq_iff)
  also have "\<dots> \<longleftrightarrow> (\<exists>i. bit e i \<and> i < 64 \<and> \<not> (i = 63 \<or> i < 52))"
    unfolding bit_and_iff bit_not_iff b by (auto simp: bit_u64_less)
  also have "\<dots> \<longleftrightarrow> (\<exists>i. 52 \<le> i \<and> i < 63 \<and> bit e i)" by (auto simp: not_less)
  finally show ?thesis .
qed

lemma table_entry_link:
  assumes "entry_table f user = Ok e" and "frame_aligned f"
  shows "present (entry_bits e)" "entry_target (entry_bits e) = f" "link_ok (entry_bits e)"
    and "bit (entry_bits e) 1" "bit (entry_bits e) 2 = user" "\<not> bit (entry_bits e) 63"
proof -
  have lim: "phys_get f \<le> MAX_PHYSICAL_ADDRESS" using assms(1) by (auto simp: entry_table_def split: if_splits)
  note fb = frame_bits [OF lim assms(2) [unfolded frame_aligned_def]]
  note eb = bit_table [OF assms(1)]
  have "entry_bits e AND ADDRESS_MASK = phys_get f"
  proof (rule bit_word_eqI)
    fix i
    show "bit (entry_bits e AND ADDRESS_MASK) i = bit (phys_get f) i"
      using fb [of i] by (auto simp: bit_and_iff eb address_mask_bits)
  qed
  then show "entry_target (entry_bits e) = f" by simp
  show "present (entry_bits e)" "bit (entry_bits e) 1" by (simp_all add: eb)
  show "bit (entry_bits e) 2 = user" "\<not> bit (entry_bits e) 63" "link_ok (entry_bits e)"
    using fb by (fastforce simp: eb link_ok_def reserved_bits_iff)+
qed

lemma user_link:
  "(e OR push_bit 2 1) AND ADDRESS_MASK = e AND ADDRESS_MASK" "present (e OR push_bit 2 1) = present e"
  "link_ok (e OR push_bit 2 1) = link_ok e" "bit (e OR push_bit 2 1) 2"
  "bit (e OR push_bit 2 1) 1 = bit e 1" "bit (e OR push_bit 2 1) 63 = bit e 63"
proof -
  have b: "bit (e OR push_bit 2 1) i \<longleftrightarrow> bit e i \<or> i = 2" for i
    unfolding bit_or_iff by (simp add: bit_flag1 del: push_bit_of_1)
  show "(e OR push_bit 2 1) AND ADDRESS_MASK = e AND ADDRESS_MASK"
    by (rule bit_word_eqI, unfold bit_and_iff b address_mask_bits) auto
  show "present (e OR push_bit 2 1) = present e" "bit (e OR push_bit 2 1) 2"
    "bit (e OR push_bit 2 1) 1 = bit e 1" "bit (e OR push_bit 2 1) 63 = bit e 63"
    unfolding b by auto
  show "link_ok (e OR push_bit 2 1) = link_ok e"
    unfolding link_ok_def reserved_bits_iff b by auto
qed

lemma leaf_present: "entry_leaf f p = Ok e \<Longrightarrow> present (entry_bits e)"
  by (simp add: bit_leaf)

section \<open>Hierarchies of tables\<close>

text \<open>
  A hierarchy is a set of tables with their words.  \<open>path\<close> gives every table the indices that
  lead to it from the root, so that no table is linked twice; tables three links below the root
  hold leaf entries.  An entry above a user table entry is a user entry; with the parameter \<open>z\<close> the same holds
  above user leaf entries, which every operation keeps but a protect call that turns a supervisor page
  into a user page.
\<close>

type_synonym table_words = "phys_addr \<Rightarrow> nat \<Rightarrow> u64"

fun table_walk :: "table_words \<Rightarrow> phys_addr \<Rightarrow> nat list \<Rightarrow> phys_addr option" where
  "table_walk w t [] = Some t"
| "table_walk w t (i # is) = (if present (w t i) then table_walk w (entry_target (w t i)) is else None)"

definition page_lookup :: "table_words \<Rightarrow> phys_addr \<Rightarrow> nat list \<Rightarrow> nat \<Rightarrow> u64 option" where
  "page_lookup w root is j =
     (case table_walk w root is of
        None \<Rightarrow> None
      | Some t \<Rightarrow> if present (w t j) then Some (w t j) else None)"

definition table_tree :: "bool \<Rightarrow> phys_addr set \<Rightarrow> table_words \<Rightarrow> phys_addr \<Rightarrow> (phys_addr \<Rightarrow> nat list) \<Rightarrow> bool" where
  "table_tree z T w root path \<longleftrightarrow> root \<in> T \<and> path root = [] \<and>
     (\<forall>t \<in> T. \<forall>i < 512. length (path t) < 3 \<longrightarrow> present (w t i) \<longrightarrow>
        link_ok (w t i) \<and> entry_target (w t i) \<in> T \<and> path (entry_target (w t i)) = path t @ [i] \<and>
        (\<forall>j < 512. present (w (entry_target (w t i)) j) \<longrightarrow> bit (w (entry_target (w t i)) j) 2 \<longrightarrow>
           z \<or> length (path t) < 2 \<longrightarrow> bit (w t i) 2)) \<and>
     (\<forall>t \<in> T. \<forall>i < 512. \<forall>t' \<in> T. \<forall>i' < 512. length (path t) < 3 \<longrightarrow> length (path t') < 3 \<longrightarrow>
        present (w t i) \<longrightarrow> present (w t' i') \<longrightarrow> entry_target (w t i) = entry_target (w t' i') \<longrightarrow> t = t' \<and> i = i')"

lemma table_treeD:
  assumes "table_tree z T w root path" "t \<in> T" "i < 512" "length (path t) < 3" "present (w t i)"
  shows "link_ok (w t i)" "entry_target (w t i) \<in> T" "path (entry_target (w t i)) = path t @ [i]"
    and "j < 512 \<Longrightarrow> present (w (entry_target (w t i)) j) \<Longrightarrow> bit (w (entry_target (w t i)) j) 2 \<Longrightarrow>
           z \<or> length (path t) < 2 \<Longrightarrow> bit (w t i) 2"
  using assms unfolding table_tree_def by blast+

lemma table_tree_link_unique:
  assumes "table_tree z T w root path" "t \<in> T" "i < 512" "t' \<in> T" "i' < 512" "length (path t) < 3" "length (path t') < 3"
    "present (w t i)" "present (w t' i')" "entry_target (w t i) = entry_target (w t' i')"
  shows "t = t' \<and> i = i'"
  using assms unfolding table_tree_def by blast

lemma table_treeI:
  assumes "root \<in> T" "path root = []"
    and "\<And>t i. t \<in> T \<Longrightarrow> i < 512 \<Longrightarrow> length (path t) < 3 \<Longrightarrow> present (w t i) \<Longrightarrow>
        link_ok (w t i) \<and> entry_target (w t i) \<in> T \<and> path (entry_target (w t i)) = path t @ [i]"
    and "\<And>t i j. t \<in> T \<Longrightarrow> i < 512 \<Longrightarrow> length (path t) < 3 \<Longrightarrow> present (w t i) \<Longrightarrow> j < 512 \<Longrightarrow>
        present (w (entry_target (w t i)) j) \<Longrightarrow> bit (w (entry_target (w t i)) j) 2 \<Longrightarrow>
        z \<or> length (path t) < 2 \<Longrightarrow> bit (w t i) 2"
    and "\<And>t i t' i'. t \<in> T \<Longrightarrow> i < 512 \<Longrightarrow> t' \<in> T \<Longrightarrow> i' < 512 \<Longrightarrow> length (path t) < 3 \<Longrightarrow> length (path t') < 3 \<Longrightarrow>
        present (w t i) \<Longrightarrow> present (w t' i') \<Longrightarrow> entry_target (w t i) = entry_target (w t' i') \<Longrightarrow> t = t' \<and> i = i'"
  shows "table_tree z T w root path"
  unfolding table_tree_def using assms by blast

lemma table_tree_root: "table_tree z T w root path \<Longrightarrow> root \<in> T \<and> path root = []"
  by (simp add: table_tree_def)

lemma table_walk_path:
  assumes "table_tree z T w root path" "t \<in> T" "\<forall>i \<in> set is. i < 512" "length (path t) + length is \<le> 3"
    and "table_walk w t is = Some u"
  shows "u \<in> T \<and> path u = path t @ is"
  using assms(2-5)
proof (induction "is" arbitrary: t)
  case (Cons i "is")
  then have p: "present (w t i)" "table_walk w (entry_target (w t i)) is = Some u" by (simp_all split: if_splits)
  have "length (path t) < 3" "i < 512" using Cons.prems by auto
  note d = table_treeD [OF assms(1) Cons.prems(1) this(2,1) p(1)]
  show ?case using Cons.IH [OF d(2) _ _ p(2)] Cons.prems d(3) by auto
qed simp

lemma table_walk_cong:
  assumes "table_tree z T w root path" "t \<in> T" "\<forall>i \<in> set is. i < 512" "length (path t) + length is \<le> 3"
    and "\<And>t i. t \<in> T \<Longrightarrow> i < 512 \<Longrightarrow> length (path t) < 3 \<Longrightarrow>
           present (w' t i) = present (w t i) \<and> entry_target (w' t i) = entry_target (w t i)"
  shows "table_walk w' t is = table_walk w t is"
  using assms(2-4)
proof (induction "is" arbitrary: t)
  case (Cons i "is")
  have l: "length (path t) < 3" "i < 512" using Cons.prems by auto
  note e = assms(5) [OF Cons.prems(1) l(2,1)]
  show ?case
  proof (cases "present (w t i)")
    case True
    note d = table_treeD [OF assms(1) Cons.prems(1) l(2,1) True]
    have "table_walk w' (entry_target (w t i)) is = table_walk w (entry_target (w t i)) is"
      using Cons.prems d(3) by (intro Cons.IH [OF d(2)]) auto
    with e True show ?thesis by simp
  qed (use e in simp)
qed simp

text \<open>Linking a fresh, empty table into a free entry adds nothing a lookup could find.\<close>

lemma table_walk_link:
  assumes "table_tree z T w root path" "t \<in> T" "\<forall>i \<in> set is. i < 512" "length (path t) + length is \<le> 3"
    and "\<not> present (w p k)" "entry_target e = c" "\<forall>i < 512. w' c i = 0"
    and "\<And>t i. t \<in> T \<Longrightarrow> i < 512 \<Longrightarrow> w' t i = (if t = p \<and> i = k then e else w t i)"
  shows "table_walk w' t is = table_walk w t is \<or> (table_walk w t is = None \<and> table_walk w' t is = Some c)"
  using assms(2-4)
proof (induction "is" arbitrary: t)
  case (Cons i "is")
  have l: "length (path t) < 3" "i < 512" using Cons.prems by auto
  note e = assms(8) [OF Cons.prems(1) l(2)]
  show ?case
  proof (cases "t = p \<and> i = k")
    case True
    have "table_walk w' c is = None \<or> table_walk w' c is = Some c"
      using assms(7) Cons.prems(2) by (cases "is") auto
    with True show ?thesis using e assms(5,6) by auto
  next
    case False
    note e = e [unfolded if_not_P [OF False]]
    show ?thesis
    proof (cases "present (w t i)")
      case True
      note d = table_treeD [OF assms(1) Cons.prems(1) l(2,1) True]
      have "table_walk w' (entry_target (w t i)) is = table_walk w (entry_target (w t i)) is \<or>
          (table_walk w (entry_target (w t i)) is = None \<and> table_walk w' (entry_target (w t i)) is = Some c)"
        using Cons.prems d(3) by (intro Cons.IH [OF d(2)]) auto
      with True e show ?thesis by simp
    qed (use e in simp)
  qed
qed simp

section \<open>Interface: a store of page tables\<close>

text \<open>
  What the builder relies on: allocation returns a fresh, aligned, zeroed table and changes no
  other, words of issued tables can be read and written, and a write changes one word.
\<close>

locale table_store =
  fixes ops :: "'s page_table_store"
    and inv :: "'s \<Rightarrow> bool"
    and tables :: "'s \<Rightarrow> phys_addr set"
    and words :: "'s \<Rightarrow> table_words"
  assumes alloc_ok: "inv s \<Longrightarrow> ps_allocate_zeroed ops s = (Ok f, s') \<Longrightarrow>
          inv s' \<and> f \<notin> tables s \<and> tables s' = insert f (tables s) \<and> frame_aligned f \<and>
          (\<forall>i < 512. words s' f i = 0) \<and> (\<forall>t \<in> tables s. \<forall>i < 512. words s' t i = words s t i)"
    and alloc_err: "ps_allocate_zeroed ops s = (Err x, s') \<Longrightarrow> s' = s"
    and read_ok: "inv s \<Longrightarrow> t \<in> tables s \<Longrightarrow> i < 512 \<Longrightarrow> ps_read ops s t i = Ok (words s t i)"
    and write_ok: "inv s \<Longrightarrow> t \<in> tables s \<Longrightarrow> i < 512 \<Longrightarrow>
          \<exists>s'. ps_write ops t i e s = (Ok (), s') \<and> inv s' \<and> tables s' = tables s \<and>
            (\<forall>u \<in> tables s. \<forall>j < 512. words s' u j = (if u = t \<and> j = i then e else words s u j))"
begin

text \<open>A hierarchy in the store, and how an operation that only adds structure changes it.\<close>

definition tree :: "bool \<Rightarrow> 's \<Rightarrow> phys_addr \<Rightarrow> (phys_addr \<Rightarrow> nat list) \<Rightarrow> bool" where
  "tree z s root path \<longleftrightarrow> inv s \<and> table_tree z (tables s) (words s) root path"

definition same_pages :: "'s \<Rightarrow> 's \<Rightarrow> phys_addr \<Rightarrow> bool" where
  "same_pages s s' root \<longleftrightarrow> (\<forall>is j. length is = 3 \<longrightarrow> (\<forall>i \<in> set is. i < 512) \<longrightarrow> j < 512 \<longrightarrow>
     page_lookup (words s') root is j = page_lookup (words s) root is j)"

lemma same_pages_refl [simp]: "same_pages s s root"
  by (simp add: same_pages_def)

lemma same_pages_trans: "same_pages s s' root \<Longrightarrow> same_pages s' s'' root \<Longrightarrow> same_pages s s'' root"
  by (simp add: same_pages_def)

lemma walk_tables_eq:
  assumes "tree z s root path" "t \<in> tables s" "\<forall>i \<in> set is. i < 512" "length (path t) + length is \<le> 3"
  shows "walk_tables ops s t is =
     (case table_walk (words s) t is of Some u \<Rightarrow> Ok u | None \<Rightarrow> Err NotMapped)"
  using assms(2-4)
proof (induction "is" arbitrary: t)
  case (Cons i "is")
  have l: "length (path t) < 3" "i < 512" using Cons.prems by auto
  have inv: "inv s" and tr: "table_tree z (tables s) (words s) root path" using assms(1) by (simp_all add: tree_def)
  note r = read_ok [OF inv Cons.prems(1) l(2)]
  show ?case
  proof (cases "present (words s t i)")
    case True
    note d = table_treeD [OF tr Cons.prems(1) l(2,1) True]
    have "walk_tables ops s (entry_target (words s t i)) is =
        (case table_walk (words s) (entry_target (words s t i)) is of Some u \<Rightarrow> Ok u | None \<Rightarrow> Err NotMapped)"
      using Cons.prems d(3) by (intro Cons.IH [OF d(2)]) auto
    with True d(1) r show ?thesis
      by (simp add: and_1_eq_0_iff word_and_bit link_ok_def del: push_bit_of_1)
  qed (use r in \<open>simp add: and_1_eq_0_iff\<close>)
qed simp

text \<open>Descending reaches the table the entry leads to, linking a fresh one where there is none.\<close>

lemma descend_new:
  assumes tr: "tree z s root path" and p: "p \<in> tables s" "k < 512" "length (path p) < 3" "\<not> present (words s p k)"
    and al: "ps_allocate_zeroed ops s = (Ok c, s1)" and et: "entry_table c user = Ok e"
    and up: "user \<Longrightarrow> \<forall>t \<in> tables s. \<forall>i < 512. present (words s t i) \<longrightarrow> length (path t) < 3 \<longrightarrow>
               entry_target (words s t i) = p \<longrightarrow> bit (words s t i) 2"
    and wr: "ps_write ops p k (entry_bits e) s1 = (Ok (), s')"
  shows "tree z s' root (path(c := path p @ [k]))" "same_pages s s' root"
    "tables s' = insert c (tables s)" "c \<notin> tables s" "words s' p k = entry_bits e" "\<forall>i < 512. words s' c i = 0"
    "\<And>t i. t \<in> tables s \<Longrightarrow> i < 512 \<Longrightarrow> words s' t i = (if t = p \<and> i = k then entry_bits e else words s t i)"
proof -
  have inv: "inv s" and tt: "table_tree z (tables s) (words s) root path" using tr by (simp_all add: tree_def)
  note a = alloc_ok [OF inv al]
  have p1: "p \<in> tables s1" using a p by auto
  obtain s2 where w2: "ps_write ops p k (entry_bits e) s1 = (Ok (), s2)" "inv s2" "tables s2 = tables s1"
    "\<forall>u \<in> tables s1. \<forall>j < 512. words s2 u j = (if u = p \<and> j = k then entry_bits e else words s1 u j)"
    using write_ok [OF _ p1 p(2), of "entry_bits e"] a by blast
  have s2: "s2 = s'" using w2(1) wr by simp
  show c: "c \<notin> tables s" and T: "tables s' = insert c (tables s)" using a w2(3) s2 by auto
  have pc: "p \<noteq> c" using p(1) c by auto
  show W: "words s' t i = (if t = p \<and> i = k then entry_bits e else words s t i)"
    if "t \<in> tables s" "i < 512" for t i
    using w2(4) a that s2 by auto
  show wpk: "words s' p k = entry_bits e" using W [OF p(1,2)] by simp
  show wc: "\<forall>i < 512. words s' c i = 0" using w2(4) a pc s2 by auto
  note ln = table_entry_link [OF et] a
  have tgt: "entry_target (entry_bits e) = c" using ln by blast
  let ?path = "path(c := path p @ [k])"
  have old: "t \<in> tables s \<and> t \<noteq> c \<and> ?path t = path t" if "t \<in> tables s'" "i < 512" "present (words s' t i)" for t i
    using that T wc by auto
  have "table_tree z (tables s') (words s') root ?path"
  proof (rule table_treeI)
    show "root \<in> tables s'" "?path root = []" using table_tree_root [OF tt] T c by auto
    fix t i
    assume t: "t \<in> tables s'" and i: "i < 512" and len: "length (?path t) < 3" and pr: "present (words s' t i)"
    note ts = old [OF t i pr]
    show "link_ok (words s' t i) \<and> entry_target (words s' t i) \<in> tables s' \<and>
        ?path (entry_target (words s' t i)) = ?path t @ [i]"
    proof (cases "t = p \<and> i = k")
      case True
      then show ?thesis using wpk ln tgt T pc by simp
    next
      case False
      then have eq: "words s' t i = words s t i" using W [of t i] ts i by auto
      have prs: "present (words s t i)" "length (path t) < 3" using pr eq len ts by auto
      note d = table_treeD [OF tt conjunct1 [OF ts] i prs(2,1)]
      have "entry_target (words s t i) \<noteq> c" using d(2) c by auto
      then show ?thesis using d(1-3) eq T ts by simp
    qed
    fix j
    assume j: "j < 512" "present (words s' (entry_target (words s' t i)) j)"
      "bit (words s' (entry_target (words s' t i)) j) 2" "z \<or> length (?path t) < 2"
    show "bit (words s' t i) 2"
    proof (cases "t = p \<and> i = k")
      case True
      then show ?thesis using j wc tgt wpk by auto
    next
      case False
      then have eq: "words s' t i = words s t i" using W [of t i] ts i by auto
      have prs: "present (words s t i)" "length (path t) < 3" using pr eq len ts by auto
      note d = table_treeD [OF tt conjunct1 [OF ts] i prs(2,1)]
      let ?u = "entry_target (words s t i)"
      show ?thesis
      proof (cases "?u = p \<and> j = k")
        case True
        then have user using j(3) eq wpk ln by auto
        then show ?thesis using up ts i prs True eq by auto
      next
        case False
        then have "words s' ?u j = words s ?u j" using W [OF d(2) j(1)] by auto
        then show ?thesis using d(4) [OF j(1)] j(2-4) ts eq by simp
      qed
    qed
  next
    fix t i t' i'
    assume a: "t \<in> tables s'" "i < 512" "t' \<in> tables s'" "i' < 512" "length (?path t) < 3" "length (?path t') < 3"
      "present (words s' t i)" "present (words s' t' i')"
      "entry_target (words s' t i) = entry_target (words s' t' i')"
    note o = old [OF a(1,2,7)] old [OF a(3,4,8)]
    have ne: "entry_target (words s u m) \<noteq> c" if "u \<in> tables s" "m < 512" "length (path u) < 3" "present (words s u m)" for u m
      using table_treeD(2) [OF tt that] c by auto
    show "t = t' \<and> i = i'"
      using a o W [of t i] W [of t' i'] tgt ne [of t i] ne [of t' i'] table_tree_link_unique [OF tt, of t i t' i']
      by (auto split: if_splits)
  qed
  then show "tree z s' root ?path" using w2(2) s2 by (simp add: tree_def)
  show "same_pages s s' root"
    unfolding same_pages_def
  proof (intro allI impI)
    fix "is" :: "nat list" and j :: nat
    assume l: "length is = 3" "\<forall>i \<in> set is. i < 512" "j < 512"
    have root: "root \<in> tables s" "path root = []" using table_tree_root [OF tt] by auto
    have "table_walk (words s') root is = table_walk (words s) root is \<or>
        (table_walk (words s) root is = None \<and> table_walk (words s') root is = Some c)"
      using l root p(4) tgt wc W by (intro table_walk_link [OF tt]) auto
    moreover have "words s' u j = words s u j" if "table_walk (words s) root is = Some u" for u
    proof -
      have "u \<in> tables s" "length (path u) = 3"
        using table_walk_path [OF tt root(1) l(2) _ that] root l(1) by auto
      then show ?thesis using W [of u j] l(3) p(3) by auto
    qed
    ultimately show "page_lookup (words s') root is j = page_lookup (words s) root is j"
      using wc l(3) by (cases "table_walk (words s) root is") (auto simp: page_lookup_def)
  qed
qed


lemma same_pagesI:
  assumes "tree z s root path"
    and "\<And>t i. t \<in> tables s \<Longrightarrow> i < 512 \<Longrightarrow> length (path t) < 3 \<Longrightarrow>
           present (words s' t i) = present (words s t i) \<and> entry_target (words s' t i) = entry_target (words s t i)"
    and "\<And>t i. t \<in> tables s \<Longrightarrow> i < 512 \<Longrightarrow> length (path t) = 3 \<Longrightarrow> words s' t i = words s t i"
  shows "same_pages s s' root"
  unfolding same_pages_def
proof (intro allI impI)
  fix "is" :: "nat list" and j :: nat
  assume l: "length is = 3" "\<forall>i \<in> set is. i < 512" "j < 512"
  have tt: "table_tree z (tables s) (words s) root path" using assms(1) by (simp add: tree_def)
  have root: "root \<in> tables s" "path root = []" using table_tree_root [OF tt] by auto
  have e: "table_walk (words s') root is = table_walk (words s) root is"
    using l root assms(2) by (intro table_walk_cong [OF tt]) auto
  have "words s' u j = words s u j" if "table_walk (words s) root is = Some u" for u
    using table_walk_path [OF tt root(1) l(2) _ that] root l assms(3) by auto
  then show "page_lookup (words s') root is j = page_lookup (words s) root is j"
    by (auto simp: page_lookup_def e split: option.splits)
qed

lemma tree_alloc:
  assumes tr: "tree z s root path" and al: "ps_allocate_zeroed ops s = (Ok c, s')"
  shows "tree z s' root path" "same_pages s s' root" "tables s' = insert c (tables s)"
proof -
  have inv: "inv s" and tt: "table_tree z (tables s) (words s) root path" using tr by (simp_all add: tree_def)
  note a = alloc_ok [OF inv al]
  show T: "tables s' = insert c (tables s)" using a by simp
  have W: "words s' t i = words s t i" if "t \<in> tables s" "i < 512" for t i using a that by auto
  have old: "t \<in> tables s" if "t \<in> tables s'" "i < 512" "present (words s' t i)" for t i
    using that a by auto
  have "table_tree z (tables s') (words s') root path"
  proof (rule table_treeI)
    show "root \<in> tables s'" "path root = []" using table_tree_root [OF tt] T by auto
    fix t i
    assume g: "t \<in> tables s'" "i < 512" "length (path t) < 3" "present (words s' t i)"
    note ts = old [OF g(1,2,4)]
    have pr: "present (words s t i)" using g(4) W [OF ts g(2)] by simp
    note d = table_treeD [OF tt ts g(2,3) pr]
    show "link_ok (words s' t i) \<and> entry_target (words s' t i) \<in> tables s' \<and>
        path (entry_target (words s' t i)) = path t @ [i]"
      using d W [OF ts g(2)] T by simp
    fix j
    assume "j < 512" "present (words s' (entry_target (words s' t i)) j)"
      "bit (words s' (entry_target (words s' t i)) j) 2" "z \<or> length (path t) < 2"
    then show "bit (words s' t i) 2" using d(4) [of j] W [OF ts g(2)] W [OF d(2), of j] by simp
  next
    fix t i t' i'
    assume g: "t \<in> tables s'" "i < 512" "t' \<in> tables s'" "i' < 512" "length (path t) < 3" "length (path t') < 3"
      "present (words s' t i)" "present (words s' t' i')"
      "entry_target (words s' t i) = entry_target (words s' t' i')"
    note o = old [OF g(1,2,7)] old [OF g(3,4,8)]
    show "t = t' \<and> i = i'"
      using table_tree_link_unique [OF tt o(1) g(2) o(2) g(4,5,6)] g(7-9) W [OF o(1) g(2)] W [OF o(2) g(4)] by simp
  qed
  then show "tree z s' root path" using a by (simp add: tree_def)
  show "same_pages s s' root" by (rule same_pagesI [OF tr]) (simp_all add: W)
qed

end

context table_store
begin

definition user_linked :: "'s \<Rightarrow> (phys_addr \<Rightarrow> nat list) \<Rightarrow> phys_addr \<Rightarrow> bool" where
  "user_linked s path p \<longleftrightarrow> (\<forall>t \<in> tables s. \<forall>i < 512. present (words s t i) \<longrightarrow> length (path t) < 3 \<longrightarrow>
     entry_target (words s t i) = p \<longrightarrow> bit (words s t i) 2)"

text \<open>Making a link user-accessible.\<close>

lemma tree_user_link:
  assumes tr: "tree z s root path" and p: "p \<in> tables s" "k < 512" "length (path p) < 3" "present (words s p k)"
    and up: "user_linked s path p"
    and wr: "ps_write ops p k (words s p k OR push_bit 2 1) s = (Ok (), s')"
  shows "tree z s' root path" "same_pages s s' root" "tables s' = tables s"
    and "\<And>t i. t \<in> tables s \<Longrightarrow> i < 512 \<Longrightarrow>
           words s' t i = (if t = p \<and> i = k then words s p k OR push_bit 2 1 else words s t i)"
proof -
  have inv: "inv s" and tt: "table_tree z (tables s) (words s) root path" using tr by (simp_all add: tree_def)
  let ?e = "words s p k OR push_bit 2 1"
  obtain s2 where w2: "ps_write ops p k ?e s = (Ok (), s2)" "inv s2" "tables s2 = tables s"
    "\<forall>u \<in> tables s. \<forall>j < 512. words s2 u j = (if u = p \<and> j = k then ?e else words s u j)"
    using write_ok [OF inv p(1,2), of ?e] by blast
  have s2: "s2 = s'" using w2(1) wr by simp
  show T: "tables s' = tables s" using w2(3) s2 by simp
  show W: "words s' t i = (if t = p \<and> i = k then ?e else words s t i)" if "t \<in> tables s" "i < 512" for t i
    using w2(4) that s2 by blast
  have L: "present (words s' t i) = present (words s t i)" "entry_target (words s' t i) = entry_target (words s t i)"
    "link_ok (words s' t i) = link_ok (words s t i)" "bit (words s t i) 2 \<Longrightarrow> bit (words s' t i) 2"
    if "t \<in> tables s" "i < 512" for t i
    unfolding W [OF that] by (auto simp: user_link simp del: push_bit_of_1)
  have "table_tree z (tables s') (words s') root path"
  proof (rule table_treeI)
    show "root \<in> tables s'" "path root = []" using table_tree_root [OF tt] T by auto
    fix t i
    assume g: "t \<in> tables s'" "i < 512" "length (path t) < 3" "present (words s' t i)"
    have ts: "t \<in> tables s" using g(1) T by simp
    note l = L [OF ts g(2)]
    have pr: "present (words s t i)" using g(4) l(1) by simp
    note d = table_treeD [OF tt ts g(2,3) pr]
    show "link_ok (words s' t i) \<and> entry_target (words s' t i) \<in> tables s' \<and>
        path (entry_target (words s' t i)) = path t @ [i]"
      using d(1-3) l(2,3) T by simp
    fix j
    assume j: "j < 512" "present (words s' (entry_target (words s' t i)) j)"
      "bit (words s' (entry_target (words s' t i)) j) 2" "z \<or> length (path t) < 2"
    let ?u = "entry_target (words s t i)"
    have u: "present (words s ?u j)" using j(1,2) l(2) L(1) [OF d(2) j(1)] by simp
    show "bit (words s' t i) 2"
    proof (cases "?u = p \<and> j = k")
      case True
      then have "bit (words s t i) 2" using up ts g(2,3) pr by (simp add: user_linked_def)
      then show ?thesis by (rule l(4))
    next
      case False
      then have "words s' ?u j = words s ?u j" using W [OF d(2) j(1)] by auto
      then show ?thesis using j l(2) d(4) [OF j(1) u] l(4) by simp
    qed
  next
    fix t i t' i'
    assume g: "t \<in> tables s'" "i < 512" "t' \<in> tables s'" "i' < 512" "length (path t) < 3" "length (path t') < 3"
      "present (words s' t i)" "present (words s' t' i')"
      "entry_target (words s' t i) = entry_target (words s' t' i')"
    have o: "t \<in> tables s" "t' \<in> tables s" using g T by auto
    show "t = t' \<and> i = i'"
      using table_tree_link_unique [OF tt o(1) g(2) o(2) g(4,5,6)] g(7-9) L(1,2) [OF o(1) g(2)] L(1,2) [OF o(2) g(4)]
      by simp
  qed
  then show "tree z s' root path" using w2(2) s2 by (simp add: tree_def)
  show "same_pages s s' root"
  proof (rule same_pagesI [OF tr])
    fix t and i :: nat
    assume "t \<in> tables s" "i < 512"
    then show "present (words s' t i) = present (words s t i) \<and> entry_target (words s' t i) = entry_target (words s t i)"
      using L(1,2) by blast
    assume "length (path t) = 3"
    then show "words s' t i = words s t i" using W [of t i] \<open>t \<in> tables s\<close> \<open>i < 512\<close> p(3) by auto
  qed
qed

lemma user_linked_unique:
  assumes "tree z s root path" "p \<in> tables s" "k < 512" "length (path p) < 3" "present (words s p k)"
    "bit (words s p k) 2" "entry_target (words s p k) = c"
  shows "user_linked s path c"
  unfolding user_linked_def
proof (intro ballI allI impI)
  fix t i
  assume "t \<in> tables s" "i < 512" "present (words s t i)" "length (path t) < 3" "entry_target (words s t i) = c"
  then have "t = p \<and> i = k"
    using table_tree_link_unique [of z "tables s" "words s" root path t i p k] assms by (simp add: tree_def)
  then show "bit (words s t i) 2" using assms(6) by simp
qed

definition extends :: "bool \<Rightarrow> 's \<Rightarrow> (phys_addr \<Rightarrow> nat list) \<Rightarrow> 's \<Rightarrow> (phys_addr \<Rightarrow> nat list) \<Rightarrow> phys_addr \<Rightarrow> bool" where
  "extends z s path s' path' root \<longleftrightarrow> tree z s' root path' \<and> same_pages s s' root \<and> tables s \<subseteq> tables s' \<and>
     (\<forall>t \<in> tables s. path' t = path t) \<and>
     (\<forall>t \<in> tables s. \<forall>i < 512. length (path t) < 3 \<longrightarrow> present (words s t i) \<longrightarrow>
        present (words s' t i) \<and> entry_target (words s' t i) = entry_target (words s t i))"

lemma extends_refl: "tree z s root path \<Longrightarrow> extends z s path s path root"
  by (simp add: extends_def)

lemma extends_trans:
  "extends z s path s' path' root \<Longrightarrow> extends z s' path' s'' path'' root \<Longrightarrow> extends z s path s'' path'' root"
  unfolding extends_def by (auto intro: same_pages_trans simp: subset_eq)

lemma descend_spec:
  assumes tr: "tree z s root path" and p: "p \<in> tables s" "k < 512" "length (path p) < 3"
    and up: "user \<Longrightarrow> user_linked s path p" and d: "descend ops p k user s = (r, s')"
  obtains path' where "extends z s path s' path' root"
    and "\<forall>c. r = Ok c \<longrightarrow> c \<in> tables s' \<and> path' c = path p @ [k] \<and> present (words s' p k) \<and>
           entry_target (words s' p k) = c \<and> (user \<longrightarrow> user_linked s' path' c)"
proof -
  have inv: "inv s" and tt: "table_tree z (tables s) (words s) root path" using tr by (simp_all add: tree_def)
  note r0 = read_ok [OF inv p(1,2)]
  show ?thesis
  proof (cases "present (words s p k)")
    case False
    note F = this
    show ?thesis
    proof (cases "ps_allocate_zeroed ops s")
      case (Pair ra s1)
      show ?thesis
      proof (cases ra)
        case (Err x)
        then have "s' = s" "r = Err x"
          using d r0 F Pair alloc_err [of s x s1] by (simp_all add: descend_def and_1_eq_0_iff)
        then show ?thesis using that [of path] extends_refl [OF tr] by simp
      next
        case (Ok c)
        then have al: "ps_allocate_zeroed ops s = (Ok c, s1)" using Pair by simp
        note ta = tree_alloc [OF tr al] and a = alloc_ok [OF inv al]
        show ?thesis
        proof (cases "entry_table c user")
          case (Err x)
          then have s': "s' = s1" "r = Err (PtPage x)"
            using d r0 F al by (simp_all add: descend_def and_1_eq_0_iff)
          have "extends z s path s1 path root" using ta a by (auto simp: extends_def)
          then show ?thesis using that [of path] s' by simp
        next
          case (Ok e)
          have p1: "p \<in> tables s1" using a p by auto
          obtain s2 where wr: "ps_write ops p k (entry_bits e) s1 = (Ok (), s2)"
            using write_ok [OF _ p1 p(2), of "entry_bits e"] a by blast
          have r: "r = Ok c" "s' = s2"
            using d r0 F al Ok wr by (simp_all add: descend_def and_1_eq_0_iff)
          note n = descend_new [OF tr p F al Ok up [unfolded user_linked_def] wr]
          have ln: "present (entry_bits e)" "entry_target (entry_bits e) = c" "bit (entry_bits e) 2 = user"
            using table_entry_link [OF Ok] a by blast+
          let ?path = "path(c := path p @ [k])"
          have pc: "?path p = path p" using p(1) n(4) by auto
          have "extends z s path s2 ?path root"
            unfolding extends_def using n F by (auto simp: n(7))
          moreover have "user \<longrightarrow> user_linked s2 ?path c"
            using user_linked_unique [OF n(1), of p k c] n p pc ln by auto
          ultimately show ?thesis using that [of ?path] r n ln by simp
        qed
      qed
    qed
  next
    case True
    note lk = table_treeD [OF tt p True]
    let ?c = "entry_target (words s p k)"
    have step: "descend ops p k user s = (case (if user \<and> \<not> bit (words s p k) 2
         then ps_write ops p k (words s p k OR push_bit 2 1) s else (Ok (), s)) of
           (Err e, s) \<Rightarrow> (Err e, s) | (Ok _, s) \<Rightarrow> (Ok ?c, s))"
      using r0 True lk(1) by (simp add: descend_def and_1_eq_0_iff word_and_bit link_ok_def del: push_bit_of_1
          split: prod.split result.split)
    show ?thesis
    proof (cases "user \<and> \<not> bit (words s p k) 2")
      case False
      then have r: "r = Ok ?c" "s' = s" using d step by auto
      have "user \<longrightarrow> user_linked s path ?c" using False user_linked_unique [OF tr p True] by blast
      then show ?thesis using that [of path] extends_refl [OF tr] lk True r by simp
    next
      case U: True
      obtain s2 where wr: "ps_write ops p k (words s p k OR push_bit 2 1) s = (Ok (), s2)"
        using write_ok [OF inv p(1,2)] by blast
      have r: "r = Ok ?c" "s' = s2" using d step U wr by auto
      note n = tree_user_link [OF tr p True up [OF conjunct1 [OF U]] wr]
      have wpk: "words s2 p k = words s p k OR push_bit 2 1" using n(4) [OF p(1,2)] by simp
      have ln: "present (words s2 p k)" "entry_target (words s2 p k) = ?c" "bit (words s2 p k) 2"
        unfolding wpk using True by (simp_all add: user_link del: push_bit_of_1)
      have "extends z s path s2 path root"
        unfolding extends_def using n(1-3) by (auto simp: n(4) user_link simp del: push_bit_of_1)
      moreover have "user_linked s2 path ?c"
        using user_linked_unique [OF n(1), of p k ?c] n(3) p ln by simp
      ultimately show ?thesis using that [of path] r n(3) lk ln by simp
    qed
  qed
qed

lemma user_linked_root: "tree z s root path \<Longrightarrow> user_linked s path root"
  unfolding user_linked_def tree_def
proof (intro ballI allI impI)
  fix t i
  assume a: "inv s \<and> table_tree z (tables s) (words s) root path" "t \<in> tables s" "i < 512" "present (words s t i)"
    "length (path t) < 3" "entry_target (words s t i) = root"
  then have "path root = path t @ [i]" using table_treeD(3) [of z "tables s" "words s" root path t i] by simp
  then show "bit (words s t i) 2" using a(1) table_tree_root [of z "tables s" "words s" root path] by simp
qed

end

definition table_key :: "virt_addr \<Rightarrow> nat list" where
  "table_key v = [pml4_index v, pdpt_index v, directory_index v]"

lemma index_less: "pml4_index v < 512" "pdpt_index v < 512" "directory_index v < 512" "table_index v < 512"
proof -
  have "unat (drop_bit n (virt_get v) AND 0x1ff) < 512" for n
  proof -
    have "drop_bit n (virt_get v) AND 0x1ff = take_bit 9 (drop_bit n (virt_get v))"
      by (simp add: take_bit_eq_mask mask_eq_exp_minus_1)
    then show ?thesis using take_bit_nat_less_exp [of 9 "unat (drop_bit n (virt_get v))"]
      by (simp add: unsigned_take_bit_eq)
  qed
  then show "pml4_index v < 512" "pdpt_index v < 512" "directory_index v < 512" "table_index v < 512"
    by (simp_all add: pml4_index_def pdpt_index_def directory_index_def table_index_def)
qed

lemma table_key_ok [simp]: "length (table_key v) = 3" "\<forall>i \<in> set (table_key v). i < 512"
  by (simp_all add: table_key_def index_less)

lemma table_key_inj:
  "virt_new a = Ok v \<Longrightarrow> virt_new b = Ok w \<Longrightarrow> table_key v = table_key w \<Longrightarrow> table_index v = table_index w \<Longrightarrow> v = w"
  using virt_indices_inj [of a v b w] by (simp add: table_key_def virt_new_iff)

text \<open>The descent of a page mapping, one table after the other.\<close>

fun descend_path ::
  "'s page_table_store \<Rightarrow> phys_addr \<Rightarrow> nat list \<Rightarrow> bool \<Rightarrow> 's \<Rightarrow> (phys_addr, build_error) result \<times> 's" where
  "descend_path ops t [] user s = (Ok t, s)"
| "descend_path ops t (i # is) user s =
     (case descend ops t i user s of
        (Err e, s) \<Rightarrow> (Err e, s)
      | (Ok c, s) \<Rightarrow> descend_path ops c is user s)"

lemma map_page_descends:
  "map_page ops v f perms root s =
     (case descend_path ops root (table_key v) (perm_user perms) s of
        (Err e, s) \<Rightarrow> (Err e, s)
      | (Ok t, s) \<Rightarrow>
          (case ps_read ops s t (table_index v) of
             Err e \<Rightarrow> (Err e, s)
           | Ok current \<Rightarrow>
               if current AND 1 \<noteq> 0 then (Err AlreadyMapped, s)
               else case entry_leaf f perms of
                 Err e \<Rightarrow> (Err (PtPage e), s)
               | Ok leaf \<Rightarrow> ps_write ops t (table_index v) (entry_bits leaf) s))"
  by (simp add: map_page_def table_key_def Let_def split: prod.splits result.splits)

context table_store
begin

definition page_at :: "'s \<Rightarrow> phys_addr \<Rightarrow> virt_addr \<Rightarrow> u64 option" where
  "page_at s root v = page_lookup (words s) root (table_key v) (table_index v)"

lemma same_pages_at: "same_pages s s' root \<Longrightarrow> page_at s' root v = page_at s root v"
  by (simp add: same_pages_def page_at_def index_less)

lemma tree_leaf_write:
  assumes tr: "tree z s root path" and t: "t \<in> tables s" "j < 512" "length (path t) = 3"
    and walk: "table_walk (words s) root (path t) = Some t"
    and up: "z \<longrightarrow> present e \<longrightarrow> bit e 2 \<longrightarrow> user_linked s path t" and wr: "ps_write ops t j e s = (Ok (), s')"
  shows "tree z s' root path" "tables s' = tables s"
    and "\<And>is i. length is = 3 \<Longrightarrow> \<forall>i \<in> set is. i < 512 \<Longrightarrow> i < 512 \<Longrightarrow> page_lookup (words s') root is i =
       (if is = path t \<and> i = j then if present e then Some e else None else page_lookup (words s) root is i)"
proof -
  have inv: "inv s" and tt: "table_tree z (tables s) (words s) root path" using tr by (simp_all add: tree_def)
  obtain s2 where w2: "ps_write ops t j e s = (Ok (), s2)" "inv s2" "tables s2 = tables s"
    "\<forall>u \<in> tables s. \<forall>i < 512. words s2 u i = (if u = t \<and> i = j then e else words s u i)"
    using write_ok [OF inv t(1,2), of e] by blast
  have s2: "s2 = s'" using w2(1) wr by simp
  show T: "tables s' = tables s" using w2(3) s2 by simp
  have W: "words s' u i = (if u = t \<and> i = j then e else words s u i)" if "u \<in> tables s" "i < 512" for u i
    using w2(4) that s2 by blast
  have W3: "words s' u i = words s u i" if "u \<in> tables s" "i < 512" "length (path u) < 3" for u i
    using W [OF that(1,2)] that(3) t(3) by auto
  have "table_tree z (tables s') (words s') root path"
    unfolding T
  proof (rule table_treeI)
    show "root \<in> tables s" "path root = []" using table_tree_root [OF tt] by auto
    fix u i
    assume g: "u \<in> tables s" "i < 512" "length (path u) < 3" "present (words s' u i)"
    note eq = W3 [OF g(1-3)]
    have pr: "present (words s u i)" using g(4) eq by simp
    note d = table_treeD [OF tt g(1-3) pr]
    show "link_ok (words s' u i) \<and> entry_target (words s' u i) \<in> tables s \<and>
        path (entry_target (words s' u i)) = path u @ [i]"
      using d(1-3) eq by simp
    fix k
    assume k: "k < 512" "present (words s' (entry_target (words s' u i)) k)"
      "bit (words s' (entry_target (words s' u i)) k) 2" "z \<or> length (path u) < 2"
    show "bit (words s' u i) 2"
    proof (cases "entry_target (words s u i) = t \<and> k = j")
      case True
      then have "z" using d(3) t(3) k(4) by auto
      then have "user_linked s path t" using True k eq W [OF t(1,2)] up by simp
      then show ?thesis using g pr True eq by (simp add: user_linked_def)
    next
      case False
      then show ?thesis using k eq W [OF d(2) k(1)] d(4) [OF k(1)] by auto
    qed
  next
    fix u i u' i'
    assume g: "u \<in> tables s" "i < 512" "u' \<in> tables s" "i' < 512" "length (path u) < 3" "length (path u') < 3"
      "present (words s' u i)" "present (words s' u' i')"
      "entry_target (words s' u i) = entry_target (words s' u' i')"
    show "u = u' \<and> i = i'"
      using table_tree_link_unique [OF tt g(1-6)] g(7-9) W3 [OF g(1,2,5)] W3 [OF g(3,4,6)] by simp
  qed
  then show "tree z s' root path" using w2(2) s2 by (simp add: tree_def)
  fix "is" :: "nat list" and i :: nat
  assume l: "length is = 3" "\<forall>i \<in> set is. i < 512" "i < 512"
  have root: "root \<in> tables s" "path root = []" using table_tree_root [OF tt] by auto
  have e: "table_walk (words s') root is = table_walk (words s) root is"
    using l root W3 by (intro table_walk_cong [OF tt]) auto
  have u: "u \<in> tables s \<and> path u = is" if "table_walk (words s) root is = Some u" for u
    using table_walk_path [OF tt root(1) l(2) _ that] root l(1) by simp
  show "page_lookup (words s') root is i =
      (if is = path t \<and> i = j then if present e then Some e else None else page_lookup (words s) root is i)"
  proof (cases "table_walk (words s) root is")
    case None
    then show ?thesis using walk e by (auto simp: page_lookup_def)
  next
    case (Some u)
    then show ?thesis using u [OF Some] walk e W [of u i] l(3) by (auto simp: page_lookup_def)
  qed
qed

lemma descend_path_spec:
  assumes "tree z s root path" "t \<in> tables s" "\<forall>i \<in> set is. i < 512" "length (path t) + length is \<le> 3"
    and "user \<Longrightarrow> user_linked s path t" and "descend_path ops t is user s = (r, s')"
  shows "\<exists>path'. extends z s path s' path' root \<and>
    (\<forall>c. r = Ok c \<longrightarrow> c \<in> tables s' \<and> path' c = path t @ is \<and> table_walk (words s') t is = Some c \<and>
       (user \<longrightarrow> user_linked s' path' c))"
  using assms
proof (induction "is" arbitrary: s path t)
  case Nil
  then have "r = Ok t" "s' = s" by auto
  with Nil show ?case using extends_refl [OF Nil.prems(1)] by (intro exI [of _ path]) auto
next
  case (Cons i "is")
  obtain r1 s1 where d1: "descend ops t i user s = (r1, s1)" by fastforce
  have l: "i < 512" "length (path t) < 3" using Cons.prems by auto
  obtain path1 where e1: "extends z s path s1 path1 root"
    and c1: "\<forall>c. r1 = Ok c \<longrightarrow> c \<in> tables s1 \<and> path1 c = path t @ [i] \<and> present (words s1 t i) \<and>
       entry_target (words s1 t i) = c \<and> (user \<longrightarrow> user_linked s1 path1 c)"
    by (rule descend_spec [OF Cons.prems(1,2) l Cons.prems(5) d1])
  show ?case
  proof (cases r1)
    case (Err x)
    then have "s' = s1" "r = Err x" using Cons.prems(6) d1 by simp_all
    then show ?thesis using e1 by (intro exI [of _ path1]) auto
  next
    case (Ok t1)
    note k1 = c1 [rule_format, OF Ok]
    have tr1: "tree z s1 root path1" using e1 by (simp add: extends_def)
    have rest: "descend_path ops t1 is user s1 = (r, s')" using Cons.prems(6) d1 Ok by simp
    have "\<exists>path'. extends z s1 path1 s' path' root \<and>
      (\<forall>c. r = Ok c \<longrightarrow> c \<in> tables s' \<and> path' c = path1 t1 @ is \<and> table_walk (words s') t1 is = Some c \<and>
         (user \<longrightarrow> user_linked s' path' c))"
      by (rule Cons.IH [OF tr1 _ _ _ _ rest]) (use k1 Cons.prems in auto)
    then obtain path' where e2: "extends z s1 path1 s' path' root"
      and c2: "\<forall>c. r = Ok c \<longrightarrow> c \<in> tables s' \<and> path' c = path1 t1 @ is \<and> table_walk (words s') t1 is = Some c \<and>
         (user \<longrightarrow> user_linked s' path' c)"
      by blast
    have "t \<in> tables s1" "length (path1 t) < 3" using e1 Cons.prems(2) l by (auto simp: extends_def)
    then have "present (words s' t i)" "entry_target (words s' t i) = t1"
      using e2 k1 l(1) unfolding extends_def by blast+
    then show ?thesis using extends_trans [OF e1 e2] c2 k1 by (intro exI [of _ path']) auto
  qed
qed

lemma map_page_spec:
  assumes tr: "tree z s root path" and al: "frame_aligned f" and m: "map_page ops v f perms root s = (r, s')"
  shows "\<exists>path'. tree z s' root path' \<and>
    (\<forall>is i. length is = 3 \<longrightarrow> (\<forall>i \<in> set is. i < 512) \<longrightarrow> i < 512 \<longrightarrow> page_lookup (words s') root is i =
       (if r = Ok () \<and> is = table_key v \<and> i = table_index v
        then (case entry_leaf f perms of Ok e \<Rightarrow> Some (entry_bits e) | Err _ \<Rightarrow> None)
        else page_lookup (words s) root is i)) \<and>
    (r = Ok () \<longrightarrow> page_at s root v = None \<and> is_ok (entry_leaf f perms))"
proof -
  let ?user = "perm_user perms"
  have root: "root \<in> tables s" "path root = []"
    using tr table_tree_root [of z "tables s" "words s" root path] by (auto simp: tree_def)
  obtain r3 s3 where d: "descend_path ops root (table_key v) ?user s = (r3, s3)" by fastforce
  have "\<exists>path'. extends z s path s3 path' root \<and>
    (\<forall>c. r3 = Ok c \<longrightarrow> c \<in> tables s3 \<and> path' c = path root @ table_key v \<and>
       table_walk (words s3) root (table_key v) = Some c \<and> (?user \<longrightarrow> user_linked s3 path' c))"
    by (rule descend_path_spec [OF tr root(1) _ _ _ d]) (simp_all add: root user_linked_root [OF tr])
  then obtain path' where e: "extends z s path s3 path' root"
    and c: "\<And>c. r3 = Ok c \<Longrightarrow> c \<in> tables s3 \<and> path' c = table_key v \<and>
       table_walk (words s3) root (table_key v) = Some c \<and> (?user \<longrightarrow> user_linked s3 path' c)"
    using root by auto
  have tr3: "tree z s3 root path'" and sp: "same_pages s s3 root" using e by (simp_all add: extends_def)
  have inv3: "inv s3" using tr3 by (simp add: tree_def)
  have failed: ?thesis if "s' = s3" "r \<noteq> Ok ()"
    using that tr3 sp by (intro exI [of _ path']) (auto simp: same_pages_def)
  show ?thesis
  proof (cases r3)
    case (Err x)
    then have "s' = s3 \<and> r \<noteq> Ok ()" using m d by (auto simp: map_page_descends)
    then show ?thesis using failed by blast
  next
    case (Ok t)
    note k = c [OF Ok]
    note rd = read_ok [OF inv3 conjunct1 [OF k] index_less(4) [of v]]
    show ?thesis
    proof (cases "present (words s3 t (table_index v))")
      case True
      then have "s' = s3 \<and> r \<noteq> Ok ()" using m d Ok rd by (auto simp: map_page_descends and_1_eq_0_iff)
      then show ?thesis using failed by blast
    next
      case False
      note F = this
      show ?thesis
      proof (cases "entry_leaf f perms")
        case (Err x)
        then have "s' = s3 \<and> r \<noteq> Ok ()" using m d Ok rd F by (auto simp: map_page_descends and_1_eq_0_iff)
        then show ?thesis using failed by blast
      next
        case leaf: (Ok l)
        obtain s4 where wr: "ps_write ops t (table_index v) (entry_bits l) s3 = (Ok (), s4)"
          using write_ok [OF inv3 conjunct1 [OF k] index_less(4) [of v]] by blast
        have r: "r = Ok ()" "s' = s4"
          using m d Ok rd False leaf wr by (simp_all add: map_page_descends and_1_eq_0_iff)
        have up: "z \<longrightarrow> present (entry_bits l) \<longrightarrow> bit (entry_bits l) 2 \<longrightarrow> user_linked s3 path' t"
          using bit_leaf [OF leaf, of 2] al k by (auto simp: frame_aligned_def aligned_iff_bits)
        have walk: "length (path' t) = 3" "table_walk (words s3) root (path' t) = Some t" using k by simp_all
        note w = tree_leaf_write [OF tr3 conjunct1 [OF k] index_less(4) walk up wr]
        have none: "page_at s root v = None"
          using same_pages_at [OF sp, of v] k F by (simp add: page_at_def page_lookup_def)
        have "page_lookup (words s4) root is i = (if is = table_key v \<and> i = table_index v
            then Some (entry_bits l) else page_lookup (words s) root is i)"
          if "length is = 3" "\<forall>i \<in> set is. i < 512" "i < 512" for "is" i
          using w(3) [OF that] sp that k leaf_present [OF leaf] by (simp add: same_pages_def)
        then show ?thesis using w(1) r none leaf by (intro exI [of _ path']) auto
      qed
    qed
  qed
qed

end

definition leaf_bits :: "phys_addr \<Rightarrow> page_permissions \<Rightarrow> u64 option" where
  "leaf_bits f perms = (case entry_leaf f perms of Ok e \<Rightarrow> Some (entry_bits e) | Err _ \<Rightarrow> None)"

definition valid_page :: "virt_addr \<Rightarrow> bool" where
  "valid_page v \<longleftrightarrow> (\<exists>a. virt_new a = Ok v)"

lemma mapping_pageD:
  assumes "mapping_page m k = Ok (v, p)"
  shows "valid_page v" "frame_aligned p" "unat (virt_get v) = vs_nat m + unat k * 4096"
    "unat (phys_get p) = ps_nat m + unat k * 4096"
proof -
  obtain off va pa where o: "checked_mul k PAGE_SIZE = Some off" "checked_add (virt_get (virtual_start m)) off = Some va"
    "checked_add (phys_get (physical_start m)) off = Some pa" "virt_new va = Ok v" "phys_new pa = Ok p"
    using assms by (auto simp: mapping_page_def split: option.splits result.splits)
  show "valid_page v" using o(4) by (auto simp: valid_page_def)
  show "frame_aligned p" using o(5) by (auto simp: frame_aligned_def dest: phys_new_okD)
  have "v = VirtAddr va" "p = PhysAddr pa" using o(4,5) by (auto simp: virt_new_iff phys_new_def split: if_splits)
  then show "unat (virt_get v) = vs_nat m + unat k * 4096" "unat (phys_get p) = ps_nat m + unat k * 4096"
    using checked_add_SomeD(2) [OF o(2)] checked_add_SomeD(2) [OF o(3)] checked_mul_SomeD(2) [OF o(1)]
    by (simp_all add: vs_nat_def ps_nat_def PAGE_SIZE_def)
qed

lemma mapping_page_inj:
  "mapping_page m k = Ok (v, p) \<Longrightarrow> mapping_page m k' = Ok (v, p') \<Longrightarrow> k = k' \<and> p = p'"
proof -
  assume a: "mapping_page m k = Ok (v, p)" "mapping_page m k' = Ok (v, p')"
  then have "unat k = unat k'" using mapping_pageD(3) [OF a(1)] mapping_pageD(3) [OF a(2)] by simp
  then have "k = k'" by (simp add: word_eq_iff_unsigned [where ?'a = nat])
  with a show ?thesis by simp
qed

lemma page_key_inj:
  "valid_page v \<Longrightarrow> valid_page w \<Longrightarrow> table_key w = table_key v \<and> table_index w = table_index v \<longleftrightarrow> w = v"
  using table_key_inj by (auto simp: valid_page_def)

context table_store
begin

text \<open>The builder's operations as updates of a partial map from pages to leaf entries.\<close>

lemma map_page_at:
  assumes "tree z s root path" "frame_aligned f" "valid_page v" "map_page ops v f perms root s = (r, s')"
  shows "\<exists>path'. tree z s' root path' \<and>
    (\<forall>w. valid_page w \<longrightarrow> page_at s' root w = (if r = Ok () \<and> w = v then leaf_bits f perms else page_at s root w)) \<and>
    (r = Ok () \<longrightarrow> page_at s root v = None \<and> leaf_bits f perms \<noteq> None)"
proof -
  obtain path' where p: "tree z s' root path'"
    and q: "\<And>is i. length is = 3 \<longrightarrow> (\<forall>i \<in> set is. i < 512) \<longrightarrow> i < 512 \<longrightarrow> page_lookup (words s') root is i =
       (if r = Ok () \<and> is = table_key v \<and> i = table_index v then leaf_bits f perms
        else page_lookup (words s) root is i)"
    and n: "r = Ok () \<longrightarrow> page_at s root v = None \<and> is_ok (entry_leaf f perms)"
    using map_page_spec [OF assms(1,2,4)] unfolding leaf_bits_def by blast
  have "page_at s' root w = (if r = Ok () \<and> w = v then leaf_bits f perms else page_at s root w)" if "valid_page w" for w
    using q [of "table_key w" "table_index w"] page_key_inj [OF assms(3) that] by (auto simp: page_at_def index_less)
  moreover have "is_ok (entry_leaf f perms) \<longrightarrow> leaf_bits f perms \<noteq> None"
    by (cases "entry_leaf f perms") (simp_all add: leaf_bits_def)
  ultimately show ?thesis using p n by blast
qed

definition mapped_by :: "mapping \<Rightarrow> u64 list \<Rightarrow> virt_addr \<Rightarrow> phys_addr \<Rightarrow> bool" where
  "mapped_by m ks v p \<longleftrightarrow> (\<exists>k \<in> set ks. mapping_page m k = Ok (v, p))"

lemma map_pages_spec:
  assumes "tree z s root path" "map_pages ops m root ks s = (r, s')"
  shows "\<exists>path' ds rest. tree z s' root path' \<and> ks = ds @ rest \<and> (r = Ok () \<longleftrightarrow> rest = []) \<and>
    (\<forall>k \<in> set ds. \<exists>v p. mapping_page m k = Ok (v, p)) \<and>
    (\<forall>v p. mapped_by m ds v p \<longrightarrow> page_at s root v = None \<and> leaf_bits p (mpermissions m) \<noteq> None \<and>
        page_at s' root v = leaf_bits p (mpermissions m)) \<and>
    (\<forall>v. valid_page v \<longrightarrow> (\<forall>p. \<not> mapped_by m ds v p) \<longrightarrow> page_at s' root v = page_at s root v)"
  using assms
proof (induction ks arbitrary: s path)
  case Nil
  then show ?case by (intro exI [of _ path] exI [of _ "[]"]) (auto simp: mapped_by_def)
next
  case (Cons k ks)
  have stop: ?case if "tree z s' root path'" "r \<noteq> Ok ()" "\<forall>v. valid_page v \<longrightarrow> page_at s' root v = page_at s root v" for path'
    using that by (intro exI [of _ path'] exI [of _ "[]"] exI [of _ "k # ks"]) (auto simp: mapped_by_def)
  show ?case
  proof (cases "mapping_page m k")
    case (Err e)
    then have "r \<noteq> Ok () \<and> s' = s" using Cons.prems(2) by auto
    then show ?thesis using stop [of path] Cons.prems(1) by blast
  next
    case (Ok vp)
    obtain v p where vp: "mapping_page m k = Ok (v, p)" using Ok by (cases vp) simp
    note vpD = mapping_pageD(1,2) [OF vp]
    obtain r1 s1 where m1: "map_page ops v p (mpermissions m) root s = (r1, s1)" by fastforce
    obtain path1 where a1: "tree z s1 root path1"
      "\<And>w. valid_page w \<Longrightarrow> page_at s1 root w = (if r1 = Ok () \<and> w = v then leaf_bits p (mpermissions m) else page_at s root w)"
      "r1 = Ok () \<Longrightarrow> page_at s root v = None" "r1 = Ok () \<Longrightarrow> leaf_bits p (mpermissions m) \<noteq> None"
      using map_page_at [OF Cons.prems(1) vpD(2,1) m1] by blast
    show ?thesis
    proof (cases r1)
      case (Err e)
      then have "r \<noteq> Ok () \<and> s' = s1" using Cons.prems(2) vp m1 by auto
      then show ?thesis using stop [of path1] a1(1,2) Err by simp
    next
      case ok1: (Ok u)
      then have rest: "map_pages ops m root ks s1 = (r, s')" using Cons.prems(2) vp m1 by simp
      obtain path' ds rs where i: "tree z s' root path'" "ks = ds @ rs" "r = Ok () \<longleftrightarrow> rs = []"
        "\<forall>k \<in> set ds. \<exists>v p. mapping_page m k = Ok (v, p)"
        "\<And>v p. mapped_by m ds v p \<Longrightarrow> page_at s1 root v = None \<and> leaf_bits p (mpermissions m) \<noteq> None \<and>
           page_at s' root v = leaf_bits p (mpermissions m)"
        "\<And>v. valid_page v \<Longrightarrow> \<forall>p. \<not> mapped_by m ds v p \<Longrightarrow> page_at s' root v = page_at s1 root v"
        using Cons.IH [OF a1(1) rest] by blast
      have r1: "r1 = Ok ()" using ok1 by simp
      have at1: "page_at s1 root v = leaf_bits p (mpermissions m)" using a1(2) [OF vpD(1)] r1 by simp
      have nv: "\<not> mapped_by m ds v q" for q using i(5) [of v q] at1 a1(4) [OF r1] by auto
      have at': "page_at s' root v = leaf_bits p (mpermissions m)" using i(6) [OF vpD(1)] nv at1 by simp
      have new: "page_at s root w = None \<and> leaf_bits q (mpermissions m) \<noteq> None \<and> page_at s' root w = leaf_bits q (mpermissions m)"
        if "mapped_by m (k # ds) w q" for w q
      proof (cases "w = v")
        case True
        then have "mapping_page m k = Ok (v, q)" using that nv [of q] by (auto simp: mapped_by_def)
        then have "q = p" using vp by simp
        then show ?thesis using True a1(3,4) [OF r1] at' by simp
      next
        case False
        then have "mapped_by m ds w q" using that vp by (auto simp: mapped_by_def)
        moreover have "valid_page w" using that mapping_pageD(1) by (auto simp: mapped_by_def)
        ultimately show ?thesis using i(5) [of w q] a1(2) [of w] False by auto
      qed
      have keep: "page_at s' root w = page_at s root w" if "valid_page w" "\<forall>q. \<not> mapped_by m (k # ds) w q" for w
      proof -
        have "w \<noteq> v" using that(2) vp by (auto simp: mapped_by_def)
        moreover have "\<forall>q. \<not> mapped_by m ds w q" using that(2) by (auto simp: mapped_by_def)
        ultimately show ?thesis using i(6) [OF that(1)] a1(2) [OF that(1)] by simp
      qed
      show ?thesis
        using i(1-4) new keep vp
        by (intro exI [of _ path'] exI [of _ "k # ds"] exI [of _ rs]) auto
    qed
  qed
qed

end

lemma accessed_dirty_bits: "bit LEAF_ACCESSED_DIRTY i \<longleftrightarrow> i = 5 \<or> i = 6"
  unfolding LEAF_ACCESSED_DIRTY_def bit_or_iff by (simp add: bit_flag1 del: push_bit_of_1)

lemma leaf_update_bits:
  assumes "entry_leaf p perms = Ok e" "frame_aligned p"
  shows "present (entry_bits e OR (cur AND LEAF_ACCESSED_DIRTY))"
    "bit (entry_bits e OR (cur AND LEAF_ACCESSED_DIRTY)) 2 = perm_user perms"
proof -
  show "present (entry_bits e OR (cur AND LEAF_ACCESSED_DIRTY))"
    "bit (entry_bits e OR (cur AND LEAF_ACCESSED_DIRTY)) 2 = perm_user perms"
    using assms(2)
    by (auto simp: bit_or_iff bit_and_iff accessed_dirty_bits bit_leaf [OF assms(1)] frame_aligned_def aligned_iff_bits)
qed

lemma leaf_match_user:
  assumes "entry_leaf p perms = Ok e" "frame_aligned p" "cur AND NOT LEAF_ACCESSED_DIRTY = entry_bits e"
  shows "bit cur 2 = perm_user perms"
proof -
  have "bit (cur AND NOT LEAF_ACCESSED_DIRTY) 2 = bit cur 2"
    by (simp add: bit_and_iff bit_not_iff accessed_dirty_bits)
  then show ?thesis
    using assms(2) by (auto simp: assms(3) bit_leaf [OF assms(1)] frame_aligned_def aligned_iff_bits)
qed

lemma distinct_mapping_range [simp]: "distinct (mapping_range m)"
proof -
  have "inj_on (of_nat :: nat \<Rightarrow> u64) {0..<unat (mpages m)}"
  proof (rule inj_onI)
    fix a b
    assume ab: "a \<in> {0..<unat (mpages m)}" "b \<in> {0..<unat (mpages m)}" "(of_nat a :: u64) = of_nat b"
    then have le: "a \<le> unat (mpages m)" "b \<le> unat (mpages m)" by auto
    show "a = b" using le_unat_uoi [OF le(1)] le_unat_uoi [OF le(2)] ab(3) by metis
  qed
  then show ?thesis by (simp add: mapping_range_def distinct_map)
qed

context table_store
begin

lemma leaf_location_eq:
  assumes "tree z s root path"
  shows "leaf_location ops s root v =
     (case table_walk (words s) root (table_key v) of Some t \<Rightarrow> Ok (t, table_index v) | None \<Rightarrow> Err NotMapped)"
proof -
  have root: "root \<in> tables s" "path root = []"
    using assms table_tree_root [of z "tables s" "words s" root path] by (auto simp: tree_def)
  show ?thesis
    using walk_tables_eq [OF assms root(1), of "table_key v"] root(2)
    by (simp add: leaf_location_def table_key_def index_less split: option.splits)
qed

text \<open>Replacing the leaf entry of a mapped page.\<close>

lemma leaf_update:
  assumes tr: "tree z s root path" and v: "valid_page v" and cur: "page_at s root v = Some cur"
    and up: "z \<longrightarrow> present e \<longrightarrow> bit e 2 \<longrightarrow> bit cur 2"
  shows "\<exists>t s'. leaf_location ops s root v = Ok (t, table_index v) \<and> ps_read ops s t (table_index v) = Ok cur \<and>
    ps_write ops t (table_index v) e s = (Ok (), s') \<and> tree z s' root path \<and>
    (\<forall>w. valid_page w \<longrightarrow> page_at s' root w = (if w = v then if present e then Some e else None else page_at s root w))"
proof -
  have inv: "inv s" and tt: "table_tree z (tables s) (words s) root path" using tr by (simp_all add: tree_def)
  have root: "root \<in> tables s" "path root = []" using table_tree_root [OF tt] by auto
  obtain t where t: "table_walk (words s) root (table_key v) = Some t" "words s t (table_index v) = cur" "present cur"
    using cur by (auto simp: page_at_def page_lookup_def split: option.splits if_splits)
  have pt: "t \<in> tables s" "path t = table_key v"
    using table_walk_path [OF tt root(1) _ _ t(1)] root(2) by auto
  have linked: "user_linked s path t" if "bit cur 2" z
    unfolding user_linked_def
  proof (intro ballI allI impI)
    fix u i
    assume u: "u \<in> tables s" "i < 512" "present (words s u i)" "length (path u) < 3" "entry_target (words s u i) = t"
    show "bit (words s u i) 2" using table_treeD(4) [OF tt u(1,2,4,3) index_less(4) [of v]] u(5) t that by simp
  qed
  obtain s' where wr: "ps_write ops t (table_index v) e s = (Ok (), s')"
    using write_ok [OF inv pt(1) index_less(4)] by blast
  have walk: "length (path t) = 3" "table_walk (words s) root (path t) = Some t" using pt t(1) by simp_all
  have up': "z \<longrightarrow> present e \<longrightarrow> bit e 2 \<longrightarrow> user_linked s path t" using up linked by blast
  note w = tree_leaf_write [OF tr pt(1) index_less(4) walk up' wr]
  have "page_at s' root x = (if x = v then if present e then Some e else None else page_at s root x)" if "valid_page x" for x
    using w(3) [of "table_key x" "table_index x"] page_key_inj [OF v that] pt by (auto simp: page_at_def index_less)
  then show ?thesis
    using leaf_location_eq [OF tr, of v] t(1,2) read_ok [OF inv pt(1) index_less(4)] wr w(1) by auto
qed

lemma expect_leaf_okD:
  assumes tr: "tree z s root path" and ok: "expect_leaf ops s root m k = Ok p"
  obtains v cur e where "mapping_page m k = Ok (v, p)" "page_at s root v = Some cur"
    "entry_leaf p (mpermissions m) = Ok e" "cur AND NOT LEAF_ACCESSED_DIRTY = entry_bits e"
proof -
  have inv: "inv s" and tt: "table_tree z (tables s) (words s) root path" using tr by (simp_all add: tree_def)
  have root: "root \<in> tables s" "path root = []" using table_tree_root [OF tt] by auto
  obtain v q where vq: "mapping_page m k = Ok (v, q)" using ok by (auto simp: expect_leaf_def split: result.splits)
  obtain t where t: "table_walk (words s) root (table_key v) = Some t"
    using ok vq by (auto simp: expect_leaf_def leaf_location_eq [OF tr] split: option.splits)
  have "t \<in> tables s" using table_walk_path [OF tt root(1) _ _ t] root(2) by auto
  note rd = read_ok [OF inv this index_less(4) [of v]]
  obtain e where "entry_leaf q (mpermissions m) = Ok e"
    using ok vq t rd by (auto simp: expect_leaf_def leaf_location_eq [OF tr] split: result.splits if_splits)
  then show thesis
    using ok vq t rd that [of v "words s t (table_index v)" e]
    by (auto simp: expect_leaf_def leaf_location_eq [OF tr] page_at_def page_lookup_def and_1_eq_0_iff split: if_splits)
qed

lemma protect_check_okD:
  assumes "tree z s root path" "protect_check ops s root m final ks = Ok ()" "k \<in> set ks"
  obtains v p cur e e' where "mapping_page m k = Ok (v, p)" "page_at s root v = Some cur"
    "entry_leaf p (mpermissions m) = Ok e" "cur AND NOT LEAF_ACCESSED_DIRTY = entry_bits e" "entry_leaf p final = Ok e'"
  using assms(2,3)
proof (induction ks)
  case (Cons x ks)
  then obtain p where p: "expect_leaf ops s root m x = Ok p" by (auto split: result.splits)
  then obtain e' where e': "entry_leaf p final = Ok e'" "protect_check ops s root m final ks = Ok ()"
    using Cons.prems by (auto split: result.splits)
  show ?case
  proof (cases "k = x")
    case True
    obtain v cur e where "mapping_page m x = Ok (v, p)" "page_at s root v = Some cur"
      "entry_leaf p (mpermissions m) = Ok e" "cur AND NOT LEAF_ACCESSED_DIRTY = entry_bits e"
      by (rule expect_leaf_okD [OF assms(1) p])
    then show ?thesis using Cons.prems(1) True e'(1) by blast
  next
    case False
    then show ?thesis using Cons.IH [OF Cons.prems(1) e'(2)] Cons.prems(3) by simp
  qed
qed simp

definition protected :: "u64 \<Rightarrow> phys_addr \<Rightarrow> page_permissions \<Rightarrow> u64 option" where
  "protected cur p final = map_option (\<lambda>b. b OR (cur AND LEAF_ACCESSED_DIRTY)) (leaf_bits p final)"

lemma protect_write_spec:
  assumes "tree z s root path" "distinct ks"
    and "\<forall>k \<in> set ks. \<exists>v p cur e. mapping_page m k = Ok (v, p) \<and> page_at s root v = Some cur \<and>
           entry_leaf p final = Ok e \<and> (z \<longrightarrow> perm_user final \<longrightarrow> bit cur 2)"
  shows "\<exists>s'. protect_write ops root m final ks s = (Ok (), s') \<and> tree z s' root path \<and>
    (\<forall>v. valid_page v \<longrightarrow> page_at s' root v = (case find (\<lambda>k. \<exists>p. mapping_page m k = Ok (v, p)) ks of
        Some k \<Rightarrow> (case mapping_page m k of Ok (_, p) \<Rightarrow> protected (the (page_at s root v)) p final | Err _ \<Rightarrow> None)
      | None \<Rightarrow> page_at s root v))"
  using assms
proof (induction ks arbitrary: s)
  case (Cons k ks)
  obtain v p cur e where k: "mapping_page m k = Ok (v, p)" "page_at s root v = Some cur"
    "entry_leaf p final = Ok e" "z \<longrightarrow> perm_user final \<longrightarrow> bit cur 2"
    using Cons.prems(3) by auto
  note vpD = mapping_pageD(1,2) [OF k(1)]
  let ?e = "entry_bits e OR (cur AND LEAF_ACCESSED_DIRTY)"
  have pe: "present ?e" "bit ?e 2 = perm_user final" using leaf_update_bits [OF k(3) vpD(2)] by blast+
  obtain t s1 where w: "leaf_location ops s root v = Ok (t, table_index v)" "ps_read ops s t (table_index v) = Ok cur"
    "ps_write ops t (table_index v) ?e s = (Ok (), s1)" "tree z s1 root path"
    "\<And>w. valid_page w \<Longrightarrow> page_at s1 root w = (if w = v then Some ?e else page_at s root w)"
    using leaf_update [OF Cons.prems(1) vpD(1) k(2), of ?e] k(4) pe by auto
  have other: "w \<noteq> v" if "mapping_page m k' = Ok (w, q)" "k' \<in> set ks" for k' w q
    using mapping_page_inj [OF k(1), of k' q] that Cons.prems(2) by auto
  have "\<forall>k' \<in> set ks. \<exists>v p cur e. mapping_page m k' = Ok (v, p) \<and> page_at s1 root v = Some cur \<and>
           entry_leaf p final = Ok e \<and> (z \<longrightarrow> perm_user final \<longrightarrow> bit cur 2)"
  proof
    fix k'
    assume "k' \<in> set ks"
    then obtain w q cur' e' where "mapping_page m k' = Ok (w, q)" "page_at s root w = Some cur'"
      "entry_leaf q final = Ok e'" "z \<longrightarrow> perm_user final \<longrightarrow> bit cur' 2" "w \<noteq> v"
      using Cons.prems(3) other by (metis list.set_intros(2))
    then show "\<exists>v p cur e. mapping_page m k' = Ok (v, p) \<and> page_at s1 root v = Some cur \<and>
           entry_leaf p final = Ok e \<and> (z \<longrightarrow> perm_user final \<longrightarrow> bit cur 2)"
      using w(5) mapping_pageD(1) by auto
  qed
  then obtain s' where s': "protect_write ops root m final ks s1 = (Ok (), s')" "tree z s' root path"
    "\<And>v. valid_page v \<Longrightarrow> page_at s' root v = (case find (\<lambda>k. \<exists>p. mapping_page m k = Ok (v, p)) ks of
        Some k \<Rightarrow> (case mapping_page m k of Ok (_, p) \<Rightarrow> protected (the (page_at s1 root v)) p final | Err _ \<Rightarrow> None)
      | None \<Rightarrow> page_at s1 root v)"
    using Cons.IH [OF w(4)] Cons.prems(2) by auto
  have "protect_write ops root m final (k # ks) s = (Ok (), s')"
    using k(1,3) w(1-3) s'(1) by simp
  moreover have "page_at s' root x = (case find (\<lambda>k. \<exists>p. mapping_page m k = Ok (x, p)) (k # ks) of
        Some k \<Rightarrow> (case mapping_page m k of Ok (_, p) \<Rightarrow> protected (the (page_at s root x)) p final | Err _ \<Rightarrow> None)
      | None \<Rightarrow> page_at s root x)" if x: "valid_page x" for x
  proof (cases "x = v")
    case True
    have "find (\<lambda>k. \<exists>p. mapping_page m k = Ok (v, p)) ks = None" using other by (auto simp: find_None_iff)
    then show ?thesis using s'(3) [OF x] True w(5) [OF x] k by (simp add: protected_def leaf_bits_def)
  next
    case False
    then have nk: "\<nexists>p. mapping_page m k = Ok (x, p)" using k(1) by auto
    have eq: "page_at s1 root x = page_at s root x" using w(5) [OF x] False by simp
    show ?thesis using s'(3) [OF x, unfolded eq] nk by simp
  qed
  ultimately show ?case using s'(2) by blast
qed simp

lemma table_protect_spec:
  assumes tr: "tree z (tb_store b) (tb_root b) path" and no_raise: "z \<longrightarrow> perm_user final \<longrightarrow> perm_user (mpermissions m)"
    and pr: "table_protect ops m final b = (r, b')"
  shows "(is_ok r \<or> b' = b) \<and> tb_root b' = tb_root b \<and> tree z (tb_store b') (tb_root b) path \<and>
    (\<forall>v. valid_page v \<longrightarrow> is_ok r \<longrightarrow> page_at (tb_store b') (tb_root b) v =
       (case find (\<lambda>k. \<exists>p. mapping_page m k = Ok (v, p)) (mapping_range m) of
        Some k \<Rightarrow> (case mapping_page m k of
            Ok (_, p) \<Rightarrow> protected (the (page_at (tb_store b) (tb_root b) v)) p final | Err _ \<Rightarrow> None)
      | None \<Rightarrow> page_at (tb_store b) (tb_root b) v))"
proof (cases "protect_check ops (tb_store b) (tb_root b) m final (mapping_range m)")
  case (Err e)
  then have "r = Err e \<and> b' = b" using pr by (simp add: table_protect_def)
  then show ?thesis using tr by simp
next
  case (Ok u)
  have "\<exists>v p cur e. mapping_page m k = Ok (v, p) \<and> page_at (tb_store b) (tb_root b) v = Some cur \<and>
           entry_leaf p final = Ok e \<and> (z \<longrightarrow> perm_user final \<longrightarrow> bit cur 2)" if k: "k \<in> set (mapping_range m)" for k
  proof -
    have ok: "protect_check ops (tb_store b) (tb_root b) m final (mapping_range m) = Ok ()" using Ok by simp
    obtain v p cur e e' where c: "mapping_page m k = Ok (v, p)" "page_at (tb_store b) (tb_root b) v = Some cur"
      "entry_leaf p (mpermissions m) = Ok e" "cur AND NOT LEAF_ACCESSED_DIRTY = entry_bits e" "entry_leaf p final = Ok e'"
      by (rule protect_check_okD [OF tr ok k])
    then show ?thesis using leaf_match_user [OF c(3) mapping_pageD(2) [OF c(1)] c(4)] no_raise by blast
  qed
  then obtain s' where s': "protect_write ops (tb_root b) m final (mapping_range m) (tb_store b) = (Ok (), s')"
    "tree z s' (tb_root b) path"
    "\<forall>v. valid_page v \<longrightarrow> page_at s' (tb_root b) v = (case find (\<lambda>k. \<exists>p. mapping_page m k = Ok (v, p)) (mapping_range m) of
        Some k \<Rightarrow> (case mapping_page m k of
            Ok (_, p) \<Rightarrow> protected (the (page_at (tb_store b) (tb_root b) v)) p final | Err _ \<Rightarrow> None)
      | None \<Rightarrow> page_at (tb_store b) (tb_root b) v)"
    using protect_write_spec [OF tr distinct_mapping_range [of m], of m final] by blast
  have "r = Ok () \<and> b' = b\<lparr>tb_store := s'\<rparr>" using pr Ok s'(1) by (simp add: table_protect_def)
  then show ?thesis using s'(2,3) by simp
qed

lemma unmap_check_okD:
  assumes "tree z s root path" "unmap_check ops s root m ks = Ok ()" "k \<in> set ks"
  obtains v p cur where "mapping_page m k = Ok (v, p)" "page_at s root v = Some cur"
  using assms(2,3)
proof (induction ks)
  case (Cons x ks)
  then obtain p where p: "expect_leaf ops s root m x = Ok p" "unmap_check ops s root m ks = Ok ()"
    by (auto split: result.splits)
  show ?case
  proof (cases "k = x")
    case True
    obtain v cur e where "mapping_page m x = Ok (v, p)" "page_at s root v = Some cur"
      "entry_leaf p (mpermissions m) = Ok e" "cur AND NOT LEAF_ACCESSED_DIRTY = entry_bits e"
      by (rule expect_leaf_okD [OF assms(1) p(1)])
    then show ?thesis using Cons.prems(1) True by blast
  next
    case False
    then show ?thesis using Cons.IH [OF Cons.prems(1) p(2)] Cons.prems(3) by simp
  qed
qed simp

lemma unmap_write_spec:
  assumes "tree z s root path" "distinct ks"
    and "\<forall>k \<in> set ks. \<exists>v p cur. mapping_page m k = Ok (v, p) \<and> page_at s root v = Some cur"
  shows "\<exists>s'. unmap_write ops root m ks s = (Ok (), s') \<and> tree z s' root path \<and>
    (\<forall>v. valid_page v \<longrightarrow> page_at s' root v = (if \<exists>p. mapped_by m ks v p then None else page_at s root v))"
  using assms
proof (induction ks arbitrary: s)
  case (Cons k ks)
  obtain v p cur where k: "mapping_page m k = Ok (v, p)" "page_at s root v = Some cur" using Cons.prems(3) by auto
  note v = mapping_pageD(1) [OF k(1)]
  obtain t s1 where w: "leaf_location ops s root v = Ok (t, table_index v)"
    "ps_write ops t (table_index v) 0 s = (Ok (), s1)" "tree z s1 root path"
    "\<And>w. valid_page w \<Longrightarrow> page_at s1 root w = (if w = v then None else page_at s root w)"
    using leaf_update [OF Cons.prems(1) v k(2), of 0] by auto
  have other: "w \<noteq> v" if "mapping_page m k' = Ok (w, q)" "k' \<in> set ks" for k' w q
    using mapping_page_inj [OF k(1), of k' q] that Cons.prems(2) by auto
  have "\<forall>k' \<in> set ks. \<exists>v p cur. mapping_page m k' = Ok (v, p) \<and> page_at s1 root v = Some cur"
  proof
    fix k'
    assume "k' \<in> set ks"
    then obtain w q cur' where "mapping_page m k' = Ok (w, q)" "page_at s root w = Some cur'" "w \<noteq> v"
      using Cons.prems(3) other by (metis list.set_intros(2))
    then show "\<exists>v p cur. mapping_page m k' = Ok (v, p) \<and> page_at s1 root v = Some cur"
      using w(4) mapping_pageD(1) by auto
  qed
  then obtain s' where s': "unmap_write ops root m ks s1 = (Ok (), s')" "tree z s' root path"
    "\<forall>v. valid_page v \<longrightarrow> page_at s' root v = (if \<exists>p. mapped_by m ks v p then None else page_at s1 root v)"
    using Cons.IH [OF w(3)] Cons.prems(2) by auto
  have mb: "(\<exists>q. mapped_by m (k # ks) x q) \<longleftrightarrow> x = v \<or> (\<exists>q. mapped_by m ks x q)" for x
    using k(1) by (auto simp: mapped_by_def)
  have "page_at s' root x = (if \<exists>p. mapped_by m (k # ks) x p then None else page_at s root x)" if "valid_page x" for x
    unfolding mb using s'(3) [rule_format, OF that] w(4) [OF that] by (cases "x = v") auto
  moreover have "unmap_write ops root m (k # ks) s = (Ok (), s')" using k(1) w(1,2) s'(1) by simp
  ultimately show ?case using s'(2) by blast
qed (auto simp: mapped_by_def)

lemma table_unmap_spec:
  assumes tr: "tree z (tb_store b) (tb_root b) path" and un: "table_unmap_exact ops m b = (r, b')"
  shows "(is_ok r \<or> b' = b) \<and> tb_root b' = tb_root b \<and> tree z (tb_store b') (tb_root b) path \<and>
    (\<forall>v. valid_page v \<longrightarrow> is_ok r \<longrightarrow> page_at (tb_store b') (tb_root b) v =
       (if \<exists>p. mapped_by m (mapping_range m) v p then None else page_at (tb_store b) (tb_root b) v))"
proof (cases "unmap_check ops (tb_store b) (tb_root b) m (mapping_range m)")
  case (Err e)
  then have "r = Err e \<and> b' = b" using un by (simp add: table_unmap_exact_def)
  then show ?thesis using tr by simp
next
  case (Ok u)
  then have ok: "unmap_check ops (tb_store b) (tb_root b) m (mapping_range m) = Ok ()" by simp
  have "\<forall>k \<in> set (mapping_range m). \<exists>v p cur. mapping_page m k = Ok (v, p) \<and> page_at (tb_store b) (tb_root b) v = Some cur"
  proof
    fix k
    assume k: "k \<in> set (mapping_range m)"
    obtain v p cur where "mapping_page m k = Ok (v, p)" "page_at (tb_store b) (tb_root b) v = Some cur"
      by (rule unmap_check_okD [OF tr ok k])
    then show "\<exists>v p cur. mapping_page m k = Ok (v, p) \<and> page_at (tb_store b) (tb_root b) v = Some cur" by blast
  qed
  then obtain s' where s': "unmap_write ops (tb_root b) m (mapping_range m) (tb_store b) = (Ok (), s')"
    "tree z s' (tb_root b) path"
    "\<forall>v. valid_page v \<longrightarrow> page_at s' (tb_root b) v =
       (if \<exists>p. mapped_by m (mapping_range m) v p then None else page_at (tb_store b) (tb_root b) v)"
    using unmap_write_spec [OF tr distinct_mapping_range [of m], of m] by blast
  have "r = Ok () \<and> b' = b\<lparr>tb_store := s'\<rparr>" using un Ok s'(1) by (simp add: table_unmap_exact_def)
  then show ?thesis using s'(2,3) by simp
qed

end

end
