(* ===== verification/Page_Table_Arena.thy ===== *)
theory Page_Table_Arena
  imports Page_Table
begin

text \<open>
  The arena store of \<open>page_table.rs\<close> provides the page-table store interface, and the builder on
  it: mapping, protecting and unmapping update a partial map from pages to leaf entries, no page
  is writable and executable, and user access is decided by the leaf entry.
\<close>

section \<open>The arena store provides the interface\<close>

definition arena_inv :: "arena \<Rightarrow> bool" where
  "arena_inv s \<longleftrightarrow> frame_aligned (ar_base s) \<and> ar_allocated s \<le> ar_capacity s \<and> ar_capacity s \<le> 256 \<and>
     unat (phys_get (ar_base s)) + ar_capacity s * 4096 < 2 ^ 52"

definition arena_frame :: "arena \<Rightarrow> nat \<Rightarrow> phys_addr" where
  "arena_frame s k = PhysAddr (phys_get (ar_base s) + of_nat k * PAGE_SIZE)"

definition arena_tables :: "arena \<Rightarrow> phys_addr set" where
  "arena_tables s = arena_frame s ` {..<ar_allocated s}"

definition arena_words :: "arena \<Rightarrow> table_words" where
  "arena_words s t i = ar_memory s (entry_address (phys_get t) i)"

lemma arena_new_inv: "arena_new base pages mem = Ok s \<Longrightarrow> arena_inv s \<and> ar_allocated s = 0"
proof -
  assume new: "arena_new base pages mem = Ok s"
  obtain l where l: "checked_mul pages PAGE_SIZE = Some l"
    using new by (auto simp: arena_new_def Let_def split: if_splits option.splits)
  obtain e where e: "checked_add (phys_get base) l = Some e"
    using new l by (auto simp: arena_new_def Let_def split: if_splits option.splits)
  have c: "unat pages \<le> 256" "phys_get base mod PAGE_SIZE = 0" "drop_bit 52 e = 0"
    "s = \<lparr>ar_base = base, ar_capacity = unat pages, ar_allocated = 0, ar_memory = mem\<rparr>"
    using new l e by (auto simp: arena_new_def Let_def split: if_splits)
  have "unat (drop_bit 52 e) = 0" using c(3) by simp
  then have "unat e div 2 ^ 52 = 0" by (simp add: drop_bit_eq_div unat_div)
  then have "unat e < 2 ^ 52" by (simp add: div_eq_0_iff)
  moreover have "unat e = unat (phys_get base) + unat pages * 4096"
    using checked_add_SomeD(2) [OF e] checked_mul_SomeD(2) [OF l] by (simp add: PAGE_SIZE_def)
  ultimately show ?thesis using c by (simp add: arena_inv_def frame_aligned_def)
qed

lemma small_u64: "k \<le> 256 \<Longrightarrow> unat (of_nat k * PAGE_SIZE :: u64) = k * 4096"
proof -
  assume k: "k \<le> 256"
  then have "unat (of_nat k :: u64) = k" using le_unat_uoi [of k "256 :: u64"] by simp
  then show ?thesis using k by (simp add: unat_word_ariths PAGE_SIZE_def)
qed

lemma unat_arena_frame:
  assumes "arena_inv s" "k \<le> ar_capacity s"
  shows "unat (phys_get (arena_frame s k)) = unat (phys_get (ar_base s)) + k * 4096"
proof -
  have "k \<le> 256" "unat (phys_get (ar_base s)) + k * 4096 < 2 ^ 52" using assms by (auto simp: arena_inv_def)
  then show ?thesis using small_u64 [of k] by (simp add: arena_frame_def unat_word_ariths)
qed

lemma frame_aligned_nat: "frame_aligned f \<longleftrightarrow> unat (phys_get f) mod 4096 = 0"
  by (simp add: frame_aligned_def word_eq_iff_unsigned [where ?'a = nat] unat_mod PAGE_SIZE_def)

lemma arena_frame_aligned: "arena_inv s \<Longrightarrow> k \<le> ar_capacity s \<Longrightarrow> frame_aligned (arena_frame s k)"
  using unat_arena_frame [of s k] by (simp add: frame_aligned_nat arena_inv_def)

lemma arena_frame_inj:
  assumes "arena_inv s" "j \<le> ar_capacity s" "k \<le> ar_capacity s" "arena_frame s j = arena_frame s k"
  shows "j = k"
proof -
  have "unat (phys_get (ar_base s)) + j * 4096 = unat (phys_get (ar_base s)) + k * 4096"
    by (simp only: flip: unat_arena_frame [OF assms(1,2)] unat_arena_frame [OF assms(1,3)] assms(4))
  then show ?thesis by simp
qed

lemma issued_table_ok:
  assumes "arena_inv s" "t \<in> arena_tables s"
  shows "\<exists>k. issued_table s t = Ok k"
proof -
  obtain k where k: "k < ar_allocated s" "t = arena_frame s k" using assms(2) by (auto simp: arena_tables_def)
  have kc: "k \<le> ar_capacity s" "k \<le> 256" using k assms(1) by (auto simp: arena_inv_def)
  note u = unat_arena_frame [OF assms(1) kc(1)]
  have off: "phys_get t - phys_get (ar_base s) = of_nat k * PAGE_SIZE" by (simp add: k(2) arena_frame_def)
  have "unat ((of_nat k * PAGE_SIZE :: u64) div PAGE_SIZE) = k"
    using small_u64 [OF kc(2)] by (simp add: unat_div PAGE_SIZE_def)
  moreover have "(of_nat k * PAGE_SIZE :: u64) mod PAGE_SIZE = 0"
    by (rule unsigned_word_eqI [where ?'a = nat]) (use small_u64 [OF kc(2)] in \<open>simp add: unat_mod PAGE_SIZE_def\<close>)
  moreover have "\<not> phys_get t < phys_get (ar_base s)" using u k(2) by (simp add: word_less_nat_alt)
  ultimately show ?thesis using off k(1) by (simp add: issued_table_def Let_def)
qed

lemma unat_entry_address:
  assumes "arena_inv s" "k < ar_capacity s" "i < 512"
  shows "unat (entry_address (phys_get (arena_frame s k)) i) = unat (phys_get (ar_base s)) + k * 4096 + 8 * i"
proof -
  have i: "unat (8 * of_nat i :: u64) = 8 * i"
    using assms(3) le_unat_uoi [of i "512 :: u64"] by (simp add: unat_word_ariths)
  have "unat (phys_get (ar_base s)) + k * 4096 + 8 * i < 2 ^ 52"
    using assms by (auto simp: arena_inv_def)
  then show ?thesis
    using unat_arena_frame [OF assms(1), of k] assms(2) i by (simp add: entry_address_def unat_word_ariths)
qed

lemma entry_address_inj:
  assumes "arena_inv s" "k < ar_capacity s" "l < ar_capacity s" "i < 512" "j < 512"
    and "entry_address (phys_get (arena_frame s k)) i = entry_address (phys_get (arena_frame s l)) j"
  shows "k = l \<and> i = j"
proof -
  have "unat (phys_get (ar_base s)) + k * 4096 + 8 * i = unat (phys_get (ar_base s)) + l * 4096 + 8 * j"
    by (simp only: assms(6) flip: unat_entry_address [OF assms(1,2,4)] unat_entry_address [OF assms(1,3,5)])
  then have e: "k * 4096 + 8 * i = l * 4096 + 8 * j" by simp
  have "\<not> k < l" "\<not> l < k" using e assms(4,5) by linarith+
  then show ?thesis using e by simp
qed

lemma zero_frame_fold:
  "fold (\<lambda>index m. m(entry_address a index := 0)) is mem x = (if x \<in> entry_address a ` set is then 0 else mem x)"
  by (induction "is" arbitrary: mem) auto

lemma zero_frame_eq: "zero_frame a mem x = (if x \<in> entry_address a ` {..<512} then 0 else mem x)"
  unfolding zero_frame_def zero_frame_fold by (simp add: atLeast0LessThan)

lemma arena_alloc_ok:
  assumes inv: "arena_inv s" and al: "arena_allocate_zeroed s = (Ok f, s')"
  shows "arena_inv s' \<and> f \<notin> arena_tables s \<and> arena_tables s' = insert f (arena_tables s) \<and> frame_aligned f \<and>
    (\<forall>i < 512. arena_words s' f i = 0) \<and> (\<forall>t \<in> arena_tables s. \<forall>i < 512. arena_words s' t i = arena_words s t i)"
proof -
  have ne: "ar_allocated s \<noteq> ar_capacity s" using al by (auto simp: arena_allocate_zeroed_def split: if_splits)
  then have n: "ar_allocated s < ar_capacity s" using inv by (simp add: arena_inv_def)
  let ?n = "ar_allocated s"
  obtain a where a: "checked_add (phys_get (ar_base s)) (of_nat ?n * PAGE_SIZE) = Some a"
    using al ne by (auto simp: arena_allocate_zeroed_def split: option.splits)
  have f: "f = arena_frame s ?n" "phys_get f = a"
    and s': "s' = s\<lparr>ar_allocated := ?n + 1, ar_memory := zero_frame a (ar_memory s)\<rparr>"
    using al ne a checked_add_SomeD(1) [OF a]
    by (auto simp: arena_allocate_zeroed_def arena_frame_def phys_new_def split: result.splits if_splits)
  have same: "arena_frame s' = arena_frame s" by (simp add: s' arena_frame_def fun_eq_iff)
  have T: "arena_tables s' = insert f (arena_tables s)"
    unfolding arena_tables_def same by (simp add: s' f(1) lessThan_Suc)
  moreover have "f \<notin> arena_tables s"
  proof
    assume "f \<in> arena_tables s"
    then obtain x where x: "x < ?n" "arena_frame s ?n = arena_frame s x" by (auto simp: arena_tables_def f(1))
    show False using arena_frame_inj [OF inv _ _ x(2)] n x(1) by simp
  qed
  moreover have "arena_words s' t i = arena_words s t i" if "t \<in> arena_tables s" "i < 512" for t i
  proof -
    obtain k where k: "k < ?n" "t = arena_frame s k" using \<open>t \<in> arena_tables s\<close> by (auto simp: arena_tables_def)
    have "entry_address (phys_get t) i \<notin> entry_address a ` {..<512}"
      using entry_address_inj [OF inv, of k ?n i] k n that(2) f by force
    then show ?thesis by (simp add: arena_words_def s' zero_frame_eq)
  qed
  moreover have "arena_words s' f i = 0" if "i < 512" for i
    using that by (simp add: arena_words_def s' zero_frame_eq f(2))
  moreover have "arena_inv s'" using inv n by (simp add: arena_inv_def s')
  ultimately show ?thesis using arena_frame_aligned [OF inv, of ?n] n f(1) by simp
qed

lemma arena_write_ok:
  assumes inv: "arena_inv s" and t: "t \<in> arena_tables s" "i < 512"
  shows "\<exists>s'. arena_write t i e s = (Ok (), s') \<and> arena_inv s' \<and> arena_tables s' = arena_tables s \<and>
    (\<forall>u \<in> arena_tables s. \<forall>j < 512. arena_words s' u j = (if u = t \<and> j = i then e else arena_words s u j))"
proof -
  let ?s = "s\<lparr>ar_memory := (ar_memory s)(entry_address (phys_get t) i := e)\<rparr>"
  obtain k where k: "k < ar_allocated s" "t = arena_frame s k" using t(1) by (auto simp: arena_tables_def)
  have cap: "ar_allocated s \<le> ar_capacity s" using inv by (simp add: arena_inv_def)
  have "arena_words ?s u j = (if u = t \<and> j = i then e else arena_words s u j)"
    if "u \<in> arena_tables s" "j < 512" for u j
  proof -
    obtain l where l: "l < ar_allocated s" "u = arena_frame s l" using \<open>u \<in> arena_tables s\<close> by (auto simp: arena_tables_def)
    have "entry_address (phys_get u) j = entry_address (phys_get t) i \<longleftrightarrow> u = t \<and> j = i"
      using entry_address_inj [OF inv, of l k j i] k l cap that(2) t(2) by auto
    then show ?thesis by (simp add: arena_words_def)
  qed
  moreover have "arena_write t i e s = (Ok (), ?s)"
    using issued_table_ok [OF inv t(1)] t(2) by (auto simp: arena_write_def)
  moreover have "arena_inv ?s" "arena_tables ?s = arena_tables s"
    using inv by (simp_all add: arena_inv_def arena_tables_def arena_frame_def image_def)
  ultimately show ?thesis by blast
qed

interpretation arena: table_store arena_store arena_inv arena_tables arena_words
proof unfold_locales
  fix s s' :: arena and f t i e x
  show "arena_inv s \<Longrightarrow> ps_allocate_zeroed arena_store s = (Ok f, s') \<Longrightarrow>
      arena_inv s' \<and> f \<notin> arena_tables s \<and> arena_tables s' = insert f (arena_tables s) \<and> frame_aligned f \<and>
      (\<forall>i < 512. arena_words s' f i = 0) \<and> (\<forall>t \<in> arena_tables s. \<forall>i < 512. arena_words s' t i = arena_words s t i)"
    unfolding arena_store_def page_table_store.simps by (rule arena_alloc_ok)
  show "ps_allocate_zeroed arena_store s = (Err x, s') \<Longrightarrow> s' = s"
    by (auto simp: arena_store_def arena_allocate_zeroed_def split: if_splits option.splits result.splits)
  show "arena_inv s \<Longrightarrow> t \<in> arena_tables s \<Longrightarrow> i < 512 \<Longrightarrow> ps_read arena_store s t i = Ok (arena_words s t i)"
    using issued_table_ok [of s t] by (auto simp: arena_store_def arena_read_def arena_words_def)
  show "arena_inv s \<Longrightarrow> t \<in> arena_tables s \<Longrightarrow> i < 512 \<Longrightarrow>
      \<exists>s'. ps_write arena_store t i e s = (Ok (), s') \<and> arena_inv s' \<and> arena_tables s' = arena_tables s \<and>
        (\<forall>u \<in> arena_tables s. \<forall>j < 512. arena_words s' u j = (if u = t \<and> j = i then e else arena_words s u j))"
    unfolding arena_store_def page_table_store.simps by (rule arena_write_ok)
qed

section \<open>Page tables as a partial map\<close>

definition pt_view :: "'s page_table_store \<Rightarrow> 's page_table_builder \<Rightarrow> virt_addr \<Rightarrow> u64 option" where
  "pt_view ops b v =
     (case leaf_location ops (tb_store b) (tb_root b) v of
        Err _ \<Rightarrow> None
      | Ok (t, i) \<Rightarrow>
          (case ps_read ops (tb_store b) t i of
             Err _ \<Rightarrow> None
           | Ok e \<Rightarrow> if e AND 1 = 0 then None else Some e))"

text \<open>What the processor checks in user mode: every entry on the way is present and user-accessible.\<close>

fun user_walk :: "'s page_table_store \<Rightarrow> 's \<Rightarrow> phys_addr \<Rightarrow> nat list \<Rightarrow> bool" where
  "user_walk ops s t [] = True"
| "user_walk ops s t (i # is) =
     (case ps_read ops s t i of
        Err _ \<Rightarrow> False
      | Ok e \<Rightarrow> e AND 1 \<noteq> 0 \<and> e AND push_bit 2 1 \<noteq> 0 \<and> user_walk ops s (PhysAddr (e AND ADDRESS_MASK)) is)"

definition user_accessible :: "'s page_table_store \<Rightarrow> 's page_table_builder \<Rightarrow> virt_addr \<Rightarrow> bool" where
  "user_accessible ops b v = user_walk ops (tb_store b) (tb_root b) (table_key v @ [table_index v])"

definition wx_safe :: "u64 \<Rightarrow> bool" where
  "wx_safe e \<longleftrightarrow> \<not> (bit e 1 \<and> \<not> bit e 63)"

lemma leaf_bits_wx: "leaf_bits f p = Some e \<Longrightarrow> frame_aligned f \<Longrightarrow> wx_safe e"
proof -
  assume "leaf_bits f p = Some e" and al: "frame_aligned f"
  then obtain l where l: "entry_leaf f p = Ok l" "e = entry_bits l" by (auto simp: leaf_bits_def split: result.splits)
  have "\<not> (perm_writable p \<and> perm_executable p)" using l(1) by (auto simp: entry_leaf_def split: if_splits)
  then show ?thesis
    using al by (auto simp: wx_safe_def l(2) bit_leaf [OF l(1)] frame_aligned_def aligned_iff_bits)
qed

lemma wx_safe_dirty: "wx_safe (e OR (cur AND LEAF_ACCESSED_DIRTY)) = wx_safe e"
  by (simp add: wx_safe_def bit_or_iff bit_and_iff accessed_dirty_bits)

context table_store
begin

lemma pt_view_at: "tree z (tb_store b) (tb_root b) path \<Longrightarrow> pt_view ops b v = page_at (tb_store b) (tb_root b) v"
proof -
  assume tr: "tree z (tb_store b) (tb_root b) path"
  let ?s = "tb_store b" and ?root = "tb_root b"
  have inv: "inv ?s" and tt: "table_tree z (tables ?s) (words ?s) ?root path" using tr by (simp_all add: tree_def)
  have root: "?root \<in> tables ?s" "path ?root = []" using table_tree_root [OF tt] by auto
  show ?thesis
  proof (cases "table_walk (words ?s) ?root (table_key v)")
    case (Some t)
    have "t \<in> tables ?s" using table_walk_path [OF tt root(1) _ _ Some] root(2) by auto
    then show ?thesis using Some read_ok [OF inv _ index_less(4) [of v], of t]
      by (simp add: pt_view_def leaf_location_eq [OF tr] page_at_def page_lookup_def and_1_eq_0_iff)
  qed (simp add: pt_view_def leaf_location_eq [OF tr] page_at_def page_lookup_def)
qed

lemma user_walk_iff:
  assumes "tree z s root path" "t \<in> tables s" "\<forall>i \<in> set is. i < 512" "j < 512" "length (path t) + length is \<le> 3"
    and "table_walk (words s) t is = Some u" "present (words s u j)"
  shows "(user_walk ops s t (is @ [j]) \<longrightarrow> bit (words s u j) 2) \<and> (z \<longrightarrow> user_walk ops s t (is @ [j]) = bit (words s u j) 2)"
  using assms(2,3,5,6)
proof (induction "is" arbitrary: t)
  case Nil
  have inv: "inv s" using assms(1) by (simp add: tree_def)
  from Nil show ?case using read_ok [OF inv Nil.prems(1) assms(4)] assms(7)
    by (simp add: and_1_eq_0_iff word_and_bit del: push_bit_of_1)
next
  case (Cons i "is")
  have inv: "inv s" and tt: "table_tree z (tables s) (words s) root path" using assms(1) by (simp_all add: tree_def)
  have l: "length (path t) < 3" "i < 512" using Cons.prems by auto
  have pr: "present (words s t i)" and wk: "table_walk (words s) (entry_target (words s t i)) is = Some u"
    using Cons.prems(4) by (simp_all split: if_splits)
  note d = table_treeD [OF tt Cons.prems(1) l(2,1) pr]
  let ?c = "entry_target (words s t i)"
  have ih: "(user_walk ops s ?c (is @ [j]) \<longrightarrow> bit (words s u j) 2) \<and>
      (z \<longrightarrow> user_walk ops s ?c (is @ [j]) = bit (words s u j) 2)"
    using Cons.prems d(3) by (intro Cons.IH [OF d(2) _ _ wk]) auto
  obtain k ks where ks: "is @ [j] = k # ks" by (cases "is @ [j]") auto
  have "k < 512" using ks Cons.prems(2) assms(4) by (cases "is") auto
  then have "bit (words s t i) 2" if "user_walk ops s ?c (is @ [j])" z
    using that d(4) [of k] read_ok [OF inv d(2)] ks
    by (simp add: and_1_eq_0_iff word_and_bit del: push_bit_of_1)
  then show ?case using ih read_ok [OF inv Cons.prems(1) l(2)] pr
    by (auto simp: and_1_eq_0_iff word_and_bit simp del: push_bit_of_1)
qed

lemma user_accessible_iff:
  assumes tr: "tree z (tb_store b) (tb_root b) path" and e: "pt_view ops b v = Some e"
  shows "user_accessible ops b v \<Longrightarrow> bit e 2" and "z \<Longrightarrow> user_accessible ops b v = bit e 2"
proof -
  let ?s = "tb_store b" and ?root = "tb_root b"
  obtain t where t: "table_walk (words ?s) ?root (table_key v) = Some t" "present e" "words ?s t (table_index v) = e"
    using e by (auto simp: pt_view_at [OF tr] page_at_def page_lookup_def split: option.splits if_splits)
  have root: "?root \<in> tables ?s" "path ?root = []"
    using tr table_tree_root [of z "tables ?s" "words ?s" ?root path] by (auto simp: tree_def)
  show "user_accessible ops b v \<Longrightarrow> bit e 2" and "z \<Longrightarrow> user_accessible ops b v = bit e 2"
    using user_walk_iff [OF tr root(1) _ index_less(4) [of v] _ t(1)] root(2) t(2,3) by (simp_all add: user_accessible_def)
qed

text \<open>Every entry of a hierarchy that grows from one root keeps writable and executable apart.\<close>

definition wx_pages :: "'s \<Rightarrow> phys_addr \<Rightarrow> bool" where
  "wx_pages s root \<longleftrightarrow> (\<forall>v e. valid_page v \<longrightarrow> page_at s root v = Some e \<longrightarrow> wx_safe e)"

lemma wx_map:
  assumes "tree z s root path" "wx_pages s root" "map_pages ops m root ks s = (r, s')"
  shows "wx_pages s' root"
  unfolding wx_pages_def
proof (intro allI impI)
  fix v e
  assume v: "valid_page v" "page_at s' root v = Some e"
  obtain ds where d: "\<And>v p. mapped_by m ds v p \<Longrightarrow> page_at s' root v = leaf_bits p (mpermissions m)"
    "\<And>v. valid_page v \<Longrightarrow> \<forall>p. \<not> mapped_by m ds v p \<Longrightarrow> page_at s' root v = page_at s root v"
    using map_pages_spec [OF assms(1,3)] by blast
  show "wx_safe e"
  proof (cases "\<exists>p. mapped_by m ds v p")
    case True
    then obtain p where p: "mapped_by m ds v p" by blast
    then have "frame_aligned p" using mapping_pageD(2) by (auto simp: mapped_by_def)
    then show ?thesis using d(1) [OF p] v(2) by (intro leaf_bits_wx [of p "mpermissions m"]) simp_all
  next
    case False
    then show ?thesis using d(2) [OF v(1)] v assms(2) by (auto simp: wx_pages_def)
  qed
qed

lemma wx_protect:
  assumes "tree z (tb_store b) (tb_root b) path" "wx_pages (tb_store b) (tb_root b)"
    and "z \<longrightarrow> perm_user final \<longrightarrow> perm_user (mpermissions m)" "table_protect ops m final b = (r, b')"
  shows "wx_pages (tb_store b') (tb_root b)"
proof (cases "is_ok r")
  case False
  then have "b' = b" using table_protect_spec [OF assms(1,3,4)] by simp
  then show ?thesis using assms(2) by simp
next
  case True
  show ?thesis
    unfolding wx_pages_def
  proof (intro allI impI)
    fix v e
    assume v: "valid_page v" "page_at (tb_store b') (tb_root b) v = Some e"
    let ?f = "find (\<lambda>k. \<exists>p. mapping_page m k = Ok (v, p)) (mapping_range m)"
    have at: "page_at (tb_store b') (tb_root b) v = (case ?f of
        Some k \<Rightarrow> (case mapping_page m k of
            Ok (_, p) \<Rightarrow> protected (the (page_at (tb_store b) (tb_root b) v)) p final | Err _ \<Rightarrow> None)
      | None \<Rightarrow> page_at (tb_store b) (tb_root b) v)"
      using table_protect_spec [OF assms(1,3,4)] True v(1) by blast
    show "wx_safe e"
    proof (cases ?f)
      case None
      then show ?thesis using at v assms(2) by (auto simp: wx_pages_def)
    next
      case (Some k)
      then obtain p where p: "mapping_page m k = Ok (v, p)" by (auto simp: find_Some_iff)
      then show ?thesis using at v(2) Some leaf_bits_wx [of p final] mapping_pageD(2) [OF p]
        by (cases "leaf_bits p final") (auto simp: protected_def wx_safe_dirty)
    qed
  qed
qed

lemma wx_unmap:
  assumes "tree z (tb_store b) (tb_root b) path" "wx_pages (tb_store b) (tb_root b)" "table_unmap_exact ops m b = (r, b')"
  shows "wx_pages (tb_store b') (tb_root b)"
proof (cases "is_ok r")
  case False
  then have "b' = b" using table_unmap_spec [OF assms(1,3)] by simp
  then show ?thesis using assms(2) by simp
next
  case True
  then have "\<forall>v. valid_page v \<longrightarrow> page_at (tb_store b') (tb_root b) v =
       (if \<exists>p. mapped_by m (mapping_range m) v p then None else page_at (tb_store b) (tb_root b) v)"
    using table_unmap_spec [OF assms(1,3)] by blast
  then show ?thesis using assms(2) by (auto simp: wx_pages_def split: if_splits)
qed

end

section \<open>Running the builder on an arena\<close>

datatype pt_op = PtMap mapping | PtProtect mapping page_permissions | PtUnmap mapping

fun pt_exec :: "pt_op \<Rightarrow> arena page_table_builder \<Rightarrow> arena page_table_builder" where
  "pt_exec (PtMap m) b = snd (table_map arena_store m b)"
| "pt_exec (PtProtect m final) b = snd (table_protect arena_store m final b)"
| "pt_exec (PtUnmap m) b = snd (table_unmap_exact arena_store m b)"

text \<open>A protect call that does not turn a supervisor page into a user page; the code does not ask for it.\<close>

fun keeps_privilege :: "pt_op \<Rightarrow> bool" where
  "keeps_privilege (PtProtect m final) = (perm_user final \<longrightarrow> perm_user (mpermissions m))"
| "keeps_privilege _ = True"

definition pt_built :: "pt_op list \<Rightarrow> arena page_table_builder \<Rightarrow> bool" where
  "pt_built xs b \<longleftrightarrow> (\<exists>base pages mem ar b0. arena_new base pages mem = Ok ar \<and> builder_new arena_store ar = Ok b0 \<and>
     b = fold pt_exec xs b0)"

text \<open>
  The invariant of the tables, in two strengths: with \<open>z\<close>, every entry above a user page is a user entry too.
\<close>

definition pt_inv :: "bool \<Rightarrow> arena page_table_builder \<Rightarrow> bool" where
  "pt_inv z b \<longleftrightarrow> (\<exists>path. arena.tree z (tb_store b) (tb_root b) path) \<and> arena.wx_pages (tb_store b) (tb_root b)"

lemma pt_inv_new:
  assumes "arena_new base pages mem = Ok ar" "builder_new arena_store ar = Ok b"
  shows "pt_inv z b"
proof -
  have i: "arena_inv ar" "arena_tables ar = {}" using arena_new_inv [OF assms(1)] by (simp_all add: arena_tables_def)
  have al: "ps_allocate_zeroed arena_store ar = (Ok (tb_root b), tb_store b)"
    using assms(2) by (auto simp: builder_new_def split: prod.splits result.splits)
  note a = arena.alloc_ok [OF i(1) al]
  have "table_tree z (arena_tables (tb_store b)) (arena_words (tb_store b)) (tb_root b) (\<lambda>_. [])"
    using a i(2) by (intro table_treeI) auto
  then have tr: "arena.tree z (tb_store b) (tb_root b) (\<lambda>_. [])" using a by (simp add: arena.tree_def)
  have "arena.page_at (tb_store b) (tb_root b) v = None" for v
    using a by (simp add: arena.page_at_def page_lookup_def table_key_def index_less)
  then show ?thesis using tr by (auto simp: pt_inv_def arena.wx_pages_def)
qed

lemma pt_inv_exec:
  assumes "pt_inv z b" "z \<longrightarrow> keeps_privilege x"
  shows "pt_inv z (pt_exec x b)"
proof -
  obtain path where tr: "arena.tree z (tb_store b) (tb_root b) path" and wx: "arena.wx_pages (tb_store b) (tb_root b)"
    using assms(1) by (auto simp: pt_inv_def)
  show ?thesis
  proof (cases x)
    case (PtMap m)
    obtain r s' where r: "map_pages arena_store m (tb_root b) (mapping_range m) (tb_store b) = (r, s')" by fastforce
    have "\<exists>path'. arena.tree z s' (tb_root b) path'" using arena.map_pages_spec [OF tr r] by blast
    then show ?thesis using arena.wx_map [OF tr wx r] r PtMap by (auto simp: pt_inv_def table_map_def)
  next
    case (PtProtect m final)
    obtain r b' where r: "table_protect arena_store m final b = (r, b')" by fastforce
    have k: "z \<longrightarrow> perm_user final \<longrightarrow> perm_user (mpermissions m)" using assms(2) PtProtect by simp
    show ?thesis
      using arena.table_protect_spec [OF tr k r] arena.wx_protect [OF tr wx k r] r PtProtect by (auto simp: pt_inv_def)
  next
    case (PtUnmap m)
    obtain r b' where r: "table_unmap_exact arena_store m b = (r, b')" by fastforce
    show ?thesis
      using arena.table_unmap_spec [OF tr r] arena.wx_unmap [OF tr wx r] r PtUnmap by (auto simp: pt_inv_def)
  qed
qed

lemma pt_built_inv: "pt_built xs b \<Longrightarrow> z \<longrightarrow> (\<forall>x \<in> set xs. keeps_privilege x) \<Longrightarrow> pt_inv z b"
proof -
  have "pt_inv z b0 \<Longrightarrow> z \<longrightarrow> (\<forall>x \<in> set xs. keeps_privilege x) \<Longrightarrow> pt_inv z (fold pt_exec xs b0)" for b0
    by (induction xs arbitrary: b0) (simp_all add: pt_inv_exec)
  then show "pt_built xs b \<Longrightarrow> z \<longrightarrow> (\<forall>x \<in> set xs. keeps_privilege x) \<Longrightarrow> pt_inv z b"
    using pt_inv_new by (auto simp: pt_built_def)
qed

lemmas pt_built_inv_any = pt_built_inv [where z = False, simplified]

text \<open>Mapping on any tables that form a tree, and what the processor may do with the result.\<close>

lemma table_map_view:
  assumes "pt_inv z b" and "table_map arena_store m b = (r, b')"
  shows "case r of
      Ok _ \<Rightarrow> (\<forall>k < unat (mpages m). \<exists>v p. mapping_page m (of_nat k) = Ok (v, p) \<and> pt_view arena_store b v = None \<and>
          pt_view arena_store b' v = leaf_bits p (mpermissions m) \<and> leaf_bits p (mpermissions m) \<noteq> None) \<and>
        (\<forall>v. valid_page v \<longrightarrow> (\<forall>k < unat (mpages m). \<forall>p. mapping_page m (of_nat k) \<noteq> Ok (v, p)) \<longrightarrow>
          pt_view arena_store b' v = pt_view arena_store b v)
    | Err _ \<Rightarrow> \<forall>v. valid_page v \<longrightarrow> pt_view arena_store b v \<noteq> None \<longrightarrow>
        pt_view arena_store b' v = pt_view arena_store b v"
proof -
  obtain path where tr: "arena.tree z (tb_store b) (tb_root b) path"
    using assms(1) by (auto simp: pt_inv_def)
  obtain s' where s': "map_pages arena_store m (tb_root b) (mapping_range m) (tb_store b) = (r, s')"
    "b' = b\<lparr>tb_store := s'\<rparr>"
    using assms(2) by (auto simp: table_map_def split: prod.splits)
  obtain path' ds rest where a: "arena.tree z s' (tb_root b) path'" "mapping_range m = ds @ rest" "r = Ok () \<longleftrightarrow> rest = []"
    "\<forall>k \<in> set ds. \<exists>v p. mapping_page m k = Ok (v, p)"
    "\<And>v p. arena.mapped_by m ds v p \<Longrightarrow> arena.page_at (tb_store b) (tb_root b) v = None \<and>
       leaf_bits p (mpermissions m) \<noteq> None \<and> arena.page_at s' (tb_root b) v = leaf_bits p (mpermissions m)"
    "\<And>v. valid_page v \<Longrightarrow> \<forall>p. \<not> arena.mapped_by m ds v p \<Longrightarrow>
       arena.page_at s' (tb_root b) v = arena.page_at (tb_store b) (tb_root b) v"
    using arena.map_pages_spec [OF tr s'(1)] by blast
  have view: "pt_view arena_store b v = arena.page_at (tb_store b) (tb_root b) v"
    "pt_view arena_store b' v = arena.page_at s' (tb_root b) v" for v
    using arena.pt_view_at [OF tr] arena.pt_view_at [of z b' path'] a(1) s'(2) by simp_all
  show ?thesis
  proof (cases r)
    case (Ok u)
    then have ds: "ds = mapping_range m" using a(2,3) by simp
    have in_ds: "of_nat k \<in> set ds" if "k < unat (mpages m)" for k
      using that by (auto simp: ds mapping_range_def)
    have "\<exists>v p. mapping_page m (of_nat k) = Ok (v, p) \<and> pt_view arena_store b v = None \<and>
        pt_view arena_store b' v = leaf_bits p (mpermissions m) \<and> leaf_bits p (mpermissions m) \<noteq> None"
      if k: "k < unat (mpages m)" for k
    proof -
      obtain v p where "mapping_page m (of_nat k) = Ok (v, p)" using a(4) in_ds [OF k] by blast
      moreover from this have "arena.mapped_by m ds v p" using in_ds [OF k] by (auto simp: arena.mapped_by_def)
      ultimately show ?thesis using a(5) view by auto
    qed
    moreover have "pt_view arena_store b' v = pt_view arena_store b v"
      if "valid_page v" "\<forall>k < unat (mpages m). \<forall>p. mapping_page m (of_nat k) \<noteq> Ok (v, p)" for v
    proof -
      have "\<forall>p. \<not> arena.mapped_by m ds v p" using that(2) by (auto simp: arena.mapped_by_def ds mapping_range_def)
      then show ?thesis using a(6) [OF that(1)] view by simp
    qed
    ultimately show ?thesis using Ok by auto
  next
    case (Err e)
    have "pt_view arena_store b' v = pt_view arena_store b v" if "valid_page v" "pt_view arena_store b v \<noteq> None" for v
    proof -
      have "\<forall>p. \<not> arena.mapped_by m ds v p" using a(5) [of v] that(2) by (auto simp: view)
      then show ?thesis using a(6) [OF that(1)] by (simp add: view)
    qed
    then show ?thesis using Err by simp
  qed
qed

lemma table_access:
  assumes "pt_inv z b" and "valid_page v" and "pt_view arena_store b v = Some e"
  shows "\<not> (bit e 1 \<and> \<not> bit e 63) \<and> (user_accessible arena_store b v \<longrightarrow> bit e 2) \<and>
     (z \<longrightarrow> user_accessible arena_store b v = bit e 2)"
proof -
  obtain path where tr: "arena.tree z (tb_store b) (tb_root b) path" and wx: "arena.wx_pages (tb_store b) (tb_root b)"
    using assms(1) by (auto simp: pt_inv_def)
  have "wx_safe e" using wx assms(2,3) arena.pt_view_at [OF tr, of v] by (auto simp: arena.wx_pages_def)
  then show ?thesis using arena.user_accessible_iff [OF tr assms(3)] by (simp add: wx_safe_def)
qed

section \<open>Properties of the builder\<close>

text \<open>
  Property C4.  On page tables built in an arena by any sequence of map, protect and unmap calls,
  mapping is an update of a partial map from pages to leaf entries: a successful call maps every
  page of the mapping, none of which was mapped before, to the leaf entry of its frame and
  permissions, and leaves every other page as it was; a failed call changes no page that was
  mapped.  A page is never mapped twice.
\<close>

theorem page_table_map_refines:
  assumes "pt_built xs b" and "table_map arena_store m b = (r, b')"
  shows "case r of
      Ok _ \<Rightarrow> (\<forall>k < unat (mpages m). \<exists>v p. mapping_page m (of_nat k) = Ok (v, p) \<and> pt_view arena_store b v = None \<and>
          pt_view arena_store b' v = leaf_bits p (mpermissions m) \<and> leaf_bits p (mpermissions m) \<noteq> None) \<and>
        (\<forall>v. valid_page v \<longrightarrow> (\<forall>k < unat (mpages m). \<forall>p. mapping_page m (of_nat k) \<noteq> Ok (v, p)) \<longrightarrow>
          pt_view arena_store b' v = pt_view arena_store b v)
    | Err _ \<Rightarrow> \<forall>v. valid_page v \<longrightarrow> pt_view arena_store b v \<noteq> None \<longrightarrow>
        pt_view arena_store b' v = pt_view arena_store b v"
  using table_map_view [OF pt_built_inv_any [OF assms(1)] assms(2)] .

text \<open>
  Property C13.  Protecting and unmapping are exact and all or nothing on page tables built in an
  arena: a call that fails leaves the tables as they were, bit for bit; a successful protect gives
  exactly the pages of the mapping the leaf entry of the new permissions, with the accessed and
  dirty bits they had; a successful unmap removes exactly those pages.
\<close>

theorem page_table_exact_updates:
  assumes "pt_built xs b"
  shows "(case table_protect arena_store m final b of
       (Err _, b') \<Rightarrow> b' = b
     | (Ok _, b') \<Rightarrow> \<forall>v. valid_page v \<longrightarrow> pt_view arena_store b' v =
         (case find (\<lambda>k. \<exists>p. mapping_page m k = Ok (v, p)) (mapping_range m) of
            None \<Rightarrow> pt_view arena_store b v
          | Some k \<Rightarrow> (case mapping_page m k of
              Ok (_, p) \<Rightarrow> map_option (\<lambda>e. e OR (the (pt_view arena_store b v) AND LEAF_ACCESSED_DIRTY)) (leaf_bits p final)
            | Err _ \<Rightarrow> None))) \<and>
     (case table_unmap_exact arena_store m b of
       (Err _, b') \<Rightarrow> b' = b
     | (Ok _, b') \<Rightarrow> \<forall>v. valid_page v \<longrightarrow> pt_view arena_store b' v =
         (if \<exists>k \<in> set (mapping_range m). \<exists>p. mapping_page m k = Ok (v, p) then None else pt_view arena_store b v))"
proof -
  obtain path where tr: "arena.tree False (tb_store b) (tb_root b) path"
    using pt_built_inv_any [OF assms] by (auto simp: pt_inv_def)
  have any: "False \<longrightarrow> perm_user final \<longrightarrow> perm_user (mpermissions m)" by simp
  obtain r b1 where p: "table_protect arena_store m final b = (r, b1)" by fastforce
  obtain q b2 where u: "table_unmap_exact arena_store m b = (q, b2)" by fastforce
  have swap: "(\<exists>p. \<exists>k \<in> A. f k = Ok (v, p)) \<longleftrightarrow> (\<exists>k \<in> A. \<exists>p. f k = Ok (v, p))"
    for A and f :: "u64 \<Rightarrow> (virt_addr \<times> phys_addr, build_error) result" and v by blast
  note P = arena.table_protect_spec [OF tr any p, unfolded arena.protected_def]
    and U = arena.table_unmap_spec [OF tr u, unfolded arena.mapped_by_def swap]
  have v0: "pt_view arena_store b v = arena.page_at (tb_store b) (tb_root b) v" for v using arena.pt_view_at [OF tr] .
  have v1: "pt_view arena_store b1 v = arena.page_at (tb_store b1) (tb_root b) v"
    and v2: "pt_view arena_store b2 v = arena.page_at (tb_store b2) (tb_root b) v" for v
    using arena.pt_view_at [of False b1 path v] arena.pt_view_at [of False b2 path v] P U by simp_all
  show ?thesis
    using P U unfolding v0 p u
    by (cases r; cases q) (simp_all add: v1 v2)
qed

text \<open>
  Property C11.  On page tables built in an arena by any sequence of map, protect and unmap calls no page is
  ever writable and executable, and the processor reaches a page in user mode only when its leaf entry is a
  user entry.  When no protect call turned a supervisor page into a user page it reaches every page
  with a user entry: every table entry above it allows user access.
\<close>

theorem page_table_access_safe:
  assumes "pt_built xs b" and "valid_page v" and "pt_view arena_store b v = Some e"
  shows "\<not> (bit e 1 \<and> \<not> bit e 63) \<and> (user_accessible arena_store b v \<longrightarrow> bit e 2) \<and>
     ((\<forall>x \<in> set xs. keeps_privilege x) \<longrightarrow> bit e 2 \<longrightarrow> user_accessible arena_store b v)"
  using table_access [OF pt_built_inv_any [OF assms(1)] assms(2,3)]
    table_access [OF pt_built_inv [OF assms(1), of True] assms(2,3)] by blast

text \<open>Membership of a frame, for evaluation.\<close>

lemma frame_word_iff: "x \<in> entry_address a ` {..<512} \<longleftrightarrow> x - a < 4096 \<and> (x - a) mod 8 = 0"
proof
  assume "x \<in> entry_address a ` {..<512}"
  then obtain i where i: "i < 512" "x = a + 8 * of_nat i" by (auto simp: entry_address_def)
  have u: "unat (8 * of_nat i :: u64) = 8 * i" using i(1) le_unat_uoi [of i "512 :: u64"] by (simp add: unat_word_ariths)
  then have "(8 * of_nat i :: u64) < 4096" using i(1) by (simp add: word_less_nat_alt)
  moreover have "(8 * of_nat i :: u64) mod 8 = 0"
    by (rule unsigned_word_eqI [where ?'a = nat]) (simp add: unat_mod u)
  ultimately show "x - a < 4096 \<and> (x - a) mod 8 = 0" by (simp add: i(2))
next
  assume x: "x - a < 4096 \<and> (x - a) mod 8 = 0"
  define i where "i = unat (x - a) div 8"
  have lt: "unat (x - a) < 4096" using x by (simp add: word_less_nat_alt)
  have "unat ((x - a) mod 8) = 0" using x by simp
  then have d: "unat (x - a) = 8 * i" by (auto simp: unat_mod i_def)
  then have i: "i < 512" using lt by simp
  then have "unat (8 * of_nat i :: u64) = 8 * i" using le_unat_uoi [of i "512 :: u64"] by (simp add: unat_word_ariths)
  then have "x - a = 8 * of_nat i" using d by (simp add: word_eq_iff_unsigned [where ?'a = nat])
  then have "x = entry_address a i" by (simp add: entry_address_def eq_diff_eq algebra_simps)
  then show "x \<in> entry_address a ` {..<512}" using i by blast
qed

lemma zero_frame_code [code]:
  "zero_frame a mem = (\<lambda>x. if x - a < 4096 \<and> (x - a) mod 8 = 0 then 0 else mem x)"
  by (simp add: fun_eq_iff zero_frame_eq frame_word_iff)

definition demo_arena :: arena where
  "demo_arena = \<lparr>ar_base = PhysAddr 0x100000, ar_capacity = 8, ar_allocated = 0, ar_memory = (\<lambda>_. 0)\<rparr>"

definition demo_builder :: "arena page_table_builder" where
  "demo_builder = \<lparr>tb_store = snd (arena_allocate_zeroed demo_arena), tb_root = PhysAddr 0x100000\<rparr>"

definition demo_mapped :: "arena page_table_builder" where
  "demo_mapped = pt_exec (PtMap (demo_user_page 0x1000 0x5000)) demo_builder"

lemma demo_built: "pt_built [PtMap (demo_user_page 0x1000 0x5000)] demo_mapped"
proof -
  have "arena_new (PhysAddr 0x100000) 8 (\<lambda>_. 0) = Ok demo_arena"
    by (simp add: arena_new_def demo_arena_def PAGE_SIZE_def checked_mul_def checked_add_def Let_def)
  moreover have "builder_new arena_store demo_arena = Ok demo_builder"
    by (simp add: builder_new_def arena_store_def arena_allocate_zeroed_def demo_arena_def demo_builder_def
        checked_add_def phys_new_def PAGE_SIZE_def)
  ultimately show ?thesis unfolding pt_built_def demo_mapped_def by force
qed

lemma demo_pages:
  "valid_page (VirtAddr 0x1000)" "mapping_range (demo_user_page v p) = [0]"
  "mapping_page (demo_user_page 0x1000 0x5000) 0 = Ok (VirtAddr 0x1000, PhysAddr 0x5000)"
  "mapping_page (demo_user_page 0x2000 0x6000) 0 = Ok (VirtAddr 0x2000, PhysAddr 0x6000)"
  by (auto simp: valid_page_def virt_new_def mapping_range_def mapping_page_def demo_user_page_def PAGE_SIZE_def
      checked_mul_def checked_add_def phys_new_def Let_def intro!: exI [of _ "0x1000"])

theorem page_table_map_refines_witness:
  "fst (table_map arena_store (demo_user_page 0x2000 0x6000) demo_mapped) = Ok () \<and>
   pt_view arena_store (snd (table_map arena_store (demo_user_page 0x2000 0x6000) demo_mapped)) (VirtAddr 0x1000)
     = pt_view arena_store demo_mapped (VirtAddr 0x1000) \<and>
   pt_view arena_store (snd (table_map arena_store (demo_user_page 0x2000 0x6000) demo_mapped)) (VirtAddr 0x2000) \<noteq> None"
proof -
  let ?m = "demo_user_page 0x2000 0x6000"
  obtain b' where b': "table_map arena_store ?m demo_mapped = (Ok (), b')"
  proof -
    have "fst (table_map arena_store ?m demo_mapped) = Ok ()" by code_simp
    then show thesis using that by (metis prod.collapse)
  qed
  have "mpages ?m = 1" by (simp add: demo_user_page_def)
  then show ?thesis
    using page_table_map_refines [OF demo_built b'] b' demo_pages by auto
qed

theorem page_table_exact_updates_witness:
  "fst (table_unmap_exact arena_store (demo_user_page 0x1000 0x5000) demo_mapped) = Ok () \<and>
   pt_view arena_store demo_mapped (VirtAddr 0x1000) \<noteq> None \<and>
   pt_view arena_store (snd (table_unmap_exact arena_store (demo_user_page 0x1000 0x5000) demo_mapped)) (VirtAddr 0x1000) = None"
proof -
  let ?m = "demo_user_page 0x1000 0x5000"
  have ok: "fst (table_unmap_exact arena_store ?m demo_mapped) = Ok ()"
    "pt_view arena_store demo_mapped (VirtAddr 0x1000) = Some 0x8000000000005007"
    by code_simp+
  then obtain b' where b': "table_unmap_exact arena_store ?m demo_mapped = (Ok (), b')" by (metis prod.collapse)
  from page_table_exact_updates [OF demo_built, where m = ?m and final = USER_READ] show ?thesis
    using ok b' demo_pages by (auto simp del: perm_user_def)
qed

theorem page_table_access_safe_witness:
  "\<exists>e. pt_view arena_store demo_mapped (VirtAddr 0x1000) = Some e \<and> \<not> (bit e 1 \<and> \<not> bit e 63) \<and>
     user_accessible arena_store demo_mapped (VirtAddr 0x1000) = bit e 2"
proof -
  have e: "pt_view arena_store demo_mapped (VirtAddr 0x1000) = Some 0x8000000000005007" by code_simp
  have "\<forall>x \<in> set [PtMap (demo_user_page 0x1000 0x5000)]. keeps_privilege x" by simp
  with page_table_access_safe [OF demo_built demo_pages(1) e] e show ?thesis
    by (intro exI [of _ "0x8000000000005007"]) blast
qed

text \<open>
  The condition on protect calls is needed.  Protecting a supervisor page of the lower half to user
  permissions succeeds and writes a user leaf, but the table entries above it stay supervisor entries, which
  only mapping updates: user code does not reach the page it was given.
\<close>

definition demo_low_page :: mapping where
  "demo_low_page = (demo_user_page 0x1000 0x5000)\<lparr>mpermissions := KERNEL_LOW_READ_WRITE\<rparr>"

theorem protect_to_user_unreachable:
  "let b = pt_exec (PtMap demo_low_page) demo_builder; (r, b') = table_protect arena_store demo_low_page USER_READ b in
     r = Ok () \<and> pt_view arena_store b' (VirtAddr 0x1000) = Some 0x8000000000005005 \<and>
     bit (0x8000000000005005 :: u64) 2 \<and> \<not> user_accessible arena_store b' (VirtAddr 0x1000)"
  by code_simp

end
