(* ===== verification/Page_Clone.thy ===== *)
theory Page_Clone
  imports Page_Table_Arena
begin

text \<open>
  Derived address spaces and the active tables, after \<open>page_table.rs\<close>: the bounded private copy
  of a supervisor hierarchy, the root that shares only the supervisor half of another, and
  inspection, protection and unmapping through the identity map with the invalidation of the
  translations they affect.  A copy succeeds exactly when the source is well formed to its depth and the
  frames last, and it translates every address as the source does without sharing a table with it.
\<close>

section \<open>Definitions\<close>

text \<open>
  The recursion of the copy over levels and its loop over the 512 entries.  The loop is entered
  with a level from 1 to 4 only, where \<open>level \<le> 1\<close> is the test \<open>level == 1\<close> of the code.
\<close>

function (sequential) clone_supervisor_table ::
    "'d page_table_store \<Rightarrow> 'r page_table_store \<Rightarrow> 'r \<Rightarrow> phys_addr \<Rightarrow> nat \<Rightarrow> 'd \<Rightarrow>
      (phys_addr, build_error) result \<times> 'd"
  and clone_entries ::
    "'d page_table_store \<Rightarrow> 'r page_table_store \<Rightarrow> 'r \<Rightarrow> phys_addr \<Rightarrow> nat \<Rightarrow> phys_addr \<Rightarrow> nat \<Rightarrow> 'd \<Rightarrow>
      (unit, build_error) result \<times> 'd" where
  "clone_supervisor_table dops rops src source level dst =
     (if \<not> (1 \<le> level \<and> level \<le> 4) then (Err InvalidIntermediate, dst)
      else case ps_allocate_zeroed dops dst of
        (Err e, dst) \<Rightarrow> (Err e, dst)
      | (Ok clone, dst) \<Rightarrow>
          (case clone_entries dops rops src source level clone 0 dst of
             (Err e, dst) \<Rightarrow> (Err e, dst)
           | (Ok _, dst) \<Rightarrow> (Ok clone, dst)))"
| "clone_entries dops rops src source level clone index dst =
     (if index \<ge> 512 then (Ok (), dst)
      else case ps_read rops src source index of
        Err e \<Rightarrow> (Err e, dst)
      | Ok entry \<Rightarrow>
      if entry AND 1 = 0 then
        (if entry \<noteq> 0 then (Err InvalidIntermediate, dst)
         else clone_entries dops rops src source level clone (index + 1) dst)
      else if entry AND push_bit 2 1 \<noteq> 0 \<or> reserved_bits entry \<or> entry AND ADDRESS_MASK = 0
      then (Err InvalidIntermediate, dst)
      else if level \<le> 1 then
        (case ps_write dops clone index entry dst of
           (Err e, dst) \<Rightarrow> (Err e, dst)
         | (Ok _, dst) \<Rightarrow> clone_entries dops rops src source level clone (index + 1) dst)
      else if entry AND push_bit 7 1 \<noteq> 0 then (Err InvalidIntermediate, dst)
      else case phys_new (entry AND ADDRESS_MASK) of
        Err _ \<Rightarrow> (Err InvalidIntermediate, dst)
      | Ok child \<Rightarrow>
          (case clone_supervisor_table dops rops src child (level - 1) dst of
             (Err e, dst) \<Rightarrow> (Err e, dst)
           | (Ok child_clone, dst) \<Rightarrow>
               (case ps_write dops clone index ((entry AND NOT ADDRESS_MASK) OR phys_get child_clone) dst of
                  (Err e, dst) \<Rightarrow> (Err e, dst)
                | (Ok _, dst) \<Rightarrow> clone_entries dops rops src source level clone (index + 1) dst)))"
  by pat_completeness auto
termination
  by (relation "measures
       [\<lambda>x. case x of Inl (_, _, _, _, level, _) \<Rightarrow> level | Inr (_, _, _, _, level, _, _, _) \<Rightarrow> level,
        \<lambda>x. case x of Inl _ \<Rightarrow> 1 | Inr _ \<Rightarrow> 0,
        \<lambda>x. case x of Inl _ \<Rightarrow> 0 | Inr (_, _, _, _, _, _, index, _) \<Rightarrow> 512 - index]") auto

declare clone_supervisor_table.simps [simp del] clone_entries.simps [simp del]

definition clone_current_supervisor_mappings ::
  "'d page_table_store \<Rightarrow> phys_memory \<Rightarrow> u64 \<Rightarrow> 'd \<Rightarrow> ('d page_table_builder, build_error) result" where
  "clone_current_supervisor_mappings dops memory cr3 dst =
     (case phys_new (cr3 AND ADDRESS_MASK) of
        Err _ \<Rightarrow> Err InvalidIntermediate
      | Ok source \<Rightarrow>
          (case clone_supervisor_table dops identity_store memory source 4 dst of
             (Err e, _) \<Rightarrow> Err e
           | (Ok root, dst) \<Rightarrow> Ok \<lparr>tb_store = dst, tb_root = root\<rparr>))"

fun share_supervisor_half ::
  "'d page_table_store \<Rightarrow> 'r page_table_store \<Rightarrow> 'r \<Rightarrow> phys_addr \<Rightarrow> phys_addr \<Rightarrow> nat list \<Rightarrow> 'd \<Rightarrow>
     (unit, build_error) result \<times> 'd" where
  "share_supervisor_half dops rops src source root [] dst = (Ok (), dst)"
| "share_supervisor_half dops rops src source root (index # rest) dst =
     (case ps_read rops src source index of
        Err e \<Rightarrow> (Err e, dst)
      | Ok entry \<Rightarrow>
      if entry AND 1 = 0 then
        (if entry \<noteq> 0 then (Err InvalidIntermediate, dst)
         else share_supervisor_half dops rops src source root rest dst)
      else if entry AND push_bit 2 1 \<noteq> 0 \<or> entry AND push_bit 7 1 \<noteq> 0 \<or> reserved_bits entry
              \<or> entry AND ADDRESS_MASK = 0
      then (Err InvalidIntermediate, dst)
      else case ps_write dops root index entry dst of
        (Err e, dst) \<Rightarrow> (Err e, dst)
      | (Ok _, dst) \<Rightarrow> share_supervisor_half dops rops src source root rest dst)"

definition new_with_supervisor_half_from ::
  "'d page_table_store \<Rightarrow> 'r page_table_store \<Rightarrow> 'r \<Rightarrow> phys_addr \<Rightarrow> 'd \<Rightarrow>
     ('d page_table_builder, build_error) result" where
  "new_with_supervisor_half_from dops rops src source dst =
     (case ps_allocate_zeroed dops dst of
        (Err e, _) \<Rightarrow> Err e
      | (Ok root, dst) \<Rightarrow>
          (case share_supervisor_half dops rops src source root [256..<512] dst of
             (Err e, _) \<Rightarrow> Err e
           | (Ok _, dst) \<Rightarrow> Ok \<lparr>tb_store = dst, tb_root = root\<rparr>))"

definition new_with_current_supervisor_half ::
  "'d page_table_store \<Rightarrow> phys_memory \<Rightarrow> u64 \<Rightarrow> 'd \<Rightarrow> ('d page_table_builder, build_error) result" where
  "new_with_current_supervisor_half dops memory cr3 dst =
     (case phys_new (cr3 AND ADDRESS_MASK) of
        Err _ \<Rightarrow> Err InvalidIntermediate
      | Ok source \<Rightarrow> new_with_supervisor_half_from dops identity_store memory source dst)"

subsection \<open>The active tables\<close>

definition active_current :: "u64 \<Rightarrow> (phys_addr, build_error) result" where
  "active_current cr3 = map_err (\<lambda>_. InvalidIntermediate) (phys_new (cr3 AND ADDRESS_MASK))"

definition LEAF_ALLOWED :: u64 where
  "LEAF_ALLOWED = ADDRESS_MASK OR push_bit 63 1 OR LEAF_ACCESSED_DIRTY OR 0b111"

definition active_leaf_at :: "phys_memory \<Rightarrow> phys_addr \<Rightarrow> virt_addr \<Rightarrow> (active_leaf option, build_error) result" where
  "active_leaf_at memory root v =
     (case leaf_location identity_store memory root v of
        Err e \<Rightarrow> Err e
      | Ok (table, index) \<Rightarrow>
      (case ps_read identity_store memory table index of
        Err e \<Rightarrow> Err e
      | Ok bits \<Rightarrow>
      if bits AND 1 = 0 then Ok None
      else if bits AND NOT LEAF_ALLOWED \<noteq> 0 then Err MappingMismatch
      else case phys_new (bits AND ADDRESS_MASK) of
        Err _ \<Rightarrow> Err MappingMismatch
      | Ok physical \<Rightarrow>
          Ok (Some \<lparr>al_physical = physical, al_writable = bits AND push_bit 1 1 \<noteq> 0,
            al_executable = bits AND push_bit 63 1 = 0, al_user = bits AND push_bit 2 1 \<noteq> 0\<rparr>)))"

text \<open>
  Invalidation executes one instruction per page; the addresses invalidated so far are kept in
  order, newest last.
\<close>

fun invalidate_pages :: "mapping \<Rightarrow> u64 list \<Rightarrow> u64 list \<Rightarrow> (unit, build_error) result \<times> u64 list" where
  "invalidate_pages m [] tlb = (Ok (), tlb)"
| "invalidate_pages m (page # rest) tlb =
     (case checked_mul page PAGE_SIZE of
        None \<Rightarrow> (Err AddressOverflow, tlb)
      | Some offset \<Rightarrow>
          (case checked_add (virt_get (virtual_start m)) offset of
             None \<Rightarrow> (Err AddressOverflow, tlb)
           | Some address \<Rightarrow> invalidate_pages m rest (tlb @ [address])))"

definition invalidate_mapping :: "mapping \<Rightarrow> u64 list \<Rightarrow> (unit, build_error) result \<times> u64 list" where
  "invalidate_mapping m = invalidate_pages m (mapping_range m)"

definition active_protect ::
  "mapping \<Rightarrow> page_permissions \<Rightarrow> phys_addr \<Rightarrow> phys_memory \<Rightarrow> u64 list \<Rightarrow>
     (unit, build_error) result \<times> phys_memory \<times> u64 list" where
  "active_protect expected final root memory tlb =
     (case table_protect identity_store expected final \<lparr>tb_store = memory, tb_root = root\<rparr> of
        (Err e, b) \<Rightarrow> (Err e, tb_store b, tlb)
      | (Ok _, b) \<Rightarrow>
          (case invalidate_mapping expected tlb of (r, tlb) \<Rightarrow> (r, tb_store b, tlb)))"

definition active_unmap_exact ::
  "mapping \<Rightarrow> phys_addr \<Rightarrow> phys_memory \<Rightarrow> u64 list \<Rightarrow> (unit, build_error) result \<times> phys_memory \<times> u64 list" where
  "active_unmap_exact expected root memory tlb =
     (case table_unmap_exact identity_store expected \<lparr>tb_store = memory, tb_root = root\<rparr> of
        (Err e, b) \<Rightarrow> (Err e, tb_store b, tlb)
      | (Ok _, b) \<Rightarrow>
          (case invalidate_mapping expected tlb of (r, tlb) \<Rightarrow> (r, tb_store b, tlb)))"

section \<open>Copies of a hierarchy\<close>

text \<open>
  \<open>cloned l w N\<close> relates a table of the copy to its source, \<open>l\<close> levels above the pages: leaf
  entries are equal, links have the same attributes and lead to copies, all in the set \<open>N\<close>.
\<close>

fun cloned :: "nat \<Rightarrow> table_words \<Rightarrow> phys_addr set \<Rightarrow> 'r page_table_store \<Rightarrow> 'r \<Rightarrow> phys_addr \<Rightarrow> phys_addr \<Rightarrow> bool"
  and entry_cloned :: "nat \<Rightarrow> table_words \<Rightarrow> phys_addr set \<Rightarrow> 'r page_table_store \<Rightarrow> 'r \<Rightarrow> phys_addr \<Rightarrow> phys_addr \<Rightarrow> nat \<Rightarrow> bool"
  where
  "cloned 0 w N rops src source c = False"
| "cloned (Suc l) w N rops src source c = (c \<in> N \<and> (\<forall>i < 512. entry_cloned l w N rops src source c i))"
| "entry_cloned l w N rops src source c i =
     (case ps_read rops src source i of
        Err _ \<Rightarrow> False
      | Ok e \<Rightarrow> (\<not> present e \<longrightarrow> w c i = 0) \<and> (present e \<longrightarrow> \<not> bit e 2 \<and> \<not> reserved_bits e) \<and>
          (present e \<longrightarrow> l = 0 \<longrightarrow> w c i = e) \<and>
          (present e \<longrightarrow> l \<noteq> 0 \<longrightarrow> present (w c i) \<and> \<not> bit (w c i) 2 \<and> link_ok (w c i) \<and>
             w c i AND NOT ADDRESS_MASK = e AND NOT ADDRESS_MASK \<and>
             cloned l w N rops src (entry_target e) (entry_target (w c i))))"

declare entry_cloned.simps [simp del]

lemma entry_cloned_cong:
  assumes "entry_cloned l w N rops src source c i" "w' c i = w c i"
    and "\<And>source c. cloned l w N rops src source c \<Longrightarrow> cloned l w' N' rops src source c"
  shows "entry_cloned l w' N' rops src source c i"
  using assms by (cases "ps_read rops src source i") (simp_all add: entry_cloned.simps)

lemma cloned_mono:
  assumes "cloned l w N rops src source c" "N \<subseteq> N'" "\<forall>t \<in> N. \<forall>i < 512. w' t i = w t i"
  shows "cloned l w' N' rops src source c"
  using assms(1)
proof (induction l arbitrary: source c)
  case (Suc l)
  have "c \<in> N" using Suc.prems by simp
  moreover have "entry_cloned l w' N' rops src source c i" if "i < 512" for i
    using Suc.prems that assms(3) by (intro entry_cloned_cong [OF _ _ Suc.IH]) auto
  ultimately show ?case using assms(2) by auto
qed simp

lemma entry_cloned_mono:
  assumes "entry_cloned l w N rops src source c i" "N \<subseteq> N'" "\<forall>t \<in> N. \<forall>i < 512. w' t i = w t i" "w' c i = w c i"
  shows "entry_cloned l w' N' rops src source c i"
  using cloned_mono [OF _ assms(2,3)] by (intro entry_cloned_cong [of l w N, where w' = w', OF assms(1) assms(4)])

text \<open>The attributes of a link survive the change of its target.\<close>

lemma retarget_link:
  fixes e :: u64
  assumes "frame_aligned d" "phys_get d \<le> MAX_PHYSICAL_ADDRESS" "present e" "\<not> bit e 2" "\<not> bit e 7" "\<not> reserved_bits e"
  defines "x \<equiv> (e AND NOT ADDRESS_MASK) OR phys_get d"
  shows "present x" "\<not> bit x 2" "link_ok x" "x AND NOT ADDRESS_MASK = e AND NOT ADDRESS_MASK" "entry_target x = d"
proof -
  note fb = frame_bits [OF assms(2) assms(1) [unfolded frame_aligned_def]]
  have b: "bit x i \<longleftrightarrow> (bit e i \<and> i < 64 \<and> \<not> (12 \<le> i \<and> i < 52)) \<or> bit (phys_get d) i" for i
    unfolding x_def bit_or_iff bit_and_iff bit_not_iff address_mask_bits by (auto simp: bit_u64_less)
  show "present x" "\<not> bit x 2" using assms(3,4) fb [of 2] by (auto simp: b)
  show "link_ok x" using assms(5,6) fb by (fastforce simp: link_ok_def reserved_bits_iff b)
  show "x AND NOT ADDRESS_MASK = e AND NOT ADDRESS_MASK"
    by (rule bit_word_eqI, unfold bit_and_iff bit_not_iff address_mask_bits b) (use fb in auto)
  have "x AND ADDRESS_MASK = phys_get d"
    by (rule bit_word_eqI, unfold bit_and_iff address_mask_bits b) (use fb in auto)
  then show "entry_target x = d" by simp
qed

locale bounded_table_store = table_store ops inv tables words
  for ops :: "'s page_table_store" and inv :: "'s \<Rightarrow> bool" and tables :: "'s \<Rightarrow> phys_addr set"
    and words :: "'s \<Rightarrow> table_words" +
  assumes alloc_limit: "inv s \<Longrightarrow> ps_allocate_zeroed ops s = (Ok f, s') \<Longrightarrow> phys_get f \<le> MAX_PHYSICAL_ADDRESS"
begin

definition grows :: "'s \<Rightarrow> 's \<Rightarrow> phys_addr set \<Rightarrow> bool" where
  "grows s s' X \<longleftrightarrow> inv s' \<and> tables s \<subseteq> tables s' \<and> (\<forall>t \<in> tables s - X. \<forall>i < 512. words s' t i = words s t i)"

definition clone_post ::
  "'r page_table_store \<Rightarrow> 'r \<Rightarrow> phys_addr \<Rightarrow> nat \<Rightarrow> 's \<Rightarrow> (phys_addr, build_error) result \<Rightarrow> 's \<Rightarrow> bool" where
  "clone_post rops src source level s r s' \<longleftrightarrow> grows s s' {} \<and>
     (\<forall>c. r = Ok c \<longrightarrow> frame_aligned c \<and> phys_get c \<le> MAX_PHYSICAL_ADDRESS \<and>
        cloned level (words s') (tables s' - tables s) rops src source c)"

definition entries_post ::
  "'r page_table_store \<Rightarrow> 'r \<Rightarrow> phys_addr \<Rightarrow> nat \<Rightarrow> phys_addr \<Rightarrow> nat \<Rightarrow> 's \<Rightarrow> (unit, build_error) result \<Rightarrow> 's \<Rightarrow> bool" where
  "entries_post rops src source l c index s r s' \<longleftrightarrow> grows s s' {c} \<and> (\<forall>i < index. words s' c i = words s c i) \<and>
     (r = Ok () \<longrightarrow> (\<forall>i. index \<le> i \<longrightarrow> i < 512 \<longrightarrow>
        entry_cloned l (words s') (tables s' - tables s) rops src source c i))"

text \<open>One entry of the loop: what it wrote is a copy, and the rest of the loop keeps it.\<close>

lemma entries_post_step:
  assumes c: "c \<in> tables s" and idx: "index < 512"
    and g: "inv s2" "tables s \<subseteq> tables s2" "\<forall>t \<in> tables s. \<forall>i < 512. t \<noteq> c \<or> i \<noteq> index \<longrightarrow> words s2 t i = words s t i"
    and e: "entry_cloned l (words s2) (tables s2 - tables s) rops src source c index"
    and rest: "entries_post rops src source l c (index + 1) s2 r s'"
  shows "entries_post rops src source l c index s r s'"
proof -
  have gr: "inv s'" "tables s2 \<subseteq> tables s'" "\<forall>t \<in> tables s2 - {c}. \<forall>i < 512. words s' t i = words s2 t i"
    and lo: "\<forall>i < index + 1. words s' c i = words s2 c i"
    using rest by (auto simp: entries_post_def grows_def)
  have "grows s s' {c}" unfolding grows_def using gr g by auto
  moreover have "\<forall>i < index. words s' c i = words s c i" using lo g(3) c idx by auto
  moreover have "entry_cloned l (words s') (tables s' - tables s) rops src source c i"
    if "r = Ok ()" "index \<le> i" "i < 512" for i
  proof (cases "i = index")
    case True
    show ?thesis
      unfolding True using gr(2,3) lo c by (intro entry_cloned_mono [OF e]) auto
  next
    case False
    then have "entry_cloned l (words s') (tables s' - tables s2) rops src source c i"
      using rest that by (simp add: entries_post_def)
    from entry_cloned_mono [OF this] show ?thesis using g(2) by blast
  qed
  ultimately show ?thesis by (simp add: entries_post_def)
qed

lemma entries_post_stop: "inv s \<Longrightarrow> r \<noteq> Ok () \<or> 512 \<le> index \<Longrightarrow> entries_post rops src source l c index s r s"
  by (auto simp: entries_post_def grows_def)

end

context bounded_table_store
begin

lemma write_step:
  assumes "inv s" "c \<in> tables s" "index < 512" "ps_write ops c index e s = (w, s')"
  shows "w = Ok ()" "inv s'" "tables s' = tables s" "words s' c index = e"
    "\<forall>t \<in> tables s. \<forall>i < 512. t \<noteq> c \<or> i \<noteq> index \<longrightarrow> words s' t i = words s t i"
proof -
  obtain s2 where "ps_write ops c index e s = (Ok (), s2)" "inv s2" "tables s2 = tables s"
    "\<forall>u \<in> tables s. \<forall>j < 512. words s2 u j = (if u = c \<and> j = index then e else words s u j)"
    using write_ok [OF assms(1-3), of e] by blast
  moreover from this have "w = Ok ()" "s2 = s'" using assms(4) by simp_all
  ultimately show "w = Ok ()" "inv s'" "tables s' = tables s" "words s' c index = e"
    "\<forall>t \<in> tables s. \<forall>i < 512. t \<noteq> c \<or> i \<noteq> index \<longrightarrow> words s' t i = words s t i"
    using assms(2,3) by auto
qed

lemma clone_entries_spec:
  assumes ih: "\<And>source s r s'. inv s \<Longrightarrow> l \<noteq> 0 \<Longrightarrow> clone_supervisor_table ops rops src source l s = (r, s') \<Longrightarrow>
      clone_post rops src source l s r s'"
    and s: "inv s" "c \<in> tables s" "\<forall>i. index \<le> i \<longrightarrow> i < 512 \<longrightarrow> words s c i = 0"
    and run: "clone_entries ops rops src source (Suc l) c index s = (r, s')"
  shows "entries_post rops src source l c index s r s'"
  using s run
proof (induction "512 - index" arbitrary: index s)
  case 0
  then have "r = Ok ()" "s' = s" by (simp_all add: clone_entries.simps)
  then show ?case using 0 entries_post_stop [of s r index] by simp
next
  case (Suc n)
  then have idx: "index < 512" and n: "n = 512 - (index + 1)" by auto
  note run = Suc.prems(4) [unfolded clone_entries.simps [of _ _ _ _ _ _ index]]
  have step: "entries_post rops src source l c index s r s'"
    if "inv s2" "tables s \<subseteq> tables s2" "\<forall>t \<in> tables s. \<forall>i < 512. t \<noteq> c \<or> i \<noteq> index \<longrightarrow> words s2 t i = words s t i"
      "entry_cloned l (words s2) (tables s2 - tables s) rops src source c index"
      "clone_entries ops rops src source (Suc l) c (index + 1) s2 = (r, s')" for s2
  proof (rule entries_post_step [OF Suc.prems(2) idx that(1-4)])
    show "entries_post rops src source l c (index + 1) s2 r s'"
      using that(1-3) Suc.prems(2,3) by (intro Suc.hyps(1) [OF n _ _ _ that(5)]) auto
  qed
  show ?case
  proof (cases "ps_read rops src source index")
    case (Err x)
    then have "r = Err x" "s' = s" using run idx by auto
    then show ?thesis using Suc.prems(1) entries_post_stop [of s r] by simp
  next
    case (Ok e)
    show ?thesis
    proof (cases "present e")
      case False
      show ?thesis
      proof (cases "e = 0")
        case True
        have "entry_cloned l (words s) (tables s - tables s) rops src source c index"
          using Ok True Suc.prems(3) idx by (simp add: entry_cloned.simps)
        moreover have "clone_entries ops rops src source (Suc l) c (index + 1) s = (r, s')"
          using run idx Ok True by simp
        ultimately show ?thesis using Suc.prems(1) by (intro step [of s]) auto
      next
        case False
        then have "r \<noteq> Ok () \<and> s' = s" using run idx Ok \<open>\<not> present e\<close> by (auto simp: and_1_eq_0_iff)
        then show ?thesis using Suc.prems(1) entries_post_stop [of s r] by simp
      qed
    next
      case pr: True
      show ?thesis
      proof (cases "bit e 2 \<or> reserved_bits e \<or> e AND ADDRESS_MASK = 0 \<or> (l \<noteq> 0 \<and> bit e 7)")
        case True
        then have "r \<noteq> Ok () \<and> s' = s"
          using run idx Ok pr by (auto simp: and_1_eq_0_iff word_and_bit simp del: push_bit_of_1 split: if_splits)
        then show ?thesis using Suc.prems(1) entries_post_stop [of s r] by simp
      next
        case False
        then have ok: "\<not> bit e 2" "\<not> reserved_bits e" "e AND ADDRESS_MASK \<noteq> 0" "l \<noteq> 0 \<Longrightarrow> \<not> bit e 7" by auto
        show ?thesis
        proof (cases "l = 0")
          case True
          obtain w s2 where wr: "ps_write ops c index e s = (w, s2)" by fastforce
          note w = write_step [OF Suc.prems(1,2) idx wr]
          have "clone_entries ops rops src source (Suc l) c (index + 1) s2 = (r, s')"
            using run idx Ok pr ok True wr w(1) by (simp add: and_1_eq_0_iff word_and_bit del: push_bit_of_1)
          moreover have "entry_cloned l (words s2) (tables s2 - tables s) rops src source c index"
            using Ok pr ok w(4) True by (simp add: entry_cloned.simps)
          ultimately show ?thesis using w by (intro step [of s2]) auto
        next
          case l: False
          obtain rc s1 where cl: "clone_supervisor_table ops rops src (entry_target e) l s = (rc, s1)" by fastforce
          note post = ih [OF Suc.prems(1) l cl]
          have g1: "inv s1" "tables s \<subseteq> tables s1" "\<forall>t \<in> tables s. \<forall>i < 512. words s1 t i = words s t i"
            using post by (auto simp: clone_post_def grows_def)
          show ?thesis
          proof (cases rc)
            case (Err x)
            then have "r = Err x" "s' = s1"
              using run idx Ok pr ok l cl by (auto simp: and_1_eq_0_iff word_and_bit simp del: push_bit_of_1)
            then show ?thesis using g1 idx Suc.prems(2) by (auto simp: entries_post_def grows_def)
          next
            case rc: (Ok d)
            have d: "frame_aligned d" "phys_get d \<le> MAX_PHYSICAL_ADDRESS"
              "cloned l (words s1) (tables s1 - tables s) rops src (entry_target e) d"
              using post rc by (auto simp: clone_post_def)
            let ?x = "(e AND NOT ADDRESS_MASK) OR phys_get d"
            note x = retarget_link [OF d(1,2) pr ok(1) ok(4) [OF l] ok(2)]
            have c1: "c \<in> tables s1" using g1(2) Suc.prems(2) by auto
            obtain w s2 where wr: "ps_write ops c index ?x s1 = (w, s2)" by fastforce
            note w = write_step [OF g1(1) c1 idx wr]
            have "cloned l (words s2) (tables s2 - tables s) rops src (entry_target e) d"
              using w(3,5) Suc.prems(2) by (intro cloned_mono [OF d(3)]) auto
            then have "entry_cloned l (words s2) (tables s2 - tables s) rops src source c index"
              using Ok pr ok w(4) l x by (simp add: entry_cloned.simps)
            moreover have "clone_entries ops rops src source (Suc l) c (index + 1) s2 = (r, s')"
              using run idx Ok pr ok l cl rc wr w(1) by (simp add: and_1_eq_0_iff word_and_bit del: push_bit_of_1)
            ultimately show ?thesis using w g1 by (intro step [of s2]) auto
          qed
        qed
      qed
    qed
  qed
qed

lemma clone_spec:
  assumes "inv s" "level \<noteq> 0" "clone_supervisor_table ops rops src source level s = (r, s')"
  shows "clone_post rops src source level s r s'"
  using assms
proof (induction level arbitrary: source s r s')
  case (Suc l)
  note run = Suc.prems(3) [unfolded clone_supervisor_table.simps]
  have stop: "clone_post rops src source (Suc l) s (Err x) s" for x
    using Suc.prems(1) by (simp add: clone_post_def grows_def)
  show ?case
  proof (cases "Suc l \<le> 4")
    case False
    then have "r = Err InvalidIntermediate" "s' = s" using run by auto
    then show ?thesis using stop by simp
  next
    case True
    obtain ra s1 where al: "ps_allocate_zeroed ops s = (ra, s1)" by fastforce
    show ?thesis
    proof (cases ra)
      case (Err x)
      then have "r = Err x" "s' = s" using run True al alloc_err [of s x s1] by auto
      then show ?thesis using stop by simp
    next
      case (Ok c)
      then have al': "ps_allocate_zeroed ops s = (Ok c, s1)" using al by simp
      note a = alloc_ok [OF Suc.prems(1) al'] and lim = alloc_limit [OF Suc.prems(1) al']
      obtain re s2 where en: "clone_entries ops rops src source (Suc l) c 0 s1 = (re, s2)" by fastforce
      have post: "entries_post rops src source l c 0 s1 re s2"
        using a by (intro clone_entries_spec [OF Suc.IH _ _ _ en]) auto
      have g: "grows s s2 {}" using post a by (auto simp: entries_post_def grows_def)
      show ?thesis
      proof (cases re)
        case (Err x)
        then have "r = Err x" "s' = s2" using run True al' en by auto
        then show ?thesis using g by (simp add: clone_post_def)
      next
        case ok: (Ok u)
        then have r: "r = Ok c" "s' = s2" using run True al' en by auto
        have "entry_cloned l (words s2) (tables s2 - tables s) rops src source c i" if "i < 512" for i
        proof -
          have sub: "tables s2 - tables s1 \<subseteq> tables s2 - tables s" using a by auto
          have "entry_cloned l (words s2) (tables s2 - tables s1) rops src source c i"
            using post ok that by (simp add: entries_post_def)
          from entry_cloned_mono [OF this sub] show ?thesis by simp
        qed
        moreover have "c \<in> tables s2 - tables s" using post a by (auto simp: entries_post_def grows_def)
        ultimately show ?thesis using r g a lim by (simp add: clone_post_def)
      qed
    qed
  qed
qed simp

end

section \<open>Walking a copy\<close>

fun walk_entry :: "'s page_table_store \<Rightarrow> 's \<Rightarrow> phys_addr \<Rightarrow> nat list \<Rightarrow> u64 option" where
  "walk_entry ops s t [] = None"
| "walk_entry ops s t (i # is) =
     (case ps_read ops s t i of
        Err _ \<Rightarrow> None
      | Ok e \<Rightarrow>
          if e AND 1 = 0 then None
          else if is = [] then Some e
          else walk_entry ops s (PhysAddr (e AND ADDRESS_MASK)) is)"

context bounded_table_store
begin

lemma cloned_walk:
  assumes "inv s" "N \<subseteq> tables s" "cloned (length is) (words s) N rops src source c" "\<forall>i \<in> set is. i < 512"
  shows "walk_entry ops s c is = walk_entry rops src source is \<and> \<not> user_walk ops s c is"
  using assms(3,4)
proof (induction "is" arbitrary: source c)
  case (Cons i "is")
  have c: "c \<in> tables s" and i: "i < 512" and e: "entry_cloned (length is) (words s) N rops src source c i"
    using Cons.prems assms(2) by auto
  note rd = read_ok [OF assms(1) c i]
  obtain x where x: "ps_read rops src source i = Ok x" using e by (auto simp: entry_cloned.simps split: result.splits)
  show ?case
  proof (cases "present x")
    case False
    then have "words s c i = 0" using e x by (simp add: entry_cloned.simps)
    then show ?thesis using rd x False by (simp add: and_1_eq_0_iff)
  next
    case True
    have u: "present (words s c i)" "\<not> bit (words s c i) 2"
      using e x True by (cases "length is = 0"; simp add: entry_cloned.simps)+
    show ?thesis
    proof (cases "is = []")
      case nil: True
      then have "words s c i = x" using e x True by (simp add: entry_cloned.simps)
      then show ?thesis using rd x u nil by (simp add: and_1_eq_0_iff word_and_bit del: push_bit_of_1)
    next
      case False
      then have cl: "cloned (length is) (words s) N rops src (entry_target x) (entry_target (words s c i))"
        using e x True by (simp add: entry_cloned.simps)
      have "walk_entry ops s (entry_target (words s c i)) is = walk_entry rops src (entry_target x) is"
        using Cons.IH [OF cl] Cons.prems(2) by simp
      then show ?thesis using rd x u True False by (simp add: and_1_eq_0_iff word_and_bit del: push_bit_of_1)
    qed
  qed
qed simp

text \<open>Sharing the supervisor half copies the entries of the range and no other.\<close>

lemma share_half_spec:
  assumes "inv s" "root \<in> tables s" "\<forall>i \<in> set ks. i < 512 \<and> words s root i = 0" "distinct ks"
    and "share_supervisor_half ops rops src source root ks s = (Ok (), s')"
  shows "inv s' \<and> tables s' = tables s \<and> (\<forall>i < 512. i \<notin> set ks \<longrightarrow> words s' root i = words s root i) \<and>
    (\<forall>i \<in> set ks. ps_read rops src source i = Ok (words s' root i) \<and> \<not> (present (words s' root i) \<and> bit (words s' root i) 2))"
  using assms
proof (induction ks arbitrary: s)
  case (Cons k ks)
  obtain e where e: "ps_read rops src source k = Ok e" using Cons.prems(5) by (auto split: result.splits)
  show ?case
  proof (cases "present e")
    case False
    then have z: "e = 0" and rest: "share_supervisor_half ops rops src source root ks s = (Ok (), s')"
      using Cons.prems(5) e by (auto simp: and_1_eq_0_iff split: if_splits)
    have "inv s' \<and> tables s' = tables s \<and> (\<forall>i < 512. i \<notin> set ks \<longrightarrow> words s' root i = words s root i) \<and>
      (\<forall>i \<in> set ks. ps_read rops src source i = Ok (words s' root i) \<and> \<not> (present (words s' root i) \<and> bit (words s' root i) 2))"
      using Cons.prems by (intro Cons.IH [OF _ _ _ _ rest]) auto
    then show ?thesis using Cons.prems(3,4) e z by auto
  next
    case True
    obtain w s1 where wr: "ps_write ops root k e s = (w, s1)" by fastforce
    have k: "k < 512" using Cons.prems(3) by simp
    note w = write_step [OF Cons.prems(1,2) k wr]
    have ok: "\<not> bit e 2" and rest: "share_supervisor_half ops rops src source root ks s1 = (Ok (), s')"
      using Cons.prems(5) e True wr w(1)
      by (auto simp: and_1_eq_0_iff word_and_bit simp del: push_bit_of_1 split: if_splits)
    have "inv s' \<and> tables s' = tables s1 \<and> (\<forall>i < 512. i \<notin> set ks \<longrightarrow> words s' root i = words s1 root i) \<and>
      (\<forall>i \<in> set ks. ps_read rops src source i = Ok (words s' root i) \<and> \<not> (present (words s' root i) \<and> bit (words s' root i) 2))"
    proof (rule Cons.IH [OF w(2) _ _ _ rest])
      show "\<forall>i \<in> set ks. i < 512 \<and> words s1 root i = 0"
      proof
        fix i
        assume i: "i \<in> set ks"
        then have "i \<noteq> k" "i < 512" "words s root i = 0" using Cons.prems(3,4) by auto
        then show "i < 512 \<and> words s1 root i = 0" using w(5) Cons.prems(2) by auto
      qed
    qed (use Cons.prems w in auto)
    then show ?thesis using Cons.prems(2,4) e w k ok by auto
  qed
qed simp

end

section \<open>Copies in an arena\<close>

lemma arena_alloc_limit:
  assumes "arena_inv s" "arena_allocate_zeroed s = (Ok f, s')"
  shows "phys_get f \<le> MAX_PHYSICAL_ADDRESS"
proof -
  have ne: "ar_allocated s \<noteq> ar_capacity s" using assms(2) by (auto simp: arena_allocate_zeroed_def split: if_splits)
  then have n: "ar_allocated s < ar_capacity s" using assms(1) by (simp add: arena_inv_def)
  obtain a where a: "checked_add (phys_get (ar_base s)) (of_nat (ar_allocated s) * PAGE_SIZE) = Some a"
    using assms(2) ne by (auto simp: arena_allocate_zeroed_def split: option.splits)
  have "f = arena_frame s (ar_allocated s)"
    using assms(2) ne a checked_add_SomeD(1) [OF a]
    by (auto simp: arena_allocate_zeroed_def arena_frame_def phys_new_def split: result.splits if_splits)
  then have "unat (phys_get f) = unat (phys_get (ar_base s)) + ar_allocated s * 4096"
    using unat_arena_frame [OF assms(1), of "ar_allocated s"] n by simp
  moreover have "unat (phys_get (ar_base s)) + ar_capacity s * 4096 < 2 ^ 52" using assms(1) by (simp add: arena_inv_def)
  ultimately have "unat (phys_get f) \<le> 2 ^ 52 - 4096" using n by simp
  then show ?thesis by (simp add: MAX_PHYSICAL_ADDRESS_def PAGE_SIZE_def word_le_nat_alt)
qed

interpretation copies: bounded_table_store arena_store arena_inv arena_tables arena_words
  by unfold_locales (auto simp: arena_store_def intro: arena_alloc_limit)

lemma arena_write_allocated: "ar_allocated (snd (arena_write t i e s)) = ar_allocated s"
  by (auto simp: arena_write_def split: result.splits)

section \<open>When a copy succeeds\<close>

text \<open>
  The tables a copy needs, counted on the source alone: one per table of the tree that the links of the
  source unroll to, where a table that is linked twice, or links to itself, counts once for every way to it;
  \<open>None\<close> where an entry on the way is not one the code accepts.
\<close>

fun total_size :: "nat option list \<Rightarrow> nat option" where
  "total_size [] = Some 0"
| "total_size (x # xs) = (case x of None \<Rightarrow> None | Some n \<Rightarrow> map_option ((+) n) (total_size xs))"

definition entry_size :: "'r page_table_store \<Rightarrow> 'r \<Rightarrow> phys_addr \<Rightarrow> nat \<Rightarrow> (phys_addr \<Rightarrow> nat option) \<Rightarrow> nat \<Rightarrow> nat option" where
  "entry_size rops src source l below i =
     (case ps_read rops src source i of
        Err _ \<Rightarrow> None
      | Ok e \<Rightarrow>
          if e = 0 then Some 0
          else if \<not> present e \<or> bit e 2 \<or> reserved_bits e \<or> e AND ADDRESS_MASK = 0 then None
          else if l = 0 then Some 0
          else if bit e 7 then None
          else below (entry_target e))"

primrec copy_size :: "nat \<Rightarrow> 'r page_table_store \<Rightarrow> 'r \<Rightarrow> phys_addr \<Rightarrow> nat option" where
  "copy_size 0 rops src source = None"
| "copy_size (Suc l) rops src source =
     map_option Suc (total_size (map (entry_size rops src source l (copy_size l rops src)) [0..<512]))"

declare copy_size.simps(2) [simp del]

text \<open>A step that succeeds exactly when its size is known and fits, and then takes that many frames.\<close>

definition copied :: "arena \<Rightarrow> nat option \<Rightarrow> ('a, build_error) result \<Rightarrow> arena \<Rightarrow> bool" where
  "copied s need r s' \<longleftrightarrow> ar_capacity s' = ar_capacity s \<and> arena_inv s' \<and> arena_tables s \<subseteq> arena_tables s' \<and>
     (is_ok r \<longleftrightarrow> (\<exists>n. need = Some n \<and> ar_allocated s + n \<le> ar_capacity s)) \<and>
     (\<forall>n. is_ok r \<longrightarrow> need = Some n \<longrightarrow> ar_allocated s' = ar_allocated s + n)"

lemma copied_then:
  assumes "copied s x r1 s1" and "is_ok r1" and "copied s1 (total_size ys) r s'"
  shows "copied s (total_size (x # ys)) r s'"
proof -
  obtain n where n: "x = Some n" "ar_allocated s + n \<le> ar_capacity s" "ar_allocated s1 = ar_allocated s + n"
    "ar_capacity s1 = ar_capacity s" "arena_tables s \<subseteq> arena_tables s1"
    using assms(1,2) by (auto simp: copied_def)
  show ?thesis using assms(3) n by (cases "total_size ys") (auto simp: copied_def add.assoc)
qed

lemma copied_fail:
  assumes "copied s x r1 s1" and "\<not> is_ok r1" and "\<not> is_ok r"
  shows "copied s (total_size (x # ys)) r s1"
  using assms by (cases x; cases "total_size ys") (auto simp: copied_def)

lemma copied_stay: "arena_inv s \<Longrightarrow> copied s None (Err e) s" "arena_inv s \<Longrightarrow> copied s (Some 0) (Ok a) s"
  by (auto simp: copied_def arena_inv_def)

lemma copied_write:
  assumes "copied s x r1 s1" and "is_ok r1" and "c \<in> arena_tables s1" and "index < 512"
    and "ps_write arena_store c index e s1 = (w, s2)"
  shows "w = Ok ()" and "copied s x w s2"
proof -
  have inv: "arena_inv s1" using assms(1) by (simp add: copied_def)
  note w = copies.write_step [OF inv assms(3-5)]
  have "ar_allocated s2 = ar_allocated s1" using assms(5) arena_write_allocated [of c index e s1] by (simp add: arena_store_def)
  moreover have "ar_capacity s2 = ar_capacity s1" using assms(5)
    by (auto simp: arena_store_def arena_write_def split: result.splits if_splits)
  ultimately show "w = Ok ()" "copied s x w s2" using w assms(1,2) by (auto simp: copied_def)
qed

lemma arena_alloc_iff:
  assumes "arena_inv s" and "arena_allocate_zeroed s = (r, s')"
  shows "copied s (Some 1) r s'"
proof (cases "ar_allocated s = ar_capacity s")
  case True
  then show ?thesis using assms by (auto simp: arena_allocate_zeroed_def copied_def)
next
  case False
  then have n: "ar_allocated s < ar_capacity s" using assms(1) by (simp add: arena_inv_def)
  have lim: "unat (phys_get (ar_base s)) + ar_capacity s * 4096 < 2 ^ 52" "ar_capacity s \<le> 256" using assms(1) by (simp_all add: arena_inv_def)
  have "unat (of_nat (ar_allocated s) * PAGE_SIZE :: u64) = ar_allocated s * 4096"
    using n lim le_unat_uoi [of "ar_allocated s" "256 :: u64"] by (simp add: unat_word_ariths PAGE_SIZE_def)
  then obtain a where a: "checked_add (phys_get (ar_base s)) (of_nat (ar_allocated s) * PAGE_SIZE) = Some a"
    using n lim checked_add_None_iff [of "phys_get (ar_base s)" "of_nat (ar_allocated s) * PAGE_SIZE"]
    by (cases "checked_add (phys_get (ar_base s)) (of_nat (ar_allocated s) * PAGE_SIZE)") auto
  have "PhysAddr a = arena_frame s (ar_allocated s)" using checked_add_SomeD(1) [OF a] by (simp add: arena_frame_def)
  then have "frame_aligned (PhysAddr a)" using arena_frame_aligned [OF assms(1), of "ar_allocated s"] n by simp
  then obtain f where "phys_new a = Ok f" by (auto simp: frame_aligned_def phys_new_def)
  then have r: "r = Ok f" "ar_allocated s' = Suc (ar_allocated s)" "ar_capacity s' = ar_capacity s"
    using assms(2) False a by (auto simp: arena_allocate_zeroed_def)
  then show ?thesis using arena_alloc_ok [OF assms(1) assms(2) [unfolded r(1)]] n by (auto simp: copied_def)
qed

lemma clone_entries_copied:
  assumes ih: "\<And>source s r s'. arena_inv s \<Longrightarrow> l \<noteq> 0 \<Longrightarrow> clone_supervisor_table arena_store rops src source l s = (r, s') \<Longrightarrow>
      copied s (copy_size l rops src source) r s'"
    and s: "arena_inv s" "c \<in> arena_tables s"
    and run: "clone_entries arena_store rops src source (Suc l) c index s = (r, s')"
  shows "copied s (total_size (map (entry_size rops src source l (copy_size l rops src)) [index..<512])) r s'"
  using s run
proof (induction "512 - index" arbitrary: index s)
  case 0
  then have "r = Ok ()" "s' = s" "[index..<512] = []" by (simp_all add: clone_entries.simps)
  then show ?case using copied_stay(2) [OF "0.prems"(1), of "()"] by simp
next
  case (Suc n)
  let ?size = "entry_size rops src source l (copy_size l rops src)"
  have idx: "index < 512" and n: "n = 512 - (index + 1)" using Suc.hyps(2) by auto
  have up: "map ?size [index..<512] = ?size index # map ?size [Suc index..<512]" using idx by (simp add: upt_conv_Cons)
  note run = Suc.prems(3) [unfolded clone_entries.simps [of _ _ _ _ _ _ index]]
  have next': "copied s (total_size (map ?size [index..<512])) r s'"
    if "copied s (?size index) r1 s1" "is_ok r1" "clone_entries arena_store rops src source (Suc l) c (Suc index) s1 = (r, s')"
    for r1 :: "(unit, build_error) result" and s1
    unfolding up using that Suc.hyps(1) [OF n, of s1] Suc.prems(2) by (intro copied_then [OF that(1,2)]) (auto simp: copied_def)
  have stop: "copied s (total_size (map ?size [index..<512])) r s'" if "?size index = None" "\<not> is_ok r" "s' = s"
    unfolding up using that copied_stay(1) [OF Suc.prems(1)] by (simp add: copied_def)
  note bits = and_1_eq_0_iff word_and_bit
  show ?case
  proof (cases "ps_read rops src source index")
    case (Err x)
    then show ?thesis using run idx by (intro stop) (auto simp: entry_size_def)
  next
    case (Ok e)
    consider (zero) "e = 0" | (bad) "e \<noteq> 0" "\<not> present e \<or> bit e 2 \<or> reserved_bits e \<or> e AND ADDRESS_MASK = 0 \<or> (l \<noteq> 0 \<and> bit e 7)"
      | (good) "present e" "\<not> bit e 2" "\<not> reserved_bits e" "e AND ADDRESS_MASK \<noteq> 0" "l \<noteq> 0 \<longrightarrow> \<not> bit e 7" by blast
    then show ?thesis
    proof cases
      case zero
      then have "clone_entries arena_store rops src source (Suc l) c (Suc index) s = (r, s')" "?size index = Some 0"
        using run idx Ok by (simp_all add: entry_size_def)
      then show ?thesis using next' [of "Ok ()" s] copied_stay(2) [OF Suc.prems(1), of "()"] by simp
    next
      case bad
      then have "\<not> is_ok r \<and> s' = s"
        using run idx Ok by (auto simp: bits simp del: push_bit_of_1 split: if_splits)
      then show ?thesis using bad Ok by (intro stop) (auto simp: entry_size_def)
    next
      case good
      then have ne: "e \<noteq> 0" by auto
      show ?thesis
      proof (cases "l = 0")
        case True
        obtain w s2 where wr: "ps_write arena_store c index e s = (w, s2)" by fastforce
        have size: "?size index = Some 0" using Ok good ne True by (simp add: entry_size_def)
        note w = copied_write [OF copied_stay(2) [OF Suc.prems(1), of "()"] _ Suc.prems(2) idx wr]
        have "clone_entries arena_store rops src source (Suc l) c (Suc index) s2 = (r, s')"
          using run idx Ok good True wr w(1) by (simp add: bits del: push_bit_of_1)
        then show ?thesis using next' [of w s2] w size by simp
      next
        case l: False
        obtain rc s1 where cl: "clone_supervisor_table arena_store rops src (entry_target e) l s = (rc, s1)" by fastforce
        have size: "?size index = copy_size l rops src (entry_target e)" using Ok good ne l by (simp add: entry_size_def)
        note post = ih [OF Suc.prems(1) l cl]
        show ?thesis
        proof (cases rc)
          case (Err x)
          then have "r = Err x" "s' = s1" using run idx Ok good l cl by (auto simp: bits simp del: push_bit_of_1)
          then show ?thesis unfolding up size
            using copied_fail [OF post, of "Err x :: (unit, build_error) result" "map ?size [Suc index..<512]"] Err by simp
        next
          case rc: (Ok d)
          let ?x = "(e AND NOT ADDRESS_MASK) OR phys_get d"
          have c1: "c \<in> arena_tables s1" using post Suc.prems(2) by (auto simp: copied_def)
          obtain w s2 where wr: "ps_write arena_store c index ?x s1 = (w, s2)" by fastforce
          note w = copied_write [OF post _ c1 idx wr, unfolded rc]
          have "clone_entries arena_store rops src source (Suc l) c (Suc index) s2 = (r, s')"
            using run idx Ok good l cl rc wr w(1) by (simp add: bits del: push_bit_of_1)
          then show ?thesis using next' [of w s2] w size by simp
        qed
      qed
    qed
  qed
qed

lemma clone_copied:
  assumes "arena_inv s" and "level \<noteq> 0" and "level \<le> 4"
    and "clone_supervisor_table arena_store rops src source level s = (r, s')"
  shows "copied s (copy_size level rops src source) r s'"
  using assms
proof (induction level arbitrary: source s r s')
  case (Suc l)
  let ?sizes = "map (entry_size rops src source l (copy_size l rops src)) [0..<512]"
  note run = Suc.prems(4) [unfolded clone_supervisor_table.simps]
  obtain ra s1 where al: "arena_allocate_zeroed s = (ra, s1)" by fastforce
  note a = arena_alloc_iff [OF Suc.prems(1) al]
  have size: "copy_size (Suc l) rops src source = total_size (Some 1 # ?sizes)"
    unfolding copy_size.simps total_size.simps by (cases "total_size ?sizes") simp_all
  show ?case
  proof (cases ra)
    case (Err x)
    then have "r = Err x" "s' = s1" using run Suc.prems(3) al by (auto simp: arena_store_def)
    then show ?thesis unfolding size using copied_fail [OF a, of "Err x :: (phys_addr, build_error) result" ?sizes] Err by simp
  next
    case (Ok c)
    have inv1: "arena_inv s1" and c1: "c \<in> arena_tables s1" using arena_alloc_ok [OF Suc.prems(1) al [unfolded Ok]] by auto
    obtain re s2 where en: "clone_entries arena_store rops src source (Suc l) c 0 s1 = (re, s2)" by fastforce
    have "copied s1 (total_size ?sizes) re s2"
      using Suc.prems(3) by (intro clone_entries_copied [OF _ inv1 c1 en] Suc.IH) auto
    then have "copied s (copy_size (Suc l) rops src source) re s2" unfolding size using copied_then [OF a] Ok by simp
    moreover have "is_ok r = is_ok re" "s' = s2"
      using run Suc.prems(3) al Ok en by (auto simp: arena_store_def split: result.splits)
    ultimately show ?thesis unfolding copied_def by metis
  qed
qed simp

section \<open>The identity-mapped store provides the interface\<close>

definition identity_words :: "phys_memory \<Rightarrow> table_words" where
  "identity_words m t i = m (entry_address (phys_get t) i)"

lemma identity_address:
  assumes "frame_aligned t" "i < 512"
  shows "unat (entry_address (phys_get t) i) = unat (phys_get t) + 8 * i"
proof -
  have u: "unat (8 * of_nat i :: u64) = 8 * i"
    using assms(2) le_unat_uoi [of i "512 :: u64"] by (simp add: unat_word_ariths)
  have "unat (phys_get t) < 2 ^ 64" using unsigned_less [of "phys_get t"] by simp
  moreover obtain k where k: "unat (phys_get t) = 4096 * k" using assms(1) by (auto simp: frame_aligned_nat)
  ultimately have "unat (phys_get t) + 8 * i < 2 ^ 64" using assms(2) by simp
  then show ?thesis using u by (simp add: entry_address_def unat_word_ariths)
qed

lemma identity_address_inj:
  assumes "frame_aligned t" "frame_aligned u" "i < 512" "j < 512"
    and "entry_address (phys_get t) i = entry_address (phys_get u) j"
  shows "t = u \<and> i = j"
proof -
  obtain k l where k: "unat (phys_get t) = 4096 * k" "unat (phys_get u) = 4096 * l"
    using assms(1,2) by (auto simp: frame_aligned_nat elim!: dvdE)
  have "4096 * k + 8 * i = unat (entry_address (phys_get t) i)" by (simp add: identity_address [OF assms(1,3)] k)
  also have "\<dots> = 4096 * l + 8 * j" unfolding assms(5) by (simp add: identity_address [OF assms(2,4)] k)
  finally have e: "4096 * k + 8 * i = 4096 * l + 8 * j" .
  have "\<not> k < l" "\<not> l < k" using e assms(3,4) by linarith+
  then have "k = l" "i = j" using e by auto
  then have "phys_get t = phys_get u" using k by (simp add: word_eq_iff_unsigned [where ?'a = nat])
  then show ?thesis using \<open>i = j\<close> by (simp add: phys_addr.expand)
qed

interpretation identity: table_store identity_store "\<lambda>_. True" "\<lambda>_. {t. frame_aligned t}" identity_words
proof unfold_locales
  fix s s' :: phys_memory and f t i e x
  show "True \<Longrightarrow> ps_allocate_zeroed identity_store s = (Ok f, s') \<Longrightarrow>
      True \<and> f \<notin> {t. frame_aligned t} \<and> {t. frame_aligned t} = insert f {t. frame_aligned t} \<and> frame_aligned f \<and>
      (\<forall>i < 512. identity_words s' f i = 0) \<and>
      (\<forall>t \<in> {t. frame_aligned t}. \<forall>i < 512. identity_words s' t i = identity_words s t i)"
    by (simp add: identity_store_def)
  show "ps_allocate_zeroed identity_store s = (Err x, s') \<Longrightarrow> s' = s" by (simp add: identity_store_def)
  show "True \<Longrightarrow> t \<in> {t. frame_aligned t} \<Longrightarrow> i < 512 \<Longrightarrow> ps_read identity_store s t i = Ok (identity_words s t i)"
    by (simp add: identity_store_def identity_words_def)
  show "True \<Longrightarrow> t \<in> {t. frame_aligned t} \<Longrightarrow> i < 512 \<Longrightarrow>
      \<exists>s'. ps_write identity_store t i e s = (Ok (), s') \<and> True \<and> {t. frame_aligned t} = {t. frame_aligned t} \<and>
        (\<forall>u \<in> {t. frame_aligned t}. \<forall>j < 512. identity_words s' u j = (if u = t \<and> j = i then e else identity_words s u j))"
    using identity_address_inj by (auto simp: identity_store_def identity_words_def)
qed

text \<open>A hierarchy of the arena is a hierarchy of the memory it lies in.\<close>

lemma arena_tree_identity:
  assumes "arena.tree z s root path"
  shows "identity.tree z (ar_memory s) root (\<lambda>t. if t \<in> arena_tables s then path t else [0, 0, 0])"
proof -
  let ?path = "\<lambda>t. if t \<in> arena_tables s then path t else [0, 0, 0]"
  have inv: "arena_inv s" and tt: "table_tree z (arena_tables s) (arena_words s) root path"
    using assms by (simp_all add: arena.tree_def)
  have al: "frame_aligned t" if "t \<in> arena_tables s" for t
    using that arena_frame_aligned [OF inv] inv by (auto simp: arena_tables_def arena_inv_def)
  have w: "identity_words (ar_memory s) = arena_words s" by (simp add: fun_eq_iff identity_words_def arena_words_def)
  have low: "t \<in> arena_tables s \<and> length (path t) < 3" if "length (?path t) < 3" for t
    using that by (auto split: if_splits)
  have "table_tree z {t. frame_aligned t} (arena_words s) root ?path"
  proof (rule table_treeI)
    show "root \<in> {t. frame_aligned t}" "?path root = []" using table_tree_root [OF tt] al by auto
    fix t i
    assume g: "t \<in> {t. frame_aligned t}" "i < 512" "length (?path t) < 3" "present (arena_words s t i)"
    have l: "t \<in> arena_tables s" "length (path t) < 3" using low [OF g(3)] by auto
    note d = table_treeD [OF tt l(1) g(2) l(2) g(4)]
    show "link_ok (arena_words s t i) \<and> entry_target (arena_words s t i) \<in> {t. frame_aligned t} \<and>
        ?path (entry_target (arena_words s t i)) = ?path t @ [i]"
      using d(1-3) l al by simp
    show "bit (arena_words s t i) 2" if "j < 512" "present (arena_words s (entry_target (arena_words s t i)) j)"
      "bit (arena_words s (entry_target (arena_words s t i)) j) 2" "z \<or> length (?path t) < 2" for j
      using d(4) [OF that(1-3)] that(4) l by simp
  next
    fix t i t' i'
    assume g: "i < 512" "i' < 512" "length (?path t) < 3" "length (?path t') < 3"
      "present (arena_words s t i)" "present (arena_words s t' i')"
      "entry_target (arena_words s t i) = entry_target (arena_words s t' i')"
    show "t = t' \<and> i = i'"
      using low [OF g(3)] low [OF g(4)] table_tree_link_unique [OF tt _ g(1) _ g(2)] g(5-7) by blast
  qed
  then show ?thesis by (simp add: identity.tree_def w)
qed

section \<open>Reading back and invalidating\<close>

lemma leaf_allowed_bits: "bit LEAF_ALLOWED i \<longleftrightarrow> i < 3 \<or> i = 5 \<or> i = 6 \<or> (12 \<le> i \<and> i < 52) \<or> i = 63"
proof -
  have m: "(0b111 :: u64) = mask 3" by (simp add: mask_eq_exp_minus_1)
  show ?thesis
    unfolding LEAF_ALLOWED_def m bit_or_iff bit_mask_iff address_mask_bits accessed_dirty_bits
    by (auto simp: bit_flag1 simp del: push_bit_of_1)
qed

lemma updated_leaf_decodes:
  fixes cur :: u64
  assumes "entry_leaf f p = Ok l" "frame_aligned f"
  defines "e \<equiv> entry_bits l OR (cur AND LEAF_ACCESSED_DIRTY)"
  shows "e AND NOT LEAF_ALLOWED = 0" "entry_target e = f" "bit e 1 = perm_writable p"
    "bit e 63 = (\<not> perm_executable p)" "bit e 2 = perm_user p"
proof -
  have lim: "phys_get f \<le> MAX_PHYSICAL_ADDRESS" using assms(1) by (auto simp: entry_leaf_def split: if_splits)
  note fb = frame_bits [OF lim assms(2) [unfolded frame_aligned_def]]
  have b: "bit e i \<longleftrightarrow> bit (phys_get f) i \<or> i = 0 \<or> i = 1 \<and> perm_writable p \<or> i = 2 \<and> perm_user p \<or>
      i = 63 \<and> \<not> perm_executable p \<or> bit cur i \<and> (i = 5 \<or> i = 6)" for i
    unfolding e_def bit_or_iff bit_and_iff accessed_dirty_bits bit_leaf [OF assms(1)] by blast
  show "e AND NOT LEAF_ALLOWED = 0"
    by (rule bit_word_eqI, unfold bit_and_iff bit_not_iff leaf_allowed_bits b) (use fb in auto)
  have "e AND ADDRESS_MASK = phys_get f"
    by (rule bit_word_eqI, unfold bit_and_iff address_mask_bits b) (use fb in auto)
  then show "entry_target e = f" by simp
  show "bit e 1 = perm_writable p" "bit e 63 = (\<not> perm_executable p)" "bit e 2 = perm_user p"
    using fb [of 1] fb [of 63] fb [of 2] by (auto simp: b)
qed

lemma active_leaf_of_view:
  assumes "identity.tree z memory root path" and "pt_view identity_store \<lparr>tb_store = memory, tb_root = root\<rparr> v = Some e"
    and "e = entry_bits l OR (cur AND LEAF_ACCESSED_DIRTY)" "entry_leaf f p = Ok l" "frame_aligned f"
  shows "active_leaf_at memory root v = Ok (Some \<lparr>al_physical = f, al_writable = perm_writable p,
     al_executable = perm_executable p, al_user = perm_user p\<rparr>)"
proof -
  note d = updated_leaf_decodes [OF assms(4,5), where cur = cur, folded assms(3)]
  obtain t where t: "leaf_location identity_store memory root v = Ok (t, table_index v)"
    using assms(2) by (auto simp: pt_view_def identity.leaf_location_eq [OF assms(1)] split: result.splits option.splits)
  then have rd: "ps_read identity_store memory t (table_index v) = Ok e" and pr: "e AND 1 \<noteq> 0"
    using assms(2) by (auto simp: pt_view_def split: result.splits if_splits)
  show ?thesis
    unfolding active_leaf_at_def word_and_bit using t rd pr d by simp
qed

lemma invalidate_pages_spec:
  assumes "\<forall>k \<in> set ks. \<exists>v p. mapping_page m k = Ok (v, p)"
  shows "\<exists>new. invalidate_pages m ks tlb = (Ok (), tlb @ new) \<and>
    (\<forall>k \<in> set ks. \<forall>v p. mapping_page m k = Ok (v, p) \<longrightarrow> virt_get v \<in> set new)"
  using assms
proof (induction ks arbitrary: tlb)
  case (Cons k ks)
  obtain v p where vp: "mapping_page m k = Ok (v, p)" using Cons.prems by auto
  obtain off a where o: "checked_mul k PAGE_SIZE = Some off" "checked_add (virt_get (virtual_start m)) off = Some a"
    "virt_get v = a"
    using vp by (auto simp: mapping_page_def virt_new_iff split: option.splits result.splits)
  obtain new where new: "invalidate_pages m ks (tlb @ [a]) = (Ok (), (tlb @ [a]) @ new)"
    "\<forall>k \<in> set ks. \<forall>v p. mapping_page m k = Ok (v, p) \<longrightarrow> virt_get v \<in> set new"
    using Cons.IH [of "tlb @ [a]"] Cons.prems by auto
  show ?case using new o vp by (intro exI [of _ "a # new"]) auto
qed simp

lemma active_protect_spec:
  fixes memory :: phys_memory
  assumes tr: "identity.tree z memory root path" and no_raise: "z \<longrightarrow> perm_user final \<longrightarrow> perm_user (mpermissions m)"
    and run: "active_protect m final root memory tlb = (r, memory', tlb')"
  defines "view \<equiv> \<lambda>mem. pt_view identity_store \<lparr>tb_store = mem, tb_root = root\<rparr>"
  shows "(\<not> is_ok r \<and> memory' = memory \<and> tlb' = tlb) \<or> (is_ok r \<and>
    (\<forall>v. valid_page v \<longrightarrow> view memory' v \<noteq> view memory v \<longrightarrow> virt_get v \<in> set (drop (length tlb) tlb')) \<and>
    (\<forall>k \<in> set (mapping_range m). \<exists>v p. mapping_page m k = Ok (v, p) \<and>
       active_leaf_at memory' root v = Ok (Some \<lparr>al_physical = p, al_writable = perm_writable final,
         al_executable = perm_executable final, al_user = perm_user final\<rparr>)))"
proof -
  let ?b = "\<lparr>tb_store = memory, tb_root = root\<rparr>"
  have trb: "identity.tree z (tb_store ?b) (tb_root ?b) path" using tr by simp
  obtain rp b1 where p: "table_protect identity_store m final ?b = (rp, b1)" by fastforce
  note P = identity.table_protect_spec [OF trb no_raise p, unfolded page_table_builder.select_convs]
  show ?thesis
  proof (cases rp)
    case (Err e)
    then have "b1 = ?b" using P by simp
    then have "r = Err e \<and> memory' = memory \<and> tlb' = tlb" using run p Err by (simp add: active_protect_def)
    then show ?thesis by simp
  next
    case (Ok u)
    have chk: "protect_check identity_store memory root m final (mapping_range m) = Ok ()"
      using p Ok by (auto simp: table_protect_def split: result.splits)
    have pages: "\<exists>v p l. mapping_page m k = Ok (v, p) \<and> entry_leaf p final = Ok l"
      if k: "k \<in> set (mapping_range m)" for k
    proof -
      obtain v p cur e l where "mapping_page m k = Ok (v, p)" "identity.page_at memory root v = Some cur"
        "entry_leaf p (mpermissions m) = Ok e" "cur AND NOT LEAF_ACCESSED_DIRTY = entry_bits e" "entry_leaf p final = Ok l"
        by (rule identity.protect_check_okD [OF tr chk k])
      then show ?thesis by blast
    qed
    then have ex: "\<forall>k \<in> set (mapping_range m). \<exists>v p. mapping_page m k = Ok (v, p)" by blast
    obtain new where new: "invalidate_mapping m tlb = (Ok (), tlb @ new)"
      "\<forall>k \<in> set (mapping_range m). \<forall>v p. mapping_page m k = Ok (v, p) \<longrightarrow> virt_get v \<in> set new"
      using invalidate_pages_spec [OF ex, of tlb] by (auto simp: invalidate_mapping_def)
    have r: "r = Ok ()" "memory' = tb_store b1" "tlb' = tlb @ new" using run p Ok new by (simp_all add: active_protect_def)
    have b1: "b1 = \<lparr>tb_store = memory', tb_root = root\<rparr>" using P r(2) by (cases b1) simp
    have tr1: "identity.tree z memory' root path" using P r(2) by simp
    have v0: "view memory v = identity.page_at memory root v" and v1: "view memory' v = identity.page_at memory' root v" for v
      using identity.pt_view_at [of z ?b path v] identity.pt_view_at [of z b1 path v] tr tr1 b1 by (simp_all add: view_def)
    let ?f = "\<lambda>v. find (\<lambda>k. \<exists>p. mapping_page m k = Ok (v, p)) (mapping_range m)"
    have at: "view memory' v = (case ?f v of
        Some k \<Rightarrow> (case mapping_page m k of Ok (_, p) \<Rightarrow> identity.protected (the (view memory v)) p final | Err _ \<Rightarrow> None)
      | None \<Rightarrow> view memory v)" if "valid_page v" for v
      using P Ok that r(2) unfolding v0 v1 by simp
    have inv: "virt_get v \<in> set (drop (length tlb) tlb')" if v: "valid_page v" and ch: "view memory' v \<noteq> view memory v" for v
    proof -
      have "?f v \<noteq> None" using at [OF v] ch by (auto split: option.splits)
      then obtain k where "?f v = Some k" by blast
      then obtain p where "k \<in> set (mapping_range m)" "mapping_page m k = Ok (v, p)"
        by (auto simp: find_Some_iff in_set_conv_nth)
      then show ?thesis using new(2) r(3) by auto
    qed
    have leaf: "\<exists>v p. mapping_page m k = Ok (v, p) \<and>
       active_leaf_at memory' root v = Ok (Some \<lparr>al_physical = p, al_writable = perm_writable final,
         al_executable = perm_executable final, al_user = perm_user final\<rparr>)" if k: "k \<in> set (mapping_range m)" for k
    proof -
      obtain v p l where kp: "mapping_page m k = Ok (v, p)" "entry_leaf p final = Ok l" using pages [OF k] by blast
      have "?f v \<noteq> None" using k kp(1) by (auto simp: find_None_iff)
      then obtain k' where k': "?f v = Some k'" by blast
      then obtain p' where "mapping_page m k' = Ok (v, p')" by (auto simp: find_Some_iff)
      then have "mapping_page m k' = Ok (v, p)" using mapping_page_inj [OF kp(1), of k' p'] by simp
      then have "view memory' v = Some (entry_bits l OR (the (view memory v) AND LEAF_ACCESSED_DIRTY))"
        using at [OF mapping_pageD(1) [OF kp(1)]] k' kp(2) by (simp add: identity.protected_def leaf_bits_def)
      from active_leaf_of_view [OF tr1 this [unfolded view_def] refl kp(2) mapping_pageD(2) [OF kp(1)]]
      show ?thesis using kp(1) by blast
    qed
    show ?thesis using r(1) inv leaf by simp
  qed
qed

lemma active_unmap_spec:
  fixes memory :: phys_memory
  assumes tr: "identity.tree z memory root path" and run: "active_unmap_exact m root memory tlb = (r, memory', tlb')"
  defines "view \<equiv> \<lambda>mem. pt_view identity_store \<lparr>tb_store = mem, tb_root = root\<rparr>"
  shows "(\<not> is_ok r \<and> memory' = memory \<and> tlb' = tlb) \<or> (is_ok r \<and>
    (\<forall>v. valid_page v \<longrightarrow> view memory' v \<noteq> view memory v \<longrightarrow> virt_get v \<in> set (drop (length tlb) tlb')))"
proof -
  let ?b = "\<lparr>tb_store = memory, tb_root = root\<rparr>"
  have trb: "identity.tree z (tb_store ?b) (tb_root ?b) path" using tr by simp
  obtain rp b1 where p: "table_unmap_exact identity_store m ?b = (rp, b1)" by fastforce
  note P = identity.table_unmap_spec [OF trb p, unfolded page_table_builder.select_convs]
  show ?thesis
  proof (cases rp)
    case (Err e)
    then have "b1 = ?b" using P by simp
    then have "r = Err e \<and> memory' = memory \<and> tlb' = tlb" using run p Err by (simp add: active_unmap_exact_def)
    then show ?thesis by simp
  next
    case (Ok u)
    have chk: "unmap_check identity_store memory root m (mapping_range m) = Ok ()"
      using p Ok by (auto simp: table_unmap_exact_def split: result.splits)
    have ex: "\<forall>k \<in> set (mapping_range m). \<exists>v p. mapping_page m k = Ok (v, p)"
    proof
      fix k
      assume k: "k \<in> set (mapping_range m)"
      obtain v p cur where "mapping_page m k = Ok (v, p)" "identity.page_at memory root v = Some cur"
        by (rule identity.unmap_check_okD [OF tr chk k])
      then show "\<exists>v p. mapping_page m k = Ok (v, p)" by blast
    qed
    obtain new where new: "invalidate_mapping m tlb = (Ok (), tlb @ new)"
      "\<forall>k \<in> set (mapping_range m). \<forall>v p. mapping_page m k = Ok (v, p) \<longrightarrow> virt_get v \<in> set new"
      using invalidate_pages_spec [OF ex, of tlb] by (auto simp: invalidate_mapping_def)
    have r: "r = Ok ()" "memory' = tb_store b1" "tlb' = tlb @ new"
      using run p Ok new by (simp_all add: active_unmap_exact_def)
    have b1: "b1 = \<lparr>tb_store = memory', tb_root = root\<rparr>" using P r(2) by (cases b1) simp
    have tr1: "identity.tree z memory' root path" using P r(2) by simp
    have v0: "view memory v = identity.page_at memory root v" and v1: "view memory' v = identity.page_at memory' root v" for v
      using identity.pt_view_at [of z ?b path v] identity.pt_view_at [of z b1 path v] tr tr1 b1 by (simp_all add: view_def)
    have "virt_get v \<in> set (drop (length tlb) tlb')" if "valid_page v" "view memory' v \<noteq> view memory v" for v
    proof -
      have "identity.page_at memory' root v =
          (if \<exists>p. identity.mapped_by m (mapping_range m) v p then None else identity.page_at memory root v)"
        using P Ok that(1) r(2) by simp
      then have "\<exists>p. identity.mapped_by m (mapping_range m) v p" using that(2) unfolding v0 v1 by (auto split: if_splits)
      then show ?thesis using new(2) r(3) by (auto simp: identity.mapped_by_def)
    qed
    then show ?thesis using r(1) by simp
  qed
qed

section \<open>Properties of copies and of the active tables\<close>

text \<open>
  Property C23.  When a supervisor hierarchy can be copied.  The copy from a level succeeds exactly when
  every entry that the walk over that many levels meets is absent and zero or a supervisor entry of the
  accepted form, and the arena still has one frame for every table of the tree the walk unrolls;
  it then takes exactly that many frames.  Cyclic and shared source tables are no exception: they are
  unrolled to the depth of the level.
\<close>

theorem clone_succeeds_exactly:
  assumes "arena_inv dst" and "1 \<le> level" and "level \<le> 4"
    and "clone_supervisor_table arena_store rops src source level dst = (r, dst')"
  shows "case copy_size level rops src source of
      None \<Rightarrow> (\<exists>e. r = Err e)
    | Some n \<Rightarrow> if ar_allocated dst + n \<le> ar_capacity dst
        then (\<exists>c. r = Ok c) \<and> ar_allocated dst' = ar_allocated dst + n
        else (\<exists>e. r = Err e)"
proof -
  have "copied dst (copy_size level rops src source) r dst'" using clone_copied [OF assms(1) _ assms(3,4)] assms(2) by simp
  then show ?thesis by (cases r; cases "copy_size level rops src source") (auto simp: copied_def)
qed

text \<open>
  Property C24.  A successful copy of a supervisor hierarchy translates every address as the source
  does: the walk through the copy finds the entry the walk through the source finds, and none
  where that finds none.  No address of the copy is reachable in user mode, and the tables that
  the arena held before keep their contents.
\<close>

theorem clone_translates_equally:
  assumes "arena_inv dst" and "level \<noteq> 0"
    and "clone_supervisor_table arena_store rops src source level dst = (Ok c, dst')"
  shows "(\<forall>is. length is = level \<longrightarrow> (\<forall>i \<in> set is. i < 512) \<longrightarrow>
      walk_entry arena_store dst' c is = walk_entry rops src source is \<and> \<not> user_walk arena_store dst' c is) \<and>
    c \<notin> arena_tables dst \<and> (\<forall>t \<in> arena_tables dst. \<forall>i < 512. arena_read dst' t i = arena_read dst t i)"
proof -
  have post: "copies.clone_post rops src source level dst (Ok c) dst'" by (rule copies.clone_spec [OF assms])
  then have g: "arena_inv dst'" "arena_tables dst \<subseteq> arena_tables dst'"
    "\<forall>t \<in> arena_tables dst. \<forall>i < 512. arena_words dst' t i = arena_words dst t i"
    and cl: "cloned level (arena_words dst') (arena_tables dst' - arena_tables dst) rops src source c"
    by (auto simp: copies.clone_post_def copies.grows_def)
  have "walk_entry arena_store dst' c is = walk_entry rops src source is \<and> \<not> user_walk arena_store dst' c is"
    if "length is = level" "\<forall>i \<in> set is. i < 512" for "is"
    using that cl by (intro copies.cloned_walk [OF g(1), of "arena_tables dst' - arena_tables dst"]) auto
  moreover have "c \<notin> arena_tables dst" using cl assms(2) by (cases level) auto
  moreover have "arena_read dst' t i = arena_read dst t i" if "t \<in> arena_tables dst" "i < 512" for t i
    using arena.read_ok [OF g(1), of t i] arena.read_ok [OF assms(1), of t i] g that by (auto simp: arena_store_def)
  ultimately show ?thesis by blast
qed

text \<open>
  A root that shares the supervisor half has exactly the source's entries in the
  upper half, none of them a user entry, and an empty lower half.
\<close>

theorem supervisor_half_shared:
  assumes "arena_inv dst" and "new_with_supervisor_half_from arena_store rops src source dst = Ok b"
  shows "(\<forall>i < 256. arena_read (tb_store b) (tb_root b) i = Ok 0) \<and>
    (\<forall>i. 256 \<le> i \<longrightarrow> i < 512 \<longrightarrow> arena_read (tb_store b) (tb_root b) i = ps_read rops src source i \<and>
       \<not> user_walk arena_store (tb_store b) (tb_root b) [i])"
proof -
  define ks where "ks = [256..<512 :: nat]"
  have ks: "set ks = {256..<512}" "distinct ks" unfolding ks_def by (rule set_upt, rule distinct_upt)
  note new = assms(2) [unfolded new_with_supervisor_half_from_def, folded ks_def]
  obtain root s1 where al: "ps_allocate_zeroed arena_store dst = (Ok root, s1)"
    using new by (auto split: prod.splits result.splits)
  obtain s2 where sh: "share_supervisor_half arena_store rops src source root ks s1 = (Ok (), s2)"
    and b: "b = \<lparr>tb_store = s2, tb_root = root\<rparr>"
    using new al by (auto split: prod.splits result.splits)
  note a = arena.alloc_ok [OF assms(1) al]
  have h: "arena_inv s2 \<and> arena_tables s2 = arena_tables s1 \<and>
    (\<forall>i < 512. i \<notin> set ks \<longrightarrow> arena_words s2 root i = arena_words s1 root i) \<and>
    (\<forall>i \<in> set ks. ps_read rops src source i = Ok (arena_words s2 root i) \<and>
       \<not> (present (arena_words s2 root i) \<and> bit (arena_words s2 root i) 2))"
    using a ks by (intro copies.share_half_spec [OF _ _ _ _ sh]) auto
  have rd: "ps_read arena_store s2 root i = Ok (arena_words s2 root i)" if "i < 512" for i
    using h a that by (intro arena.read_ok) auto
  have "arena_read s2 root i = Ok 0" if "i < 256" for i
    using rd [of i] h a that ks by (simp add: arena_store_def)
  moreover have "arena_read s2 root i = ps_read rops src source i \<and> \<not> user_walk arena_store s2 root [i]"
    if "256 \<le> i" "i < 512" for i
  proof -
    have "ps_read rops src source i = Ok (arena_words s2 root i)"
      "\<not> (present (arena_words s2 root i) \<and> bit (arena_words s2 root i) 2)"
      using h that ks by auto
    then show ?thesis using rd [OF that(2)]
      by (simp add: arena_store_def and_1_eq_0_iff word_and_bit del: push_bit_of_1)
  qed
  ultimately show ?thesis by (simp add: b)
qed

text \<open>
  Property C25.  Changing the active tables leaves no stale translation behind: when protecting or
  unmapping succeeds, every page whose entry differs afterwards has had its address invalidated by
  the call; when it fails, neither memory nor translations change.  After a successful protect,
  inspecting a page of the mapping reports its frame and the new permissions.
\<close>

theorem active_updates_coherent:
  fixes memory :: phys_memory
  assumes "table_tree False {t. frame_aligned t} (identity_words memory) root path"
    and "active_protect m final root memory tlb = (r, memory1, tlb1)"
    and "active_unmap_exact m root memory tlb = (q, memory2, tlb2)"
  defines "view \<equiv> \<lambda>mem. pt_view identity_store \<lparr>tb_store = mem, tb_root = root\<rparr>"
  shows "(\<not> is_ok r \<longrightarrow> memory1 = memory \<and> tlb1 = tlb) \<and> (\<not> is_ok q \<longrightarrow> memory2 = memory \<and> tlb2 = tlb) \<and>
    (\<forall>v. valid_page v \<longrightarrow> view memory1 v \<noteq> view memory v \<longrightarrow> virt_get v \<in> set (drop (length tlb) tlb1)) \<and>
    (\<forall>v. valid_page v \<longrightarrow> view memory2 v \<noteq> view memory v \<longrightarrow> virt_get v \<in> set (drop (length tlb) tlb2)) \<and>
    (\<forall>k \<in> set (mapping_range m). is_ok r \<longrightarrow> (\<exists>v p. mapping_page m k = Ok (v, p) \<and>
       active_leaf_at memory1 root v = Ok (Some \<lparr>al_physical = p, al_writable = perm_writable final,
         al_executable = perm_executable final, al_user = perm_user final\<rparr>)))"
proof -
  have tr: "identity.tree False memory root path" using assms(1) by (simp add: identity.tree_def)
  have "(\<not> is_ok r \<longrightarrow> memory1 = memory \<and> tlb1 = tlb) \<and>
    (\<forall>v. valid_page v \<longrightarrow> view memory1 v \<noteq> view memory v \<longrightarrow> virt_get v \<in> set (drop (length tlb) tlb1)) \<and>
    (\<forall>k \<in> set (mapping_range m). is_ok r \<longrightarrow> (\<exists>v p. mapping_page m k = Ok (v, p) \<and>
       active_leaf_at memory1 root v = Ok (Some \<lparr>al_physical = p, al_writable = perm_writable final,
         al_executable = perm_executable final, al_user = perm_user final\<rparr>)))"
    using active_protect_spec [OF tr _ assms(2)] unfolding view_def by (cases "is_ok r") simp_all
  moreover have "(\<not> is_ok q \<longrightarrow> memory2 = memory \<and> tlb2 = tlb) \<and>
    (\<forall>v. valid_page v \<longrightarrow> view memory2 v \<noteq> view memory v \<longrightarrow> virt_get v \<in> set (drop (length tlb) tlb2))"
    using active_unmap_spec [OF tr assms(3)] unfolding view_def by (cases "is_ok q") simp_all
  ultimately show ?thesis by blast
qed

definition demo_kernel_memory :: phys_memory where
  "demo_kernel_memory a = (if a = 0x2ff8 then 0x5003 else 0)"

lemma demo_arena_inv: "arena_inv demo_arena"
  by (simp add: arena_inv_def demo_arena_def frame_aligned_def PAGE_SIZE_def)

text \<open>A supervisor table that links to itself at its last entry.\<close>

definition demo_cycle :: phys_memory where
  "demo_cycle a = (if a = 0x2ff8 then 0x2003 else 0)"

lemma total_size_last: "\<forall>x \<in> set xs. x = Some 0 \<Longrightarrow> total_size (xs @ [y]) = y"
  by (induction xs; cases y) auto

lemma demo_cycle_read: "i < 512 \<Longrightarrow> ps_read identity_store demo_cycle (PhysAddr 0x2000) i = Ok (if i = 511 then 0x2003 else 0)"
proof -
  assume i: "i < 512"
  then have "unat (8 * of_nat i :: u64) = 8 * i" using le_unat_uoi [of i "512 :: u64"] by (simp add: unat_word_ariths)
  then have "(8 * of_nat i = (0xff8 :: u64)) \<longleftrightarrow> i = 511" by (simp add: word_unat_eq_iff)
  moreover have "0x2000 + x = 0x2ff8 \<longleftrightarrow> x = 0xff8" for x :: u64
    using add_left_cancel [of "0x2000" x "0xff8"] by simp
  ultimately show ?thesis using i by (simp add: identity_store_def demo_cycle_def entry_address_def)
qed

lemma demo_cycle_last:
  "entry_size identity_store demo_cycle (PhysAddr 0x2000) l below 511 = (if l = 0 then Some 0 else below (PhysAddr 0x2000))"
proof -
  have e: "\<not> bit (0x2003 :: u64) 2" "\<not> bit (0x2003 :: u64) 7" "present (0x2003 :: u64)" "\<not> reserved_bits 0x2003"
    "(0x2003 :: u64) AND ADDRESS_MASK = 0x2000" by code_simp+
  then show ?thesis by (simp add: entry_size_def demo_cycle_read)
qed

lemma demo_cycle_sizes:
  "copy_size (Suc l) identity_store demo_cycle (PhysAddr 0x2000) =
     map_option Suc (entry_size identity_store demo_cycle (PhysAddr 0x2000) l (copy_size l identity_store demo_cycle) 511)"
proof -
  let ?size = "entry_size identity_store demo_cycle (PhysAddr 0x2000) l (copy_size l identity_store demo_cycle)"
  have "[0..<Suc 511] = [0..<511] @ [511]" by (rule upt_Suc_append) simp
  moreover have "Suc 511 = 512" by simp
  ultimately have up: "map ?size [0..<512] = map ?size [0..<511] @ [?size 511]" by (simp only: map_append list.map)
  have "?size i = Some 0" if "i < 511" for i using that by (simp add: entry_size_def demo_cycle_read)
  then have "\<forall>x \<in> set (map ?size [0..<511]). x = Some 0" unfolding set_map set_upt by (metis (no_types, lifting) atLeastLessThan_iff imageE)
  then show ?thesis unfolding copy_size.simps up by (simp only: total_size_last)
qed

lemma demo_cycle_size: "copy_size (Suc l) identity_store demo_cycle (PhysAddr 0x2000) = Some (Suc l)"
proof (induction l)
  case (Suc l)
  show ?case using demo_cycle_sizes [of "Suc l"] Suc by (simp add: demo_cycle_last)
qed (use demo_cycle_sizes [of 0] in \<open>simp add: demo_cycle_last\<close>)

theorem clone_succeeds_exactly_witness:
  "(\<exists>c dst'. clone_supervisor_table arena_store identity_store demo_cycle (PhysAddr 0x2000) 4 demo_arena = (Ok c, dst') \<and>
     ar_allocated dst' = 4)"
proof -
  obtain r dst' where r: "clone_supervisor_table arena_store identity_store demo_cycle (PhysAddr 0x2000) 4 demo_arena = (r, dst')"
    by fastforce
  have "copy_size 4 identity_store demo_cycle (PhysAddr 0x2000) = Some 4"
    using demo_cycle_size [of 3] by (simp add: eval_nat_numeral)
  with clone_succeeds_exactly [OF demo_arena_inv _ _ r] r show ?thesis by (auto simp: demo_arena_def)
qed

theorem clone_translates_equally_witness:
  "\<exists>c dst'. clone_supervisor_table arena_store identity_store demo_kernel_memory (PhysAddr 0x2000) 1 demo_arena = (Ok c, dst') \<and>
     walk_entry arena_store dst' c [511] = Some 0x5003"
proof -
  obtain c dst' where c: "clone_supervisor_table arena_store identity_store demo_kernel_memory (PhysAddr 0x2000) 1 demo_arena = (Ok c, dst')"
  proof -
    have "fst (clone_supervisor_table arena_store identity_store demo_kernel_memory (PhysAddr 0x2000) 1 demo_arena) = Ok (PhysAddr 0x100000)"
      by code_simp
    then show thesis using that by (metis prod.collapse)
  qed
  have "walk_entry identity_store demo_kernel_memory (PhysAddr 0x2000) [511] = Some 0x5003" by code_simp
  moreover have "walk_entry arena_store dst' c [511] = walk_entry identity_store demo_kernel_memory (PhysAddr 0x2000) [511]"
    using clone_translates_equally [OF demo_arena_inv _ c] by (simp del: walk_entry.simps user_walk.simps)
  ultimately show ?thesis using c by metis
qed

theorem supervisor_half_shared_witness:
  "\<exists>b. new_with_supervisor_half_from arena_store identity_store demo_kernel_memory (PhysAddr 0x2000) demo_arena = Ok b \<and>
     arena_read (tb_store b) (tb_root b) 3 = Ok 0 \<and>
     arena_read (tb_store b) (tb_root b) 511 = ps_read identity_store demo_kernel_memory (PhysAddr 0x2000) 511"
proof -
  have "is_ok (new_with_supervisor_half_from arena_store identity_store demo_kernel_memory (PhysAddr 0x2000) demo_arena)"
    by code_simp
  then obtain b where b: "new_with_supervisor_half_from arena_store identity_store demo_kernel_memory (PhysAddr 0x2000) demo_arena = Ok b"
    by (auto simp: is_ok_def split: result.splits)
  from supervisor_half_shared [OF demo_arena_inv b] b show ?thesis by (intro exI [of _ b]) simp
qed

theorem active_updates_coherent_witness:
  "\<exists>memory1 tlb1. active_protect (demo_user_page 0x1000 0x5000) USER_READ (tb_root demo_mapped)
       (ar_memory (tb_store demo_mapped)) [] = (Ok (), memory1, tlb1) \<and>
     active_leaf_at memory1 (tb_root demo_mapped) (VirtAddr 0x1000) =
       Ok (Some \<lparr>al_physical = PhysAddr 0x5000, al_writable = False, al_executable = False, al_user = True\<rparr>)"
proof -
  let ?m = "demo_user_page 0x1000 0x5000" and ?mem = "ar_memory (tb_store demo_mapped)" and ?root = "tb_root demo_mapped"
  obtain path where "arena.tree False (tb_store demo_mapped) ?root path"
    using pt_built_inv_any [OF demo_built] by (auto simp: pt_inv_def)
  from arena_tree_identity [OF this]
  obtain path' where tt: "table_tree False {t. frame_aligned t} (identity_words ?mem) ?root path'"
    by (auto simp: identity.tree_def)
  have fin: "\<not> perm_writable USER_READ" "\<not> perm_executable USER_READ" "perm_user USER_READ"
    by (simp_all add: USER_READ_def perm_writable_def perm_executable_def perm_user_def)
  have "fst (active_protect ?m USER_READ ?root ?mem []) = Ok ()" by code_simp
  then obtain memory1 tlb1 where p: "active_protect ?m USER_READ ?root ?mem [] = (Ok (), memory1, tlb1)"
    by (metis prod.collapse)
  obtain q memory2 tlb2 where u: "active_unmap_exact ?m ?root ?mem [] = (q, memory2, tlb2)"
    by (metis prod.collapse)
  have "0 \<in> set (mapping_range ?m)" by (simp add: demo_pages)
  then obtain v f where "mapping_page ?m 0 = Ok (v, f)" "active_leaf_at memory1 ?root v =
      Ok (Some \<lparr>al_physical = f, al_writable = perm_writable USER_READ,
         al_executable = perm_executable USER_READ, al_user = perm_user USER_READ\<rparr>)"
    using active_updates_coherent [OF tt p u] by fastforce
  then show ?thesis using p fin demo_pages(3) by simp
qed

end
