(* ===== verification/Pe_Image.thy ===== *)
theory Pe_Image
  imports Memory
begin

text \<open>
  The loader of executable images, after \<open>crates/mrml-kernel/src/pe.rs\<close>: a parser of PE32+ images
  that trusts no offset of the input, the mapping plan of the sections, the materialised image
  and its relocation to another base.  Fields of the format keep their width; \<open>usize\<close> offsets are
  natural numbers: they are sums of a few 32-bit values, which a 64-bit \<open>usize\<close> holds, so that
  the \<open>checked_add\<close> of offsets always succeeds.  An index or slice operation that would panic in
  the code yields \<open>Panic\<close> in the model.
\<close>

section \<open>Definitions\<close>

subsection \<open>Results\<close>

definition and_then :: "('a, 'e) result \<Rightarrow> ('a \<Rightarrow> ('b, 'e) result) \<Rightarrow> ('b, 'e) result" where
  "and_then r f = (case r of Ok a \<Rightarrow> f a | Err e \<Rightarrow> Err e)"

datatype 'e failure = Error 'e | Panic

definition get_range :: "bytes \<Rightarrow> nat \<Rightarrow> nat \<Rightarrow> bytes option" where
  "get_range bs a b = (if a \<le> b \<and> b \<le> length bs then Some (sub_slice bs a b) else None)"

text \<open>\<open>copy_from_slice\<close> into the bytes from \<open>at\<close> on.\<close>

definition write_at :: "nat \<Rightarrow> bytes \<Rightarrow> bytes \<Rightarrow> bytes" where
  "write_at at src bs = take at bs @ src @ drop (at + length src) bs"

subsection \<open>Constants and types\<close>

definition DOS_MAGIC :: u16 where "DOS_MAGIC = 0x5a4d"
definition PE_SIGNATURE :: u32 where "PE_SIGNATURE = 0x00004550"
definition MACHINE_X86_64 :: u16 where "MACHINE_X86_64 = 0x8664"
definition OPTIONAL_MAGIC_PE32_PLUS :: u16 where "OPTIONAL_MAGIC_PE32_PLUS = 0x020b"
definition COFF_EXECUTABLE :: u16 where "COFF_EXECUTABLE = 0x0002"
definition DLL_NX_COMPAT :: u16 where "DLL_NX_COMPAT = 0x0100"
definition SECTION_EXECUTE :: u32 where "SECTION_EXECUTE = 0x20000000"
definition SECTION_READ :: u32 where "SECTION_READ = 0x40000000"
definition SECTION_WRITE :: u32 where "SECTION_WRITE = 0x80000000"
definition MAX_PE_SECTIONS :: nat where "MAX_PE_SECTIONS = 32"
definition MAX_PE_IMAGE_BYTES :: u32 where "MAX_PE_IMAGE_BYTES = 512 * 1024 * 1024"
definition MAX_PE_RELOCATIONS :: nat where "MAX_PE_RELOCATIONS = 65536"

datatype pe_error =
    Truncated | InvalidDosHeader | InvalidPeSignature | UnsupportedMachine | InvalidCoffHeader
  | InvalidOptionalHeader | InvalidAlignment | InvalidImageSize | TooManySections | InvalidSection
  | OverlappingSections | WritableExecutableSection | EntryPointNotExecutable | InvalidDestination
  | UnsupportedImports | InvalidRelocations | RelocationsRequired | RelocationOverflow

record pe_load_region =
  lr_virtual_address :: u32
  lr_pages :: u32
  lr_readable :: bool
  lr_writable :: bool
  lr_executable :: bool

record pe_allocated_region =
  ar_load :: pe_load_region
  ar_physical_start :: phys_addr

datatype pe_allocation_error = InvalidPlan pe_error | PlanMemory memory_error | OutputTooSmall

record pe_section =
  ps_virtual_address :: u32
  ps_virtual_size :: u32
  ps_file_offset :: u32
  ps_file_size :: u32
  ps_characteristics :: u32

definition ps_readable :: "pe_section \<Rightarrow> bool" where
  "ps_readable s \<longleftrightarrow> ps_characteristics s AND SECTION_READ \<noteq> 0"
definition ps_writable :: "pe_section \<Rightarrow> bool" where
  "ps_writable s \<longleftrightarrow> ps_characteristics s AND SECTION_WRITE \<noteq> 0"
definition ps_executable :: "pe_section \<Rightarrow> bool" where
  "ps_executable s \<longleftrightarrow> ps_characteristics s AND SECTION_EXECUTE \<noteq> 0"

record pe_image =
  pe_encoded :: bytes
  pe_image_base :: u64
  pe_entry_rva :: u32
  pe_image_size :: u32
  pe_headers_size :: u32
  pe_section_table :: nat
  pe_section_count :: nat
  pe_relocation_rva :: u32
  pe_relocation_size :: u32

subsection \<open>Reading fields\<close>

definition pe_read_u16 :: "bytes \<Rightarrow> nat \<Rightarrow> (u16, pe_error) result" where
  "pe_read_u16 bs at = (case get_range bs at (at + 2) of None \<Rightarrow> Err Truncated | Some b \<Rightarrow> Ok (from_le_bytes b))"

definition pe_read_u32 :: "bytes \<Rightarrow> nat \<Rightarrow> (u32, pe_error) result" where
  "pe_read_u32 bs at = (case get_range bs at (at + 4) of None \<Rightarrow> Err Truncated | Some b \<Rightarrow> Ok (from_le_bytes b))"

definition pe_read_u64 :: "bytes \<Rightarrow> nat \<Rightarrow> (u64, pe_error) result" where
  "pe_read_u64 bs at = (case get_range bs at (at + 8) of None \<Rightarrow> Err Truncated | Some b \<Rightarrow> Ok (from_le_bytes b))"

definition pe_overlaps :: "u32 \<Rightarrow> u32 \<Rightarrow> u32 \<Rightarrow> u32 \<Rightarrow> bool" where
  "pe_overlaps a_start a_end b_start b_end \<longleftrightarrow> a_start < b_end \<and> b_start < a_end"

definition section_end :: "pe_section \<Rightarrow> (u32, pe_error) result" where
  "section_end s = ok_or (checked_add (ps_virtual_address s) (ps_virtual_size s)) InvalidSection"

definition file_end :: "pe_section \<Rightarrow> (u32, pe_error) result" where
  "file_end s = ok_or (checked_add (ps_file_offset s) (ps_file_size s)) InvalidSection"

definition pages_for :: "u32 \<Rightarrow> (u32, pe_error) result" where
  "pages_for bs = (case checked_add bs 4095 of
      None \<Rightarrow> Err InvalidSection
    | Some v \<Rightarrow> if v div 4096 \<noteq> 0 then Ok (v div 4096) else Err InvalidSection)"

definition pe_directory :: "bytes \<Rightarrow> nat \<Rightarrow> nat \<Rightarrow> u32 \<Rightarrow> nat \<Rightarrow> (u32 \<times> u32, pe_error) result" where
  "pe_directory bs optional optional_size count index =
     (if unat count \<le> index then Ok (0, 0)
      else let at = 112 + index * 8 in
        if at + 8 > optional_size then Err InvalidOptionalHeader
        else and_then (pe_read_u32 bs (optional + at)) (\<lambda>rva.
             and_then (pe_read_u32 bs (optional + at + 4)) (\<lambda>sz. Ok (rva, sz))))"

definition pe_section_at :: "pe_image \<Rightarrow> nat \<Rightarrow> (pe_section, pe_error) result" where
  "pe_section_at img index =
     (if index \<ge> pe_section_count img then Err InvalidSection
      else let at = pe_section_table img + index * 40; bs = pe_encoded img in
        and_then (pe_read_u32 bs (at + 16)) (\<lambda>file_size.
        and_then (pe_read_u32 bs (at + 8)) (\<lambda>virtual_size.
        and_then (pe_read_u32 bs (at + 12)) (\<lambda>virtual_address.
        and_then (pe_read_u32 bs (at + 20)) (\<lambda>file_offset.
        and_then (pe_read_u32 bs (at + 36)) (\<lambda>characteristics.
          Ok \<lparr>ps_virtual_address = virtual_address, ps_virtual_size = max virtual_size file_size,
             ps_file_offset = file_offset, ps_file_size = file_size,
             ps_characteristics = characteristics\<rparr>))))))"

definition section_data :: "pe_image \<Rightarrow> pe_section \<Rightarrow> (bytes, pe_error) result" where
  "section_data img s =
     ok_or (get_range (pe_encoded img) (unat (ps_file_offset s)) (unat (ps_file_offset s) + unat (ps_file_size s)))
       InvalidSection"

subsection \<open>Sections\<close>

definition validate_section :: "pe_section \<Rightarrow> nat \<Rightarrow> u32 \<Rightarrow> u32 \<Rightarrow> u32 \<Rightarrow> u32 \<Rightarrow> (unit, pe_error) result" where
  "validate_section s file_length headers_size image_size section_alignment file_alignment =
     (let refusal = (if ps_writable s \<and> ps_executable s then Err WritableExecutableSection else Err InvalidSection) in
      if ps_virtual_size s = 0 \<or> ps_virtual_address s < headers_size \<or>
         ps_virtual_address s mod section_alignment \<noteq> 0 then refusal
      else and_then (section_end s) (\<lambda>e.
        if e > image_size \<or> ps_writable s \<and> ps_executable s \<or> ps_executable s \<and> \<not> ps_readable s \<or>
           ps_writable s \<and> \<not> ps_readable s \<or> \<not> (ps_readable s \<or> ps_writable s \<or> ps_executable s)
        then refusal
        else if ps_file_size s \<noteq> 0 then
          (if ps_file_offset s < headers_size \<or> ps_file_offset s mod file_alignment \<noteq> 0 \<or>
              ps_file_size s mod file_alignment \<noteq> 0 then Err InvalidSection
           else and_then (file_end s) (\<lambda>f. if unat f > file_length then Err InvalidSection else Ok ()))
        else if ps_file_offset s \<noteq> 0 then Err InvalidSection
        else Ok ()))"

text \<open>The inner loop of the parser: the section \<open>left\<close> against those before it.\<close>

fun check_overlaps :: "pe_image \<Rightarrow> pe_section \<Rightarrow> u32 \<Rightarrow> nat list \<Rightarrow> (unit, pe_error) result" where
  "check_overlaps img left left_end [] = Ok ()"
| "check_overlaps img left left_end (right_index # rest) =
     and_then (pe_section_at img right_index) (\<lambda>right.
     and_then (section_end right) (\<lambda>right_end.
       if pe_overlaps (ps_virtual_address left) left_end (ps_virtual_address right) right_end
       then Err OverlappingSections
       else if ps_file_size left \<noteq> 0 \<and> ps_file_size right \<noteq> 0 then
         and_then (file_end left) (\<lambda>lf. and_then (file_end right) (\<lambda>rf.
           if pe_overlaps (ps_file_offset left) lf (ps_file_offset right) rf then Err OverlappingSections
           else check_overlaps img left left_end rest))
       else check_overlaps img left left_end rest))"

text \<open>The outer loop; the result says whether the entry point lies in an executable section.\<close>

fun check_sections :: "pe_image \<Rightarrow> u32 \<Rightarrow> u32 \<Rightarrow> nat list \<Rightarrow> bool \<Rightarrow> (bool, pe_error) result" where
  "check_sections img section_alignment file_alignment [] entry_is_executable = Ok entry_is_executable"
| "check_sections img section_alignment file_alignment (left_index # rest) entry_is_executable =
     and_then (pe_section_at img left_index) (\<lambda>left.
     and_then (validate_section left (length (pe_encoded img)) (pe_headers_size img) (pe_image_size img)
         section_alignment file_alignment) (\<lambda>_.
     and_then (section_end left) (\<lambda>left_end.
     and_then (check_overlaps img left left_end [0..<left_index]) (\<lambda>_.
       check_sections img section_alignment file_alignment rest
         (entry_is_executable \<or> ps_executable left \<and> pe_entry_rva img \<ge> ps_virtual_address left \<and>
            pe_entry_rva img < left_end)))))"

subsection \<open>Relocations\<close>

text \<open>
  The visitor gets the target and the kind of each entry; it may change a state of its own.
\<close>

fun walk_entries ::
  "(u32 \<Rightarrow> u16 \<Rightarrow> 's \<Rightarrow> (unit, pe_error failure) result \<times> 's) \<Rightarrow> u32 \<Rightarrow> u32 \<Rightarrow> nat \<Rightarrow> bytes \<Rightarrow> 's \<Rightarrow>
     (nat, pe_error failure) result \<times> 's" where
  "walk_entries visit image_size page count (a # b # rest) s =
     (if Suc count > MAX_PE_RELOCATIONS then (Err (Error InvalidRelocations), s)
      else let encoded = from_le_bytes [a, b] :: u16; kind = drop_bit 12 encoded in
        if kind \<noteq> 0 \<and> kind \<noteq> 10 then (Err (Error InvalidRelocations), s)
        else case checked_add page (ucast (encoded AND 0x0fff)) of
            None \<Rightarrow> (Err (Error InvalidRelocations), s)
          | Some target \<Rightarrow>
              if kind = 10 \<and> (case checked_add target 8 of None \<Rightarrow> True | Some e \<Rightarrow> e > image_size)
              then (Err (Error InvalidRelocations), s)
              else (case visit target kind s of
                  (Err e, s') \<Rightarrow> (Err e, s')
                | (Ok _, s') \<Rightarrow> walk_entries visit image_size page (Suc count) rest s'))"
| "walk_entries visit image_size page count bs s = (Ok count, s)"

function (sequential) walk_relocations ::
  "(u32 \<Rightarrow> u16 \<Rightarrow> 's \<Rightarrow> (unit, pe_error failure) result \<times> 's) \<Rightarrow> u32 \<Rightarrow> nat \<Rightarrow> bytes \<Rightarrow> 's \<Rightarrow>
     (unit, pe_error failure) result \<times> 's" where
  "walk_relocations visit image_size count bs s =
     (if bs = [] then (Ok (), s)
      else if length bs < 8 then (Err (Error InvalidRelocations), s)
      else case pe_read_u32 bs 0 of Err e \<Rightarrow> (Err (Error e), s) | Ok page \<Rightarrow>
        (case pe_read_u32 bs 4 of Err e \<Rightarrow> (Err (Error e), s) | Ok sz \<Rightarrow>
          let block_size = unat sz in
          if block_size < 8 \<or> block_size > length bs \<or> block_size mod 2 \<noteq> 0 \<or> page mod 4096 \<noteq> 0
          then (Err (Error InvalidRelocations), s)
          else (case walk_entries visit image_size page count (sub_slice bs 8 block_size) s of
              (Err e, s') \<Rightarrow> (Err e, s')
            | (Ok count', s') \<Rightarrow> walk_relocations visit image_size count' (drop block_size bs) s')))"
  by pat_completeness auto
termination
  by (relation "measure (\<lambda>(visit, image_size, count, bs, s). length bs)") auto

fun rva_file_data_loop :: "pe_image \<Rightarrow> u32 \<Rightarrow> u32 \<Rightarrow> u32 \<Rightarrow> nat list \<Rightarrow> (bytes, pe_error) result" where
  "rva_file_data_loop img rva sz end_rva [] = Err InvalidRelocations"
| "rva_file_data_loop img rva sz end_rva (index # rest) =
     and_then (pe_section_at img index) (\<lambda>s.
       case checked_add (ps_virtual_address s) (ps_file_size s) of
         None \<Rightarrow> Err InvalidRelocations
       | Some raw_end \<Rightarrow>
           if rva \<ge> ps_virtual_address s \<and> end_rva \<le> raw_end then
             (case checked_add (ps_file_offset s) (rva - ps_virtual_address s) of
                None \<Rightarrow> Err InvalidRelocations
              | Some offset \<Rightarrow>
                  ok_or (get_range (pe_encoded img) (unat offset) (unat offset + unat sz)) InvalidRelocations)
           else rva_file_data_loop img rva sz end_rva rest)"

definition rva_file_data :: "pe_image \<Rightarrow> u32 \<Rightarrow> u32 \<Rightarrow> (bytes, pe_error) result" where
  "rva_file_data img rva sz =
     (case checked_add rva sz of
        None \<Rightarrow> Err InvalidRelocations
      | Some end_rva \<Rightarrow> rva_file_data_loop img rva sz end_rva [0..<pe_section_count img])"

text \<open>The empty visitor of the validation; it never panics, so that only errors remain.\<close>

definition accept_all :: "u32 \<Rightarrow> u16 \<Rightarrow> unit \<Rightarrow> (unit, pe_error failure) result \<times> unit" where
  "accept_all target kind s = (Ok (), s)"

definition failure_error :: "(unit, pe_error failure) result \<Rightarrow> (unit, pe_error) result" where
  "failure_error r = (case r of Ok _ \<Rightarrow> Ok () | Err (Error e) \<Rightarrow> Err e | Err Panic \<Rightarrow> Err InvalidRelocations)"

definition validate_relocations :: "pe_image \<Rightarrow> (unit, pe_error) result" where
  "validate_relocations img =
     (if (pe_relocation_rva img = 0) \<noteq> (pe_relocation_size img = 0) then Err InvalidRelocations
      else if pe_relocation_size img = 0 then Ok ()
      else and_then (rva_file_data img (pe_relocation_rva img) (pe_relocation_size img)) (\<lambda>bs.
        failure_error (fst (walk_relocations accept_all (pe_image_size img) 0 bs ()))))"

subsection \<open>The parser\<close>

text \<open>The second half of the parser: the header fields are read, the sections are not.\<close>

definition check_image :: "pe_image \<Rightarrow> u32 \<Rightarrow> u32 \<Rightarrow> (pe_image, pe_error) result" where
  "check_image img section_alignment file_alignment =
     and_then (check_sections img section_alignment file_alignment [0..<pe_section_count img] False) (\<lambda>entry_is_executable.
     if \<not> entry_is_executable then Err EntryPointNotExecutable else
     and_then (validate_relocations img) (\<lambda>_. Ok img))"

definition parse_with_limit :: "bytes \<Rightarrow> u32 \<Rightarrow> (pe_image, pe_error) result" where
  "parse_with_limit encoded maximum_image_bytes =
    (if maximum_image_bytes = 0 \<or> maximum_image_bytes > MAX_PE_IMAGE_BYTES then Err InvalidImageSize else
     and_then (pe_read_u16 encoded 0) (\<lambda>magic.
     if magic \<noteq> DOS_MAGIC then Err InvalidDosHeader else
     and_then (pe_read_u32 encoded 0x3c) (\<lambda>pe32. let pe = unat pe32 in
     if pe < 0x40 then Err InvalidPeSignature else
     and_then (pe_read_u32 encoded pe) (\<lambda>signature.
     if signature \<noteq> PE_SIGNATURE then Err InvalidPeSignature else
     and_then (pe_read_u16 encoded (pe + 4)) (\<lambda>machine.
     if machine \<noteq> MACHINE_X86_64 then Err UnsupportedMachine else
     and_then (pe_read_u16 encoded (pe + 6)) (\<lambda>sections. let section_count = unat sections in
     if section_count = 0 \<or> section_count > MAX_PE_SECTIONS then Err TooManySections else
     and_then (pe_read_u16 encoded (pe + 22)) (\<lambda>characteristics.
     if characteristics AND COFF_EXECUTABLE = 0 then Err InvalidCoffHeader else
     and_then (pe_read_u16 encoded (pe + 20)) (\<lambda>opt_size. let optional_size = unat opt_size in
     if optional_size < 112 then Err InvalidOptionalHeader else
     let optional = pe + 24; section_table = optional + optional_size;
         table_end = section_table + section_count * 40 in
     if get_range encoded section_table table_end = None then Err Truncated else
     and_then (pe_read_u16 encoded optional) (\<lambda>opt_magic.
     if opt_magic \<noteq> OPTIONAL_MAGIC_PE32_PLUS then Err InvalidOptionalHeader else
     and_then (pe_read_u16 encoded (optional + 70)) (\<lambda>dll.
     if dll AND DLL_NX_COMPAT = 0 then Err InvalidOptionalHeader else
     and_then (pe_read_u32 encoded (optional + 16)) (\<lambda>entry_rva.
     and_then (pe_read_u64 encoded (optional + 24)) (\<lambda>image_base.
     and_then (pe_read_u32 encoded (optional + 32)) (\<lambda>section_alignment.
     and_then (pe_read_u32 encoded (optional + 36)) (\<lambda>file_alignment.
     and_then (pe_read_u32 encoded (optional + 56)) (\<lambda>image_size.
     and_then (pe_read_u32 encoded (optional + 60)) (\<lambda>headers_size.
     and_then (pe_read_u32 encoded (optional + 108)) (\<lambda>directory_count.
     and_then (pe_directory encoded optional optional_size directory_count 1) (\<lambda>(import_rva, import_size).
     if import_rva \<noteq> 0 \<or> import_size \<noteq> 0 then Err UnsupportedImports else
     and_then (pe_directory encoded optional optional_size directory_count 5) (\<lambda>(relocation_rva, relocation_size).
     if section_alignment < 4096 \<or> \<not> is_power_of_two section_alignment \<or>
        \<not> (512 \<le> file_alignment \<and> file_alignment \<le> 65536) \<or> \<not> is_power_of_two file_alignment \<or>
        headers_size = 0 \<or> headers_size mod file_alignment \<noteq> 0 \<or> unat headers_size > length encoded \<or>
        table_end > unat headers_size
     then Err InvalidAlignment else
     if entry_rva = 0 \<or> image_size = 0 \<or> image_size > maximum_image_bytes \<or>
        length encoded > unat maximum_image_bytes \<or> image_size mod section_alignment \<noteq> 0 \<or>
        headers_size > image_size \<or> image_base mod 65536 \<noteq> 0 \<or>
        checked_add image_base (ucast image_size) = None
     then Err InvalidImageSize else
     check_image \<lparr>pe_encoded = encoded, pe_image_base = image_base, pe_entry_rva = entry_rva,
        pe_image_size = image_size, pe_headers_size = headers_size, pe_section_table = section_table,
        pe_section_count = section_count, pe_relocation_rva = relocation_rva,
        pe_relocation_size = relocation_size\<rparr> section_alignment file_alignment)))))))))))))))))))"

definition pe_parse :: "bytes \<Rightarrow> (pe_image, pe_error) result" where
  "pe_parse encoded = parse_with_limit encoded MAX_PE_IMAGE_BYTES"

subsection \<open>The mapping plan\<close>

definition load_region_count :: "pe_image \<Rightarrow> nat" where
  "load_region_count img = pe_section_count img + 1"

definition load_region :: "pe_image \<Rightarrow> nat \<Rightarrow> (pe_load_region, pe_error) result" where
  "load_region img index =
     (if index = 0 then
        and_then (pages_for (pe_headers_size img)) (\<lambda>pages.
          Ok \<lparr>lr_virtual_address = 0, lr_pages = pages, lr_readable = True, lr_writable = False, lr_executable = False\<rparr>)
      else and_then (pe_section_at img (index - 1)) (\<lambda>s.
           and_then (pages_for (ps_virtual_size s)) (\<lambda>pages.
             Ok \<lparr>lr_virtual_address = ps_virtual_address s, lr_pages = pages, lr_readable = ps_readable s,
                lr_writable = ps_writable s, lr_executable = ps_executable s\<rparr>)))"

definition from_contiguous_image :: "pe_load_region \<Rightarrow> phys_addr \<Rightarrow> u64 \<Rightarrow> (pe_allocated_region, pe_allocation_error) result" where
  "from_contiguous_image load image_physical image_pages =
     (case checked_mul image_pages PAGE_SIZE of
        None \<Rightarrow> Err (InvalidPlan InvalidImageSize)
      | Some image_bytes \<Rightarrow>
          (let offset = ucast (lr_virtual_address load) in
           case checked_mul (ucast (lr_pages load)) PAGE_SIZE of
             None \<Rightarrow> Err (InvalidPlan InvalidImageSize)
           | Some region_bytes \<Rightarrow>
               if (case checked_add offset region_bytes of None \<Rightarrow> True | Some e \<Rightarrow> e > image_bytes)
               then Err (InvalidPlan InvalidImageSize)
               else (case checked_add (phys_get image_physical) offset of
                   None \<Rightarrow> Err (InvalidPlan InvalidImageSize)
                 | Some address \<Rightarrow>
                     and_then (map_err PlanMemory (phys_new address)) (\<lambda>start.
                       Ok \<lparr>ar_load = load, ar_physical_start = start\<rparr>))))"

text \<open>The loop over the output slots; slots that were filled before a failure stay filled.\<close>

fun allocate_regions ::
  "pe_image \<Rightarrow> nat list \<Rightarrow> frame_allocator \<Rightarrow> pe_allocated_region option list \<Rightarrow>
     (unit, pe_allocation_error) result \<times> frame_allocator \<times> pe_allocated_region option list" where
  "allocate_regions img [] fa output = (Ok (), fa, output)"
| "allocate_regions img (index # rest) fa output =
     (case load_region img index of
        Err e \<Rightarrow> (Err (InvalidPlan e), fa, output)
      | Ok load \<Rightarrow>
          (case allocate_contiguous (ucast (lr_pages load)) 1 fa of
             (Err e, fa') \<Rightarrow> (Err (PlanMemory e), fa', output)
           | (Ok start, fa') \<Rightarrow>
               allocate_regions img rest fa' (output[index := Some \<lparr>ar_load = load, ar_physical_start = start\<rparr>])))"

definition allocate_load_regions ::
  "pe_image \<Rightarrow> frame_allocator \<Rightarrow> pe_allocated_region option list \<Rightarrow>
     (nat, pe_allocation_error) result \<times> frame_allocator \<times> pe_allocated_region option list" where
  "allocate_load_regions img fa output =
     (let count = load_region_count img in
      if length output < count then (Err OutputTooSmall, fa, output)
      else case allocate_regions img [0..<count] fa (replicate (length output) None) of
          (Err e, fa', out) \<Rightarrow> (Err e, fa', out)
        | (Ok _, fa', out) \<Rightarrow> (Ok count, fa', out))"

subsection \<open>Materialising the image\<close>

definition relocate_slot :: "u64 \<Rightarrow> u64 \<Rightarrow> u32 \<Rightarrow> u32 \<Rightarrow> u16 \<Rightarrow> bytes \<Rightarrow> (unit, pe_error failure) result \<times> bytes" where
  "relocate_slot preferred load_base image_size target kind destination =
     (if kind = 0 then (Ok (), destination)
      else let at = unat target in
        case get_range destination at (at + 8) of
          None \<Rightarrow> (Err Panic, destination)
        | Some bs \<Rightarrow>
            let v = from_le_bytes bs :: u64 in
            if v = 0 then (Ok (), destination)
            else if v < preferred \<or> \<not> v - preferred < ucast image_size then (Err (Error RelocationOverflow), destination)
            else case checked_add load_base (v - preferred) of
                None \<Rightarrow> (Err (Error RelocationOverflow), destination)
              | Some relocated \<Rightarrow> (Ok (), write_at at (to_le_bytes 8 relocated) destination))"

definition apply_relocations :: "pe_image \<Rightarrow> u64 \<Rightarrow> bytes \<Rightarrow> (unit, pe_error failure) result \<times> bytes" where
  "apply_relocations img load_base destination =
     (case rva_file_data img (pe_relocation_rva img) (pe_relocation_size img) of
        Err e \<Rightarrow> (Err (Error e), destination)
      | Ok bs \<Rightarrow>
          walk_relocations (relocate_slot (pe_image_base img) load_base (pe_image_size img))
            (pe_image_size img) 0 bs destination)"

fun copy_sections :: "pe_image \<Rightarrow> nat list \<Rightarrow> bytes \<Rightarrow> (unit, pe_error failure) result \<times> bytes" where
  "copy_sections img [] destination = (Ok (), destination)"
| "copy_sections img (index # rest) destination =
     (case pe_section_at img index of
        Err e \<Rightarrow> (Err (Error e), destination)
      | Ok s \<Rightarrow>
          (case section_data img s of
             Err e \<Rightarrow> (Err (Error e), destination)
           | Ok source \<Rightarrow>
               let start = unat (ps_virtual_address s) in
               if start + length source > length destination then (Err (Error InvalidDestination), destination)
               else copy_sections img rest (write_at start source destination)))"

definition materialize_at :: "pe_image \<Rightarrow> u64 \<Rightarrow> bytes \<Rightarrow> (u64, pe_error failure) result \<times> bytes" where
  "materialize_at img load_base destination =
     (if length destination \<noteq> unat (pe_image_size img) then (Err (Error InvalidDestination), destination)
      else if load_base mod 4096 \<noteq> 0 \<or> checked_add load_base (ucast (pe_image_size img)) = None
      then (Err (Error InvalidDestination), destination)
      else if load_base \<noteq> pe_image_base img \<and> pe_relocation_size img = 0
      then (Err (Error RelocationsRequired), destination)
      else let zeroed = replicate (length destination) 0; headers = unat (pe_headers_size img) in
        if headers > length zeroed \<or> headers > length (pe_encoded img) then (Err Panic, zeroed)
        else case copy_sections img [0..<pe_section_count img]
               (write_at 0 (take headers (pe_encoded img)) zeroed) of
            (Err e, d) \<Rightarrow> (Err e, d)
          | (Ok _, d) \<Rightarrow>
              (case (if load_base \<noteq> pe_image_base img then apply_relocations img load_base d else (Ok (), d)) of
                 (Err e, d') \<Rightarrow> (Err e, d')
               | (Ok _, d') \<Rightarrow>
                   (case checked_add load_base (ucast (pe_entry_rva img)) of
                      None \<Rightarrow> (Err (Error InvalidImageSize), d')
                    | Some entry \<Rightarrow> (Ok entry, d'))))"

definition materialize :: "pe_image \<Rightarrow> bytes \<Rightarrow> (u64, pe_error failure) result \<times> bytes" where
  "materialize img destination = materialize_at img (pe_image_base img) destination"

declare walk_relocations.simps [simp del]

section \<open>Results\<close>

lemma and_then_simps [simp]: "and_then (Ok a) f = f a" "and_then (Err e) f = Err e"
  by (simp_all add: and_then_def)

lemma and_then_Ok_iff [simp]: "and_then r f = Ok b \<longleftrightarrow> (\<exists>a. r = Ok a \<and> f a = Ok b)"
  by (cases r) simp_all

lemma if_err_Ok_iff: "(if c then Err e else r) = Ok b \<longleftrightarrow> \<not> c \<and> r = Ok b"
  by simp

section \<open>What the parser establishes\<close>

abbreviation sec_start :: "pe_section \<Rightarrow> nat" where "sec_start s \<equiv> unat (ps_virtual_address s)"
abbreviation sec_size :: "pe_section \<Rightarrow> nat" where "sec_size s \<equiv> unat (ps_virtual_size s)"
abbreviation sec_file :: "pe_section \<Rightarrow> nat" where "sec_file s \<equiv> unat (ps_file_offset s)"
abbreviation sec_raw :: "pe_section \<Rightarrow> nat" where "sec_raw s \<equiv> unat (ps_file_size s)"

text \<open>Bytes rounded up to whole pages.\<close>

definition page_up :: "nat \<Rightarrow> nat" where
  "page_up n = (n + 4095) div 4096 * 4096"

definition section_ok :: "pe_image \<Rightarrow> pe_section \<Rightarrow> bool" where
  "section_ok img s \<longleftrightarrow>
     0 < sec_size s \<and> sec_raw s \<le> sec_size s \<and> unat (pe_headers_size img) \<le> sec_start s \<and> sec_start s mod 4096 = 0 \<and>
     sec_start s + sec_size s \<le> unat (pe_image_size img) \<and>
     ps_readable s \<and> \<not> (ps_writable s \<and> ps_executable s) \<and>
     (sec_raw s \<noteq> 0 \<longrightarrow> unat (pe_headers_size img) \<le> sec_file s \<and> sec_file s + sec_raw s \<le> length (pe_encoded img)) \<and>
     (sec_raw s = 0 \<longrightarrow> sec_file s = 0)"

definition sections_apart :: "pe_section \<Rightarrow> pe_section \<Rightarrow> bool" where
  "sections_apart s t \<longleftrightarrow>
     (sec_start s + sec_size s \<le> sec_start t \<or> sec_start t + sec_size t \<le> sec_start s) \<and>
     (sec_raw s \<noteq> 0 \<longrightarrow> sec_raw t \<noteq> 0 \<longrightarrow>
        sec_file s + sec_raw s \<le> sec_file t \<or> sec_file t + sec_raw t \<le> sec_file s)"

definition pe_ok :: "pe_image \<Rightarrow> bool" where
  "pe_ok img \<longleftrightarrow>
     0 < unat (pe_headers_size img) \<and> unat (pe_headers_size img) \<le> length (pe_encoded img) \<and>
     unat (pe_headers_size img) \<le> unat (pe_image_size img) \<and> unat (pe_image_size img) mod 4096 = 0 \<and>
     unat (pe_image_size img) \<le> 2 ^ 29 \<and> pe_image_base img mod 65536 = 0 \<and>
     unat (pe_image_base img) + unat (pe_image_size img) < 2 ^ 64 \<and>
     0 < pe_section_count img \<and> pe_section_count img \<le> 32 \<and>
     (\<forall>i < pe_section_count img. \<exists>s. pe_section_at img i = Ok s \<and> section_ok img s) \<and>
     (\<forall>i < pe_section_count img. \<forall>j < i. \<forall>s t. pe_section_at img i = Ok s \<longrightarrow> pe_section_at img j = Ok t \<longrightarrow> sections_apart s t) \<and>
     (\<exists>i < pe_section_count img. \<exists>s. pe_section_at img i = Ok s \<and> ps_executable s \<and>
        sec_start s \<le> unat (pe_entry_rva img) \<and> unat (pe_entry_rva img) < sec_start s + sec_size s) \<and>
     validate_relocations img = Ok ()"

lemma aligned_to_page:
  fixes al :: u32
  assumes "is_power_of_two al" and "4096 \<le> al" and "a mod al = 0"
  shows "unat a mod 4096 = 0"
proof -
  obtain k where k: "k < 32" "al = 2 ^ k" using is_power_of_twoD [OF assms(1)] by auto
  then have ual: "unat al = 2 ^ k" by (simp add: unat_exp)
  have "unat (4096 :: u32) \<le> unat al" using assms(2) by (simp add: word_le_nat_alt)
  then have "(2 :: nat) ^ 12 \<le> 2 ^ k" using ual by simp
  then have "12 \<le> k" by (simp only: power_increasing_iff)
  then have "(2 :: nat) ^ 12 dvd 2 ^ k" by (rule le_imp_power_dvd)
  moreover have "unat (a mod al) = 0" using assms(3) by simp
  then have "2 ^ k dvd unat a" by (simp add: unat_mod ual dvd_eq_mod_eq_0)
  ultimately have "2 ^ 12 dvd unat a" using dvd_trans by blast
  then show ?thesis by (simp add: dvd_eq_mod_eq_0)
qed

lemma section_end_Ok_iff: "section_end s = Ok e \<longleftrightarrow> unat e = sec_start s + sec_size s"
  by (simp add: section_end_def checked_add_Some_iff)

lemma file_end_Ok_iff: "file_end s = Ok e \<longleftrightarrow> unat e = sec_file s + sec_raw s"
  by (simp add: file_end_def checked_add_Some_iff)

lemma pe_section_raw_le: "pe_section_at img i = Ok s \<Longrightarrow> sec_raw s \<le> sec_size s"
  by (auto simp: pe_section_at_def Let_def max_def word_le_nat_alt split: if_splits)

lemma validate_section_ok:
  assumes "validate_section s (length (pe_encoded img)) (pe_headers_size img) (pe_image_size img) al fal = Ok ()"
    and "is_power_of_two al" and "4096 \<le> al" and "sec_raw s \<le> sec_size s"
  shows "section_ok img s"
proof -
  from assms(1) have c: "ps_virtual_size s \<noteq> 0" "pe_headers_size img \<le> ps_virtual_address s"
      "ps_virtual_address s mod al = 0" "\<not> (ps_writable s \<and> ps_executable s)" "ps_readable s"
    and e: "\<exists>e. section_end s = Ok e \<and> e \<le> pe_image_size img"
    and f: "if ps_file_size s \<noteq> 0 then pe_headers_size img \<le> ps_file_offset s \<and>
        (\<exists>f. file_end s = Ok f \<and> unat f \<le> length (pe_encoded img)) else ps_file_offset s = 0"
    by (auto simp: validate_section_def Let_def not_less not_le split: if_splits)
  show ?thesis unfolding section_ok_def
    using c e f assms(4) aligned_to_page [OF assms(2,3) c(3)]
    by (auto simp: section_end_Ok_iff file_end_Ok_iff word_le_nat_alt unat_gt_0 unat_eq_0 split: if_splits)
qed

lemma check_overlaps_ok:
  assumes "check_overlaps img s e js = Ok ()" and "section_end s = Ok e" and "j \<in> set js" and "pe_section_at img j = Ok t"
  shows "sections_apart s t"
  using assms
proof (induction js)
  case (Cons k js)
  show ?case
  proof (cases "j = k")
    case True
    with Cons.prems obtain te where te: "section_end t = Ok te"
        "\<not> pe_overlaps (ps_virtual_address s) e (ps_virtual_address t) te"
      and f: "ps_file_size s \<noteq> 0 \<Longrightarrow> ps_file_size t \<noteq> 0 \<Longrightarrow> \<exists>lf rf. file_end s = Ok lf \<and> file_end t = Ok rf \<and>
          \<not> pe_overlaps (ps_file_offset s) lf (ps_file_offset t) rf"
      by (auto split: if_splits)
    have "sec_start s + sec_size s \<le> sec_start t \<or> sec_start t + sec_size t \<le> sec_start s"
      using te Cons.prems(2) by (auto simp: pe_overlaps_def section_end_Ok_iff word_less_nat_alt not_less)
    moreover have "sec_file s + sec_raw s \<le> sec_file t \<or> sec_file t + sec_raw t \<le> sec_file s"
      if "sec_raw s \<noteq> 0" "sec_raw t \<noteq> 0"
      using f that by (fastforce simp: pe_overlaps_def file_end_Ok_iff word_less_nat_alt not_less unat_gt_0)
    ultimately show ?thesis by (simp add: sections_apart_def)
  next
    case False
    have "check_overlaps img s e js = Ok ()" using Cons.prems(1) by (auto split: if_splits)
    then show ?thesis using Cons False by simp
  qed
qed simp

definition entry_in :: "pe_image \<Rightarrow> pe_section \<Rightarrow> bool" where
  "entry_in img s \<longleftrightarrow> ps_executable s \<and> sec_start s \<le> unat (pe_entry_rva img) \<and>
     unat (pe_entry_rva img) < sec_start s + sec_size s"

lemma check_sections_ok:
  assumes "check_sections img al fal is b = Ok b'" and "is_power_of_two al" and "4096 \<le> al"
  shows "(\<forall>i \<in> set is. \<exists>s. pe_section_at img i = Ok s \<and> section_ok img s \<and>
            (\<forall>j < i. \<forall>t. pe_section_at img j = Ok t \<longrightarrow> sections_apart s t)) \<and>
         (b' \<longrightarrow> b \<or> (\<exists>i \<in> set is. \<exists>s. pe_section_at img i = Ok s \<and> entry_in img s))"
  using assms(1)
proof (induction "is" arbitrary: b)
  case (Cons i "is")
  from Cons.prems obtain s e where s: "pe_section_at img i = Ok s"
      "validate_section s (length (pe_encoded img)) (pe_headers_size img) (pe_image_size img) al fal = Ok ()"
      "section_end s = Ok e" "check_overlaps img s e [0..<i] = Ok ()"
    and rest: "check_sections img al fal is (b \<or> ps_executable s \<and> pe_entry_rva img \<ge> ps_virtual_address s \<and>
            pe_entry_rva img < e) = Ok b'" by auto
  have "section_ok img s" using validate_section_ok [OF s(2) assms(2,3) pe_section_raw_le [OF s(1)]] .
  moreover have "sections_apart s t" if "j < i" "pe_section_at img j = Ok t" for j t
    using check_overlaps_ok [OF s(4,3), of j t] that by simp
  moreover have "entry_in img s" if "ps_executable s" "pe_entry_rva img \<ge> ps_virtual_address s" "pe_entry_rva img < e"
    using that s(3) by (simp add: entry_in_def section_end_Ok_iff word_less_nat_alt word_le_nat_alt)
  ultimately show ?case using Cons.IH [OF rest] s(1) by (auto 4 3)
qed simp

lemma parse_structure:
  assumes "parse_with_limit encoded m = Ok img"
  shows "\<exists>al fal. check_sections img al fal [0..<pe_section_count img] False = Ok True \<and>
     is_power_of_two al \<and> 4096 \<le> al \<and>
     pe_encoded img = encoded \<and> pe_headers_size img \<noteq> 0 \<and> unat (pe_headers_size img) \<le> length encoded \<and>
     pe_headers_size img \<le> pe_image_size img \<and> pe_image_size img \<le> m \<and> m \<le> MAX_PE_IMAGE_BYTES \<and>
     length encoded \<le> unat m \<and> pe_image_size img mod al = 0 \<and> pe_image_base img mod 65536 = 0 \<and>
     checked_add (pe_image_base img) (ucast (pe_image_size img)) \<noteq> None \<and>
     pe_section_count img \<noteq> 0 \<and> pe_section_count img \<le> MAX_PE_SECTIONS \<and> validate_relocations img = Ok ()"
proof -
  have ci: "check_image i al fal = Ok img \<longleftrightarrow> img = i \<and> check_sections i al fal [0..<pe_section_count i] False = Ok True \<and>
      validate_relocations i = Ok ()" for i al fal
    by (auto simp: check_image_def split: if_splits)
  show ?thesis using assms
    unfolding parse_with_limit_def Let_def if_err_Ok_iff and_then_Ok_iff case_prod_beta de_Morgan_disj not_less not_le not_not ci
    by (elim conjE exE, hypsubst, intro exI conjI; (assumption | simp only: pe_image.simps not_False_eq_True))
qed

lemma parse_pe_ok:
  assumes "parse_with_limit encoded m = Ok img"
  shows "pe_ok img" "pe_encoded img = encoded" "pe_image_size img \<le> m" "length encoded \<le> unat m"
proof -
  obtain al fal where c: "check_sections img al fal [0..<pe_section_count img] False = Ok True"
      "is_power_of_two al" "4096 \<le> al" "pe_encoded img = encoded" "pe_headers_size img \<noteq> 0"
      "unat (pe_headers_size img) \<le> length encoded" "pe_headers_size img \<le> pe_image_size img"
      "pe_image_size img \<le> m" "m \<le> MAX_PE_IMAGE_BYTES" "length encoded \<le> unat m"
      "pe_image_size img mod al = 0" "pe_image_base img mod 65536 = 0"
      "checked_add (pe_image_base img) (ucast (pe_image_size img)) \<noteq> None"
      "pe_section_count img \<noteq> 0" "pe_section_count img \<le> MAX_PE_SECTIONS" "validate_relocations img = Ok ()"
    using parse_structure [OF assms] by (elim exE conjE) (rule that)
  show "pe_encoded img = encoded" "pe_image_size img \<le> m" "length encoded \<le> unat m" by fact+
  have sz: "unat (pe_image_size img) \<le> 2 ^ 29"
    using c(8,9) by (simp add: word_le_nat_alt MAX_PE_IMAGE_BYTES_def)
  have fit: "unat (pe_image_base img) + unat (pe_image_size img) < 2 ^ 64"
    using c(13) checked_add_None_iff [of "pe_image_base img" "ucast (pe_image_size img)"]
    by (simp add: unat_ucast_u32 not_le)
  note secs = check_sections_ok [OF c(1-3)]
  have sec: "\<exists>s. pe_section_at img i = Ok s \<and> section_ok img s \<and>
      (\<forall>j < i. \<forall>t. pe_section_at img j = Ok t \<longrightarrow> sections_apart s t)" if "i < pe_section_count img" for i
    using conjunct1 [OF secs] that by simp
  show "pe_ok img" unfolding pe_ok_def
  proof (intro conjI)
    show "\<forall>i < pe_section_count img. \<exists>s. pe_section_at img i = Ok s \<and> section_ok img s" using sec by blast
    show "\<forall>i < pe_section_count img. \<forall>j < i. \<forall>s t. pe_section_at img i = Ok s \<longrightarrow> pe_section_at img j = Ok t \<longrightarrow> sections_apart s t"
      using sec by (metis result.inject(1))
    show "\<exists>i < pe_section_count img. \<exists>s. pe_section_at img i = Ok s \<and> ps_executable s \<and>
        sec_start s \<le> unat (pe_entry_rva img) \<and> unat (pe_entry_rva img) < sec_start s + sec_size s"
      using conjunct2 [OF secs] by (auto simp: entry_in_def)
    show "0 < unat (pe_headers_size img)" using c(5) by (simp add: unat_gt_0)
    show "unat (pe_image_size img) mod 4096 = 0" using aligned_to_page [OF c(2,3,11)] .
  qed (use c sz fit in \<open>simp_all add: word_le_nat_alt MAX_PE_SECTIONS_def\<close>)
qed

section \<open>Load regions\<close>

lemma page_up_le: "n \<le> m \<Longrightarrow> m mod 4096 = 0 \<Longrightarrow> page_up n \<le> m"
proof -
  assume "n \<le> m" "m mod 4096 = 0"
  then obtain k where k: "m = k * 4096" by (metis dvd_def mod_0_imp_dvd mult.commute)
  have "(n + 4095) div 4096 \<le> (k * 4096 + 4095) div 4096" using \<open>n \<le> m\<close> k by (intro div_le_mono) simp
  then show ?thesis using k by (simp add: page_up_def)
qed

lemma le_page_up: "n \<le> page_up n"
  unfolding page_up_def using div_mult_mod_eq [of "n + 4095" 4096] mod_less_divisor [of 4096 "n + 4095"] by linarith

lemma pages_for_ok:
  assumes "0 < unat n" and "unat n \<le> 2 ^ 29"
  shows "\<exists>p. pages_for n = Ok p \<and> unat p * 4096 = page_up (unat n)"
proof -
  have "checked_add n 4095 = Some (n + 4095)" and u: "unat (n + 4095) = unat n + 4095"
    using assms(2) by (simp_all add: checked_add_def unat_word_ariths)
  moreover have "unat ((n + 4095) div 4096) = (unat n + 4095) div 4096" by (simp add: unat_div u)
  moreover have "0 < (unat n + 4095) div 4096" using assms(1) by (simp add: div_greater_zero_iff)
  ultimately have "pages_for n = Ok ((n + 4095) div 4096)" by (auto simp: pages_for_def word_unat_eq_iff)
  then show ?thesis by (intro exI [of _ "(n + 4095) div 4096"]) (simp add: page_up_def unat_div u)
qed

text \<open>The bytes of the image that a region stands for.\<close>

definition region_bytes :: "pe_load_region \<Rightarrow> nat" where
  "region_bytes r = unat (lr_pages r) * 4096"

definition region_base :: "pe_load_region \<Rightarrow> nat" where
  "region_base r = unat (lr_virtual_address r)"

lemma pe_ok_section:
  assumes "pe_ok img" and "i < pe_section_count img"
  obtains s where "pe_section_at img i = Ok s" "section_ok img s"
  using assms by (auto simp: pe_ok_def)

lemma pe_ok_apart:
  assumes "pe_ok img" and "i \<noteq> j" and "pe_section_at img i = Ok s" and "pe_section_at img j = Ok t"
  shows "sections_apart s t"
proof -
  have lt: "i < pe_section_count img" "j < pe_section_count img"
    using assms(3,4) by (auto simp: pe_section_at_def split: if_splits)
  have sym: "sections_apart t s \<Longrightarrow> sections_apart s t" by (auto simp: sections_apart_def)
  show ?thesis using assms lt sym unfolding pe_ok_def by (metis linorder_neqE_nat)
qed

text \<open>
  A region of the plan: region zero is the header, the others mirror the sections; all are whole
  pages inside the image, none is writable and executable.
\<close>

lemma load_region_ok:
  assumes ok: "pe_ok img" and i: "i < load_region_count img"
  shows "\<exists>r. load_region img i = Ok r \<and> lr_readable r \<and> \<not> (lr_writable r \<and> lr_executable r) \<and>
     region_base r mod 4096 = 0 \<and> 0 < lr_pages r \<and>
     region_base r + region_bytes r \<le> unat (pe_image_size img) \<and>
     (if i = 0 then region_base r = 0 \<and> region_bytes r = page_up (unat (pe_headers_size img)) \<and>
          \<not> lr_writable r \<and> \<not> lr_executable r
      else \<exists>s. pe_section_at img (i - 1) = Ok s \<and> region_base r = sec_start s \<and> region_bytes r = page_up (sec_size s) \<and>
          lr_writable r = ps_writable s \<and> lr_executable r = ps_executable s)"
proof (cases "i = 0")
  case True
  have h: "0 < unat (pe_headers_size img)" "unat (pe_headers_size img) \<le> unat (pe_image_size img)"
      "unat (pe_image_size img) mod 4096 = 0" "unat (pe_image_size img) \<le> 2 ^ 29" using ok by (auto simp: pe_ok_def)
  then obtain p where p: "pages_for (pe_headers_size img) = Ok p" "unat p * 4096 = page_up (unat (pe_headers_size img))"
    using pages_for_ok [of "pe_headers_size img"] by auto
  have "0 < p" using p(2) h(1) le_page_up [of "unat (pe_headers_size img)"] by (cases "p = 0") (auto simp: word_neq_0_conv)
  then show ?thesis using True p h page_up_le [OF h(2,3)]
    by (simp add: load_region_def region_base_def region_bytes_def)
next
  case False
  then have "i - 1 < pe_section_count img" using i by (simp add: load_region_count_def)
  then obtain s where s: "pe_section_at img (i - 1) = Ok s" "section_ok img s" using pe_ok_section [OF ok] by blast
  have b: "0 < sec_size s" "sec_start s + sec_size s \<le> unat (pe_image_size img)" "sec_start s mod 4096 = 0"
      "unat (pe_image_size img) mod 4096 = 0" "unat (pe_image_size img) \<le> 2 ^ 29"
      "ps_readable s" "\<not> (ps_writable s \<and> ps_executable s)"
    using s(2) ok by (auto simp: section_ok_def pe_ok_def)
  then obtain p where p: "pages_for (ps_virtual_size s) = Ok p" "unat p * 4096 = page_up (sec_size s)"
    using pages_for_ok [of "ps_virtual_size s"] by auto
  have "0 < p" using p(2) b(1) le_page_up [of "sec_size s"] by (cases "p = 0") (auto simp: word_neq_0_conv)
  moreover have "page_up (sec_size s) \<le> unat (pe_image_size img) - sec_start s"
    using b by (intro page_up_le) (auto simp: mod_eq_0_iff_dvd intro: dvd_diff_nat)
  ultimately show ?thesis using False p s b
    by (auto simp: load_region_def region_base_def region_bytes_def)
qed

lemma load_regions_apart:
  assumes ok: "pe_ok img" and ij: "i < j" "load_region img i = Ok r" "load_region img j = Ok q" "j < load_region_count img"
  shows "region_base r + region_bytes r \<le> region_base q \<or> region_base q + region_bytes q \<le> region_base r"
proof -
  have j: "j \<noteq> 0" "j - 1 < pe_section_count img" using ij(1,4) by (auto simp: load_region_count_def)
  obtain t where t: "pe_section_at img (j - 1) = Ok t" "region_base q = sec_start t" "region_bytes q = page_up (sec_size t)"
    using load_region_ok [OF ok ij(4)] ij(3) j by auto
  have ok_t: "section_ok img t" using pe_ok_section [OF ok j(2)] t(1) by (metis result.inject(1))
  show ?thesis
  proof (cases "i = 0")
    case True
    then have "region_base r = 0" "region_bytes r = page_up (unat (pe_headers_size img))"
      using load_region_ok [OF ok, of i] ij by (auto simp: load_region_count_def)
    then show ?thesis using page_up_le [of "unat (pe_headers_size img)" "sec_start t"] ok_t t by (auto simp: section_ok_def)
  next
    case False
    then have i: "i - 1 < pe_section_count img" "i - 1 \<noteq> j - 1" using ij(1) j by auto
    obtain s where s: "pe_section_at img (i - 1) = Ok s" "region_base r = sec_start s" "region_bytes r = page_up (sec_size s)"
      using load_region_ok [OF ok, of i] ij False by (auto simp: load_region_count_def)
    have ok_s: "section_ok img s" using pe_ok_section [OF ok i(1)] s(1) by (metis result.inject(1))
    have up: "page_up (sec_size a) \<le> sec_start b - sec_start a"
      if "section_ok img a" "section_ok img b" "sec_start a + sec_size a \<le> sec_start b" for a b
      using that by (intro page_up_le) (auto simp: section_ok_def mod_eq_0_iff_dvd intro: dvd_diff_nat)
    have "sections_apart s t" using pe_ok_apart [OF ok i(2) s(1) t(1)] .
    then consider "sec_start s + sec_size s \<le> sec_start t" | "sec_start t + sec_size t \<le> sec_start s"
      by (auto simp: sections_apart_def)
    then show ?thesis
    proof cases
      case 1
      then show ?thesis using up [OF ok_s ok_t 1] s t by auto
    next
      case 2
      then show ?thesis using up [OF ok_t ok_s 2] s t by auto
    qed
  qed
qed

end
