(* ===== verification/Pe_Loader.thy ===== *)
theory Pe_Loader
  imports Pe_Image
begin

text \<open>
  What the loader of \<open>pe.rs\<close> writes: the copied sections, the relocation table read as a list of
  slots, the moved image, and the properties of the parser, the mapping plan and the materialised
  image.
\<close>

section \<open>Copying sections\<close>

lemma length_write_at: "at + length src \<le> length bs \<Longrightarrow> length (write_at at src bs) = length bs"
  by (simp add: write_at_def)

lemma nth_write_at:
  assumes "at + length src \<le> length bs" and "i < length bs"
  shows "write_at at src bs ! i = (if at \<le> i \<and> i < at + length src then src ! (i - at) else bs ! i)"
  using assms by (auto simp: write_at_def nth_append min_def)

lemma get_range_iff: "get_range bs a b = Some r \<longleftrightarrow> a \<le> b \<and> b \<le> length bs \<and> r = sub_slice bs a b"
  by (auto simp: get_range_def)

lemma nth_sub_slice: "i < b - a \<Longrightarrow> b \<le> length xs \<Longrightarrow> sub_slice xs a b ! i = xs ! (a + i)"
  by (simp add: sub_slice_def)

lemma section_data_ok:
  assumes "section_ok img s"
  shows "section_data img s = Ok (sub_slice (pe_encoded img) (sec_file s) (sec_file s + sec_raw s))"
    "length (sub_slice (pe_encoded img) (sec_file s) (sec_file s + sec_raw s)) = sec_raw s"
  using assms by (auto simp: section_data_def get_range_iff section_ok_def length_sub_slice)

text \<open>A position of the image that a section fills from the file.\<close>

definition in_raw :: "pe_section \<Rightarrow> nat \<Rightarrow> bool" where
  "in_raw s i \<longleftrightarrow> sec_start s \<le> i \<and> i < sec_start s + sec_raw s"

lemma in_raw_unique:
  assumes "pe_ok img" and "pe_section_at img j = Ok s" and "pe_section_at img k = Ok t" and "in_raw s i" and "in_raw t i"
  shows "s = t"
proof (cases "j = k")
  case False
  have "sec_raw s \<le> sec_size s" "sec_raw t \<le> sec_size t" using assms(2,3) pe_section_raw_le by blast+
  moreover have "sections_apart s t" using pe_ok_apart [OF assms(1) False assms(2,3)] .
  ultimately show ?thesis using assms(4,5) by (auto simp: in_raw_def sections_apart_def)
qed (use assms in auto)

lemma copy_sections_ok:
  assumes ok: "pe_ok img" and len: "length d = unat (pe_image_size img)"
    and "\<forall>k \<in> set ks. k < pe_section_count img"
  shows "\<exists>d'. copy_sections img ks d = (Ok (), d') \<and> length d' = length d \<and>
     (\<forall>i < length d. \<forall>k \<in> set ks. \<forall>s. pe_section_at img k = Ok s \<longrightarrow> in_raw s i \<longrightarrow>
        d' ! i = pe_encoded img ! (sec_file s + (i - sec_start s))) \<and>
     (\<forall>i < length d. (\<forall>k \<in> set ks. \<forall>s. pe_section_at img k = Ok s \<longrightarrow> \<not> in_raw s i) \<longrightarrow> d' ! i = d ! i)"
  using assms(2,3)
proof (induction ks arbitrary: d)
  case (Cons k ks)
  obtain s where s: "pe_section_at img k = Ok s" "section_ok img s" using pe_ok_section [OF ok, of k] Cons.prems(2) by auto
  let ?src = "sub_slice (pe_encoded img) (sec_file s) (sec_file s + sec_raw s)"
  let ?d = "write_at (sec_start s) ?src d"
  have src: "section_data img s = Ok ?src" "length ?src = sec_raw s" using section_data_ok [OF s(2)] by auto
  have fit: "sec_start s + length ?src \<le> length d" using s(2) Cons.prems(1) src(2) by (auto simp: section_ok_def)
  then have len: "length ?d = length d" by (rule length_write_at)
  have step: "copy_sections img (k # ks) d = copy_sections img ks ?d" using s(1) src fit by simp
  obtain d' where d': "copy_sections img ks ?d = (Ok (), d')" "length d' = length d"
    and hit: "\<forall>i < length d. \<forall>k \<in> set ks. \<forall>s. pe_section_at img k = Ok s \<longrightarrow> in_raw s i \<longrightarrow>
        d' ! i = pe_encoded img ! (sec_file s + (i - sec_start s))"
    and miss: "\<forall>i < length d. (\<forall>k \<in> set ks. \<forall>s. pe_section_at img k = Ok s \<longrightarrow> \<not> in_raw s i) \<longrightarrow> d' ! i = ?d ! i"
    using Cons.IH [of ?d] Cons.prems len by auto
  have here: "d' ! i = pe_encoded img ! (sec_file s + (i - sec_start s))" if i: "i < length d" "in_raw s i" for i
  proof (cases "\<exists>j \<in> set ks. \<exists>t. pe_section_at img j = Ok t \<and> in_raw t i")
    case True
    then obtain j t where t: "j \<in> set ks" "pe_section_at img j = Ok t" "in_raw t i" by blast
    then have "t = s" using in_raw_unique [OF ok t(2) s(1) t(3) i(2)] by simp
    then show ?thesis using hit t i by blast
  next
    case False
    then have "d' ! i = ?d ! i" using miss i(1) by blast
    moreover have "?d ! i = ?src ! (i - sec_start s)" using i src(2) by (simp add: nth_write_at [OF fit i(1)] in_raw_def)
    moreover have "?src ! (i - sec_start s) = pe_encoded img ! (sec_file s + (i - sec_start s))"
      using i(2) s(2) by (intro nth_sub_slice) (auto simp: in_raw_def section_ok_def)
    ultimately show ?thesis by simp
  qed
  have out: "?d ! i = d ! i" if "i < length d" "\<not> in_raw s i" for i
    using that src(2) by (auto simp: nth_write_at [OF fit that(1)] in_raw_def)
  show ?case
  proof (intro exI [of _ d'] conjI)
    show "copy_sections img (k # ks) d = (Ok (), d')" using step d' by simp
    show "\<forall>i < length d. \<forall>j \<in> set (k # ks). \<forall>t. pe_section_at img j = Ok t \<longrightarrow> in_raw t i \<longrightarrow>
        d' ! i = pe_encoded img ! (sec_file t + (i - sec_start t))" using hit here s(1) by auto
    show "\<forall>i < length d. (\<forall>j \<in> set (k # ks). \<forall>t. pe_section_at img j = Ok t \<longrightarrow> \<not> in_raw t i) \<longrightarrow> d' ! i = d ! i"
      using miss out s(1) by simp
  qed (use d' in simp)
qed simp

text \<open>
  The image at the preferred base: headers, the raw data of the sections, zeros elsewhere.
\<close>

definition image_byte :: "pe_image \<Rightarrow> nat \<Rightarrow> u8 \<Rightarrow> bool" where
  "image_byte img i b \<longleftrightarrow>
     (if i < unat (pe_headers_size img) then b = pe_encoded img ! i
      else if \<exists>k s. pe_section_at img k = Ok s \<and> in_raw s i
      then \<exists>k s. pe_section_at img k = Ok s \<and> in_raw s i \<and> b = pe_encoded img ! (sec_file s + (i - sec_start s))
      else b = 0)"

definition raw_image :: "pe_image \<Rightarrow> (unit, pe_error failure) result \<times> bytes" where
  "raw_image img = copy_sections img [0..<pe_section_count img]
     (write_at 0 (take (unat (pe_headers_size img)) (pe_encoded img)) (replicate (unat (pe_image_size img)) 0))"

lemma raw_image_ok:
  assumes ok: "pe_ok img"
  shows "\<exists>d. raw_image img = (Ok (), d) \<and> length d = unat (pe_image_size img) \<and>
     (\<forall>i < length d. image_byte img i (d ! i))"
proof -
  let ?h = "take (unat (pe_headers_size img)) (pe_encoded img)"
  let ?z = "replicate (unat (pe_image_size img)) 0 :: bytes"
  have h: "unat (pe_headers_size img) \<le> length (pe_encoded img)" "unat (pe_headers_size img) \<le> unat (pe_image_size img)"
    using ok by (auto simp: pe_ok_def)
  then have fit: "0 + length ?h \<le> length ?z" by simp
  let ?d0 = "write_at 0 ?h ?z"
  have len0: "length ?d0 = unat (pe_image_size img)" using length_write_at [OF fit] by simp
  obtain d where d: "raw_image img = (Ok (), d)" "length d = unat (pe_image_size img)"
    and hit: "\<forall>i < length d. \<forall>k < pe_section_count img. \<forall>s. pe_section_at img k = Ok s \<longrightarrow> in_raw s i \<longrightarrow>
        d ! i = pe_encoded img ! (sec_file s + (i - sec_start s))"
    and miss: "\<forall>i < length d. (\<forall>k < pe_section_count img. \<forall>s. pe_section_at img k = Ok s \<longrightarrow> \<not> in_raw s i) \<longrightarrow> d ! i = ?d0 ! i"
    using copy_sections_ok [OF ok len0, of "[0..<pe_section_count img]"] len0 by (auto simp: raw_image_def)
  have cnt: "k < pe_section_count img" if "pe_section_at img k = Ok s" for k s
    using that by (auto simp: pe_section_at_def split: if_splits)
  have hdr: "\<not> in_raw s i" if "pe_section_at img k = Ok s" "i < unat (pe_headers_size img)" for k s i
  proof -
    have "section_ok img s" using pe_ok_section [OF ok cnt [OF that(1)]] that(1) by (metis result.inject(1))
    then show ?thesis using that(2) by (auto simp: section_ok_def in_raw_def)
  qed
  have "image_byte img i (d ! i)" if i: "i < length d" for i
  proof (cases "\<exists>k s. pe_section_at img k = Ok s \<and> in_raw s i")
    case True
    then obtain k s where s: "pe_section_at img k = Ok s" "in_raw s i" by blast
    then have "d ! i = pe_encoded img ! (sec_file s + (i - sec_start s))" using hit i cnt by blast
    then show ?thesis using s hdr [OF s(1)] unfolding image_byte_def by auto
  next
    case False
    then have "d ! i = ?d0 ! i" using miss i by blast
    also have "\<dots> = (if i < unat (pe_headers_size img) then pe_encoded img ! i else 0)"
      using nth_write_at [OF fit, of i] i d(2) h by simp
    finally show ?thesis using False unfolding image_byte_def by (simp only: if_False) (simp split: if_splits)
  qed
  then show ?thesis using d by blast
qed

section \<open>Relocations\<close>

text \<open>
  The relocation table read as a list of targets and kinds, and a visitor run over such a list.
\<close>

fun entry_list :: "u32 \<Rightarrow> bytes \<Rightarrow> (u32 \<times> u16) list" where
  "entry_list page (a # b # rest) =
     (let encoded = from_le_bytes [a, b] :: u16 in
      (page + ucast (encoded AND 0x0fff), drop_bit 12 encoded) # entry_list page rest)"
| "entry_list page bs = []"

function relocation_list :: "bytes \<Rightarrow> (u32 \<times> u16) list" where
  "relocation_list bs =
     (let block_size = unat (from_le_bytes (sub_slice bs 4 8) :: u32) in
      if length bs < 8 \<or> block_size < 8 then []
      else entry_list (from_le_bytes (sub_slice bs 0 4)) (sub_slice bs 8 block_size) @
           relocation_list (drop block_size bs))"
  by pat_completeness auto
termination
  by (relation "measure length") auto

declare relocation_list.simps [simp del]

fun visit_all :: "(u32 \<Rightarrow> u16 \<Rightarrow> 's \<Rightarrow> (unit, 'e) result \<times> 's) \<Rightarrow> (u32 \<times> u16) list \<Rightarrow> 's \<Rightarrow> (unit, 'e) result \<times> 's" where
  "visit_all visit [] s = (Ok (), s)"
| "visit_all visit ((t, k) # rest) s =
     (case visit t k s of (Err e, s') \<Rightarrow> (Err e, s') | (Ok _, s') \<Rightarrow> visit_all visit rest s')"

definition target_ok :: "u32 \<Rightarrow> u32 \<times> u16 \<Rightarrow> bool" where
  "target_ok image_size e \<longleftrightarrow> snd e = 0 \<or> snd e = 10 \<and> unat (fst e) + 8 \<le> unat image_size"

lemma visit_all_append:
  "visit_all visit (xs @ ys) s =
     (case visit_all visit xs s of (Err e, s') \<Rightarrow> (Err e, s') | (Ok _, s') \<Rightarrow> visit_all visit ys s')"
  by (induction xs arbitrary: s) (auto split: prod.splits result.splits)

text \<open>Once the table is validated, walking it with any visitor is visiting its list.\<close>

lemma walk_entries_list:
  fixes visit :: "u32 \<Rightarrow> u16 \<Rightarrow> 's \<Rightarrow> (unit, pe_error failure) result \<times> 's"
  assumes "walk_entries accept_all sz page c bs () = (Ok c', u)"
  shows "walk_entries visit sz page c bs s =
       (case visit_all visit (entry_list page bs) s of (Err e, s') \<Rightarrow> (Err e, s') | (Ok _, s') \<Rightarrow> (Ok c', s'))"
    and "list_all (target_ok sz) (entry_list page bs)"
proof -
  have "(\<forall>s. walk_entries visit sz page c bs s =
       (case visit_all visit (entry_list page bs) s of (Err e, s') \<Rightarrow> (Err e, s') | (Ok _, s') \<Rightarrow> (Ok c', s'))) \<and>
       list_all (target_ok sz) (entry_list page bs)"
    using assms
  proof (induction page bs arbitrary: c rule: entry_list.induct)
    case (1 page a b rest)
    define en where "en = (from_le_bytes [a, b] :: u16)"
    let ?k = "drop_bit 12 en" and ?o = "ucast (en AND 0x0fff) :: u32"
    have cnt: "\<not> Suc c > MAX_PE_RELOCATIONS" and kind: "?k = 0 \<or> ?k = 10"
      using 1(2) unfolding walk_entries.simps(1) Let_def en_def [symmetric] by (auto split: if_splits)
    obtain t where t: "checked_add page ?o = Some t"
      using 1(2) cnt kind unfolding walk_entries.simps(1) Let_def en_def [symmetric] by (auto split: option.splits)
    have in_image: "\<not> (?k = 10 \<and> (case checked_add t 8 of None \<Rightarrow> True | Some e \<Rightarrow> e > sz))"
      using 1(2) cnt kind t unfolding walk_entries.simps(1) Let_def en_def [symmetric]
      by (auto simp del: drop_bit_eq_div split: if_splits)
    have rest: "walk_entries accept_all sz page (Suc c) rest () = (Ok c', u)"
      using 1(2) cnt kind t in_image unfolding walk_entries.simps(1) Let_def en_def [symmetric]
      by (auto simp: accept_all_def split: if_splits)
    have tt: "page + ?o = t" using checked_add_SomeD(1) [OF t] by simp
    have el: "entry_list page (a # b # rest) = (t, ?k) # entry_list page rest"
      by (simp add: tt [symmetric] en_def Let_def)
    have "target_ok sz (t, ?k)"
      using kind in_image by (auto simp: target_ok_def checked_add_Some_iff word_le_nat_alt not_less split: option.splits)
    moreover have "walk_entries visit sz page c (a # b # rest) s =
        (case visit t ?k s of (Err e, s') \<Rightarrow> (Err e, s') | (Ok _, s') \<Rightarrow> walk_entries visit sz page (Suc c) rest s')" for s
      unfolding walk_entries.simps(1) Let_def en_def [symmetric] using cnt kind t in_image by auto
    ultimately show ?case unfolding el using 1(1) [OF refl rest] by (auto split: prod.splits result.splits)
  qed (auto simp: accept_all_def)
  then show "walk_entries visit sz page c bs s =
       (case visit_all visit (entry_list page bs) s of (Err e, s') \<Rightarrow> (Err e, s') | (Ok _, s') \<Rightarrow> (Ok c', s'))"
    "list_all (target_ok sz) (entry_list page bs)" by blast+
qed

lemma walk_relocations_list:
  fixes visit :: "u32 \<Rightarrow> u16 \<Rightarrow> 's \<Rightarrow> (unit, pe_error failure) result \<times> 's"
  assumes "walk_relocations accept_all sz c bs () = (Ok (), u)"
  shows "walk_relocations visit sz c bs s = visit_all visit (relocation_list bs) s"
    and "list_all (target_ok sz) (relocation_list bs)"
proof -
  have "(\<forall>s. walk_relocations visit sz c bs s = visit_all visit (relocation_list bs) s) \<and>
      list_all (target_ok sz) (relocation_list bs)"
    using assms
  proof (induction bs arbitrary: c rule: relocation_list.induct)
    case (1 bs)
    show ?case
    proof (cases "bs = []")
      case True
      then show ?thesis by (simp add: walk_relocations.simps relocation_list.simps)
    next
      case False
      let ?page = "from_le_bytes (sub_slice bs 0 4) :: u32" and ?n = "unat (from_le_bytes (sub_slice bs 4 8) :: u32)"
      have len: "8 \<le> length bs" using 1(2) False by (auto simp: walk_relocations.simps [of _ _ _ bs] split: if_splits)
      then have rd: "pe_read_u32 bs 0 = Ok ?page" "pe_read_u32 bs 4 = Ok (from_le_bytes (sub_slice bs 4 8))"
        by (simp_all add: pe_read_u32_def get_range_def)
      note unf = walk_relocations.simps [of _ _ _ bs] rd result.case Let_def
      have blk: "\<not> (?n < 8 \<or> ?n > length bs \<or> ?n mod 2 \<noteq> 0 \<or> ?page mod 4096 \<noteq> 0)"
        using 1(2) False len unfolding unf by (auto split: if_splits)
      obtain c' where c': "walk_entries accept_all sz ?page c (sub_slice bs 8 ?n) () = (Ok c', ())"
        and rest: "walk_relocations accept_all sz c' (drop ?n bs) () = (Ok (), u)"
        using 1(2) False len blk unfolding unf by (auto split: prod.splits result.splits)
      note e = walk_entries_list [OF c']
      have IH: "\<forall>s. walk_relocations visit sz c' (drop ?n bs) s = visit_all visit (relocation_list (drop ?n bs)) s"
        and IHt: "list_all (target_ok sz) (relocation_list (drop ?n bs))"
        using 1(1) [OF refl _ rest] blk len by auto
      have "walk_relocations visit sz c bs s =
          (case visit_all visit (entry_list ?page (sub_slice bs 8 ?n)) s of
             (Err e, s') \<Rightarrow> (Err e, s') | (Ok _, s') \<Rightarrow> visit_all visit (relocation_list (drop ?n bs)) s')" for s
        unfolding unf e(1) using False len blk IH by (auto split: prod.splits result.splits)
      moreover have "relocation_list bs = entry_list ?page (sub_slice bs 8 ?n) @ relocation_list (drop ?n bs)"
        using len blk by (subst relocation_list.simps) (simp add: Let_def)
      ultimately show ?thesis using e(2) IHt by (simp add: visit_all_append)
    qed
  qed
  then show "walk_relocations visit sz c bs s = visit_all visit (relocation_list bs) s"
    "list_all (target_ok sz) (relocation_list bs)" by blast+
qed

text \<open>The 64-bit value at a position, and what moving the image makes of it.\<close>

definition slot_value :: "bytes \<Rightarrow> nat \<Rightarrow> u64" where
  "slot_value d t = from_le_bytes (sub_slice d t (t + 8))"

definition movable :: "pe_image \<Rightarrow> u64 \<Rightarrow> bool" where
  "movable img v \<longleftrightarrow> v = 0 \<or> pe_image_base img \<le> v \<and> v - pe_image_base img < ucast (pe_image_size img)"

definition moved :: "pe_image \<Rightarrow> u64 \<Rightarrow> u64 \<Rightarrow> u64" where
  "moved img load_base v = (if v = 0 then 0 else load_base + (v - pe_image_base img))"

primrec slots_apart :: "(u32 \<times> u16) list \<Rightarrow> bool" where
  "slots_apart [] = True"
| "slots_apart (x # xs) \<longleftrightarrow> slots_apart xs \<and>
     list_all (\<lambda>y. snd x \<noteq> 0 \<longrightarrow> snd y \<noteq> 0 \<longrightarrow>
       unat (fst x) + 8 \<le> unat (fst y) \<or> unat (fst y) + 8 \<le> unat (fst x)) xs"

definition in_slot :: "(u32 \<times> u16) list \<Rightarrow> nat \<Rightarrow> bool" where
  "in_slot ts i \<longleftrightarrow> list_ex (\<lambda>e. snd e \<noteq> 0 \<and> unat (fst e) \<le> i \<and> i < unat (fst e) + 8) ts"

abbreviation mover :: "pe_image \<Rightarrow> u64 \<Rightarrow> u32 \<Rightarrow> u16 \<Rightarrow> bytes \<Rightarrow> (unit, pe_error failure) result \<times> bytes" where
  "mover img load_base \<equiv> relocate_slot (pe_image_base img) load_base (pe_image_size img)"

lemma slot_value_cong:
  assumes "length d = length d'" and "t + 8 \<le> length d" and "\<forall>i. t \<le> i \<longrightarrow> i < t + 8 \<longrightarrow> d ! i = d' ! i"
  shows "slot_value d t = slot_value d' t"
proof -
  have "sub_slice d t (t + 8) = sub_slice d' t (t + 8)"
    using assms by (intro nth_equalityI) (auto simp: length_sub_slice nth_sub_slice)
  then show ?thesis by (simp add: slot_value_def)
qed

lemma slot_value_write:
  assumes "t + 8 \<le> length d"
  shows "slot_value (write_at t (to_le_bytes 8 v) d) t = v"
proof -
  have "sub_slice (write_at t (to_le_bytes 8 v) d) t (t + 8) = to_le_bytes 8 v"
    using assms by (simp add: sub_slice_def write_at_def)
  then show ?thesis by (simp add: slot_value_def)
qed

lemma mover_step:
  assumes fits: "unat load_base + unat (pe_image_size img) < 2 ^ 64" and len: "length d = unat (pe_image_size img)"
    and t: "target_ok (pe_image_size img) (t, k)" and r: "mover img load_base t k d = (r, d')"
  shows "length d' = length d" and "r \<noteq> Err Panic"
    and "\<forall>i < length d. \<not> (k \<noteq> 0 \<and> unat t \<le> i \<and> i < unat t + 8) \<longrightarrow> d' ! i = d ! i"
    and "r = Ok () \<longleftrightarrow> k = 0 \<or> movable img (slot_value d (unat t))"
    and "r = Ok () \<Longrightarrow> k \<noteq> 0 \<Longrightarrow> slot_value d' (unat t) = moved img load_base (slot_value d (unat t))"
proof -
  let ?v = "slot_value d (unat t)"
  have "length d' = length d \<and> r \<noteq> Err Panic \<and>
      (\<forall>i < length d. \<not> (k \<noteq> 0 \<and> unat t \<le> i \<and> i < unat t + 8) \<longrightarrow> d' ! i = d ! i) \<and>
      (r = Ok () \<longleftrightarrow> k = 0 \<or> movable img ?v) \<and>
      (r = Ok () \<longrightarrow> k \<noteq> 0 \<longrightarrow> slot_value d' (unat t) = moved img load_base ?v)"
  proof (cases "k = 0")
    case True
    then show ?thesis using r by (auto simp: relocate_slot_def)
  next
    case False
    then have in_d: "unat t + 8 \<le> length d" using t len by (simp add: target_ok_def)
    then have rng: "get_range d (unat t) (unat t + 8) = Some (sub_slice d (unat t) (unat t + 8))" by (simp add: get_range_def)
    have fitw: "unat t + length (to_le_bytes 8 w) \<le> length d" for w :: u64 using in_d by simp
    consider "?v = 0" | "?v \<noteq> 0" "movable img ?v" | "\<not> movable img ?v" by (auto simp: movable_def)
    then show ?thesis
    proof cases
      case 1
      then show ?thesis using r False rng by (auto simp: relocate_slot_def movable_def moved_def slot_value_def)
    next
      case 2
      have "unat (?v - pe_image_base img) < unat (pe_image_size img)"
        using 2 by (simp add: movable_def word_less_nat_alt unat_ucast_u32)
      then have "checked_add load_base (?v - pe_image_base img) = Some (load_base + (?v - pe_image_base img))"
        using fits by (simp add: checked_add_def)
      then have "r = Ok ()" "d' = write_at (unat t) (to_le_bytes 8 (load_base + (?v - pe_image_base img))) d"
        using r False rng 2 by (simp_all add: relocate_slot_def movable_def slot_value_def Let_def leD)
      then show ?thesis using 2 False fitw in_d
        by (auto simp: length_write_at nth_write_at slot_value_write moved_def)
    next
      case 3
      then have "r = Err (Error RelocationOverflow)" "d' = d"
        using r False rng by (auto simp: relocate_slot_def movable_def slot_value_def Let_def not_le split: if_splits)
      then show ?thesis using 3 False by simp
    qed
  qed
  then show "length d' = length d" "r \<noteq> Err Panic"
    "\<forall>i < length d. \<not> (k \<noteq> 0 \<and> unat t \<le> i \<and> i < unat t + 8) \<longrightarrow> d' ! i = d ! i"
    "r = Ok () \<longleftrightarrow> k = 0 \<or> movable img ?v"
    "r = Ok () \<Longrightarrow> k \<noteq> 0 \<Longrightarrow> slot_value d' (unat t) = moved img load_base ?v" by blast+
qed

lemma mover_all:
  assumes fits: "unat load_base + unat (pe_image_size img) < 2 ^ 64"
  shows "length d = unat (pe_image_size img) \<Longrightarrow> list_all (target_ok (pe_image_size img)) ts \<Longrightarrow>
     visit_all (mover img load_base) ts d = (r, d') \<Longrightarrow>
     length d' = length d \<and> r \<noteq> Err Panic \<and> (\<forall>i < length d. \<not> in_slot ts i \<longrightarrow> d' ! i = d ! i) \<and>
     (slots_apart ts \<longrightarrow> (r = Ok () \<longleftrightarrow> (\<forall>e \<in> set ts. snd e \<noteq> 0 \<longrightarrow> movable img (slot_value d (unat (fst e))))) \<and>
        (r = Ok () \<longrightarrow> (\<forall>e \<in> set ts. snd e \<noteq> 0 \<longrightarrow>
           slot_value d' (unat (fst e)) = moved img load_base (slot_value d (unat (fst e))))))"
proof (induction ts arbitrary: d)
  case Nil
  then show ?case by (auto simp: in_slot_def)
next
  case (Cons e ts)
  obtain t k where e: "e = (t, k)" by fastforce
  obtain r1 d1 where m: "mover img load_base t k d = (r1, d1)" by fastforce
  have t: "target_ok (pe_image_size img) (t, k)" and ts: "list_all (target_ok (pe_image_size img)) ts"
    using Cons.prems(2) e by simp_all
  note s = mover_step [OF fits Cons.prems(1) t m]
  have keep: "slot_value d1 (unat (fst f)) = slot_value d (unat (fst f))"
    if "slots_apart (e # ts)" "f \<in> set ts" "snd f \<noteq> 0" for f
  proof (cases "k = 0")
    case True
    then show ?thesis using m by (simp add: relocate_slot_def)
  next
    case False
    have "unat t + 8 \<le> unat (fst f) \<or> unat (fst f) + 8 \<le> unat t" using that False e by (auto simp: list_all_iff)
    moreover have "unat (fst f) + 8 \<le> length d" using ts that(2,3) Cons.prems(1) by (auto simp: list_all_iff target_ok_def)
    ultimately show ?thesis using s(1,3) by (intro slot_value_cong) auto
  qed
  show ?case
  proof (cases r1)
    case (Err x)
    then have "r = Err x" "d' = d1" using Cons.prems(3) m e by simp_all
    moreover have "d1 ! i = d ! i" if "i < length d" "\<not> in_slot (e # ts) i" for i
      using s(3) that e by (auto simp: in_slot_def)
    moreover have "\<not> movable img (slot_value d (unat t))" "k \<noteq> 0" using s(4) Err by auto
    ultimately show ?thesis using s(1,2) Err e by auto
  next
    case (Ok u)
    then have rest: "visit_all (mover img load_base) ts d1 = (r, d')" using Cons.prems(3) m e by simp
    have len1: "length d1 = unat (pe_image_size img)" using s(1) Cons.prems(1) by simp
    note IH = Cons.IH [OF len1 ts rest]
    have out: "d' ! i = d ! i" if "i < length d" "\<not> in_slot (e # ts) i" for i
    proof -
      have "\<not> in_slot ts i" "\<not> (k \<noteq> 0 \<and> unat t \<le> i \<and> i < unat t + 8)" using that(2) e by (auto simp: in_slot_def)
      then show ?thesis using IH s(1,3) that(1) by simp
    qed
    have head: "slot_value d' (unat t) = slot_value d1 (unat t)" if "slots_apart (e # ts)" "k \<noteq> 0"
    proof (rule slot_value_cong)
      show "unat t + 8 \<le> length d'" using t that(2) IH len1 by (simp add: target_ok_def)
      have "\<not> in_slot ts i" if "unat t \<le> i" "i < unat t + 8" for i
        using that \<open>slots_apart (e # ts)\<close> \<open>k \<noteq> 0\<close> e by (auto simp: in_slot_def list_ex_iff list_all_iff)
      then show "\<forall>i. unat t \<le> i \<longrightarrow> i < unat t + 8 \<longrightarrow> d' ! i = d1 ! i"
        using IH t that(2) len1 by (auto simp: target_ok_def)
    qed (use IH in simp)
    have ap: "slots_apart ts" if "slots_apart (e # ts)" using that by simp
    have okk: "k = 0 \<or> movable img (slot_value d (unat t))" using s(4) Ok by simp
    have "r = Ok () \<longleftrightarrow> (\<forall>f \<in> set (e # ts). snd f \<noteq> 0 \<longrightarrow> movable img (slot_value d (unat (fst f))))"
      if a: "slots_apart (e # ts)" using IH ap [OF a] keep [OF a] okk e by auto
    moreover have "slot_value d' (unat (fst f)) = moved img load_base (slot_value d (unat (fst f)))"
      if a: "slots_apart (e # ts)" "r = Ok ()" "f \<in> set (e # ts)" "snd f \<noteq> 0" for f
    proof (cases "f = e")
      case True
      then show ?thesis using head a s(5) Ok e by simp
    next
      case False
      then show ?thesis using IH ap a keep by auto
    qed
    ultimately show ?thesis using IH out s(1) by simp
  qed
qed

section \<open>Materialising at a base\<close>

lemma relocation_table_ok:
  assumes ok: "pe_ok img" and sz: "pe_relocation_size img \<noteq> 0"
  obtains bs where "rva_file_data img (pe_relocation_rva img) (pe_relocation_size img) = Ok bs"
    "walk_relocations accept_all (pe_image_size img) 0 bs () = (Ok (), ())"
proof -
  have "validate_relocations img = Ok ()" using ok by (simp add: pe_ok_def)
  then obtain bs where bs: "rva_file_data img (pe_relocation_rva img) (pe_relocation_size img) = Ok bs"
    and w: "failure_error (fst (walk_relocations accept_all (pe_image_size img) 0 bs ())) = Ok ()"
    using sz by (auto simp: validate_relocations_def split: if_splits)
  have "fst (walk_relocations accept_all (pe_image_size img) 0 bs ()) = Ok ()"
    using w by (auto simp: failure_error_def split: result.splits failure.splits)
  then have "walk_relocations accept_all (pe_image_size img) 0 bs () = (Ok (), ())"
    by (metis (full_types) old.unit.exhaust prod.collapse)
  then show thesis using that bs by blast
qed

text \<open>The relocation table of an image, as a list.\<close>

definition relocations_of :: "pe_image \<Rightarrow> (u32 \<times> u16) list" where
  "relocations_of img =
     (if pe_relocation_size img = 0 then []
      else case rva_file_data img (pe_relocation_rva img) (pe_relocation_size img) of
          Ok bs \<Rightarrow> relocation_list bs | Err _ \<Rightarrow> [])"

lemma apply_relocations_list:
  assumes "pe_ok img" and "pe_relocation_size img \<noteq> 0"
  shows "apply_relocations img load_base d = visit_all (mover img load_base) (relocations_of img) d"
    and "list_all (target_ok (pe_image_size img)) (relocations_of img)"
proof -
  obtain bs where bs: "rva_file_data img (pe_relocation_rva img) (pe_relocation_size img) = Ok bs"
    "walk_relocations accept_all (pe_image_size img) 0 bs () = (Ok (), ())" using relocation_table_ok [OF assms] .
  then show "apply_relocations img load_base d = visit_all (mover img load_base) (relocations_of img) d"
    "list_all (target_ok (pe_image_size img)) (relocations_of img)"
    using walk_relocations_list [OF bs(2)] assms(2) by (simp_all add: apply_relocations_def relocations_of_def)
qed

lemma pe_entry_inside:
  assumes "pe_ok img"
  shows "unat (pe_entry_rva img) < unat (pe_image_size img)"
proof -
  obtain i s where s: "i < pe_section_count img" "pe_section_at img i = Ok s"
      "unat (pe_entry_rva img) < sec_start s + sec_size s" using assms by (auto simp: pe_ok_def)
  moreover have "section_ok img s" using pe_ok_section [OF assms s(1)] s(2) by (metis result.inject(1))
  ultimately show ?thesis by (auto simp: section_ok_def)
qed

text \<open>All that \<open>materialize_at\<close> does once its arguments are accepted.\<close>

lemma materialize_at_ok:
  assumes ok: "pe_ok img" and len: "length dest = unat (pe_image_size img)"
    and lb: "load_base mod 4096 = 0" "unat load_base + unat (pe_image_size img) < 2 ^ 64"
      "load_base = pe_image_base img \<or> pe_relocation_size img \<noteq> 0"
    and raw: "raw_image img = (Ok (), d)" "length d = unat (pe_image_size img)"
    and r: "(if load_base = pe_image_base img then (Ok (), d) else visit_all (mover img load_base) (relocations_of img) d) = (r, d')"
  shows "materialize_at img load_base dest = (case r of Ok _ \<Rightarrow> Ok (load_base + ucast (pe_entry_rva img)) | Err e \<Rightarrow> Err e, d')"
proof -
  have c: "checked_add load_base (ucast (pe_image_size img)) \<noteq> None"
    using lb(2) by (simp add: checked_add_None_iff unat_ucast_u32)
  have e: "checked_add load_base (ucast (pe_entry_rva img)) = Some (load_base + ucast (pe_entry_rva img))"
    using pe_entry_inside [OF ok] lb(2) by (simp add: checked_add_def unat_ucast_u32)
  have h: "\<not> (unat (pe_headers_size img) > length (replicate (length dest) (0 :: u8)) \<or> unat (pe_headers_size img) > length (pe_encoded img))"
    using ok len by (auto simp: pe_ok_def)
  have cp: "copy_sections img [0..<pe_section_count img]
      (write_at 0 (take (unat (pe_headers_size img)) (pe_encoded img)) (replicate (length dest) 0)) = (Ok (), d)"
    using raw(1) len by (simp add: raw_image_def)
  have rel: "(if load_base \<noteq> pe_image_base img then apply_relocations img load_base d else (Ok (), d)) = (r, d')"
    using r lb(3) apply_relocations_list(1) [OF ok] by (auto split: if_splits)
  have ng: "\<not> (load_base mod 4096 \<noteq> 0 \<or> checked_add load_base (ucast (pe_image_size img)) = None)"
    "\<not> (load_base \<noteq> pe_image_base img \<and> pe_relocation_size img = 0)" using lb c by auto
  show ?thesis
    unfolding materialize_at_def Let_def
    by (simp only: len ng h if_False not_not simp_thms cp [unfolded len] rel prod.case result.case e [unfolded len])
      (use h len in \<open>simp add: e cp [unfolded len] rel not_less split: result.splits\<close>)
qed

lemma materialize_at_refused:
  assumes "materialize_at img load_base dest = (Ok e, d)"
  shows "length dest = unat (pe_image_size img)" "load_base mod 4096 = 0" "unat load_base + unat (pe_image_size img) < 2 ^ 64"
    "load_base = pe_image_base img \<or> pe_relocation_size img \<noteq> 0"
  using assms checked_add_None_iff [of load_base "ucast (pe_image_size img)"]
  by (auto simp: materialize_at_def unat_ucast_u32 not_le split: if_splits)

section \<open>A concrete image\<close>

text \<open>
  A small image in the layout of the code's own tests, written field by field: one executable
  section without file data and one data section that holds a pointer and the relocation table
  for it.
\<close>

definition patch :: "nat \<Rightarrow> bytes \<Rightarrow> bytes \<Rightarrow> bytes" where
  "patch at src bs = map (\<lambda>i. if at \<le> i \<and> i < at + length src then src ! (i - at) else bs ! i) [0..<length bs]"

fun patches :: "(nat \<times> bytes) list \<Rightarrow> bytes \<Rightarrow> bytes" where
  "patches [] bs = bs"
| "patches ((at, src) # ps) bs = patch at src (patches ps bs)"

lemma length_patch [simp]: "length (patch at src bs) = length bs"
  by (simp add: patch_def)

lemma length_patches [simp]: "length (patches ps bs) = length bs"
  by (induction ps bs rule: patches.induct) simp_all

lemma get_range_patch_other:
  "j \<le> at \<or> at + length src \<le> i \<Longrightarrow> get_range (patch at src bs) i j = get_range bs i j"
  by (auto simp: get_range_def patch_def intro!: nth_equalityI simp: length_sub_slice nth_sub_slice)

lemma get_range_patch_hit:
  "at \<le> i \<Longrightarrow> i \<le> j \<Longrightarrow> j \<le> at + length src \<Longrightarrow> j \<le> length bs \<Longrightarrow>
     get_range (patch at src bs) i j = Some (sub_slice src (i - at) (j - at))"
  by (auto simp: get_range_def patch_def intro!: nth_equalityI simp: length_sub_slice nth_sub_slice)

lemma get_range_patches_hit:
  assumes "at \<le> i" "i \<le> j" "j \<le> at + length src" "j \<le> length bs"
  shows "get_range (patches ((at, src) # ps) bs) i j = Some (sub_slice src (i - at) (j - at))"
  using assms by (simp add: get_range_patch_hit)

lemma get_range_patches_other:
  "j \<le> at \<or> at + length src \<le> i \<Longrightarrow> get_range (patches ((at, src) # ps) bs) i j = get_range (patches ps bs) i j"
  by (simp add: get_range_patch_other)

lemma get_range_patches_base:
  "i \<le> j \<Longrightarrow> j \<le> n \<Longrightarrow> get_range (patches [] (replicate n 0)) i j = Some (replicate (j - i) 0)"
  by (auto simp: get_range_def sub_slice_def)

definition demo_fields :: "(nat \<times> bytes) list" where
  "demo_fields =
     [(0, [0x4d, 0x5a]), (0x3c, [0x40, 0, 0, 0]), (0x40, [0x50, 0x45, 0, 0]), (0x44, [0x64, 0x86]),
      (0x46, [2, 0]), (0x54, [160, 0]), (0x56, [2, 0]),
      (0x58, [0x0b, 0x02]), (0x68, [0, 0x10, 0, 0]), (0x70, [0, 0, 0x40, 0, 0, 0, 0, 0]), (0x78, [0, 0x10, 0, 0]),
      (0x7c, [0, 2, 0, 0]), (0x90, [0, 0x30, 0, 0]), (0x94, [0, 2, 0, 0]), (0x9e, [0, 1]), (0xc4, [6, 0, 0, 0]),
      (0xf0, [8, 0x20, 0, 0]), (0xf4, [12, 0, 0, 0]),
      (0x100, [1, 0, 0, 0]), (0x104, [0, 0x10, 0, 0]), (0x11c, [0, 0, 0, 0x60]),
      (0x128, [0, 2, 0, 0]), (0x12c, [0, 0x20, 0, 0]), (0x130, [0, 2, 0, 0]), (0x134, [0, 2, 0, 0]), (0x144, [0, 0, 0, 0x40]),
      (0x200, [0x34, 0x12, 0x40, 0, 0, 0, 0, 0, 0, 0x20, 0, 0, 12, 0, 0, 0, 0, 0xa0, 0, 0])]"

definition demo_pe :: bytes where
  "demo_pe = patches demo_fields (replicate 1024 0)"

definition demo_image :: pe_image where
  "demo_image = \<lparr>pe_encoded = demo_pe, pe_image_base = 0x400000, pe_entry_rva = 0x1000, pe_image_size = 0x3000,
     pe_headers_size = 512, pe_section_table = 0xf8, pe_section_count = 2, pe_relocation_rva = 0x2008,
     pe_relocation_size = 12\<rparr>"

lemma length_demo_pe [simp]: "length demo_pe = 1024"
  by (simp add: demo_pe_def)

lemmas demo_read = demo_pe_def demo_fields_def get_range_patches_hit get_range_patches_other get_range_patches_base
  sub_slice_def pe_read_u16_def pe_read_u32_def pe_read_u64_def

lemma from_le_zeros: "from_le_bytes (replicate n 0) = 0"
  by (induction n) simp_all

lemma demo_fields_16:
  "pe_read_u16 demo_pe 0 = Ok DOS_MAGIC" "pe_read_u16 demo_pe 0x44 = Ok MACHINE_X86_64" "pe_read_u16 demo_pe 0x46 = Ok 2"
  "pe_read_u16 demo_pe 0x56 = Ok 2" "pe_read_u16 demo_pe 0x54 = Ok 160" "pe_read_u16 demo_pe 0x58 = Ok OPTIONAL_MAGIC_PE32_PLUS"
  "pe_read_u16 demo_pe 0x9e = Ok 0x100"
  by (simp_all add: demo_read DOS_MAGIC_def MACHINE_X86_64_def OPTIONAL_MAGIC_PE32_PLUS_def del: patches.simps)

lemma demo_fields_32:
  "pe_read_u32 demo_pe 0x3c = Ok 0x40" "pe_read_u32 demo_pe 0x40 = Ok PE_SIGNATURE" "pe_read_u32 demo_pe 0x68 = Ok 0x1000"
  "pe_read_u64 demo_pe 0x70 = Ok 0x400000" "pe_read_u32 demo_pe 0x78 = Ok 0x1000" "pe_read_u32 demo_pe 0x7c = Ok 0x200"
  "pe_read_u32 demo_pe 0x90 = Ok 0x3000" "pe_read_u32 demo_pe 0x94 = Ok 0x200" "pe_read_u32 demo_pe 0xc4 = Ok 6"
  "pe_read_u32 demo_pe 0xd0 = Ok 0" "pe_read_u32 demo_pe 0xd4 = Ok 0" "pe_read_u32 demo_pe 0xf0 = Ok 0x2008" "pe_read_u32 demo_pe 0xf4 = Ok 12"
  by (simp_all add: demo_read PE_SIGNATURE_def from_le_zeros del: patches.simps)

definition demo_text :: pe_section where
  "demo_text = \<lparr>ps_virtual_address = 0x1000, ps_virtual_size = 1, ps_file_offset = 0, ps_file_size = 0,
     ps_characteristics = 0x60000000\<rparr>"

definition demo_data :: pe_section where
  "demo_data = \<lparr>ps_virtual_address = 0x2000, ps_virtual_size = 0x200, ps_file_offset = 0x200, ps_file_size = 0x200,
     ps_characteristics = 0x40000000\<rparr>"

lemma demo_section_fields:
  "pe_read_u32 demo_pe 0x108 = Ok 0" "pe_read_u32 demo_pe 0x100 = Ok 1" "pe_read_u32 demo_pe 0x104 = Ok 0x1000"
  "pe_read_u32 demo_pe 0x10c = Ok 0" "pe_read_u32 demo_pe 0x11c = Ok 0x60000000"
  "pe_read_u32 demo_pe 0x130 = Ok 0x200" "pe_read_u32 demo_pe 0x128 = Ok 0x200" "pe_read_u32 demo_pe 0x12c = Ok 0x2000"
  "pe_read_u32 demo_pe 0x134 = Ok 0x200" "pe_read_u32 demo_pe 0x144 = Ok 0x40000000"
  by (simp_all add: demo_read from_le_zeros del: patches.simps)

lemma demo_sections:
  "pe_section_at demo_image 0 = Ok demo_text" "pe_section_at demo_image (Suc 0) = Ok demo_data"
  by (simp_all add: pe_section_at_def demo_image_def demo_section_fields demo_text_def demo_data_def)

lemma demo_section_simps [simp]:
  "ps_virtual_address demo_text = 0x1000" "ps_virtual_size demo_text = 1" "ps_file_offset demo_text = 0" "ps_file_size demo_text = 0"
  "ps_virtual_address demo_data = 0x2000" "ps_virtual_size demo_data = 0x200" "ps_file_offset demo_data = 0x200"
  "ps_file_size demo_data = 0x200"
  by (simp_all add: demo_text_def demo_data_def)

lemma demo_image_simps [simp]:
  "pe_encoded demo_image = demo_pe" "pe_image_base demo_image = 0x400000" "pe_entry_rva demo_image = 0x1000"
  "pe_image_size demo_image = 0x3000" "pe_headers_size demo_image = 512" "pe_section_table demo_image = 0xf8"
  "pe_section_count demo_image = 2" "pe_relocation_rva demo_image = 0x2008" "pe_relocation_size demo_image = 12"
  by (simp_all add: demo_image_def)

lemma demo_flags:
  "ps_readable demo_text" "\<not> ps_writable demo_text" "ps_executable demo_text"
  "ps_readable demo_data" "\<not> ps_writable demo_data" "\<not> ps_executable demo_data"
  by (simp_all add: demo_text_def demo_data_def ps_readable_def ps_writable_def ps_executable_def SECTION_READ_def
      SECTION_WRITE_def SECTION_EXECUTE_def)

lemma demo_powers: "is_power_of_two (0x1000 :: u32)" "is_power_of_two (0x200 :: u32)"
  by (simp_all add: is_power_of_two_def upt_rec [of _ "LENGTH(32)"] upt_rec [of _ 32])

lemma demo_ends:
  "section_end demo_text = Ok 0x1001" "section_end demo_data = Ok 0x2200" "file_end demo_data = Ok 0x400"
  by (simp_all add: section_end_Ok_iff file_end_Ok_iff demo_text_def demo_data_def)

lemma demo_relocation_table:
  "rva_file_data demo_image 0x2008 12 = Ok [0, 0x20, 0, 0, 12, 0, 0, 0, 0, 0xa0, 0, 0]"
proof -
  have r: "get_range demo_pe 0x208 0x214 = Some [0, 0x20, 0, 0, 12, 0, 0, 0, 0, 0xa0, 0, 0]"
    by (simp add: demo_read del: patches.simps)
  have c: "checked_add (0x2008 :: u32) 12 = Some 0x2014" "checked_add (0x1000 :: u32) 0 = Some 0x1000"
    "checked_add (0x2000 :: u32) 0x200 = Some 0x2200" "checked_add (0x200 :: u32) 8 = Some 0x208"
    by (simp_all add: checked_add_Some_iff)
  show ?thesis by (simp add: rva_file_data_def c upt_rec demo_sections r)
qed

lemma demo_relocations_valid:
  "walk_relocations accept_all 0x3000 0 [0, 0x20, 0, 0, 12, 0, 0, 0, 0, 0xa0, 0, 0] () = (Ok (), ())"
  by (simp add: walk_relocations.simps accept_all_def pe_read_u32_def get_range_def sub_slice_def MAX_PE_RELOCATIONS_def
      checked_add_code Let_def)

lemma demo_pe_parses: "parse_with_limit demo_pe 0x1000000 = Ok demo_image"
proof -
  let ?i = "\<lparr>pe_encoded = demo_pe, pe_image_base = 0x400000, pe_entry_rva = 0x1000, pe_image_size = 0x3000,
     pe_headers_size = 512, pe_section_table = 0xf8, pe_section_count = 2, pe_relocation_rva = 0x2008,
     pe_relocation_size = 12\<rparr>"
  have v: "validate_section demo_text 1024 0x200 0x3000 0x1000 0x200 = Ok ()"
    "validate_section demo_data 1024 0x200 0x3000 0x1000 0x200 = Ok ()"
    by (simp_all add: validate_section_def demo_ends demo_flags Let_def)
  have "check_sections demo_image 0x1000 0x200 [0..<2] False = Ok True"
    using v by (simp add: upt_rec demo_sections demo_ends demo_flags pe_overlaps_def)
  moreover have "validate_relocations demo_image = Ok ()"
    using demo_relocation_table by (simp add: validate_relocations_def failure_error_def demo_relocations_valid)
  ultimately have ci: "check_image ?i 0x1000 0x200 = Ok ?i"
    by (simp add: check_image_def flip: demo_image_def)
  have d: "pe_directory demo_pe 0x58 160 6 1 = Ok (0, 0)" "pe_directory demo_pe 0x58 160 6 5 = Ok (0x2008, 12)"
    unfolding pe_directory_def Let_def by (simp_all add: demo_fields_32)
  have a: "checked_add (0x400000 :: u64) 0x3000 = Some 0x403000" by (simp add: checked_add_Some_iff)
  have g: "get_range demo_pe 0xf8 0x148 \<noteq> None" by (simp add: get_range_def)
  show ?thesis
    by (simp add: parse_with_limit_def demo_fields_16 demo_fields_32 d(1) [unfolded One_nat_def] d(2) ci a g demo_powers MAX_PE_IMAGE_BYTES_def MAX_PE_SECTIONS_def
        COFF_EXECUTABLE_def DLL_NX_COMPAT_def demo_image_def Let_def)
qed

lemma aligned_64k: "(a :: u64) mod 65536 = 0 \<Longrightarrow> a mod 4096 = 0"
proof -
  assume "a mod 65536 = 0"
  then have "unat (a mod 65536) = 0" by simp
  then have "unat a mod 65536 = 0" by (simp add: unat_mod)
  then have "unat a mod 4096 = 0" using mod_mod_cancel [of 4096 65536 "unat a"] by simp
  then have "unat (a mod 4096) = 0" by (simp add: unat_mod)
  then show ?thesis by (simp add: unat_eq_0)
qed

lemma demo_relocations: "relocations_of demo_image = [(0x2000, 10), (0x2000, 0)]"
  by (simp add: relocations_of_def demo_relocation_table relocation_list.simps sub_slice_def Let_def)

section \<open>Properties\<close>

text \<open>
  Property C26.  The mapping plan of an accepted image: any two regions lie inside the image, are whole
  pages and do not overlap, none is writable and executable, the header region is read-only, and
  the entry point lies in an executable region.
\<close>

theorem pe_plan_isolated:
  assumes "parse_with_limit encoded m = Ok img" and "i < j" and "j < load_region_count img"
  shows "\<exists>r q. load_region img i = Ok r \<and> load_region img j = Ok q \<and>
     region_base r mod 4096 = 0 \<and> region_base r + region_bytes r \<le> unat (pe_image_size img) \<and>
     region_base q mod 4096 = 0 \<and> region_base q + region_bytes q \<le> unat (pe_image_size img) \<and>
     (region_base r + region_bytes r \<le> region_base q \<or> region_base q + region_bytes q \<le> region_base r) \<and>
     \<not> (lr_writable r \<and> lr_executable r) \<and> \<not> (lr_writable q \<and> lr_executable q) \<and>
     (i = 0 \<longrightarrow> \<not> lr_writable r \<and> \<not> lr_executable r) \<and>
     (\<exists>k e. load_region img k = Ok e \<and> k < load_region_count img \<and> lr_executable e \<and>
        region_base e \<le> unat (pe_entry_rva img) \<and> unat (pe_entry_rva img) < region_base e + region_bytes e)"
proof -
  note ok = parse_pe_ok(1) [OF assms(1)]
  have i: "i < load_region_count img" using assms by simp
  obtain n s where s: "n < pe_section_count img" "pe_section_at img n = Ok s" "ps_executable s"
      "sec_start s \<le> unat (pe_entry_rva img)" "unat (pe_entry_rva img) < sec_start s + sec_size s"
    using ok by (auto simp: pe_ok_def)
  have "Suc n < load_region_count img" using s(1) by (simp add: load_region_count_def)
  then have e: "\<exists>k e. load_region img k = Ok e \<and> k < load_region_count img \<and> lr_executable e \<and>
        region_base e \<le> unat (pe_entry_rva img) \<and> unat (pe_entry_rva img) < region_base e + region_bytes e"
    using load_region_ok [OF ok, of "Suc n"] s le_page_up [of "sec_size s"] by (intro exI [of _ "Suc n"]) auto
  obtain r where r: "load_region img i = Ok r" "region_base r mod 4096 = 0" "\<not> (lr_writable r \<and> lr_executable r)"
      "region_base r + region_bytes r \<le> unat (pe_image_size img)" "i = 0 \<longrightarrow> \<not> lr_writable r \<and> \<not> lr_executable r"
    using load_region_ok [OF ok i] by auto
  obtain q where q: "load_region img j = Ok q" "region_base q mod 4096 = 0" "\<not> (lr_writable q \<and> lr_executable q)"
      "region_base q + region_bytes q \<le> unat (pe_image_size img)"
    using load_region_ok [OF ok assms(3)] by auto
  show ?thesis using r q e load_regions_apart [OF ok assms(2) r(1) q(1) assms(3)]
    by - (rule exI [of _ r], rule exI [of _ q], intro conjI; assumption)
qed

theorem pe_plan_isolated_witness:
  "\<exists>r q. load_region demo_image 0 = Ok r \<and> load_region demo_image 1 = Ok q \<and>
     (region_base r + region_bytes r \<le> region_base q \<or> region_base q + region_bytes q \<le> region_base r)"
  using pe_plan_isolated [OF demo_pe_parses, of 0 1] by (auto simp: load_region_count_def)

text \<open>
  Property C27.  Materialising an accepted image at its preferred base succeeds, returns the entry
  address and yields exactly the headers, the file data of every section at its address and
  zeros elsewhere, whatever the buffer held; at no base and for no buffer does it panic.
\<close>

theorem pe_materialize_exact:
  assumes "parse_with_limit encoded m = Ok img"
  shows "(length dest = unat (pe_image_size img) \<longrightarrow>
      (\<exists>d. materialize img dest = (Ok (pe_image_base img + ucast (pe_entry_rva img)), d) \<and>
         length d = unat (pe_image_size img) \<and> (\<forall>i < length d. image_byte img i (d ! i)))) \<and>
     fst (materialize_at img load_base dest) \<noteq> Err Panic"
proof
  note ok = parse_pe_ok(1) [OF assms]
  obtain d where d: "raw_image img = (Ok (), d)" "length d = unat (pe_image_size img)" "\<forall>i < length d. image_byte img i (d ! i)"
    using raw_image_ok [OF ok] by blast
  have al: "pe_image_base img mod 4096 = 0" using ok by (simp add: pe_ok_def aligned_64k)
  show "length dest = unat (pe_image_size img) \<longrightarrow>
      (\<exists>d. materialize img dest = (Ok (pe_image_base img + ucast (pe_entry_rva img)), d) \<and>
         length d = unat (pe_image_size img) \<and> (\<forall>i < length d. image_byte img i (d ! i)))"
    using materialize_at_ok [OF ok _ al _ _ d(1,2), of dest "Ok ()" d] ok d by (auto simp: materialize_def pe_ok_def)
  show "fst (materialize_at img load_base dest) \<noteq> Err Panic"
  proof (cases "length dest = unat (pe_image_size img) \<and> load_base mod 4096 = 0 \<and>
      unat load_base + unat (pe_image_size img) < 2 ^ 64 \<and> (load_base = pe_image_base img \<or> pe_relocation_size img \<noteq> 0)")
    case True
    obtain r d' where r: "(if load_base = pe_image_base img then (Ok (), d)
        else visit_all (mover img load_base) (relocations_of img) d) = (r, d')" by fastforce
    have "r \<noteq> Err Panic"
    proof (cases "load_base = pe_image_base img")
      case False
      then show ?thesis using r True mover_all [of load_base img d "relocations_of img" r d'] d(2)
          apply_relocations_list(2) [OF ok] by auto
    qed (use r in auto)
    then show ?thesis using materialize_at_ok [OF ok _ _ _ _ d(1,2) r, of dest] True by (cases r) auto
  next
    case False
    then show ?thesis using checked_add_None_iff [of load_base "ucast (pe_image_size img)"]
      by (auto simp: materialize_at_def unat_ucast_u32 not_less)
  qed
qed

theorem pe_materialize_exact_witness:
  "\<exists>d. materialize demo_image (replicate 0x3000 7) = (Ok 0x401000, d) \<and> length d = 0x3000 \<and>
     (\<forall>i < length d. image_byte demo_image i (d ! i))"
  using pe_materialize_exact [OF demo_pe_parses, of "replicate 0x3000 7"] by simp

text \<open>
  Property C28.  Moving an accepted image whose relocation slots do not overlap: at every other
  page-aligned base that leaves room for the image the move succeeds exactly when each slot
  holds zero or an address inside the image; then each slot holds the same address relative to
  the new base, and in any case no byte outside the slots differs from the image at the
  preferred base.
\<close>

theorem pe_relocation_exact:
  assumes "parse_with_limit encoded m = Ok img" and "pe_relocation_size img \<noteq> 0" and "slots_apart (relocations_of img)"
    and "length dest = unat (pe_image_size img)" and "load_base mod 4096 = 0"
    and "unat load_base + unat (pe_image_size img) < 2 ^ 64" and "load_base \<noteq> pe_image_base img"
    and "materialize img dest = (Ok entry, d)" and "materialize_at img load_base dest = (r, d')"
  shows "(is_ok r \<longleftrightarrow> (\<forall>e \<in> set (relocations_of img). snd e \<noteq> 0 \<longrightarrow> movable img (slot_value d (unat (fst e))))) \<and>
     (is_ok r \<longrightarrow> r = Ok (load_base + ucast (pe_entry_rva img)) \<and>
        (\<forall>e \<in> set (relocations_of img). snd e \<noteq> 0 \<longrightarrow>
           slot_value d' (unat (fst e)) = moved img load_base (slot_value d (unat (fst e))))) \<and>
     (\<forall>i < length d. \<not> in_slot (relocations_of img) i \<longrightarrow> d' ! i = d ! i)"
proof -
  note ok = parse_pe_ok(1) [OF assms(1)]
  obtain d0 where d0: "raw_image img = (Ok (), d0)" "length d0 = unat (pe_image_size img)" using raw_image_ok [OF ok] by blast
  note pref = materialize_at_refused [OF assms(8) [unfolded materialize_def]]
  have "d = d0" using materialize_at_ok [OF ok pref(1-4) d0, of "Ok ()" d0] assms(8) by (simp add: materialize_def)
  obtain r' d1 where v: "visit_all (mover img load_base) (relocations_of img) d0 = (r', d1)" by fastforce
  have "d' = d1" "r = (case r' of Ok _ \<Rightarrow> Ok (load_base + ucast (pe_entry_rva img)) | Err e \<Rightarrow> Err e)"
    using materialize_at_ok [OF ok assms(4-6) _ d0, of r' d1] assms(2,7,9) v by simp_all
  moreover have "is_ok r \<longleftrightarrow> r' = Ok ()" using calculation by (auto split: result.splits)
  ultimately show ?thesis
    using mover_all [OF assms(6) d0(2) apply_relocations_list(2) [OF ok assms(2)] v] assms(3) \<open>d = d0\<close> by auto
qed

theorem pe_relocation_exact_witness:
  "\<exists>d r d'. materialize demo_image (replicate 0x3000 7) = (Ok 0x401000, d) \<and>
     materialize_at demo_image 0x500000 (replicate 0x3000 7) = (r, d') \<and>
     (is_ok r \<longleftrightarrow> movable demo_image (slot_value d 0x2000)) \<and>
     (is_ok r \<longrightarrow> r = Ok 0x501000 \<and> slot_value d' 0x2000 = moved demo_image 0x500000 (slot_value d 0x2000))"
proof -
  note ok = parse_pe_ok(1) [OF demo_pe_parses]
  obtain d where d: "raw_image demo_image = (Ok (), d)" "length d = unat (pe_image_size demo_image)"
    using raw_image_ok [OF ok] by blast
  have m: "materialize demo_image (replicate 0x3000 7) = (Ok 0x401000, d)"
    using materialize_at_ok [OF ok _ _ _ _ d, where dest = "replicate 0x3000 7" and load_base = "0x400000" and r = "Ok ()" and d' = d] by (simp add: materialize_def)
  obtain r d' where r: "materialize_at demo_image 0x500000 (replicate 0x3000 7) = (r, d')" by fastforce
  have a: "slots_apart (relocations_of demo_image)" by (simp add: demo_relocations)
  show ?thesis
    using pe_relocation_exact [OF demo_pe_parses _ a _ _ _ _ m r] m r by (auto simp: demo_relocations)
qed

end
