(* ===== verification/Sha3.thy ===== *)
theory Sha3
  imports Kernel_Prelude
begin

text \<open>
  The hash functions of the boot chain, after \<open>crates/mrml-crypto/src/sha3.rs\<close>: the permutation on
  25 lanes, the byte-wise sponge and the SHA-3 and SHAKE instances.  The reference is the
  definition of FIPS 202: the step mappings on lanes indexed by coordinates, the rotation offsets
  and round constants by their recurrences, and the sponge over padded blocks.
\<close>

section \<open>Definitions\<close>

type_synonym lanes = "u64 list"

definition ROUND_CONSTANTS :: "u64 list" where
  "ROUND_CONSTANTS =
     [0x0000000000000001, 0x0000000000008082, 0x800000000000808a, 0x8000000080008000,
      0x000000000000808b, 0x0000000080000001, 0x8000000080008081, 0x8000000000008009,
      0x000000000000008a, 0x0000000000000088, 0x0000000080008009, 0x000000008000000a,
      0x000000008000808b, 0x800000000000008b, 0x8000000000008089, 0x8000000000008003,
      0x8000000000008002, 0x8000000000000080, 0x000000000000800a, 0x800000008000000a,
      0x8000000080008081, 0x8000000000008080, 0x0000000080000001, 0x8000000080008008]"

definition ROTATIONS :: "nat list" where
  "ROTATIONS = [0, 1, 62, 28, 27, 36, 44, 6, 55, 20, 3, 10, 43, 25, 39, 41, 45, 15, 21, 8, 18, 2, 61, 56, 14]"

text \<open>The pairs \<open>(y, x)\<close> in the order of the nested loops.\<close>

definition lane_pairs :: "(nat \<times> nat) list" where
  "lane_pairs = concat (map (\<lambda>y. map (\<lambda>x. (y, x)) [0..<5]) [0..<5])"

definition column_parity :: "lanes \<Rightarrow> lanes" where
  "column_parity s = map (\<lambda>x. s ! x XOR s ! (x + 5) XOR s ! (x + 10) XOR s ! (x + 15) XOR s ! (x + 20)) [0..<5]"

definition column_delta :: "lanes \<Rightarrow> lanes" where
  "column_delta p = map (\<lambda>x. p ! ((x + 4) mod 5) XOR word_rotl 1 (p ! ((x + 1) mod 5))) [0..<5]"

definition add_delta :: "lanes \<Rightarrow> lanes \<Rightarrow> lanes" where
  "add_delta delta s = fold (\<lambda>(y, x) s. s[x + 5 * y := s ! (x + 5 * y) XOR delta ! x]) lane_pairs s"

definition rotate_lanes :: "lanes \<Rightarrow> lanes" where
  "rotate_lanes s = fold (\<lambda>(y, x) r. r[y + 5 * ((2 * x + 3 * y) mod 5) := word_rotl (ROTATIONS ! (x + 5 * y)) (s ! (x + 5 * y))])
     lane_pairs (replicate 25 0)"

definition mix_rows :: "lanes \<Rightarrow> lanes \<Rightarrow> lanes" where
  "mix_rows r s = fold (\<lambda>(y, x) s. s[x + 5 * y := r ! (x + 5 * y) XOR
     (NOT (r ! ((x + 1) mod 5 + 5 * y)) AND r ! ((x + 2) mod 5 + 5 * y))]) lane_pairs s"

definition keccak_round :: "u64 \<Rightarrow> lanes \<Rightarrow> lanes" where
  "keccak_round round_constant s =
     (let s = add_delta (column_delta (column_parity s)) s;
          s = mix_rows (rotate_lanes s) s
      in s[0 := s ! 0 XOR round_constant])"

definition permute :: "lanes \<Rightarrow> lanes" where
  "permute s = fold keccak_round ROUND_CONSTANTS s"

record sponge =
  sp_state :: lanes
  sp_position :: nat

definition sponge_new :: sponge where
  "sponge_new = \<lparr>sp_state = replicate 25 0, sp_position = 0\<rparr>"

definition xor_byte :: "nat \<Rightarrow> u8 \<Rightarrow> lanes \<Rightarrow> lanes" where
  "xor_byte pos byte s =
     s[pos div 8 := s ! (pos div 8) XOR push_bit (pos mod 8 * 8) (ucast byte)]"

definition sponge_byte :: "nat \<Rightarrow> u8 \<Rightarrow> sponge \<Rightarrow> sponge" where
  "sponge_byte rate byte sp =
     (let s = xor_byte (sp_position sp) byte (sp_state sp); pos = sp_position sp + 1 in
      if pos = rate then \<lparr>sp_state = permute s, sp_position = 0\<rparr>
      else \<lparr>sp_state = s, sp_position = pos\<rparr>)"

definition sponge_update :: "nat \<Rightarrow> bytes \<Rightarrow> sponge \<Rightarrow> sponge" where
  "sponge_update rate input sp = fold (sponge_byte rate) input sp"

text \<open>The output loop: the state is permuted again whenever a block has been read out.\<close>

fun squeeze :: "nat \<Rightarrow> nat \<Rightarrow> nat \<Rightarrow> lanes \<Rightarrow> bytes" where
  "squeeze rate 0 pos s = []"
| "squeeze rate (Suc n) pos s =
     (let (pos, s) = (if pos = rate then (0, permute s) else (pos, s)) in
      ucast (drop_bit (pos mod 8 * 8) (s ! (pos div 8))) # squeeze rate n (pos + 1) s)"

definition sponge_finalize :: "nat \<Rightarrow> u8 \<Rightarrow> nat \<Rightarrow> sponge \<Rightarrow> bytes" where
  "sponge_finalize rate domain output_length sp =
     (let s = xor_byte (sp_position sp) domain (sp_state sp);
          s = xor_byte (rate - 1) 0x80 s
      in squeeze rate output_length 0 (permute s))"

definition fixed_hash :: "nat \<Rightarrow> nat \<Rightarrow> bytes \<Rightarrow> bytes" where
  "fixed_hash rate sz input = sponge_finalize rate 0x06 sz (sponge_update rate input sponge_new)"

definition extendable_hash :: "nat \<Rightarrow> bytes \<Rightarrow> nat \<Rightarrow> bytes" where
  "extendable_hash rate input n = sponge_finalize rate 0x1f n (sponge_update rate input sponge_new)"

definition sha3_256 :: "bytes \<Rightarrow> bytes" where "sha3_256 = fixed_hash 136 32"
definition sha3_512 :: "bytes \<Rightarrow> bytes" where "sha3_512 = fixed_hash 72 64"
definition shake128 :: "bytes \<Rightarrow> nat \<Rightarrow> bytes" where "shake128 = extendable_hash 168"
definition shake256 :: "bytes \<Rightarrow> nat \<Rightarrow> bytes" where "shake256 = extendable_hash 136"

section \<open>The reference: FIPS 202\<close>

type_synonym state_array = "nat \<Rightarrow> nat \<Rightarrow> u64"

definition theta :: "state_array \<Rightarrow> state_array" where
  "theta A x y =
     (let C = (\<lambda>x. A x 0 XOR A x 1 XOR A x 2 XOR A x 3 XOR A x 4)
      in A x y XOR (C ((x + 4) mod 5) XOR word_rotl 1 (C ((x + 1) mod 5))))"

text \<open>The walk of algorithm 2: the lane visited at step \<open>t\<close>.\<close>

fun rho_lane :: "nat \<Rightarrow> nat \<times> nat" where
  "rho_lane 0 = (1, 0)"
| "rho_lane (Suc t) = (let (x, y) = rho_lane t in (y, (2 * x + 3 * y) mod 5))"

definition rho_offset :: "nat \<Rightarrow> nat \<Rightarrow> nat" where
  "rho_offset x y = (case find (\<lambda>t. rho_lane t = (x, y)) [0..<24] of None \<Rightarrow> 0 | Some t \<Rightarrow> (t + 1) * (t + 2) div 2 mod 64)"

definition rho :: "state_array \<Rightarrow> state_array" where
  "rho A x y = word_rotl (rho_offset x y) (A x y)"

definition pi_step :: "state_array \<Rightarrow> state_array" where
  "pi_step A x y = A ((x + 3 * y) mod 5) x"

definition chi :: "state_array \<Rightarrow> state_array" where
  "chi A x y = A x y XOR (NOT (A ((x + 1) mod 5) y) AND A ((x + 2) mod 5) y)"

text \<open>The shift register of algorithm 5 and the round constants of algorithm 6.\<close>

definition rc_step :: "bool list \<Rightarrow> bool list" where
  "rc_step r = (let r = False # r; b = r ! 8 in
     take 8 (r[0 := r ! 0 \<noteq> b, 4 := r ! 4 \<noteq> b, 5 := r ! 5 \<noteq> b, 6 := r ! 6 \<noteq> b]))"

definition rc_bit :: "nat \<Rightarrow> bool" where
  "rc_bit t = ((rc_step ^^ (t mod 255)) [True, False, False, False, False, False, False, False]) ! 0"

definition round_constant :: "nat \<Rightarrow> u64" where
  "round_constant i = foldr (\<lambda>j w. w OR (if rc_bit (j + 7 * i) then push_bit (2 ^ j - 1) 1 else 0)) [0..<7] 0"

definition iota :: "nat \<Rightarrow> state_array \<Rightarrow> state_array" where
  "iota i A x y = (if x = 0 \<and> y = 0 then A x y XOR round_constant i else A x y)"

definition rnd :: "nat \<Rightarrow> state_array \<Rightarrow> state_array" where
  "rnd i A = iota i (chi (pi_step (rho (theta A))))"

definition to_array :: "lanes \<Rightarrow> state_array" where
  "to_array s x y = s ! (x + 5 * y)"

definition of_array :: "state_array \<Rightarrow> lanes" where
  "of_array A = map (\<lambda>i. A (i mod 5) (i div 5)) [0..<25]"

definition keccak_f :: "lanes \<Rightarrow> lanes" where
  "keccak_f s = of_array (fold rnd [0..<24] (to_array s))"

section \<open>The permutation\<close>

lemma rotations_standard: "\<forall>x < 5. \<forall>y < 5. ROTATIONS ! (x + 5 * y) = rho_offset x y"
  by code_simp

text \<open>The output of the shift register, bit by bit.\<close>

fun rc_stream :: "nat \<Rightarrow> bool list \<Rightarrow> bool list" where
  "rc_stream 0 r = []"
| "rc_stream (Suc n) r = r ! 0 # rc_stream n (rc_step r)"

lemma nth_rc_stream: "t < n \<Longrightarrow> rc_stream n r ! t = ((rc_step ^^ t) r) ! 0"
proof (induction n arbitrary: t r)
  case (Suc n)
  then show ?case by (cases t) (simp_all add: funpow_swap1)
qed simp

abbreviation rc_init :: "bool list" where
  "rc_init \<equiv> [True, False, False, False, False, False, False, False]"

definition constant_of :: "bool list \<Rightarrow> nat \<Rightarrow> u64" where
  "constant_of bits i = foldr (\<lambda>j w. w OR (if bits ! (j + 7 * i) then push_bit (2 ^ j - 1) 1 else 0)) [0..<7] 0"

lemma round_constant_stream: "i < 24 \<Longrightarrow> round_constant i = constant_of (rc_stream 168 rc_init) i"
proof -
  assume i: "i < 24"
  have "rc_bit (j + 7 * i) = rc_stream 168 rc_init ! (j + 7 * i)" if "j < 7" for j
    using nth_rc_stream [of "j + 7 * i" 168 rc_init] i that by (simp add: rc_bit_def)
  then show ?thesis unfolding round_constant_def constant_of_def by (intro foldr_cong) simp_all
qed

lemma rc_stream_standard: "rc_stream 168 rc_init = [True, False, False, False, False, False, False, False, True, False, True, True, False, False, False, True, True, True, True, False, True, False, False, False, False, True, True, True, True, True, True, True, True, False, False, True, False, False, False, False, True, False, True, False, False, True, True, True, True, True, False, True, False, True, False, True, False, True, True, True, False, False, False, False, False, True, True, False, False, False, True, False, True, False, True, True, False, False, True, True, False, False, True, False, True, True, True, True, True, True, False, True, True, True, True, False, False, True, True, False, True, True, True, False, True, True, True, False, False, True, False, True, False, True, False, False, True, False, True, False, False, False, True, False, False, True, False, True, True, False, True, False, False, False, True, True, False, False, True, True, True, False, False, True, True, True, True, False, False, False, True, True, False, True, True, False, False, False, False, True, False, False, False, True, False, True, True, True]"
  by code_simp

lemma constants_standard: "ROUND_CONSTANTS = map round_constant [0..<24]"
proof -
  have "ROUND_CONSTANTS = map (constant_of (rc_stream 168 rc_init)) [0..<24]"
    unfolding rc_stream_standard by code_simp
  also have "\<dots> = map round_constant [0..<24]" using round_constant_stream by (intro map_cong) simp_all
  finally show ?thesis .
qed

lemma fold_updates:
  assumes "distinct (map idx ps)" and "\<forall>p \<in> set ps. idx p < length s"
  shows "length (fold (\<lambda>p s. s[idx p := h p (s ! idx p)]) ps s) = length s"
    and "q \<in> set ps \<Longrightarrow> fold (\<lambda>p s. s[idx p := h p (s ! idx p)]) ps s ! idx q = h q (s ! idx q)"
    and "k \<notin> idx ` set ps \<Longrightarrow> fold (\<lambda>p s. s[idx p := h p (s ! idx p)]) ps s ! k = s ! k"
proof -
  let ?F = "\<lambda>ps s. fold (\<lambda>p s. s[idx p := h p (s ! idx p)]) ps s"
  have "length (?F ps s) = length s \<and> (\<forall>q \<in> set ps. ?F ps s ! idx q = h q (s ! idx q)) \<and>
      (\<forall>k. k \<notin> idx ` set ps \<longrightarrow> ?F ps s ! k = s ! k)"
    using assms
  proof (induction ps arbitrary: s)
    case (Cons p ps)
    let ?s = "s[idx p := h p (s ! idx p)]"
    have IH: "length (?F ps ?s) = length ?s" "\<forall>q \<in> set ps. ?F ps ?s ! idx q = h q (?s ! idx q)"
        "\<forall>k. k \<notin> idx ` set ps \<longrightarrow> ?F ps ?s ! k = ?s ! k"
      using Cons.IH [of ?s] Cons.prems by simp_all
    have "?F ps ?s ! idx q = h q (s ! idx q)" if "q \<in> set (p # ps)" for q
    proof (cases "idx q = idx p")
      case True
      then have "idx q \<notin> idx ` set ps" using Cons.prems(1) by simp
      then have "q = p" using that by auto
      then show ?thesis using IH(3) Cons.prems by simp
    next
      case False
      then show ?thesis using IH(2) that by auto
    qed
    then show ?case using IH by auto
  qed simp
  then show "length (?F ps s) = length s" "q \<in> set ps \<Longrightarrow> ?F ps s ! idx q = h q (s ! idx q)"
    "k \<notin> idx ` set ps \<Longrightarrow> ?F ps s ! k = s ! k" by blast+
qed

lemma lane_pairs_set: "(y, x) \<in> set lane_pairs \<longleftrightarrow> x < 5 \<and> y < 5"
  by (auto simp: lane_pairs_def image_iff)

lemma lane_indices:
  "distinct (map (\<lambda>(y, x). x + 5 * y) lane_pairs)" "\<forall>(y, x) \<in> set lane_pairs. x + 5 * y < 25"
  "distinct (map (\<lambda>(y, x). y + 5 * ((2 * x + 3 * y) mod 5)) lane_pairs)"
  "\<forall>(y, x) \<in> set lane_pairs. y + 5 * ((2 * x + 3 * y) mod 5) < 25"
  by code_simp+

lemma fold_lanes:
  assumes "length s = 25" and "x < 5" and "y < 5"
  shows "fold (\<lambda>(y, x) s. s[x + 5 * y := h y x (s ! (x + 5 * y))]) lane_pairs s ! (x + 5 * y) = h y x (s ! (x + 5 * y))"
    and "length (fold (\<lambda>(y, x) s. s[x + 5 * y := h y x (s ! (x + 5 * y))]) lane_pairs s) = 25"
proof -
  have eq: "(\<lambda>(y, x) s. s[x + 5 * y := h y x (s ! (x + 5 * y))]) =
      (\<lambda>p s. s[(\<lambda>(y, x). x + 5 * y) p := (\<lambda>(y, x). h y x) p (s ! (\<lambda>(y, x). x + 5 * y) p)])" by auto
  have b: "\<forall>p \<in> set lane_pairs. (\<lambda>(y, x). x + 5 * y) p < length s" using lane_indices(2) assms(1) by auto
  note f = fold_updates [OF lane_indices(1) b, where h = "\<lambda>(y, x). h y x"]
  show "fold (\<lambda>(y, x) s. s[x + 5 * y := h y x (s ! (x + 5 * y))]) lane_pairs s ! (x + 5 * y) = h y x (s ! (x + 5 * y))"
    using f(2) [of "(y, x)"] assms by (simp add: eq lane_pairs_set)
  show "length (fold (\<lambda>(y, x) s. s[x + 5 * y := h y x (s ! (x + 5 * y))]) lane_pairs s) = 25"
    using f(1) assms(1) by (simp add: eq)
qed

lemma fold_rotated:
  assumes "x < 5" and "y < 5"
  shows "fold (\<lambda>(y, x) r. r[y + 5 * ((2 * x + 3 * y) mod 5) := g y x]) lane_pairs (replicate 25 0) !
      (y + 5 * ((2 * x + 3 * y) mod 5)) = g y x"
proof -
  let ?i = "\<lambda>(y, x). y + 5 * ((2 * x + 3 * y) mod 5) :: nat"
  have eq: "(\<lambda>(y, x) r. r[y + 5 * ((2 * x + 3 * y) mod 5) := g y x]) =
      (\<lambda>p r. r[?i p := (\<lambda>p v. (\<lambda>(y, x). g y x) p) p (r ! ?i p)])" by auto
  have b: "\<forall>p \<in> set lane_pairs. ?i p < length (replicate 25 0)" using lane_indices(4) by auto
  show ?thesis
    using fold_updates(2) [OF lane_indices(3) b, of "(y, x)" "\<lambda>p v. (\<lambda>(y, x). g y x) p"] assms
    by (simp add: eq lane_pairs_set)
qed

text \<open>A state list stands for a state array.\<close>

definition lanes_of :: "state_array \<Rightarrow> lanes \<Rightarrow> bool" where
  "lanes_of A s \<longleftrightarrow> length s = 25 \<and> (\<forall>x < 5. \<forall>y < 5. s ! (x + 5 * y) = A x y)"

lemma lanes_ofD: "lanes_of A s \<Longrightarrow> x < 5 \<Longrightarrow> y < 5 \<Longrightarrow> s ! (x + 5 * y) = A x y" "lanes_of A s \<Longrightarrow> length s = 25"
  by (simp_all add: lanes_of_def)

lemma five_cases: "x < 5 \<Longrightarrow> x = 0 \<or> x = 1 \<or> x = 2 \<or> x = 3 \<or> x = (4 :: nat)"
  by linarith

lemma theta_lanes:
  assumes "lanes_of A s"
  shows "lanes_of (theta A) (add_delta (column_delta (column_parity s)) s)"
proof -
  have par: "column_parity s ! x = A x 0 XOR A x 1 XOR A x 2 XOR A x 3 XOR A x 4" if "x < 5" for x
    using lanes_ofD(1) [OF assms that, of 0] lanes_ofD(1) [OF assms that, of 1] lanes_ofD(1) [OF assms that, of 2]
      lanes_ofD(1) [OF assms that, of 3] lanes_ofD(1) [OF assms that, of 4] that
    by (simp add: column_parity_def)
  have delta: "A x y XOR column_delta (column_parity s) ! x = theta A x y" if "x < 5" for x y
    using par [of "(x + 4) mod 5"] par [of "(x + 1) mod 5"] that by (simp add: column_delta_def theta_def Let_def)
  note f = fold_lanes [OF lanes_ofD(2) [OF assms], of _ _ "\<lambda>y x v. v XOR column_delta (column_parity s) ! x"]
  show ?thesis unfolding lanes_of_def add_delta_def using f(2) [of 0 0] f(1) lanes_ofD(1) [OF assms] delta by simp
qed

lemma rotate_lanes_nth:
  assumes "lanes_of A s" and "x < 5" and "y < 5"
  shows "rotate_lanes s ! (x + 5 * y) = pi_step (rho A) x y"
proof -
  let ?x = "(x + 3 * y) mod 5"
  have y: "(2 * ?x + 3 * x) mod 5 = y" using five_cases [OF assms(2)] five_cases [OF assms(3)] by (elim disjE) simp_all
  have "rotate_lanes s ! (x + 5 * ((2 * ?x + 3 * x) mod 5)) = word_rotl (ROTATIONS ! (?x + 5 * x)) (s ! (?x + 5 * x))"
    unfolding rotate_lanes_def using fold_rotated [of ?x x "\<lambda>y x. word_rotl (ROTATIONS ! (x + 5 * y)) (s ! (x + 5 * y))"] assms(2) by simp
  then show ?thesis using y rotations_standard assms(2) lanes_ofD(1) [OF assms(1), of ?x x]
    by (simp add: pi_step_def rho_def)
qed

lemma round_lanes:
  assumes "lanes_of A s" and "i < 24"
  shows "lanes_of (rnd i A) (keccak_round (ROUND_CONSTANTS ! i) s)"
proof -
  let ?t = "add_delta (column_delta (column_parity s)) s"
  let ?r = "rotate_lanes ?t" and ?B = "pi_step (rho (theta A))"
  let ?m = "mix_rows ?r ?t"
  have t: "lanes_of (theta A) ?t" using theta_lanes [OF assms(1)] .
  have r: "?r ! (x + 5 * y) = ?B x y" if "x < 5" "y < 5" for x y using rotate_lanes_nth [OF t that] .
  note f = fold_lanes [OF lanes_ofD(2) [OF t], of _ _ "\<lambda>y x v. ?r ! (x + 5 * y) XOR
     (NOT (?r ! ((x + 1) mod 5 + 5 * y)) AND ?r ! ((x + 2) mod 5 + 5 * y))"]
  have m: "?m ! (x + 5 * y) = chi ?B x y" if "x < 5" "y < 5" for x y
    unfolding mix_rows_def using f(1) [OF that] r that by (simp add: chi_def)
  have len: "length ?m = 25" unfolding mix_rows_def using f(2) [of 0 0] by simp
  have rc: "ROUND_CONSTANTS ! i = round_constant i" using assms(2) by (simp add: constants_standard)
  show ?thesis unfolding lanes_of_def keccak_round_def Let_def
  proof (intro conjI allI impI)
    fix x y :: nat assume xy: "x < 5" "y < 5"
    then show "?m[0 := ?m ! 0 XOR ROUND_CONSTANTS ! i] ! (x + 5 * y) = rnd i A x y"
      using m [OF xy] m [of 0 0] len rc by (cases "x = 0 \<and> y = 0") (auto simp: rnd_def iota_def nth_list_update)
  qed (use len in simp)
qed

lemma permute_lanes:
  assumes "lanes_of A s"
  shows "lanes_of (fold rnd [0..<24] A) (permute s)"
proof -
  have "lanes_of (fold rnd is A) (fold keccak_round (map ((!) ROUND_CONSTANTS) is) s)"
    if "\<forall>i \<in> set is. i < 24" "lanes_of A s" for "is" A s
    using that by (induction "is" arbitrary: A s) (simp_all add: round_lanes)
  moreover have "map ((!) ROUND_CONSTANTS) [0..<24] = ROUND_CONSTANTS"
    by (simp add: constants_standard)
  ultimately show ?thesis using assms unfolding permute_def by (metis atLeastLessThan_iff set_upt)
qed

lemma lanes_of_array: "lanes_of A s \<Longrightarrow> s = of_array A"
proof (rule nth_equalityI)
  assume l: "lanes_of A s"
  then show "length s = length (of_array A)" by (simp add: lanes_of_def of_array_def)
  fix i assume "i < length s"
  then have "i < 25" using l by (simp add: lanes_of_def)
  then show "s ! i = of_array A ! i" using lanes_ofD(1) [OF l, of "i mod 5" "i div 5"] by (simp add: of_array_def)
qed

text \<open>The loops of the code compute the permutation of the standard.\<close>

lemma permute_standard: "length s = 25 \<Longrightarrow> permute s = keccak_f s"
  unfolding keccak_f_def by (intro lanes_of_array permute_lanes) (simp add: lanes_of_def to_array_def)

lemma length_permute [simp]: "length s = 25 \<Longrightarrow> length (permute s) = 25"
  by (simp add: permute_standard keccak_f_def of_array_def)

section \<open>The sponge\<close>

text \<open>Blocks, padding, absorption and output of the standard, on byte strings.\<close>

definition blocks :: "nat \<Rightarrow> bytes \<Rightarrow> bytes list" where
  "blocks rate m = map (\<lambda>i. take rate (drop (rate * i) m)) [0..<length m div rate]"

definition pad_block :: "nat \<Rightarrow> u8 \<Rightarrow> bytes \<Rightarrow> bytes" where
  "pad_block rate domain m =
     (let q = rate - length m mod rate in
      if q = 1 then m @ [domain OR 0x80] else m @ domain # replicate (q - 2) 0 @ [0x80])"

definition absorb_block :: "bytes \<Rightarrow> lanes \<Rightarrow> lanes" where
  "absorb_block b s = keccak_f (map (\<lambda>k. s ! k XOR from_le_bytes (take 8 (drop (8 * k) b))) [0..<25])"

definition lane_bytes :: "lanes \<Rightarrow> bytes" where
  "lane_bytes s = concat (map (to_le_bytes 8) s)"

function fips_squeeze :: "nat \<Rightarrow> nat \<Rightarrow> lanes \<Rightarrow> bytes" where
  "fips_squeeze rate n s =
     (if n \<le> rate \<or> rate = 0 then take n (lane_bytes s)
      else take rate (lane_bytes s) @ fips_squeeze rate (n - rate) (keccak_f s))"
  by pat_completeness auto
termination
  by (relation "measure (\<lambda>(rate, n, s). n)") auto

declare fips_squeeze.simps [simp del]

definition fips_sponge :: "nat \<Rightarrow> u8 \<Rightarrow> bytes \<Rightarrow> nat \<Rightarrow> bytes" where
  "fips_sponge rate domain m n = fips_squeeze rate n (fold absorb_block (blocks rate (pad_block rate domain m)) (replicate 25 0))"

subsection \<open>Absorbing byte by byte\<close>

definition xor_block :: "bytes \<Rightarrow> lanes \<Rightarrow> lanes" where
  "xor_block b s = fold (\<lambda>i. xor_byte i (b ! i)) [0..<length b] s"

lemma length_xor_byte [simp]: "length (xor_byte i c s) = length s"
  by (simp add: xor_byte_def)

lemma xor_byte_zero: "xor_byte i 0 s = s"
  by (simp add: xor_byte_def)

lemma xor_block_snoc: "xor_block (b @ [c]) s = xor_byte (length b) c (xor_block b s)"
proof -
  have "fold (\<lambda>i. xor_byte i ((b @ [c]) ! i)) [0..<length b] s = fold (\<lambda>i. xor_byte i (b ! i)) [0..<length b] s"
    by (intro fold_cong) (simp_all add: nth_append)
  then show ?thesis by (simp add: xor_block_def)
qed

lemma length_xor_block [simp]: "length (xor_block b s) = length s"
  by (induction b rule: rev_induct) (simp_all add: xor_block_snoc, simp add: xor_block_def)

lemma xor_block_zeros: "xor_block (b @ replicate n 0) s = xor_block b s"
proof (induction n)
  case (Suc n)
  have "b @ replicate (Suc n) 0 = (b @ replicate n 0) @ [0]" by (simp add: replicate_append_same)
  then show ?case using Suc by (simp only: xor_block_snoc xor_byte_zero)
qed simp

lemma from_le_bytes_snoc:
  assumes "length bs < 8"
  shows "(from_le_bytes (bs @ [c]) :: u64) = from_le_bytes bs XOR push_bit (length bs * 8) (ucast c)"
proof (rule bit_word_eqI)
  fix n assume n: "n < LENGTH(64)"
  show "bit (from_le_bytes (bs @ [c]) :: u64) n = bit (from_le_bytes bs XOR push_bit (length bs * 8) (ucast c) :: u64) n"
  proof (cases "n div 8 < length bs")
    case True
    then have "n < length bs * 8" by linarith
    then show ?thesis using True n by (simp add: bit_from_le_bytes nth_append bit_xor_iff bit_push_bit_iff)
  next
    case False
    then have ge: "length bs * 8 \<le> n" by linarith
    show ?thesis
    proof (cases "n div 8 = length bs")
      case True
      then have "n - length bs * 8 = n mod 8" by (metis minus_div_mult_eq_mod)
      moreover have "n mod 8 < 64" by (rule order.strict_trans [OF mod_less_divisor]) simp_all
      ultimately show ?thesis using True n ge
        by (simp add: bit_from_le_bytes nth_append bit_xor_iff bit_push_bit_iff bit_ucast_iff)
    next
      case gt: False
      then have "8 \<le> n - length bs * 8" using False by linarith
      then have "\<not> bit c (n - length bs * 8)" by (auto dest: bit_imp_le_length)
      then show ?thesis using gt False n ge
        by (simp add: bit_from_le_bytes nth_append bit_xor_iff bit_push_bit_iff bit_ucast_iff)
    qed
  qed
qed

lemma lane_snoc:
  assumes "length b < 200"
  shows "(from_le_bytes (take 8 (drop (8 * k) (b @ [c]))) :: u64) =
     (if k = length b div 8 then from_le_bytes (take 8 (drop (8 * k) b)) XOR push_bit (length b mod 8 * 8) (ucast c)
      else from_le_bytes (take 8 (drop (8 * k) b)))"
proof -
  consider "k = length b div 8" | "8 * k + 8 \<le> length b" | "length b < 8 * k" by linarith
  then show ?thesis
  proof cases
    case 1
    then have k: "8 * k \<le> length b" "length b - 8 * k = length b mod 8"
      by (simp_all add: minus_mult_div_eq_mod)
    then have "take 8 (drop (8 * k) (b @ [c])) = drop (8 * k) b @ [c]" "take 8 (drop (8 * k) b) = drop (8 * k) b" by simp_all
    then show ?thesis using 1 k from_le_bytes_snoc [of "drop (8 * k) b" c] by simp
  next
    case 2
    then have "k \<noteq> length b div 8" by linarith
    then show ?thesis using 2 by simp
  next
    case 3
    then have "k \<noteq> length b div 8" by linarith
    then show ?thesis using 3 by simp
  qed
qed

text \<open>Absorbing the bytes of a block one after the other is the lane-wise sum of the standard.\<close>

lemma xor_block_lanes:
  assumes "length s = 25" and "length b \<le> 200"
  shows "xor_block b s = map (\<lambda>k. s ! k XOR from_le_bytes (take 8 (drop (8 * k) b))) [0..<25]"
  using assms(2)
proof (induction b rule: rev_induct)
  case Nil
  have "map (\<lambda>k. s ! k) [0..<25] = s" using map_nth [of s] assms(1) by simp
  then show ?case by (simp add: xor_block_def)
next
  case (snoc c b)
  then have b: "length b < 200" by simp
  let ?f = "\<lambda>b k. s ! k XOR from_le_bytes (take 8 (drop (8 * k) b))"
  have "xor_block (b @ [c]) s = xor_byte (length b) c (map (?f b) [0..<25])"
    using snoc by (simp add: xor_block_snoc)
  also have "\<dots> = map (?f (b @ [c])) [0..<25]"
  proof (rule nth_equalityI)
    fix i assume "i < length (xor_byte (length b) c (map (?f b) [0..<25]))"
    then have "i < 25" by simp
    then show "xor_byte (length b) c (map (?f b) [0..<25]) ! i = map (?f (b @ [c])) [0..<25] ! i"
      unfolding xor_byte_def using b lane_snoc [OF b, of i c]
      by (simp add: nth_list_update xor.assoc del: drop_append take_append)
  qed simp
  finally show ?case .
qed

lemma absorb_block_eq: "length s = 25 \<Longrightarrow> length b \<le> 200 \<Longrightarrow> permute (xor_block b s) = absorb_block b s"
  by (simp add: absorb_block_def permute_standard flip: xor_block_lanes)

subsection \<open>The state after an update\<close>

definition absorbed :: "nat \<Rightarrow> bytes \<Rightarrow> lanes" where
  "absorbed rate m = fold (\<lambda>b s. permute (xor_block b s)) (blocks rate m) (replicate 25 0)"

definition remainder :: "nat \<Rightarrow> bytes \<Rightarrow> bytes" where
  "remainder rate m = drop (rate * (length m div rate)) m"

lemma length_remainder: "length (remainder rate m) = length m mod rate"
  by (simp add: remainder_def minus_mult_div_eq_mod)

lemma length_absorbed [simp]: "length (absorbed rate m) = 25"
proof -
  have "length (fold (\<lambda>b s. permute (xor_block b s)) bs s) = 25" if "length s = 25" for bs s
    using that by (induction bs arbitrary: s) simp_all
  then show ?thesis by (simp add: absorbed_def)
qed

lemma block_inside: "i < length m div rate \<Longrightarrow> rate * i + rate \<le> length m"
proof -
  assume "i < length m div rate"
  then have "rate * Suc i \<le> rate * (length m div rate)" by (intro mult_le_mono2) simp
  also have "\<dots> \<le> length m" by (rule times_div_less_eq_dividend)
  finally show ?thesis by (simp only: mult_Suc_right add.commute)
qed

lemma blocks_append_full:
  assumes "0 < rate" and "length r + length m mod rate = rate"
  shows "blocks rate (m @ r) = blocks rate m @ [remainder rate m @ r]"
proof -
  have n: "length (m @ r) div rate = Suc (length m div rate)"
  proof -
    have "length m + length r = rate * Suc (length m div rate)"
      using assms(2) mult_div_mod_eq [of rate "length m"] by (simp only: mult_Suc_right)
    then show ?thesis using assms(1) by (simp only: length_append nonzero_mult_div_cancel_left)
  qed
  have "take rate (drop (rate * i) (m @ r)) = take rate (drop (rate * i) m)" if "i < length m div rate" for i
  proof -
    show ?thesis using block_inside [OF that] by simp
  qed
  moreover have "take rate (drop (rate * (length m div rate)) (m @ r)) = remainder rate m @ r"
  proof -
    have "rate * (length m div rate) \<le> length m" by simp
    then have "drop (rate * (length m div rate)) (m @ r) = remainder rate m @ r" by (simp add: remainder_def)
    moreover have "length (remainder rate m @ r) = rate" using assms(2) by (simp add: length_remainder)
    ultimately show ?thesis by simp
  qed
  ultimately show ?thesis unfolding blocks_def n by simp
qed

lemma blocks_append_partial:
  assumes "length m mod rate + length r < rate"
  shows "blocks rate (m @ r) = blocks rate m" "remainder rate (m @ r) = remainder rate m @ r"
proof -
  have "length m + length r = (length m mod rate + length r) + rate * (length m div rate)"
    using mult_div_mod_eq [of rate "length m"] by linarith
  moreover have "rate \<noteq> 0" using assms by linarith
  ultimately have n: "length (m @ r) div rate = length m div rate"
    using div_mult_self2 [of rate "length m mod rate + length r" "length m div rate"] div_less [OF assms]
    by (simp only: length_append simp_thms add_0_right)
  have "take rate (drop (rate * i) (m @ r)) = take rate (drop (rate * i) m)" if "i < length m div rate" for i
  proof -
    show ?thesis using block_inside [OF that] by simp
  qed
  then show "blocks rate (m @ r) = blocks rate m" unfolding blocks_def n by simp
  have "rate * (length m div rate) \<le> length m" by simp
  then show "remainder rate (m @ r) = remainder rate m @ r" unfolding remainder_def n by simp
qed

lemma sponge_update_state:
  assumes "0 < rate"
  shows "sponge_update rate m sponge_new =
     \<lparr>sp_state = xor_block (remainder rate m) (absorbed rate m), sp_position = length m mod rate\<rparr>"
proof (induction m rule: rev_induct)
  case Nil
  then show ?case by (simp add: sponge_update_def sponge_new_def absorbed_def blocks_def remainder_def xor_block_def)
next
  case (snoc c m)
  have step: "sponge_update rate (m @ [c]) sponge_new = sponge_byte rate c (sponge_update rate m sponge_new)"
    by (simp add: sponge_update_def)
  have xs: "xor_byte (length m mod rate) c (xor_block (remainder rate m) (absorbed rate m)) =
      xor_block (remainder rate m @ [c]) (absorbed rate m)"
    by (simp add: xor_block_snoc length_remainder)
  show ?case
  proof (cases "Suc (length m mod rate) = rate")
    case True
    then have b: "blocks rate (m @ [c]) = blocks rate m @ [remainder rate m @ [c]]"
      using blocks_append_full [OF assms, of "[c]" m] by simp
    have l: "length (m @ [c]) mod rate = 0" using True by (simp add: mod_Suc)
    then have "remainder rate (m @ [c]) = []" using length_remainder [of rate "m @ [c]"] by simp
    then show ?thesis using step snoc True xs l b
      by (simp add: sponge_byte_def Let_def absorbed_def xor_block_def)
  next
    case False
    then have lt: "length m mod rate + length [c] < rate" using assms mod_less_divisor [OF assms, of "length m"] by simp
    have l: "length (m @ [c]) mod rate = Suc (length m mod rate)" using False by (simp add: mod_Suc)
    show ?thesis using step snoc False xs l blocks_append_partial [OF lt]
      by (simp add: sponge_byte_def Let_def absorbed_def)
  qed
qed

subsection \<open>Padding and output\<close>

lemma ucast_xor_u8: "(ucast (a XOR b :: u8) :: u64) = ucast a XOR ucast b"
  by (rule bit_word_eqI) (auto simp: bit_ucast_iff bit_xor_iff dest: bit_imp_le_length)

lemma xor_byte_twice:
  assumes "d AND 0x80 = 0"
  shows "xor_byte i 0x80 (xor_byte i d s) = xor_byte i (d OR 0x80) s"
proof (cases "i div 8 < length s")
  case True
  have "d OR 0x80 = d XOR 0x80"
  proof (rule bit_word_eqI)
    fix n assume "n < LENGTH(8)"
    have "bit (d AND 0x80) n = bit (0 :: u8) n" using assms by simp
    then show "bit (d OR 0x80) n = bit (d XOR 0x80) n" by (auto simp: bit_or_iff bit_xor_iff bit_and_iff)
  qed
  then have "push_bit k (ucast d) XOR push_bit k (ucast (0x80 :: u8)) = (push_bit k (ucast (d OR 0x80)) :: u64)" for k
    by (simp only: ucast_xor_u8 push_bit_xor)
  then show ?thesis using True by (simp add: xor_byte_def xor.assoc)
next
  case False
  then show ?thesis by (simp add: xor_byte_def list_update_beyond)
qed

lemma pad_block_absorbed:
  assumes "0 < rate" and "rate \<le> 200" and "d AND 0x80 = 0"
  shows "fold absorb_block (blocks rate (pad_block rate d m)) (replicate 25 0) =
     permute (xor_byte (rate - 1) 0x80 (xor_byte (length m mod rate) d (xor_block (remainder rate m) (absorbed rate m))))"
proof -
  have lt: "length m mod rate < rate" using assms(1) by simp
  define p where "p = (if rate - length m mod rate = 1 then [d OR 0x80] else d # replicate (rate - length m mod rate - 2) 0 @ [0x80])"
  have pad: "pad_block rate d m = m @ p" by (simp add: pad_block_def p_def Let_def)
  have lp: "length p + length m mod rate = rate" using lt by (auto simp: p_def)
  have old: "fold absorb_block bs s = fold (\<lambda>b s. permute (xor_block b s)) bs s"
    if "\<forall>b \<in> set bs. length b \<le> 200" "length s = 25" for bs s
    using that by (induction bs arbitrary: s) (simp_all flip: absorb_block_eq)
  have bl: "length b \<le> 200" if "b \<in> set (blocks rate m)" for b using that assms(2) by (auto simp: blocks_def)
  have st: "fold absorb_block (blocks rate m) (replicate 25 0) = absorbed rate m"
    unfolding absorbed_def using old [of "blocks rate m" "replicate 25 0"] bl by simp
  have rp: "length (remainder rate m @ p) \<le> 200" using lp assms(2) by (simp add: length_remainder)
  have "xor_block (remainder rate m @ p) (absorbed rate m) =
      xor_byte (rate - 1) 0x80 (xor_byte (length m mod rate) d (xor_block (remainder rate m) (absorbed rate m)))"
  proof (cases "rate - length m mod rate = 1")
    case True
    then have "length m mod rate = rate - 1" using lt by linarith
    then show ?thesis using True assms(3) by (simp add: p_def xor_block_snoc length_remainder xor_byte_twice)
  next
    case False
    let ?z = "(remainder rate m @ [d]) @ replicate (rate - length m mod rate - 2) 0"
    have "remainder rate m @ p = ?z @ [0x80]" using False by (simp add: p_def)
    moreover have "length ?z = rate - 1" using False lt by (simp add: length_remainder)
    moreover have "xor_block ?z (absorbed rate m) = xor_byte (length m mod rate) d (xor_block (remainder rate m) (absorbed rate m))"
      unfolding xor_block_zeros by (simp add: xor_block_snoc length_remainder)
    ultimately show ?thesis by (simp only: xor_block_snoc)
  qed
  then show ?thesis
    using blocks_append_full [OF assms(1) lp] st absorb_block_eq [OF _ rp, of "absorbed rate m"] by (simp add: pad)
qed

lemma length_lane_bytes [simp]: "length (lane_bytes s) = 8 * length s"
  by (induction s) (simp_all add: lane_bytes_def)

lemma nth_lane_bytes: "p < 8 * length s \<Longrightarrow> lane_bytes s ! p = ucast (drop_bit (p mod 8 * 8) (s ! (p div 8)))"
proof (induction s arbitrary: p)
  case (Cons w s)
  have lb: "lane_bytes (w # s) = to_le_bytes 8 w @ lane_bytes s" by (simp add: lane_bytes_def)
  show ?case
  proof (cases "p < 8")
    case True
    then show ?thesis by (simp add: lb nth_append nth_to_le_bytes mult.commute)
  next
    case False
    then obtain q where q: "p = q + 8" by (metis add.commute le_Suc_ex linorder_not_le)
    have "(q + 8) div 8 = Suc (q div 8)" "(q + 8) mod 8 = q mod 8" by simp_all
    then show ?thesis using Cons q by (simp add: lb nth_append)
  qed
qed simp

lemma squeeze_block:
  assumes "rate \<le> 200" and "length s = 25" and "pos \<le> rate" and "n \<le> rate - pos"
  shows "squeeze rate (n + k) pos s = take n (drop pos (lane_bytes s)) @ squeeze rate k (pos + n) s"
  using assms(3,4)
proof (induction n arbitrary: pos)
  case (Suc n)
  then have p: "pos < rate" "pos < length (lane_bytes s)" using assms(1,2) by simp_all
  have "take (Suc n) (drop pos (lane_bytes s)) = lane_bytes s ! pos # take n (drop (Suc pos) (lane_bytes s))"
    using p(2) by (metis Cons_nth_drop_Suc take_Suc_Cons)
  moreover have "lane_bytes s ! pos = ucast (drop_bit (pos mod 8 * 8) (s ! (pos div 8)))"
    using p by (intro nth_lane_bytes) (simp add: assms)
  ultimately show ?case using Suc.IH [of "Suc pos"] Suc.prems p(1) by simp
qed simp

lemma squeeze_fips:
  assumes "0 < rate" and "rate \<le> 200"
  shows "length s = 25 \<Longrightarrow> squeeze rate n 0 s = fips_squeeze rate n s"
proof (induction n arbitrary: s rule: less_induct)
  case (less n)
  show ?case
  proof (cases "n \<le> rate")
    case True
    then show ?thesis using squeeze_block [OF assms(2) less.prems, of 0 n 0] by (simp add: fips_squeeze.simps [of rate n])
  next
    case False
    then obtain k where k: "n - rate = Suc k" "n = rate + Suc k"
      by (metis Suc_diff_Suc add_diff_inverse_nat less_imp_not_less not_le)
    have "squeeze rate n 0 s = take rate (lane_bytes s) @ squeeze rate (Suc k) rate s"
      using squeeze_block [OF assms(2) less.prems, of 0 rate "Suc k"] unfolding k(2) by (simp del: squeeze.simps)
    also have "squeeze rate (Suc k) rate s = squeeze rate (n - rate) 0 (permute s)" using assms(1) k(1) by simp
    also have "\<dots> = fips_squeeze rate (n - rate) (permute s)" using less False assms(1) by simp
    finally show ?thesis using False assms(1) less.prems by (simp add: fips_squeeze.simps [of rate n] permute_standard)
  qed
qed

lemma sponge_fips:
  assumes "0 < rate" and "rate \<le> 200" and "d AND 0x80 = 0"
  shows "sponge_finalize rate d n (sponge_update rate m sponge_new) = fips_sponge rate d m n"
  unfolding fips_sponge_def pad_block_absorbed [OF assms] sponge_finalize_def sponge_update_state [OF assms(1)] Let_def
  by (simp add: squeeze_fips [OF assms(1,2)])

section \<open>Properties\<close>

text \<open>
  Property C14.  The four hash functions are those of FIPS 202 for every input: the unrolled
  permutation with its tables of rotations and round constants is the composition of the step
  mappings of the standard with offsets and constants from their recurrences, and absorbing byte
  by byte with the padding added in place is the sponge over the padded blocks.
\<close>

theorem sha3_is_fips202:
  "sha3_256 m = fips_sponge 136 0x06 m 32 \<and> sha3_512 m = fips_sponge 72 0x06 m 64 \<and>
   shake128 m n = fips_sponge 168 0x1f m n \<and> shake256 m n = fips_sponge 136 0x1f m n"
  by (simp add: sha3_256_def sha3_512_def shake128_def shake256_def fixed_hash_def extendable_hash_def sponge_fips)

text \<open>Absorbing in pieces is absorbing at once; digests have their declared length.\<close>

lemma sponge_update_append: "sponge_update rate (a @ b) sp = sponge_update rate b (sponge_update rate a sp)"
  by (simp add: sponge_update_def)

lemma length_squeeze [simp]: "length (squeeze rate n pos s) = n"
  by (induction rate n pos s rule: squeeze.induct) (simp_all split: prod.splits)

lemma length_sha3_512 [simp]: "length (sha3_512 m) = 64"
  by (simp add: sha3_512_def fixed_hash_def sponge_finalize_def Let_def)

end
