(* ===== verification/Lamport.thy ===== *)
theory Lamport
  imports Sha3
begin

text \<open>
  One-time signatures over SHA3-512, after \<open>crates/mrml-crypto/src/lamport.rs\<close>: key derivation,
  signing and verification.
\<close>

section \<open>Definitions\<close>

definition LAMPORT_SIGNATURE_BYTES :: nat where "LAMPORT_SIGNATURE_BYTES = 512 * 64"
definition LAMPORT_PRIVATE_KEY_BYTES :: nat where "LAMPORT_PRIVATE_KEY_BYTES = 2 * LAMPORT_SIGNATURE_BYTES"
definition LAMPORT_PUBLIC_KEY_BYTES :: nat where "LAMPORT_PUBLIC_KEY_BYTES = LAMPORT_PRIVATE_KEY_BYTES"

datatype lamport_error = InvalidPrivateKey | InvalidPublicKey | InvalidSignature

definition chunks64 :: "bytes \<Rightarrow> bytes list" where
  "chunks64 bs = map (\<lambda>i. sub_slice bs (i * 64) (i * 64 + 64)) [0..<length bs div 64]"

definition lamport_public_key :: "bytes \<Rightarrow> bytes \<Rightarrow> (unit, lamport_error) result \<times> bytes" where
  "lamport_public_key private_key public_key =
     (if length private_key \<noteq> LAMPORT_PRIVATE_KEY_BYTES \<or> length public_key \<noteq> LAMPORT_PUBLIC_KEY_BYTES
      then (Err InvalidPrivateKey, public_key)
      else (Ok (), concat (map sha3_512 (chunks64 private_key))))"

text \<open>The text \<open>MRML-LAMPORT-SHA3-512-v1\<close> and a zero byte.\<close>

definition LAMPORT_DOMAIN :: bytes where
  "LAMPORT_DOMAIN = [0x4d, 0x52, 0x4d, 0x4c, 0x2d, 0x4c, 0x41, 0x4d, 0x50, 0x4f, 0x52, 0x54, 0x2d, 0x53, 0x48, 0x41,
     0x33, 0x2d, 0x35, 0x31, 0x32, 0x2d, 0x76, 0x31, 0]"

definition artifact_digest :: "bytes \<Rightarrow> bytes" where
  "artifact_digest message =
     sponge_finalize 72 0x06 64
       (sponge_update 72 message
         (sponge_update 72 (to_le_bytes 8 (of_nat (length message) :: u64))
           (sponge_update 72 LAMPORT_DOMAIN sponge_new)))"

text \<open>The secret of a digest bit: \<open>2 * bit + choice\<close>, in units of 64 bytes.\<close>

definition choice :: "bytes \<Rightarrow> nat \<Rightarrow> nat" where
  "choice digest b = unat (drop_bit (b mod 8) (digest ! (b div 8)) AND 1)"

definition lamport_sign :: "bytes \<Rightarrow> bytes \<Rightarrow> bytes \<Rightarrow> (unit, lamport_error) result \<times> bytes" where
  "lamport_sign private_key message signature =
     (if length private_key \<noteq> LAMPORT_PRIVATE_KEY_BYTES \<or> length signature \<noteq> LAMPORT_SIGNATURE_BYTES
      then (Err InvalidPrivateKey, signature)
      else let digest = artifact_digest message in
        (Ok (), concat (map (\<lambda>bit. let source = (bit * 2 + choice digest bit) * 64 in
           sub_slice private_key source (source + 64)) [0..<512])))"

definition lamport_verify :: "bytes \<Rightarrow> bytes \<Rightarrow> bytes \<Rightarrow> (unit, lamport_error) result" where
  "lamport_verify public_key message signature =
     (if length public_key \<noteq> LAMPORT_PUBLIC_KEY_BYTES then Err InvalidPublicKey
      else if length signature \<noteq> LAMPORT_SIGNATURE_BYTES then Err InvalidSignature
      else let digest = artifact_digest message;
               difference = fold (\<lambda>bit difference.
                 let expected = (bit * 2 + choice digest bit) * 64;
                     actual = sha3_512 (sub_slice signature (bit * 64) ((bit + 1) * 64))
                 in fold (\<lambda>index difference. difference OR (actual ! index XOR public_key ! (expected + index)))
                      [0..<64] difference) [0..<512] (0 :: u8)
        in if difference = 0 then Ok () else Err InvalidSignature)"

section \<open>Comparison without early exit\<close>

lemma fold_or_zero: "fold (\<lambda>i d. d OR f i) xs (d :: u8) = 0 \<longleftrightarrow> d = 0 \<and> (\<forall>i \<in> set xs. f i = 0)"
  by (induction xs arbitrary: d) (auto simp: or_eq_0_iff)

lemma fold_fold_zero:
  assumes "\<And>i d. g i d = (0 :: u8) \<longleftrightarrow> d = 0 \<and> P i"
  shows "fold g xs d = 0 \<longleftrightarrow> d = 0 \<and> (\<forall>i \<in> set xs. P i)"
  by (induction xs arbitrary: d) (auto simp: assms)

lemma xor_eq_0_iff_eq: "(a :: 'a::len word) XOR b = 0 \<longleftrightarrow> a = b"
  by (metis xor.left_neutral xor.assoc xor_self_eq)

lemma concat_chunk:
  assumes "\<forall>c \<in> set cs. length c = n" and "i < length cs"
  shows "sub_slice (concat cs) (i * n) (i * n + n) = cs ! i"
  using assms
proof (induction cs arbitrary: i)
  case (Cons c cs)
  show ?case
  proof (cases i)
    case 0
    then show ?thesis using Cons.prems by (simp add: sub_slice_def)
  next
    case (Suc j)
    then have "sub_slice (concat (c # cs)) (i * n) (i * n + n) = sub_slice (concat cs) (j * n) (j * n + n)"
      using Cons.prems(1) by (simp add: sub_slice_def)
    then show ?thesis using Cons Suc by simp
  qed
qed simp

lemma length_concat_chunks: "\<forall>c \<in> set cs. length c = n \<Longrightarrow> length (concat cs) = length cs * n"
  by (induction cs) simp_all

lemma choice_le: "choice d b \<le> 1"
proof -
  have "unat (drop_bit (b mod 8) (d ! (b div 8)) AND 1) \<le> unat (1 :: u8)"
    using word_and_le1 [of "drop_bit (b mod 8) (d ! (b div 8))" 1] by (simp add: word_le_nat_alt)
  then show ?thesis by (simp add: choice_def)
qed

lemma source_bound:
  assumes "b < 512"
  shows "(b * 2 + choice d b) * 64 + 64 \<le> 65536"
proof -
  have "b * 2 + choice d b \<le> 1023" using assms choice_le [of d b] by linarith
  then have "(b * 2 + choice d b) * 64 \<le> 1023 * 64" by (rule mult_le_mono1)
  then show ?thesis by simp
qed

text \<open>What verification checks: every revealed secret hashes to the chosen half of the public key.\<close>

lemma lamport_verify_iff:
  "lamport_verify public_key message signature = Ok () \<longleftrightarrow>
     length public_key = LAMPORT_PUBLIC_KEY_BYTES \<and> length signature = LAMPORT_SIGNATURE_BYTES \<and>
     (\<forall>b < 512. sha3_512 (sub_slice signature (b * 64) (b * 64 + 64)) =
        sub_slice public_key ((b * 2 + choice (artifact_digest message) b) * 64)
          ((b * 2 + choice (artifact_digest message) b) * 64 + 64))"
proof (cases "length public_key = LAMPORT_PUBLIC_KEY_BYTES \<and> length signature = LAMPORT_SIGNATURE_BYTES")
  case True
  let ?e = "\<lambda>b. (b * 2 + choice (artifact_digest message) b) * 64"
  let ?a = "\<lambda>b. sha3_512 (sub_slice signature (b * 64) ((b + 1) * 64))"
  let ?g = "\<lambda>b d. fold (\<lambda>i d. d OR (?a b ! i XOR public_key ! (?e b + i))) [0..<64] d"
  have g: "?g b d = 0 \<longleftrightarrow> d = 0 \<and> (\<forall>i < 64. ?a b ! i = public_key ! (?e b + i))" for b d
    by (auto simp: fold_or_zero xor_eq_0_iff_eq)
  have eq: "(\<forall>i < 64. ?a b ! i = public_key ! (?e b + i)) \<longleftrightarrow> ?a b = sub_slice public_key (?e b) (?e b + 64)" if "b < 512" for b
  proof -
    have "?e b + 64 \<le> length public_key" using source_bound [OF that] True
      by (simp add: LAMPORT_PUBLIC_KEY_BYTES_def LAMPORT_PRIVATE_KEY_BYTES_def LAMPORT_SIGNATURE_BYTES_def)
    then have "length (sub_slice public_key (?e b) (?e b + 64)) = 64"
      "\<forall>i < 64. sub_slice public_key (?e b) (?e b + 64) ! i = public_key ! (?e b + i)"
      by (simp_all add: length_sub_slice) (simp add: sub_slice_def)
    then show ?thesis by (auto simp: list_eq_iff_nth_eq)
  qed
  have "fold ?g [0..<512] 0 = 0 \<longleftrightarrow> 0 = (0 :: u8) \<and> (\<forall>b \<in> set [0..<512]. \<forall>i < 64. ?a b ! i = public_key ! (?e b + i))"
    by (rule fold_fold_zero) (rule g)
  also have "\<dots> \<longleftrightarrow> (\<forall>b < 512. \<forall>i < 64. ?a b ! i = public_key ! (?e b + i))"
    unfolding set_upt by (meson atLeastLessThan_iff zero_le)
  also have "\<dots> \<longleftrightarrow> (\<forall>b < 512. ?a b = sub_slice public_key (?e b) (?e b + 64))" using eq by blast
  finally show ?thesis using True by (simp add: lamport_verify_def Let_def add.commute)
next
  case False
  then show ?thesis by (auto simp: lamport_verify_def)
qed

lemma chunks64_concat:
  assumes "length private_key = LAMPORT_PRIVATE_KEY_BYTES" and "k < 1024"
  shows "sub_slice (concat (map sha3_512 (chunks64 private_key))) (k * 64) (k * 64 + 64) =
     sha3_512 (sub_slice private_key (k * 64) (k * 64 + 64))"
proof -
  have n: "length (chunks64 private_key) = 1024"
    using assms(1) by (simp add: chunks64_def LAMPORT_PRIVATE_KEY_BYTES_def LAMPORT_SIGNATURE_BYTES_def)
  then have "sub_slice (concat (map sha3_512 (chunks64 private_key))) (k * 64) (k * 64 + 64) = map sha3_512 (chunks64 private_key) ! k"
    using assms(2) by (intro concat_chunk) simp_all
  also have "\<dots> = sha3_512 (chunks64 private_key ! k)" using n assms(2) by simp
  also have "chunks64 private_key ! k = sub_slice private_key (k * 64) (k * 64 + 64)"
    using n assms(2) by (simp add: chunks64_def)
  finally show ?thesis .
qed

text \<open>What key derivation and signing return for a private key of the required length.\<close>

definition derived_key :: "bytes \<Rightarrow> bytes" where
  "derived_key private_key = concat (map sha3_512 (chunks64 private_key))"

lemma lamport_public_key_ok:
  assumes "length private_key = LAMPORT_PRIVATE_KEY_BYTES" and "length public0 = LAMPORT_PUBLIC_KEY_BYTES"
  shows "lamport_public_key private_key public0 = (Ok (), derived_key private_key)"
    and "length (derived_key private_key) = LAMPORT_PUBLIC_KEY_BYTES"
proof -
  show "lamport_public_key private_key public0 = (Ok (), derived_key private_key)"
    using assms by (simp add: lamport_public_key_def derived_key_def)
  have "\<forall>c \<in> set (map sha3_512 (chunks64 private_key)). length c = 64" by auto
  from length_concat_chunks [OF this] show "length (derived_key private_key) = LAMPORT_PUBLIC_KEY_BYTES"
    using assms(1) by (simp add: derived_key_def chunks64_def LAMPORT_PUBLIC_KEY_BYTES_def LAMPORT_PRIVATE_KEY_BYTES_def LAMPORT_SIGNATURE_BYTES_def)
qed

lemma lamport_sign_ok:
  assumes "length private_key = LAMPORT_PRIVATE_KEY_BYTES" and "length signature0 = LAMPORT_SIGNATURE_BYTES"
  obtains signature where "lamport_sign private_key message signature0 = (Ok (), signature)"
    "length signature = LAMPORT_SIGNATURE_BYTES"
    "lamport_verify (derived_key private_key) message signature = Ok ()"
proof -
  let ?e = "\<lambda>b. (b * 2 + choice (artifact_digest message) b) * 64"
  let ?cs = "map (\<lambda>b. sub_slice private_key (?e b) (?e b + 64)) [0..<512]"
  have sign: "lamport_sign private_key message signature0 = (Ok (), concat ?cs)"
    using assms by (simp add: lamport_sign_def Let_def)
  have len: "length (sub_slice private_key (?e b) (?e b + 64)) = 64" if "b < 512" for b
    using source_bound [OF that, of "artifact_digest message"] assms(1)
    by (subst length_sub_slice) (simp_all add: LAMPORT_PRIVATE_KEY_BYTES_def LAMPORT_SIGNATURE_BYTES_def)
  then have all: "\<forall>c \<in> set ?cs. length c = 64" by simp
  have sig: "sub_slice (concat ?cs) (b * 64) (b * 64 + 64) = sub_slice private_key (?e b) (?e b + 64)" if "b < 512" for b
    using concat_chunk [OF all, of b] that by simp
  have lsig: "length (concat ?cs) = LAMPORT_SIGNATURE_BYTES"
    using length_concat_chunks [OF all] by (simp add: LAMPORT_SIGNATURE_BYTES_def)
  have "sha3_512 (sub_slice (concat ?cs) (b * 64) (b * 64 + 64)) = sub_slice (derived_key private_key) (?e b) (?e b + 64)"
    if b: "b < 512" for b
  proof -
    have "b * 2 + choice (artifact_digest message) b < 1024" using b choice_le [of "artifact_digest message" b] by linarith
    from chunks64_concat [OF assms(1) this] show ?thesis unfolding sig [OF b] derived_key_def by (rule sym)
  qed
  then have "lamport_verify (derived_key private_key) message (concat ?cs) = Ok ()"
    using lsig lamport_public_key_ok(2) [OF assms(1), of "replicate LAMPORT_PUBLIC_KEY_BYTES 0"] by (simp add: lamport_verify_iff)
  then show ?thesis using that sign lsig by blast
qed

section \<open>Properties\<close>

text \<open>
  Property C15.  Signing with a private key and verifying with the public key derived from it
  accepts, for every message and every private key of the required length; and a signature is
  accepted exactly when it has the required length and every one of its 512 values hashes to
  the half of the public key that the corresponding bit of the message digest chooses.
\<close>

theorem lamport_round_trip:
  assumes "length private_key = LAMPORT_PRIVATE_KEY_BYTES" and "length public0 = LAMPORT_PUBLIC_KEY_BYTES"
    and "length signature0 = LAMPORT_SIGNATURE_BYTES"
    and "lamport_public_key private_key public0 = (r, public_key)"
    and "lamport_sign private_key message signature0 = (q, signature)"
  shows "r = Ok () \<and> q = Ok () \<and> lamport_verify public_key message signature = Ok () \<and>
     (lamport_verify public_key message' signature' = Ok () \<longleftrightarrow>
        length signature' = 32768 \<and>
        (\<forall>b < 512. sha3_512 (sub_slice signature' (b * 64) (b * 64 + 64)) =
           sub_slice public_key ((b * 2 + choice (artifact_digest message') b) * 64)
             ((b * 2 + choice (artifact_digest message') b) * 64 + 64)))"
proof -
  note key = lamport_public_key_ok [OF assms(1,2)]
  have r: "r = Ok ()" "public_key = derived_key private_key" using key(1) assms(4) by simp_all
  have q: "q = Ok ()" "lamport_verify public_key message signature = Ok ()"
    by (rule lamport_sign_ok [OF assms(1,3), of message], use assms(5) r(2) in simp)+
  show ?thesis using r(1) q key(2) by (simp add: r(2) lamport_verify_iff [of _ message'] LAMPORT_SIGNATURE_BYTES_def)
qed

theorem lamport_round_trip_witness:
  "lamport_verify (snd (lamport_public_key (replicate 65536 7) (replicate 65536 0))) [1, 2]
     (snd (lamport_sign (replicate 65536 7) [1, 2] (replicate 32768 0))) = Ok ()"
proof -
  obtain r p where p: "lamport_public_key (replicate 65536 7) (replicate 65536 0) = (r, p)" by fastforce
  obtain q s where s: "lamport_sign (replicate 65536 7) [1, 2] (replicate 32768 0) = (q, s)" by fastforce
  show ?thesis using lamport_round_trip [OF _ _ _ p s]
    by (simp add: p s LAMPORT_PUBLIC_KEY_BYTES_def LAMPORT_PRIVATE_KEY_BYTES_def LAMPORT_SIGNATURE_BYTES_def)
qed

end
