(* ===== verification/Artifact.thy ===== *)
theory Artifact
  imports Pe_Loader Lamport
begin

text \<open>
  Signed artifacts, releases and boot policy, after \<open>crates/mrml-kernel/src/artifact.rs\<close> and
  \<open>boot.rs\<close>, with the bundle writer of \<open>crates/mrml-sign/src/main.rs\<close>.  Digests are byte strings
  of length 64.  The store of the bootstrap state is a parameter with the contract its trait
  documents: authenticated reads and an atomic compare-and-store.
\<close>

section \<open>Definitions\<close>

subsection \<open>Signed artifacts\<close>

datatype artifact_kind = Kernel | VmImage | ServiceImage | CudaKernelBundle | LaunchPolicy

definition kind_code :: "artifact_kind \<Rightarrow> u8" where
  "kind_code k = (case k of Kernel \<Rightarrow> 1 | VmImage \<Rightarrow> 2 | ServiceImage \<Rightarrow> 3 | CudaKernelBundle \<Rightarrow> 4 | LaunchPolicy \<Rightarrow> 5)"

definition MAX_KERNEL_IMAGE_BYTES :: u32 where "MAX_KERNEL_IMAGE_BYTES = 64 * 1024 * 1024"
definition MAX_SERVICE_IMAGE_BYTES :: u32 where "MAX_SERVICE_IMAGE_BYTES = 128 * 1024 * 1024"
definition MAX_VM_IMAGE_BYTES :: u32 where "MAX_VM_IMAGE_BYTES = 512 * 1024 * 1024"

definition executable_image_limit :: "artifact_kind \<Rightarrow> u32 option" where
  "executable_image_limit k = (case k of Kernel \<Rightarrow> Some MAX_KERNEL_IMAGE_BYTES
     | ServiceImage \<Rightarrow> Some MAX_SERVICE_IMAGE_BYTES | VmImage \<Rightarrow> Some MAX_VM_IMAGE_BYTES
     | CudaKernelBundle \<Rightarrow> None | LaunchPolicy \<Rightarrow> None)"

datatype artifact_error =
  ArInvalidPublicKey | UntrustedPublicKey | ArInvalidSignature | RollbackDetected | EmptyArtifact | MalformedManifest |
  MissingTrustRoot | ReusedTrustRoot | VersionExhausted | MalformedBootstrapState | UnauthenticatedBootstrapState |
  StateConflict | StateStorageFailure | MalformedContainer | WrongArtifactKind

definition SIGNED_ARTIFACT_HEADER_BYTES :: nat where "SIGNED_ARTIFACT_HEADER_BYTES = 112"

text \<open>The text \<open>MRML-SIGNED-v1\<close> and two zero bytes.\<close>

definition SIGNED_ARTIFACT_MAGIC :: bytes where
  "SIGNED_ARTIFACT_MAGIC = [0x4d, 0x52, 0x4d, 0x4c, 0x2d, 0x53, 0x49, 0x47, 0x4e, 0x45, 0x44, 0x2d, 0x76, 0x31, 0, 0]"

record signed_artifact =
  sa_kind :: artifact_kind
  sa_version :: u64
  sa_payload :: bytes
  sa_public_key :: bytes
  sa_signature :: bytes

datatype executable_artifact_error = Signature artifact_error | Format pe_error | NonExecutableKind

record verified_artifact =
  va_kind :: artifact_kind
  va_version :: u64
  va_digest :: bytes

record verified_executable =
  ve_artifact :: verified_artifact
  ve_image :: pe_image

definition kind_of :: "u8 \<Rightarrow> artifact_kind option" where
  "kind_of c = (if c = 1 then Some Kernel else if c = 2 then Some VmImage else if c = 3 then Some ServiceImage
     else if c = 4 then Some CudaKernelBundle else if c = 5 then Some LaunchPolicy else None)"

definition signed_decode :: "bytes \<Rightarrow> (signed_artifact, artifact_error) result" where
  "signed_decode encoded =
     (let fixed = SIGNED_ARTIFACT_HEADER_BYTES + LAMPORT_PUBLIC_KEY_BYTES + LAMPORT_SIGNATURE_BYTES in
      if length encoded < fixed \<or> sub_slice encoded 0 16 \<noteq> SIGNED_ARTIFACT_MAGIC then Err MalformedContainer
      else case kind_of (encoded ! 16) of
        None \<Rightarrow> Err MalformedContainer
      | Some kind \<Rightarrow>
          if \<exists>b \<in> set (sub_slice encoded 17 24). b \<noteq> 0 then Err MalformedContainer
          else let version = from_le_bytes (sub_slice encoded 24 32) :: u64;
                   payload_length = unat (from_le_bytes (sub_slice encoded 32 40) :: u64) in
          if \<not> fixed + payload_length < 2 ^ 64 then Err MalformedContainer
          else if version = 0 \<or> payload_length = 0 \<or> length encoded \<noteq> fixed + payload_length then Err MalformedContainer
          else let declared_digest = sub_slice encoded 40 104 in
          if \<exists>b \<in> set (sub_slice encoded 104 112). b \<noteq> 0 then Err MalformedContainer
          else let key_start = SIGNED_ARTIFACT_HEADER_BYTES;
                   signature_start = key_start + LAMPORT_PUBLIC_KEY_BYTES;
                   payload_start = signature_start + LAMPORT_SIGNATURE_BYTES;
                   payload = drop payload_start encoded in
          if declared_digest \<noteq> sha3_512 payload then Err MalformedContainer
          else Ok \<lparr>sa_kind = kind, sa_version = version, sa_payload = payload,
                 sa_public_key = sub_slice encoded key_start signature_start,
                 sa_signature = sub_slice encoded signature_start payload_start\<rparr>)"

text \<open>The text \<open>MRML-ARTIFACT-v1\<close> and a zero byte.\<close>

definition STATEMENT_MAGIC :: bytes where
  "STATEMENT_MAGIC = [0x4d, 0x52, 0x4d, 0x4c, 0x2d, 0x41, 0x52, 0x54, 0x49, 0x46, 0x41, 0x43, 0x54, 0x2d, 0x76, 0x31, 0]"

definition artifact_statement :: "artifact_kind \<Rightarrow> u64 \<Rightarrow> u64 \<Rightarrow> bytes \<Rightarrow> bytes" where
  "artifact_statement kind version len digest =
     STATEMENT_MAGIC @ [kind_code kind] @ replicate 6 0 @ to_le_bytes 8 version @ to_le_bytes 8 len @ digest"

record trust_root =
  tr_kind :: artifact_kind
  tr_public_key_digest :: bytes
  tr_minimum_version :: u64

definition trust_verify ::
  "trust_root \<Rightarrow> u64 \<Rightarrow> bytes \<Rightarrow> bytes \<Rightarrow> bytes \<Rightarrow> (verified_artifact, artifact_error) result" where
  "trust_verify root version artifact public_key signature =
     (if artifact = [] then Err EmptyArtifact
      else if version < tr_minimum_version root then Err RollbackDetected
      else if length public_key \<noteq> LAMPORT_PUBLIC_KEY_BYTES then Err ArInvalidPublicKey
      else let candidate = sha3_512 public_key;
               difference = fold (\<lambda>(candidate_byte, trusted_byte) difference. difference OR (candidate_byte XOR trusted_byte))
                 (zip candidate (tr_public_key_digest root)) (0 :: u8) in
      if difference \<noteq> 0 then Err UntrustedPublicKey
      else if length signature \<noteq> LAMPORT_SIGNATURE_BYTES then Err ArInvalidSignature
      else let digest = sha3_512 artifact;
               statement = artifact_statement (tr_kind root) version (of_nat (length artifact)) digest in
      and_then (map_err (\<lambda>_. ArInvalidSignature) (lamport_verify public_key statement signature))
        (\<lambda>_. Ok \<lparr>va_kind = tr_kind root, va_version = version, va_digest = digest\<rparr>))"

definition signed_verify :: "signed_artifact \<Rightarrow> trust_root \<Rightarrow> artifact_kind \<Rightarrow> (verified_artifact, artifact_error) result" where
  "signed_verify a root expected_kind =
     (if sa_kind a \<noteq> expected_kind \<or> tr_kind root \<noteq> expected_kind then Err WrongArtifactKind
      else trust_verify root (sa_version a) (sa_payload a) (sa_public_key a) (sa_signature a))"

definition verify_executable ::
  "signed_artifact \<Rightarrow> trust_root \<Rightarrow> artifact_kind \<Rightarrow> (verified_executable, executable_artifact_error) result" where
  "verify_executable a root expected_kind =
     and_then (ok_or (executable_image_limit expected_kind) NonExecutableKind) (\<lambda>maximum.
     and_then (map_err Signature (signed_verify a root expected_kind)) (\<lambda>artifact.
     and_then (map_err Format (parse_with_limit (sa_payload a) maximum)) (\<lambda>img.
     Ok \<lparr>ve_artifact = artifact, ve_image = img\<rparr>)))"

text \<open>
  The bundle writer of the signing tool on the contents of its input files; the refusals it
  reports as texts are one error value, and the file operations around it are left out.
\<close>

datatype sign_error = SignRefused

definition sign_bundle :: "artifact_kind \<Rightarrow> u64 \<Rightarrow> bool \<Rightarrow> bytes \<Rightarrow> bytes \<Rightarrow> (bytes, sign_error) result" where
  "sign_bundle kind version output_exists artifact private_key =
     (if version = 0 \<or> output_exists then Err SignRefused
      else if artifact = [] then Err SignRefused
      else and_then (case executable_image_limit kind of
          None \<Rightarrow> Ok ()
        | Some maximum \<Rightarrow> and_then (map_err (\<lambda>_. SignRefused) (parse_with_limit artifact maximum)) (\<lambda>_. Ok ())) (\<lambda>_.
      if length private_key \<noteq> LAMPORT_PRIVATE_KEY_BYTES then Err SignRefused
      else let digest = sha3_512 artifact;
               statement = artifact_statement kind version (of_nat (length artifact)) digest;
               (key_result, public_key) = lamport_public_key private_key (replicate LAMPORT_PUBLIC_KEY_BYTES 0);
               (sign_result, signature) = lamport_sign private_key statement (replicate LAMPORT_SIGNATURE_BYTES 0) in
      and_then (map_err (\<lambda>_. SignRefused) key_result) (\<lambda>_.
      and_then (map_err (\<lambda>_. SignRefused) sign_result) (\<lambda>_.
      and_then (map_err (\<lambda>_. SignRefused) (lamport_verify public_key statement signature)) (\<lambda>_.
      if \<not> SIGNED_ARTIFACT_HEADER_BYTES + LAMPORT_PUBLIC_KEY_BYTES + LAMPORT_SIGNATURE_BYTES + length artifact < 2 ^ 64
      then Err SignRefused
      else Ok (SIGNED_ARTIFACT_MAGIC @ [kind_code kind] @ replicate 7 0 @ to_le_bytes 8 version @
             to_le_bytes 8 (of_nat (length artifact) :: u64) @ digest @ replicate 8 0 @
             public_key @ signature @ artifact))))))"

subsection \<open>Releases\<close>

record release_manifest =
  rm_release :: u64
  rm_next_root_digest :: bytes
  rm_artifact_roots :: "bytes list"

definition zeroed :: "bytes \<Rightarrow> bool" where "zeroed d \<longleftrightarrow> (\<forall>b \<in> set d. b = 0)"

definition manifest_new :: "u64 \<Rightarrow> bytes \<Rightarrow> bytes list \<Rightarrow> (release_manifest, artifact_error) result" where
  "manifest_new release next_root_digest artifact_roots =
     (if release = 0 \<or> zeroed next_root_digest \<or> (\<exists>root \<in> set artifact_roots. zeroed root)
      then Err MissingTrustRoot
      else Ok \<lparr>rm_release = release, rm_next_root_digest = next_root_digest, rm_artifact_roots = artifact_roots\<rparr>)"

definition RELEASE_MANIFEST_BYTES :: nat where "RELEASE_MANIFEST_BYTES = 408"

text \<open>The text \<open>MRML-RELEASE-v1\<close> and a zero byte.\<close>

definition RELEASE_MAGIC :: bytes where
  "RELEASE_MAGIC = [0x4d, 0x52, 0x4d, 0x4c, 0x2d, 0x52, 0x45, 0x4c, 0x45, 0x41, 0x53, 0x45, 0x2d, 0x76, 0x31, 0]"

definition manifest_encode :: "release_manifest \<Rightarrow> bytes" where
  "manifest_encode m = RELEASE_MAGIC @ to_le_bytes 8 (rm_release m) @ rm_next_root_digest m @ concat (rm_artifact_roots m)"

definition manifest_decode :: "bytes \<Rightarrow> (release_manifest, artifact_error) result" where
  "manifest_decode input =
     (if length input \<noteq> RELEASE_MANIFEST_BYTES \<or> sub_slice input 0 16 \<noteq> RELEASE_MAGIC then Err MalformedManifest
      else manifest_new (from_le_bytes (sub_slice input 16 24)) (sub_slice input 24 88)
             (map (\<lambda>index. sub_slice input (88 + index * 64) (152 + index * 64)) [0..<5]))"

record bootstrap_state =
  bs_current_root_digest :: bytes
  bs_minimum_release :: u64

definition BOOTSTRAP_STATE_BYTES :: nat where "BOOTSTRAP_STATE_BYTES = 88"

definition constant_time_equal :: "bytes \<Rightarrow> bytes \<Rightarrow> bool" where
  "constant_time_equal left right \<longleftrightarrow>
     fold (\<lambda>index difference. difference OR (left ! index XOR right ! index)) [0..<64] (0 :: u8) = 0"

definition verify_release ::
  "bootstrap_state \<Rightarrow> bytes \<Rightarrow> bytes \<Rightarrow> bytes \<Rightarrow> (release_manifest \<times> bootstrap_state, artifact_error) result" where
  "verify_release st encoded public_key signature =
     and_then (manifest_decode encoded) (\<lambda>manifest.
     and_then (trust_verify \<lparr>tr_kind = LaunchPolicy, tr_public_key_digest = bs_current_root_digest st,
          tr_minimum_version = bs_minimum_release st\<rparr> (rm_release manifest) encoded public_key signature) (\<lambda>_.
     if constant_time_equal (rm_next_root_digest manifest) (bs_current_root_digest st) then Err ReusedTrustRoot
     else case checked_add (rm_release manifest) 1 of
       None \<Rightarrow> Err VersionExhausted
     | Some minimum_release \<Rightarrow>
         Ok (manifest, \<lparr>bs_current_root_digest = rm_next_root_digest manifest, bs_minimum_release = minimum_release\<rparr>)))"

text \<open>The text \<open>MRML-BOOTSTATE1\<close> and a zero byte.\<close>

definition BOOTSTATE_MAGIC :: bytes where
  "BOOTSTATE_MAGIC = [0x4d, 0x52, 0x4d, 0x4c, 0x2d, 0x42, 0x4f, 0x4f, 0x54, 0x53, 0x54, 0x41, 0x54, 0x45, 0x31, 0]"

definition bootstrap_encode :: "bootstrap_state \<Rightarrow> bytes" where
  "bootstrap_encode st = BOOTSTATE_MAGIC @ to_le_bytes 8 (bs_minimum_release st) @ bs_current_root_digest st"

definition decode_authenticated :: "bytes \<Rightarrow> (bootstrap_state, artifact_error) result" where
  "decode_authenticated input =
     (if length input \<noteq> BOOTSTRAP_STATE_BYTES \<or> sub_slice input 0 16 \<noteq> BOOTSTATE_MAGIC \<or> zeroed (sub_slice input 24 88)
      then Err MalformedBootstrapState
      else let minimum_release = from_le_bytes (sub_slice input 16 24) in
      if minimum_release = 0 then Err MalformedBootstrapState
      else Ok \<lparr>bs_current_root_digest = sub_slice input 24 88, bs_minimum_release = minimum_release\<rparr>)"

text \<open>
  A commit reads and checks first and then compares and stores.  The two halves are named
  separately because other writers may commit between them.
\<close>

definition commit_prepare ::
  "('s \<Rightarrow> (bytes, artifact_error) result) \<Rightarrow> bytes \<Rightarrow> bytes \<Rightarrow> bytes \<Rightarrow> 's \<Rightarrow>
     (release_manifest \<times> u64 \<times> bytes, artifact_error) result" where
  "commit_prepare load_authenticated encoded_manifest root_public_key signature store =
     and_then (load_authenticated store) (\<lambda>encoded_state.
     and_then (decode_authenticated encoded_state) (\<lambda>current.
     and_then (verify_release current encoded_manifest root_public_key signature) (\<lambda>(release, next_state).
     Ok (release, bs_minimum_release current, bootstrap_encode next_state))))"

definition verify_and_commit ::
  "('s \<Rightarrow> (bytes, artifact_error) result) \<Rightarrow> (u64 \<Rightarrow> bytes \<Rightarrow> 's \<Rightarrow> (unit, artifact_error) result \<times> 's) \<Rightarrow>
     bytes \<Rightarrow> bytes \<Rightarrow> bytes \<Rightarrow> 's \<Rightarrow> (release_manifest, artifact_error) result \<times> 's" where
  "verify_and_commit load_authenticated compare_and_store encoded_manifest root_public_key signature store =
     (case commit_prepare load_authenticated encoded_manifest root_public_key signature store of
        Err e \<Rightarrow> (Err e, store)
      | Ok (release, expected, replacement) \<Rightarrow>
          (case compare_and_store expected replacement store of
             (Err e, store') \<Rightarrow> (Err e, store')
           | (Ok _, store') \<Rightarrow> (Ok release, store')))"

definition release_trust_root :: "release_manifest \<Rightarrow> artifact_kind \<Rightarrow> trust_root" where
  "release_trust_root manifest kind =
     \<lparr>tr_kind = kind, tr_public_key_digest = rm_artifact_roots manifest ! (unat (kind_code kind) - 1),
      tr_minimum_version = rm_release manifest\<rparr>"

text \<open>The store of the repository's tests.\<close>

record test_state_store =
  ts_state :: bytes
  ts_force_conflict :: bool

definition test_load :: "test_state_store \<Rightarrow> (bytes, artifact_error) result" where
  "test_load s = Ok (ts_state s)"

definition test_compare_and_store ::
  "u64 \<Rightarrow> bytes \<Rightarrow> test_state_store \<Rightarrow> (unit, artifact_error) result \<times> test_state_store" where
  "test_compare_and_store expected_minimum_release replacement s =
     (case decode_authenticated (ts_state s) of
        Err e \<Rightarrow> (Err e, s)
      | Ok current \<Rightarrow>
          if ts_force_conflict s \<or> bs_minimum_release current \<noteq> expected_minimum_release then (Err StateConflict, s)
          else (Ok (), s\<lparr>ts_state := replacement\<rparr>))"

subsection \<open>Boot policy\<close>

datatype boot_validation_error =
  MissingEntropy | MissingMeasurement | SecureBootRequired | MeasuredBootRequired | BootRollbackDetected |
  MissingSignedArtifact | DuplicateSignedArtifact | MixedArtifactRelease | KernelMeasurementMismatch

record boot_evidence =
  be_entropy :: bytes
  be_image_measurement :: bytes
  be_image_version :: u64
  be_secure_boot :: bool
  be_measured_boot :: bool
  be_rollback_protected :: bool

definition evidence_new ::
  "bytes \<Rightarrow> bytes \<Rightarrow> u64 \<Rightarrow> bool \<Rightarrow> bool \<Rightarrow> bool \<Rightarrow> (boot_evidence, boot_validation_error) result" where
  "evidence_new entropy measurement version secure measured protected =
     (if zeroed entropy then Err MissingEntropy
      else if zeroed measurement then Err MissingMeasurement
      else Ok \<lparr>be_entropy = entropy, be_image_measurement = measurement, be_image_version = version,
             be_secure_boot = secure, be_measured_boot = measured, be_rollback_protected = protected\<rparr>)"

record boot_policy =
  bp_minimum_image_version :: u64
  bp_require_secure_boot :: bool
  bp_require_measured_boot :: bool
  bp_require_rollback_protection :: bool

definition production_policy :: "u64 \<Rightarrow> boot_policy" where
  "production_policy v = \<lparr>bp_minimum_image_version = v, bp_require_secure_boot = True,
     bp_require_measured_boot = True, bp_require_rollback_protection = True\<rparr>"

definition development_policy :: "u64 \<Rightarrow> boot_policy" where
  "development_policy v = \<lparr>bp_minimum_image_version = v, bp_require_secure_boot = False,
     bp_require_measured_boot = False, bp_require_rollback_protection = False\<rparr>"

definition boot_validate :: "boot_policy \<Rightarrow> boot_evidence \<Rightarrow> (unit, boot_validation_error) result" where
  "boot_validate p ev =
     (if bp_require_secure_boot p \<and> \<not> be_secure_boot ev then Err SecureBootRequired
      else if bp_require_measured_boot p \<and> \<not> be_measured_boot ev then Err MeasuredBootRequired
      else if bp_require_rollback_protection p \<and> \<not> be_rollback_protected ev then Err BootRollbackDetected
      else if be_image_version ev < bp_minimum_image_version p then Err BootRollbackDetected
      else Ok ())"

fun check_chain ::
  "boot_policy \<Rightarrow> boot_evidence \<Rightarrow> verified_artifact list \<Rightarrow> bool list \<Rightarrow> (bool list, boot_validation_error) result" where
  "check_chain p ev [] present = Ok present"
| "check_chain p ev (a # as) present =
     (if va_version a < bp_minimum_image_version p then Err BootRollbackDetected
      else if va_version a \<noteq> be_image_version ev then Err MixedArtifactRelease
      else let index = unat (kind_code (va_kind a)) - 1 in
      if present ! index then Err DuplicateSignedArtifact
      else if va_kind a = Kernel \<and> va_digest a \<noteq> be_image_measurement ev then Err KernelMeasurementMismatch
      else check_chain p ev as (present[index := True]))"

definition validate_signed_chain ::
  "boot_policy \<Rightarrow> boot_evidence \<Rightarrow> verified_artifact list \<Rightarrow> (unit, boot_validation_error) result" where
  "validate_signed_chain p ev artifacts =
     and_then (boot_validate p ev) (\<lambda>_.
     and_then (check_chain p ev artifacts (replicate 5 False)) (\<lambda>present.
     if \<exists>v \<in> set present. \<not> v then Err MissingSignedArtifact else Ok ()))"

section \<open>The store contract\<close>

text \<open>What the trait of the state store documents: reads return what is stored, and a replacement
  is stored exactly when the stored release still is the expected one.\<close>

locale monotonic_store =
  fixes load :: "'s \<Rightarrow> (bytes, artifact_error) result"
    and cas :: "u64 \<Rightarrow> bytes \<Rightarrow> 's \<Rightarrow> (unit, artifact_error) result \<times> 's"
    and saved :: "'s \<Rightarrow> bytes"
  assumes load_authentic: "load s = Ok b \<Longrightarrow> b = saved s"
    and cas_stored: "cas e r s = (Ok u, s') \<Longrightarrow>
          saved s' = r \<and> (\<exists>st. decode_authenticated (saved s) = Ok st \<and> bs_minimum_release st = e)"
    and cas_refused: "cas e r s = (Err x, s') \<Longrightarrow> saved s' = saved s"

interpretation tests: monotonic_store test_load test_compare_and_store ts_state
  by unfold_locales (auto simp: test_load_def test_compare_and_store_def split: result.splits if_splits)

section \<open>Slices of concatenations\<close>

lemma sub_slice_head: "length a = n \<Longrightarrow> sub_slice (a @ b) 0 n = a"
  by (simp add: sub_slice_def)

lemma sub_slice_skip: "length a \<le> i \<Longrightarrow> sub_slice (a @ b) i j = sub_slice b (i - length a) (j - length a)"
  by (simp add: sub_slice_def)

lemma sub_slice_all: "length a = n \<Longrightarrow> sub_slice a 0 n = a"
  by (simp add: sub_slice_def)

lemmas slices = sub_slice_head sub_slice_skip sub_slice_all

lemma magic_lengths [simp]: "length SIGNED_ARTIFACT_MAGIC = 16" "length STATEMENT_MAGIC = 17" "length RELEASE_MAGIC = 16"
    "length BOOTSTATE_MAGIC = 16"
  by (simp_all add: SIGNED_ARTIFACT_MAGIC_def STATEMENT_MAGIC_def RELEASE_MAGIC_def BOOTSTATE_MAGIC_def)

lemma kind_of_code [simp]: "kind_of (kind_code k) = Some k"
  by (cases k) (simp_all add: kind_of_def kind_code_def)

lemma kind_of_SomeD: "kind_of c = Some k \<Longrightarrow> c = kind_code k"
  by (auto simp: kind_of_def kind_code_def split: if_splits)

section \<open>Canonical encodings\<close>

definition digest_ok :: "bytes \<Rightarrow> bool" where "digest_ok d \<longleftrightarrow> length d = 64 \<and> \<not> zeroed d"

definition manifest_wf :: "release_manifest \<Rightarrow> bool" where
  "manifest_wf m \<longleftrightarrow> rm_release m \<noteq> 0 \<and> digest_ok (rm_next_root_digest m) \<and> length (rm_artifact_roots m) = 5 \<and>
     (\<forall>r \<in> set (rm_artifact_roots m). digest_ok r)"

definition bootstrap_wf :: "bootstrap_state \<Rightarrow> bool" where
  "bootstrap_wf st \<longleftrightarrow> digest_ok (bs_current_root_digest st) \<and> bs_minimum_release st \<noteq> 0"

lemma five: "[0..<5] = [0, 1, 2, 3, 4 :: nat]"
  by (simp add: upt_rec)

lemma manifest_decode_encode:
  assumes "manifest_wf m"
  shows "manifest_decode (manifest_encode m) = Ok m"
proof -
  let ?w = "manifest_encode m"
  have len: "length (rm_next_root_digest m) = 64" "\<forall>c \<in> set (rm_artifact_roots m). length c = 64" "length (rm_artifact_roots m) = 5"
    using assms by (auto simp: manifest_wf_def digest_ok_def)
  have "length ?w = 408" using length_concat_chunks [OF len(2)] len by (simp add: manifest_encode_def)
  moreover have "sub_slice ?w 0 16 = RELEASE_MAGIC" "sub_slice ?w 16 24 = to_le_bytes 8 (rm_release m)"
    "sub_slice ?w 24 88 = rm_next_root_digest m"
    using len by (simp_all add: manifest_encode_def slices)
  moreover have "sub_slice ?w (88 + i * 64) (152 + i * 64) = rm_artifact_roots m ! i" if "i < 5" for i
    using concat_chunk [OF len(2), of i] that len by (simp add: manifest_encode_def slices add.commute)
  then have "map (\<lambda>i. sub_slice ?w (88 + i * 64) (152 + i * 64)) [0..<5] = rm_artifact_roots m"
    using len(3) by (intro nth_equalityI) simp_all
  ultimately show ?thesis using assms
    by (auto simp: manifest_decode_def manifest_new_def RELEASE_MANIFEST_BYTES_def manifest_wf_def digest_ok_def)
qed

lemma manifest_decode_okD:
  assumes "manifest_decode w = Ok m"
  shows "manifest_wf m \<and> manifest_encode m = w"
proof -
  from assms have w: "length w = 408" "sub_slice w 0 16 = RELEASE_MAGIC"
    "manifest_new (from_le_bytes (sub_slice w 16 24)) (sub_slice w 24 88)
       (map (\<lambda>index. sub_slice w (88 + index * 64) (152 + index * 64)) [0..<5]) = Ok m"
    by (simp_all add: manifest_decode_def RELEASE_MANIFEST_BYTES_def split: if_splits)
  then have m: "rm_release m = from_le_bytes (sub_slice w 16 24)" "rm_next_root_digest m = sub_slice w 24 88"
    "rm_artifact_roots m = map (\<lambda>index. sub_slice w (88 + index * 64) (152 + index * 64)) [0..<5]"
    "rm_release m \<noteq> 0" "\<not> zeroed (rm_next_root_digest m)" "\<forall>r \<in> set (rm_artifact_roots m). \<not> zeroed r"
    by (auto simp: manifest_new_def split: if_splits)
  have "manifest_wf m" unfolding manifest_wf_def digest_ok_def using m(4-6)
    by (auto simp: m(2,3) length_sub_slice w(1))
  moreover have "manifest_encode m = w"
  proof -
    have "w = sub_slice w 0 408" using w(1) by (simp add: sub_slice_def)
    also have "\<dots> = sub_slice w 0 16 @ sub_slice w 16 24 @ sub_slice w 24 88 @ sub_slice w 88 152 @ sub_slice w 152 216 @
        sub_slice w 216 280 @ sub_slice w 280 344 @ sub_slice w 344 408"
      by (simp add: sub_slice_append flip: append_assoc)
    also have "\<dots> = manifest_encode m"
      using w(1,2) by (simp add: manifest_encode_def m(1-3) five length_sub_slice)
    finally show ?thesis by simp
  qed
  ultimately show ?thesis by simp
qed

interpretation releases: codec manifest_encode manifest_decode manifest_wf
  by unfold_locales (simp_all add: manifest_decode_encode manifest_decode_okD)

lemma decode_bootstrap_encode:
  assumes "bootstrap_wf st"
  shows "decode_authenticated (bootstrap_encode st) = Ok st"
proof -
  have "length (bs_current_root_digest st) = 64" using assms by (simp add: bootstrap_wf_def digest_ok_def)
  then have "length (bootstrap_encode st) = 88" "sub_slice (bootstrap_encode st) 0 16 = BOOTSTATE_MAGIC"
    "sub_slice (bootstrap_encode st) 16 24 = to_le_bytes 8 (bs_minimum_release st)"
    "sub_slice (bootstrap_encode st) 24 88 = bs_current_root_digest st"
    by (simp_all add: bootstrap_encode_def slices)
  then show ?thesis using assms
    by (simp add: decode_authenticated_def BOOTSTRAP_STATE_BYTES_def bootstrap_wf_def digest_ok_def Let_def)
qed

lemma decode_authenticated_okD:
  assumes "decode_authenticated w = Ok st"
  shows "bootstrap_wf st \<and> bootstrap_encode st = w"
proof -
  from assms have w: "length w = 88" "sub_slice w 0 16 = BOOTSTATE_MAGIC" "\<not> zeroed (sub_slice w 24 88)"
    "bs_minimum_release st = from_le_bytes (sub_slice w 16 24)" "bs_minimum_release st \<noteq> 0"
    "bs_current_root_digest st = sub_slice w 24 88"
    by (auto simp: decode_authenticated_def BOOTSTRAP_STATE_BYTES_def Let_def split: if_splits)
  have "w = sub_slice w 0 88" using w(1) by (simp add: sub_slice_def)
  also have "\<dots> = sub_slice w 0 16 @ sub_slice w 16 24 @ sub_slice w 24 88"
    by (simp add: sub_slice_append flip: append_assoc)
  also have "\<dots> = bootstrap_encode st" using w by (simp add: bootstrap_encode_def length_sub_slice)
  finally show ?thesis using w by (simp add: bootstrap_wf_def digest_ok_def length_sub_slice)
qed

interpretation bootstate: codec bootstrap_encode decode_authenticated bootstrap_wf
  by unfold_locales (simp_all add: decode_bootstrap_encode decode_authenticated_okD)

text \<open>The container of a signed artifact, as the signing tool lays it out.\<close>

definition container :: "signed_artifact \<Rightarrow> bytes" where
  "container a = SIGNED_ARTIFACT_MAGIC @ [kind_code (sa_kind a)] @ replicate 7 0 @ to_le_bytes 8 (sa_version a) @
     to_le_bytes 8 (of_nat (length (sa_payload a)) :: u64) @ sha3_512 (sa_payload a) @ replicate 8 0 @
     sa_public_key a @ sa_signature a @ sa_payload a"

definition container_wf :: "signed_artifact \<Rightarrow> bool" where
  "container_wf a \<longleftrightarrow> sa_version a \<noteq> 0 \<and> sa_payload a \<noteq> [] \<and> 98416 + length (sa_payload a) < 2 ^ 64 \<and>
     length (sa_public_key a) = 65536 \<and> length (sa_signature a) = 32768"

lemmas container_sizes = SIGNED_ARTIFACT_HEADER_BYTES_def LAMPORT_PUBLIC_KEY_BYTES_def LAMPORT_PRIVATE_KEY_BYTES_def
  LAMPORT_SIGNATURE_BYTES_def

lemma unat_small_u64: "n < 2 ^ 64 \<Longrightarrow> unat (of_nat n :: u64) = n"
  by (simp only: unsigned_of_nat) (simp add: take_bit_nat_eq_self)

lemma container_fields:
  assumes "container_wf a"
  shows "length (container a) = 98416 + length (sa_payload a)" and "sub_slice (container a) 0 16 = SIGNED_ARTIFACT_MAGIC"
    and "container a ! 16 = kind_code (sa_kind a)" and "sub_slice (container a) 17 24 = replicate 7 0"
    and "sub_slice (container a) 24 32 = to_le_bytes 8 (sa_version a)"
    and "sub_slice (container a) 32 40 = to_le_bytes 8 (of_nat (length (sa_payload a)) :: u64)"
    and "sub_slice (container a) 40 104 = sha3_512 (sa_payload a)" and "sub_slice (container a) 104 112 = replicate 8 0"
    and "sub_slice (container a) 112 65648 = sa_public_key a" and "sub_slice (container a) 65648 98416 = sa_signature a"
    and "drop 98416 (container a) = sa_payload a"
  using assms by (simp_all add: container_def container_wf_def slices nth_append flip: append_Cons append_Nil)

lemma signed_decode_container:
  assumes "container_wf a"
  shows "signed_decode (container a) = Ok a"
proof -
  have u: "unat (of_nat (length (sa_payload a)) :: u64) = length (sa_payload a)"
    using assms by (intro unat_small_u64) (simp add: container_wf_def)
  show ?thesis using assms unfolding signed_decode_def Let_def container_sizes
    by (simp add: container_fields [OF assms] u) (auto simp: container_wf_def)
qed

lemma signed_decode_okD:
  assumes "signed_decode w = Ok a"
  shows "container_wf a \<and> container a = w"
proof -
  obtain k where k: "kind_of (w ! 16) = Some k" using assms
    by (auto simp: signed_decode_def Let_def split: if_splits option.splits)
  let ?n = "from_le_bytes (sub_slice w 32 40) :: u64"
  from assms have w: "sub_slice w 0 16 = SIGNED_ARTIFACT_MAGIC" "length w = 98416 + unat ?n"
    "98416 + unat ?n < 2 ^ 64" "unat ?n \<noteq> 0"
    "\<forall>b \<in> set (sub_slice w 17 24). b = 0" "\<forall>b \<in> set (sub_slice w 104 112). b = 0"
    "sub_slice w 40 104 = sha3_512 (drop 98416 w)"
    and a: "sa_kind a = k" "sa_version a = from_le_bytes (sub_slice w 24 32)" "sa_version a \<noteq> 0"
    "sa_payload a = drop 98416 w" "sa_public_key a = sub_slice w 112 65648" "sa_signature a = sub_slice w 65648 98416"
    by (auto simp: signed_decode_def Let_def k container_sizes split: if_splits)
  have wf: "container_wf a" using w a by (simp add: container_wf_def length_sub_slice)
  have z: "replicate 7 0 = sub_slice w 17 24" "replicate 8 0 = sub_slice w 104 112"
    using w by (auto intro!: zeros_eq_replicate [symmetric] simp: length_sub_slice)
  have b: "to_le_bytes 8 (sa_version a) = sub_slice w 24 32"
      "to_le_bytes 8 (of_nat (length (sa_payload a)) :: u64) = sub_slice w 32 40"
    using w(2) by (simp_all add: a length_sub_slice)
  have h: "[w ! 16] = sub_slice w 16 17" using sub_slice_nth [of 16 w] w(2) by simp
  have "w = sub_slice w 0 98416 @ drop 98416 w" by (simp add: sub_slice_def)
  also have "sub_slice w 0 98416 = sub_slice w 0 16 @ [w ! 16] @ sub_slice w 17 24 @ sub_slice w 24 32 @ sub_slice w 32 40 @
      sub_slice w 40 104 @ sub_slice w 104 112 @ sub_slice w 112 65648 @ sub_slice w 65648 98416"
    unfolding h by (simp add: sub_slice_append flip: append_assoc)
  also have "(sub_slice w 0 16 @ [w ! 16] @ sub_slice w 17 24 @ sub_slice w 24 32 @ sub_slice w 32 40 @
      sub_slice w 40 104 @ sub_slice w 104 112 @ sub_slice w 112 65648 @ sub_slice w 65648 98416) @ drop 98416 w = container a"
    unfolding container_def z b unfolding w(1) a(4-6) w(7) [symmetric] append_assoc
    using kind_of_SomeD [OF k] a(1) by simp
  finally show ?thesis using wf by simp
qed

interpretation bundles: codec container signed_decode container_wf
  by unfold_locales (simp_all add: signed_decode_container signed_decode_okD)

section \<open>What verification establishes\<close>

lemma fold_zip_zero:
  "fold (\<lambda>(a, b) d. d OR (a XOR b)) (zip xs ys) (d :: u8) = 0 \<longleftrightarrow> d = 0 \<and> (\<forall>i < min (length xs) (length ys). xs ! i = ys ! i)"
proof -
  have "fold (\<lambda>(a, b) d. d OR (a XOR b)) (zip xs ys) d = 0 \<longleftrightarrow> d = 0 \<and> (\<forall>p \<in> set (zip xs ys). fst p = snd p)"
    by (rule fold_fold_zero) (auto simp: or_eq_0_iff xor_eq_0_iff_eq)
  then show ?thesis by (auto simp: set_zip)
qed

lemma trust_verify_iff:
  assumes "length (tr_public_key_digest root) = 64"
  shows "trust_verify root version artifact public_key signature = Ok v \<longleftrightarrow>
     artifact \<noteq> [] \<and> tr_minimum_version root \<le> version \<and> sha3_512 public_key = tr_public_key_digest root \<and>
     lamport_verify public_key (artifact_statement (tr_kind root) version (of_nat (length artifact)) (sha3_512 artifact)) signature = Ok () \<and>
     v = \<lparr>va_kind = tr_kind root, va_version = version, va_digest = sha3_512 artifact\<rparr>"
proof -
  have "(\<forall>i < min (length (sha3_512 public_key)) (length (tr_public_key_digest root)).
      sha3_512 public_key ! i = tr_public_key_digest root ! i) \<longleftrightarrow> sha3_512 public_key = tr_public_key_digest root"
    using assms by (auto simp: list_eq_iff_nth_eq)
  then show ?thesis
    unfolding trust_verify_def Let_def if_err_Ok_iff and_then_Ok_iff map_err_eq_Ok fold_zip_zero not_not
    by (auto simp: not_less lamport_verify_iff)
qed

lemma constant_time_equal_iff: "length a = 64 \<Longrightarrow> length b = 64 \<Longrightarrow> constant_time_equal a b \<longleftrightarrow> a = b"
  unfolding constant_time_equal_def fold_or_zero xor_eq_0_iff_eq by (auto simp: list_eq_iff_nth_eq)

lemma artifact_statement_inj:
  assumes "artifact_statement k v n d = artifact_statement k' v' n' d'"
  shows "k = k' \<and> v = v' \<and> n = n' \<and> d = d'"
proof -
  have "kind_code k = kind_code k'" "to_le_bytes 8 v = to_le_bytes 8 v'" "to_le_bytes 8 n = to_le_bytes 8 n'" "d = d'"
    using assms by (simp_all add: artifact_statement_def)
  moreover from this(1) have "k = k'" using kind_of_code by (metis option.inject)
  moreover have "v = v'" using arg_cong [OF calculation(2), of "from_le_bytes :: bytes \<Rightarrow> u64"] by simp
  moreover have "n = n'" using arg_cong [OF calculation(3), of "from_le_bytes :: bytes \<Rightarrow> u64"] by simp
  ultimately show ?thesis by simp
qed

lemma verify_release_okD:
  assumes "verify_release st encoded public_key signature = Ok (m, n)" and "bootstrap_wf st"
  shows "manifest_decode encoded = Ok m" and "bs_minimum_release st \<le> rm_release m"
    and "sha3_512 public_key = bs_current_root_digest st"
    and "n = \<lparr>bs_current_root_digest = rm_next_root_digest m, bs_minimum_release = rm_release m + 1\<rparr>"
    and "rm_next_root_digest m \<noteq> bs_current_root_digest st"
    and "bootstrap_wf n" and "unat (bs_minimum_release n) = unat (rm_release m) + 1"
proof -
  have l: "length (bs_current_root_digest st) = 64" using assms(2) by (simp add: bootstrap_wf_def digest_ok_def)
  from assms(1) obtain v r where m: "manifest_decode encoded = Ok m"
    and v: "trust_verify \<lparr>tr_kind = LaunchPolicy, tr_public_key_digest = bs_current_root_digest st,
          tr_minimum_version = bs_minimum_release st\<rparr> (rm_release m) encoded public_key signature = Ok v"
    and ne: "\<not> constant_time_equal (rm_next_root_digest m) (bs_current_root_digest st)"
    and r: "checked_add (rm_release m) 1 = Some r" "n = \<lparr>bs_current_root_digest = rm_next_root_digest m, bs_minimum_release = r\<rparr>"
    by (auto simp: verify_release_def split: if_splits option.splits)
  show "manifest_decode encoded = Ok m" by (rule m)
  show "bs_minimum_release st \<le> rm_release m" "sha3_512 public_key = bs_current_root_digest st"
    using v l by (simp_all add: trust_verify_iff)
  have wf: "digest_ok (rm_next_root_digest m)" using releases.enc_dec [OF m] by (simp add: manifest_wf_def)
  show "rm_next_root_digest m \<noteq> bs_current_root_digest st"
    using ne constant_time_equal_iff [OF _ l] wf by (simp add: digest_ok_def)
  show "n = \<lparr>bs_current_root_digest = rm_next_root_digest m, bs_minimum_release = rm_release m + 1\<rparr>"
    using r checked_add_SomeD(1) [OF r(1)] by simp
  show u: "unat (bs_minimum_release n) = unat (rm_release m) + 1" using r checked_add_SomeD(2) [OF r(1)] by simp
  then have "bs_minimum_release n \<noteq> 0" by auto
  then show "bootstrap_wf n" using wf r(2) by (simp add: bootstrap_wf_def)
qed

section \<open>Concurrent commits\<close>

type_synonym release_request = "bytes \<times> bytes \<times> bytes"
type_synonym pending_commit = "release_request \<times> release_manifest \<times> u64 \<times> bytes"

datatype commit_event = Prepare nat release_request | Commit nat

text \<open>Clients prepare and commit in any order; the log records the requests that were committed.\<close>

fun store_event ::
  "('s \<Rightarrow> (bytes, artifact_error) result) \<Rightarrow> (u64 \<Rightarrow> bytes \<Rightarrow> 's \<Rightarrow> (unit, artifact_error) result \<times> 's) \<Rightarrow> commit_event \<Rightarrow>
     's \<times> (nat \<rightharpoonup> pending_commit) \<times> release_request list \<Rightarrow> 's \<times> (nat \<rightharpoonup> pending_commit) \<times> release_request list" where
  "store_event load cas (Prepare c req) (s, p, l) =
     (s, p(c := (case req of (m, k, g) \<Rightarrow> case commit_prepare load m k g s of Ok x \<Rightarrow> Some (req, x) | Err _ \<Rightarrow> None)), l)"
| "store_event load cas (Commit c) (s, p, l) =
     (case p c of
        None \<Rightarrow> (s, p, l)
      | Some (req, _, expected, replacement) \<Rightarrow>
          (case cas expected replacement s of (r, s') \<Rightarrow> (s', p(c := None), if is_ok r then l @ [req] else l)))"

definition store_run where
  "store_run load cas events s = fold (store_event load cas) events (s, Map.empty, [])"

lemma verify_and_commit_events:
  "store_run load cas [Prepare c (m, k, g), Commit c] s =
     (snd (verify_and_commit load cas m k g s), Map.empty,
      if is_ok (fst (verify_and_commit load cas m k g s)) then [(m, k, g)] else [])"
  by (auto simp: store_run_def verify_and_commit_def split: result.splits prod.splits)

text \<open>The sequential reference: one request after the other, each checked against the state the
  previous one left.\<close>

fun release_chain :: "bootstrap_state \<Rightarrow> release_request list \<Rightarrow> bootstrap_state option" where
  "release_chain st [] = Some st"
| "release_chain st ((m, k, g) # l) =
     (case verify_release st m k g of Ok (_, st') \<Rightarrow> release_chain st' l | Err _ \<Rightarrow> None)"

lemma release_chain_snoc:
  "release_chain st (l @ [(m, k, g)]) = (case release_chain st l of None \<Rightarrow> None | Some st' \<Rightarrow>
     (case verify_release st' m k g of Ok (_, n) \<Rightarrow> Some n | Err _ \<Rightarrow> None))"
  by (induction st l rule: release_chain.induct) (auto split: result.splits)

definition request_release :: "release_request \<Rightarrow> u64" where
  "request_release req = (case manifest_decode (fst req) of Ok m \<Rightarrow> rm_release m | Err _ \<Rightarrow> 0)"

definition request_next_root :: "release_request \<Rightarrow> bytes" where
  "request_next_root req = (case manifest_decode (fst req) of Ok m \<Rightarrow> rm_next_root_digest m | Err _ \<Rightarrow> [])"

definition request_key :: "release_request \<Rightarrow> bytes" where "request_key req = fst (snd req)"

lemma release_chain_okD:
  assumes "release_chain st l = Some n" and "bootstrap_wf st"
  shows "sorted_wrt (<) (map request_release l) \<and> (\<forall>r \<in> set l. bs_minimum_release st \<le> request_release r) \<and>
     (\<forall>i. Suc i < length l \<longrightarrow> sha3_512 (request_key (l ! Suc i)) = request_next_root (l ! i)) \<and>
     (l \<noteq> [] \<longrightarrow> sha3_512 (request_key (l ! 0)) = bs_current_root_digest st)"
  using assms
proof (induction st l rule: release_chain.induct)
  case (2 st m k g l)
  from 2(2) obtain man st1 where v: "verify_release st m k g = Ok (man, st1)" "release_chain st1 l = Some n"
    by (auto split: result.splits)
  note f = verify_release_okD [OF v(1) 2(3)]
  have ih: "sorted_wrt (<) (map request_release l)" "\<forall>r \<in> set l. bs_minimum_release st1 \<le> request_release r"
     "\<forall>i. Suc i < length l \<longrightarrow> sha3_512 (request_key (l ! Suc i)) = request_next_root (l ! i)"
     "l \<noteq> [] \<longrightarrow> sha3_512 (request_key (l ! 0)) = bs_current_root_digest st1"
    using 2(1) [OF v(1) refl v(2) f(6)] by simp_all
  have head: "request_release (m, k, g) = rm_release man" "request_next_root (m, k, g) = bs_current_root_digest st1"
    using f(1,4) by (simp_all add: request_release_def request_next_root_def)
  have lt: "rm_release man < bs_minimum_release st1" using f(7) by (simp add: word_less_nat_alt)
  have "\<forall>r \<in> set l. rm_release man < request_release r" using ih(2) lt by (meson less_le_trans)
  moreover have "\<forall>r \<in> set l. bs_minimum_release st \<le> request_release r"
    using calculation f(2) by (meson less_imp_le order_trans)
  moreover have "sha3_512 (request_key (((m, k, g) # l) ! Suc i)) = request_next_root (((m, k, g) # l) ! i)"
    if "Suc i < length ((m, k, g) # l)" for i
    using that ih(3,4) head(2) by (cases i) auto
  ultimately show ?case using ih(1) head(1) f(2,3) by (auto simp: request_key_def)
qed simp

text \<open>A prepared commit was checked against a state that is still current or has been passed.\<close>

fun pending_ok :: "bootstrap_state \<Rightarrow> pending_commit \<Rightarrow> bool" where
  "pending_ok st ((m, k, g), rel, expected, replacement) \<longleftrightarrow>
     (\<exists>cur next_state. verify_release cur m k g = Ok (rel, next_state) \<and> bootstrap_wf cur \<and>
        expected = bs_minimum_release cur \<and> replacement = bootstrap_encode next_state \<and>
        (cur = st \<or> bs_minimum_release cur < bs_minimum_release st))"

lemma pending_ok_mono: "pending_ok st x \<Longrightarrow> bs_minimum_release st < bs_minimum_release n \<Longrightarrow> pending_ok n x"
  by (cases "(st, x)" rule: pending_ok.cases) (auto intro: less_trans)

context monotonic_store
begin

definition commits_ok :: "bootstrap_state \<Rightarrow> 's \<times> (nat \<rightharpoonup> pending_commit) \<times> release_request list \<Rightarrow> bool" where
  "commits_ok st0 = (\<lambda>(s, p, l). \<exists>st. decode_authenticated (saved s) = Ok st \<and> release_chain st0 l = Some st \<and>
     (\<forall>x \<in> ran p. pending_ok st x))"

lemma prepare_commits_ok:
  assumes "commits_ok st0 (s, p, l)"
  shows "commits_ok st0 (store_event load cas (Prepare c req) (s, p, l))"
proof (cases req)
  case (fields m k g)
  obtain st where st: "decode_authenticated (saved s) = Ok st" "release_chain st0 l = Some st" "\<forall>x \<in> ran p. pending_ok st x"
    using assms by (auto simp: commits_ok_def)
  show ?thesis
  proof (cases "commit_prepare load m k g s")
    case (Ok x)
    then have "pending_ok st (req, x)" using st(1) load_authentic bootstate.enc_dec [OF st(1)]
      by (cases x) (fastforce simp: commit_prepare_def fields)
    then have "\<forall>y \<in> ran (p(c \<mapsto> (req, x))). pending_ok st y"
      using st(3) unfolding ran_def by (auto simp del: pending_ok.simps split_paired_All split_paired_Ex)
    then show ?thesis using st(1,2) Ok by (simp add: commits_ok_def fields)
  next
    case (Err e)
    have "ran (p(c := None)) \<subseteq> ran p" by (auto simp: ran_def)
    then show ?thesis using st Err by (auto simp: commits_ok_def fields)
  qed
qed

lemma commit_commits_ok:
  assumes "commits_ok st0 (s, p, l)"
  shows "commits_ok st0 (store_event load cas (Commit c) (s, p, l))"
proof (cases "p c")
  case (Some x)
  then obtain m k g rel expected replacement where x: "p c = Some ((m, k, g), rel, expected, replacement)" by (cases x) auto
  obtain st where st: "decode_authenticated (saved s) = Ok st" "release_chain st0 l = Some st" "\<forall>x \<in> ran p. pending_ok st x"
    using assms by (auto simp: commits_ok_def)
  obtain r s' where r: "cas expected replacement s = (r, s')" by fastforce
  have sub: "ran (p(c := None)) \<subseteq> ran p" by (auto simp: ran_def)
  show ?thesis
  proof (cases r)
    case (Ok u)
    obtain cur n where cur: "verify_release cur m k g = Ok (rel, n)" "bootstrap_wf cur" "expected = bs_minimum_release cur"
        "replacement = bootstrap_encode n" "cur = st \<or> bs_minimum_release cur < bs_minimum_release st"
      using st(3) ranI [of p c, OF x] by fastforce
    have saved: "saved s' = replacement" "bs_minimum_release st = expected" using cas_stored [OF r [unfolded Ok]] st by auto
    then have "cur = st" using cur by auto
    note f = verify_release_okD [OF cur(1,2)]
    have "bs_minimum_release st < bs_minimum_release n" using f(2,7) \<open>cur = st\<close> by (simp add: word_less_nat_alt word_le_nat_alt)
    then have "\<forall>x \<in> ran (p(c := None)). pending_ok n x" using st(3) sub pending_ok_mono by blast
    moreover have "decode_authenticated (saved s') = Ok n" using saved(1) cur(4) f(6) by (simp add: decode_bootstrap_encode)
    moreover have "release_chain st0 (l @ [(m, k, g)]) = Some n" using st(2) cur(1) \<open>cur = st\<close> by (simp add: release_chain_snoc)
    ultimately show ?thesis by (simp add: commits_ok_def x r Ok)
  next
    case (Err e)
    then have "saved s' = saved s" using cas_refused r by blast
    then show ?thesis using st sub by (auto simp: commits_ok_def x r Err)
  qed
qed (use assms in simp)

lemma store_run_commits_ok:
  assumes "decode_authenticated (saved s) = Ok st0"
  shows "commits_ok st0 (store_run load cas events s)"
proof -
  have "commits_ok st0 x \<Longrightarrow> commits_ok st0 (fold (store_event load cas) events x)" for x
  proof (induction events arbitrary: x)
    case (Cons e events)
    obtain s p l where x: "x = (s, p, l)" by (cases x) auto
    show ?case using Cons prepare_commits_ok commit_commits_ok by (cases e) (auto simp: x)
  qed simp
  then show ?thesis using assms by (simp add: store_run_def commits_ok_def)
qed

end

section \<open>Boot chains\<close>

definition kinds :: "artifact_kind list" where "kinds = [Kernel, VmImage, ServiceImage, CudaKernelBundle, LaunchPolicy]"

definition present_of :: "artifact_kind set \<Rightarrow> bool list" where "present_of S = map (\<lambda>k. k \<in> S) kinds"

lemma kinds_UNIV: "set kinds = UNIV"
  unfolding kinds_def by (auto intro: artifact_kind.exhaust)

lemma present_of_nth: "present_of S ! (unat (kind_code k) - 1) \<longleftrightarrow> k \<in> S"
  by (cases k) (simp_all add: present_of_def kinds_def kind_code_def)

lemma present_of_update: "(present_of S)[unat (kind_code k) - 1 := True] = present_of (insert k S)"
  by (cases k) (simp_all add: present_of_def kinds_def kind_code_def)

lemma check_chain_iff:
  "check_chain p ev as (present_of S) = Ok present \<longleftrightarrow>
     (\<forall>a \<in> set as. bp_minimum_image_version p \<le> va_version a \<and> va_version a = be_image_version ev \<and> va_kind a \<notin> S \<and>
        (va_kind a = Kernel \<longrightarrow> va_digest a = be_image_measurement ev)) \<and>
     distinct (map va_kind as) \<and> present = present_of (S \<union> va_kind ` set as)"
proof (induction as arbitrary: S)
  case (Cons a as)
  show ?case
    unfolding check_chain.simps Let_def if_err_Ok_iff present_of_nth present_of_update Cons
    by (auto simp: not_less image_iff)
qed auto

section \<open>Properties\<close>

text \<open>
  Property C18.  A bundle the signing tool writes is accepted: it decodes to the signed kind, version,
  payload, key and signature, verifies under every trust root of that kind for that key whose minimum
  version it reaches, and, for the kinds that are executables, yields the parsed image.
\<close>

theorem signed_bundle_accepted:
  assumes "sign_bundle kind version output_exists artifact private_key = Ok bundle"
    and "tr_kind root = kind" and "tr_minimum_version root \<le> version"
    and "tr_public_key_digest root = sha3_512 (snd (lamport_public_key private_key (replicate 65536 0)))"
  shows "\<exists>a v. signed_decode bundle = Ok a \<and> sa_kind a = kind \<and> sa_version a = version \<and> sa_payload a = artifact \<and>
     signed_verify a root kind = Ok v \<and> v = \<lparr>va_kind = kind, va_version = version, va_digest = sha3_512 artifact\<rparr> \<and>
     (\<forall>m. executable_image_limit kind = Some m \<longrightarrow>
        (\<exists>img. parse_with_limit artifact m = Ok img \<and> verify_executable a root kind = Ok \<lparr>ve_artifact = v, ve_image = img\<rparr>))"
proof -
  have key: "length private_key = LAMPORT_PRIVATE_KEY_BYTES" using assms(1) by (auto simp: sign_bundle_def split: if_splits)
  note pk = lamport_public_key_ok [OF key, of "replicate LAMPORT_PUBLIC_KEY_BYTES 0"]
  let ?st = "artifact_statement kind version (of_nat (length artifact)) (sha3_512 artifact)"
  obtain sig where sig: "lamport_sign private_key ?st (replicate LAMPORT_SIGNATURE_BYTES 0) = (Ok (), sig)"
      "length sig = LAMPORT_SIGNATURE_BYTES" "lamport_verify (derived_key private_key) ?st sig = Ok ()"
    using lamport_sign_ok [OF key, of "replicate LAMPORT_SIGNATURE_BYTES 0"] by auto
  let ?a = "\<lparr>sa_kind = kind, sa_version = version, sa_payload = artifact, sa_public_key = derived_key private_key, sa_signature = sig\<rparr>"
  have b: "version \<noteq> 0" "artifact \<noteq> []" "98416 + length artifact < 2 ^ 64" "bundle = container ?a"
    "\<forall>m. executable_image_limit kind = Some m \<longrightarrow> (\<exists>img. parse_with_limit artifact m = Ok img)"
    using assms(1) pk(1) sig key unfolding sign_bundle_def Let_def if_err_Ok_iff and_then_Ok_iff
    by (auto simp: container_def container_sizes if_err_Ok_iff split: option.splits)
  then have dec: "signed_decode bundle = Ok ?a" using pk(2) sig(2)
    by (simp add: signed_decode_container container_wf_def container_sizes)
  have "sha3_512 (derived_key private_key) = tr_public_key_digest root"
    using assms(4) pk(1) by (simp add: container_sizes)
  moreover from this have "length (tr_public_key_digest root) = 64" using length_sha3_512 by metis
  ultimately have "trust_verify root version artifact (derived_key private_key) sig =
      Ok \<lparr>va_kind = kind, va_version = version, va_digest = sha3_512 artifact\<rparr>"
    using assms(2,3) b(2) sig(3) by (subst trust_verify_iff) (auto simp flip: assms(2))
  then have ver: "signed_verify ?a root kind = Ok \<lparr>va_kind = kind, va_version = version, va_digest = sha3_512 artifact\<rparr>"
    using assms(2) by (simp add: signed_verify_def)
  then show ?thesis using dec b(5) by (auto simp: verify_executable_def)
qed

lemma limit_grows:
  assumes "m \<le> m'" and "m' \<le> MAX_PE_IMAGE_BYTES" and "\<not> (m = 0 \<or> MAX_PE_IMAGE_BYTES < m)"
  shows "m' \<noteq> 0" and "\<not> MAX_PE_IMAGE_BYTES < m'" and "\<not> m < n \<Longrightarrow> \<not> m' < n" and "\<not> unat m < l \<Longrightarrow> \<not> unat m' < l"
  using assms by (auto simp: not_less word_le_nat_alt unat_eq_0)

lemma parse_larger_limit:
  assumes "parse_with_limit encoded m = Ok img" and "m \<le> m'" and "m' \<le> MAX_PE_IMAGE_BYTES"
  shows "parse_with_limit encoded m' = Ok img"
proof -
  have "\<not> (m = 0 \<or> MAX_PE_IMAGE_BYTES < m)" using assms(1) by (auto simp: parse_with_limit_def)
  note l = limit_grows [OF assms(2,3) this]
  show ?thesis using assms(1) unfolding parse_with_limit_def Let_def and_then_Ok_iff if_err_Ok_iff case_prod_beta de_Morgan_disj
    by (elim exE conjE) (intro conjI exI; (assumption | rule l); assumption?)
qed

lemma demo_kernel_parses: "parse_with_limit demo_pe MAX_KERNEL_IMAGE_BYTES = Ok demo_image"
  using parse_larger_limit [OF demo_pe_parses] by (simp add: MAX_KERNEL_IMAGE_BYTES_def MAX_PE_IMAGE_BYTES_def)

lemma demo_pe_nonempty [simp]: "demo_pe \<noteq> []"
  by (metis length_demo_pe list.size(3) zero_neq_numeral)

definition demo_key :: bytes where "demo_key = replicate 65536 7"

definition demo_root :: trust_root where
  "demo_root = \<lparr>tr_kind = Kernel, tr_public_key_digest = sha3_512 (snd (lamport_public_key demo_key (replicate 65536 0))),
     tr_minimum_version = 3\<rparr>"

lemma demo_bundle: "\<exists>bundle. sign_bundle Kernel 4 False demo_pe demo_key = Ok bundle"
proof -
  have key: "length demo_key = LAMPORT_PRIVATE_KEY_BYTES" by (simp add: demo_key_def container_sizes)
  let ?st = "artifact_statement Kernel 4 (of_nat (length demo_pe)) (sha3_512 demo_pe)"
  obtain sig where "lamport_sign demo_key ?st (replicate LAMPORT_SIGNATURE_BYTES 0) = (Ok (), sig)"
      "lamport_verify (derived_key demo_key) ?st sig = Ok ()"
    using lamport_sign_ok [OF key, of "replicate LAMPORT_SIGNATURE_BYTES 0"] by auto
  then show ?thesis using lamport_public_key_ok [OF key, of "replicate LAMPORT_PUBLIC_KEY_BYTES 0"] key
    by (auto simp: sign_bundle_def Let_def executable_image_limit_def demo_kernel_parses length_demo_pe container_sizes)
qed

theorem signed_bundle_accepted_witness:
  "\<exists>bundle a v. sign_bundle Kernel 4 False demo_pe demo_key = Ok bundle \<and> signed_decode bundle = Ok a \<and>
     verify_executable a demo_root Kernel = Ok v \<and> ve_image v = demo_image"
proof -
  obtain encoded where b: "sign_bundle Kernel 4 False demo_pe demo_key = Ok encoded" using demo_bundle by blast
  have "executable_image_limit Kernel = Some MAX_KERNEL_IMAGE_BYTES" by (simp add: executable_image_limit_def)
  then show ?thesis using signed_bundle_accepted [OF b, of demo_root] demo_kernel_parses
    by (auto simp: demo_root_def b)
qed

text \<open>
  Property C17.  An executable that is accepted from an encoded bundle under a trust root is authentic:
  the bundle is the canonical encoding of what it decodes to, its kind is an executable kind and
  the root's, its version is not below the root's minimum, its public key hashes to the root's digest,
  its signature verifies for a statement that no other kind, version, length or digest has, and the
  image is the payload's.
\<close>

theorem executable_authentic:
  assumes "signed_decode encoded = Ok a" and "verify_executable a root kind = Ok v"
    and "length (tr_public_key_digest root) = 64"
  shows "encoded = container a \<and> sa_kind a = kind \<and> tr_kind root = kind \<and> tr_minimum_version root \<le> sa_version a \<and>
     sha3_512 (sa_public_key a) = tr_public_key_digest root \<and>
     lamport_verify (sa_public_key a)
       (artifact_statement kind (sa_version a) (of_nat (length (sa_payload a))) (sha3_512 (sa_payload a))) (sa_signature a) = Ok () \<and>
     (\<forall>k w n d. artifact_statement k w n d =
          artifact_statement kind (sa_version a) (of_nat (length (sa_payload a))) (sha3_512 (sa_payload a)) \<longrightarrow>
        k = kind \<and> w = sa_version a \<and> unat n = length (sa_payload a) \<and> d = va_digest (ve_artifact v)) \<and>
     (\<exists>m. executable_image_limit kind = Some m \<and> parse_with_limit (sa_payload a) m = Ok (ve_image v))"
proof -
  obtain m art where m: "executable_image_limit kind = Some m" "signed_verify a root kind = Ok art"
      "parse_with_limit (sa_payload a) m = Ok (ve_image v)" "ve_artifact v = art"
    using assms(2) by (auto simp: verify_executable_def)
  have k: "sa_kind a = kind" "tr_kind root = kind" using m(2) by (auto simp: signed_verify_def split: if_splits)
  have t: "trust_verify root (sa_version a) (sa_payload a) (sa_public_key a) (sa_signature a) = Ok art"
    using m(2) k by (simp add: signed_verify_def)
  note t = t [unfolded trust_verify_iff [OF assms(3)] k(2)]
  have c: "container_wf a" "encoded = container a" using bundles.enc_dec [OF assms(1)] by simp_all
  have u: "unat (of_nat (length (sa_payload a)) :: u64) = length (sa_payload a)"
    using c(1) by (intro unat_small_u64) (simp add: container_wf_def)
  have inj: "k' = kind \<and> w = sa_version a \<and> unat n = length (sa_payload a) \<and> d = va_digest (ve_artifact v)"
    if "artifact_statement k' w n d = artifact_statement kind (sa_version a) (of_nat (length (sa_payload a))) (sha3_512 (sa_payload a))"
    for k' w n d using artifact_statement_inj [OF that] t m(4) u by simp
  show ?thesis using c(2) k t m(1,3) inj by blast
qed

lemma demo_accepted:
  obtains encoded a v where "signed_decode encoded = Ok a" "verify_executable a demo_root Kernel = Ok v" "sa_payload a = demo_pe"
proof -
  have key: "length demo_key = LAMPORT_PRIVATE_KEY_BYTES" by (simp add: demo_key_def container_sizes)
  note pk = lamport_public_key_ok [OF key, of "replicate 65536 0"]
  obtain sig where sig: "length sig = LAMPORT_SIGNATURE_BYTES"
      "lamport_verify (derived_key demo_key) (artifact_statement Kernel 4 (of_nat (length demo_pe)) (sha3_512 demo_pe)) sig = Ok ()"
    using lamport_sign_ok [OF key, of "replicate LAMPORT_SIGNATURE_BYTES 0"] by auto
  let ?a = "\<lparr>sa_kind = Kernel, sa_version = 4, sa_payload = demo_pe, sa_public_key = derived_key demo_key, sa_signature = sig\<rparr>"
  have "container_wf ?a" using pk(2) sig(1) length_demo_pe by (auto simp: container_wf_def container_sizes)
  then have "signed_decode (container ?a) = Ok ?a" by (rule signed_decode_container)
  moreover have "length (tr_public_key_digest demo_root) = 64" "demo_pe \<noteq> []" using length_demo_pe by (auto simp: demo_root_def)
  then have "\<exists>v. signed_verify ?a demo_root Kernel = Ok v"
    using pk(1) sig(2) by (simp add: signed_verify_def trust_verify_iff) (simp add: demo_root_def container_sizes)
  then have "\<exists>v. verify_executable ?a demo_root Kernel = Ok v"
    using demo_kernel_parses by (auto simp: verify_executable_def executable_image_limit_def)
  ultimately show ?thesis using that by auto
qed

theorem executable_authentic_witness:
  "\<exists>bundle a (v :: verified_executable). bundle = container a \<and> sa_payload a = demo_pe \<and> 3 \<le> sa_version a \<and>
     parse_with_limit demo_pe MAX_KERNEL_IMAGE_BYTES = Ok (ve_image v)"
proof -
  obtain encoded a v where d: "signed_decode encoded = Ok a" "verify_executable a demo_root Kernel = Ok v" "sa_payload a = demo_pe"
    by (rule demo_accepted)
  have l: "length (tr_public_key_digest demo_root) = 64" by (simp add: demo_root_def)
  note f = executable_authentic [OF d(1,2) l, unfolded d(3)]
  have "encoded = container a" using f by (elim conjE)
  moreover have "tr_minimum_version demo_root \<le> sa_version a" using f by (elim conjE)
  then have "3 \<le> sa_version a" by (simp add: demo_root_def)
  moreover have "\<exists>m. executable_image_limit Kernel = Some m \<and> parse_with_limit demo_pe m = Ok (ve_image v)"
    using f by (elim conjE)
  then have "parse_with_limit demo_pe MAX_KERNEL_IMAGE_BYTES = Ok (ve_image v)"
    unfolding executable_image_limit_def artifact_kind.case by (elim exE conjE) (simp only: option.inject)
  ultimately show ?thesis using d(3)
    by - (rule exI [of _ encoded], rule exI [of _ a], rule exI [of _ v], intro conjI; assumption)
qed

text \<open>
  Property C16.  Releases form one chain.  For every store that keeps the documented contract and every
  interleaving of clients that check a release and commit it later, the committed releases are
  exactly accepted in sequence, each against the state the previous one left; their numbers
  strictly increase from the minimum of the initial state, and each is signed with the key whose digest
  the previous one named.  Refused commits leave the stored state alone.
\<close>

theorem release_chain_linear:
  assumes "monotonic_store load cas saved" and "decode_authenticated (saved s) = Ok st"
    and "store_run load cas events s = (s', pending, log)"
  shows "(\<exists>st'. release_chain st log = Some st' \<and> saved s' = bootstrap_encode st') \<and>
     sorted_wrt (<) (map request_release log) \<and> (\<forall>r \<in> set log. bs_minimum_release st \<le> request_release r) \<and>
     (\<forall>i. Suc i < length log \<longrightarrow> sha3_512 (request_key (log ! Suc i)) = request_next_root (log ! i)) \<and>
     (log \<noteq> [] \<longrightarrow> sha3_512 (request_key (log ! 0)) = bs_current_root_digest st)"
proof -
  have "monotonic_store.commits_ok saved st (s', pending, log)"
    using monotonic_store.store_run_commits_ok [OF assms(1,2), of events] assms(3) by simp
  then obtain st' where st': "decode_authenticated (saved s') = Ok st'" "release_chain st log = Some st'"
    by (auto simp: monotonic_store.commits_ok_def [OF assms(1)])
  have "bootstrap_wf st" "saved s' = bootstrap_encode st'"
    using bootstate.enc_dec [OF assms(2)] bootstate.enc_dec [OF st'(1)] by simp_all
  then show ?thesis using release_chain_okD [OF st'(2)] st'(2) by simp
qed

definition demo_store :: test_state_store where
  "demo_store = \<lparr>ts_state = bootstrap_encode \<lparr>bs_current_root_digest = replicate 64 1, bs_minimum_release = 7\<rparr>,
     ts_force_conflict = False\<rparr>"

theorem release_chain_linear_witness:
  "\<exists>s p l. store_run test_load test_compare_and_store [Prepare 0 ([1], [2], [3]), Commit 0] demo_store = (s, p, l) \<and>
     (\<exists>st'. release_chain \<lparr>bs_current_root_digest = replicate 64 1, bs_minimum_release = 7\<rparr> l = Some st' \<and>
        ts_state s = bootstrap_encode st')"
proof -
  obtain s p l where r: "store_run test_load test_compare_and_store [Prepare 0 ([1], [2], [3]), Commit 0] demo_store = (s, p, l)"
    by (cases "store_run test_load test_compare_and_store [Prepare 0 ([1], [2], [3]), Commit 0] demo_store") auto
  have "decode_authenticated (ts_state demo_store) = Ok \<lparr>bs_current_root_digest = replicate 64 1, bs_minimum_release = 7\<rparr>"
    unfolding demo_store_def by (simp add: decode_bootstrap_encode bootstrap_wf_def digest_ok_def zeroed_def)
  from release_chain_linear [OF tests.monotonic_store_axioms this r] r show ?thesis by blast
qed

text \<open>
  The signed boot chain is accepted exactly when the evidence satisfies the policy, each
  of the five kinds of artifact is present once, every artifact has the version of the booted image, and
  the kernel artifact's digest is the measured one.
\<close>

theorem signed_chain_iff:
  "validate_signed_chain p ev artifacts = Ok () \<longleftrightarrow>
     (bp_require_secure_boot p \<longrightarrow> be_secure_boot ev) \<and> (bp_require_measured_boot p \<longrightarrow> be_measured_boot ev) \<and>
     (bp_require_rollback_protection p \<longrightarrow> be_rollback_protected ev) \<and>
     bp_minimum_image_version p \<le> be_image_version ev \<and>
     distinct (map va_kind artifacts) \<and> set (map va_kind artifacts) = UNIV \<and>
     (\<forall>a \<in> set artifacts. va_version a = be_image_version ev) \<and>
     (\<forall>a \<in> set artifacts. va_kind a = Kernel \<longrightarrow> va_digest a = be_image_measurement ev)"
proof -
  have e: "replicate 5 False = present_of {}" by (simp add: present_of_def kinds_def eval_nat_numeral)
  have "(\<exists>v \<in> set (present_of S). \<not> v) \<longleftrightarrow> S \<noteq> UNIV" for S
    using kinds_UNIV by (auto simp: present_of_def)
  then show ?thesis unfolding validate_signed_chain_def and_then_Ok_iff e check_chain_iff
    by (auto simp: boot_validate_def not_less)
qed

definition demo_evidence :: boot_evidence where
  "demo_evidence = \<lparr>be_entropy = replicate 32 1, be_image_measurement = replicate 64 2, be_image_version = 8,
     be_secure_boot = True, be_measured_boot = True, be_rollback_protected = True\<rparr>"

definition demo_artifact :: "artifact_kind \<Rightarrow> verified_artifact" where
  "demo_artifact k = \<lparr>va_kind = k, va_version = 8, va_digest = replicate 64 2\<rparr>"

theorem signed_chain_iff_witness:
  "validate_signed_chain (production_policy 8) demo_evidence (map demo_artifact kinds) = Ok () \<and>
     validate_signed_chain (production_policy 8) demo_evidence [demo_artifact Kernel] \<noteq> Ok ()"
proof -
  have "map va_kind (map demo_artifact kinds) = kinds" by (simp add: demo_artifact_def kinds_def)
  moreover have "distinct kinds" by (simp add: kinds_def)
  moreover have "\<forall>a \<in> set (map demo_artifact kinds). va_version a = 8" "\<forall>a \<in> set (map demo_artifact kinds). va_digest a = replicate 64 2"
    by (auto simp: demo_artifact_def)
  moreover have "VmImage \<notin> set (map va_kind [demo_artifact Kernel])" by (simp add: demo_artifact_def)
  ultimately show ?thesis unfolding signed_chain_iff production_policy_def demo_evidence_def
    using kinds_UNIV by auto
qed

end
