(* ===== verification/Handoff.thy ===== *)
theory Handoff
  imports Artifact
begin

text \<open>
  The boot handoff, after \<open>crates/mrml-kernel/src/handoff.rs\<close> and the descriptor of
  \<open>framebuffer.rs\<close>: what the firmware loader passes to the kernel.  Encoding into a buffer,
  decoding with the regions it emits, and the launch descriptor of the first service.
\<close>

section \<open>Definitions\<close>

subsection \<open>Framebuffer descriptor\<close>

definition BYTES_PER_PIXEL :: u64 where "BYTES_PER_PIXEL = 4"
definition MAX_DIMENSION :: u32 where "MAX_DIMENSION = 16384"
definition MAX_STRIDE :: u32 where "MAX_STRIDE = 32768"

datatype pixel_format = RedGreenBlueReserved | BlueGreenRedReserved

datatype framebuffer_error =
  FbMissing | FbUnaligned | InvalidDimensions | InvalidStride | FbInvalidLength | FbOverflow |
  UnsupportedPixelFormat | BufferTooSmall | OutOfBounds

record framebuffer_info =
  fb_base :: phys_addr
  fb_byte_length :: u64
  fb_width :: u32
  fb_height :: u32
  fb_stride :: u32
  fb_format :: pixel_format

definition framebuffer_new ::
  "u64 \<Rightarrow> u64 \<Rightarrow> u32 \<Rightarrow> u32 \<Rightarrow> u32 \<Rightarrow> pixel_format \<Rightarrow> (framebuffer_info, framebuffer_error) result" where
  "framebuffer_new base byte_length width height stride format =
     (if base = 0 \<or> byte_length = 0 then Err FbMissing
      else and_then (map_err (\<lambda>_. FbUnaligned) (phys_new base)) (\<lambda>base.
      if width = 0 \<or> height = 0 \<or> width > MAX_DIMENSION \<or> height > MAX_DIMENSION then Err InvalidDimensions
      else if stride < width \<or> stride > MAX_STRIDE then Err InvalidStride
      else case Option.bind (checked_mul (ucast stride :: u64) (ucast height)) (\<lambda>pixels. checked_mul pixels BYTES_PER_PIXEL) of
        None \<Rightarrow> Err FbOverflow
      | Some required \<Rightarrow>
          if byte_length < required \<or> byte_length > 2 ^ 63 - 1 \<or> checked_add (phys_get base) byte_length = None
          then Err FbInvalidLength
          else Ok \<lparr>fb_base = base, fb_byte_length = byte_length, fb_width = width, fb_height = height,
                 fb_stride = stride, fb_format = format\<rparr>))"

definition fb_end :: "framebuffer_info \<Rightarrow> u64" where
  "fb_end fb = phys_get (fb_base fb) + fb_byte_length fb"

subsection \<open>Service launch descriptor\<close>

definition HANDOFF_HEADER_BYTES :: nat where "HANDOFF_HEADER_BYTES = 168"
definition HANDOFF_REGION_BYTES :: nat where "HANDOFF_REGION_BYTES = 24"
definition MAX_HANDOFF_REGIONS :: nat where "MAX_HANDOFF_REGIONS = 128"
definition MAX_HANDOFF_MADT_BYTES :: nat where "MAX_HANDOFF_MADT_BYTES = 8 * 1024"
definition HANDOFF_SERVICE_BYTES :: nat where "HANDOFF_SERVICE_BYTES = 160"

definition FLAG_SECURE_BOOT :: u16 where "FLAG_SECURE_BOOT = 1"
definition FLAG_MEASURED_BOOT :: u16 where "FLAG_MEASURED_BOOT = push_bit 1 1"
definition FLAG_ROLLBACK_PROTECTED :: u16 where "FLAG_ROLLBACK_PROTECTED = push_bit 2 1"
definition FLAG_MADT_SNAPSHOT :: u16 where "FLAG_MADT_SNAPSHOT = push_bit 3 1"
definition FLAG_AP_TRAMPOLINE :: u16 where "FLAG_AP_TRAMPOLINE = push_bit 4 1"
definition FLAG_SERVICE_IMAGE :: u16 where "FLAG_SERVICE_IMAGE = push_bit 5 1"
definition KNOWN_FLAGS :: u16 where
  "KNOWN_FLAGS = FLAG_SECURE_BOOT OR FLAG_MEASURED_BOOT OR FLAG_ROLLBACK_PROTECTED OR FLAG_MADT_SNAPSHOT
     OR FLAG_AP_TRAMPOLINE OR FLAG_SERVICE_IMAGE"

datatype handoff_error =
  HoTruncated | BadMagic | NonCanonical | UnknownFlags | TooManyRegions | MissingAcpiRoot |
  InvalidFramebuffer framebuffer_error | FramebufferOutsideMmio | InvalidMemoryMap memory_error |
  InvalidBootEvidence boot_validation_error

record service_launch =
  sl_artifact_physical :: phys_addr
  sl_artifact_length :: u64
  sl_image_physical :: phys_addr
  sl_image_pages :: u64
  sl_image_virtual :: u64
  sl_entry :: u64
  sl_stack_physical :: phys_addr
  sl_stack_pages :: u64
  sl_stack_top :: u64
  sl_table_physical :: phys_addr
  sl_table_pages :: u64
  sl_version :: u64
  sl_measurement :: bytes

definition div_ceil :: "u64 \<Rightarrow> u64 \<Rightarrow> u64" where
  "div_ceil a b = (if a mod b = 0 then a div b else a div b + 1)"

definition checked_sub :: "u64 \<Rightarrow> u64 \<Rightarrow> u64 option" where
  "checked_sub a b = (if b \<le> a then Some (a - b) else None)"

definition checked_pages :: "phys_addr \<Rightarrow> u64 \<Rightarrow> (u64, handoff_error) result" where
  "checked_pages start pages =
     (if pages = 0 \<or> pages > (- 1) div PAGE_SIZE then Err NonCanonical
      else let len = pages * PAGE_SIZE in
      case checked_add (phys_get start) len of
        None \<Rightarrow> Err NonCanonical
      | Some e \<Rightarrow> if drop_bit 52 e = 0 then Ok len else Err NonCanonical)"

definition ho_user_address :: "u64 \<Rightarrow> bool" where
  "ho_user_address a \<longleftrightarrow> a \<noteq> 0 \<and> a \<le> 0x00007fffffffffff"

definition ho_user_page :: "u64 \<Rightarrow> bool" where
  "ho_user_page a \<longleftrightarrow> ho_user_address a \<and> a mod PAGE_SIZE = 0"

definition ranges_overlap :: "u64 \<Rightarrow> u64 \<Rightarrow> u64 \<Rightarrow> u64 \<Rightarrow> bool" where
  "ranges_overlap a_start a_end b_start b_end \<longleftrightarrow> a_start < b_end \<and> b_start < a_end"

definition physical_ranges_overlap :: "phys_addr \<Rightarrow> u64 \<Rightarrow> phys_addr \<Rightarrow> u64 \<Rightarrow> bool" where
  "physical_ranges_overlap a a_pages b b_pages \<longleftrightarrow>
     (let a_end = phys_get a + a_pages * PAGE_SIZE; b_end = phys_get b + b_pages * PAGE_SIZE in
      ranges_overlap (phys_get a) a_end (phys_get b) b_end)"

definition service_launch_new ::
  "phys_addr \<Rightarrow> u64 \<Rightarrow> phys_addr \<Rightarrow> u64 \<Rightarrow> u64 \<Rightarrow> u64 \<Rightarrow> phys_addr \<Rightarrow> u64 \<Rightarrow> u64 \<Rightarrow> phys_addr \<Rightarrow> u64 \<Rightarrow> u64 \<Rightarrow> bytes \<Rightarrow>
     (service_launch, handoff_error) result" where
  "service_launch_new artifact_physical artifact_length image_physical image_pages image_virtual entry
       stack_physical stack_pages stack_top table_physical table_pages version measurement =
     (let artifact_pages = div_ceil artifact_length PAGE_SIZE in
      and_then (checked_pages artifact_physical artifact_pages) (\<lambda>_.
      and_then (checked_pages image_physical image_pages) (\<lambda>image_bytes.
      and_then (checked_pages stack_physical stack_pages) (\<lambda>stack_bytes.
      and_then (checked_pages table_physical table_pages) (\<lambda>_.
      and_then (ok_or (checked_add image_virtual image_bytes) NonCanonical) (\<lambda>image_end.
      and_then (ok_or (checked_sub stack_top stack_bytes) NonCanonical) (\<lambda>stack_base.
      if image_pages > div_ceil (ucast MAX_SERVICE_IMAGE_BYTES) PAGE_SIZE
         \<or> stack_pages > 256
         \<or> \<not> (4 \<le> table_pages \<and> table_pages \<le> 256)
         \<or> version = 0
         \<or> artifact_length > ucast MAX_SERVICE_IMAGE_BYTES +
             of_nat (SIGNED_ARTIFACT_HEADER_BYTES + LAMPORT_PUBLIC_KEY_BYTES + LAMPORT_SIGNATURE_BYTES)
         \<or> zeroed measurement
         \<or> \<not> ho_user_page image_virtual
         \<or> \<not> ho_user_address entry
         \<or> entry < image_virtual
         \<or> entry \<ge> image_end
         \<or> \<not> ho_user_page stack_base
         \<or> \<not> ho_user_address (if stack_top = 0 then 0 else stack_top - 1)
         \<or> ranges_overlap image_virtual image_end stack_base stack_top
         \<or> physical_ranges_overlap image_physical image_pages stack_physical stack_pages
         \<or> physical_ranges_overlap image_physical image_pages table_physical table_pages
         \<or> physical_ranges_overlap stack_physical stack_pages table_physical table_pages
         \<or> physical_ranges_overlap artifact_physical artifact_pages image_physical image_pages
         \<or> physical_ranges_overlap artifact_physical artifact_pages stack_physical stack_pages
         \<or> physical_ranges_overlap artifact_physical artifact_pages table_physical table_pages
      then Err NonCanonical
      else Ok \<lparr>sl_artifact_physical = artifact_physical, sl_artifact_length = artifact_length,
             sl_image_physical = image_physical, sl_image_pages = image_pages, sl_image_virtual = image_virtual,
             sl_entry = entry, sl_stack_physical = stack_physical, sl_stack_pages = stack_pages,
             sl_stack_top = stack_top, sl_table_physical = table_physical, sl_table_pages = table_pages,
             sl_version = version, sl_measurement = measurement\<rparr>)))))))"

subsection \<open>Decoding\<close>

text \<open>A read at an offset; the decoder's offsets lie inside the input.\<close>

definition ho_u16 :: "bytes \<Rightarrow> nat \<Rightarrow> u16" where "ho_u16 input at = from_le_bytes (sub_slice input at (at + 2))"
definition ho_u32 :: "bytes \<Rightarrow> nat \<Rightarrow> u32" where "ho_u32 input at = from_le_bytes (sub_slice input at (at + 4))"
definition ho_u64 :: "bytes \<Rightarrow> nat \<Rightarrow> u64" where "ho_u64 input at = from_le_bytes (sub_slice input at (at + 8))"

text \<open>The text \<open>MRML-HANDOFF-v1\<close> and a zero byte; the text \<open>APIC\<close>.\<close>

definition HANDOFF_MAGIC :: bytes where
  "HANDOFF_MAGIC = [0x4d, 0x52, 0x4d, 0x4c, 0x2d, 0x48, 0x41, 0x4e, 0x44, 0x4f, 0x46, 0x46, 0x2d, 0x76, 0x31, 0]"
definition MADT_MAGIC :: bytes where "MADT_MAGIC = [0x41, 0x50, 0x49, 0x43]"

definition decode_kind :: "u8 \<Rightarrow> (memory_kind, handoff_error) result" where
  "decode_kind v = (if v = 0 then Ok Free else if v = 1 then Ok memory_kind.Kernel else if v = 2 then Ok Firmware
     else if v = 3 then Ok Mmio else if v = 4 then Ok Acpi else if v = 5 then Ok Reserved else Err NonCanonical)"

definition decode_region :: "bytes \<Rightarrow> nat \<Rightarrow> (memory_region, handoff_error) result" where
  "decode_region input index =
     (let offset = HANDOFF_HEADER_BYTES + index * HANDOFF_REGION_BYTES;
          start = ho_u64 input offset;
          pages = ho_u64 input (offset + 8) in
      and_then (decode_kind (input ! (offset + 16))) (\<lambda>kind.
      if \<not> zeroed (sub_slice input (offset + 17) (offset + HANDOFF_REGION_BYTES)) then Err NonCanonical
      else and_then (map_err InvalidMemoryMap (phys_new start)) (\<lambda>start.
        map_err InvalidMemoryMap (region_new start pages kind))))"

definition decode_service :: "bytes \<Rightarrow> nat \<Rightarrow> (service_launch, handoff_error) result" where
  "decode_service input offset =
     (let measurement = sub_slice input (offset + 96) (offset + HANDOFF_SERVICE_BYTES) in
      and_then (map_err InvalidMemoryMap (phys_new (ho_u64 input offset))) (\<lambda>artifact_physical.
      and_then (map_err InvalidMemoryMap (phys_new (ho_u64 input (offset + 16)))) (\<lambda>image_physical.
      and_then (map_err InvalidMemoryMap (phys_new (ho_u64 input (offset + 48)))) (\<lambda>stack_physical.
      and_then (map_err InvalidMemoryMap (phys_new (ho_u64 input (offset + 72)))) (\<lambda>table_physical.
      service_launch_new artifact_physical (ho_u64 input (offset + 8)) image_physical (ho_u64 input (offset + 24))
        (ho_u64 input (offset + 32)) (ho_u64 input (offset + 40)) stack_physical (ho_u64 input (offset + 56))
        (ho_u64 input (offset + 64)) table_physical (ho_u64 input (offset + 80)) (ho_u64 input (offset + 88)) measurement)))))"

definition madt_sum :: "bytes \<Rightarrow> u8" where "madt_sum madt = fold (\<lambda>b s. s + b) madt 0"

record handoff_layout =
  ly_flags :: u16
  ly_region_count :: nat
  ly_service_offset :: nat
  ly_trampoline_offset :: nat
  ly_madt_offset :: nat
  ly_madt_length :: nat

definition has_flag :: "u16 \<Rightarrow> u16 \<Rightarrow> bool" where "has_flag flags f \<longleftrightarrow> flags AND f \<noteq> 0"

text \<open>The first half of the decoder: the header, the lengths of the parts and the checksum.\<close>

definition decode_layout :: "bytes \<Rightarrow> (handoff_layout, handoff_error) result" where
  "decode_layout input =
     (if length input < HANDOFF_HEADER_BYTES then Err HoTruncated
      else if sub_slice input 0 16 \<noteq> HANDOFF_MAGIC then Err BadMagic
      else let encoded_length = unat (ho_u32 input 16);
               region_count = unat (ho_u16 input 20);
               flags = ho_u16 input 22 in
      if flags AND NOT KNOWN_FLAGS \<noteq> 0 then Err UnknownFlags
      else if region_count = 0 \<or> region_count > MAX_HANDOFF_REGIONS then Err TooManyRegions
      else let regions_end = HANDOFF_HEADER_BYTES + region_count * HANDOFF_REGION_BYTES;
               madt_length = unat (ho_u16 input 165) in
      if (has_flag flags FLAG_MADT_SNAPSHOT \<noteq> (madt_length \<noteq> 0))
         \<or> (has_flag flags FLAG_AP_TRAMPOLINE \<and> madt_length = 0)
         \<or> madt_length > MAX_HANDOFF_MADT_BYTES
         \<or> (madt_length \<noteq> 0 \<and> madt_length < 44)
         \<or> input ! 167 \<noteq> 0 then Err NonCanonical
      else let service_bytes = (if has_flag flags FLAG_SERVICE_IMAGE then HANDOFF_SERVICE_BYTES else 0);
               service_offset = regions_end;
               trampoline_offset = service_offset + service_bytes;
               trampoline_bytes = (if has_flag flags FLAG_AP_TRAMPOLINE then 16 else 0);
               madt_offset = trampoline_offset + trampoline_bytes;
               expected_length = madt_offset + madt_length in
      if encoded_length \<noteq> expected_length \<or> length input \<noteq> expected_length then Err NonCanonical
      else let madt = sub_slice input madt_offset expected_length in
      if madt_length \<noteq> 0 \<and> (sub_slice madt 0 4 \<noteq> MADT_MAGIC \<or> unat (ho_u32 madt 4) \<noteq> madt_length \<or> madt_sum madt \<noteq> 0)
      then Err NonCanonical
      else Ok \<lparr>ly_flags = flags, ly_region_count = region_count, ly_service_offset = service_offset,
             ly_trampoline_offset = trampoline_offset, ly_madt_offset = madt_offset, ly_madt_length = madt_length\<rparr>)"

definition ap_valid :: "u64 \<Rightarrow> u64 \<Rightarrow> bool" where
  "ap_valid physical stack_arena \<longleftrightarrow> PAGE_SIZE \<le> physical \<and> physical < 0x100000 \<and> physical mod PAGE_SIZE = 0 \<and>
     stack_arena \<noteq> 0 \<and> stack_arena mod PAGE_SIZE = 0 \<and> drop_bit 52 stack_arena = 0"

definition decode_ap :: "bytes \<Rightarrow> handoff_layout \<Rightarrow> ((u64 \<times> u64) option, handoff_error) result" where
  "decode_ap input ly =
     (if has_flag (ly_flags ly) FLAG_AP_TRAMPOLINE then
        let physical = ho_u64 input (ly_trampoline_offset ly);
            stack_arena = ho_u64 input (ly_trampoline_offset ly + 8) in
        if \<not> ap_valid physical stack_arena then Err NonCanonical else Ok (Some (physical, stack_arena))
      else Ok None)"

definition decode_framebuffer :: "bytes \<Rightarrow> (framebuffer_info, handoff_error) result" where
  "decode_framebuffer input =
     and_then (if input ! 164 = 0 then Ok RedGreenBlueReserved else if input ! 164 = 1 then Ok BlueGreenRedReserved
       else Err (InvalidFramebuffer UnsupportedPixelFormat)) (\<lambda>pixel_format.
     map_err InvalidFramebuffer (framebuffer_new (ho_u64 input 136) (ho_u64 input 144) (ho_u32 input 152)
       (ho_u32 input 156) (ho_u32 input 160) pixel_format))"

definition holds_framebuffer :: "framebuffer_info \<Rightarrow> memory_region \<Rightarrow> bool" where
  "holds_framebuffer fb r \<longleftrightarrow> mr_kind r = Mmio \<and> phys_get (mr_start r) \<le> phys_get (fb_base fb) \<and> region_end r \<ge> fb_end fb"

text \<open>The loop over the regions: order, overlap, and whether one of them holds the framebuffer.\<close>

fun check_regions ::
  "bytes \<Rightarrow> framebuffer_info \<Rightarrow> nat list \<Rightarrow> u64 \<Rightarrow> u64 \<Rightarrow> bool \<Rightarrow> (bool, handoff_error) result" where
  "check_regions input fb [] previous_start previous_end is_mmio = Ok is_mmio"
| "check_regions input fb (index # rest) previous_start previous_end is_mmio =
     and_then (decode_region input index) (\<lambda>region.
     let start = phys_get (mr_start region) in
     if index \<noteq> 0 \<and> start < previous_start then Err (InvalidMemoryMap Unsorted)
     else if index \<noteq> 0 \<and> start < previous_end then Err (InvalidMemoryMap Overlap)
     else check_regions input fb rest start (region_end region) (is_mmio \<or> holds_framebuffer fb region))"

definition reserved_holds :: "phys_addr \<Rightarrow> u64 \<Rightarrow> memory_region \<Rightarrow> bool" where
  "reserved_holds start e r \<longleftrightarrow> (mr_kind r = memory_kind.Kernel \<or> mr_kind r = Reserved) \<and>
     phys_get (mr_start r) \<le> phys_get start \<and> region_end r \<ge> e"

definition service_storage :: "service_launch \<Rightarrow> (phys_addr \<times> u64) list" where
  "service_storage s =
     [(sl_artifact_physical s, div_ceil (sl_artifact_length s) PAGE_SIZE), (sl_image_physical s, sl_image_pages s),
      (sl_stack_physical s, sl_stack_pages s), (sl_table_physical s, sl_table_pages s)]"

definition decoded_storage_reserved :: "bytes \<Rightarrow> nat \<Rightarrow> service_launch \<Rightarrow> bool" where
  "decoded_storage_reserved input region_count service \<longleftrightarrow>
     (\<forall>(start, pages) \<in> set (service_storage service).
        let e = phys_get start + pages * PAGE_SIZE in
        \<exists>index \<in> set [0..<region_count]. case decode_region input index of
          Ok region \<Rightarrow> reserved_holds start e region | Err _ \<Rightarrow> False)"

record boot_handoff =
  bh_evidence :: boot_evidence
  bh_acpi_root :: u64
  bh_framebuffer :: framebuffer_info
  bh_region_count :: nat
  bh_madt_offset :: nat
  bh_madt_length :: nat
  bh_ap_trampoline :: "u64 option"
  bh_ap_stack_arena :: "u64 option"
  bh_service :: "service_launch option"

text \<open>The regions handed to the callback, in order, up to the first that does not decode.\<close>

fun emit_regions :: "bytes \<Rightarrow> nat list \<Rightarrow> (unit, handoff_error) result \<times> memory_region list" where
  "emit_regions input [] = (Ok (), [])"
| "emit_regions input (index # rest) =
     (case decode_region input index of
        Err e \<Rightarrow> (Err e, [])
      | Ok region \<Rightarrow> (case emit_regions input rest of (r, emitted) \<Rightarrow> (r, region # emitted)))"

text \<open>Everything the decoder checks before it emits the first region.\<close>

definition decode_checked :: "bytes \<Rightarrow> (boot_handoff, handoff_error) result" where
  "decode_checked input =
     and_then (decode_layout input) (\<lambda>ly.
     let image_version = ho_u64 input 24;
         entropy = sub_slice input 32 64;
         image_measurement = sub_slice input 64 128;
         acpi_root = ho_u64 input 128 in
     if acpi_root = 0 then Err MissingAcpiRoot
     else and_then (decode_ap input ly) (\<lambda>ap.
     and_then (if has_flag (ly_flags ly) FLAG_SERVICE_IMAGE
       then and_then (decode_service input (ly_service_offset ly)) (\<lambda>s. Ok (Some s)) else Ok None) (\<lambda>service.
     and_then (decode_framebuffer input) (\<lambda>framebuffer.
     and_then (check_regions input framebuffer [0..<ly_region_count ly] 0 0 False) (\<lambda>framebuffer_is_mmio.
     if \<not> framebuffer_is_mmio then Err FramebufferOutsideMmio
     else if (case service of None \<Rightarrow> False | Some s \<Rightarrow> \<not> decoded_storage_reserved input (ly_region_count ly) s)
     then Err NonCanonical
     else and_then (map_err InvalidBootEvidence (evidence_new entropy image_measurement image_version
         (has_flag (ly_flags ly) FLAG_SECURE_BOOT) (has_flag (ly_flags ly) FLAG_MEASURED_BOOT)
         (has_flag (ly_flags ly) FLAG_ROLLBACK_PROTECTED))) (\<lambda>evidence.
     Ok \<lparr>bh_evidence = evidence, bh_acpi_root = acpi_root, bh_framebuffer = framebuffer,
        bh_region_count = ly_region_count ly, bh_madt_offset = ly_madt_offset ly, bh_madt_length = ly_madt_length ly,
        bh_ap_trampoline = map_option fst ap, bh_ap_stack_arena = map_option snd ap, bh_service = service\<rparr>))))))"

definition handoff_decode :: "bytes \<Rightarrow> (boot_handoff, handoff_error) result \<times> memory_region list" where
  "handoff_decode input =
     (case decode_checked input of
        Err e \<Rightarrow> (Err e, [])
      | Ok h \<Rightarrow>
          (case emit_regions input [0..<bh_region_count h] of
             (Err e, emitted) \<Rightarrow> (Err e, emitted)
           | (Ok _, emitted) \<Rightarrow> (Ok h, emitted)))"

definition handoff_madt :: "boot_handoff \<Rightarrow> bytes \<Rightarrow> bytes option" where
  "handoff_madt h encoded =
     (if bh_madt_length h \<noteq> 0 then Some (sub_slice encoded (bh_madt_offset h) (bh_madt_offset h + bh_madt_length h)) else None)"

subsection \<open>Encoding\<close>

definition encode_service :: "service_launch \<Rightarrow> bytes" where
  "encode_service s =
     concat (map (to_le_bytes 8) [phys_get (sl_artifact_physical s), sl_artifact_length s, phys_get (sl_image_physical s),
       sl_image_pages s, sl_image_virtual s, sl_entry s, phys_get (sl_stack_physical s), sl_stack_pages s,
       sl_stack_top s, phys_get (sl_table_physical s), sl_table_pages s, sl_version s]) @ sl_measurement s"

definition region_kind_code :: "memory_kind \<Rightarrow> u8" where
  "region_kind_code k = (case k of Free \<Rightarrow> 0 | memory_kind.Kernel \<Rightarrow> 1 | Firmware \<Rightarrow> 2 | Mmio \<Rightarrow> 3 | Acpi \<Rightarrow> 4 | Reserved \<Rightarrow> 5)"

definition encode_region :: "memory_region \<Rightarrow> bytes" where
  "encode_region r = to_le_bytes 8 (phys_get (mr_start r)) @ to_le_bytes 8 (mr_pages r) @ [region_kind_code (mr_kind r)] @ replicate 7 0"

definition service_storage_is_reserved :: "service_launch \<Rightarrow> memory_region list \<Rightarrow> bool" where
  "service_storage_is_reserved service regions \<longleftrightarrow>
     (\<forall>(start, pages) \<in> set (service_storage service).
        let e = phys_get start + pages * PAGE_SIZE in \<exists>region \<in> set regions. reserved_holds start e region)"

definition flag_if :: "bool \<Rightarrow> u16 \<Rightarrow> u16" where "flag_if b f = (if b then 1 else 0) * f"

definition encode_handoff_inner ::
  "u64 \<Rightarrow> bytes \<Rightarrow> bytes \<Rightarrow> bool \<Rightarrow> bool \<Rightarrow> bool \<Rightarrow> u64 \<Rightarrow> framebuffer_info \<Rightarrow> memory_region list \<Rightarrow> bytes option \<Rightarrow>
     (u64 \<times> u64) option \<Rightarrow> service_launch option \<Rightarrow> bytes \<Rightarrow> (nat, handoff_error) result \<times> bytes" where
  "encode_handoff_inner image_version entropy image_measurement secure_boot measured_boot rollback_protected acpi_root
       framebuffer regions madt ap_resources service buffer =
     (if regions = [] \<or> length regions > MAX_HANDOFF_REGIONS then (Err TooManyRegions, buffer)
      else let regions_end = HANDOFF_HEADER_BYTES + length regions * HANDOFF_REGION_BYTES;
               madt_length = (case madt of None \<Rightarrow> 0 | Some m \<Rightarrow> length m);
               service_bytes = (if service \<noteq> None then HANDOFF_SERVICE_BYTES else 0);
               trampoline_offset = regions_end + service_bytes;
               madt_offset = trampoline_offset + (if ap_resources \<noteq> None then 16 else 0);
               len = madt_offset + madt_length in
      if length buffer < len \<or> image_version = 0 \<or> acpi_root = 0 then (Err NonCanonical, buffer)
      else case map_new regions of Err e \<Rightarrow> (Err (InvalidMemoryMap e), buffer) | Ok _ \<Rightarrow>
      if \<not> (\<exists>region \<in> set regions. holds_framebuffer framebuffer region) then (Err FramebufferOutsideMmio, buffer)
      else if (case service of None \<Rightarrow> False | Some s \<Rightarrow> \<not> service_storage_is_reserved s regions) then (Err NonCanonical, buffer)
      else case evidence_new entropy image_measurement image_version secure_boot measured_boot rollback_protected of
        Err e \<Rightarrow> (Err (InvalidBootEvidence e), buffer)
      | Ok _ \<Rightarrow>
      let flags = flag_if secure_boot FLAG_SECURE_BOOT OR flag_if measured_boot FLAG_MEASURED_BOOT
             OR flag_if rollback_protected FLAG_ROLLBACK_PROTECTED OR flag_if (madt \<noteq> None) FLAG_MADT_SNAPSHOT
             OR flag_if (ap_resources \<noteq> None) FLAG_AP_TRAMPOLINE OR flag_if (service \<noteq> None) FLAG_SERVICE_IMAGE in
      (Ok len,
       HANDOFF_MAGIC @ to_le_bytes 4 (of_nat len :: u32) @ to_le_bytes 2 (of_nat (length regions) :: u16) @ to_le_bytes 2 flags @
       to_le_bytes 8 image_version @ entropy @ image_measurement @ to_le_bytes 8 acpi_root @
       to_le_bytes 8 (phys_get (fb_base framebuffer)) @ to_le_bytes 8 (fb_byte_length framebuffer) @
       to_le_bytes 4 (fb_width framebuffer) @ to_le_bytes 4 (fb_height framebuffer) @ to_le_bytes 4 (fb_stride framebuffer) @
       [case fb_format framebuffer of RedGreenBlueReserved \<Rightarrow> 0 | BlueGreenRedReserved \<Rightarrow> 1] @
       to_le_bytes 2 (of_nat madt_length :: u16) @ [0] @
       concat (map encode_region regions) @
       (case service of None \<Rightarrow> [] | Some s \<Rightarrow> encode_service s) @
       (case ap_resources of None \<Rightarrow> [] | Some (physical, stack_arena) \<Rightarrow> to_le_bytes 8 physical @ to_le_bytes 8 stack_arena) @
       (case madt of None \<Rightarrow> [] | Some m \<Rightarrow> m) @
       drop len buffer))"

definition madt_valid :: "bytes \<Rightarrow> bool" where
  "madt_valid madt \<longleftrightarrow> 44 \<le> length madt \<and> length madt \<le> MAX_HANDOFF_MADT_BYTES \<and> sub_slice madt 0 4 = MADT_MAGIC \<and>
     unat (ho_u32 madt 4) = length madt \<and> madt_sum madt = 0"

definition encode_handoff where
  "encode_handoff image_version entropy image_measurement secure_boot measured_boot rollback_protected acpi_root
       framebuffer regions buffer =
     encode_handoff_inner image_version entropy image_measurement secure_boot measured_boot rollback_protected acpi_root
       framebuffer regions None None None buffer"

definition encode_handoff_with_madt where
  "encode_handoff_with_madt image_version entropy image_measurement secure_boot measured_boot rollback_protected acpi_root
       framebuffer regions madt buffer =
     (if \<not> madt_valid madt then (Err NonCanonical, buffer)
      else encode_handoff_inner image_version entropy image_measurement secure_boot measured_boot rollback_protected acpi_root
        framebuffer regions (Some madt) None None buffer)"

definition encode_handoff_with_smp where
  "encode_handoff_with_smp image_version entropy image_measurement secure_boot measured_boot rollback_protected acpi_root
       framebuffer regions ap_trampoline ap_stack_arena madt buffer =
     (if \<not> ap_valid ap_trampoline ap_stack_arena \<or> \<not> madt_valid madt then (Err NonCanonical, buffer)
      else encode_handoff_inner image_version entropy image_measurement secure_boot measured_boot rollback_protected acpi_root
        framebuffer regions (Some madt) (Some (ap_trampoline, ap_stack_arena)) None buffer)"

definition encode_handoff_with_smp_and_service where
  "encode_handoff_with_smp_and_service image_version entropy image_measurement secure_boot measured_boot rollback_protected acpi_root
       framebuffer regions ap_trampoline ap_stack_arena service madt buffer =
     (if \<not> ap_valid ap_trampoline ap_stack_arena \<or> \<not> madt_valid madt then (Err NonCanonical, buffer)
      else encode_handoff_inner image_version entropy image_measurement secure_boot measured_boot rollback_protected acpi_root
        framebuffer regions (Some madt) (Some (ap_trampoline, ap_stack_arena)) (Some service) buffer)"

section \<open>What the decoder establishes\<close>

lemma decode_region_ok:
  assumes "decode_region input index = Ok r"
  shows "region_wf r"
proof -
  obtain k s where "phys_new (ho_u64 input (HANDOFF_HEADER_BYTES + index * HANDOFF_REGION_BYTES)) = Ok s"
      "region_new s (ho_u64 input (HANDOFF_HEADER_BYTES + index * HANDOFF_REGION_BYTES + 8)) k = Ok r"
    using assms by (auto simp: decode_region_def Let_def split: if_splits)
  moreover from this(1) have "phys_new (phys_get s) = Ok s"
    by (metis phys_new_def phys_addr.sel result.distinct(1) result.inject(1))
  moreover have "region_new s p k = Ok r \<Longrightarrow> r = \<lparr>mr_start = s, mr_pages = p, mr_kind = k\<rparr>" for p
    by (simp add: region_new_def split: if_split_asm)
  ultimately show ?thesis unfolding region_wf_def by (metis memory_region.select_convs)
qed

text \<open>The loop accepts exactly the regions that extend an ordered map.\<close>

lemma check_regions_ok:
  assumes "check_regions input fb [i..<n] s e b = Ok b'" and "i \<le> n"
  shows "\<exists>rs. map (decode_region input) [i..<n] = map Ok rs \<and> map_windows rs = Ok () \<and>
     (0 < i \<longrightarrow> rs \<noteq> [] \<longrightarrow> s \<le> phys_get (mr_start (hd rs)) \<and> e \<le> phys_get (mr_start (hd rs))) \<and>
     (b' \<longleftrightarrow> b \<or> (\<exists>r \<in> set rs. holds_framebuffer fb r))"
  using assms
proof (induction "n - i" arbitrary: i s e b)
  case (Suc k)
  then have i: "i < n" by simp
  then have u: "[i..<n] = i # [Suc i..<n]" by (rule upt_conv_Cons)
  obtain r where r: "decode_region input i = Ok r"
      "i \<noteq> 0 \<longrightarrow> s \<le> phys_get (mr_start r) \<and> e \<le> phys_get (mr_start r)"
      "check_regions input fb [Suc i..<n] (phys_get (mr_start r)) (region_end r) (b \<or> holds_framebuffer fb r) = Ok b'"
    using Suc.prems(1) unfolding u by (auto simp: Let_def not_less split: if_splits)
  obtain rs where rs: "map (decode_region input) [Suc i..<n] = map Ok rs" "map_windows rs = Ok ()"
     "rs \<noteq> [] \<longrightarrow> phys_get (mr_start r) \<le> phys_get (mr_start (hd rs)) \<and> region_end r \<le> phys_get (mr_start (hd rs))"
     "b' \<longleftrightarrow> (b \<or> holds_framebuffer fb r) \<or> (\<exists>r \<in> set rs. holds_framebuffer fb r)"
    using Suc.hyps(1) [OF _ r(3)] Suc.hyps(2) i by fastforce
  have "map_windows (r # rs) = Ok ()"
    using rs(2,3) by (cases rs) (auto simp: not_less less_phys_addr_def)
  then show ?case using r rs by (intro exI [of _ "r # rs"]) (auto simp: u)
qed simp

lemma emit_regions_ok: "map (decode_region input) is = map Ok rs \<Longrightarrow> emit_regions input is = (Ok (), rs)"
  by (induction "is" arbitrary: rs) (auto simp: map_eq_Cons_conv split: prod.splits)

lemma checked_pages_ok:
  assumes "checked_pages start pages = Ok len"
  shows "0 < unat pages" and "unat (pages * PAGE_SIZE) = unat pages * 4096" and "len = pages * PAGE_SIZE"
    and "unat (phys_get start + pages * PAGE_SIZE) = unat (phys_get start) + unat pages * 4096"
    and "unat (phys_get start) + unat pages * 4096 < 2 ^ 52"
proof -
  have "(- 1 :: u64) div PAGE_SIZE = 2 ^ 52 - 1" by (simp add: PAGE_SIZE_def)
  then have p: "pages \<noteq> 0" "pages \<le> 2 ^ 52 - 1" and l: "len = pages * PAGE_SIZE"
    and c: "checked_add (phys_get start) (pages * PAGE_SIZE) = Some (phys_get start + pages * PAGE_SIZE)"
      "drop_bit 52 (phys_get start + pages * PAGE_SIZE) = 0"
    using assms by (auto simp: checked_pages_def Let_def not_less split: if_splits option.splits dest: checked_add_SomeD(1))
  show "0 < unat pages" using p(1) by (simp add: unat_gt_0)
  have "unat pages \<le> 2 ^ 52 - 1" using p(2) by (simp add: word_le_nat_alt)
  then show m: "unat (pages * PAGE_SIZE) = unat pages * 4096" by (simp add: PAGE_SIZE_def unat_word_ariths)
  show "len = pages * PAGE_SIZE" by (rule l)
  show u: "unat (phys_get start + pages * PAGE_SIZE) = unat (phys_get start) + unat pages * 4096"
    using checked_add_SomeD(2) [OF c(1)] m by simp
  have "unat (drop_bit 52 (phys_get start + pages * PAGE_SIZE)) = 0" using c(2) by simp
  then have "unat (phys_get start + pages * PAGE_SIZE) div 2 ^ 52 = 0" by (simp add: drop_bit_eq_div unat_div)
  then show "unat (phys_get start) + unat pages * 4096 < 2 ^ 52"
    unfolding u by (simp add: div_eq_0_iff)
qed

text \<open>The physical storage of an accepted service: four page runs, pairwise disjoint.\<close>

definition storage_span :: "phys_addr \<times> u64 \<Rightarrow> nat \<times> nat" where
  "storage_span x = (unat (phys_get (fst x)), unat (phys_get (fst x)) + unat (snd x) * 4096)"

definition spans_disjoint :: "nat \<times> nat \<Rightarrow> nat \<times> nat \<Rightarrow> bool" where
  "spans_disjoint a b \<longleftrightarrow> snd a \<le> fst b \<or> snd b \<le> fst a"

definition launch_ok :: "service_launch \<Rightarrow> bool" where
  "launch_ok s \<longleftrightarrow> service_launch_new (sl_artifact_physical s) (sl_artifact_length s) (sl_image_physical s) (sl_image_pages s)
     (sl_image_virtual s) (sl_entry s) (sl_stack_physical s) (sl_stack_pages s) (sl_stack_top s) (sl_table_physical s)
     (sl_table_pages s) (sl_version s) (sl_measurement s) = Ok s"

lemma service_launch_new_ok:
  assumes "service_launch_new ap al ip np iv en sp ns st tp nt v m = Ok s"
  shows "s = \<lparr>sl_artifact_physical = ap, sl_artifact_length = al, sl_image_physical = ip, sl_image_pages = np, sl_image_virtual = iv,
     sl_entry = en, sl_stack_physical = sp, sl_stack_pages = ns, sl_stack_top = st, sl_table_physical = tp, sl_table_pages = nt,
     sl_version = v, sl_measurement = m\<rparr>" and "launch_ok s"
proof -
  show *: "s = \<lparr>sl_artifact_physical = ap, sl_artifact_length = al, sl_image_physical = ip, sl_image_pages = np, sl_image_virtual = iv,
     sl_entry = en, sl_stack_physical = sp, sl_stack_pages = ns, sl_stack_top = st, sl_table_physical = tp, sl_table_pages = nt,
     sl_version = v, sl_measurement = m\<rparr>"
    using assms unfolding service_launch_new_def Let_def and_then_Ok_iff if_err_Ok_iff by (elim exE conjE) simp
  show "launch_ok s" using assms unfolding * launch_ok_def by simp
qed

lemma physical_ranges_disjoint:
  assumes "checked_pages a n = Ok x" and "checked_pages b m = Ok y" and "\<not> physical_ranges_overlap a n b m"
  shows "spans_disjoint (storage_span (a, n)) (storage_span (b, m))"
  using assms(3) checked_pages_ok(4) [OF assms(1)] checked_pages_ok(4) [OF assms(2)]
  by (auto simp: physical_ranges_overlap_def ranges_overlap_def Let_def spans_disjoint_def storage_span_def word_less_nat_alt)

lemma spans_disjoint_sym: "spans_disjoint a b \<Longrightarrow> spans_disjoint b a"
  by (auto simp: spans_disjoint_def)

lemma launch_storage:
  assumes "launch_ok s"
  shows "\<forall>x \<in> set (service_storage s). \<exists>len. checked_pages (fst x) (snd x) = Ok len"
    and "sorted_wrt (\<lambda>a b. spans_disjoint (storage_span a) (storage_span b)) (service_storage s)"
proof -
  let ?ap = "div_ceil (sl_artifact_length s) PAGE_SIZE"
  obtain w x y z where c: "checked_pages (sl_artifact_physical s) ?ap = Ok w" "checked_pages (sl_image_physical s) (sl_image_pages s) = Ok x"
      "checked_pages (sl_stack_physical s) (sl_stack_pages s) = Ok y" "checked_pages (sl_table_physical s) (sl_table_pages s) = Ok z"
    and o: "\<not> physical_ranges_overlap (sl_image_physical s) (sl_image_pages s) (sl_stack_physical s) (sl_stack_pages s)"
      "\<not> physical_ranges_overlap (sl_image_physical s) (sl_image_pages s) (sl_table_physical s) (sl_table_pages s)"
      "\<not> physical_ranges_overlap (sl_stack_physical s) (sl_stack_pages s) (sl_table_physical s) (sl_table_pages s)"
      "\<not> physical_ranges_overlap (sl_artifact_physical s) ?ap (sl_image_physical s) (sl_image_pages s)"
      "\<not> physical_ranges_overlap (sl_artifact_physical s) ?ap (sl_stack_physical s) (sl_stack_pages s)"
      "\<not> physical_ranges_overlap (sl_artifact_physical s) ?ap (sl_table_physical s) (sl_table_pages s)"
    using assms unfolding launch_ok_def service_launch_new_def Let_def and_then_Ok_iff if_err_Ok_iff de_Morgan_disj
    by (elim exE conjE) (rule that)
  show "\<forall>x \<in> set (service_storage s). \<exists>len. checked_pages (fst x) (snd x) = Ok len"
    using c by (simp add: service_storage_def)
  show "sorted_wrt (\<lambda>a b. spans_disjoint (storage_span a) (storage_span b)) (service_storage s)"
    unfolding service_storage_def
    using physical_ranges_disjoint [OF c(2,3) o(1)] physical_ranges_disjoint [OF c(2,4) o(2)] physical_ranges_disjoint [OF c(3,4) o(3)]
      physical_ranges_disjoint [OF c(1,2) o(4)] physical_ranges_disjoint [OF c(1,3) o(5)] physical_ranges_disjoint [OF c(1,4) o(6)]
    by simp
qed

lemma map_regions_disjoint:
  assumes "map_windows rs = Ok ()" and "\<forall>r \<in> set rs. region_wf r" and "r \<in> set rs" and "q \<in> set rs" and "r \<noteq> q"
  shows "unat (region_end r) \<le> unat (phys_get (mr_start q)) \<or> unat (region_end q) \<le> unat (phys_get (mr_start r))"
  using assms
proof (induction rs)
  case (Cons a rs)
  have rest: "map_windows rs = Ok ()" using Cons.prems(1) by (rule map_windows_ConsD)
  consider "r = a" "q \<in> set rs" | "q = a" "r \<in> set rs" | "r \<in> set rs" "q \<in> set rs" using Cons.prems by auto
  then show ?case
  proof cases
    case 1
    then show ?thesis using map_windows_starts [OF Cons.prems(1,2)] by simp
  next
    case 2
    then show ?thesis using map_windows_starts [OF Cons.prems(1,2)] by simp
  next
    case 3
    then show ?thesis using Cons.IH [OF rest] Cons.prems(2,5) by simp
  qed
qed simp

lemma framebuffer_new_ok:
  assumes "framebuffer_new b n w h s f = Ok fb"
  shows "fb_base fb = PhysAddr b" and "fb_byte_length fb = n" and "fb_width fb = w" and "fb_height fb = h" and "fb_stride fb = s"
    and "fb_format fb = f" and "unat (fb_end fb) = unat b + unat n"
proof -
  from assms obtain x where x: "phys_new b = Ok x" "checked_add (phys_get x) n \<noteq> None"
      "fb = \<lparr>fb_base = x, fb_byte_length = n, fb_width = w, fb_height = h, fb_stride = s, fb_format = f\<rparr>"
    unfolding framebuffer_new_def if_err_Ok_iff and_then_Ok_iff
    by (auto split: option.splits if_splits)
  have "x = PhysAddr b" using x(1) by (metis phys_new_def result.distinct(1) result.inject(1))
  with x show "fb_base fb = PhysAddr b" "fb_byte_length fb = n" "fb_width fb = w" "fb_height fb = h" "fb_stride fb = s" "fb_format fb = f"
    by simp_all
  show "unat (fb_end fb) = unat b + unat n"
    using x(2,3) \<open>x = PhysAddr b\<close> by (auto simp: fb_end_def dest: checked_add_SomeD)
qed

text \<open>What an accepted handoff holds, over the regions it emits.\<close>

definition handoff_sound :: "boot_handoff \<Rightarrow> memory_region list \<Rightarrow> bool" where
  "handoff_sound h rs \<longleftrightarrow> map_wf rs \<and> length rs = bh_region_count h \<and>
     unat (fb_end (bh_framebuffer h)) = unat (phys_get (fb_base (bh_framebuffer h))) + unat (fb_byte_length (bh_framebuffer h)) \<and>
     (\<exists>r \<in> set rs. holds_framebuffer (bh_framebuffer h) r) \<and>
     (\<forall>s. bh_service h = Some s \<longrightarrow> launch_ok s \<and> service_storage_is_reserved s rs)"

lemma decode_service_ok: "decode_service input offset = Ok s \<Longrightarrow> launch_ok s"
  unfolding decode_service_def Let_def and_then_Ok_iff by (elim exE conjE) (rule service_launch_new_ok(2))

lemma decode_checked_ok:
  assumes "decode_checked input = Ok h"
  obtains rs where "map (decode_region input) [0..<bh_region_count h] = map Ok rs" and "handoff_sound h rs"
proof -
  obtain ly ap sv fb b ev where d: "decode_layout input = Ok ly"
      "(if has_flag (ly_flags ly) FLAG_SERVICE_IMAGE
        then and_then (decode_service input (ly_service_offset ly)) (\<lambda>s. Ok (Some s)) else Ok None) = Ok sv"
      "decode_framebuffer input = Ok fb" "check_regions input fb [0..<ly_region_count ly] 0 0 False = Ok b" "b"
      "\<not> (case sv of None \<Rightarrow> False | Some s \<Rightarrow> \<not> decoded_storage_reserved input (ly_region_count ly) s)"
    and h: "\<lparr>bh_evidence = ev, bh_acpi_root = ho_u64 input 128, bh_framebuffer = fb,
        bh_region_count = ly_region_count ly, bh_madt_offset = ly_madt_offset ly, bh_madt_length = ly_madt_length ly,
        bh_ap_trampoline = map_option fst ap, bh_ap_stack_arena = map_option snd ap, bh_service = sv\<rparr> = h"
    using assms unfolding decode_checked_def Let_def and_then_Ok_iff if_err_Ok_iff not_not result.inject map_err_eq_Ok
    by (elim exE conjE) (rule that, assumption+)
  note h = h [symmetric]
  obtain rs where rs: "map (decode_region input) [0..<ly_region_count ly] = map Ok rs" "map_windows rs = Ok ()"
      "\<exists>r \<in> set rs. holds_framebuffer fb r"
    using check_regions_ok [OF d(4)] d(5) by auto
  have len: "length rs = ly_region_count ly" using arg_cong [OF rs(1), of length] by simp
  have nth: "decode_region input i = Ok (rs ! i)" if "i < ly_region_count ly" for i
    using arg_cong [OF rs(1), of "\<lambda>l. l ! i"] that len by simp
  have wf: "\<forall>r \<in> set rs. region_wf r" using nth len decode_region_ok by (metis in_set_conv_nth)
  have "rs \<noteq> []" using rs(3) by auto
  then have map: "map_wf rs" using wf rs(2) by (simp add: map_wf_def map_new_def)
  obtain x y z u w v where "framebuffer_new x y z u w v = Ok fb"
    using d(3) unfolding decode_framebuffer_def by auto
  note fb = framebuffer_new_ok [OF this]
  have sv: "launch_ok s \<and> service_storage_is_reserved s rs" if "sv = Some s" for s
  proof
    show "launch_ok s" using d(2) that decode_service_ok by (auto split: if_splits)
    have "decoded_storage_reserved input (ly_region_count ly) s" using d(6) that by simp
    moreover have "(\<exists>i \<in> set [0..<ly_region_count ly]. case decode_region input i of Ok region \<Rightarrow> P region | Err _ \<Rightarrow> False) \<Longrightarrow>
        \<exists>r \<in> set rs. P r" for P using nth len by (metis (no_types, lifting) atLeastLessThan_iff nth_mem result.simps(5) set_upt)
    ultimately show "service_storage_is_reserved s rs"
      unfolding decoded_storage_reserved_def service_storage_is_reserved_def Let_def by (simp add: case_prod_beta)
  qed
  show ?thesis
  proof (rule that [of rs])
    show "map (decode_region input) [0..<bh_region_count h] = map Ok rs" using rs(1) h by simp
    show "handoff_sound h rs" using map len fb rs(3) sv by (simp add: handoff_sound_def h)
  qed
qed

lemma handoff_decode_cases:
  obtains (accepted) h rs where "handoff_decode input = (Ok h, rs)" "decode_checked input = Ok h" "handoff_sound h rs"
  | (refused) e where "handoff_decode input = (Err e, [])" "decode_checked input = Err e"
proof (cases "decode_checked input")
  case (Ok h)
  obtain rs where "map (decode_region input) [0..<bh_region_count h] = map Ok rs" "handoff_sound h rs"
    by (rule decode_checked_ok [OF Ok])
  then show ?thesis using that(1) emit_regions_ok Ok by (simp add: handoff_decode_def)
next
  case (Err e)
  then show ?thesis using that(2) by (simp add: handoff_decode_def)
qed

text \<open>A free frame lies in no other region.\<close>

lemma free_frame_apart:
  assumes "map_wf rs" and "f \<in> set (free_frames rs)" and "q \<in> set rs" and "mr_kind q \<noteq> Free"
  shows "unat f + 4096 \<le> unat (phys_get (mr_start q)) \<or> unat (region_end q) \<le> unat f"
proof -
  have w: "map_windows rs = Ok ()" "\<forall>r \<in> set rs. region_wf r"
    using assms(1) by (auto simp: map_wf_def map_new_def split: if_splits result.splits)
  obtain r where r: "r \<in> set rs" "mr_kind r = Free" "f \<in> set (region_frames r)" using free_frames_memD [OF assms(2)] by blast
  then have "r \<noteq> q" using assms(4) by auto
  then show ?thesis using map_regions_disjoint [OF w r(1) assms(3)] region_frames_bounds [OF _ r(3)] w(2) r(1) by fastforce
qed

section \<open>Decoding what was encoded\<close>

lemma sub_slice_inside: "a + j \<le> b \<Longrightarrow> sub_slice w (a + i) (a + j) = sub_slice (sub_slice w a b) i j"
  by (simp add: sub_slice_def drop_take min_def add.commute)

lemma nth_inside: "a + i < b \<Longrightarrow> b \<le> length w \<Longrightarrow> w ! (a + i) = sub_slice w a b ! i"
  by (simp add: sub_slice_def)

lemma header_fields:
  assumes "w = HANDOFF_MAGIC @ l4 @ c2 @ f2 @ v8 @ e32 @ m64 @ a8 @ b8 @ n8 @ w4 @ h4 @ s4 @ [pf] @ t2 @ [0] @ rest"
    and "length l4 = 4" "length c2 = 2" "length f2 = 2" "length v8 = 8" "length e32 = 32" "length m64 = 64" "length a8 = 8"
      "length b8 = 8" "length n8 = 8" "length w4 = 4" "length h4 = 4" "length s4 = 4" "length t2 = 2"
  shows "length w = 168 + length rest" and "sub_slice w 0 16 = HANDOFF_MAGIC" and "sub_slice w 16 20 = l4" and "sub_slice w 20 22 = c2"
    and "sub_slice w 22 24 = f2" and "sub_slice w 24 32 = v8" and "sub_slice w 32 64 = e32" and "sub_slice w 64 128 = m64"
    and "sub_slice w 128 136 = a8" and "sub_slice w 136 144 = b8" and "sub_slice w 144 152 = n8" and "sub_slice w 152 156 = w4"
    and "sub_slice w 156 160 = h4" and "sub_slice w 160 164 = s4" and "w ! 164 = pf" and "sub_slice w 165 167 = t2" and "w ! 167 = 0"
    and "168 \<le> i \<Longrightarrow> sub_slice w i j = sub_slice rest (i - 168) (j - 168)"
proof -
  have m: "length HANDOFF_MAGIC = 16" by (simp add: HANDOFF_MAGIC_def)
  note l = assms(2-) m
  show "length w = 168 + length rest" "sub_slice w 0 16 = HANDOFF_MAGIC" "sub_slice w 16 20 = l4" "sub_slice w 20 22 = c2"
    "sub_slice w 22 24 = f2" "sub_slice w 24 32 = v8" "sub_slice w 32 64 = e32" "sub_slice w 64 128 = m64"
    "sub_slice w 128 136 = a8" "sub_slice w 136 144 = b8" "sub_slice w 144 152 = n8" "sub_slice w 152 156 = w4"
    "sub_slice w 156 160 = h4" "sub_slice w 160 164 = s4"
    unfolding assms(1) by (simp_all add: l slices)
  show "w ! 164 = pf" "w ! 167 = 0" unfolding assms(1) by (simp_all add: l nth_append)
  have "sub_slice w 165 167 = sub_slice (t2 @ [0] @ rest) 0 2"
    unfolding assms(1) by (simp add: l slices flip: append_Cons)
  then show "sub_slice w 165 167 = t2" by (simp add: l slices)
  let ?h = "HANDOFF_MAGIC @ l4 @ c2 @ f2 @ v8 @ e32 @ m64 @ a8 @ b8 @ n8 @ w4 @ h4 @ s4 @ [pf] @ t2 @ [0]"
  have "w = ?h @ rest" "length ?h = 168" by (simp_all add: l assms(1))
  then show "168 \<le> i \<Longrightarrow> sub_slice w i j = sub_slice rest (i - 168) (j - 168)"
    by (simp only: sub_slice_skip)
qed

lemma region_kind_code_inverse: "decode_kind (region_kind_code k) = Ok k"
  by (cases k) (simp_all add: decode_kind_def region_kind_code_def)

lemma encoded_region:
  assumes "sub_slice w (168 + i * 24) (168 + i * 24 + 24) = encode_region r" and "168 + i * 24 + 24 \<le> length w" and "region_wf r"
  shows "decode_region w i = Ok r"
proof -
  let ?a = "168 + i * 24"
  have s: "sub_slice w (?a + x) (?a + y) = sub_slice (encode_region r) x y" if "y \<le> 24" for x y
    using sub_slice_inside [of ?a y "?a + 24" w x] that assms(1) by simp
  have "w ! (?a + 16) = region_kind_code (mr_kind r)"
    using nth_inside [of ?a 16 "?a + 24" w] assms(1,2) by (simp add: encode_region_def nth_append)
  moreover have "ho_u64 w ?a = phys_get (mr_start r)" "ho_u64 w (?a + 8) = mr_pages r"
    using s [of 8 0] s [of 16 8] by (simp_all add: ho_u64_def encode_region_def slices)
  moreover have "zeroed (sub_slice w (?a + 17) (?a + 24))"
    using s [of 24 17] by (simp add: encode_region_def slices zeroed_def) (simp add: sub_slice_def)
  ultimately show ?thesis using assms(3)
    by (simp add: decode_region_def Let_def HANDOFF_HEADER_BYTES_def HANDOFF_REGION_BYTES_def region_kind_code_inverse region_wf_def)
qed

lemma check_regions_accepts:
  assumes "map (decode_region input) [i..<n] = map Ok rs" and "map_windows rs = Ok ()"
    and "0 < i \<longrightarrow> rs \<noteq> [] \<longrightarrow> s \<le> phys_get (mr_start (hd rs)) \<and> e \<le> phys_get (mr_start (hd rs))"
  shows "check_regions input fb [i..<n] s e b = Ok (b \<or> (\<exists>r \<in> set rs. holds_framebuffer fb r))"
  using assms
proof (induction rs arbitrary: i s e b)
  case (Cons r rs)
  have "i < n" using Cons.prems(1) by (cases "i < n") auto
  then have u: "[i..<n] = i # [Suc i..<n]" by (rule upt_conv_Cons)
  have w: "map_windows rs = Ok ()" using Cons.prems(2) by (rule map_windows_ConsD)
  have "rs \<noteq> [] \<longrightarrow> phys_get (mr_start r) \<le> phys_get (mr_start (hd rs)) \<and> region_end r \<le> phys_get (mr_start (hd rs))"
    using Cons.prems(2) by (cases rs) (auto simp: not_less less_phys_addr_def split: if_splits)
  then have "check_regions input fb [Suc i..<n] (phys_get (mr_start r)) (region_end r) (b \<or> holds_framebuffer fb r) =
      Ok ((b \<or> holds_framebuffer fb r) \<or> (\<exists>r \<in> set rs. holds_framebuffer fb r))"
    using Cons.IH [of "Suc i"] Cons.prems(1) w u by auto
  then show ?case using Cons.prems(1,3) by (auto simp: u Let_def not_less)
qed auto

lemma encode_service_length: "length (sl_measurement s) = 64 \<Longrightarrow> length (encode_service s) = 160"
  by (simp add: encode_service_def)

definition launch_typed :: "service_launch \<Rightarrow> bool" where
  "launch_typed s \<longleftrightarrow> launch_ok s \<and> length (sl_measurement s) = 64 \<and>
     (\<forall>p \<in> {sl_artifact_physical s, sl_image_physical s, sl_stack_physical s, sl_table_physical s}. phys_new (phys_get p) = Ok p)"

lemma encoded_service:
  assumes "sub_slice w a (a + 160) = encode_service s" and "launch_typed s"
  shows "decode_service w a = Ok s"
proof -
  have s: "sub_slice w (a + x) (a + y) = sub_slice (encode_service s) x y" if "y \<le> 160" for x y
    using sub_slice_inside [of a y "a + 160" w x] that assms(1) by simp
  have h: "ho_u64 w (a + k) = from_le_bytes (sub_slice (encode_service s) k (k + 8))" if "k + 8 \<le> 160" for k
    using s [of "k + 8" k] that by (simp add: ho_u64_def add.assoc)
  have m: "length (sl_measurement s) = 64" using assms(2) by (simp add: launch_typed_def)
  have e: "encode_service s = to_le_bytes 8 (phys_get (sl_artifact_physical s)) @ to_le_bytes 8 (sl_artifact_length s) @
      to_le_bytes 8 (phys_get (sl_image_physical s)) @ to_le_bytes 8 (sl_image_pages s) @ to_le_bytes 8 (sl_image_virtual s) @
      to_le_bytes 8 (sl_entry s) @ to_le_bytes 8 (phys_get (sl_stack_physical s)) @ to_le_bytes 8 (sl_stack_pages s) @
      to_le_bytes 8 (sl_stack_top s) @ to_le_bytes 8 (phys_get (sl_table_physical s)) @ to_le_bytes 8 (sl_table_pages s) @
      to_le_bytes 8 (sl_version s) @ sl_measurement s"
    by (simp add: encode_service_def)
  have f: "ho_u64 w a = phys_get (sl_artifact_physical s)" "ho_u64 w (a + 8) = sl_artifact_length s"
    "ho_u64 w (a + 16) = phys_get (sl_image_physical s)" "ho_u64 w (a + 24) = sl_image_pages s"
    "ho_u64 w (a + 32) = sl_image_virtual s" "ho_u64 w (a + 40) = sl_entry s" "ho_u64 w (a + 48) = phys_get (sl_stack_physical s)"
    "ho_u64 w (a + 56) = sl_stack_pages s" "ho_u64 w (a + 64) = sl_stack_top s" "ho_u64 w (a + 72) = phys_get (sl_table_physical s)"
    "ho_u64 w (a + 80) = sl_table_pages s" "ho_u64 w (a + 88) = sl_version s"
    using h [of 0] by (simp_all add: h e slices)
  have "sub_slice w (a + 96) (a + 160) = sl_measurement s" using s [of 160 96] m by (simp add: e slices)
  then show ?thesis using assms(2)
    by (simp add: decode_service_def Let_def f HANDOFF_SERVICE_BYTES_def launch_typed_def launch_ok_def)
qed

definition encode_flags :: "bool \<Rightarrow> bool \<Rightarrow> bool \<Rightarrow> bool \<Rightarrow> bool \<Rightarrow> bool \<Rightarrow> u16" where
  "encode_flags sb mb rp md ap sv = flag_if sb FLAG_SECURE_BOOT OR flag_if mb FLAG_MEASURED_BOOT
     OR flag_if rp FLAG_ROLLBACK_PROTECTED OR flag_if md FLAG_MADT_SNAPSHOT
     OR flag_if ap FLAG_AP_TRAMPOLINE OR flag_if sv FLAG_SERVICE_IMAGE"

lemmas flag_defs = FLAG_SECURE_BOOT_def FLAG_MEASURED_BOOT_def FLAG_ROLLBACK_PROTECTED_def FLAG_MADT_SNAPSHOT_def
  FLAG_AP_TRAMPOLINE_def FLAG_SERVICE_IMAGE_def

lemma encode_flags_read:
  "encode_flags sb mb rp md ap sv AND NOT KNOWN_FLAGS = 0"
  "has_flag (encode_flags sb mb rp md ap sv) FLAG_SECURE_BOOT \<longleftrightarrow> sb"
  "has_flag (encode_flags sb mb rp md ap sv) FLAG_MEASURED_BOOT \<longleftrightarrow> mb"
  "has_flag (encode_flags sb mb rp md ap sv) FLAG_ROLLBACK_PROTECTED \<longleftrightarrow> rp"
  "has_flag (encode_flags sb mb rp md ap sv) FLAG_MADT_SNAPSHOT \<longleftrightarrow> md"
  "has_flag (encode_flags sb mb rp md ap sv) FLAG_AP_TRAMPOLINE \<longleftrightarrow> ap"
  "has_flag (encode_flags sb mb rp md ap sv) FLAG_SERVICE_IMAGE \<longleftrightarrow> sv"
  unfolding encode_flags_def flag_if_def has_flag_def KNOWN_FLAGS_def flag_defs
  by (cases sb; cases mb; cases rp; cases md; cases ap; cases sv; simp)+

text \<open>What the four encoders accept besides the common part.\<close>

datatype handoff_extras =
  PlainHandoff | MadtHandoff bytes | SmpHandoff u64 u64 bytes | ServiceHandoff u64 u64 service_launch bytes

fun encode_request where
  "encode_request PlainHandoff v e m sb mb rp acpi fb rs buf = encode_handoff v e m sb mb rp acpi fb rs buf"
| "encode_request (MadtHandoff t) v e m sb mb rp acpi fb rs buf = encode_handoff_with_madt v e m sb mb rp acpi fb rs t buf"
| "encode_request (SmpHandoff p a t) v e m sb mb rp acpi fb rs buf = encode_handoff_with_smp v e m sb mb rp acpi fb rs p a t buf"
| "encode_request (ServiceHandoff p a s t) v e m sb mb rp acpi fb rs buf =
     encode_handoff_with_smp_and_service v e m sb mb rp acpi fb rs p a s t buf"

fun extras_madt :: "handoff_extras \<Rightarrow> bytes option" where
  "extras_madt PlainHandoff = None"
| "extras_madt (MadtHandoff t) = Some t"
| "extras_madt (SmpHandoff _ _ t) = Some t"
| "extras_madt (ServiceHandoff _ _ _ t) = Some t"

fun extras_ap :: "handoff_extras \<Rightarrow> (u64 \<times> u64) option" where
  "extras_ap (SmpHandoff p a _) = Some (p, a)"
| "extras_ap (ServiceHandoff p a _ _) = Some (p, a)"
| "extras_ap _ = None"

fun extras_service :: "handoff_extras \<Rightarrow> service_launch option" where
  "extras_service (ServiceHandoff _ _ s _) = Some s"
| "extras_service _ = None"

lemma encode_request_inner:
  assumes "encode_request x v e m sb mb rp acpi fb rs buf = (Ok len, out)"
  shows "encode_handoff_inner v e m sb mb rp acpi fb rs (extras_madt x) (extras_ap x) (extras_service x) buf = (Ok len, out)"
    and "extras_madt x = Some t \<Longrightarrow> madt_valid t" and "extras_ap x = Some (p, a) \<Longrightarrow> ap_valid p a \<and> extras_madt x \<noteq> None"
  using assms
  by (cases x; auto simp: encode_handoff_def encode_handoff_with_madt_def encode_handoff_with_smp_def
      encode_handoff_with_smp_and_service_def split: if_splits)+

definition option_bytes :: "('a \<Rightarrow> bytes) \<Rightarrow> 'a option \<Rightarrow> bytes" where
  "option_bytes f x = (case x of None \<Rightarrow> [] | Some a \<Rightarrow> f a)"

definition ap_bytes :: "u64 \<times> u64 \<Rightarrow> bytes" where "ap_bytes x = to_le_bytes 8 (fst x) @ to_le_bytes 8 (snd x)"

text \<open>The accepted part of an encoding, without what the buffer held behind it.\<close>

lemma encode_inner_ok:
  assumes "encode_handoff_inner v e m sb mb rp acpi fb rs madt ap sv buf = (Ok len, out)"
    and "length e = 32" "length m = 64" "\<forall>s. sv = Some s \<longrightarrow> length (sl_measurement s) = 64"
  shows "0 < length rs \<and> length rs \<le> 128 \<and> v \<noteq> 0 \<and> acpi \<noteq> 0 \<and> map_new rs = Ok rs \<and> (\<exists>r \<in> set rs. holds_framebuffer fb r)"
    and "\<forall>s. sv = Some s \<longrightarrow> service_storage_is_reserved s rs"
    and "\<exists>ev. evidence_new e m v sb mb rp = Ok ev"
    and "len = 168 + length rs * 24 + length (option_bytes encode_service sv) + length (option_bytes ap_bytes ap) + length (option_bytes id madt)"
    and "take len out = HANDOFF_MAGIC @ to_le_bytes 4 (of_nat len :: u32) @ to_le_bytes 2 (of_nat (length rs) :: u16) @
       to_le_bytes 2 (encode_flags sb mb rp (madt \<noteq> None) (ap \<noteq> None) (sv \<noteq> None)) @ to_le_bytes 8 v @ e @ m @ to_le_bytes 8 acpi @
       to_le_bytes 8 (phys_get (fb_base fb)) @ to_le_bytes 8 (fb_byte_length fb) @
       to_le_bytes 4 (fb_width fb) @ to_le_bytes 4 (fb_height fb) @ to_le_bytes 4 (fb_stride fb) @
       [case fb_format fb of RedGreenBlueReserved \<Rightarrow> 0 | BlueGreenRedReserved \<Rightarrow> 1] @
       to_le_bytes 2 (of_nat (length (option_bytes id madt)) :: u16) @ [0] @
       concat (map encode_region rs) @ option_bytes encode_service sv @ option_bytes ap_bytes ap @ option_bytes id madt"
    and "drop len out = drop len buf"
proof -
  let ?n = "168 + length rs * 24 + (if sv \<noteq> None then 160 else 0) + (if ap \<noteq> None then 16 else 0) + (case madt of None \<Rightarrow> 0 | Some m \<Rightarrow> length m)"
  let ?B = "HANDOFF_MAGIC @ to_le_bytes 4 (of_nat len :: u32) @ to_le_bytes 2 (of_nat (length rs) :: u16) @
       to_le_bytes 2 (encode_flags sb mb rp (madt \<noteq> None) (ap \<noteq> None) (sv \<noteq> None)) @ to_le_bytes 8 v @ e @ m @ to_le_bytes 8 acpi @
       to_le_bytes 8 (phys_get (fb_base fb)) @ to_le_bytes 8 (fb_byte_length fb) @
       to_le_bytes 4 (fb_width fb) @ to_le_bytes 4 (fb_height fb) @ to_le_bytes 4 (fb_stride fb) @
       [case fb_format fb of RedGreenBlueReserved \<Rightarrow> 0 | BlueGreenRedReserved \<Rightarrow> 1] @
       to_le_bytes 2 (of_nat (length (option_bytes id madt)) :: u16) @ [0] @
       concat (map encode_region rs) @ option_bytes encode_service sv @ option_bytes ap_bytes ap @ option_bytes id madt"
  have l: "(if sv \<noteq> None then 160 else 0) = length (option_bytes encode_service sv)" "(if ap \<noteq> None then 16 else 0) = length (option_bytes ap_bytes ap)"
    "(case madt of None \<Rightarrow> 0 | Some m \<Rightarrow> length m) = length (option_bytes id madt)"
    using assms(4) by (auto simp: option_bytes_def ap_bytes_def encode_service_length split: option.splits)
  have b: "option_bytes encode_service sv = (case sv of None \<Rightarrow> [] | Some s \<Rightarrow> encode_service s)"
    "option_bytes ap_bytes ap = (case ap of None \<Rightarrow> [] | Some (x, y) \<Rightarrow> to_le_bytes 8 x @ to_le_bytes 8 y)"
    "option_bytes id madt = (case madt of None \<Rightarrow> [] | Some m \<Rightarrow> m)"
    by (auto simp: option_bytes_def ap_bytes_def split: option.splits)
  have c: "\<not> (rs = [] \<or> length rs > 128)" "\<not> (length buf < ?n \<or> v = 0 \<or> acpi = 0)" "map_new rs = Ok rs"
    "\<exists>r \<in> set rs. holds_framebuffer fb r" "\<forall>s. sv = Some s \<longrightarrow> service_storage_is_reserved s rs"
    "\<exists>ev. evidence_new e m v sb mb rp = Ok ev" "len = ?n" "out = ?B @ drop len buf"
    using assms(1) unfolding encode_handoff_inner_def Let_def HANDOFF_HEADER_BYTES_def HANDOFF_REGION_BYTES_def
      HANDOFF_SERVICE_BYTES_def MAX_HANDOFF_REGIONS_def b encode_flags_def
    by (auto simp: map_new_def split: if_splits result.splits option.splits)
  show "0 < length rs \<and> length rs \<le> 128 \<and> v \<noteq> 0 \<and> acpi \<noteq> 0 \<and> map_new rs = Ok rs \<and> (\<exists>r \<in> set rs. holds_framebuffer fb r)"
    "\<forall>s. sv = Some s \<longrightarrow> service_storage_is_reserved s rs" "\<exists>ev. evidence_new e m v sb mb rp = Ok ev"
    using c(1-6) by auto
  show n: "len = 168 + length rs * 24 + length (option_bytes encode_service sv) + length (option_bytes ap_bytes ap) + length (option_bytes id madt)"
    using c(7) unfolding l .
  have "\<forall>c \<in> set (map encode_region rs). length c = 24" by (simp add: encode_region_def)
  from length_concat_chunks [OF this] have len: "length ?B = len"
    using n assms(2,3) by (simp add: HANDOFF_MAGIC_def)
  have cut: "length x = n \<Longrightarrow> take n (x @ d) = x" "length x = n \<Longrightarrow> drop n (x @ d) = d" for x d :: bytes and n
    by simp_all
  show "take len out = ?B" "drop len out = drop len buf" unfolding c(8) using len by (rule cut)+
qed

lemma madt_validD: "madt_valid t \<Longrightarrow> 44 \<le> length t \<and> length t \<le> 8192"
  by (simp add: madt_valid_def MAX_HANDOFF_MADT_BYTES_def)

lemma read_back: "from_le_bytes (to_le_bytes 2 (x :: u16)) = x" "from_le_bytes (to_le_bytes 4 (y :: u32)) = y" "from_le_bytes (to_le_bytes 8 (z :: u64)) = z"
  by simp_all

lemma unat_small: "n < 2 ^ 16 \<Longrightarrow> unat (of_nat n :: u16) = n" "n < 2 ^ 32 \<Longrightarrow> unat (of_nat n :: u32) = n"
  by (simp_all only: unsigned_of_nat) (simp_all add: take_bit_nat_eq_self)

lemma tail_slices:
  assumes "r = R @ S @ A @ (M :: bytes)"
  shows "sub_slice r (length R) (length R + length S) = S"
    and "sub_slice r (length R + length S) (length R + length S + length A) = A"
    and "sub_slice r (length R + length S + length A) (length R + length S + length A + length M) = M"
  unfolding assms by (simp_all add: sub_slice_def)

lemma layout_of_encoding:
  assumes len: "len = 168 + length rs * 24 + length S + length A + length M" and rs: "0 < length rs" "length rs \<le> 128"
    and M: "length M \<le> 8192" "md \<longleftrightarrow> M \<noteq> []" "M \<noteq> [] \<longrightarrow> madt_valid M" and A: "length A = (if ap then 16 else 0)" "ap \<longrightarrow> md"
    and S: "length S = (if sv then 160 else 0)"
    and w: "length w = len" "sub_slice w 0 16 = HANDOFF_MAGIC" "sub_slice w 16 20 = to_le_bytes 4 (of_nat len :: u32)"
      "sub_slice w 20 22 = to_le_bytes 2 (of_nat (length rs) :: u16)" "sub_slice w 22 24 = to_le_bytes 2 (encode_flags sb mb rp md ap sv)"
      "sub_slice w 165 167 = to_le_bytes 2 (of_nat (length M) :: u16)" "w ! 167 = 0"
      "sub_slice w (168 + length rs * 24 + length S + length A) len = M"
  shows "decode_layout w = Ok \<lparr>ly_flags = encode_flags sb mb rp md ap sv, ly_region_count = length rs,
     ly_service_offset = 168 + length rs * 24, ly_trampoline_offset = 168 + length rs * 24 + length S,
     ly_madt_offset = 168 + length rs * 24 + length S + length A, ly_madt_length = length M\<rparr>"
proof -
  have small: "len < 2 ^ 32" using len rs(2) M(1) A(1) S by (simp split: if_splits)
  have r: "unat (ho_u32 w 16) = len" "unat (ho_u16 w 20) = length rs" "ho_u16 w 22 = encode_flags sb mb rp md ap sv" "unat (ho_u16 w 165) = length M"
    using w(3-6) small rs(2) M(1) by (simp_all add: ho_u16_def ho_u32_def read_back unat_small)
  have M': "M \<noteq> [] \<longrightarrow> 44 \<le> length M" "M \<noteq> [] \<longrightarrow> sub_slice M 0 4 = MADT_MAGIC \<and> unat (ho_u32 M 4) = length M \<and> madt_sum M = 0"
    using M(3) by (auto simp: madt_valid_def)
  show ?thesis
    unfolding decode_layout_def Let_def r encode_flags_read HANDOFF_HEADER_BYTES_def HANDOFF_REGION_BYTES_def HANDOFF_SERVICE_BYTES_def
      MAX_HANDOFF_REGIONS_def MAX_HANDOFF_MADT_BYTES_def w(1,2,7) S [symmetric] A(1) [symmetric] len [symmetric] w(8)
    using rs M(1,2) M' A(2) len by auto
qed

lemma sub_slice_prefix: "b \<le> length x \<Longrightarrow> sub_slice (x @ y) a b = sub_slice x a b"
  by (simp add: sub_slice_def)

lemma evidence_new_ok:
  "evidence_new e m v sb mb rp = Ok ev \<Longrightarrow> ev = \<lparr>be_entropy = e, be_image_measurement = m, be_image_version = v,
     be_secure_boot = sb, be_measured_boot = mb, be_rollback_protected = rp\<rparr>"
  by (simp add: evidence_new_def split: if_splits)

text \<open>The decoder on the bytes of an accepted encoding.\<close>

lemma decode_encoding:
  assumes enc: "encode_handoff_inner v e m sb mb rp acpi fb rs madt ap sv buf = (Ok len, out)"
    and e: "length e = 32" "length m = 64" and wf: "\<forall>r \<in> set rs. region_wf r"
    and fb: "framebuffer_new (phys_get (fb_base fb)) (fb_byte_length fb) (fb_width fb) (fb_height fb) (fb_stride fb) (fb_format fb) = Ok fb"
    and sv: "\<forall>s. sv = Some s \<longrightarrow> launch_typed s" and madt: "\<forall>t. madt = Some t \<longrightarrow> madt_valid t"
    and ap: "\<forall>p a. ap = Some (p, a) \<longrightarrow> ap_valid p a \<and> madt \<noteq> None"
  shows "handoff_decode (take len out) =
     (Ok \<lparr>bh_evidence = \<lparr>be_entropy = e, be_image_measurement = m, be_image_version = v, be_secure_boot = sb,
          be_measured_boot = mb, be_rollback_protected = rp\<rparr>, bh_acpi_root = acpi, bh_framebuffer = fb,
        bh_region_count = length rs, bh_madt_offset = len - length (option_bytes id madt),
        bh_madt_length = length (option_bytes id madt), bh_ap_trampoline = map_option fst ap,
        bh_ap_stack_arena = map_option snd ap, bh_service = sv\<rparr>, rs)"
    and "sub_slice (take len out) (len - length (option_bytes id madt)) len = option_bytes id madt"
proof -
  have meas: "\<forall>s. sv = Some s \<longrightarrow> length (sl_measurement s) = 64" using sv by (simp add: launch_typed_def)
  note E = encode_inner_ok [OF enc e meas]
  let ?R = "concat (map encode_region rs)" and ?S = "option_bytes encode_service sv" and ?A = "option_bytes ap_bytes ap"
    and ?M = "option_bytes id madt"
  define w where "w = take len out"
  note H = header_fields [OF E(5) [folded w_def] length_to_le_bytes length_to_le_bytes length_to_le_bytes length_to_le_bytes e(1,2)
    length_to_le_bytes length_to_le_bytes length_to_le_bytes length_to_le_bytes length_to_le_bytes length_to_le_bytes length_to_le_bytes]
  have R24: "\<forall>c \<in> set (map encode_region rs). length c = 24" by (simp add: encode_region_def)
  have R: "length ?R = length rs * 24" using length_concat_chunks [OF R24] by simp
  have S: "length ?S = (if sv \<noteq> None then 160 else 0)" using meas by (auto simp: option_bytes_def encode_service_length split: option.splits)
  have A: "length ?A = (if ap \<noteq> None then 16 else 0)" by (auto simp: option_bytes_def ap_bytes_def split: option.splits)
  have M: "length ?M \<le> 8192" "madt \<noteq> None \<longleftrightarrow> ?M \<noteq> []" "?M \<noteq> [] \<longrightarrow> madt_valid ?M"
    using madt madt_validD by (fastforce simp: option_bytes_def split: option.splits)+
  have len: "len = 168 + length rs * 24 + length ?S + length ?A + length ?M" by (rule E(4))
  have lw: "length w = len" using H(1) R len by simp
  note T = tail_slices [OF refl, of ?R ?S ?A ?M]
  have tS: "sub_slice w (168 + length rs * 24) (168 + length rs * 24 + length ?S) = ?S"
    and tA: "sub_slice w (168 + length rs * 24 + length ?S) (168 + length rs * 24 + length ?S + length ?A) = ?A"
    and tM: "sub_slice w (168 + length rs * 24 + length ?S + length ?A) len = ?M"
    using T by (simp_all add: H(18) R len algebra_simps)
  have ly: "decode_layout w = Ok \<lparr>ly_flags = encode_flags sb mb rp (madt \<noteq> None) (ap \<noteq> None) (sv \<noteq> None), ly_region_count = length rs,
     ly_service_offset = 168 + length rs * 24, ly_trampoline_offset = 168 + length rs * 24 + length ?S,
     ly_madt_offset = 168 + length rs * 24 + length ?S + length ?A, ly_madt_length = length ?M\<rparr>"
    using E(1) ap by (intro layout_of_encoding [OF len _ _ M A _ S lw H(2-5,16,17) tM]) auto
  have reg: "decode_region w i = Ok (rs ! i)" if "i < length rs" for i
  proof (rule encoded_region)
    have "i * 24 + 24 \<le> length ?R" using that R by linarith
    then have "sub_slice w (168 + i * 24) (168 + i * 24 + 24) = sub_slice ?R (i * 24) (i * 24 + 24)"
      by (simp add: H(18) sub_slice_prefix add.commute)
    also have "\<dots> = encode_region (rs ! i)" using concat_chunk [OF R24, of i] that by simp
    finally show "sub_slice w (168 + i * 24) (168 + i * 24 + 24) = encode_region (rs ! i)" .
    show "168 + i * 24 + 24 \<le> length w" using that lw len by linarith
    show "region_wf (rs ! i)" using wf that by simp
  qed
  have regs: "map (decode_region w) [0..<length rs] = map Ok rs" by (rule nth_equalityI) (simp_all add: reg)
  have win: "map_windows rs = Ok ()" using E(1) by (auto simp: map_new_def split: if_splits result.splits)
  have chk: "check_regions w fb [0..<length rs] 0 0 False = Ok True"
    using check_regions_accepts [OF regs win, of 0 0 fb False] E(1) by simp
  have dap: "decode_ap w ly = Ok ap" if "ly_flags ly = encode_flags sb mb rp (madt \<noteq> None) (ap \<noteq> None) (sv \<noteq> None)"
      "ly_trampoline_offset ly = 168 + length rs * 24 + length ?S" for ly
  proof (cases ap)
    case (Some x)
    let ?o = "168 + length rs * 24 + length ?S"
    have x: "?A = to_le_bytes 8 (fst x) @ to_le_bytes 8 (snd x)" "ap_valid (fst x) (snd x)"
      using Some ap by (cases x; simp add: option_bytes_def ap_bytes_def)+
    have "sub_slice w ?o (?o + 16) = ?A" using tA x(1) by simp
    then have "sub_slice w (?o + i) (?o + j) = sub_slice ?A i j" if "j \<le> 16" for i j
      using sub_slice_inside [of ?o j "?o + 16" w i] that by simp
    from this [of 8 0] this [of 16 8] have "ho_u64 w ?o = fst x" "ho_u64 w (?o + 8) = snd x"
      by (simp_all add: ho_u64_def x(1) slices)
    then show ?thesis using that x(2) Some by (simp add: decode_ap_def encode_flags_read Let_def)
  qed (use that in \<open>simp add: decode_ap_def encode_flags_read\<close>)
  have dsv: "(if sv \<noteq> None then and_then (decode_service w (168 + length rs * 24)) (\<lambda>s. Ok (Some s)) else Ok None) = Ok sv"
    using tS sv S by (cases sv) (auto simp: option_bytes_def encoded_service)
  have dfb: "decode_framebuffer w = Ok fb"
    using fb H(10-15) by (cases "fb_format fb") (simp_all add: decode_framebuffer_def ho_u64_def ho_u32_def)
  have res: "\<not> (case sv of None \<Rightarrow> False | Some s \<Rightarrow> \<not> decoded_storage_reserved w (length rs) s)"
  proof (cases sv)
    case (Some s)
    have "\<exists>i \<in> set [0..<length rs]. case decode_region w i of Ok region \<Rightarrow> P region | Err _ \<Rightarrow> False" if "\<exists>r \<in> set rs. P r" for P
      using that reg by (fastforce simp: in_set_conv_nth)
    then show ?thesis using E(2) Some
      by (simp add: decoded_storage_reserved_def service_storage_is_reserved_def Let_def case_prod_beta)
  qed simp
  show "handoff_decode (take len out) =
     (Ok \<lparr>bh_evidence = \<lparr>be_entropy = e, be_image_measurement = m, be_image_version = v, be_secure_boot = sb,
          be_measured_boot = mb, be_rollback_protected = rp\<rparr>, bh_acpi_root = acpi, bh_framebuffer = fb,
        bh_region_count = length rs, bh_madt_offset = len - length (option_bytes id madt),
        bh_madt_length = length (option_bytes id madt), bh_ap_trampoline = map_option fst ap,
        bh_ap_stack_arena = map_option snd ap, bh_service = sv\<rparr>, rs)"
  proof -
    obtain ev where ev: "evidence_new e m v sb mb rp = Ok ev" using E(3) by blast
    let ?l = "\<lparr>ly_flags = encode_flags sb mb rp (madt \<noteq> None) (ap \<noteq> None) (sv \<noteq> None), ly_region_count = length rs,
     ly_service_offset = 168 + length rs * 24, ly_trampoline_offset = 168 + length rs * 24 + length ?S,
     ly_madt_offset = 168 + length rs * 24 + length ?S + length ?A, ly_madt_length = length ?M\<rparr>"
    have dap': "decode_ap w ?l = Ok ap" by (rule dap) (simp_all only: handoff_layout.select_convs)
    have "decode_checked w = Ok \<lparr>bh_evidence = ev, bh_acpi_root = acpi, bh_framebuffer = fb,
        bh_region_count = length rs, bh_madt_offset = 168 + length rs * 24 + length ?S + length ?A,
        bh_madt_length = length ?M, bh_ap_trampoline = map_option fst ap,
        bh_ap_stack_arena = map_option snd ap, bh_service = sv\<rparr>"
      unfolding decode_checked_def ly and_then_simps Let_def dap' handoff_layout.select_convs encode_flags_read dsv dfb chk
      using E(1) res ev H(6-9) by (simp add: ho_u64_def)
    moreover have "168 + length rs * 24 + length ?S + length ?A = len - length ?M" using len by simp
    ultimately show ?thesis unfolding w_def [symmetric] handoff_decode_def
      using emit_regions_ok [OF regs] evidence_new_ok [OF ev] by simp
  qed
  show "sub_slice (take len out) (len - length ?M) len = ?M" using tM unfolding w_def len by simp
qed

text \<open>A small machine: free memory, the framebuffer, and a table of processors.\<close>

definition demo_regions :: "memory_region list" where
  "demo_regions = [\<lparr>mr_start = PhysAddr 0x100000, mr_pages = 16, mr_kind = Free\<rparr>,
     \<lparr>mr_start = PhysAddr 0xe0000000, mr_pages = 256, mr_kind = Mmio\<rparr>]"

definition demo_framebuffer :: framebuffer_info where
  "demo_framebuffer = \<lparr>fb_base = PhysAddr 0xe0000000, fb_byte_length = 0x100000, fb_width = 512, fb_height = 512,
     fb_stride = 512, fb_format = BlueGreenRedReserved\<rparr>"

definition demo_madt :: bytes where
  "demo_madt = [0x41, 0x50, 0x49, 0x43, 44, 0, 0, 0, 0xb7] @ replicate 35 0"

lemma demo_typed:
  "\<forall>r \<in> set demo_regions. region_wf r" "map_new demo_regions = Ok demo_regions"
  "\<exists>r \<in> set demo_regions. holds_framebuffer demo_framebuffer r"
  "framebuffer_new (phys_get (fb_base demo_framebuffer)) (fb_byte_length demo_framebuffer) (fb_width demo_framebuffer)
     (fb_height demo_framebuffer) (fb_stride demo_framebuffer) (fb_format demo_framebuffer) = Ok demo_framebuffer"
  by (simp_all add: demo_regions_def demo_framebuffer_def region_wf_def phys_new_def region_new_def PAGE_SIZE_def checked_add_def
      map_new_def region_end_def less_phys_addr_def holds_framebuffer_def fb_end_def framebuffer_new_def checked_mul_def
      MAX_DIMENSION_def MAX_STRIDE_def BYTES_PER_PIXEL_def)

lemma demo_madt_valid: "madt_valid demo_madt"
proof -
  have "fold (\<lambda>b s. s + b) (replicate n 0) (x :: u8) = x" for n x by (induction n) simp_all
  then have "madt_sum demo_madt = 0" by (simp add: madt_sum_def demo_madt_def)
  moreover have "ho_u32 demo_madt 4 = 44" by (simp add: ho_u32_def demo_madt_def sub_slice_def)
  ultimately show ?thesis
    by (simp add: madt_valid_def demo_madt_def MAX_HANDOFF_MADT_BYTES_def MADT_MAGIC_def sub_slice_def)
qed

lemma demo_encodes:
  obtains len out where
    "encode_request (MadtHandoff demo_madt) 8 (replicate 32 1) (replicate 64 2) True True True 0xf0000 demo_framebuffer demo_regions
       (replicate 4096 0) = (Ok len, out)"
    "encode_handoff_inner 8 (replicate 32 1) (replicate 64 2) True True True 0xf0000 demo_framebuffer demo_regions
       (Some demo_madt) None None (replicate 4096 0) = (Ok len, out)"
proof -
  have "length demo_madt = 44" "length demo_regions = 2" "demo_regions \<noteq> []" by (simp_all add: demo_madt_def demo_regions_def)
  moreover have "\<not> zeroed (replicate 32 1)" "\<not> zeroed (replicate 64 2)" by (simp_all add: zeroed_def)
  ultimately have "\<exists>len out. encode_handoff_inner 8 (replicate 32 1) (replicate 64 2) True True True 0xf0000 demo_framebuffer demo_regions
       (Some demo_madt) None None (replicate 4096 0) = (Ok len, out)"
    using demo_typed(2,3)
    by (auto simp: encode_handoff_inner_def Let_def HANDOFF_HEADER_BYTES_def HANDOFF_REGION_BYTES_def MAX_HANDOFF_REGIONS_def evidence_new_def)
  then show ?thesis using that demo_madt_valid by (auto simp: encode_handoff_with_madt_def)
qed

lemma demo_decodes: "\<exists>w h. handoff_decode w = (Ok h, demo_regions) \<and> bh_framebuffer h = demo_framebuffer"
proof -
  obtain len out where e: "encode_handoff_inner 8 (replicate 32 1) (replicate 64 2) True True True 0xf0000 demo_framebuffer demo_regions
       (Some demo_madt) None None (replicate 4096 0) = (Ok len, out)" by (rule demo_encodes)
  then show ?thesis using decode_encoding(1) [OF e _ _ demo_typed(1,4)] demo_madt_valid by (auto intro!: exI)
qed

section \<open>Properties\<close>

text \<open>
  Property C19.  An accepted handoff describes a usable machine: the emitted regions are a valid memory
  map, and no sequence of boot-time requests to the frame allocator over that map is ever granted a frame that
  touches the framebuffer or the artifact, image, stack or page tables of the service, which are
  themselves pairwise disjoint.  A refused handoff emits no region.
\<close>

theorem handoff_protects_storage:
  assumes "handoff_decode input = (Ok h, regions)"
  shows "map_wf regions \<and>
     (\<forall>f \<in> set (granted qs (allocator_new regions)).
        (unat f + 4096 \<le> unat (phys_get (fb_base (bh_framebuffer h))) \<or> unat (fb_end (bh_framebuffer h)) \<le> unat f) \<and>
        (\<forall>s. bh_service h = Some s \<longrightarrow>
           (\<forall>x \<in> set (service_storage s). spans_disjoint (unat f, unat f + 4096) (storage_span x)))) \<and>
     (\<forall>s. bh_service h = Some s \<longrightarrow>
        sorted_wrt (\<lambda>a b. spans_disjoint (storage_span a) (storage_span b)) (service_storage s)) \<and>
     (\<forall>input' e rs. handoff_decode input' = (Err e, rs) \<longrightarrow> rs = [])"
proof -
  have sound: "handoff_sound h regions" using assms by (cases input rule: handoff_decode_cases) auto
  then have wf: "map_wf regions" by (simp add: handoff_sound_def)
  have "\<forall>r \<in> set (fa_map (allocator_new regions)). region_wf r" using wf by (simp add: map_wf_def allocator_new_def)
  from granted_subseq [OF this] have free: "set (granted qs (allocator_new regions)) \<subseteq> set (free_frames regions)"
    by (auto simp: remaining_new dest: subseq_order.order_trans list_emb_set)
  note apart = free_frame_apart [OF wf]
  obtain r where r: "r \<in> set regions" "holds_framebuffer (bh_framebuffer h) r" using sound by (auto simp: handoff_sound_def)
  have fb: "unat f + 4096 \<le> unat (phys_get (fb_base (bh_framebuffer h))) \<or> unat (fb_end (bh_framebuffer h)) \<le> unat f"
    if "f \<in> set (free_frames regions)" for f
    using apart [OF that r(1)] r(2) by (auto simp: holds_framebuffer_def word_le_nat_alt)
  have storage: "spans_disjoint (unat f, unat f + 4096) (storage_span x)"
    if f: "f \<in> set (free_frames regions)" and s: "bh_service h = Some s" and x: "x \<in> set (service_storage s)" for f s x
  proof -
    obtain q where q: "q \<in> set regions" "reserved_holds (fst x) (phys_get (fst x) + snd x * PAGE_SIZE) q"
      using sound s x by (fastforce simp: handoff_sound_def service_storage_is_reserved_def Let_def)
    obtain len where "checked_pages (fst x) (snd x) = Ok len"
      using launch_storage(1) sound s x by (fastforce simp: handoff_sound_def)
    note c = checked_pages_ok(4) [OF this]
    show ?thesis using apart [OF f q(1)] q(2) c
      by (auto simp: reserved_holds_def spans_disjoint_def storage_span_def word_le_nat_alt)
  qed
  have refused: "rs = []" if "handoff_decode input' = (Err e, rs)" for input' e rs
    using that by (cases input' rule: handoff_decode_cases) auto
  have pairs: "sorted_wrt (\<lambda>a b. spans_disjoint (storage_span a) (storage_span b)) (service_storage s)" if "bh_service h = Some s" for s
    using launch_storage(2) sound that by (simp add: handoff_sound_def)
  show ?thesis using wf fb storage pairs refused free by (intro conjI) (blast+)
qed

theorem handoff_protects_storage_witness:
  "\<exists>w h. handoff_decode w = (Ok h, demo_regions) \<and>
     (\<forall>f \<in> set (granted [Single, Contiguous 4 4] (allocator_new demo_regions)). unat f + 4096 \<le> 0xe0000000 \<or> 0xe0100000 \<le> unat f)"
proof -
  obtain w h where w: "handoff_decode w = (Ok h, demo_regions)" "bh_framebuffer h = demo_framebuffer" using demo_decodes by blast
  have "\<forall>f \<in> set (granted [Single, Contiguous 4 4] (allocator_new demo_regions)).
      unat f + 4096 \<le> unat (phys_get (fb_base (bh_framebuffer h))) \<or> unat (fb_end (bh_framebuffer h)) \<le> unat f"
    using handoff_protects_storage [OF w(1), of "[Single, Contiguous 4 4]"] by blast
  then show ?thesis using w by (auto simp: demo_framebuffer_def fb_end_def)
qed

text \<open>
  Property C20.  What an encoder writes is decoded: for every handoff that one of the four encoders
  accepts, the decoder accepts the bytes written and returns the same evidence, firmware root, framebuffer,
  processor resources, service and table of processors, and emits the same regions; the rest of the
  buffer is unchanged.
\<close>

theorem handoff_round_trip:
  assumes "encode_request x v e m sb mb rp acpi fb rs buf = (Ok len, out)"
    and "length e = 32" and "length m = 64" and "\<forall>r \<in> set rs. region_wf r"
    and "framebuffer_new (phys_get (fb_base fb)) (fb_byte_length fb) (fb_width fb) (fb_height fb) (fb_stride fb) (fb_format fb) = Ok fb"
    and "\<forall>s. extras_service x = Some s \<longrightarrow> launch_typed s"
  shows "\<exists>h. handoff_decode (take len out) = (Ok h, rs) \<and> evidence_new e m v sb mb rp = Ok (bh_evidence h) \<and>
     bh_acpi_root h = acpi \<and> bh_framebuffer h = fb \<and> bh_service h = extras_service x \<and>
     bh_ap_trampoline h = map_option fst (extras_ap x) \<and> bh_ap_stack_arena h = map_option snd (extras_ap x) \<and>
     handoff_madt h (take len out) = extras_madt x \<and> drop len out = drop len buf"
proof -
  note R = encode_request_inner [OF assms(1)]
  have meas: "\<forall>s. extras_service x = Some s \<longrightarrow> length (sl_measurement s) = 64" using assms(6) by (simp add: launch_typed_def)
  note E = encode_inner_ok [OF R(1) assms(2,3) meas]
  have madt: "\<forall>t. extras_madt x = Some t \<longrightarrow> madt_valid t" using R(2) by blast
  have ap: "\<forall>p a. extras_ap x = Some (p, a) \<longrightarrow> ap_valid p a \<and> extras_madt x \<noteq> None" using R(3) by blast
  note D = decode_encoding [OF R(1) assms(2-6) madt ap]
  obtain ev where "evidence_new e m v sb mb rp = Ok ev" using E(3) by blast
  moreover from evidence_new_ok [OF this] have "ev = \<lparr>be_entropy = e, be_image_measurement = m, be_image_version = v,
     be_secure_boot = sb, be_measured_boot = mb, be_rollback_protected = rp\<rparr>" .
  moreover have "t \<noteq> []" if "extras_madt x = Some t" for t using madt madt_validD that by fastforce
  ultimately show ?thesis using D E(4,6)
    by (cases "extras_madt x") (auto simp: handoff_madt_def option_bytes_def)
qed

theorem handoff_round_trip_witness:
  "\<exists>len out h. encode_request (MadtHandoff demo_madt) 8 (replicate 32 1) (replicate 64 2) True True True 0xf0000 demo_framebuffer
       demo_regions (replicate 4096 0) = (Ok len, out) \<and> handoff_decode (take len out) = (Ok h, demo_regions) \<and>
     handoff_madt h (take len out) = Some demo_madt"
proof -
  obtain len out where e: "encode_request (MadtHandoff demo_madt) 8 (replicate 32 1) (replicate 64 2) True True True 0xf0000 demo_framebuffer
       demo_regions (replicate 4096 0) = (Ok len, out)" by (rule demo_encodes)
  show ?thesis using handoff_round_trip [OF e _ _ demo_typed(1,4)] e by auto
qed

end
