(* ===== verification/Service_Space.thy ===== *)
theory Service_Space
  imports Page_Clone Handoff
begin

text \<open>
  Address spaces of user services, after \<open>crates/mrml-kernel/src/arch/x86_64/pe_mapping.rs\<close> and
  \<open>service_space.rs\<close>: the mappings of an executable image, installed all or not at all, and the plan
  of one service with its kernel mappings, image, stack and guard page, turned into page tables.
  The capacity of the address space is an argument where the code has a const generic.
\<close>

section \<open>Definitions\<close>

subsection \<open>Mapping an image\<close>

datatype pe_mapping_error =
  InvalidCount | MissingAllocation | PmOutputTooSmall | PmAddress address_space_error | RollbackFailure

definition region_permissions :: "bool \<Rightarrow> pe_load_region \<Rightarrow> page_permissions option" where
  "region_permissions user load =
     (if lr_writable load \<and> lr_executable load then None
      else if user then
        Some (if lr_writable load then USER_READ_WRITE else if lr_executable load then USER_READ_EXECUTE else USER_READ)
      else Some (if lr_writable load then KERNEL_READ_WRITE else if lr_executable load then KERNEL_READ_EXECUTE else KERNEL_READ))"

definition prepare_region ::
  "u64 \<Rightarrow> bool \<Rightarrow> pe_allocated_region option \<Rightarrow> (mapping, pe_mapping_error) result" where
  "prepare_region load_base user slot =
     and_then (ok_or slot MissingAllocation) (\<lambda>allocation.
     let load = ar_load allocation in
     and_then (ok_or (checked_add load_base (ucast (lr_virtual_address load))) (PmAddress AsOverflow)) (\<lambda>virtual_address.
     and_then (ok_or (region_permissions user load) (PmAddress InvalidMapping)) (\<lambda>permissions.
     and_then (map_err (\<lambda>_. PmAddress InvalidMapping) (virt_new virtual_address)) (\<lambda>v.
     map_err PmAddress (mapping_new v (ar_physical_start allocation) (ucast (lr_pages load)) permissions)))))"

fun prepare_regions ::
  "u64 \<Rightarrow> bool \<Rightarrow> pe_allocated_region option list \<Rightarrow> (mapping list, pe_mapping_error) result" where
  "prepare_regions load_base user [] = Ok []"
| "prepare_regions load_base user (slot # rest) =
     and_then (prepare_region load_base user slot) (\<lambda>m.
     and_then (prepare_regions load_base user rest) (\<lambda>ms. Ok (m # ms)))"

fun roll_back ::
  "nat list \<Rightarrow> address_space \<Rightarrow> mapping_id option list \<Rightarrow>
     (unit, pe_mapping_error) result \<times> address_space \<times> mapping_id option list" where
  "roll_back [] space ids = (Ok (), space, ids)"
| "roll_back (index # rest) space ids =
     (case ids ! index of
        None \<Rightarrow> (Err RollbackFailure, space, ids)
      | Some i \<Rightarrow>
          (case as_unmap i space of
             (Err _, space) \<Rightarrow> (Err RollbackFailure, space, ids[index := None])
           | (Ok _, space) \<Rightarrow> roll_back rest space (ids[index := None])))"

fun install_regions ::
  "mapping list \<Rightarrow> nat \<Rightarrow> address_space \<Rightarrow> mapping_id option list \<Rightarrow>
     (unit, pe_mapping_error) result \<times> address_space \<times> mapping_id option list" where
  "install_regions [] index space ids = (Ok (), space, ids)"
| "install_regions (m # ms) index space ids =
     (case as_map m space of
        (Ok i, space) \<Rightarrow> install_regions ms (Suc index) space (ids[index := Some i])
      | (Err error, space) \<Rightarrow>
          (case roll_back (rev [0..<index]) space ids of
             (Ok _, space, ids) \<Rightarrow> (Err (PmAddress error), space, ids)
           | (Err e, space, ids) \<Rightarrow> (Err e, space, ids)))"

definition map_pe_image ::
  "address_space \<Rightarrow> u64 \<Rightarrow> bool \<Rightarrow> pe_allocated_region option list \<Rightarrow> nat \<Rightarrow> mapping_id option list \<Rightarrow>
     (nat, pe_mapping_error) result \<times> address_space \<times> mapping_id option list" where
  "map_pe_image space load_base user allocations count ids =
     (if count = 0 \<or> count > MAX_PE_SECTIONS + 1 \<or> count > length allocations then (Err InvalidCount, space, ids)
      else if length ids < count then (Err PmOutputTooSmall, space, ids)
      else let ids = replicate (length ids) None in
      case prepare_regions load_base user (take count allocations) of
        Err e \<Rightarrow> (Err e, space, ids)
      | Ok prepared \<Rightarrow>
          (case install_regions prepared 0 space ids of
             (Err e, space, ids) \<Rightarrow> (Err e, space, ids)
           | (Ok _, space, ids) \<Rightarrow> (Ok count, space, ids)))"

subsection \<open>Service address spaces\<close>

datatype service_space_error =
  WrongArtifact | HandoffMismatch | InvalidKernelMapping | InvalidStack | SsOverflow | SsAddress address_space_error |
  SsImage pe_mapping_error | SsTables build_error | SsPe pe_error | SsAllocation pe_allocation_error

record service_space =
  ss_space :: address_space
  ss_entry :: u64
  ss_stack_top :: u64
  ss_lower_guard :: u64

fun map_kernel :: "mapping list \<Rightarrow> address_space \<Rightarrow> (address_space, service_space_error) result" where
  "map_kernel [] space = Ok space"
| "map_kernel (m # ms) space =
     (if perm_user (mpermissions m) \<or> virt_get (virtual_start m) < 0xffff800000000000 then Err InvalidKernelMapping
      else case as_map m space of
        (Err e, _) \<Rightarrow> Err (SsAddress e)
      | (Ok _, space) \<Rightarrow> map_kernel ms space)"

definition covers_guard :: "u64 \<Rightarrow> mapping \<Rightarrow> bool" where
  "covers_guard lower_guard m \<longleftrightarrow>
     (let start = virt_get (virtual_start m); e = start + mpages m * PAGE_SIZE in
      lower_guard \<ge> start \<and> lower_guard < e)"

definition service_build ::
  "nat \<Rightarrow> pe_image \<Rightarrow> u64 \<Rightarrow> pe_allocated_region option list \<Rightarrow> nat \<Rightarrow> mapping list \<Rightarrow> u64 \<Rightarrow> phys_addr \<Rightarrow> u64 \<Rightarrow>
     (service_space, service_space_error) result" where
  "service_build capacity img load_base allocations allocation_count kernel_mappings stack_base stack_physical stack_pages =
     (if stack_pages = 0 \<or> stack_base < PAGE_SIZE \<or> stack_base mod PAGE_SIZE \<noteq> 0 then Err InvalidStack
      else and_then (ok_or (checked_mul stack_pages PAGE_SIZE) SsOverflow) (\<lambda>stack_bytes.
      and_then (ok_or (checked_add stack_base stack_bytes) SsOverflow) (\<lambda>stack_top.
      if stack_top \<ge> push_bit 47 1 then Err InvalidStack
      else let lower_guard = stack_base - PAGE_SIZE in
      and_then (ok_or (checked_add load_base (ucast (pe_entry_rva img))) SsOverflow) (\<lambda>entry.
      if entry = 0 \<or> entry \<ge> push_bit 47 1 then Err WrongArtifact
      else and_then (map_kernel kernel_mappings (as_new capacity)) (\<lambda>space.
      case map_pe_image space load_base True allocations allocation_count (replicate (MAX_PE_SECTIONS + 1) None) of
        (Err e, _, _) \<Rightarrow> Err (SsImage e)
      | (Ok _, space, _) \<Rightarrow>
      and_then (map_err (\<lambda>_. InvalidStack) (virt_new stack_base)) (\<lambda>stack_start.
      and_then (map_err SsAddress (mapping_new stack_start stack_physical stack_pages USER_READ_WRITE)) (\<lambda>stack.
      case as_map stack space of
        (Err e, _) \<Rightarrow> Err (SsAddress e)
      | (Ok _, space) \<Rightarrow>
          if \<exists>m \<in> set (as_mappings space). covers_guard lower_guard m then Err InvalidStack
          else Ok \<lparr>ss_space = space, ss_entry = entry, ss_stack_top = stack_top, ss_lower_guard = lower_guard\<rparr>))))))) "

definition service_new ::
  "nat \<Rightarrow> verified_executable \<Rightarrow> u64 \<Rightarrow> pe_allocated_region option list \<Rightarrow> nat \<Rightarrow> mapping list \<Rightarrow> u64 \<Rightarrow> phys_addr \<Rightarrow> u64 \<Rightarrow>
     (service_space, service_space_error) result" where
  "service_new capacity executable load_base allocations allocation_count kernel_mappings stack_base stack_physical stack_pages =
     (if va_kind (ve_artifact executable) \<noteq> ServiceImage then Err WrongArtifact
      else service_build capacity (ve_image executable) load_base allocations allocation_count kernel_mappings
        stack_base stack_physical stack_pages)"

text \<open>The loop that assigns the regions of the image to its contiguous physical storage.\<close>

fun place_regions :: "service_launch \<Rightarrow> pe_image \<Rightarrow> nat list \<Rightarrow> (pe_allocated_region option list, service_space_error) result" where
  "place_regions service img [] = Ok []"
| "place_regions service img (index # rest) =
     and_then (map_err SsPe (load_region img index)) (\<lambda>load.
     and_then (map_err SsAllocation (from_contiguous_image load (sl_image_physical service) (sl_image_pages service))) (\<lambda>allocated.
     and_then (place_regions service img rest) (\<lambda>slots. Ok (Some allocated # slots))))"

definition from_handoff_image ::
  "nat \<Rightarrow> service_launch \<Rightarrow> pe_image \<Rightarrow> mapping list \<Rightarrow> (service_space, service_space_error) result" where
  "from_handoff_image capacity service img kernel_mappings =
     and_then (ok_or (checked_mul (sl_image_pages service) PAGE_SIZE) SsOverflow) (\<lambda>expected_bytes.
     and_then (if ucast (pe_image_size img) > expected_bytes \<or> pe_image_base img \<noteq> sl_image_virtual service then Err HandoffMismatch
       else case checked_add (sl_image_virtual service) (ucast (pe_entry_rva img)) of
         None \<Rightarrow> Err SsOverflow
       | Some entry \<Rightarrow> if sl_entry service \<noteq> entry then Err HandoffMismatch else Ok ()) (\<lambda>_.
     let allocation_count = load_region_count img in
     and_then (place_regions service img [0..<allocation_count]) (\<lambda>slots.
     let allocations = slots @ replicate (MAX_PE_SECTIONS + 1 - allocation_count) None in
     and_then (ok_or (checked_mul (sl_stack_pages service) PAGE_SIZE) SsOverflow) (\<lambda>stack_bytes.
     and_then (ok_or (checked_sub (sl_stack_top service) stack_bytes) InvalidStack) (\<lambda>stack_base.
     service_build capacity img (sl_image_virtual service) allocations allocation_count kernel_mappings stack_base
       (sl_stack_physical service) (sl_stack_pages service))))))"

definition from_handoff ::
  "nat \<Rightarrow> service_launch \<Rightarrow> verified_executable \<Rightarrow> mapping list \<Rightarrow> (service_space, service_space_error) result" where
  "from_handoff capacity service executable kernel_mappings =
     (if va_kind (ve_artifact executable) \<noteq> ServiceImage
         \<or> va_version (ve_artifact executable) \<noteq> sl_version service
         \<or> va_digest (ve_artifact executable) \<noteq> sl_measurement service then Err HandoffMismatch
      else from_handoff_image capacity service (ve_image executable) kernel_mappings)"

fun map_all ::
  "'s page_table_store \<Rightarrow> mapping list \<Rightarrow> 's page_table_builder \<Rightarrow> ('s page_table_builder, service_space_error) result" where
  "map_all ops [] b = Ok b"
| "map_all ops (m # ms) b =
     (case table_map ops m b of
        (Err e, _) \<Rightarrow> Err (SsTables e)
      | (Ok _, b) \<Rightarrow> map_all ops ms b)"

definition build_page_tables ::
  "'s page_table_store \<Rightarrow> service_space \<Rightarrow> 's \<Rightarrow> ('s page_table_builder, service_space_error) result" where
  "build_page_tables ops plan store =
     and_then (map_err SsTables (builder_new ops store)) (map_all ops (as_mappings (ss_space plan)))"

definition build_page_tables_with_current_kernel ::
  "'s page_table_store \<Rightarrow> phys_memory \<Rightarrow> u64 \<Rightarrow> service_space \<Rightarrow> 's \<Rightarrow> ('s page_table_builder, service_space_error) result" where
  "build_page_tables_with_current_kernel ops memory cr3 plan store =
     and_then (map_err SsTables (clone_current_supervisor_mappings ops memory cr3 store)) (map_all ops (as_mappings (ss_space plan)))"

section \<open>An image is mapped whole or not at all\<close>

text \<open>A view with some handles bound on top of another, the most recent first.\<close>

fun stacked :: "(mapping_id \<rightharpoonup> mapping) \<Rightarrow> (mapping_id \<times> mapping) list \<Rightarrow> (mapping_id \<rightharpoonup> mapping) \<Rightarrow> bool" where
  "stacked V0 [] V \<longleftrightarrow> V = V0"
| "stacked V0 ((h, m) # xs) V \<longleftrightarrow> (\<exists>W. stacked V0 xs W \<and> W h = None \<and> V = W(h \<mapsto> m))"

lemma stacked_views:
  "stacked V0 xs V \<Longrightarrow> (\<forall>(h, m) \<in> set xs. V h = Some m \<and> V0 h = None) \<and> (\<forall>h. h \<notin> fst ` set xs \<longrightarrow> V h = V0 h)"
proof (induction V0 xs V rule: stacked.induct)
  case (2 V0 h m xs V)
  then obtain W where W: "stacked V0 xs W" "W h = None" "V = W(h \<mapsto> m)" by auto
  have ih: "\<And>h m. (h, m) \<in> set xs \<Longrightarrow> W h = Some m \<and> V0 h = None" "\<And>h. h \<notin> fst ` set xs \<Longrightarrow> W h = V0 h"
    using "2.IH" [OF W(1)] by auto
  have "h \<notin> fst ` set xs" using ih(1) W(2) by fastforce
  then have "V0 h = None" using ih(2) W(2) by simp
  moreover have "V k = Some n \<and> V0 k = None" if "(k, n) \<in> set xs" for k n
    using ih(1) [OF that] W(2,3) by auto
  ultimately show ?case using ih(2) W(3) by auto
qed simp

lemma stackedD:
  assumes "stacked V0 xs V"
  shows "(h, m) \<in> set xs \<Longrightarrow> V h = Some m \<and> V0 h = None" and "h \<notin> fst ` set xs \<Longrightarrow> V h = V0 h"
  using stacked_views [OF assms] by auto

lemma as_free_unmap: "as_free i s = (case as_unmap i s of (r, s') \<Rightarrow> (case r of Ok _ \<Rightarrow> Ok () | Err e \<Rightarrow> Err e, s'))"
  by (auto simp: as_free_def split: prod.splits result.splits)

lemma as_unmap_bound:
  assumes "as_inv s" and "as_view s h = Some m"
  obtains m' s' where "as_unmap h s = (Ok m', s')" "as_inv s'" "as_view s' = (as_view s)(h := None)"
proof -
  obtain r s' where r: "as_unmap h s = (r, s')" by fastforce
  have f: "as_free h s = (case r of Ok _ \<Rightarrow> Ok () | Err e \<Rightarrow> Err e, s')" using r by (simp add: as_free_unmap)
  show ?thesis
  proof (cases r)
    case (Ok m')
    then show ?thesis using that r f spaces.free_ok [OF assms(1), of h "()" s'] spaces.free_inv [OF assms(1), of h] by simp
  next
    case (Err e)
    then show ?thesis using f spaces.free_err [OF assms(1), of h e s'] assms(2) by simp
  qed
qed

lemma roll_back_ok:
  assumes "as_inv s" and "stacked V0 xs (as_view s)" and "length xs \<le> length ids"
    and "\<forall>j < length xs. ids ! j = Some (fst (rev xs ! j))"
  shows "\<exists>s'. roll_back (rev [0..<length xs]) s ids = (Ok (), s', replicate (length xs) None @ drop (length xs) ids) \<and>
     as_inv s' \<and> as_view s' = V0"
  using assms
proof (induction xs arbitrary: s ids)
  case (Cons x xs)
  obtain h m where x: "x = (h, m)" by fastforce
  obtain W where W: "stacked V0 xs W" "W h = None" "as_view s = W(h \<mapsto> m)" using Cons.prems(2) x by auto
  have i: "ids ! length xs = Some h" using Cons.prems(4) x by (auto simp: nth_append)
  have "as_view s h = Some m" using W(3) by simp
  then obtain m' s1 where s1: "as_unmap h s = (Ok m', s1)" "as_inv s1" "as_view s1 = (as_view s)(h := None)"
    by (rule as_unmap_bound [OF Cons.prems(1)])
  have "as_view s1 = W" using s1(3) W(2,3) by auto
  then have "\<exists>s'. roll_back (rev [0..<length xs]) s1 (ids[length xs := None]) =
      (Ok (), s', replicate (length xs) None @ drop (length xs) (ids[length xs := None])) \<and> as_inv s' \<and> as_view s' = V0"
    using Cons.IH [of s1 "ids[length xs := None]"] s1(2) W(1) Cons.prems(3,4) by (auto simp: nth_append less_Suc_eq)
  moreover have "drop (length xs) (ids[length xs := None]) = None # drop (Suc (length xs)) ids"
    using Cons.prems(3) by (simp add: drop_update_swap Cons_nth_drop_Suc [symmetric])
  ultimately show ?case using s1(1) i x by (auto simp: replicate_append_same [symmetric])
qed simp

lemma install_regions_ok:
  assumes "as_inv s" and "stacked V0 xs (as_view s)" and "length xs + length ms \<le> length ids"
    and "\<forall>j < length xs. ids ! j = Some (fst (rev xs ! j))"
    and "install_regions ms (length xs) s ids = (r, s', ids')"
  shows "as_inv s' \<and> (case r of
      Err e \<Rightarrow> e \<noteq> RollbackFailure \<and> as_view s' = V0
    | Ok _ \<Rightarrow> \<exists>ys. map snd ys = ms \<and> stacked V0 (rev ys @ xs) (as_view s') \<and>
        ids' = take (length xs) ids @ map (Some \<circ> fst) ys @ drop (length xs + length ms) ids)"
  using assms
proof (induction ms arbitrary: s xs ids)
  case (Cons m ms)
  show ?case
  proof (cases "as_map m s")
    case (Pair a s1)
    show ?thesis
    proof (cases a)
      case (Ok h)
      note v = spaces.alloc_ok [OF Cons.prems(1) Pair [unfolded Ok]]
      have inv: "as_inv s1" using spaces.alloc_inv [OF Cons.prems(1), of m] Pair by simp
      have st: "stacked V0 ((h, m) # xs) (as_view s1)" using Cons.prems(2) v by auto
      let ?ids = "ids[length xs := Some h]"
      have "install_regions ms (length ((h, m) # xs)) s1 ?ids = (r, s', ids')" using Cons.prems(5) Pair Ok by simp
      moreover have "\<forall>j < length ((h, m) # xs). ?ids ! j = Some (fst (rev ((h, m) # xs) ! j))"
        using Cons.prems(3,4) by (auto simp: nth_append less_Suc_eq)
      ultimately have ih: "as_inv s' \<and> (case r of
          Err e \<Rightarrow> e \<noteq> RollbackFailure \<and> as_view s' = V0
        | Ok _ \<Rightarrow> \<exists>ys. map snd ys = ms \<and> stacked V0 (rev ys @ (h, m) # xs) (as_view s') \<and>
            ids' = take (Suc (length xs)) ?ids @ map (Some \<circ> fst) ys @ drop (Suc (length xs) + length ms) ?ids)"
        using Cons.IH [OF inv st, of ?ids] Cons.prems(3) by (cases r) simp_all
      have "take (Suc (length xs)) ?ids = take (length xs) ids @ [Some h]" "drop (Suc (length xs) + length ms) ?ids = drop (length xs + length (m # ms)) ids"
        using Cons.prems(3) by (simp_all add: take_Suc_conv_app_nth)
      note cut = this
      show ?thesis
      proof (cases r)
        case (Ok u)
        then obtain ys where "map snd ys = ms" "stacked V0 (rev ys @ (h, m) # xs) (as_view s')"
            "ids' = take (Suc (length xs)) ?ids @ map (Some \<circ> fst) ys @ drop (Suc (length xs) + length ms) ?ids"
          using ih by auto
        then have "map snd ((h, m) # ys) = m # ms" "stacked V0 (rev ((h, m) # ys) @ xs) (as_view s')"
            "ids' = take (length xs) ids @ map (Some \<circ> fst) ((h, m) # ys) @ drop (length xs + length (m # ms)) ids"
          unfolding cut by simp_all
        then show ?thesis using ih unfolding Ok result.case by (intro conjI exI [of _ "(h, m) # ys"]) (blast+)
      qed (use ih in simp)
    next
      case (Err e)
      have s1: "s1 = s" using spaces.alloc_err Pair Err by blast
      have "length xs \<le> length ids" using Cons.prems(3) by simp
      from roll_back_ok [OF Cons.prems(1,2) this Cons.prems(4)] show ?thesis using Cons.prems(5) Pair Err s1 by auto
    qed
  qed
qed (auto intro!: exI [of _ "[]"])

text \<open>What preparation yields for each region.\<close>

definition region_mapping :: "u64 \<Rightarrow> bool \<Rightarrow> pe_allocated_region \<Rightarrow> mapping \<Rightarrow> bool" where
  "region_mapping load_base user a m \<longleftrightarrow> mapping_ok m \<and>
     unat (virt_get (virtual_start m)) = unat load_base + unat (lr_virtual_address (ar_load a)) \<and>
     physical_start m = ar_physical_start a \<and> mpages m = ucast (lr_pages (ar_load a)) \<and>
     region_permissions user (ar_load a) = Some (mpermissions m)"

lemma prepare_region_ok:
  assumes "prepare_region load_base user slot = Ok m"
  obtains a where "slot = Some a" "region_mapping load_base user a m"
proof -
  obtain a va p v where a: "slot = Some a" "checked_add load_base (ucast (lr_virtual_address (ar_load a))) = Some va"
      "region_permissions user (ar_load a) = Some p" "virt_new va = Ok v"
      "mapping_new v (ar_physical_start a) (ucast (lr_pages (ar_load a))) p = Ok m"
    using assms by (auto simp: prepare_region_def Let_def)
  have "v = VirtAddr va" using a(4) by (simp add: virt_new_iff)
  then have "region_mapping load_base user a m"
    using a(3) mapping_new_ok [OF a(5)] mapping_new_fields [OF a(5)] checked_add_SomeD(2) [OF a(2)]
    by (simp add: region_mapping_def unat_ucast_u32)
  then show ?thesis using that a(1) by blast
qed

lemma prepare_regions_ok:
  "prepare_regions load_base user slots = Ok ms \<Longrightarrow> \<exists>as. slots = map Some as \<and> list_all2 (region_mapping load_base user) as ms"
proof (induction slots arbitrary: ms)
  case (Cons slot slots)
  then obtain m ms' where m: "prepare_region load_base user slot = Ok m" "prepare_regions load_base user slots = Ok ms'" "ms = m # ms'" by auto
  obtain a where "slot = Some a" "region_mapping load_base user a m" by (rule prepare_region_ok [OF m(1)])
  then show ?case using Cons.IH [OF m(2)] m(3) by (metis list.rel_intros(2) list.simps(9))
qed simp

lemma map_pe_image_ok:
  assumes "as_inv s" and "map_pe_image s load_base user allocations count ids = (r, s', ids')"
  shows "as_inv s' \<and> (case r of
      Err e \<Rightarrow> e \<noteq> RollbackFailure \<and> as_view s' = as_view s
    | Ok n \<Rightarrow> n = count \<and> (\<exists>as ys. take count allocations = map Some as \<and> length as = count \<and>
        list_all2 (region_mapping load_base user) as (map snd ys) \<and>
        stacked (as_view s) (rev ys) (as_view s') \<and> map (Some \<circ> fst) ys = take count ids'))"
proof -
  show ?thesis
  proof (cases "prepare_regions load_base user (take count allocations)")
    case (Ok ms)
    obtain as where as: "take count allocations = map Some as" "list_all2 (region_mapping load_base user) as ms"
      using prepare_regions_ok [OF Ok] by blast
    show ?thesis
    proof (cases "count = 0 \<or> count > MAX_PE_SECTIONS + 1 \<or> count > length allocations \<or> length ids < count")
      case False
      obtain r1 s1 ids1 where i: "install_regions ms 0 s (replicate (length ids) None) = (r1, s1, ids1)"
        by (metis prod_cases3)
      have len: "length ms = count" using as False by (auto dest: list_all2_lengthD simp: map_eq_conv dest!: arg_cong [of _ _ length])
      have fin: "r = (case r1 of Ok _ \<Rightarrow> Ok count | Err e \<Rightarrow> Err e)" "s' = s1" "ids' = ids1"
        using assms(2) False Ok i by (auto simp: map_pe_image_def split: result.splits)
      have "as_inv s1 \<and> (case r1 of
          Err e \<Rightarrow> e \<noteq> RollbackFailure \<and> as_view s1 = as_view s
        | Ok _ \<Rightarrow> \<exists>ys. map snd ys = ms \<and> stacked (as_view s) (rev ys @ []) (as_view s1) \<and>
            ids1 = take 0 (replicate (length ids) None) @ map (Some \<circ> fst) ys @ drop (0 + length ms) (replicate (length ids) None))"
        using install_regions_ok [OF assms(1), of "as_view s" "[]" ms "replicate (length ids) None" r1 s1 ids1] i len False
        by (cases r1) simp_all
      moreover have "length as = count" using as(1) False by (metis length_map length_take min.absorb2 not_le)
      ultimately show ?thesis using as len by (cases r1) (auto simp: fin dest: arg_cong [of _ _ length])
    qed (use assms in \<open>auto simp: map_pe_image_def split: if_splits\<close>)
  next
    case (Err e)
    have "e \<noteq> RollbackFailure"
    proof -
      have "prepare_regions load_base user slots = Err e \<Longrightarrow> e \<noteq> RollbackFailure" for slots
        by (induction slots) (auto simp: and_then_def prepare_region_def Let_def map_err_def ok_or_def split: result.splits option.splits)
      then show ?thesis using Err by blast
    qed
    then show ?thesis using assms Err by (auto simp: map_pe_image_def split: if_splits)
  qed
qed

section \<open>What a service plan holds\<close>

lemma stacked_append: "stacked V0 xs V \<Longrightarrow> stacked V ys W \<Longrightarrow> stacked V0 (ys @ xs) W"
proof (induction ys arbitrary: W)
  case (Cons y ys)
  then show ?case by (cases y) auto
qed simp

lemma ran_stacked: "stacked Map.empty xs V \<Longrightarrow> ran V = snd ` set xs"
proof -
  assume st: "stacked Map.empty xs V"
  have "V h = Some m \<longleftrightarrow> (h, m) \<in> set xs" for h m
  proof
    assume v: "V h = Some m"
    then have "h \<in> fst ` set xs" using stackedD(2) [OF st, of h] by fastforce
    then obtain m' where "(h, m') \<in> set xs" by auto
    then show "(h, m) \<in> set xs" using stackedD(1) [OF st] v by fastforce
  qed (use stackedD(1) [OF st] in blast)
  then show ?thesis by (force simp: ran_def)
qed

lemma as_mappings_ran: "as_inv s \<Longrightarrow> set (as_mappings s) = ran (as_view s)"
proof -
  assume inv: "as_inv s"
  have "\<exists>h. as_view s h = Some m" if "i < length s" "as_mapping (s ! i) = Some m" for i m
  proof -
    have "unat (of_nat i :: u32) = i" using inv that(1) by (simp add: as_inv_def unat_of_nat_u32)
    then show ?thesis using that
      by (intro exI [of _ "\<lparr>mi_slot = of_nat i, mi_generation = as_generation (s ! i)\<rparr>"]) (simp add: as_view_iff)
  qed
  then show ?thesis by (auto simp: set_as_mappings ran_def as_view_iff)
qed

lemma as_new_view: "as_view (as_new n) = Map.empty"
  by (rule ext) (simp add: as_view_eq as_new_def AS_SLOT_EMPTY_def)

lemma map_kernel_ok:
  assumes "as_inv s" and "map_kernel ms s = Ok s'"
  shows "as_inv s' \<and> (\<exists>ys. map snd ys = ms \<and> stacked (as_view s) (rev ys) (as_view s')) \<and>
     (\<forall>m \<in> set ms. \<not> perm_user (mpermissions m) \<and> 0xffff800000000000 \<le> virt_get (virtual_start m))"
  using assms
proof (induction ms arbitrary: s)
  case (Cons m ms)
  obtain h s1 where h: "as_map m s = (Ok h, s1)" "map_kernel ms s1 = Ok s'"
      "\<not> perm_user (mpermissions m)" "\<not> virt_get (virtual_start m) < 0xffff800000000000"
    using Cons.prems(2) by (auto split: if_splits prod.splits result.splits)
  have inv: "as_inv s1" using spaces.alloc_inv [OF Cons.prems(1), of m] h(1) by simp
  note v = spaces.alloc_ok [OF Cons.prems(1) h(1)]
  obtain ys where ys: "map snd ys = ms" "stacked (as_view s1) (rev ys) (as_view s')" using Cons.IH [OF inv h(2)] by blast
  have "stacked (as_view s) [(h, m)] (as_view s1)" using v by simp
  from stacked_append [OF this ys(2)] have "stacked (as_view s) (rev ((h, m) # ys)) (as_view s')" by simp
  then show ?case using Cons.IH [OF inv h(2)] ys(1) h(3,4) by (auto simp: not_less intro!: exI [of _ "(h, m) # ys"])
qed (auto intro!: exI [of _ "[]"])

definition stack_mapping :: "u64 \<Rightarrow> phys_addr \<Rightarrow> u64 \<Rightarrow> mapping" where
  "stack_mapping stack_base stack_physical stack_pages =
     \<lparr>virtual_start = VirtAddr stack_base, physical_start = stack_physical, mpages = stack_pages, mpermissions = USER_READ_WRITE\<rparr>"

lemma case_Ok_iff:
  "(case x of (Err e, _, _) \<Rightarrow> Err (f e) | (Ok u, s, i) \<Rightarrow> g s) = Ok b \<longleftrightarrow> (\<exists>u s i. x = (Ok u, s, i) \<and> g s = Ok b)"
  "(case y of (Err e, _) \<Rightarrow> Err (f e) | (Ok u, s) \<Rightarrow> g s) = Ok b \<longleftrightarrow> (\<exists>u s. y = (Ok u, s) \<and> g s = Ok b)"
  by (auto split: prod.splits result.splits)

lemma service_build_ok:
  assumes "service_build capacity img load_base allocations count kms stack_base stack_physical stack_pages = Ok plan"
    and "capacity \<le> 2 ^ 32"
  obtains as ims where "take count allocations = map Some as" "list_all2 (region_mapping load_base True) as ims"
    "set (as_mappings (ss_space plan)) = set kms \<union> set ims \<union> {stack_mapping stack_base stack_physical stack_pages}"
    "as_inv (ss_space plan)" "mapping_ok (stack_mapping stack_base stack_physical stack_pages)"
    "\<forall>m \<in> set kms. \<not> perm_user (mpermissions m) \<and> 0xffff800000000000 \<le> virt_get (virtual_start m)"
    "\<forall>m \<in> set (as_mappings (ss_space plan)). \<not> covers_guard (ss_lower_guard plan) m"
    "ss_lower_guard plan = stack_base - PAGE_SIZE" "PAGE_SIZE \<le> stack_base" "stack_base mod PAGE_SIZE = 0"
    "unat stack_base + unat stack_pages * 4096 < 2 ^ 47" "unat (ss_entry plan) = unat load_base + unat (pe_entry_rva img)"
    "length as = count" "unat (ss_stack_top plan) = unat stack_base + unat stack_pages * 4096"
proof -
  obtain sbytes stop ent s1 n s2 ids vs st h s3 where b: "\<not> (stack_pages = 0 \<or> stack_base < PAGE_SIZE \<or> stack_base mod PAGE_SIZE \<noteq> 0)"
      "checked_mul stack_pages PAGE_SIZE = Some sbytes" "checked_add stack_base sbytes = Some stop" "\<not> stop \<ge> push_bit 47 1"
      "checked_add load_base (ucast (pe_entry_rva img)) = Some ent" "map_kernel kms (as_new capacity) = Ok s1"
      "map_pe_image s1 load_base True allocations count (replicate (MAX_PE_SECTIONS + 1) None) = (Ok n, s2, ids)"
      "virt_new stack_base = Ok vs" "mapping_new vs stack_physical stack_pages USER_READ_WRITE = Ok st" "as_map st s2 = (Ok h, s3)"
      "\<not> (\<exists>m \<in> set (as_mappings s3). covers_guard (stack_base - PAGE_SIZE) m)"
      "\<lparr>ss_space = s3, ss_entry = ent, ss_stack_top = stop, ss_lower_guard = stack_base - PAGE_SIZE\<rparr> = plan"
    using assms(1) unfolding service_build_def Let_def if_err_Ok_iff and_then_Ok_iff ok_or_eq_Ok map_err_eq_Ok case_Ok_iff result.inject
    by (elim exE conjE) (rule that, assumption+)
  have plan: "plan = \<lparr>ss_space = s3, ss_entry = ent, ss_stack_top = stop, ss_lower_guard = stack_base - PAGE_SIZE\<rparr>" using b(12) by simp
  note k = map_kernel_ok [OF as_new_inv [OF assms(2)] b(6)]
  obtain ys1 where ys1: "map snd ys1 = kms" "stacked Map.empty (rev ys1) (as_view s1)" using k by (auto simp: as_new_view)
  have inv1: "as_inv s1" using k by blast
  note p = map_pe_image_ok [OF inv1 b(7)]
  obtain as ys2 where ys2: "take count allocations = map Some as" "length as = count" "list_all2 (region_mapping load_base True) as (map snd ys2)"
      "stacked (as_view s1) (rev ys2) (as_view s2)" using p by auto
  have inv2: "as_inv s2" using p by blast
  have st: "st = stack_mapping stack_base stack_physical stack_pages"
    using mapping_new_fields [OF b(9)] b(8) by (simp add: stack_mapping_def virt_new_iff)
  have inv3: "as_inv s3" using spaces.alloc_inv [OF inv2, of st] b(10) by simp
  have "stacked (as_view s2) [(h, st)] (as_view s3)" using spaces.alloc_ok [OF inv2 b(10)] by simp
  from stacked_append [OF stacked_append [OF ys1(2) ys2(4)] this]
  have "stacked Map.empty ((h, st) # rev ys2 @ rev ys1) (as_view s3)" by simp
  from ran_stacked [OF this] have "set (as_mappings s3) = insert st (snd ` set ys2 \<union> snd ` set ys1)"
    by (simp add: as_mappings_ran [OF inv3] image_Un)
  moreover have "snd ` set ys1 = set kms" using ys1(1) by (metis list.set_map)
  ultimately have all: "set (as_mappings (ss_space plan)) = set kms \<union> set (map snd ys2) \<union> {stack_mapping stack_base stack_physical stack_pages}"
    using plan st by auto
  have bytes: "unat stop = unat stack_base + unat stack_pages * 4096"
    using checked_add_SomeD(2) [OF b(3)] checked_mul_SomeD(2) [OF b(2)] by (simp add: PAGE_SIZE_def)
  have top: "unat stack_base + unat stack_pages * 4096 < 2 ^ 47"
    using b(4) bytes by (simp add: word_le_nat_alt)
  have ent: "unat (ss_entry plan) = unat load_base + unat (pe_entry_rva img)"
    using checked_add_SomeD(2) [OF b(5)] plan by (simp add: unat_ucast_u32)
  show ?thesis
    by (rule that [OF ys2(1,3) all _ _ _ _ _ _ _ top ent ys2(2)])
      (use bytes inv3 mapping_new_ok [OF b(9)] st k b(1,11) plan in \<open>auto simp: not_less\<close>)
qed

section \<open>Page tables of a plan\<close>

definition page_of :: "mapping \<Rightarrow> virt_addr \<Rightarrow> phys_addr \<Rightarrow> bool" where
  "page_of m v p \<longleftrightarrow> (\<exists>k < unat (mpages m). mapping_page m (of_nat k) = Ok (v, p))"

lemma table_map_pages:
  assumes "pt_inv z b" and "table_map arena_store m b = (Ok u, b')"
  shows "pt_inv z b'" and "\<forall>k < unat (mpages m). \<exists>v p. mapping_page m (of_nat k) = Ok (v, p)"
    and "page_of m v p \<Longrightarrow> pt_view arena_store b v = None \<and> pt_view arena_store b' v = leaf_bits p (mpermissions m) \<and>
       leaf_bits p (mpermissions m) \<noteq> None"
    and "valid_page v \<Longrightarrow> (\<forall>p. \<not> page_of m v p) \<Longrightarrow> pt_view arena_store b' v = pt_view arena_store b v"
proof -
  note t = table_map_view [OF assms, simplified result.case]
  show "pt_inv z b'" using pt_inv_exec [OF assms(1), of "PtMap m"] assms(2) by simp
  show "\<forall>k < unat (mpages m). \<exists>v p. mapping_page m (of_nat k) = Ok (v, p)" using t by blast
  show "page_of m v p \<Longrightarrow> pt_view arena_store b v = None \<and> pt_view arena_store b' v = leaf_bits p (mpermissions m) \<and>
       leaf_bits p (mpermissions m) \<noteq> None"
    using t unfolding page_of_def by fastforce
  show "valid_page v \<Longrightarrow> (\<forall>p. \<not> page_of m v p) \<Longrightarrow> pt_view arena_store b' v = pt_view arena_store b v"
    using t unfolding page_of_def by blast
qed

lemma map_all_ok:
  assumes "pt_inv z b" and "map_all arena_store ms b = Ok b'"
  shows "pt_inv z b' \<and>
     (\<forall>m \<in> set ms. \<forall>k < unat (mpages m). \<exists>v p. mapping_page m (of_nat k) = Ok (v, p)) \<and>
     (\<forall>v. valid_page v \<longrightarrow> pt_view arena_store b v \<noteq> None \<longrightarrow> pt_view arena_store b' v = pt_view arena_store b v) \<and>
     (\<forall>m \<in> set ms. \<forall>v p. page_of m v p \<longrightarrow> pt_view arena_store b' v = leaf_bits p (mpermissions m) \<and> leaf_bits p (mpermissions m) \<noteq> None) \<and>
     (\<forall>v. valid_page v \<longrightarrow> (\<forall>m \<in> set ms. \<forall>p. \<not> page_of m v p) \<longrightarrow> pt_view arena_store b' v = pt_view arena_store b v)"
  using assms
proof (induction ms arbitrary: b)
  case (Cons m ms)
  obtain b1 where b1: "table_map arena_store m b = (Ok (), b1)" "map_all arena_store ms b1 = Ok b'"
    using Cons.prems(2) by (auto split: prod.splits result.splits)
  note t = table_map_pages [OF Cons.prems(1) b1(1)]
  have ih: "pt_inv z b'" "\<And>m. m \<in> set ms \<Longrightarrow> \<forall>k < unat (mpages m). \<exists>v p. mapping_page m (of_nat k) = Ok (v, p)"
      "\<And>v. valid_page v \<Longrightarrow> pt_view arena_store b1 v \<noteq> None \<Longrightarrow> pt_view arena_store b' v = pt_view arena_store b1 v"
      "\<And>m v p. m \<in> set ms \<Longrightarrow> page_of m v p \<Longrightarrow> pt_view arena_store b' v = leaf_bits p (mpermissions m) \<and> leaf_bits p (mpermissions m) \<noteq> None"
      "\<And>v. valid_page v \<Longrightarrow> \<forall>m \<in> set ms. \<forall>p. \<not> page_of m v p \<Longrightarrow> pt_view arena_store b' v = pt_view arena_store b1 v"
    using Cons.IH [OF t(1) b1(2)] by blast+
  have valid: "page_of m v p \<Longrightarrow> valid_page v" for v p by (auto simp: page_of_def dest: mapping_pageD(1))
  have head: "pt_view arena_store b' v = leaf_bits p (mpermissions m) \<and> leaf_bits p (mpermissions m) \<noteq> None" if "page_of m v p" for v p
    using t(3) [OF that] ih(3) [OF valid [OF that]] by simp
  have keep: "pt_view arena_store b' v = pt_view arena_store b v" if "valid_page v" "pt_view arena_store b v \<noteq> None" for v
  proof -
    have "\<forall>p. \<not> page_of m v p" using t(3) that(2) by auto
    then show ?thesis using t(4) [OF that(1)] ih(3) [OF that(1)] that(2) by simp
  qed
  have rest: "pt_view arena_store b' v = pt_view arena_store b v" if "valid_page v" "\<forall>m \<in> set (m # ms). \<forall>p. \<not> page_of m v p" for v
    using ih(5) [OF that(1)] t(4) [OF that(1)] that(2) by simp
  show ?case using ih(1,2,4) t(2) head keep rest by (auto simp del: split_paired_All)
qed simp

lemma builder_new_view:
  assumes "arena_new base pages mem = Ok ar" and "builder_new arena_store ar = Ok b"
  shows "pt_view arena_store b v = None"
proof -
  have i: "arena_inv ar" "arena_tables ar = {}" using arena_new_inv [OF assms(1)] by (simp_all add: arena_tables_def)
  have al: "ps_allocate_zeroed arena_store ar = (Ok (tb_root b), tb_store b)"
    using assms(2) by (auto simp: builder_new_def split: prod.splits result.splits)
  note a = arena.alloc_ok [OF i(1) al]
  obtain path where tr: "arena.tree False (tb_store b) (tb_root b) path" using pt_inv_new [OF assms, of False] by (auto simp: pt_inv_def)
  have "arena.page_at (tb_store b) (tb_root b) v = None"
    using a by (simp add: arena.page_at_def page_lookup_def table_key_def index_less)
  then show ?thesis using arena.pt_view_at [OF tr] by simp
qed

section \<open>The guard page and user access\<close>

lemma as_get_view: "as_get s h = ok_or (as_view s h) InvalidMapping"
  by (auto simp: as_view_def as_get_def ok_or_def split: option.splits result.splits)

lemma below_split_valid: "unat a < 2 ^ 47 \<Longrightarrow> unat a mod 4096 = 0 \<Longrightarrow> valid_page (VirtAddr a)"
proof -
  assume a: "unat a < 2 ^ 47" "unat a mod 4096 = 0"
  then have "a < push_bit 47 1" by (simp add: word_less_nat_alt)
  from below_split_canonical [OF this, of "- 1"] have "canonical a" by simp
  moreover have "unat (a mod 4096) = 0" using a(2) by (simp add: unat_mod)
  then have "a mod 4096 = 0" by (simp only: unat_eq_0)
  ultimately show ?thesis by (auto simp: valid_page_def virt_new_iff PAGE_SIZE_def)
qed

lemma page_of_span:
  assumes "page_of m v p"
  shows "vs_nat m \<le> unat (virt_get v)" "unat (virt_get v) + 4096 \<le> vs_nat m + mbytes m" "frame_aligned p" "valid_page v"
proof -
  obtain k where k: "k < unat (mpages m)" "mapping_page m (of_nat k) = Ok (v, p)" using assms by (auto simp: page_of_def)
  have "unat (of_nat k :: u64) = k" using k(1) by (intro le_unat_uoi [of _ "mpages m"]) simp
  then have "unat (virt_get v) = vs_nat m + k * 4096" using mapping_pageD(3) [OF k(2)] by simp
  moreover have "k * 4096 + 4096 \<le> mbytes m" using k(1) by (simp add: mbytes_def)
  ultimately show "vs_nat m \<le> unat (virt_get v)" "unat (virt_get v) + 4096 \<le> vs_nat m + mbytes m" by simp_all
qed (use assms mapping_pageD(1,2) in \<open>auto simp: page_of_def\<close>)

lemma covers_guard_page:
  assumes "mapping_ok m" and "page_of m (VirtAddr g) p"
  shows "covers_guard g m"
proof -
  note s = page_of_span [OF assms(2)] mapping_okD(2) [OF assms(1)]
  have b: "unat (mpages m * PAGE_SIZE) = mbytes m"
    using s(5) by (simp add: PAGE_SIZE_def unat_word_ariths mbytes_def)
  have "unat (virt_get (virtual_start m) + mpages m * PAGE_SIZE) = vs_nat m + mbytes m"
    using s(5) by (simp add: unat_word_ariths(1) b vs_nat_def)
  then show ?thesis using s(1,2)
    by (simp add: covers_guard_def Let_def word_le_nat_alt word_less_nat_alt vs_nat_def)
qed

lemma bit_leaf_bits:
  assumes "leaf_bits p perms = Some e" and "frame_aligned p"
  shows "bit e 2 = perm_user perms"
proof -
  obtain l where l: "entry_leaf p perms = Ok l" "e = entry_bits l" using assms(1) by (auto simp: leaf_bits_def split: result.splits)
  have "\<not> bit (phys_get p) 2" using assms(2) by (simp add: frame_aligned_def aligned_iff_bits)
  then show ?thesis by (simp add: l(2) bit_leaf [OF l(1)])
qed

section \<open>Properties\<close>

text \<open>
  Mapping an executable image into an address space is atomic.  On any error, a conflict
  with a live mapping or a full table included, the mappings already installed are removed again, no
  rollback ever fails and every mapping identity means what it meant before.  On success every
  region of the image is mapped at its address with its permissions under a fresh identity, reported in
  the caller's array, and every earlier mapping is kept.
\<close>

theorem pe_mapping_atomic:
  assumes "n \<le> 2 ^ 32" and "s = table_run as_map as_free xs (as_new n)"
    and "map_pe_image s load_base user allocations count ids = (r, s', ids')"
  shows "case r of
      Err e \<Rightarrow> e \<noteq> RollbackFailure \<and> (\<forall>h. as_get s' h = as_get s h)
    | Ok c \<Rightarrow> c = count \<and> (\<forall>h m. as_get s h = Ok m \<longrightarrow> as_get s' h = Ok m) \<and>
        (\<forall>i < count. \<exists>a h m. allocations ! i = Some a \<and> ids' ! i = Some h \<and> region_mapping load_base user a m \<and>
           as_get s h = Err InvalidMapping \<and> as_get s' h = Ok m)"
proof -
  have "as_inv s" unfolding assms(2) by (intro spaces.run_inv as_new_inv assms(1))
  note p = map_pe_image_ok [OF this assms(3)]
  show ?thesis
  proof (cases r)
    case (Err e)
    then show ?thesis using p by (simp add: as_get_view)
  next
    case (Ok c)
    obtain as ys where y: "c = count" "take count allocations = map Some as" "length as = count"
        "list_all2 (region_mapping load_base user) as (map snd ys)" "stacked (as_view s) (rev ys) (as_view s')"
        "map (Some \<circ> fst) ys = take count ids'" using p Ok by auto
    have len: "length ys = count" using y(3,4) by (auto dest: list_all2_lengthD)
    have kept: "as_get s' h = Ok m" if "as_get s h = Ok m" for h m
    proof -
      have v: "as_view s h = Some m" using that by (simp add: as_get_view ok_or_eq_Ok)
      then have "h \<notin> fst ` set (rev ys)" using stackedD(1) [OF y(5), of h] by fastforce
      then show ?thesis using stackedD(2) [OF y(5)] v by (simp add: as_get_view)
    qed
    have "allocations ! i = Some (as ! i) \<and> ids' ! i = Some (fst (ys ! i)) \<and> region_mapping load_base user (as ! i) (snd (ys ! i)) \<and>
        as_get s (fst (ys ! i)) = Err InvalidMapping \<and> as_get s' (fst (ys ! i)) = Ok (snd (ys ! i))" if "i < count" for i
    proof (intro conjI)
      show "allocations ! i = Some (as ! i)" using arg_cong [OF y(2), of "\<lambda>l. l ! i"] that y(3) by simp
      show "ids' ! i = Some (fst (ys ! i))" using arg_cong [OF y(6), of "\<lambda>l. l ! i"] that len by simp
      show "region_mapping load_base user (as ! i) (snd (ys ! i))" using list_all2_nthD [OF y(4)] that y(3) len by simp
      have "(fst (ys ! i), snd (ys ! i)) \<in> set (rev ys)" using that len by simp
      note stackedD(1) [OF y(5) this]
      then show "as_get s (fst (ys ! i)) = Err InvalidMapping" "as_get s' (fst (ys ! i)) = Ok (snd (ys ! i))"
        by (simp_all add: as_get_view)
    qed
    then show ?thesis using Ok y(1) kept by auto
  qed
qed

text \<open>
  Property C21.  The page tables built in an arena for a service plan: the page below the stack is not
  mapped, every stack page is mapped to its frame, readable and writable for the user and not
  executable, every mapped page belongs to a mapping of the plan and has exactly its permissions, none is
  writable and executable, and the pages user code reaches all lie in the lower half.
\<close>

theorem service_tables_isolated:
  assumes "service_build capacity img load_base allocations count kms stack_base stack_physical stack_pages = Ok plan"
    and "capacity \<le> 2 ^ 32" and "\<forall>m \<in> set kms. mapping_ok m"
    and "arena_new base pages mem = Ok ar" and "build_page_tables arena_store plan ar = Ok t"
  shows "pt_view arena_store t (VirtAddr (ss_lower_guard plan)) = None \<and>
     (\<forall>k < unat stack_pages. \<exists>v p e. unat (virt_get v) = unat stack_base + k * 4096 \<and>
        unat (phys_get p) = unat (phys_get stack_physical) + k * 4096 \<and>
        pt_view arena_store t v = Some e \<and> leaf_bits p USER_READ_WRITE = Some e \<and> user_accessible arena_store t v) \<and>
     (\<forall>v e. valid_page v \<and> pt_view arena_store t v = Some e \<longrightarrow>
        (\<exists>m \<in> set (as_mappings (ss_space plan)). \<exists>p. page_of m v p \<and> leaf_bits p (mpermissions m) = Some e) \<and>
        \<not> (bit e 1 \<and> \<not> bit e 63) \<and> (user_accessible arena_store t v \<longrightarrow> unat (virt_get v) + 4096 \<le> 2 ^ 47))"
proof -
  let ?stack = "stack_mapping stack_base stack_physical stack_pages"
  let ?ms = "as_mappings (ss_space plan)"
  obtain as ims where b: "list_all2 (region_mapping load_base True) as ims" "set ?ms = set kms \<union> set ims \<union> {?stack}"
      "mapping_ok ?stack" "\<forall>m \<in> set ?ms. \<not> covers_guard (ss_lower_guard plan) m"
      "ss_lower_guard plan = stack_base - PAGE_SIZE" "PAGE_SIZE \<le> stack_base" "stack_base mod PAGE_SIZE = 0"
      "unat stack_base + unat stack_pages * 4096 < 2 ^ 47"
    by (rule service_build_ok [OF assms(1,2)])
  have ok: "mapping_ok m" if "m \<in> set ?ms" for m
  proof -
    have "\<forall>m \<in> set ims. mapping_ok m" using b(1) by (induction rule: list_all2_induct) (auto simp: region_mapping_def)
    then show ?thesis using that b(2,3) assms(3) by auto
  qed
  obtain t0 where t0: "builder_new arena_store ar = Ok t0" "map_all arena_store ?ms t0 = Ok t"
    using assms(5) by (auto simp: build_page_tables_def)
  have all: "pt_inv True t" "\<And>m. m \<in> set ?ms \<Longrightarrow> \<forall>k < unat (mpages m). \<exists>v p. mapping_page m (of_nat k) = Ok (v, p)"
      "\<And>m v p. m \<in> set ?ms \<Longrightarrow> page_of m v p \<Longrightarrow> pt_view arena_store t v = leaf_bits p (mpermissions m) \<and> leaf_bits p (mpermissions m) \<noteq> None"
      "\<And>v. valid_page v \<Longrightarrow> \<forall>m \<in> set ?ms. \<forall>p. \<not> page_of m v p \<Longrightarrow> pt_view arena_store t v = None"
    using map_all_ok [OF pt_inv_new [OF assms(4) t0(1), of True] t0(2)] builder_new_view [OF assms(4) t0(1)] by auto
  have g: "unat (ss_lower_guard plan) = unat stack_base - 4096" "unat stack_base mod 4096 = 0"
    using b(5,6) arg_cong [OF b(7), of unat] by (simp_all add: PAGE_SIZE_def unat_sub unat_mod)
  have "valid_page (VirtAddr (ss_lower_guard plan))"
    using b(6,8) g by (intro below_split_valid) (auto simp: mod_eq_0_iff_dvd intro: dvd_diff_nat)
  then have guard: "pt_view arena_store t (VirtAddr (ss_lower_guard plan)) = None"
    using all(4) covers_guard_page ok b(4) by blast
  have stack: "\<exists>v p e. unat (virt_get v) = unat stack_base + k * 4096 \<and>
        unat (phys_get p) = unat (phys_get stack_physical) + k * 4096 \<and>
        pt_view arena_store t v = Some e \<and> leaf_bits p USER_READ_WRITE = Some e \<and> user_accessible arena_store t v"
    if k: "k < unat stack_pages" for k
  proof -
    have m: "?stack \<in> set ?ms" "mpages ?stack = stack_pages" "mpermissions ?stack = USER_READ_WRITE"
      using b(2) by (simp_all add: stack_mapping_def)
    obtain v p where v: "mapping_page ?stack (of_nat k) = Ok (v, p)" using all(2) [OF m(1)] k m(2) by auto
    then have pg: "page_of ?stack v p" using k m(2) by (auto simp: page_of_def)
    obtain e where e: "pt_view arena_store t v = Some e" "leaf_bits p USER_READ_WRITE = Some e" using all(3) [OF m(1) pg] m(3) by auto
    have "bit e 2" using bit_leaf_bits [OF e(2) page_of_span(3) [OF pg]] by (simp add: USER_READ_WRITE_def perm_user_def)
    then have "user_accessible arena_store t v" using table_access [OF all(1) page_of_span(4) [OF pg] e(1)] by simp
    moreover have "unat (of_nat k :: u64) = k" using k by (intro le_unat_uoi [of _ stack_pages]) simp
    ultimately show ?thesis using e mapping_pageD(3,4) [OF v] by (auto simp: vs_nat_def ps_nat_def stack_mapping_def)
  qed
  have "(\<exists>m \<in> set ?ms. \<exists>p. page_of m v p \<and> leaf_bits p (mpermissions m) = Some e) \<and>
        \<not> (bit e 1 \<and> \<not> bit e 63) \<and> (user_accessible arena_store t v \<longrightarrow> unat (virt_get v) + 4096 \<le> 2 ^ 47)"
    if v: "valid_page v" "pt_view arena_store t v = Some e" for v e
  proof -
    obtain m p where m: "m \<in> set ?ms" "page_of m v p" using all(4) [OF v(1)] v(2) by auto
    have e: "leaf_bits p (mpermissions m) = Some e" using all(3) [OF m] v(2) by simp
    have "unat (virt_get v) + 4096 \<le> 2 ^ 47" if "bit e 2"
      using bit_leaf_bits [OF e page_of_span(3) [OF m(2)]] that mapping_okD(5) [OF ok [OF m(1)]] page_of_span(2) [OF m(2)] by simp
    then show ?thesis using m e table_access [OF all(1) v] by auto
  qed
  then show ?thesis using guard stack by blast
qed

section \<open>A service from the boot handoff\<close>

lemma from_contiguous_image_ok:
  assumes "from_contiguous_image load image_physical image_pages = Ok a"
  shows "ar_load a = load \<and> unat (phys_get (ar_physical_start a)) = unat (phys_get image_physical) + region_base load \<and>
     region_base load + region_bytes load \<le> unat image_pages * 4096"
proof -
  obtain ib rb e pa st where o: "checked_mul image_pages PAGE_SIZE = Some ib" "checked_mul (ucast (lr_pages load)) PAGE_SIZE = Some rb"
      "checked_add (ucast (lr_virtual_address load)) rb = Some e" "\<not> e > ib"
      "checked_add (phys_get image_physical) (ucast (lr_virtual_address load)) = Some pa" "phys_new pa = Ok st"
      "a = \<lparr>ar_load = load, ar_physical_start = st\<rparr>"
    using assms by (auto simp: from_contiguous_image_def Let_def split: option.splits if_splits)
  have "phys_get st = pa" using o(6) by (auto simp: phys_new_def split: if_splits)
  moreover have "unat e = region_base load + region_bytes load" "unat ib = unat image_pages * 4096"
    "unat pa = unat (phys_get image_physical) + region_base load"
    using checked_mul_SomeD(2) [OF o(1)] checked_mul_SomeD(2) [OF o(2)] checked_add_SomeD(2) [OF o(3)] checked_add_SomeD(2) [OF o(5)]
    by (simp_all add: PAGE_SIZE_def region_base_def region_bytes_def unat_ucast_u32)
  ultimately show ?thesis using o(4,7) by (simp add: word_le_nat_alt not_less)
qed

text \<open>The storage of one region of the image, and of all of them in the order of the loop.\<close>

definition placed :: "service_launch \<Rightarrow> pe_image \<Rightarrow> nat \<Rightarrow> pe_allocated_region \<Rightarrow> bool" where
  "placed service img i a \<longleftrightarrow> load_region img i = Ok (ar_load a) \<and>
     from_contiguous_image (ar_load a) (sl_image_physical service) (sl_image_pages service) = Ok a"

lemma place_regions_ok:
  "place_regions service img is = Ok slots \<Longrightarrow> \<exists>as. slots = map Some as \<and> list_all2 (placed service img) is as"
proof (induction "is" arbitrary: slots)
  case (Cons i "is")
  then obtain load a slots' where a: "load_region img i = Ok load"
      "from_contiguous_image load (sl_image_physical service) (sl_image_pages service) = Ok a"
      "place_regions service img is = Ok slots'" "slots = Some a # slots'" by auto
  have "placed service img i a" using from_contiguous_image_ok [OF a(2)] a(1,2) by (simp add: placed_def)
  moreover obtain as where "slots' = map Some as" "list_all2 (placed service img) is as"
    using Cons.IH [OF a(3)] by blast
  ultimately show ?case using a by (intro exI [of _ "a # as"]) simp
qed simp

lemma from_handoff_image_ok:
  assumes "from_handoff_image capacity service img kms = Ok plan"
  obtains as stack_base where
    "service_build capacity img (sl_image_virtual service) (map Some as @ replicate (MAX_PE_SECTIONS + 1 - load_region_count img) None)
       (load_region_count img) kms stack_base (sl_stack_physical service) (sl_stack_pages service) = Ok plan"
    "list_all2 (placed service img) [0..<load_region_count img] as"
    "unat (sl_entry service) = unat (sl_image_virtual service) + unat (pe_entry_rva img)"
    "unat stack_base + unat (sl_stack_pages service) * 4096 = unat (sl_stack_top service)"
proof -
  obtain sl sb base en where o: "place_regions service img [0..<load_region_count img] = Ok sl"
      "checked_mul (sl_stack_pages service) PAGE_SIZE = Some sb" "checked_sub (sl_stack_top service) sb = Some base"
      "service_build capacity img (sl_image_virtual service) (sl @ replicate (MAX_PE_SECTIONS + 1 - load_region_count img) None)
       (load_region_count img) kms base (sl_stack_physical service) (sl_stack_pages service) = Ok plan"
      "checked_add (sl_image_virtual service) (ucast (pe_entry_rva img)) = Some en" "sl_entry service = en"
    using assms by (auto simp: from_handoff_image_def Let_def split: if_splits option.splits)
  have "unat base + unat (sl_stack_pages service) * 4096 = unat (sl_stack_top service)"
    using o(3) checked_mul_SomeD(2) [OF o(2)]
    by (auto simp: checked_sub_def PAGE_SIZE_def unat_sub word_le_nat_alt split: if_splits)
  moreover obtain as where "sl = map Some as" "list_all2 (placed service img) [0..<load_region_count img] as"
    using place_regions_ok [OF o(1)] by blast
  moreover have "unat (sl_entry service) = unat (sl_image_virtual service) + unat (pe_entry_rva img)"
    using checked_add_SomeD(2) [OF o(5)] o(6) by (simp add: unat_ucast_u32)
  ultimately show ?thesis using that o(4) by blast
qed

definition frames_in :: "mapping \<Rightarrow> phys_addr \<Rightarrow> u64 \<Rightarrow> bool" where
  "frames_in m start pages \<longleftrightarrow>
     unat (phys_get start) \<le> ps_nat m \<and> ps_nat m + mbytes m \<le> unat (phys_get start) + unat pages * 4096"

lemma user_permissions:
  "perm_user USER_READ" "perm_user USER_READ_WRITE" "perm_user USER_READ_EXECUTE"
  by (simp_all add: USER_READ_def USER_READ_WRITE_def USER_READ_EXECUTE_def perm_user_def)

lemma region_permissions_user:
  assumes "region_permissions True load = Some p"
  shows "perm_user p" and "lr_executable load \<Longrightarrow> p = USER_READ_EXECUTE"
  using assms user_permissions by (auto simp: region_permissions_def split: if_splits)

lemma region_mapping_in_image:
  assumes "region_mapping load_base True a m" and "placed service img i a"
  shows "frames_in m (sl_image_physical service) (sl_image_pages service)" "perm_user (mpermissions m)"
    "vs_nat m = unat load_base + region_base (ar_load a)" "mbytes m = region_bytes (ar_load a)"
    "lr_executable (ar_load a) \<Longrightarrow> mpermissions m = USER_READ_EXECUTE"
  using assms(1) from_contiguous_image_ok [OF conjunct2 [OF assms(2) [unfolded placed_def]]]
    region_permissions_user [of "ar_load a" "mpermissions m"]
  by (simp_all add: region_mapping_def frames_in_def ps_nat_def vs_nat_def mbytes_def region_base_def region_bytes_def unat_ucast_u32)

text \<open>The region of an accepted image that holds its entry.\<close>

lemma entry_region:
  assumes "parse_with_limit encoded limit = Ok img"
  obtains i e where "i < load_region_count img" "load_region img i = Ok e" "lr_executable e"
    "region_base e \<le> unat (pe_entry_rva img)" "unat (pe_entry_rva img) < region_base e + region_bytes e"
proof -
  note ok = parse_pe_ok(1) [OF assms]
  obtain n s where s: "n < pe_section_count img" "pe_section_at img n = Ok s" "ps_executable s"
      "sec_start s \<le> unat (pe_entry_rva img)" "unat (pe_entry_rva img) < sec_start s + sec_size s"
    using ok by (auto simp: pe_ok_def)
  have n: "Suc n < load_region_count img" using s(1) by (simp add: load_region_count_def)
  obtain e where "load_region img (Suc n) = Ok e" "lr_executable e" "region_base e = sec_start s" "region_bytes e = page_up (sec_size s)"
    using load_region_ok [OF ok n] s(2,3) by auto
  then show ?thesis using that [OF n, of e] s(4,5) le_page_up [of "sec_size s"] by simp
qed

text \<open>
  Property C22.  A service built from the boot handoff enters at the entry the handoff names, inside an
  executable read-only user mapping of its own image, with the stack top of the handoff; every user
  mapping of its address space lies wholly in the image or the stack storage the handoff granted,
  and every other mapping is one of the kernel's, in the upper half.
\<close>

theorem handoff_service_confined:
  assumes "parse_with_limit encoded limit = Ok img" and "from_handoff_image capacity service img kms = Ok plan"
    and "capacity \<le> 2 ^ 32"
  shows "ss_entry plan = sl_entry service \<and> ss_stack_top plan = sl_stack_top service \<and>
     (\<exists>m \<in> set (as_mappings (ss_space plan)). mpermissions m = USER_READ_EXECUTE \<and>
        frames_in m (sl_image_physical service) (sl_image_pages service) \<and>
        vs_nat m \<le> unat (sl_entry service) \<and> unat (sl_entry service) < vs_nat m + mbytes m) \<and>
     (\<forall>m \<in> set (as_mappings (ss_space plan)).
        if perm_user (mpermissions m)
        then frames_in m (sl_image_physical service) (sl_image_pages service) \<or> frames_in m (sl_stack_physical service) (sl_stack_pages service)
        else m \<in> set kms \<and> 2 ^ 64 - 2 ^ 47 \<le> vs_nat m)"
proof -
  obtain as base where h: "service_build capacity img (sl_image_virtual service)
       (map Some as @ replicate (MAX_PE_SECTIONS + 1 - load_region_count img) None)
       (load_region_count img) kms base (sl_stack_physical service) (sl_stack_pages service) = Ok plan"
      "list_all2 (placed service img) [0..<load_region_count img] as"
      "unat (sl_entry service) = unat (sl_image_virtual service) + unat (pe_entry_rva img)"
      "unat base + unat (sl_stack_pages service) * 4096 = unat (sl_stack_top service)"
    by (rule from_handoff_image_ok [OF assms(2)])
  let ?ms = "as_mappings (ss_space plan)"
  let ?stack = "stack_mapping base (sl_stack_physical service) (sl_stack_pages service)"
  obtain as' ims where b: "take (load_region_count img) (map Some as @ replicate (MAX_PE_SECTIONS + 1 - load_region_count img) None) = map Some as'"
      "list_all2 (region_mapping (sl_image_virtual service) True) as' ims" "set ?ms = set kms \<union> set ims \<union> {?stack}"
      "\<forall>m \<in> set kms. \<not> perm_user (mpermissions m) \<and> 0xffff800000000000 \<le> virt_get (virtual_start m)"
      "unat (ss_entry plan) = unat (sl_image_virtual service) + unat (pe_entry_rva img)"
      "unat (ss_stack_top plan) = unat base + unat (sl_stack_pages service) * 4096"
    by (rule service_build_ok [OF h(1) assms(3)])
  have len: "length as = load_region_count img" using list_all2_lengthD [OF h(2)] by simp
  then have as': "as' = as" using b(1) by (simp add: map_injective inj_def)
  have reg: "placed service img i (as ! i)" "region_mapping (sl_image_virtual service) True (as ! i) (ims ! i)" "ims ! i \<in> set ims"
    if "i < load_region_count img" for i
    using list_all2_nthD [OF h(2), of i] list_all2_nthD [OF b(2), of i] list_all2_lengthD [OF b(2)] that len by (simp_all add: as')
  have each: "if perm_user (mpermissions m)
        then frames_in m (sl_image_physical service) (sl_image_pages service) \<or> frames_in m (sl_stack_physical service) (sl_stack_pages service)
        else m \<in> set kms \<and> 2 ^ 64 - 2 ^ 47 \<le> vs_nat m" if m: "m \<in> set ?ms" for m
  proof -
    consider "m \<in> set kms" | i where "i < load_region_count img" "m = ims ! i" | "m = ?stack"
      using m b(2,3) len by (auto simp: in_set_conv_nth as' dest: list_all2_lengthD)
    then show ?thesis
    proof cases
      case 1
      then show ?thesis using b(4) by (auto simp: vs_nat_def word_le_nat_alt)
    next
      case 2
      then show ?thesis using region_mapping_in_image(1,2) [OF reg(2,1) [OF 2(1)]] by simp
    next
      case 3
      then show ?thesis by (simp add: stack_mapping_def frames_in_def ps_nat_def mbytes_def user_permissions)
    qed
  qed
  obtain i e where i: "i < load_region_count img" "load_region img i = Ok e" "lr_executable e"
      "region_base e \<le> unat (pe_entry_rva img)" "unat (pe_entry_rva img) < region_base e + region_bytes e"
    by (rule entry_region [OF assms(1)])
  note im = region_mapping_in_image [OF reg(2,1) [OF i(1)]]
  have e: "ar_load (as ! i) = e" using reg(1) [OF i(1)] i(2) by (simp add: placed_def)
  have "ims ! i \<in> set ?ms" using reg(3) [OF i(1)] b(3) by simp
  moreover have "vs_nat (ims ! i) \<le> unat (sl_entry service)" "unat (sl_entry service) < vs_nat (ims ! i) + mbytes (ims ! i)"
    using im(3,4) e i(4,5) h(3) by simp_all
  moreover have "ss_entry plan = sl_entry service" "ss_stack_top plan = sl_stack_top service"
    using b(5,6) h(3,4) by (simp_all add: word_unat_eq_iff)
  ultimately show ?thesis using im(1,5) i(3) e each by blast
qed

section \<open>A concrete service\<close>

definition demo_region :: "u32 \<Rightarrow> bool \<Rightarrow> pe_allocated_region" where
  "demo_region rva x = \<lparr>ar_load = \<lparr>lr_virtual_address = rva, lr_pages = 1, lr_readable = True, lr_writable = False, lr_executable = x\<rparr>,
     ar_physical_start = PhysAddr (0x200000 + ucast rva)\<rparr>"

definition demo_allocations :: "pe_allocated_region option list" where
  "demo_allocations = map Some [demo_region 0 False, demo_region 0x1000 True, demo_region 0x2000 False]"

definition demo_service :: service_launch where
  "demo_service = \<lparr>sl_artifact_physical = PhysAddr 0x600000, sl_artifact_length = 1024, sl_image_physical = PhysAddr 0x200000,
     sl_image_pages = 3, sl_image_virtual = 0x400000, sl_entry = 0x401000, sl_stack_physical = PhysAddr 0x300000,
     sl_stack_pages = 2, sl_stack_top = 0x702000, sl_table_physical = PhysAddr 0x100000, sl_table_pages = 8,
     sl_version = 1, sl_measurement = []\<rparr>"

definition demo_kernel_page :: mapping where
  "demo_kernel_page = \<lparr>virtual_start = VirtAddr 0xffff800000000000, physical_start = PhysAddr 0x500000, mpages = 1,
     mpermissions = KERNEL_READ_WRITE\<rparr>"

text \<open>Of the image, building a plan reads the entry only.\<close>

definition entry_image :: "u32 \<Rightarrow> pe_image" where
  "entry_image entry = \<lparr>pe_encoded = [], pe_image_base = 0, pe_entry_rva = entry, pe_image_size = 0, pe_headers_size = 0,
     pe_section_table = 0, pe_section_count = 0, pe_relocation_rva = 0, pe_relocation_size = 0\<rparr>"

lemma service_build_entry_only: "service_build capacity img = service_build capacity (entry_image (pe_entry_rva img))"
proof -
  have "pe_entry_rva (entry_image (pe_entry_rva img)) = pe_entry_rva img" by (simp add: entry_image_def)
  then show ?thesis by (intro ext) (simp only: service_build_def)
qed

definition plan_of :: "(service_space, service_space_error) result \<Rightarrow> service_space" where
  "plan_of r = (case r of Ok plan \<Rightarrow> plan
     | Err _ \<Rightarrow> \<lparr>ss_space = [], ss_entry = 0, ss_stack_top = 0, ss_lower_guard = 0\<rparr>)"

lemma plan_of_ok: "is_ok r \<Longrightarrow> r = Ok (plan_of r)"
  by (cases r) (simp_all add: plan_of_def)

definition demo_plan :: service_space where
  "demo_plan = plan_of (service_build 5 (entry_image 0x1000) 0x400000 (demo_allocations @ replicate 30 None) 3 [demo_kernel_page]
     0x700000 (PhysAddr 0x300000) 2)"

lemma demo_service_build:
  "service_build 5 demo_image 0x400000 (demo_allocations @ replicate 30 None) 3 [demo_kernel_page] 0x700000 (PhysAddr 0x300000) 2 = Ok demo_plan"
proof -
  have "is_ok (service_build 5 (entry_image 0x1000) 0x400000 (demo_allocations @ replicate 30 None) 3 [demo_kernel_page]
     0x700000 (PhysAddr 0x300000) 2)" by code_simp
  from plan_of_ok [OF this] show ?thesis by (simp add: demo_plan_def service_build_entry_only [of 5 demo_image])
qed

theorem pe_mapping_atomic_witness:
  "\<exists>e s'. map_pe_image (as_new 2) 0x400000 True demo_allocations 3 [None, None, None] = (Err e, s', [None, None, None]) \<and>
     e \<noteq> RollbackFailure \<and> (\<forall>h. as_get s' h = as_get (as_new 2) h)"
proof -
  let ?r = "map_pe_image (as_new 2) 0x400000 True demo_allocations 3 [None, None, None]"
  have "case ?r of (Err _, _, ids) \<Rightarrow> ids = [None, None, None] | _ \<Rightarrow> False" by code_simp
  then obtain e s' where r: "?r = (Err e, s', [None, None, None])" by (auto split: prod.splits result.splits)
  then show ?thesis
    using pe_mapping_atomic [of 2 "as_new 2" "[]" "0x400000" True demo_allocations 3 "[None, None, None]" "Err e" s' "[None, None, None]"]
    by simp
qed

text \<open>A plan of one image page and one stack page, and its tables.\<close>

definition small_plan :: service_space where
  "small_plan = plan_of (service_build 2 (entry_image 0) 0x400000 [Some (demo_region 0 True)] 1 [] 0x403000 (PhysAddr 0x300000) 1)"

definition small_tables :: "(arena page_table_builder, service_space_error) result" where
  "small_tables = build_page_tables arena_store small_plan demo_arena"

theorem service_tables_isolated_witness:
  "\<exists>t. small_tables = Ok t \<and> pt_view arena_store t (VirtAddr (ss_lower_guard small_plan)) = None \<and>
     (\<exists>v e. unat (virt_get v) = 0x403000 \<and> pt_view arena_store t v = Some e \<and> user_accessible arena_store t v)"
proof -
  have "is_ok (service_build 2 (entry_image 0) 0x400000 [Some (demo_region 0 True)] 1 [] 0x403000 (PhysAddr 0x300000) 1)"
    and tables: "is_ok small_tables" by code_simp+
  from plan_of_ok [OF this(1)] have plan: "service_build 2 (entry_image 0) 0x400000 [Some (demo_region 0 True)] 1 [] 0x403000
      (PhysAddr 0x300000) 1 = Ok small_plan" by (simp add: small_plan_def)
  obtain t where t: "small_tables = Ok t" using tables by (auto simp: is_ok_def split: result.splits)
  have "arena_new (PhysAddr 0x100000) 8 (\<lambda>_. 0) = Ok demo_arena"
    by (simp add: arena_new_def demo_arena_def PAGE_SIZE_def checked_mul_def checked_add_def Let_def)
  note s = service_tables_isolated [OF plan _ _ this t [unfolded small_tables_def]]
  have "pt_view arena_store t (VirtAddr (ss_lower_guard small_plan)) = None" using s by simp
  moreover have "\<exists>v e. unat (virt_get v) = 0x403000 \<and> pt_view arena_store t v = Some e \<and> user_accessible arena_store t v"
    using s [THEN conjunct2, THEN conjunct1, rule_format, of 0] by auto
  ultimately show ?thesis using t by blast
qed

lemma demo_regions:
  "load_region demo_image 0 = Ok (ar_load (demo_region 0 False))"
  "load_region demo_image (Suc 0) = Ok (ar_load (demo_region 0x1000 True))"
  "load_region demo_image (Suc (Suc 0)) = Ok (ar_load (demo_region 0x2000 False))"
proof -
  have p: "pages_for 512 = Ok 1" "pages_for 1 = Ok 1" by code_simp+
  show "load_region demo_image 0 = Ok (ar_load (demo_region 0 False))"
    "load_region demo_image (Suc 0) = Ok (ar_load (demo_region 0x1000 True))"
    "load_region demo_image (Suc (Suc 0)) = Ok (ar_load (demo_region 0x2000 False))"
    by (simp_all add: load_region_def demo_region_def p demo_sections demo_flags)
qed

lemma demo_contiguous:
  "from_contiguous_image (ar_load (demo_region 0 False)) (PhysAddr 0x200000) 3 = Ok (demo_region 0 False)"
  "from_contiguous_image (ar_load (demo_region 0x1000 True)) (PhysAddr 0x200000) 3 = Ok (demo_region 0x1000 True)"
  "from_contiguous_image (ar_load (demo_region 0x2000 False)) (PhysAddr 0x200000) 3 = Ok (demo_region 0x2000 False)"
  by code_simp+

lemma demo_from_handoff: "from_handoff_image 5 demo_service demo_image [demo_kernel_page] = Ok demo_plan"
proof -
  have "place_regions demo_service demo_image [0..<load_region_count demo_image] = Ok demo_allocations"
    by (simp add: load_region_count_def upt_rec demo_regions demo_service_def demo_contiguous demo_allocations_def)
  moreover have "checked_mul (3 :: u64) PAGE_SIZE = Some 0x3000" "checked_mul (2 :: u64) PAGE_SIZE = Some 0x2000"
    "checked_sub (0x702000 :: u64) 0x2000 = Some 0x700000" "checked_add (0x400000 :: u64) 0x1000 = Some 0x401000" by code_simp+
  ultimately show ?thesis using demo_service_build
    by (simp add: from_handoff_image_def demo_service_def load_region_count_def MAX_PE_SECTIONS_def Let_def)
qed

theorem handoff_service_confined_witness:
  "ss_entry demo_plan = 0x401000 \<and> (\<exists>m \<in> set (as_mappings (ss_space demo_plan)). mpermissions m = USER_READ_EXECUTE \<and>
     vs_nat m \<le> 0x401000 \<and> 0x401000 < vs_nat m + mbytes m)"
  using handoff_service_confined [OF demo_pe_parses demo_from_handoff] by (auto simp: demo_service_def)

end
