(* ===== verification/Spec2Isabelle.thy ===== *)
theory Spec2Isabelle
  imports Scheduling_Liveness Domain_Balancer Service_Lifecycle Directory_Grant Vm_Dispatch Vm_Policy Service_Space
begin

text \<open>
  MRML is an operating-system kernel written in Rust together with the tools that build and sign its
  images.  This development models the kernel library \<open>src/crates/mrml-kernel/src\<close> and the two
  cryptographic primitives of its boot chain, \<open>sha3.rs\<close> and \<open>lamport.rs\<close> of
  \<open>src/crates/mrml-crypto/src\<close>, with \<open>sign_bundle\<close> of the tool \<open>src/crates/mrml-sign\<close>.

  \<^bold>\<open>The program.\<close>  The firmware loader verifies a signed kernel and a signed first service, places them in
  memory and passes a handoff buffer to the kernel.  The kernel decodes it, builds its frame
  allocator over the memory map, reconstructs the address space of the service from the parsed image
  and builds page tables for it.  From then on a task runtime owns one domain per task, a saved user
  context, a capability space and an inbox, and a scheduler that decides which domain runs.
  Traps and system calls save the context, perform capability transfers and message deliveries between
  domains, and retire tasks; a supervisor restarts services; balancers move whole domains
  between processors through single-slot mailboxes.  Virtual machines are the second kind of client:
  a table of machines with exit budgets, guest memory, a hypercall router and an exit dispatcher over a
  hypervisor adapter, under a launch policy that assigns devices.

  \<^bold>\<open>Conventions.\<close>  A struct is a record, an enum a datatype, an integer of \<open>w\<close> bits a word of that
  length; fixed arrays are lists whose length is the const generic of the code.  Methods take the
  state as their last argument and return their result before the new state, so every early return
  and every error is a branch of the definition.  \<open>Result\<close> is the datatype \<open>result\<close>; checked and
  saturating arithmetic is defined in \<open>Kernel_Prelude\<close>.  A loop is a recursive function of its own, named
  in the manifest with the lines of the loop.  Where a slice access could panic the model has
  a value for it.

  \<^bold>\<open>Theories and sources.\<close>  Paths are relative to \<open>src/crates/mrml-kernel/src\<close>.
  \<^item> \<open>Kernel_Prelude\<close>, \<open>Slots\<close>: words, results, byte strings, arrays of optional slots with keys.
  \<^item> \<open>Capability\<close>: \<open>capability.rs\<close>.  \<open>Memory\<close>: \<open>memory.rs\<close>.  \<open>Ipc\<close>: \<open>ipc.rs\<close>.
  \<^item> \<open>Scheduler\<close>, \<open>Scheduling_Liveness\<close>, \<open>Mailbox\<close>: \<open>scheduler.rs\<close>.
  \<^item> \<open>Paging\<close>: \<open>arch/x86_64.rs\<close>.  \<open>User_Mode\<close>: \<open>arch/x86_64/trap.rs\<close>, \<open>context.rs\<close> and \<open>syscall.rs\<close>.
  \<^item> \<open>Task_Runtime\<close>, \<open>Runtime_Safety\<close>, \<open>Domain_Balancer\<close>: \<open>task_runtime.rs\<close>.
  \<^item> \<open>Service_Lifecycle\<close>: \<open>service_lifecycle.rs\<close>.  \<open>Directory_Grant\<close>: \<open>grant.rs\<close>.
  \<^item> \<open>Vm_Table\<close>, \<open>Guest_Memory\<close>, \<open>Hypercall\<close>: \<open>vm.rs\<close>.  \<open>Vm_Dispatch\<close>: \<open>vm_dispatch.rs\<close> and
    \<open>vm_interrupt.rs\<close>.  \<open>Vm_Policy\<close>: \<open>policy.rs\<close> and the roles of \<open>platform.rs\<close>.
  \<^item> \<open>Address_Space\<close>: \<open>arch/x86_64/address_space.rs\<close>.  \<open>Page_Table\<close>, \<open>Page_Table_Arena\<close>, \<open>Page_Clone\<close>:
    \<open>arch/x86_64/page_table.rs\<close>.
  \<^item> \<open>Pe_Image\<close>, \<open>Pe_Loader\<close>: \<open>pe.rs\<close>.  \<open>Service_Space\<close>: \<open>arch/x86_64/pe_mapping.rs\<close> and \<open>service_space.rs\<close>.
  \<^item> \<open>Sha3\<close>, \<open>Lamport\<close>: \<open>sha3.rs\<close> and \<open>lamport.rs\<close> of \<open>mrml-crypto\<close>.  \<open>Artifact\<close>: \<open>artifact.rs\<close>, \<open>boot.rs\<close> and
    \<open>sign_bundle\<close>.  \<open>Handoff\<close>: \<open>handoff.rs\<close> and the descriptor of \<open>framebuffer.rs\<close>.

  \<^bold>\<open>Interfaces.\<close>  Contracts that several components share, or that one component relies on, are locales, each
  interpreted on the definitions of the code:
  \<^item> \<open>codec\<close>, an encoder and a decoder that are inverse on well-formed values: \<open>wire\<close> (messages), \<open>descriptor\<close>
    (hypercalls), \<open>releases\<close>, \<open>bootstate\<close> and \<open>bundles\<close> (signed artifacts).
  \<^item> \<open>handle_table\<close>, generational handles as a partial map, and its extension \<open>retiring_table\<close>, where a
    released handle never returns: \<open>space\<close> (capabilities, which wrap and so satisfy the first only), \<open>table\<close>
    (tasks), \<open>vms\<close> (machines), \<open>spaces\<close> (mappings).
  \<^item> \<open>table_store\<close> and \<open>bounded_table_store\<close>, the storage of page tables behind the trait \<open>PageTableStore\<close>: \<open>arena\<close>,
    \<open>copies\<close> and \<open>identity\<close>.
  \<^item> \<open>monotonic_store\<close>, the compare-and-store of the release state, whose implementations are outside the
    sources: \<open>tests\<close> interprets it on the store of the sources' own tests.

  \<^bold>\<open>What is shown.\<close>
  \<^item> Authority: capability spaces implement a partial map; derivation only attenuates; transfers and sends are
    atomic and give the receiver exactly what was delegated; a revoked handle revives exactly after
    \<open>2 ^ 32 - 1\<close> uses of its slot.
  \<^item> Tasks: the scheduler's tasks are exactly those with a domain over every sequence of operations and the
    integrity errors of the code are unreachable; inboxes are queues; timer ticks starve nobody within a
    stated bound, mutual wake-ups can; balancing neither loses nor duplicates a domain; the
    mailbox is linear under every interleaving of its atomic steps; contexts stay unprivileged;
    restarts respect authority, budget and backoff.
  \<^item> Memory: no frame is granted twice; live mappings never alias; the page-table operations refine a partial
    map from pages to leaf entries for every history of calls, no page is writable and executable, and
    user mode reaches user leaves only; copies of a supervisor hierarchy succeed exactly when the source
    is well formed and the frames last, and translate every address as the source does; changes of the
    active tables invalidate what they change.
  \<^item> Boot: SHA-3 and SHAKE equal the functions of FIPS 202; one-time signatures verify exactly by their hash
    chains; accepted executables are authentic and releases form one chain; the handoff decodes to what
    was encoded and the frame allocator never grants storage it protects; images are materialised and
    moved exactly; a service from the handoff is confined to the storage granted to it, with an absent guard
    page below its stack.
  \<^item> Virtual machines: lifecycle and budgets; guest memory is a partial map without aliases; an exit has its
    disposition exactly when the policy allows it and fails the machine otherwise; interrupts and devices need
    exact authority.

  \<^bold>\<open>Bounds and termination.\<close>  No definition uses fuel.  Loops over arrays are structural; the cursor of the
  frame allocator, the relocation walk, the squeezing loop of the sponge and the copy of page
  tables (by level, then by entry) have measures.  Hypotheses such as \<open>n \<le> 2 ^ 32\<close> bound capacities by the
  32-bit slot field of the identities; capacities in the code are small constants.  The bound of an arena
  is the 256 frames that \<open>arena_new\<close> accepts.

  \<^bold>\<open>Parameters.\<close>  The hypervisor adapter (\<open>VmBackend\<close>), the release-state store, and physical memory and \<open>cr3\<close>
  of the running processor are arguments of the definitions that use them.

  \<^bold>\<open>Not modelled.\<close>  Code whose effect is on hardware registers the sources do not describe (descriptor
  tables, interrupt controllers, processor bring-up, the assembly of trap entry and exit), pixel
  output, the virtual GPU protocol, and the programs outside the kernel: the compiler, the codecs, inference
  and training, network clients, hypervisor back ends and platform layers.  The weak memory order of the
  mailbox is modelled as sequential consistency of its atomic accesses, which its acquire and release
  pairs give for a single location.

  \<^bold>\<open>Findings.\<close>  Wake-ups can starve a runnable task although a comment excludes it
  (\<open>ks_wake_starvation\<close>); capability generations wrap and revive revoked handles, where every other
  table of the kernel retires the slot (\<open>cap_stale_handle_revalidates_after_wrap\<close>); protecting a low supervisor
  page to user permissions succeeds without making it reachable (\<open>protect_to_user_unreachable\<close>);
  contiguous runs are aligned relative to their region only; a restart delay that overflows leaves the
  old restart time in force.
\<close>

end
